(* ===== verification/Prelude.thy ===== *)
theory Prelude
  imports Main "HOL-Library.Word"
begin

text \<open>
  Shared by every other theory of the development: names for the machine types of the C code,
  the unsigned size arithmetic of a 64-bit \<open>size_t\<close>, the two sequencing combinators that stand for
  the source's \<open>if (!f(...)) return 0;\<close>, and the generic lemmas on bytes, base-256 numbers and
  disjoint bit fields that the component theories use.
\<close>

unbundle bit_operations_syntax

section \<open>Machine types\<close>

type_synonym u8 = "8 word"
type_synonym u16 = "16 word"
type_synonym u32 = "32 word"
type_synonym u64 = "64 word"

named_theorems bytes_simps \<open>lengths and values of byte strings\<close>
named_theorems step_simps \<open>one step of a source operation, for symbolic execution\<close>

text \<open>Lengths, capacities and counts are \<open>size_t\<close>: natural numbers reduced modulo two to the 64.\<close>

definition size_t :: "nat \<Rightarrow> nat" where
  "size_t n = n mod 18446744073709551616"

definition SIZE_MAX :: nat where
  "SIZE_MAX = 18446744073709551615"

definition INT_MAX :: nat where
  "INT_MAX = 2147483647"

lemma size_t_le: "size_t n \<le> SIZE_MAX"
  using mod_less_divisor [of "18446744073709551616::nat" n] unfolding size_t_def SIZE_MAX_def by arith

lemma size_t_id [simp]: "n \<le> SIZE_MAX \<Longrightarrow> size_t n = n"
  by (simp add: size_t_def SIZE_MAX_def)

lemma size_t_le_arg: "size_t n \<le> n"
  by (simp add: size_t_def)

text \<open>
  The overflow test \<open>a + b < a\<close> of the source, on sizes that are themselves in range, holds
  exactly when the mathematical sum does not fit.
\<close>

lemma size_t_add_overflow:
  assumes "a \<le> SIZE_MAX" "b \<le> SIZE_MAX"
  shows "size_t (a + b) < a \<longleftrightarrow> SIZE_MAX < a + b"
proof (cases "a + b \<le> SIZE_MAX")
  case True
  then show ?thesis by simp
next
  case False
  then have "size_t (a + b) = a + b - 18446744073709551616"
    using assms unfolding size_t_def SIZE_MAX_def by (simp add: le_mod_geq)
  then show ?thesis using False assms unfolding SIZE_MAX_def by arith
qed

section \<open>Sequencing\<close>

text \<open>
  An operation that yields a value or fails is \<open>'s \<Rightarrow> 'a option \<times> 's\<close>: the state is returned on
  failure too, because several operations have consumed input or written output by the time they
  fail. \<open>ok_then\<close> continues after success and returns at once, with the state as it is, after
  failure. \<open>then_do\<close> is the same for an operation that only reports success.
\<close>

definition ok_then :: "'a option \<times> 's \<Rightarrow> ('a \<Rightarrow> 's \<Rightarrow> 'b option \<times> 't) \<Rightarrow> ('s \<Rightarrow> 't) \<Rightarrow> 'b option \<times> 't" where
  "ok_then r k h = (case r of (None, s) \<Rightarrow> (None, h s) | (Some x, s) \<Rightarrow> k x s)"

abbreviation ok_do :: "'a option \<times> 's \<Rightarrow> ('a \<Rightarrow> 's \<Rightarrow> 'b option \<times> 's) \<Rightarrow> 'b option \<times> 's" where
  "ok_do r k \<equiv> ok_then r k (\<lambda>s. s)"

definition then_do :: "bool \<times> 's \<Rightarrow> ('s \<Rightarrow> bool \<times> 's) \<Rightarrow> bool \<times> 's" where
  "then_do r k = (case r of (ok, s) \<Rightarrow> if ok then k s else (False, s))"

lemma ok_then_simps [simp]:
  "ok_then (None, s) k h = (None, h s)"
  "ok_then (Some x, s) k h = k x s"
  by (simp_all add: ok_then_def)

lemma ok_then_Some:
  "ok_then r k h = (Some y, t) \<longleftrightarrow> (\<exists>x s. r = (Some x, s) \<and> k x s = (Some y, t))"
  by (auto simp: ok_then_def split: prod.splits option.splits)

lemma then_do_simps [simp]:
  "then_do (True, s) k = k s"
  "then_do (False, s) k = (False, s)"
  by (simp_all add: then_do_def)

lemma then_do_True:
  "then_do r k = (True, t) \<longleftrightarrow> (\<exists>s. r = (True, s) \<and> k s = (True, t))"
  by (auto simp: then_do_def split: prod.splits if_splits)

section \<open>Base-256 numbers\<close>

text \<open>The value of a big-endian byte string and the big-endian byte string of a value.\<close>

definition be_value :: "u8 list \<Rightarrow> nat" where
  "be_value bs = foldl (\<lambda>v b. v * 256 + unat b) 0 bs"

fun be_bytes :: "nat \<Rightarrow> nat \<Rightarrow> u8 list" where
  "be_bytes 0 v = []"
| "be_bytes (Suc n) v = be_bytes n (v div 256) @ [of_nat v]"

lemma unat_u8 [simp]: "unat (b :: u8) < 256"
proof -
  have "unat b < 2 ^ LENGTH(8)" by (rule unsigned_less)
  then show ?thesis by simp
qed

lemma unat_u8_le: "unat (b :: u8) \<le> 255"
  using unat_u8 [of b] by linarith

lemma unat_of_nat_u8 [simp]: "unat (of_nat v :: u8) = v mod 256"
  by (simp add: unat_of_nat)

lemma of_nat_unat_div [simp]: "(of_nat (256 * k + unat (b :: u8)) :: u8) = b"
  by (rule unsigned_word_eqI [where ?'a = nat]) (simp only: unat_of_nat_u8, simp)

lemma be_value_Nil [simp]: "be_value [] = 0"
  by (simp add: be_value_def)

lemma be_value_snoc [simp]: "be_value (bs @ [b]) = be_value bs * 256 + unat b"
  by (simp add: be_value_def)

lemma foldl_be_value:
  "foldl (\<lambda>v b. v * 256 + unat b) a bs = a * 256 ^ length bs + be_value bs"
proof (induction bs arbitrary: a rule: rev_induct)
  case Nil
  then show ?case by simp
next
  case (snoc b bs)
  then show ?case by (simp add: algebra_simps)
qed

lemma be_value_Cons: "be_value (b # bs) = unat b * 256 ^ length bs + be_value bs"
  using foldl_be_value [of "unat b" bs] by (simp add: be_value_def)

lemma be_value_append: "be_value (as @ bs) = be_value as * 256 ^ length bs + be_value bs"
  using foldl_be_value [of "be_value as" bs] by (simp add: be_value_def)

lemma be_value_less: "be_value bs < 256 ^ length bs"
proof (induction bs rule: rev_induct)
  case Nil
  then show ?case by simp
next
  case (snoc b bs)
  then have "be_value bs * 256 + unat b < 256 ^ length bs * 256"
    using unat_u8 [of b] by linarith
  then show ?case by (simp add: algebra_simps)
qed

lemma length_be_bytes [simp, bytes_simps]: "length (be_bytes n v) = n"
  by (induction n arbitrary: v) auto

lemma be_value_be_bytes: "be_value (be_bytes n v) = v mod 256 ^ n"
proof (induction n arbitrary: v)
  case 0
  then show ?case by simp
next
  case (Suc n)
  have "v mod 256 ^ Suc n = 256 * (v div 256 mod 256 ^ n) + v mod 256"
    using mod_mult2_eq [of v 256 "256 ^ n"] by (simp add: ac_simps)
  then show ?case by (simp add: Suc.IH)
qed

lemma be_value_be_bytes_id [simp, bytes_simps]:
  "v < 256 ^ n \<Longrightarrow> be_value (be_bytes n v) = v"
  by (simp add: be_value_be_bytes)

lemma be_bytes_be_value [simp, bytes_simps]: "be_bytes (length bs) (be_value bs) = bs"
proof (induction bs rule: rev_induct)
  case Nil
  then show ?case by simp
next
  case (snoc b bs)
  have "(be_value bs * 256 + unat b) div 256 = be_value bs"
    using unat_u8 [of b] by simp
  then show ?case
    using snoc of_nat_unat_div [of "be_value bs" b] by (simp add: mult.commute)
qed

lemma be_bytes_inject:
  assumes "v < 256 ^ n" "w < 256 ^ n"
  shows "be_bytes n v = be_bytes n w \<longleftrightarrow> v = w"
  using assms be_value_be_bytes_id by metis

section \<open>Bit fields as arithmetic\<close>

lemma or_eq_add_word:
  fixes a b :: "'a::len word"
  assumes "\<And>n. n < LENGTH('a) \<Longrightarrow> \<not> bit a n \<or> \<not> bit b n"
  shows "a OR b = a + b"
  using assms disjunctive_add [of a b] bit_imp_le_length by metis

lemma shift8_or_byte:
  fixes v :: "'a::len word" and b :: u8
  shows "push_bit 8 v OR ucast b = v * 256 + ucast b"
proof -
  have "push_bit 8 v OR ucast b = push_bit 8 v + ucast b"
    by (rule or_eq_add_word) (auto simp: bit_simps dest: bit_imp_le_length)
  then show ?thesis by (simp add: push_bit_eq_mult mult.commute)
qed

lemma unat_and_mask: "unat (w AND mask n) = unat w mod 2 ^ n"
  for w :: "'a::len word"
  by (simp only: unsigned_take_bit_eq take_bit_eq_mod [where ?'a = nat] flip: take_bit_eq_mask)

lemma unat_drop_bit: "unat (drop_bit n w) = unat w div 2 ^ n"
  for w :: "'a::len word"
  by (simp only: unat_drop_bit_eq drop_bit_eq_div [where ?'a = nat])

lemma drop_bit_eq_0_iff: "drop_bit n w = 0 \<longleftrightarrow> unat w < 2 ^ n"
  for w :: "'a::len word"
proof -
  have "drop_bit n w = 0 \<longleftrightarrow> unat (drop_bit n w) = 0" by (simp only: unat_0_iff)
  then show ?thesis by (simp only: unat_drop_bit div_eq_0_iff) simp
qed

lemma unat_push_or:
  fixes v w :: "'a::len word"
  assumes "k \<le> LENGTH('a)" "unat v < 2 ^ (LENGTH('a) - k)" "unat w < 2 ^ k"
  shows "unat (push_bit k v OR w) = unat v * 2 ^ k + unat w"
proof -
  have low: "n < k" if "bit w n" for n
  proof (rule ccontr)
    assume "\<not> n < k"
    then have "unat w div 2 ^ n = 0" using assms(3)
      by (meson div_less le_trans less_le_trans not_le one_le_numeral power_increasing)
    then have "\<not> bit (unat w) n" by (simp add: bit_iff_odd)
    then show False using that by (simp add: bit_unsigned_iff)
  qed
  have pow: "(2::nat) ^ LENGTH('a) = 2 ^ (LENGTH('a) - k) * 2 ^ k"
    using assms(1) by (simp flip: power_add)
  have "(unat v + 1) * 2 ^ k \<le> 2 ^ LENGTH('a)"
    unfolding pow using assms(2) by (intro mult_right_mono) auto
  then have fits: "unat v * 2 ^ k + unat w < 2 ^ LENGTH('a)" using assms(3) by simp
  have "push_bit k v OR w = push_bit k v + w"
    by (rule or_eq_add_word) (auto simp: bit_simps dest: low)
  also have "\<dots> = of_nat (unat v * 2 ^ k + unat w)" by (simp add: push_bit_eq_mult)
  finally show ?thesis using fits by (simp only: unat_of_nat mod_less)
qed

lemma bit_top_byte: "bit b 7 \<longleftrightarrow> 128 \<le> unat b" for b :: u8
proof -
  have "bit b 7 \<longleftrightarrow> odd (unat b div 128)"
  proof -
    have "bit (unat b) 7 = bit b 7" by (simp add: bit_unsigned_iff)
    then show ?thesis by (simp add: bit_iff_odd [of "unat b"])
  qed
  moreover have "unat b div 128 < 2" using unat_u8 [of b] by (intro less_mult_imp_div_less) simp
  ultimately show ?thesis by (cases "unat b div 128") (auto simp: div_eq_0_iff)
qed

lemma byte_flag: "b AND 0x80 = 0 \<longleftrightarrow> unat b < 128" for b :: u8
proof -
  have "(0x80 :: u8) = push_bit 7 1" by simp
  then have "b AND 0x80 \<noteq> 0 \<longleftrightarrow> bit b 7"
    by (simp only: bit_iff_and_push_bit_not_eq_0)
  then show ?thesis using bit_top_byte [of b] by auto
qed

lemma byte_low7: "unat (b AND 0x7f) = unat b mod 128" for b :: u8
  using unat_and_mask [of b 7] by (simp add: mask_eq_exp_minus_1)

lemma byte_low5: "unat (b AND 0x1f) = unat b mod 32" for b :: u8
  using unat_and_mask [of b 5] by (simp add: mask_eq_exp_minus_1)

section \<open>Lists\<close>

lemma list_all_replicate [simp]: "list_all P (replicate n x) \<longleftrightarrow> n = 0 \<or> P x"
  by (induction n) auto

end
