(* ===== verification/Codec.thy ===== *)
theory Codec
  imports Prelude
begin

text \<open>
  The interfaces between the parsers and the builders. \<open>codec\<close> is what a reader of encoded bytes
  relies on: decoding an encoding gives the value back and leaves the rest of the input alone.
  \<open>canonical_codec\<close> adds that the decoder accepts nothing but encodings, which is the DER
  requirement. \<open>byte_sink\<close> is what code that emits bytes one call at a time relies on.
  The component theories interpret each of them on the definitions of the code.
\<close>

section \<open>Decoders\<close>

type_synonym 'a decoder = "u8 list \<Rightarrow> 'a option \<times> u8 list"

text \<open>
  The loop \<open>while (CBS_len(&cbs) != 0) { if (!get(&cbs, ...)) return 0; }\<close>. The number of rounds
  is bounded by the first argument; the length of the input is enough for a decoder that consumes
  at least one byte (\<open>decode_all_enough\<close>).
\<close>

fun decode_all :: "'a decoder \<Rightarrow> nat \<Rightarrow> u8 list \<Rightarrow> 'a list option" where
  "decode_all dec fuel [] = Some []"
| "decode_all dec 0 (b # bs) = None"
| "decode_all dec (Suc fuel) (b # bs) =
     (case dec (b # bs) of
        (None, _) \<Rightarrow> None
      | (Some x, rest) \<Rightarrow> map_option ((#) x) (decode_all dec fuel rest))"

lemma decode_all_mono:
  "decode_all dec fuel bs = Some xs \<Longrightarrow> fuel \<le> fuel' \<Longrightarrow> decode_all dec fuel' bs = Some xs"
proof (induction dec fuel bs arbitrary: xs fuel' rule: decode_all.induct)
  case (1 dec fuel)
  then show ?case by simp
next
  case (2 dec b bs)
  then show ?case by simp
next
  case (3 dec fuel b bs)
  from "3.prems"(2) obtain f where f: "fuel' = Suc f" "fuel \<le> f" by (cases fuel') auto
  from "3.prems"(1) obtain x rest ys where
    d: "dec (b # bs) = (Some x, rest)" and ys: "decode_all dec fuel rest = Some ys" "xs = x # ys"
    by (auto split: prod.splits option.splits)
  have "decode_all dec f rest = Some ys"
    by (rule "3.IH" [OF d [symmetric] refl ys(1) f(2)])
  then show ?case using d ys f by simp
qed

locale codec =
  fixes enc :: "'a \<Rightarrow> u8 list"
    and dec :: "u8 list \<Rightarrow> 'a option \<times> u8 list"
    and valid :: "'a \<Rightarrow> bool"
  assumes dec_enc: "valid x \<Longrightarrow> dec (enc x @ rest) = (Some x, rest)"
begin

lemma enc_append_inject:
  assumes "valid x" "valid y" "enc x @ r = enc y @ s"
  shows "x = y \<and> r = s"
proof -
  have "dec (enc x @ r) = (Some x, r)" using assms(1) by (rule dec_enc)
  moreover have "dec (enc y @ s) = (Some y, s)" using assms(2) by (rule dec_enc)
  ultimately show ?thesis unfolding assms(3) by simp
qed

text \<open>No encoding is a proper prefix of another, so a sequence of encodings splits in one way.\<close>

lemma enc_prefix_free:
  assumes "valid x" "valid y" "enc y = enc x @ r"
  shows "r = [] \<and> x = y"
  using enc_append_inject [of x y r "[]"] assms by simp

lemma concat_enc_inject:
  assumes "\<And>x. valid x \<Longrightarrow> enc x \<noteq> []"
  shows "list_all valid xs \<Longrightarrow> list_all valid ys \<Longrightarrow>
    concat (map enc xs) = concat (map enc ys) \<Longrightarrow> xs = ys"
proof (induction xs arbitrary: ys)
  case Nil
  then show ?case using assms by (cases ys) auto
next
  case (Cons x xs)
  show ?case
  proof (cases ys)
    case Nil
    then show ?thesis using Cons.prems assms by auto
  next
    case (Cons y zs)
    from local.Cons have ys: "ys = y # zs" .
    have "x = y \<and> concat (map enc xs) = concat (map enc zs)"
      using Cons.prems enc_append_inject [of x y "concat (map enc xs)" "concat (map enc zs)"]
      unfolding ys by simp
    then show ?thesis using Cons.prems Cons.IH [of zs] unfolding ys by simp
  qed
qed

lemma decode_all_enough:
  assumes nonempty: "\<And>x. valid x \<Longrightarrow> enc x \<noteq> []"
  shows "list_all valid xs \<Longrightarrow> length (concat (map enc xs)) \<le> fuel \<Longrightarrow>
    decode_all dec fuel (concat (map enc xs)) = Some xs"
proof (induction xs arbitrary: fuel)
  case Nil
  then show ?case by simp
next
  case (Cons x xs)
  from Cons.prems(1) have x: "valid x" "enc x \<noteq> []" using nonempty by auto
  then obtain b bs where bs: "enc x = b # bs" by (cases "enc x") auto
  with Cons.prems obtain f where f: "fuel = Suc f" "length (concat (map enc xs)) \<le> f"
    by (cases fuel) auto
  have "dec (b # bs @ concat (map enc xs)) = (Some x, concat (map enc xs))"
    using dec_enc [OF x(1), of "concat (map enc xs)"] bs by simp
  then show ?case using Cons bs f by simp
qed

end

locale canonical_codec = codec +
  assumes dec_canonical: "dec bs = (Some x, rest) \<Longrightarrow> valid x \<and> bs = enc x @ rest"
begin

lemma dec_Some_iff: "dec bs = (Some x, rest) \<longleftrightarrow> valid x \<and> bs = enc x @ rest"
  using dec_enc dec_canonical by blast

text \<open>Two inputs that decode to the same value agree on the bytes that were consumed.\<close>

lemma dec_inject:
  assumes "dec bs = (Some x, rest)" "dec cs = (Some x, rest)"
  shows "bs = cs"
  using assms dec_canonical by metis

lemma decode_all_canonical:
  "decode_all dec fuel bs = Some xs \<Longrightarrow> list_all valid xs \<and> bs = concat (map enc xs)"
proof (induction fuel arbitrary: bs xs)
  case 0
  then show ?case by (cases bs) auto
next
  case (Suc fuel)
  show ?case
  proof (cases bs)
    case Nil
    then show ?thesis using Suc.prems by simp
  next
    case (Cons b cs)
    with Suc.prems obtain x rest ys where
      "dec (b # cs) = (Some x, rest)" "decode_all dec fuel rest = Some ys" "xs = x # ys"
      by (auto split: prod.splits option.splits)
    then show ?thesis using Suc.IH dec_canonical Cons by fastforce
  qed
qed

lemma decode_all_iff:
  assumes "\<And>x. valid x \<Longrightarrow> enc x \<noteq> []"
  shows "decode_all dec (length bs) bs = Some xs \<longleftrightarrow> list_all valid xs \<and> bs = concat (map enc xs)"
  using decode_all_enough [OF assms] decode_all_canonical by blast

end

section \<open>Byte sinks\<close>

text \<open>Writing a list of bytes through single-byte calls, stopping at the first that fails.\<close>

fun put_all :: "('s \<Rightarrow> u8 \<Rightarrow> bool \<times> 's) \<Rightarrow> 's \<Rightarrow> u8 list \<Rightarrow> bool \<times> 's" where
  "put_all put s [] = (True, s)"
| "put_all put s (b # bs) = then_do (put s b) (\<lambda>s. put_all put s bs)"

locale byte_sink =
  fixes put :: "'s \<Rightarrow> u8 \<Rightarrow> bool \<times> 's"
    and written :: "'s \<Rightarrow> u8 list"
    and ready :: "'s \<Rightarrow> bool"
  assumes put_written: "ready s \<Longrightarrow> put s b = (True, s') \<Longrightarrow> written s' = written s @ [b]"
    and put_ready: "ready s \<Longrightarrow> put s b = (True, s') \<Longrightarrow> ready s'"
begin

lemma put_all_written:
  "ready s \<Longrightarrow> put_all put s bs = (True, s') \<Longrightarrow> written s' = written s @ bs \<and> ready s'"
proof (induction bs arbitrary: s)
  case Nil
  then show ?case by simp
next
  case (Cons b bs)
  then obtain t where "put s b = (True, t)" "put_all put t bs = (True, s')"
    by (auto simp: then_do_True)
  then show ?case using Cons put_written put_ready by force
qed

end

text \<open>
  A sink whose calls succeed as long as there is room: then a whole byte string is written.
\<close>

locale bounded_sink = byte_sink +
  fixes room :: "'s \<Rightarrow> nat"
  assumes put_ok: "ready s \<Longrightarrow> 0 < room s \<Longrightarrow> fst (put s b)"
    and put_room: "ready s \<Longrightarrow> put s b = (True, s') \<Longrightarrow> room s \<le> Suc (room s')"
begin

lemma put_all_ok: "ready s \<Longrightarrow> length bs \<le> room s \<Longrightarrow> fst (put_all put s bs)"
proof (induction bs arbitrary: s)
  case Nil
  then show ?case by simp
next
  case (Cons b bs)
  then have "fst (put s b)" using put_ok by simp
  then obtain t where t: "put s b = (True, t)" by (cases "put s b") auto
  then have "ready t" "length bs \<le> room t"
    using Cons.prems put_ready put_room [OF Cons.prems(1) t] by auto
  then show ?case using Cons.IH t by simp
qed

end

end
