(* ===== verification/Mem.thy ===== *)
theory Mem
  imports Prelude
begin

text \<open>
  The allocator wrappers and the string helpers of \<open>src/crypto/mem.c\<close> that the other components
  call. libc's \<open>malloc\<close> is a parameter \<open>sys\<close>: \<open>sys n\<close> says whether it can serve \<open>n\<close> bytes. The
  library's own override hooks are \<open>NULL\<close> on the platform of the app, so the calls go to libc.
  A C string is a byte list; a read past the end of the list, which the code relies on never
  doing, is the result \<open>None\<close>.
\<close>

section \<open>Allocation\<close>

definition OPENSSL_MALLOC_PREFIX :: nat where
  "OPENSSL_MALLOC_PREFIX = 8"

definition OPENSSL_malloc :: "(nat \<Rightarrow> bool) \<Rightarrow> nat \<Rightarrow> bool" where
  "OPENSSL_malloc sys n =
     (if size_t (n + OPENSSL_MALLOC_PREFIX) < n then False
      else sys (size_t (n + OPENSSL_MALLOC_PREFIX)))"

text \<open>
  On success the new block starts with as many of the old bytes as fit. What lies beyond them is
  not initialised and is not part of the result.
\<close>

definition OPENSSL_realloc :: "(nat \<Rightarrow> bool) \<Rightarrow> 'a list \<Rightarrow> nat \<Rightarrow> 'a list option" where
  "OPENSSL_realloc sys old new_size =
     (if OPENSSL_malloc sys new_size then Some (take (min (length old) new_size) old) else None)"

definition OPENSSL_memdup :: "(nat \<Rightarrow> bool) \<Rightarrow> 'a list \<Rightarrow> 'a list option" where
  "OPENSSL_memdup sys data =
     (if length data = 0 then None
      else if OPENSSL_malloc sys (length data) then Some data else None)"

lemma OPENSSL_realloc_keeps:
  "OPENSSL_realloc sys old n = Some new \<Longrightarrow> length old \<le> n \<Longrightarrow> new = old"
  by (auto simp: OPENSSL_realloc_def split: if_splits)

section \<open>Comparison and hashing\<close>

definition CRYPTO_memcmp :: "u8 list \<Rightarrow> u8 list \<Rightarrow> u8" where
  "CRYPTO_memcmp a b = foldl (\<lambda>x (p, q). x OR (p XOR q)) 0 (zip a b)"

text \<open>
  \<open>memcmp\<close> compares as unsigned bytes. Only the sign of its result is specified; the model returns
  the difference of the first bytes that differ.
\<close>

fun OPENSSL_memcmp :: "u8 list \<Rightarrow> u8 list \<Rightarrow> nat \<Rightarrow> int" where
  "OPENSSL_memcmp (a # as) (b # bs) (Suc n) =
     (if a \<noteq> b then uint a - uint b else OPENSSL_memcmp as bs n)"
| "OPENSSL_memcmp as bs n = 0"

definition OPENSSL_hash32 :: "u8 list \<Rightarrow> u32" where
  "OPENSSL_hash32 bs = foldl (\<lambda>h b. (h XOR ucast b) * 16777619) 2166136261 bs"

lemma word_or_eq_0_iff: "a OR b = 0 \<longleftrightarrow> a = 0 \<and> b = 0" for a b :: "'a::len word"
  by (auto simp: bit_eq_iff bit_simps)

lemma word_xor_eq_0_iff: "a XOR b = 0 \<longleftrightarrow> a = b" for a b :: "'a::len word"
  by (auto simp: bit_eq_iff bit_simps)

lemma memcmp_fold_zero:
  "foldl (\<lambda>x (p, q). x OR (p XOR q)) acc ps = 0 \<longleftrightarrow> acc = 0 \<and> (\<forall>(p, q) \<in> set ps. p = q)"
  for ps :: "(u8 \<times> u8) list"
  by (induction ps arbitrary: acc) (auto simp: word_or_eq_0_iff word_xor_eq_0_iff)

text \<open>The comparison without early exit returns zero exactly on equal regions.\<close>

lemma CRYPTO_memcmp_zero:
  assumes "length a = length b"
  shows "CRYPTO_memcmp a b = 0 \<longleftrightarrow> a = b"
proof -
  have "(\<forall>(p, q) \<in> set (zip a b). p = q) \<longleftrightarrow> a = b"
    using assms by (induction a b rule: list_induct2) auto
  then show ?thesis by (simp add: CRYPTO_memcmp_def memcmp_fold_zero)
qed

lemma OPENSSL_memcmp_zero: "length a = length b \<Longrightarrow> OPENSSL_memcmp a b (length a) = 0 \<longleftrightarrow> a = b"
  by (induction a b rule: list_induct2) (auto simp: word_uint_eq_iff)

section \<open>C strings\<close>

fun strlen :: "u8 list \<Rightarrow> nat option" where
  "strlen [] = None"
| "strlen (c # s) = (if c = 0 then Some 0 else map_option Suc (strlen s))"

fun OPENSSL_strnlen :: "u8 list \<Rightarrow> nat \<Rightarrow> nat option" where
  "OPENSSL_strnlen s 0 = Some 0"
| "OPENSSL_strnlen [] (Suc n) = None"
| "OPENSSL_strnlen (c # s) (Suc n) =
     (if c = 0 then Some 0 else map_option Suc (OPENSSL_strnlen s n))"

definition OPENSSL_strhash :: "u8 list \<Rightarrow> u32 option" where
  "OPENSSL_strhash s = map_option (\<lambda>n. OPENSSL_hash32 (take n s)) (strlen s)"

definition OPENSSL_strdup :: "(nat \<Rightarrow> bool) \<Rightarrow> u8 list \<Rightarrow> u8 list option option" where
  "OPENSSL_strdup sys s =
     map_option (\<lambda>n. if OPENSSL_malloc sys (n + 1) then Some (take (n + 1) s) else None) (strlen s)"

definition OPENSSL_tolower :: "int \<Rightarrow> int" where
  "OPENSSL_tolower c = (if 65 \<le> c \<and> c \<le> 90 then c + 32 else c)"

text \<open>\<open>char\<close> is signed on the platform, so the bytes are compared as values from -128 to 127.\<close>

fun OPENSSL_strcasecmp :: "u8 list \<Rightarrow> u8 list \<Rightarrow> int option" where
  "OPENSSL_strcasecmp (a # as) (b # bs) =
     (let aa = OPENSSL_tolower (sint a); bb = OPENSSL_tolower (sint b)
      in if aa < bb then Some (-1) else if bb < aa then Some 1
         else if aa = 0 then Some 0 else OPENSSL_strcasecmp as bs)"
| "OPENSSL_strcasecmp _ _ = None"

fun OPENSSL_strncasecmp :: "u8 list \<Rightarrow> u8 list \<Rightarrow> nat \<Rightarrow> int option" where
  "OPENSSL_strncasecmp _ _ 0 = Some 0"
| "OPENSSL_strncasecmp (a # as) (b # bs) (Suc n) =
     (let aa = OPENSSL_tolower (sint a); bb = OPENSSL_tolower (sint b)
      in if aa < bb then Some (-1) else if bb < aa then Some 1
         else if aa = 0 then Some 0 else OPENSSL_strncasecmp as bs n)"
| "OPENSSL_strncasecmp _ _ (Suc n) = None"

text \<open>
  \<open>OPENSSL_strndup str size\<close>: outer \<open>None\<close> when the source is read past its end, inner \<open>None\<close> for
  the \<open>NULL\<close> result of a failed allocation.
\<close>

definition OPENSSL_strndup :: "(nat \<Rightarrow> bool) \<Rightarrow> u8 list \<Rightarrow> nat \<Rightarrow> u8 list option option" where
  "OPENSSL_strndup sys str n0 =
     map_option (\<lambda>n. if size_t (n + 1) < n then None
                     else if OPENSSL_malloc sys (size_t (n + 1)) then Some (take n str @ [0])
                     else None)
       (OPENSSL_strnlen str n0)"

fun OPENSSL_strlcpy :: "u8 list \<Rightarrow> u8 list \<Rightarrow> nat \<Rightarrow> (u8 list \<times> nat) option" where
  "OPENSSL_strlcpy dst [] dst_size = None"
| "OPENSSL_strlcpy [] (c # src) dst_size =
     (if dst_size = 0 then map_option (\<lambda>k. ([], k)) (strlen (c # src)) else None)"
| "OPENSSL_strlcpy (d # dst) (c # src) dst_size =
     (if 1 < dst_size \<and> c \<noteq> 0
      then map_option (\<lambda>(dst', l). (c # dst', Suc l)) (OPENSSL_strlcpy dst src (dst_size - 1))
      else map_option (\<lambda>k. (if 0 < dst_size then 0 # dst else d # dst, k)) (strlen (c # src)))"

fun OPENSSL_strlcat :: "u8 list \<Rightarrow> u8 list \<Rightarrow> nat \<Rightarrow> (u8 list \<times> nat) option" where
  "OPENSSL_strlcat dst src 0 = OPENSSL_strlcpy dst src 0"
| "OPENSSL_strlcat [] src (Suc n) = None"
| "OPENSSL_strlcat (d # dst) src (Suc n) =
     (if d \<noteq> 0
      then map_option (\<lambda>(dst', l). (d # dst', Suc l)) (OPENSSL_strlcat dst src n)
      else OPENSSL_strlcpy (d # dst) src (Suc n))"

lemma strlen_cstring [simp]: "0 \<notin> set s \<Longrightarrow> strlen (s @ 0 # rest) = Some (length s)"
  by (induction s) auto

lemma OPENSSL_strnlen_bounded: "OPENSSL_strnlen s n = Some k \<Longrightarrow> k \<le> n \<and> k \<le> length s"
  by (induction s n arbitrary: k rule: OPENSSL_strnlen.induct) (auto split: if_splits)

lemma OPENSSL_strnlen_cstring [simp]:
  "0 \<notin> set s \<Longrightarrow> OPENSSL_strnlen (s @ 0 # rest) n = Some (min (length s) n)"
  by (induction n arbitrary: s) (auto simp: neq_Nil_conv split: if_splits, case_tac s, auto)

lemma OPENSSL_strnlen_region:
  "OPENSSL_strnlen s (length s) = Some (length (takeWhile (\<lambda>c. c \<noteq> 0) s))"
  by (induction s) auto

text \<open>
  \<open>strlcpy\<close> into a buffer of \<open>dst_size\<close> bytes: the result is a truncation of the source, always
  NUL-terminated when there is room for a byte at all, nothing after the terminator is touched, and
  the returned length is that of the whole source.
\<close>

lemma OPENSSL_strlcpy_cstring:
  assumes "0 \<notin> set s" "0 < n" "n \<le> length dst"
  shows "OPENSSL_strlcpy dst (s @ 0 # rest) n =
    Some (take (n - 1) s @ 0 # drop (Suc (min (n - 1) (length s))) dst, length s)"
  using assms
proof (induction s arbitrary: dst n)
  case Nil
  then show ?case by (cases dst) auto
next
  case (Cons c s)
  obtain d ds where d: "dst = d # ds" using Cons.prems by (cases dst) auto
  show ?case
  proof (cases "n = 1")
    case True
    then show ?thesis using Cons.prems d by simp
  next
    case False
    then obtain m where m: "n = Suc m" "0 < m" using Cons.prems(2) by (cases n) auto
    then show ?thesis using Cons.prems Cons.IH [of m ds] d by (cases m) simp_all
  qed
qed

end
