(* ===== verification/Cbs.thy ===== *)
theory Cbs
  imports Codec Mem
begin

text \<open>
  The byte string reader of \<open>src/crypto/bytestring/cbs.c\<close>: skipping, fixed-width integers in both
  byte orders, length-prefixed strings and delimiters. A \<open>CBS\<close> is the pointer and length of the
  bytes that are left to read; the model is the list of those bytes. Every operation returns the
  remaining \<open>CBS\<close> on failure too, since some of them have consumed input by then.
\<close>

section \<open>Reading bytes\<close>

type_synonym cbs = "u8 list"

definition CBS_init :: "u8 list \<Rightarrow> nat \<Rightarrow> cbs" where
  "CBS_init data n = take n data"

definition cbs_get :: "cbs \<Rightarrow> nat \<Rightarrow> u8 list option \<times> cbs" where
  "cbs_get cbs n = (if length cbs < n then (None, cbs) else (Some (take n cbs), drop n cbs))"

definition CBS_skip :: "cbs \<Rightarrow> nat \<Rightarrow> unit option \<times> cbs" where
  "CBS_skip cbs n = ok_do (cbs_get cbs n) (\<lambda>_ cbs. (Some (), cbs))"

definition CBS_data :: "cbs \<Rightarrow> u8 list" where
  "CBS_data cbs = cbs"

definition CBS_len :: "cbs \<Rightarrow> nat" where
  "CBS_len cbs = length cbs"

text \<open>\<open>(success, *out_ptr, *out_len)\<close>; the pointer is \<open>None\<close> for \<open>NULL\<close>.\<close>

definition CBS_stow :: "(nat \<Rightarrow> bool) \<Rightarrow> cbs \<Rightarrow> bool \<times> u8 list option \<times> nat" where
  "CBS_stow sys cbs =
     (if length cbs = 0 then (True, None, 0)
      else case OPENSSL_memdup sys cbs of
             None \<Rightarrow> (False, None, 0)
           | Some p \<Rightarrow> (True, Some p, length cbs))"

definition CBS_strdup :: "(nat \<Rightarrow> bool) \<Rightarrow> cbs \<Rightarrow> bool \<times> u8 list option" where
  "CBS_strdup sys cbs =
     (case OPENSSL_strndup sys cbs (length cbs) of
        Some (Some p) \<Rightarrow> (True, Some p)
      | _ \<Rightarrow> (False, None))"

definition CBS_contains_zero_byte :: "cbs \<Rightarrow> bool" where
  "CBS_contains_zero_byte cbs = List.member cbs 0"

definition CBS_mem_equal :: "cbs \<Rightarrow> u8 list \<Rightarrow> bool" where
  "CBS_mem_equal cbs data =
     (if length data \<noteq> length cbs then False else CRYPTO_memcmp cbs data = 0)"

section \<open>Integers\<close>

definition cbs_get_u :: "cbs \<Rightarrow> nat \<Rightarrow> u64 option \<times> cbs" where
  "cbs_get_u cbs n =
     ok_do (cbs_get cbs n) (\<lambda>data cbs.
       (Some (foldl (\<lambda>result b. push_bit 8 result OR ucast b) 0 data), cbs))"

definition CBS_get_u8 :: "cbs \<Rightarrow> u8 option \<times> cbs" where
  "CBS_get_u8 cbs = ok_do (cbs_get cbs 1) (\<lambda>v cbs. (Some (hd v), cbs))"

definition CBS_get_u16 :: "cbs \<Rightarrow> u16 option \<times> cbs" where
  "CBS_get_u16 cbs = ok_do (cbs_get_u cbs 2) (\<lambda>v cbs. (Some (ucast v), cbs))"

definition CRYPTO_bswap2 :: "u16 \<Rightarrow> u16" where
  "CRYPTO_bswap2 x = drop_bit 8 x OR push_bit 8 x"

definition CRYPTO_bswap4 :: "u32 \<Rightarrow> u32" where
  "CRYPTO_bswap4 x =
     (let x = drop_bit 16 x OR push_bit 16 x
      in drop_bit 8 (x AND 0xff00ff00) OR push_bit 8 (x AND 0x00ff00ff))"

definition CRYPTO_bswap8 :: "u64 \<Rightarrow> u64" where
  "CRYPTO_bswap8 x =
     ucast (CRYPTO_bswap4 (ucast (drop_bit 32 x))) OR push_bit 32 (ucast (CRYPTO_bswap4 (ucast x)))"

definition CBS_get_u16le :: "cbs \<Rightarrow> u16 option \<times> cbs" where
  "CBS_get_u16le cbs = ok_do (CBS_get_u16 cbs) (\<lambda>v cbs. (Some (CRYPTO_bswap2 v), cbs))"

definition CBS_get_u24 :: "cbs \<Rightarrow> u32 option \<times> cbs" where
  "CBS_get_u24 cbs = ok_do (cbs_get_u cbs 3) (\<lambda>v cbs. (Some (ucast v), cbs))"

definition CBS_get_u32 :: "cbs \<Rightarrow> u32 option \<times> cbs" where
  "CBS_get_u32 cbs = ok_do (cbs_get_u cbs 4) (\<lambda>v cbs. (Some (ucast v), cbs))"

definition CBS_get_u32le :: "cbs \<Rightarrow> u32 option \<times> cbs" where
  "CBS_get_u32le cbs = ok_do (CBS_get_u32 cbs) (\<lambda>v cbs. (Some (CRYPTO_bswap4 v), cbs))"

definition CBS_get_u64 :: "cbs \<Rightarrow> u64 option \<times> cbs" where
  "CBS_get_u64 cbs = cbs_get_u cbs 8"

definition CBS_get_u64le :: "cbs \<Rightarrow> u64 option \<times> cbs" where
  "CBS_get_u64le cbs = ok_do (cbs_get_u cbs 8) (\<lambda>v cbs. (Some (CRYPTO_bswap8 v), cbs))"

definition CBS_get_last_u8 :: "cbs \<Rightarrow> u8 option \<times> cbs" where
  "CBS_get_last_u8 cbs =
     (if length cbs = 0 then (None, cbs)
      else (Some (cbs ! (length cbs - 1)), take (length cbs - 1) cbs))"

section \<open>Strings\<close>

definition CBS_get_bytes :: "cbs \<Rightarrow> nat \<Rightarrow> cbs option \<times> cbs" where
  "CBS_get_bytes cbs n = ok_do (cbs_get cbs n) (\<lambda>v cbs. (Some (CBS_init v n), cbs))"

definition CBS_copy_bytes :: "cbs \<Rightarrow> nat \<Rightarrow> u8 list option \<times> cbs" where
  "CBS_copy_bytes cbs n = ok_do (cbs_get cbs n) (\<lambda>v cbs. (Some v, cbs))"

definition cbs_get_length_prefixed :: "cbs \<Rightarrow> nat \<Rightarrow> cbs option \<times> cbs" where
  "cbs_get_length_prefixed cbs len_len =
     ok_do (cbs_get_u cbs len_len) (\<lambda>len cbs. CBS_get_bytes cbs (unat len))"

definition CBS_get_u8_length_prefixed :: "cbs \<Rightarrow> cbs option \<times> cbs" where
  "CBS_get_u8_length_prefixed cbs = cbs_get_length_prefixed cbs 1"

definition CBS_get_u16_length_prefixed :: "cbs \<Rightarrow> cbs option \<times> cbs" where
  "CBS_get_u16_length_prefixed cbs = cbs_get_length_prefixed cbs 2"

definition CBS_get_u24_length_prefixed :: "cbs \<Rightarrow> cbs option \<times> cbs" where
  "CBS_get_u24_length_prefixed cbs = cbs_get_length_prefixed cbs 3"

text \<open>\<open>memchr\<close>: the index of the first occurrence of a byte.\<close>

fun OPENSSL_memchr :: "u8 list \<Rightarrow> u8 \<Rightarrow> nat option" where
  "OPENSSL_memchr [] c = None"
| "OPENSSL_memchr (b # bs) c = (if b = c then Some 0 else map_option Suc (OPENSSL_memchr bs c))"

definition CBS_get_until_first :: "cbs \<Rightarrow> u8 \<Rightarrow> cbs option \<times> cbs" where
  "CBS_get_until_first cbs c =
     (case OPENSSL_memchr (CBS_data cbs) c of
        None \<Rightarrow> (None, cbs)
      | Some split \<Rightarrow> CBS_get_bytes cbs split)"

section \<open>What the readers consume\<close>

lemma cbs_get_Some [step_simps]:
  "cbs_get cbs n = (Some v, rest) \<longleftrightarrow> cbs = v @ rest \<and> length v = n"
  by (auto simp: cbs_get_def)

lemma cbs_get_append [simp]: "length v = n \<Longrightarrow> cbs_get (v @ rest) n = (Some v, rest)"
  by (auto simp: cbs_get_def)

lemma cbs_get_None [step_simps]:
  "cbs_get cbs n = (None, rest) \<longleftrightarrow> length cbs < n \<and> rest = cbs"
  by (auto simp: cbs_get_def)

lemma CBS_skip_Some [step_simps]:
  "CBS_skip cbs n = (Some u, rest) \<longleftrightarrow> (\<exists>v. cbs = v @ rest \<and> length v = n)"
  by (auto simp: CBS_skip_def ok_then_Some cbs_get_Some)

lemma CBS_skip_append [simp]: "length v = n \<Longrightarrow> CBS_skip (v @ rest) n = (Some (), rest)"
  by (simp add: CBS_skip_def)

lemma CBS_get_u8_Cons [simp]: "CBS_get_u8 (b # rest) = (Some b, rest)"
  by (simp add: CBS_get_u8_def cbs_get_def)

lemma CBS_get_u8_Nil [simp]: "CBS_get_u8 [] = (None, [])"
  by (simp add: CBS_get_u8_def cbs_get_def)

lemma CBS_get_u8_Some [step_simps]: "CBS_get_u8 cbs = (Some b, rest) \<longleftrightarrow> cbs = b # rest"
  by (cases cbs) auto

lemma CBS_get_bytes_Some [step_simps]:
  "CBS_get_bytes cbs n = (Some v, rest) \<longleftrightarrow> cbs = v @ rest \<and> length v = n"
  by (auto simp: CBS_get_bytes_def ok_then_Some cbs_get_Some CBS_init_def)

lemma CBS_get_bytes_append [simp]: "length v = n \<Longrightarrow> CBS_get_bytes (v @ rest) n = (Some v, rest)"
  by (simp add: CBS_get_bytes_Some)

text \<open>The shift-and-or loop computes the big-endian value, as long as it fits.\<close>

lemma foldl_shift_or:
  "foldl (\<lambda>r b. push_bit 8 r OR ucast b) a bs =
    a * 256 ^ length bs + (of_nat (be_value bs) :: 'a::len word)" for bs :: "u8 list"
proof (induction bs rule: rev_induct)
  case Nil
  then show ?case by simp
next
  case (snoc b bs)
  have "(ucast b :: 'a word) = of_nat (unat b)" by simp
  with snoc show ?case by (simp add: shift8_or_byte algebra_simps)
qed

lemma cbs_get_u_Some [step_simps]:
  "cbs_get_u cbs n = (Some v, rest) \<longleftrightarrow>
    (\<exists>bs. cbs = bs @ rest \<and> length bs = n \<and> v = of_nat (be_value bs))"
  by (auto simp: cbs_get_u_def ok_then_Some cbs_get_Some foldl_shift_or)

lemma cbs_get_u_append:
  "length bs = n \<Longrightarrow> cbs_get_u (bs @ rest) n = (Some (of_nat (be_value bs)), rest)"
  by (auto simp: cbs_get_u_Some)

lemma cbs_get_u_None [step_simps]:
  "cbs_get_u cbs n = (None, rest) \<longleftrightarrow> length cbs < n \<and> rest = cbs"
  by (auto simp: cbs_get_u_def cbs_get_def)

lemma of_nat_be_value_inject:
  assumes "length bs = n" "256 ^ n \<le> (2::nat) ^ LENGTH('a::len)"
  shows "unat (of_nat (be_value bs) :: 'a word) = be_value bs"
proof -
  have "be_value bs < 2 ^ LENGTH('a)" using be_value_less [of bs] assms by simp
  then show ?thesis by (simp only: unat_of_nat mod_less)
qed

section \<open>Byte order\<close>

lemma be_bytes_word:
  fixes w :: "'a::len word"
  shows "be_bytes n (unat w) = map (\<lambda>i. ucast (drop_bit (8 * (n - 1 - i)) w)) [0..<n]"
proof -
  have eq: "(of_nat (unat w div 256 ^ k) :: u8) = ucast (drop_bit (8 * k) w)" for k
  proof -
    have "unat w div 256 ^ k = unat (drop_bit (8 * k) w)"
      by (simp only: unat_drop_bit power_mult) simp
    then show ?thesis by simp
  qed
  have "be_bytes n v = map (\<lambda>i. of_nat (v div 256 ^ (n - 1 - i))) [0..<n]" for v
  proof (induction n arbitrary: v)
    case 0
    then show ?case by simp
  next
    case (Suc n)
    have "v div 256 div 256 ^ (n - Suc i) = v div 256 ^ (n - i)" if "i < n" for i
      using that by (simp add: Suc_diff_Suc flip: div_mult2_eq power_Suc)
    then show ?case by (simp add: Suc.IH)
  qed
  then show ?thesis by (simp only: eq)
qed

lemma bswap2_bytes: "be_bytes 2 (unat (CRYPTO_bswap2 w)) = rev (be_bytes 2 (unat w))"
  unfolding be_bytes_word CRYPTO_bswap2_def
  by (simp add: upt_rec) (auto simp: bit_eq_iff bit_simps)



lemma bswap4_eq: "CRYPTO_bswap4 w =
    push_bit 24 (w AND mask 8) OR push_bit 16 (drop_bit 8 w AND mask 8) OR
    push_bit 8 (drop_bit 16 w AND mask 8) OR drop_bit 24 w"
proof -
  have masks: "0xff00ff00 = push_bit 24 (mask 8) OR push_bit 8 (mask 8 :: u32)"
    "0x00ff00ff = push_bit 16 (mask 8) OR (mask 8 :: u32)"
    by (simp_all add: mask_eq_exp_minus_1 push_bit_eq_mult)
  have beyond: "\<not> bit w n" if "32 \<le> n" for n
    using that by (auto dest: bit_imp_le_length)
  show ?thesis
    unfolding CRYPTO_bswap4_def Let_def masks
  proof (rule bit_word_eqI)
    fix n assume "n < LENGTH(32)"
    then consider "n < 8" | "8 \<le> n" "n < 16" | "16 \<le> n" "n < 24" | "24 \<le> n" "n < 32"
      by simp linarith
    then show "bit (drop_bit 8 ((drop_bit 16 w OR push_bit 16 w) AND
        (push_bit 24 (mask 8) OR push_bit 8 (mask 8))) OR
      push_bit 8 ((drop_bit 16 w OR push_bit 16 w) AND (push_bit 16 (mask 8) OR mask 8))) n =
      bit (push_bit 24 (w AND mask 8) OR push_bit 16 (drop_bit 8 w AND mask 8) OR
      push_bit 8 (drop_bit 16 w AND mask 8) OR drop_bit 24 w) n"
      by cases (auto simp: bit_simps beyond)
  qed
qed

lemma bswap4_bytes: "be_bytes 4 (unat (CRYPTO_bswap4 w)) = rev (be_bytes 4 (unat w))"
  unfolding be_bytes_word bswap4_eq
  by (simp add: upt_rec) (intro conjI bit_word_eqI; simp add: bit_simps)

lemma bswap8_bytes: "be_bytes 8 (unat (CRYPTO_bswap8 w)) = rev (be_bytes 8 (unat w))"
  unfolding be_bytes_word bswap4_eq CRYPTO_bswap8_def
  by (simp add: upt_rec) (intro conjI bit_word_eqI; simp add: bit_simps)
lemma get_u_ex:
  assumes "LENGTH('a::len) \<le> 64"
  shows "ok_do (cbs_get_u cbs n) (\<lambda>v cbs. (Some (ucast v :: 'a word), cbs)) = (Some w, rest) \<longleftrightarrow>
    (\<exists>bs. cbs = bs @ rest \<and> length bs = n \<and> w = of_nat (be_value bs))"
proof -
  have "ucast (of_nat k :: u64) = (of_nat k :: 'a word)" for k
    using assms by transfer (simp add: take_bit_of_nat min_def)
  then show ?thesis by (auto simp: ok_then_Some cbs_get_u_Some)
qed

lemma get_u_cast:
  assumes "n \<le> 8" "LENGTH('a::len) = 8 * n"
  shows "ok_do (cbs_get_u cbs n) (\<lambda>v cbs. (Some (ucast v :: 'a word), cbs)) = (Some w, rest) \<longleftrightarrow>
    cbs = be_bytes n (unat w) @ rest"
proof -
  have pow: "(2::nat) ^ LENGTH('a) = 256 ^ n" using assms by (simp add: power_mult)
  have "w = of_nat (be_value bs) \<longleftrightarrow> bs = be_bytes n (unat w)" if "length bs = n" for bs
  proof
    assume "w = of_nat (be_value bs)"
    then have "unat w = be_value bs"
      using of_nat_be_value_inject [OF that, where ?'a = 'a] pow by simp
    then show "bs = be_bytes n (unat w)" using be_bytes_be_value [of bs] that by simp
  next
    assume "bs = be_bytes n (unat w)"
    moreover have "unat w < 256 ^ n" using unsigned_less [of w, where ?'a = nat] pow by simp
    ultimately have "be_value bs = unat w" by (simp only: be_value_be_bytes_id)
    then show "w = of_nat (be_value bs)" by simp
  qed
  then have "(\<exists>bs. cbs = bs @ rest \<and> length bs = n \<and> w = of_nat (be_value bs)) \<longleftrightarrow>
      cbs = be_bytes n (unat w) @ rest"
    by (metis length_be_bytes)
  then show ?thesis using assms by (simp add: get_u_ex)
qed

section \<open>The readers as canonical decoders\<close>

lemma get_u24: "CBS_get_u24 cbs = (Some w, rest) \<longleftrightarrow> unat w < 256 ^ 3 \<and> cbs = be_bytes 3 (unat w) @ rest"
proof -
  have key: "w = of_nat (be_value bs) \<longleftrightarrow> unat w < 256 ^ 3 \<and> bs = be_bytes 3 (unat w)"
    if "length bs = 3" for bs
  proof
    assume "w = of_nat (be_value bs)"
    moreover have "be_value bs < 256 ^ 3" using be_value_less [of bs] that by simp
    ultimately have "unat w = be_value bs" "be_value bs < 256 ^ 3" by (simp_all add: unat_of_nat)
    then show "unat w < 256 ^ 3 \<and> bs = be_bytes 3 (unat w)"
      using be_bytes_be_value [of bs] that by simp
  next
    assume "unat w < 256 ^ 3 \<and> bs = be_bytes 3 (unat w)"
    then have "be_value bs = unat w" by (simp only: be_value_be_bytes_id)
    then show "w = of_nat (be_value bs)" by simp
  qed
  then have "(\<exists>bs. cbs = bs @ rest \<and> length bs = 3 \<and> w = of_nat (be_value bs)) \<longleftrightarrow>
      unat w < 256 ^ 3 \<and> cbs = be_bytes 3 (unat w) @ rest"
    by (metis length_be_bytes)
  then show ?thesis by (simp add: CBS_get_u24_def get_u_ex)
qed

lemma get_u16: "CBS_get_u16 cbs = (Some w, rest) \<longleftrightarrow> cbs = be_bytes 2 (unat w) @ rest"
  unfolding CBS_get_u16_def by (rule get_u_cast) simp_all

lemma get_u32: "CBS_get_u32 cbs = (Some w, rest) \<longleftrightarrow> cbs = be_bytes 4 (unat w) @ rest"
  unfolding CBS_get_u32_def by (rule get_u_cast) simp_all

lemma get_u64: "CBS_get_u64 cbs = (Some w, rest) \<longleftrightarrow> cbs = be_bytes 8 (unat w) @ rest"
proof -
  have "CBS_get_u64 cbs = ok_do (cbs_get_u cbs 8) (\<lambda>v cbs. (Some (ucast v), cbs))"
    by (simp add: CBS_get_u64_def ok_then_def split: prod.splits option.splits)
  then show ?thesis using get_u_cast [of 8, where ?'a = 64] by simp
qed

text \<open>Byte swapping is an involution, so the little-endian readers are the big-endian ones reversed.\<close>

lemma bswap_invol:
  "CRYPTO_bswap2 (CRYPTO_bswap2 v) = v"
  "CRYPTO_bswap4 (CRYPTO_bswap4 w) = w"
  "CRYPTO_bswap8 (CRYPTO_bswap8 x) = x"
proof -
  have inj: "a = b" if "be_bytes n (unat a) = be_bytes n (unat b)" "(2::nat) ^ LENGTH('a) = 256 ^ n"
    for a b :: "'a::len word" and n
    using that be_bytes_inject [of "unat a" n "unat b"] unsigned_less [of a, where ?'a = nat]
      unsigned_less [of b, where ?'a = nat] by (simp add: word_unat_eq_iff)
  show "CRYPTO_bswap2 (CRYPTO_bswap2 v) = v" by (rule inj [of 2]) (simp_all add: bswap2_bytes)
  show "CRYPTO_bswap4 (CRYPTO_bswap4 w) = w" by (rule inj [of 4]) (simp_all add: bswap4_bytes)
  show "CRYPTO_bswap8 (CRYPTO_bswap8 x) = x" by (rule inj [of 8]) (simp_all add: bswap8_bytes)
qed

lemma get_le:
  "CBS_get_u16le cbs = (Some v, rest) \<longleftrightarrow> cbs = rev (be_bytes 2 (unat v)) @ rest"
  "CBS_get_u32le cbs = (Some w, rest) \<longleftrightarrow> cbs = rev (be_bytes 4 (unat w)) @ rest"
  "CBS_get_u64le cbs = (Some x, rest) \<longleftrightarrow> cbs = rev (be_bytes 8 (unat x)) @ rest"
  by (auto simp: CBS_get_u16le_def CBS_get_u32le_def CBS_get_u64le_def ok_then_Some
      get_u16 get_u32 get_u64 [unfolded CBS_get_u64_def] bswap2_bytes bswap4_bytes bswap8_bytes
      bswap_invol intro!: exI [of _ "CRYPTO_bswap2 v"] exI [of _ "CRYPTO_bswap4 w"]
      exI [of _ "CRYPTO_bswap8 x"])

lemma get_length_prefixed:
  assumes "k \<le> 3"
  shows "cbs_get_length_prefixed cbs k = (Some v, rest) \<longleftrightarrow>
    length v < 256 ^ k \<and> cbs = be_bytes k (length v) @ v @ rest"
proof -
  have "(256::nat) ^ k \<le> 256 ^ 3" using assms by (intro power_increasing) auto
  then have pow: "256 ^ k \<le> (2::nat) ^ LENGTH(64)" by simp
  have "cbs_get_length_prefixed cbs k = (Some v, rest) \<longleftrightarrow>
      (\<exists>bs. cbs = bs @ v @ rest \<and> length bs = k \<and> length v = be_value bs)"
    using of_nat_be_value_inject [OF _ pow]
    by (fastforce simp: cbs_get_length_prefixed_def ok_then_Some cbs_get_u_Some CBS_get_bytes_Some)
  also have "\<dots> \<longleftrightarrow> length v < 256 ^ k \<and> cbs = be_bytes k (length v) @ v @ rest"
    by (metis be_bytes_be_value be_value_be_bytes_id be_value_less length_be_bytes)
  finally show ?thesis .
qed

text \<open>
  The reader's operations as instances of the decoder interface: each accepts exactly the
  fixed-width encodings of its values.
\<close>

interpretation u16_codec: canonical_codec "\<lambda>w :: u16. be_bytes 2 (unat w)" CBS_get_u16 "\<lambda>_. True"
  by unfold_locales (auto simp: get_u16)

interpretation u24_codec: canonical_codec "\<lambda>w :: u32. be_bytes 3 (unat w)" CBS_get_u24
  "\<lambda>w. unat w < 256 ^ 3"
  by unfold_locales (auto simp: get_u24)

interpretation u32_codec: canonical_codec "\<lambda>w :: u32. be_bytes 4 (unat w)" CBS_get_u32 "\<lambda>_. True"
  by unfold_locales (auto simp: get_u32)

interpretation u64_codec: canonical_codec "\<lambda>w :: u64. be_bytes 8 (unat w)" CBS_get_u64 "\<lambda>_. True"
  by unfold_locales (auto simp: get_u64)

interpretation u16_prefixed: canonical_codec "\<lambda>v. be_bytes 2 (length v) @ v"
  CBS_get_u16_length_prefixed "\<lambda>v. length v < 256 ^ 2"
  by unfold_locales (auto simp: get_length_prefixed CBS_get_u16_length_prefixed_def)

lemma OPENSSL_memchr_Some:
  "OPENSSL_memchr bs c = Some n \<longleftrightarrow> n < length bs \<and> bs ! n = c \<and> c \<notin> set (take n bs)"
proof (induction bs arbitrary: n)
  case Nil
  then show ?case by simp
next
  case (Cons b bs)
  then show ?case by (cases n) (auto split: if_splits)
qed

end
