(* ===== verification/CbsAsn1.thy ===== *)
theory CbsAsn1
  imports Cbs
begin

text \<open>
  The ASN.1 reader of \<open>src/crypto/bytestring/cbs.c\<close>: base-128 integers, tags, DER and BER
  elements, and the typed readers built on them. The second half of the theory states the DER
  encodings of tags, lengths and elements as functions and proves that the reader accepts exactly
  those.
\<close>

section \<open>Tag constants\<close>

definition CBS_ASN1_TAG_SHIFT :: nat where "CBS_ASN1_TAG_SHIFT = 24"
definition CBS_ASN1_CONSTRUCTED :: u32 where "CBS_ASN1_CONSTRUCTED = push_bit CBS_ASN1_TAG_SHIFT 0x20"
definition CBS_ASN1_TAG_NUMBER_MASK :: u32 where
  "CBS_ASN1_TAG_NUMBER_MASK = push_bit (5 + CBS_ASN1_TAG_SHIFT) 1 - 1"
definition CBS_ASN1_BOOLEAN :: u32 where "CBS_ASN1_BOOLEAN = 0x1"
definition CBS_ASN1_INTEGER :: u32 where "CBS_ASN1_INTEGER = 0x2"
definition CBS_ASN1_BITSTRING :: u32 where "CBS_ASN1_BITSTRING = 0x3"
definition CBS_ASN1_OCTETSTRING :: u32 where "CBS_ASN1_OCTETSTRING = 0x4"

section \<open>Elements\<close>

text \<open>The loop of \<open>parse_base128_integer\<close>, from accumulator \<open>v\<close>.\<close>

fun parse_base128_loop :: "u64 \<Rightarrow> cbs \<Rightarrow> u64 option \<times> cbs" where
  "parse_base128_loop v [] = (None, [])"
| "parse_base128_loop v (b # cbs) =
     (if drop_bit (64 - 7) v \<noteq> 0 then (None, cbs)
      else if v = 0 \<and> b = 0x80 then (None, cbs)
      else let v' = push_bit 7 v OR ucast (b AND 0x7f)
           in if b AND 0x80 \<noteq> 0 then parse_base128_loop v' cbs else (Some v', cbs))"

definition parse_base128_integer :: "cbs \<Rightarrow> u64 option \<times> cbs" where
  "parse_base128_integer cbs = parse_base128_loop 0 cbs"

definition parse_asn1_tag :: "cbs \<Rightarrow> u32 option \<times> cbs" where
  "parse_asn1_tag cbs =
     ok_do (CBS_get_u8 cbs) (\<lambda>tag_byte cbs.
       let tag = push_bit CBS_ASN1_TAG_SHIFT (ucast tag_byte AND 0xe0) :: u32;
           tag_number = ucast (tag_byte AND 0x1f) :: u32
       in if tag_number = 0x1f
          then ok_do (parse_base128_integer cbs) (\<lambda>v cbs.
                 if ucast CBS_ASN1_TAG_NUMBER_MASK < v \<or> v < 0x1f then (None, cbs)
                 else (Some (tag OR ucast v), cbs))
          else (Some (tag OR tag_number), cbs))"

text \<open>
  What \<open>cbs_get_any_asn1_element\<close> stores through its out parameters: the whole element, its tag,
  the length of its header, and whether BER was found.
\<close>

type_synonym asn1_element = "cbs \<times> u32 \<times> nat \<times> bool"

definition element_bytes :: "cbs \<Rightarrow> u32 \<Rightarrow> nat \<Rightarrow> bool \<Rightarrow> nat \<Rightarrow> asn1_element option \<times> cbs" where
  "element_bytes cbs tag header_len ber_found len =
     ok_do (CBS_get_bytes cbs len) (\<lambda>out cbs. (Some (out, tag, header_len, ber_found), cbs))"

definition asn1_long_form :: "cbs \<Rightarrow> u32 \<Rightarrow> nat \<Rightarrow> nat \<Rightarrow> u64 \<Rightarrow> bool \<Rightarrow> asn1_element option \<times> cbs" where
  "asn1_long_form cbs tag header_len num_bytes len64 ber_ok =
     (if len64 < 128 \<and> \<not> ber_ok then (None, cbs)
      else if drop_bit ((num_bytes - 1) * 8) len64 = 0 \<and> \<not> ber_ok then (None, cbs)
      else let len = unat len64; total = size_t (len + header_len + num_bytes)
           in if total < len then (None, cbs)
              else element_bytes cbs tag (header_len + num_bytes)
                     (len64 < 128 \<or> drop_bit ((num_bytes - 1) * 8) len64 = 0) total)"

definition cbs_get_any_asn1_element :: "cbs \<Rightarrow> bool \<Rightarrow> asn1_element option \<times> cbs" where
  "cbs_get_any_asn1_element cbs ber_ok =
     ok_then (parse_asn1_tag cbs) (\<lambda>tag header.
       ok_then (CBS_get_u8 header) (\<lambda>length_byte header.
         let header_len = CBS_len cbs - CBS_len header
         in if length_byte AND 0x80 = 0
            then element_bytes cbs tag header_len False (unat length_byte + header_len)
            else let num_bytes = unat (length_byte AND 0x7f)
                 in if ber_ok \<and> tag AND CBS_ASN1_CONSTRUCTED \<noteq> 0 \<and> num_bytes = 0
                    then element_bytes cbs tag header_len True header_len
                    else if num_bytes = 0 \<or> 4 < num_bytes then (None, cbs)
                    else ok_then (cbs_get_u header num_bytes) (\<lambda>len64 _.
                           asn1_long_form cbs tag header_len num_bytes len64 ber_ok)
                           (\<lambda>_. cbs))
         (\<lambda>_. cbs))
       (\<lambda>_. cbs)"

definition CBS_get_any_asn1_element :: "cbs \<Rightarrow> (cbs \<times> u32 \<times> nat) option \<times> cbs" where
  "CBS_get_any_asn1_element cbs =
     ok_do (cbs_get_any_asn1_element cbs False) (\<lambda>(out, tag, header_len, _) cbs.
       (Some (out, tag, header_len), cbs))"

definition CBS_get_any_ber_asn1_element :: "cbs \<Rightarrow> asn1_element option \<times> cbs" where
  "CBS_get_any_ber_asn1_element cbs = cbs_get_any_asn1_element cbs True"

definition CBS_get_any_asn1 :: "cbs \<Rightarrow> (cbs \<times> u32) option \<times> cbs" where
  "CBS_get_any_asn1 cbs =
     ok_do (CBS_get_any_asn1_element cbs) (\<lambda>(out, tag, header_len) cbs.
       case CBS_skip out header_len of
         (None, _) \<Rightarrow> (None, cbs)
       | (Some _, out) \<Rightarrow> (Some (out, tag), cbs))"

definition cbs_get_asn1 :: "cbs \<Rightarrow> u32 \<Rightarrow> bool \<Rightarrow> cbs option \<times> cbs" where
  "cbs_get_asn1 cbs tag_value skip_header =
     ok_do (CBS_get_any_asn1_element cbs) (\<lambda>(out, tag, header_len) cbs.
       if tag \<noteq> tag_value then (None, cbs)
       else if skip_header
       then case CBS_skip out header_len of (None, _) \<Rightarrow> (None, cbs) | (Some _, out) \<Rightarrow> (Some out, cbs)
       else (Some out, cbs))"

definition CBS_get_asn1 :: "cbs \<Rightarrow> u32 \<Rightarrow> cbs option \<times> cbs" where
  "CBS_get_asn1 cbs tag_value = cbs_get_asn1 cbs tag_value True"

definition CBS_get_asn1_element :: "cbs \<Rightarrow> u32 \<Rightarrow> cbs option \<times> cbs" where
  "CBS_get_asn1_element cbs tag_value = cbs_get_asn1 cbs tag_value False"

definition CBS_peek_asn1_tag :: "cbs \<Rightarrow> u32 \<Rightarrow> bool" where
  "CBS_peek_asn1_tag cbs tag_value =
     (if CBS_len cbs < 1 then False
      else case parse_asn1_tag cbs of (None, _) \<Rightarrow> False | (Some actual, _) \<Rightarrow> tag_value = actual)"

section \<open>Base-128 integers\<close>

fun base128_hi :: "nat \<Rightarrow> u8 list" where
  "base128_hi v = (if v = 0 then [] else base128_hi (v div 128) @ [of_nat (128 + v mod 128)])"

declare base128_hi.simps [simp del]

definition base128_enc :: "nat \<Rightarrow> u8 list" where
  "base128_enc v = base128_hi (v div 128) @ [of_nat (v mod 128)]"

lemma base128_hi_0 [simp]: "base128_hi 0 = []"
  by (simp add: base128_hi.simps)

lemma base128_enc_nonempty [simp]: "base128_enc v \<noteq> []"
  by (simp add: base128_enc_def)

lemma unat_shift7_or:
  fixes v :: u64
  assumes "unat v < 2 ^ 57"
  shows "unat (push_bit 7 v OR ucast (b AND 0x7f)) = unat v * 128 + unat (b :: u8) mod 128"
proof -
  have "unat (ucast (b AND 0x7f) :: u64) = unat b mod 128"
    by (simp add: unsigned_ucast_eq byte_low7 take_bit_eq_mod)
  then show ?thesis using unat_push_or [of 7 v "ucast (b AND 0x7f)"] assms by simp
qed

declare parse_base128_loop.simps(2) [simp del]

lemma parse_base128_step:
  assumes "u < 2 ^ 64"
  shows "parse_base128_loop (of_nat u) (b # cbs) =
    (if 2 ^ 57 \<le> u \<or> u = 0 \<and> unat b = 128 then (None, cbs)
     else let v' = of_nat (u * 128 + unat b mod 128)
          in if 128 \<le> unat b then parse_base128_loop v' cbs else (Some v', cbs))"
proof -
  define v :: u64 where "v = of_nat u"
  have u: "unat v = u" using assms by (simp add: v_def unat_of_nat)
  have b: "b = 0x80 \<longleftrightarrow> unat b = 128" by (simp add: word_unat_eq_iff)
  have z: "v = 0 \<longleftrightarrow> u = 0" using unat_0_iff [of v] u by simp
  have v: "push_bit 7 v OR ucast (b AND 0x7f) = of_nat (u * 128 + unat b mod 128)" if "u < 2 ^ 57"
  proof -
    have "unat v < 2 ^ 57" using that u by simp
    from arg_cong [OF unat_shift7_or [OF this, of b], of "of_nat :: nat \<Rightarrow> u64"]
    show ?thesis by (simp only: u of_nat_unat ucast_id)
  qed
  have d: "drop_bit (64 - 7) v \<noteq> 0 \<longleftrightarrow> 2 ^ 57 \<le> u"
    using drop_bit_eq_0_iff [of 57 v] by (simp add: u not_less)
  show ?thesis
  proof (cases "2 ^ 57 \<le> u")
    case True
    then show ?thesis unfolding v_def [symmetric] parse_base128_loop.simps(2) d by simp
  next
    case False
    then have "u < 2 ^ 57" by simp
    note v = v [OF this]
    show ?thesis
      unfolding v_def [symmetric] parse_base128_loop.simps(2) d b z byte_flag v Let_def
      using False by (simp add: not_less)
  qed
qed

text \<open>Reading the continuation bytes of \<open>w\<close> from the start brings the accumulator to \<open>w\<close>.\<close>

lemma parse_base128_hi:
  "w < 2 ^ 57 \<Longrightarrow> parse_base128_loop 0 (base128_hi w @ rest) = parse_base128_loop (of_nat w) rest"
proof (induction w arbitrary: rest rule: base128_hi.induct)
  case (1 w)
  show ?case
  proof (cases "w = 0")
    case True
    then show ?thesis by simp
  next
    case False
    define b :: u8 where "b = of_nat (128 + w mod 128)"
    have b: "unat b = 128 + w mod 128" unfolding b_def unat_of_nat_u8 by simp
    have "parse_base128_loop 0 (base128_hi w @ rest) =
        parse_base128_loop 0 (base128_hi (w div 128) @ b # rest)"
      using False by (simp add: base128_hi.simps [of w] b_def)
    also have "\<dots> = parse_base128_loop (of_nat (w div 128)) (b # rest)"
      using "1.IH" [OF False, of "b # rest"] "1.prems" by simp
    also have "\<dots> = parse_base128_loop (of_nat w) rest"
    proof -
      have "\<not> (2 ^ 57 \<le> w div 128 \<or> w div 128 = 0 \<and> unat b = 128)" using False b "1.prems" by auto
      moreover have "(w div 128) * 128 + unat b mod 128 = w" "128 \<le> unat b" using b by simp_all
      moreover have "w div 128 < 2 ^ 64" using "1.prems" by simp
      ultimately show ?thesis by (simp only: parse_base128_step Let_def if_False if_True)
    qed
    finally show ?thesis .
  qed
qed

lemma parse_base128_enc:
  assumes "v < 2 ^ 64"
  shows "parse_base128_integer (base128_enc v @ rest) = (Some (of_nat v), rest)"
proof -
  define b :: u8 where "b = of_nat (v mod 128)"
  have b: "unat b = v mod 128" unfolding b_def unat_of_nat_u8 by simp
  have d: "v div 128 < 2 ^ 57" using assms by simp
  have "parse_base128_integer (base128_enc v @ rest) = parse_base128_loop (of_nat (v div 128)) (b # rest)"
    using parse_base128_hi [OF d, of "b # rest"]
    by (simp add: parse_base128_integer_def base128_enc_def b_def)
  moreover have "\<not> (2 ^ 57 \<le> v div 128 \<or> v div 128 = 0 \<and> unat b = 128)" using d b by auto
  moreover have "(v div 128) * 128 + unat b mod 128 = v" "\<not> 128 \<le> unat b" using b by simp_all
  moreover have "v div 128 < 2 ^ 64" using assms by simp
  ultimately show ?thesis by (simp only: parse_base128_step Let_def if_False if_True)
qed

lemma base128_hi_step:
  assumes "u \<noteq> 0 \<or> unat b \<noteq> 128" "128 \<le> unat b"
  shows "base128_hi (u * 128 + unat b mod 128) = base128_hi u @ [b]"
proof -
  have "unat b - 128 < 128" using unat_u8 [of b] by arith
  then have m: "128 + unat b mod 128 = unat b"
    using assms(2) by (simp add: le_mod_geq)
  then have nz: "u * 128 + unat b mod 128 \<noteq> 0" using assms by auto
  have dm: "(u * 128 + unat b mod 128) div 128 = u" "(u * 128 + unat b mod 128) mod 128 = unat b mod 128"
    by simp_all
  show ?thesis
    unfolding base128_hi.simps [of "u * 128 + unat b mod 128"] dm m
    using nz by simp
qed

lemma base128_enc_step:
  assumes "unat b < 128"
  shows "base128_enc (u * 128 + unat b mod 128) = base128_hi u @ [b]"
  using assms by (simp add: base128_enc_def)

lemma parse_base128_canonical:
  "parse_base128_loop v bs = (Some x, rest) \<Longrightarrow> base128_hi (unat v) @ bs = base128_enc (unat x) @ rest"
proof (induction v bs rule: parse_base128_loop.induct)
  case (1 v)
  then show ?case by simp
next
  case (2 v b bs)
  have u: "unat v < 2 ^ 64" using unsigned_less [of v, where ?'a = nat] by simp
  have step: "parse_base128_loop v (b # bs) =
    (if 2 ^ 57 \<le> unat v \<or> unat v = 0 \<and> unat b = 128 then (None, bs)
     else let v' = of_nat (unat v * 128 + unat b mod 128)
          in if 128 \<le> unat b then parse_base128_loop v' bs else (Some v', bs))"
    using parse_base128_step [OF u, of b bs] by (simp only: of_nat_unat) simp
  have v57: "unat v < 2 ^ 57" and nz: "unat v \<noteq> 0 \<or> unat b \<noteq> 128"
    using "2.prems" unfolding step by (auto split: if_splits)
  define v' :: u64 where "v' = of_nat (unat v * 128 + unat b mod 128)"
  have v': "unat v' = unat v * 128 + unat b mod 128"
    unfolding v'_def unat_of_nat using v57 by (intro mod_less) simp
  show ?case
  proof (cases "128 \<le> unat b")
    case True
    have or_eq: "push_bit 7 v OR ucast (b AND 0x7f) = v'"
      using unat_shift7_or [OF v57, of b] v' by (simp add: word_unat_eq_iff)
    have cond: "\<not> drop_bit (64 - 7) v \<noteq> 0" "\<not> (v = 0 \<and> b = 0x80)" "b AND 0x80 \<noteq> 0"
      using v57 nz True drop_bit_eq_0_iff [of 57 v] by (auto simp: byte_flag)
    have "parse_base128_loop v' bs = (Some x, rest)"
      using "2.prems" v57 nz True unfolding step v'_def
      by (auto simp: Let_def simp del: of_nat_add of_nat_mult split: if_splits)
    with "2.IH" [OF cond(1,2) refl cond(3)] have
      "base128_hi (unat v') @ bs = base128_enc (unat x) @ rest" by (simp only: or_eq)
    then show ?thesis using base128_hi_step [OF nz True] by (simp add: v')
  next
    case False
    then have "x = v'" "rest = bs"
      using "2.prems" v57 nz unfolding step v'_def by (simp_all add: Let_def)
    then show ?thesis using base128_enc_step [of b "unat v"] False by (simp add: v')
  qed
qed

interpretation base128_codec: canonical_codec "\<lambda>v :: u64. base128_enc (unat v)" parse_base128_integer "\<lambda>_. True"
proof
  show "parse_base128_integer (base128_enc (unat x) @ rest) = (Some x, rest)" for x rest
    using parse_base128_enc [of "unat x" rest] unsigned_less [of x, where ?'a = nat] by simp
  show "True \<and> bs = base128_enc (unat x) @ rest" if "parse_base128_integer bs = (Some x, rest)" for bs x rest
    using that parse_base128_canonical [of 0 bs x rest] by (simp add: parse_base128_integer_def)
qed

section \<open>Tags and lengths\<close>

text \<open>The identifier octets: class and constructed bit in the top three bits of the tag.\<close>

definition tag_enc :: "u32 \<Rightarrow> u8 list" where
  "tag_enc tag =
     (let top = unat tag div 2 ^ 29; number = unat tag mod 2 ^ 29
      in if number < 31 then [of_nat (32 * top + number)]
         else of_nat (32 * top + 31) # base128_enc number)"

text \<open>The length octets: short form, or the shortest big-endian number after a count.\<close>

fun min_be :: "nat \<Rightarrow> u8 list" where
  "min_be n = (if n = 0 then [] else min_be (n div 256) @ [of_nat n])"

declare min_be.simps [simp del]

definition der_length :: "nat \<Rightarrow> u8 list" where
  "der_length n = (if n < 128 then [of_nat n] else of_nat (128 + length (min_be n)) # min_be n)"

definition der_enc :: "u32 \<times> u8 list \<Rightarrow> u8 list" where
  "der_enc = (\<lambda>(tag, contents). tag_enc tag @ der_length (length contents) @ contents)"

lemma tag_top: "push_bit CBS_ASN1_TAG_SHIFT (ucast b AND 0xe0) = (push_bit 29 (ucast (drop_bit 5 b)) :: u32)"
  for b :: u8
proof -
  have e0: "(0xe0 :: u32) = push_bit 5 (mask 3)" by (simp add: mask_eq_exp_minus_1)
  show ?thesis
    unfolding CBS_ASN1_TAG_SHIFT_def e0
    by (rule bit_word_eqI) (auto simp: bit_simps dest: bit_imp_le_length)
qed

lemma unat_tag_or:
  fixes b :: u8 and w :: u32
  assumes "unat w < 2 ^ 29"
  shows "unat (push_bit CBS_ASN1_TAG_SHIFT (ucast b AND 0xe0) OR w) = unat b div 32 * 2 ^ 29 + unat w"
proof -
  have "unat b div 32 < 8" using unat_u8 [of b] by (intro less_mult_imp_div_less) simp
  moreover have u: "unat (ucast (drop_bit 5 b) :: u32) = unat b div 32"
    using unat_drop_bit [of 5 b] calculation
    by (simp add: unsigned_ucast_eq take_bit_eq_mod)
  ultimately show ?thesis
    unfolding tag_top using unat_push_or [of 29 "ucast (drop_bit 5 b)" w] assms by simp
qed

lemma tag_number_mask: "unat CBS_ASN1_TAG_NUMBER_MASK = 2 ^ 29 - 1"
  "(ucast CBS_ASN1_TAG_NUMBER_MASK :: u64) = 2 ^ 29 - 1"
  by (simp_all add: CBS_ASN1_TAG_NUMBER_MASK_def CBS_ASN1_TAG_SHIFT_def push_bit_eq_mult)

lemma tag_enc_nonempty [simp]: "tag_enc tag \<noteq> []"
  by (simp add: tag_enc_def Let_def)

lemma parse_asn1_tag_Nil [simp]: "parse_asn1_tag [] = (None, [])"
  by (simp add: parse_asn1_tag_def)

lemma parse_asn1_tag_Cons:
  "parse_asn1_tag (b # cbs) = (Some tag, rest) \<longleftrightarrow>
    (if unat b mod 32 = 31
     then \<exists>n. 31 \<le> n \<and> n < 2 ^ 29 \<and> cbs = base128_enc n @ rest \<and>
            tag = of_nat (unat b div 32 * 2 ^ 29 + n)
     else cbs = rest \<and> tag = of_nat (unat b div 32 * 2 ^ 29 + unat b mod 32))"
proof -
  define tag0 :: u32 where "tag0 = push_bit CBS_ASN1_TAG_SHIFT (ucast b AND 0xe0)"
  have num: "unat (ucast (b AND 0x1f) :: u32) = unat b mod 32"
    by (simp add: unsigned_ucast_eq byte_low5 take_bit_eq_mod)
  then have is31: "(ucast (b AND 0x1f) :: u32) = 0x1f \<longleftrightarrow> unat b mod 32 = 31"
    by (simp add: word_unat_eq_iff)
  have tag_or: "tag0 OR w = of_nat (unat b div 32 * 2 ^ 29 + unat w)" if "unat w < 2 ^ 29" for w
    using arg_cong [OF unat_tag_or [OF that, of b], of "of_nat :: nat \<Rightarrow> u32"]
    by (simp only: tag0_def of_nat_unat ucast_id)
  have low: "tag0 OR ucast (b AND 0x1f) = of_nat (unat b div 32 * 2 ^ 29 + unat b mod 32)"
    using tag_or [of "ucast (b AND 0x1f)"] num by (simp only:) (simp add: less_trans [of _ 32])
  have high: "(if ucast CBS_ASN1_TAG_NUMBER_MASK < v \<or> v < 0x1f then (None, cs)
        else (Some (tag0 OR ucast v), cs)) = (Some tag, rest) \<longleftrightarrow>
      31 \<le> unat v \<and> unat v < 2 ^ 29 \<and> cs = rest \<and>
      tag = of_nat (unat b div 32 * 2 ^ 29 + unat v)" for v :: u64 and cs
  proof -
    have "\<not> (ucast CBS_ASN1_TAG_NUMBER_MASK < v \<or> v < 0x1f) \<longleftrightarrow> 31 \<le> unat v \<and> unat v < 2 ^ 29"
      by (auto simp: tag_number_mask word_less_nat_alt)
    moreover have "unat (ucast v :: u32) = unat v" if "unat v < 2 ^ 29"
      using that by (simp add: unsigned_ucast_eq take_bit_eq_mod)
    ultimately show ?thesis using tag_or [of "ucast v"] by auto
  qed
  show ?thesis
  proof (cases "unat b mod 32 = 31")
    case True
    then have "parse_asn1_tag (b # cbs) = (Some tag, rest) \<longleftrightarrow>
      (\<exists>v. cbs = base128_enc (unat v) @ rest \<and> 31 \<le> unat v \<and> unat v < 2 ^ 29 \<and>
        tag = of_nat (unat b div 32 * 2 ^ 29 + unat (v :: u64)))"
      unfolding parse_asn1_tag_def CBS_get_u8_Cons ok_then_simps Let_def tag0_def [symmetric] is31
      by (simp only: refl if_True ok_then_Some high base128_codec.dec_Some_iff) blast
    also have "\<dots> \<longleftrightarrow> (\<exists>n. 31 \<le> n \<and> n < 2 ^ 29 \<and> cbs = base128_enc n @ rest \<and>
        tag = of_nat (unat b div 32 * 2 ^ 29 + n))"
    proof -
      have "unat (of_nat n :: u64) = n" if "n < 2 ^ 29" for n
        using that by (simp add: unat_of_nat)
      then show ?thesis by metis
    qed
    finally show ?thesis using True by simp
  next
    case False
    then show ?thesis
      unfolding parse_asn1_tag_def CBS_get_u8_Cons ok_then_simps Let_def tag0_def [symmetric] is31
      by (auto simp: low)
  qed
qed

lemma tag_split:
  assumes "t < 8" "n < 2 ^ 29"
  shows "unat (of_nat (t * 2 ^ 29 + n) :: u32) div 2 ^ 29 = t"
    and "unat (of_nat (t * 2 ^ 29 + n) :: u32) mod 2 ^ 29 = n"
proof -
  have "t * 2 ^ 29 \<le> 7 * 2 ^ 29" using assms(1) by (intro mult_right_mono) auto
  then have "t * 2 ^ 29 + n < 2 ^ 32" using assms(2) by simp
  then have "unat (of_nat (t * 2 ^ 29 + n) :: u32) = t * 2 ^ 29 + n"
    unfolding unat_of_nat by (intro mod_less) simp
  then show "unat (of_nat (t * 2 ^ 29 + n) :: u32) div 2 ^ 29 = t"
    "unat (of_nat (t * 2 ^ 29 + n) :: u32) mod 2 ^ 29 = n" using assms(2) by simp_all
qed

interpretation tag_codec: canonical_codec tag_enc parse_asn1_tag "\<lambda>_. True"
proof
  fix x :: u32 and rest
  define t n where "t = unat x div 2 ^ 29" and "n = unat x mod 2 ^ 29"
  have t: "t < 8" unfolding t_def using unsigned_less [of x, where ?'a = nat]
    by (intro less_mult_imp_div_less) simp
  have x: "x = of_nat (t * 2 ^ 29 + n)"
    unfolding t_def n_def by (simp only: div_mult_mod_eq of_nat_unat ucast_id)
  have b: "unat (of_nat (32 * t + m) :: u8) div 32 = t" "unat (of_nat (32 * t + m) :: u8) mod 32 = m"
    if "m < 32" for m
  proof -
    have "unat (of_nat (32 * t + m) :: u8) = 32 * t + m"
      unfolding unat_of_nat_u8 using t that by (intro mod_less) linarith
    then show "unat (of_nat (32 * t + m) :: u8) div 32 = t" "unat (of_nat (32 * t + m) :: u8) mod 32 = m"
      using that by simp_all
  qed
  have enc: "tag_enc x = (if n < 31 then [of_nat (32 * t + n)] else of_nat (32 * t + 31) # base128_enc n)"
    by (simp only: tag_enc_def Let_def t_def n_def)
  show "parse_asn1_tag (tag_enc x @ rest) = (Some x, rest)"
  proof (cases "n < 31")
    case True
    then have b': "unat (of_nat (32 * t + n) :: u8) div 32 = t"
      "unat (of_nat (32 * t + n) :: u8) mod 32 = n" using b [of n] by simp_all
    have "n \<noteq> 31" using True by simp
    then show ?thesis
      unfolding enc if_P [OF True] append_Cons append_Nil parse_asn1_tag_Cons b' using x by simp
  next
    case False
    have n: "n < 2 ^ 29" by (simp add: n_def)
    have b': "unat (of_nat (32 * t + 31) :: u8) div 32 = t"
      "unat (of_nat (32 * t + 31) :: u8) mod 32 = 31" using b [of 31] by simp_all
    show ?thesis
      unfolding enc if_not_P [OF False] append_Cons parse_asn1_tag_Cons b' if_P [OF refl]
      using False n x by (intro exI [of _ n]) simp
  qed
next
  fix bs and x :: u32 and rest
  assume p: "parse_asn1_tag bs = (Some x, rest)"
  then obtain b cs where bs: "bs = b # cs" by (cases bs) auto
  have t: "unat b div 32 < 8" using unat_u8 [of b] by (intro less_mult_imp_div_less) simp
  have b: "b = of_nat (32 * (unat b div 32) + unat b mod 32)"
    by (simp only: mult_div_mod_eq of_nat_unat ucast_id)
  show "True \<and> bs = tag_enc x @ rest"
  proof (cases "unat b mod 32 = 31")
    case True
    then obtain n where "31 \<le> n" "n < 2 ^ 29" "cs = base128_enc n @ rest"
      "x = of_nat (unat b div 32 * 2 ^ 29 + n)"
      using p unfolding bs parse_asn1_tag_Cons by auto
    then show ?thesis using b True unfolding bs tag_enc_def
      by (simp only: tag_split [OF t] Let_def) simp
  next
    case False
    have lt32: "unat b mod 32 < 32" by simp
    with False have n: "unat b mod 32 < 31" by linarith
    have n29: "unat b mod 32 < 2 ^ 29" by (rule less_trans [OF lt32]) simp
    from p False have "cs = rest" "x = of_nat (unat b div 32 * 2 ^ 29 + unat b mod 32)"
      unfolding bs parse_asn1_tag_Cons by auto
    then show ?thesis using b n unfolding bs tag_enc_def
      by (simp only: tag_split [OF t n29] Let_def) simp
  qed
qed

lemma min_be_0 [simp]: "min_be 0 = []"
  by (simp add: min_be.simps)

lemma min_be_pos: "0 < n \<Longrightarrow> min_be n = min_be (n div 256) @ [of_nat n]"
  by (simp add: min_be.simps)

lemma be_value_min_be [simp]: "be_value (min_be n) = n"
proof (induction n rule: min_be.induct)
  case (1 n)
  then show ?case by (cases "n = 0") (simp_all add: min_be_pos)
qed

lemma length_min_be: "n < 256 ^ k \<Longrightarrow> length (min_be n) \<le> k"
proof (induction k arbitrary: n)
  case 0
  then show ?case by simp
next
  case (Suc k)
  then have "n div 256 < 256 ^ k" by (simp add: less_mult_imp_div_less mult.commute)
  then show ?case using Suc.IH [of "n div 256"] by (cases "n = 0") (simp_all add: min_be_pos)
qed

lemma min_be_lower: "0 < n \<Longrightarrow> 256 ^ (length (min_be n) - 1) \<le> n"
proof (induction n rule: min_be.induct)
  case (1 n)
  show ?case
  proof (cases "n div 256 = 0")
    case True
    then show ?thesis using "1.prems" by (simp add: min_be_pos)
  next
    case False
    then have "256 ^ (length (min_be (n div 256)) - 1) \<le> n div 256" using 1 by simp
    then have "256 * 256 ^ (length (min_be (n div 256)) - 1) \<le> n" by linarith
    moreover have "0 < length (min_be (n div 256))" using False by (simp add: min_be_pos)
    ultimately show ?thesis using "1.prems" by (simp add: min_be_pos flip: power_Suc)
  qed
qed

lemma min_be_unique:
  "bs \<noteq> [] \<Longrightarrow> 256 ^ (length bs - 1) \<le> be_value bs \<Longrightarrow> min_be (be_value bs) = bs"
proof (induction bs rule: rev_induct)
  case Nil
  then show ?case by simp
next
  case (snoc b bs)
  have pos: "0 < be_value bs * 256 + unat b"
  proof -
    have "0 < (256 :: nat) ^ length bs" by simp
    also have "\<dots> \<le> be_value bs * 256 + unat b" using snoc.prems(2) by simp
    finally show ?thesis .
  qed
  have d: "(be_value bs * 256 + unat b) div 256 = be_value bs" using unat_u8 [of b] by simp
  have m: "(of_nat (be_value bs * 256 + unat b) :: u8) = b"
    using of_nat_unat_div [of "be_value bs" b] by (simp only: mult.commute)
  have "min_be (be_value bs) = bs"
  proof (cases bs)
    case Nil
    then show ?thesis by simp
  next
    case (Cons c cs)
    then have "256 ^ length bs = 256 ^ (length bs - 1) * (256 :: nat)" by simp
    moreover have "256 ^ length bs \<le> be_value bs * 256 + unat b" using snoc.prems(2) by simp
    ultimately have "256 ^ (length bs - 1) * 256 \<le> be_value bs * 256 + unat b" by simp
    then have "256 ^ (length bs - 1) \<le> be_value bs" using unat_u8 [of b] by linarith
    then show ?thesis using snoc.IH Cons by simp
  qed
  then show ?case using min_be_pos [OF pos] by (simp only: be_value_snoc d m)
qed

lemma length_base128_hi: "v < 128 ^ k \<Longrightarrow> length (base128_hi v) \<le> k"
proof (induction k arbitrary: v)
  case 0
  then show ?case by simp
next
  case (Suc k)
  then have "v div 128 < 128 ^ k" by (simp add: less_mult_imp_div_less mult.commute)
  then show ?case using Suc.IH [of "v div 128"] by (cases "v = 0") (simp_all add: base128_hi.simps [of v])
qed

lemma length_tag_enc: "length (tag_enc tag) \<le> 6"
proof -
  have "unat tag mod 2 ^ 29 < 2 ^ 29" by simp
  then have "(unat tag mod 2 ^ 29) div 128 < 128 ^ 4"
    by (intro less_mult_imp_div_less) (erule less_le_trans, simp)
  from length_base128_hi [OF this] show ?thesis
    by (simp add: tag_enc_def base128_enc_def Let_def)
qed

lemma length_der_length: "n < 2 ^ 32 \<Longrightarrow> length (der_length n) \<le> 5"
  using length_min_be [of n 4] by (simp add: der_length_def)

lemma length_der_enc:
  "length (der_enc (tag, c)) = length (tag_enc tag) + length (der_length (length c)) + length c"
  by (simp add: der_enc_def)


section \<open>DER elements\<close>

lemma element_bytes_Some:
  "element_bytes cbs tag hl ber n = (Some e, rest) \<longleftrightarrow>
    (\<exists>out. cbs = out @ rest \<and> length out = n \<and> e = (out, tag, hl, ber))"
  by (auto simp: element_bytes_def ok_then_Some CBS_get_bytes_Some)

text \<open>What the long form of the length accepts in DER mode, over the value of the length octets.\<close>

lemma asn1_long_form_der:
  assumes bs: "length bs = k" "0 < k" "k \<le> 4" and hl: "hl \<le> 7"
  shows "asn1_long_form cbs tag hl k (of_nat (be_value bs)) False = (Some e, rest) \<longleftrightarrow>
    128 \<le> be_value bs \<and> 256 ^ (k - 1) \<le> be_value bs \<and>
    (\<exists>out. cbs = out @ rest \<and> length out = be_value bs + hl + k \<and> e = (out, tag, hl + k, False))"
proof -
  have "(256::nat) ^ k \<le> 256 ^ 4" using bs(3) by (intro power_increasing) auto
  then have v: "be_value bs < 2 ^ 32" using be_value_less [of bs] bs(1) by simp
  then have u: "unat (of_nat (be_value bs) :: u64) = be_value bs" by (simp add: unat_of_nat)
  have lt: "(of_nat (be_value bs) :: u64) < 128 \<longleftrightarrow> be_value bs < 128"
    by (simp add: word_less_nat_alt u)
  have "(2::nat) ^ ((k - 1) * 8) = 256 ^ (k - 1)" by (simp add: power_mult mult.commute [of _ 8])
  then have d: "drop_bit ((k - 1) * 8) (of_nat (be_value bs) :: u64) = 0 \<longleftrightarrow> be_value bs < 256 ^ (k - 1)"
    by (simp only: drop_bit_eq_0_iff u)
  have sz: "size_t (be_value bs + hl + k) = be_value bs + hl + k"
    using v hl bs(3) by (intro size_t_id) (simp add: SIZE_MAX_def)
  show ?thesis
    unfolding asn1_long_form_def lt d u Let_def sz
    by (auto simp: element_bytes_Some not_less)
qed

lemma header_length:
  assumes "cbs = tag_enc tag @ b # h"
  shows "CBS_len cbs - CBS_len h = length (tag_enc tag) + 1"
  using assms by (simp add: CBS_len_def)

lemma any_asn1_element_unfold:
  "cbs_get_any_asn1_element cbs False = (Some e, rest) \<longleftrightarrow>
    (\<exists>tag b h. cbs = tag_enc tag @ b # h \<and>
      (if unat b < 128
       then element_bytes cbs tag (CBS_len cbs - CBS_len h) False (unat b + (CBS_len cbs - CBS_len h)) = (Some e, rest)
       else \<exists>bs h'. length bs = unat b - 128 \<and> 0 < length bs \<and> length bs \<le> 4 \<and> h = bs @ h' \<and>
         asn1_long_form cbs tag (CBS_len cbs - CBS_len h) (length bs) (of_nat (be_value bs)) False = (Some e, rest)))"
proof -
  have num: "unat (b AND 0x7f) = unat b - 128" if "128 \<le> unat b" for b :: u8
  proof -
    have "unat b - 128 < 128" using unat_u8 [of b] by arith
    then show ?thesis using that by (simp add: byte_low7 le_mod_geq)
  qed
  have count: "\<not> (unat (b AND 0x7f) = 0 \<or> 4 < unat (b AND 0x7f)) \<and>
      (\<exists>v h'. cbs_get_u h (unat (b AND 0x7f)) = (Some v, h') \<and>
        asn1_long_form cbs tag hl (unat (b AND 0x7f)) v False = (Some e, rest)) \<longleftrightarrow>
    (\<exists>bs h'. length bs = unat b - 128 \<and> 0 < length bs \<and> length bs \<le> 4 \<and> h = bs @ h' \<and>
      asn1_long_form cbs tag hl (length bs) (of_nat (be_value bs)) False = (Some e, rest))"
    if "128 \<le> unat b" for b :: u8 and h tag hl
    unfolding num [OF that] cbs_get_u_Some by (safe; fastforce)
  have body: "(let header_len = hl in
        if b AND 0x80 = 0 then element_bytes cbs tag header_len False (unat b + header_len)
        else let num_bytes = unat (b AND 0x7f) in
          if False \<and> tag AND CBS_ASN1_CONSTRUCTED \<noteq> 0 \<and> num_bytes = 0
          then element_bytes cbs tag header_len True header_len
          else if num_bytes = 0 \<or> 4 < num_bytes then (None, cbs)
          else ok_then (cbs_get_u h num_bytes) (\<lambda>len64 _.
            asn1_long_form cbs tag header_len num_bytes len64 False) (\<lambda>_. cbs)) = (Some e, rest) \<longleftrightarrow>
      (if unat b < 128 then element_bytes cbs tag hl False (unat b + hl) = (Some e, rest)
       else \<exists>bs h'. length bs = unat b - 128 \<and> 0 < length bs \<and> length bs \<le> 4 \<and> h = bs @ h' \<and>
         asn1_long_form cbs tag hl (length bs) (of_nat (be_value bs)) False = (Some e, rest))"
    for b :: u8 and h tag hl
  proof (cases "unat b < 128")
    case True
    then show ?thesis by (simp add: Let_def byte_flag)
  next
    case False
    then have b: "128 \<le> unat b" by simp
    have "(if n = 0 \<or> 4 < n then (None, cbs)
        else ok_then (cbs_get_u h n) (\<lambda>v _. asn1_long_form cbs tag hl n v False) (\<lambda>_. cbs)) = (Some e, rest) \<longleftrightarrow>
      \<not> (n = 0 \<or> 4 < n) \<and> (\<exists>v h'. cbs_get_u h n = (Some v, h') \<and>
        asn1_long_form cbs tag hl n v False = (Some e, rest))" for n
      by (simp add: ok_then_Some)
    then show ?thesis
      unfolding Let_def byte_flag count [OF b, of h tag hl, symmetric] using False by simp
  qed
  show ?thesis
    unfolding cbs_get_any_asn1_element_def ok_then_Some tag_codec.dec_Some_iff CBS_get_u8_Some body
    by blast
qed

lemma any_asn1_element_der:
  "cbs_get_any_asn1_element cbs False = (Some e, rest) \<longleftrightarrow>
    (\<exists>tag c. length c < 2 ^ 32 \<and> cbs = der_enc (tag, c) @ rest \<and>
      e = (der_enc (tag, c), tag, length (tag_enc tag) + length (der_length (length c)), False))"
  (is "?l \<longleftrightarrow> ?r")
proof
  assume ?l
  then obtain tag b h where cbs: "cbs = tag_enc tag @ b # h"
    and e0: "if unat b < 128
      then element_bytes cbs tag (CBS_len cbs - CBS_len h) False (unat b + (CBS_len cbs - CBS_len h)) = (Some e, rest)
      else \<exists>bs h'. length bs = unat b - 128 \<and> 0 < length bs \<and> length bs \<le> 4 \<and> h = bs @ h' \<and>
        asn1_long_form cbs tag (CBS_len cbs - CBS_len h) (length bs) (of_nat (be_value bs)) False = (Some e, rest)"
    unfolding any_asn1_element_unfold by blast
  note e = e0 [unfolded header_length [OF cbs]]
  show ?r
  proof (cases "unat b < 128")
    case True
    then obtain out where out: "cbs = out @ rest" "length out = unat b + (length (tag_enc tag) + 1)"
      "e = (out, tag, length (tag_enc tag) + 1, False)"
      using e by (auto simp: element_bytes_Some)
    define c where "c = drop (length (tag_enc tag) + 1) out"
    have "take (length (tag_enc tag) + 1) out = tag_enc tag @ [b]"
      using arg_cong [OF cbs, of "take (length (tag_enc tag) + 1)"] out(1,2) by simp
    then have o: "out = tag_enc tag @ b # c"
      unfolding c_def using append_take_drop_id [of "length (tag_enc tag) + 1" out]
      by (metis append_Cons append_Nil append_assoc)
    then have "length c = unat b" using out(2) by simp
    then have "der_length (length c) = [b]" using True by (simp add: der_length_def)
    then show ?thesis
      using out o \<open>length c = unat b\<close> True
      by (intro exI [of _ tag] exI [of _ c]) (simp add: der_enc_def)
  next
    case False
    then obtain bs h' where bs: "length bs = unat b - 128" "0 < length bs" "length bs \<le> 4" "h = bs @ h'"
      and l: "asn1_long_form cbs tag (length (tag_enc tag) + 1) (length bs) (of_nat (be_value bs)) False = (Some e, rest)"
      using e [unfolded if_not_P [OF False]] by blast
    have hl: "length (tag_enc tag) + 1 \<le> 7" using length_tag_enc [of tag] by simp
    from l obtain out where v: "128 \<le> be_value bs" "256 ^ (length bs - 1) \<le> be_value bs"
      and out: "cbs = out @ rest" "length out = be_value bs + (length (tag_enc tag) + 1) + length bs"
        "e = (out, tag, length (tag_enc tag) + 1 + length bs, False)"
      unfolding asn1_long_form_der [OF refl bs(2,3) hl] by auto
    define n where "n = length (tag_enc tag) + 1 + length bs"
    define c where "c = drop n out"
    have "take n out = tag_enc tag @ b # bs"
      using arg_cong [OF cbs, of "take n"] out(1,2) bs(4) by (simp add: n_def)
    then have o: "out = tag_enc tag @ b # bs @ c"
      unfolding c_def using append_take_drop_id [of n out] by (metis append_Cons append_assoc)
    then have c: "length c = be_value bs" using out(2) by simp
    have "min_be (length c) = bs" using min_be_unique v(2) bs(2) c by simp
    moreover have "b = of_nat (128 + length bs)"
    proof -
      have "128 + length bs = unat b" using bs(1) False by simp
      then show ?thesis by (simp only: of_nat_unat ucast_id)
    qed
    ultimately have dl: "der_length (length c) = b # bs" using v(1) c by (simp add: der_length_def)
    have "(256 :: nat) ^ length bs \<le> 256 ^ 4" using bs(3) by (intro power_increasing) auto
    then have "length c < 2 ^ 32" using be_value_less [of bs] c by simp
    then show ?thesis
      using out o dl by (intro exI [of _ tag] exI [of _ c]) (simp add: der_enc_def)
  qed
next
  assume ?r
  then obtain tag c where c: "length c < 2 ^ 32" "cbs = der_enc (tag, c) @ rest"
    "e = (der_enc (tag, c), tag, length (tag_enc tag) + length (der_length (length c)), False)" by auto
  show ?l
  proof (cases "length c < 128")
    case True
    let ?b = "of_nat (length c) :: u8"
    have b: "unat ?b = length c" using True by simp
    have cbs: "cbs = tag_enc tag @ ?b # c @ rest" and dl: "der_length (length c) = [?b]"
      using c True by (simp_all add: der_enc_def der_length_def)
    have "element_bytes cbs tag (length (tag_enc tag) + 1) False (unat ?b + (length (tag_enc tag) + 1)) = (Some e, rest)"
      unfolding b element_bytes_Some using c dl by (intro exI [of _ "der_enc (tag, c)"]) (simp add: der_enc_def)
    then show ?thesis
      unfolding any_asn1_element_unfold header_length [OF cbs, symmetric]
      using cbs b True by (intro exI [of _ tag] exI [of _ ?b] exI [of _ "c @ rest"]) simp
  next
    case False
    define bs where "bs = min_be (length c)"
    let ?b = "of_nat (128 + length bs) :: u8"
    have len: "length bs \<le> 4" unfolding bs_def using length_min_be [of "length c" 4] c(1) by simp
    have pos: "0 < length bs" unfolding bs_def using False by (subst min_be_pos) auto
    have v: "be_value bs = length c" by (simp add: bs_def)
    have low: "256 ^ (length bs - 1) \<le> length c"
      unfolding bs_def using False by (intro min_be_lower) auto
    have b: "unat ?b = 128 + length bs" unfolding unat_of_nat_u8 using len by simp
    have dl: "der_length (length c) = ?b # bs" using False by (simp add: der_length_def bs_def)
    then have cbs: "cbs = tag_enc tag @ ?b # bs @ c @ rest" using c by (simp add: der_enc_def)
    have hl: "length (tag_enc tag) + 1 \<le> 7" using length_tag_enc [of tag] by simp
    have "asn1_long_form cbs tag (length (tag_enc tag) + 1) (length bs) (of_nat (be_value bs)) False = (Some e, rest)"
      unfolding asn1_long_form_der [OF refl pos len hl]
      using False low v c dl by (auto intro!: exI [of _ "der_enc (tag, c)"] simp: der_enc_def)
    then have "asn1_long_form cbs tag (CBS_len cbs - CBS_len (bs @ c @ rest)) (length bs)
        (of_nat (be_value bs)) False = (Some e, rest)"
      unfolding header_length [OF cbs] .
    moreover have "length bs = unat ?b - 128" "\<not> unat ?b < 128" unfolding b by simp_all
    ultimately show ?thesis
      unfolding any_asn1_element_unfold using cbs pos len
      by (intro exI [of _ tag] exI [of _ ?b] exI [of _ "bs @ c @ rest"] conjI)
        (assumption, simp only: if_False, blast)
  qed
qed

lemma any_asn1_element_Some:
  "CBS_get_any_asn1_element cbs = (Some (out, tag, hl), rest) \<longleftrightarrow>
    (\<exists>c. length c < 2 ^ 32 \<and> cbs = der_enc (tag, c) @ rest \<and> out = der_enc (tag, c) \<and>
      hl = length (tag_enc tag) + length (der_length (length c)))"
  unfolding CBS_get_any_asn1_element_def ok_then_Some any_asn1_element_der by auto

lemma any_asn1_element_enc:
  "length c < 2 ^ 32 \<Longrightarrow> CBS_get_any_asn1_element (der_enc (tag, c) @ rest) =
    (Some (der_enc (tag, c), tag, length (tag_enc tag) + length (der_length (length c))), rest)"
  unfolding any_asn1_element_Some by blast

lemma skip_der_header [simp]:
  "CBS_skip (der_enc (tag, c)) (length (tag_enc tag) + length (der_length (length c))) = (Some (), c)"
  using CBS_skip_append [of "tag_enc tag @ der_length (length c)" _ c] by (simp add: der_enc_def)

lemma any_asn1: "CBS_get_any_asn1 cbs = (Some (c, tag), rest) \<longleftrightarrow>
    length c < 2 ^ 32 \<and> cbs = der_enc (tag, c) @ rest" (is "?l \<longleftrightarrow> ?r")
proof
  assume ?l
  then obtain out t hl s where e: "CBS_get_any_asn1_element cbs = (Some (out, t, hl), s)"
    and k: "(case CBS_skip out hl of (None, _) \<Rightarrow> (None, s) | (Some _, out) \<Rightarrow> (Some (out, t), s))
      = (Some (c, tag), rest)"
    unfolding CBS_get_any_asn1_def ok_then_Some by auto
  from e obtain c' where c': "length c' < 2 ^ 32" "cbs = der_enc (t, c') @ s" "out = der_enc (t, c')"
    "hl = length (tag_enc t) + length (der_length (length c'))"
    unfolding any_asn1_element_Some by auto
  with k show ?r by simp
next
  assume ?r
  then show ?l by (simp add: CBS_get_any_asn1_def any_asn1_element_enc)
qed

text \<open>DER elements are a canonical code: the reader accepts exactly one encoding of each.\<close>

interpretation der_codec: canonical_codec der_enc
  "\<lambda>cbs. ok_do (CBS_get_any_asn1 cbs) (\<lambda>(c, tag) cbs. (Some (tag, c), cbs))"
  "\<lambda>(tag, c). length c < 2 ^ 32"
  by unfold_locales (auto simp: ok_then_Some any_asn1)

lemma get_asn1: "CBS_get_asn1 cbs tag = (Some c, rest) \<longleftrightarrow>
    length c < 2 ^ 32 \<and> cbs = der_enc (tag, c) @ rest" (is "?l \<longleftrightarrow> ?r")
proof
  assume ?l
  then obtain out t hl s where e: "CBS_get_any_asn1_element cbs = (Some (out, t, hl), s)"
    and k: "t = tag" "(case CBS_skip out hl of (None, _) \<Rightarrow> (None, s) | (Some _, out) \<Rightarrow> (Some out, s))
      = (Some c, rest)"
    unfolding CBS_get_asn1_def cbs_get_asn1_def ok_then_Some by (auto split: if_splits)
  from e obtain c' where c': "length c' < 2 ^ 32" "cbs = der_enc (t, c') @ s" "out = der_enc (t, c')"
    "hl = length (tag_enc t) + length (der_length (length c'))"
    unfolding any_asn1_element_Some by auto
  with k show ?r by simp
next
  assume ?r
  then show ?l by (simp add: CBS_get_asn1_def cbs_get_asn1_def any_asn1_element_enc)
qed

text \<open>
  A tag mismatch is reported after the element has been consumed, as in the source.
\<close>

lemma get_asn1_mismatch:
  "length c < 2 ^ 32 \<Longrightarrow> tag' \<noteq> tag \<Longrightarrow> CBS_get_asn1 (der_enc (tag, c) @ rest) tag' = (None, rest)"
  by (simp add: CBS_get_asn1_def cbs_get_asn1_def any_asn1_element_enc)

lemma peek_asn1_tag: "CBS_peek_asn1_tag cbs tag \<longleftrightarrow> (\<exists>rest. cbs = tag_enc tag @ rest)"
proof
  assume "CBS_peek_asn1_tag cbs tag"
  then have "fst (parse_asn1_tag cbs) = Some tag"
    by (auto simp: CBS_peek_asn1_tag_def split: prod.splits option.splits if_splits)
  then obtain rest where "parse_asn1_tag cbs = (Some tag, rest)"
    by (cases "parse_asn1_tag cbs") auto
  then show "\<exists>rest. cbs = tag_enc tag @ rest" unfolding tag_codec.dec_Some_iff by auto
next
  assume "\<exists>rest. cbs = tag_enc tag @ rest"
  then obtain rest where cbs: "cbs = tag_enc tag @ rest" ..
  then have "CBS_len cbs \<noteq> 0" by (simp add: CBS_len_def)
  then show "CBS_peek_asn1_tag cbs tag"
    using tag_codec.dec_enc [of tag rest] by (simp add: CBS_peek_asn1_tag_def cbs)
qed

end
