(* ===== verification/CbsTyped.thy ===== *)
theory CbsTyped
  imports CbsAsn1
begin

text \<open>
  The typed readers of \<open>src/crypto/bytestring/cbs.c\<close>: INTEGER, BOOLEAN, BIT STRING and the optional
  elements, over the element reader of \<open>CbsAsn1\<close>. The lemmas show that each accepts exactly the DER
  encoding of a value: the shortest two's complement octets (\<open>uint_octets\<close>, \<open>int_octets\<close>) for
  integers, 0x00 or 0xff for booleans.
\<close>

section \<open>Typed readers\<close>

text \<open>\<open>None\<close> for an invalid INTEGER, otherwise \<open>Some is_negative\<close>.\<close>

definition CBS_is_valid_asn1_integer :: "cbs \<Rightarrow> bool option" where
  "CBS_is_valid_asn1_integer cbs =
     (case CBS_get_u8 cbs of
        (None, _) \<Rightarrow> None
      | (Some first_byte, copy) \<Rightarrow>
          (let is_negative = (first_byte AND 0x80 \<noteq> 0)
           in case CBS_get_u8 copy of
                (None, _) \<Rightarrow> Some is_negative
              | (Some second_byte, _) \<Rightarrow>
                  if first_byte = 0 \<and> second_byte AND 0x80 = 0 \<or>
                     first_byte = 0xff \<and> second_byte AND 0x80 \<noteq> 0
                  then None else Some is_negative))"

definition CBS_is_unsigned_asn1_integer :: "cbs \<Rightarrow> bool" where
  "CBS_is_unsigned_asn1_integer cbs = (CBS_is_valid_asn1_integer cbs = Some False)"

fun asn1_uint64_loop :: "u64 \<Rightarrow> u8 list \<Rightarrow> u64 option" where
  "asn1_uint64_loop out [] = Some out"
| "asn1_uint64_loop out (b # data) =
     (if drop_bit 56 out \<noteq> 0 then None else asn1_uint64_loop (push_bit 8 out OR ucast b) data)"

definition CBS_get_asn1_uint64 :: "cbs \<Rightarrow> u64 option \<times> cbs" where
  "CBS_get_asn1_uint64 cbs =
     ok_do (CBS_get_asn1 cbs CBS_ASN1_INTEGER) (\<lambda>bytes cbs.
       if \<not> CBS_is_unsigned_asn1_integer bytes then (None, cbs)
       else (asn1_uint64_loop 0 bytes, cbs))"

text \<open>
  The union of the source: eight bytes in memory order, read as a little-endian \<open>int64_t\<close>. The
  result is the 64-bit pattern; \<open>sint\<close> reads it as the signed value.
\<close>

definition int64_of_bytes :: "u8 list \<Rightarrow> u64" where
  "int64_of_bytes u = of_nat (be_value (rev u))"

definition CBS_get_asn1_int64 :: "cbs \<Rightarrow> u64 option \<times> cbs" where
  "CBS_get_asn1_int64 cbs =
     ok_do (CBS_get_asn1 cbs CBS_ASN1_INTEGER) (\<lambda>bytes cbs.
       case CBS_is_valid_asn1_integer bytes of
         None \<Rightarrow> (None, cbs)
       | Some is_negative \<Rightarrow>
           if 8 < CBS_len bytes then (None, cbs)
           else (Some (int64_of_bytes
                   (rev bytes @ replicate (8 - CBS_len bytes) (if is_negative then 0xff else 0))), cbs))"

definition CBS_get_asn1_bool :: "cbs \<Rightarrow> bool option \<times> cbs" where
  "CBS_get_asn1_bool cbs =
     ok_do (CBS_get_asn1 cbs CBS_ASN1_BOOLEAN) (\<lambda>bytes cbs.
       if CBS_len bytes \<noteq> 1 then (None, cbs)
       else let v = hd (CBS_data bytes)
            in if v \<noteq> 0 \<and> v \<noteq> 0xff then (None, cbs) else (Some (v \<noteq> 0), cbs))"

text \<open>Success with \<open>None\<close> for an absent element, with \<open>Some out\<close> for a present one.\<close>

definition CBS_get_optional_asn1 :: "cbs \<Rightarrow> u32 \<Rightarrow> cbs option option \<times> cbs" where
  "CBS_get_optional_asn1 cbs tag =
     (if CBS_peek_asn1_tag cbs tag
      then ok_do (CBS_get_asn1 cbs tag) (\<lambda>out cbs. (Some (Some out), cbs))
      else (Some None, cbs))"

definition CBS_get_optional_asn1_octet_string :: "cbs \<Rightarrow> u32 \<Rightarrow> (cbs \<times> bool) option \<times> cbs" where
  "CBS_get_optional_asn1_octet_string cbs tag =
     ok_do (CBS_get_optional_asn1 cbs tag) (\<lambda>child cbs.
       case child of
         Some child \<Rightarrow>
           (case CBS_get_asn1 child CBS_ASN1_OCTETSTRING of
              (None, _) \<Rightarrow> (None, cbs)
            | (Some out, child) \<Rightarrow>
                if CBS_len child \<noteq> 0 then (None, cbs) else (Some (out, True), cbs))
       | None \<Rightarrow> (Some ([], False), cbs))"

definition CBS_get_optional_asn1_uint64 :: "cbs \<Rightarrow> u32 \<Rightarrow> u64 \<Rightarrow> u64 option \<times> cbs" where
  "CBS_get_optional_asn1_uint64 cbs tag default_value =
     ok_do (CBS_get_optional_asn1 cbs tag) (\<lambda>child cbs.
       case child of
         Some child \<Rightarrow>
           (case CBS_get_asn1_uint64 child of
              (None, _) \<Rightarrow> (None, cbs)
            | (Some out, child) \<Rightarrow> if CBS_len child \<noteq> 0 then (None, cbs) else (Some out, cbs))
       | None \<Rightarrow> (Some default_value, cbs))"

definition CBS_get_optional_asn1_bool :: "cbs \<Rightarrow> u32 \<Rightarrow> int \<Rightarrow> int option \<times> cbs" where
  "CBS_get_optional_asn1_bool cbs tag default_value =
     ok_do (CBS_get_optional_asn1 cbs tag) (\<lambda>child cbs.
       case child of
         Some child \<Rightarrow>
           (case CBS_get_asn1 child CBS_ASN1_BOOLEAN of
              (None, _) \<Rightarrow> (None, cbs)
            | (Some child2, child) \<Rightarrow>
                if CBS_len child2 \<noteq> 1 \<or> CBS_len child \<noteq> 0 then (None, cbs)
                else let boolean = hd (CBS_data child2)
                     in if boolean = 0 then (Some 0, cbs)
                        else if boolean = 0xff then (Some 1, cbs)
                        else (None, cbs))
       | None \<Rightarrow> (Some default_value, cbs))"

definition CBS_is_valid_asn1_bitstring :: "cbs \<Rightarrow> bool" where
  "CBS_is_valid_asn1_bitstring cbs =
     (case CBS_get_u8 cbs of
        (None, _) \<Rightarrow> False
      | (Some num_unused_bits, rest) \<Rightarrow>
          if 7 < num_unused_bits then False
          else if num_unused_bits = 0 then True
          else case CBS_get_last_u8 rest of
                 (None, _) \<Rightarrow> False
               | (Some last_byte, _) \<Rightarrow>
                   (ucast last_byte :: u32) AND (push_bit (unat num_unused_bits) 1 - 1) = 0)"

definition CBS_asn1_bitstring_has_bit :: "cbs \<Rightarrow> u32 \<Rightarrow> bool" where
  "CBS_asn1_bitstring_has_bit cbs n =
     (if \<not> CBS_is_valid_asn1_bitstring cbs then False
      else let byte_num = unat (drop_bit 3 n + 1);
               bit_num = unat (7 - (n AND 7))
           in byte_num < CBS_len cbs \<and>
              (ucast (CBS_data cbs ! byte_num) :: u32) AND push_bit bit_num 1 \<noteq> 0)"

section \<open>Integers, booleans and bit strings\<close>

text \<open>The shortest two's complement octets of a natural number.\<close>

definition uint_octets :: "nat \<Rightarrow> u8 list" where
  "uint_octets n = (let bs = min_be n in if bs = [] \<or> 128 \<le> unat (hd bs) then 0 # bs else bs)"

lemma min_be_hd: "min_be n = b # bs \<Longrightarrow> b \<noteq> 0"
proof
  assume m: "min_be n = b # bs" and "b = 0"
  then have "be_value (min_be n) < 256 ^ length bs"
    using be_value_less [of bs] by (simp add: be_value_Cons del: be_value_min_be)
  then have "n < 256 ^ length bs" by (simp only: be_value_min_be)
  moreover have "0 < n" using m by (cases n) simp_all
  ultimately show False using min_be_lower [of n] m by simp
qed

lemma min_be_eq: "b \<noteq> 0 \<Longrightarrow> min_be (be_value (b # bs)) = b # bs"
proof (rule min_be_unique)
  assume "b \<noteq> 0"
  then have "1 \<le> unat b" using unat_0_iff [of b] by linarith
  then have "1 * 256 ^ length bs \<le> unat b * 256 ^ length bs" by (rule mult_right_mono) simp
  then have "256 ^ length bs \<le> unat b * 256 ^ length bs + be_value bs" by linarith
  then show "256 ^ (length (b # bs) - 1) \<le> be_value (b # bs)" by (simp add: be_value_Cons)
qed simp

lemma be_value_uint_octets [simp]: "be_value (uint_octets n) = n"
  by (simp add: uint_octets_def Let_def be_value_Cons)

lemma be_value_0_Cons: "be_value (0 # bs) = be_value bs"
  by (simp add: be_value_Cons)

lemma is_unsigned_integer: "CBS_is_unsigned_asn1_integer bs \<longleftrightarrow> bs = uint_octets (be_value bs)"
proof (cases bs)
  case Nil
  then show ?thesis
    by (simp add: CBS_is_unsigned_asn1_integer_def CBS_is_valid_asn1_integer_def uint_octets_def)
next
  case bs: (Cons b cs)
  show ?thesis
  proof (cases cs)
    case Nil
    show ?thesis
    proof (cases "b = 0")
      case True
      then show ?thesis
        using bs Nil by (simp add: CBS_is_unsigned_asn1_integer_def CBS_is_valid_asn1_integer_def
            uint_octets_def be_value_Cons)
    next
      case False
      from min_be_eq [OF this, of "[]"] show ?thesis
        using bs Nil False by (simp add: CBS_is_unsigned_asn1_integer_def
            CBS_is_valid_asn1_integer_def uint_octets_def byte_flag not_le Let_def)
    qed
  next
    case cs: (Cons c ds)
    show ?thesis
    proof (cases "b = 0")
      case True
      show ?thesis
      proof (cases "128 \<le> unat c")
        case c: True
        then have "c \<noteq> 0" by auto
        from min_be_eq [OF this, of ds] show ?thesis
          using bs cs c \<open>b = 0\<close>
          by (simp add: CBS_is_unsigned_asn1_integer_def be_value_0_Cons
            CBS_is_valid_asn1_integer_def uint_octets_def byte_flag not_le)
      next
        case False
        then have "uint_octets n \<noteq> 0 # c # ds" for n
          using min_be_hd [of n 0] by (auto simp: uint_octets_def Let_def)
        then have "bs \<noteq> uint_octets (be_value bs)" using bs cs True by metis
        then show ?thesis
          using bs cs False True by (simp add: CBS_is_unsigned_asn1_integer_def
            CBS_is_valid_asn1_integer_def byte_flag not_le)
      qed
    next
      case False
      from min_be_eq [OF this, of cs] show ?thesis
        using bs cs False
        by (auto simp: CBS_is_unsigned_asn1_integer_def
            CBS_is_valid_asn1_integer_def uint_octets_def byte_flag not_le Let_def split: if_splits)
    qed
  qed
qed

lemma asn1_uint64_loop:
  "asn1_uint64_loop out bs =
    (if unat out * 256 ^ length bs + be_value bs < 2 ^ 64
     then Some (of_nat (unat out * 256 ^ length bs + be_value bs)) else None)"
proof (induction bs arbitrary: out)
  case Nil
  then show ?case using unsigned_less [of out, where ?'a = nat] by simp
next
  case (Cons b bs)
  have d: "drop_bit 56 out \<noteq> 0 \<longleftrightarrow> 2 ^ 56 \<le> unat out"
    using drop_bit_eq_0_iff [of 56 out] by (simp only: not_less)
  have val: "unat out * 256 ^ length (b # bs) + be_value (b # bs) =
      (unat out * 256 + unat b) * 256 ^ length bs + be_value bs"
    by (simp add: be_value_Cons algebra_simps)
  show ?case
  proof (cases "2 ^ 56 \<le> unat out")
    case True
    then have "(2 ^ 56 * 256) * 1 \<le> (unat out * 256 + unat b) * 256 ^ length bs"
      by (intro mult_mono) auto
    then show ?thesis unfolding val using d True by simp
  next
    case False
    have "unat (ucast b :: u64) = unat b" using unat_u8 [of b] by (simp add: unsigned_ucast_eq take_bit_eq_mod mod_less less_trans [of _ 256])
    then have "unat (push_bit 8 out OR ucast b) = unat out * 256 + unat b"
      using unat_push_or [of 8 out "ucast b"] False by simp
    then show ?thesis unfolding val using Cons.IH [of "push_bit 8 out OR ucast b"] d False by simp
  qed
qed

lemma get_asn1_uint64: "CBS_get_asn1_uint64 cbs = (Some w, rest) \<longleftrightarrow>
    cbs = der_enc (CBS_ASN1_INTEGER, uint_octets (unat w)) @ rest"
proof -
  have "CBS_get_asn1_uint64 cbs = (Some w, rest) \<longleftrightarrow>
      (\<exists>bs. length bs < 2 ^ 32 \<and> cbs = der_enc (CBS_ASN1_INTEGER, bs) @ rest \<and>
        bs = uint_octets (be_value bs) \<and> be_value bs < 2 ^ 64 \<and> w = of_nat (be_value bs))"
    by (auto simp: CBS_get_asn1_uint64_def ok_then_Some get_asn1 is_unsigned_integer asn1_uint64_loop)
  also have "\<dots> \<longleftrightarrow> cbs = der_enc (CBS_ASN1_INTEGER, uint_octets (unat w)) @ rest"
  proof -
    have "length (uint_octets (unat w)) < 2 ^ 32"
      using length_min_be [of "unat w" 8] unsigned_less [of w, where ?'a = nat]
      by (simp add: uint_octets_def Let_def)
    moreover have "unat (of_nat n :: u64) = n" if "n < 2 ^ 64" for n
      using that by (simp add: unat_of_nat)
    moreover have "unat w < 2 ^ 64" using unsigned_less [of w, where ?'a = nat] by simp
    ultimately show ?thesis
      by (intro iffI; (elim exE conjE)?) (auto intro!: exI [of _ "uint_octets (unat w)"])
  qed
  finally show ?thesis .
qed

lemma get_asn1_bool: "CBS_get_asn1_bool cbs = (Some b, rest) \<longleftrightarrow>
    cbs = der_enc (CBS_ASN1_BOOLEAN, [if b then 0xff else 0]) @ rest"
proof -
  have one: "length bs = 1 \<longleftrightarrow> (\<exists>x. bs = [x])" for bs :: cbs by (cases bs) auto
  have "CBS_get_asn1_bool cbs = (Some b, rest) \<longleftrightarrow>
      (\<exists>x. cbs = der_enc (CBS_ASN1_BOOLEAN, [x]) @ rest \<and> (x = 0 \<or> x = 0xff) \<and> b = (x \<noteq> 0))"
  proof
    assume "CBS_get_asn1_bool cbs = (Some b, rest)"
    then obtain bs where "cbs = der_enc (CBS_ASN1_BOOLEAN, bs) @ rest" "length bs = 1"
      "hd bs = 0 \<or> hd bs = 0xff" "b = (hd bs \<noteq> 0)"
      by (auto simp: CBS_get_asn1_bool_def ok_then_Some get_asn1 CBS_len_def CBS_data_def Let_def
        split: if_splits)
    then show "\<exists>x. cbs = der_enc (CBS_ASN1_BOOLEAN, [x]) @ rest \<and> (x = 0 \<or> x = 0xff) \<and> b = (x \<noteq> 0)"
      using one by auto
  next
    assume "\<exists>x. cbs = der_enc (CBS_ASN1_BOOLEAN, [x]) @ rest \<and> (x = 0 \<or> x = 0xff) \<and> b = (x \<noteq> 0)"
    then obtain x where "CBS_get_asn1 cbs CBS_ASN1_BOOLEAN = (Some [x], rest)"
      "x = 0 \<or> x = 0xff" "b = (x \<noteq> 0)" unfolding get_asn1 by auto
    then show "CBS_get_asn1_bool cbs = (Some b, rest)"
      by (auto simp: CBS_get_asn1_bool_def CBS_len_def CBS_data_def)
  qed
  then show ?thesis by auto
qed

text \<open>Two's complement: the octets of a negative number complement those of the other sign.\<close>

definition int_octets :: "int \<Rightarrow> u8 list" where
  "int_octets i = (if 0 \<le> i then uint_octets (nat i) else map NOT (uint_octets (nat (- 1 - i))))"

definition int_value :: "u8 list \<Rightarrow> int" where
  "int_value bs = (if bs \<noteq> [] \<and> 128 \<le> unat (hd bs) then int (be_value bs) - 256 ^ length bs
                   else int (be_value bs))"

lemma unat_not_u8: "unat (NOT b) = 255 - unat b" for b :: u8
proof -
  have "unat (- 1 - b) = unat (- 1 :: u8) - unat b" by (rule unat_sub) (rule word_order.extremum)
  moreover have "unat (- 1 :: u8) = 255" by (simp add: unsigned_minus_1_eq_mask mask_eq_exp_minus_1)
  moreover have "- 1 - b = NOT b" by (simp add: not_eq_complement)
  ultimately show ?thesis by simp
qed

lemma be_value_not: "be_value (map NOT bs) = 256 ^ length bs - 1 - be_value bs"
proof (induction bs rule: rev_induct)
  case Nil
  then show ?case by simp
next
  case (snoc b bs)
  have "be_value bs < 256 ^ length bs" by (rule be_value_less)
  then have "(256 ^ length bs - 1 - be_value bs) * 256 + (255 - unat b) =
      256 ^ length bs * 256 - 1 - (be_value bs * 256 + unat b)"
    using unat_u8_le [of b] by (simp add: diff_mult_distrib)
  then show ?case using snoc by (simp add: unat_not_u8 mult.commute)
qed

lemma map_not_not [simp]: "map NOT (map NOT bs) = (bs :: u8 list)"
  by (induction bs) simp_all

lemma valid_integer_not:
  "CBS_is_valid_asn1_integer (map NOT bs) = map_option Not (CBS_is_valid_asn1_integer bs)"
proof -
  have z: "NOT b = 0 \<longleftrightarrow> b = 0xff" "NOT b = 0xff \<longleftrightarrow> b = 0" for b :: u8
    using unat_u8_le [of b] by (auto simp: word_unat_eq_iff unat_not_u8)
  have f: "NOT b AND 0x80 = 0 \<longleftrightarrow> b AND 0x80 \<noteq> 0" for b :: u8
    using unat_u8_le [of b] by (auto simp: byte_flag unat_not_u8)
  show ?thesis
  proof (cases bs)
    case Nil
    then show ?thesis by (simp add: CBS_is_valid_asn1_integer_def)
  next
    case (Cons b cs)
    then show ?thesis by (cases cs) (auto simp: CBS_is_valid_asn1_integer_def z f Let_def)
  qed
qed

lemma uint_octets_hd: "uint_octets n \<noteq> [] \<and> unat (hd (uint_octets n)) < 128"
  by (simp add: uint_octets_def Let_def not_le)

lemma valid_integer_neg:
  "CBS_is_valid_asn1_integer bs = Some True \<longleftrightarrow> map NOT bs = uint_octets (be_value (map NOT bs))"
proof -
  have "CBS_is_valid_asn1_integer bs = Some True \<longleftrightarrow> CBS_is_valid_asn1_integer (map NOT bs) = Some False"
    unfolding valid_integer_not by (cases "CBS_is_valid_asn1_integer bs") auto
  then show ?thesis using is_unsigned_integer [of "map NOT bs"] by (simp add: CBS_is_unsigned_asn1_integer_def)
qed

lemma hd_not: "bs \<noteq> [] \<Longrightarrow> 128 \<le> unat (hd (map NOT bs)) \<longleftrightarrow> unat (hd bs) < 128" for bs :: "u8 list"
  using unat_u8_le [of "hd bs"] by (cases bs) (auto simp: unat_not_u8)

lemma int_value_not: "bs \<noteq> [] \<Longrightarrow> int_value (map NOT bs) = - 1 - int_value bs"
proof -
  assume bs: "bs \<noteq> []"
  have "int (be_value (map NOT bs)) = 256 ^ length bs - 1 - int (be_value bs)"
    using be_value_less [of bs] by (simp add: be_value_not of_nat_diff)
  then show ?thesis using bs hd_not [OF bs] by (auto simp: int_value_def)
qed

lemma int_value_octets [simp]: "int_value (int_octets i) = i"
proof -
  have u: "int_value (uint_octets n) = int n" for n
    using uint_octets_hd [of n] by (simp add: int_value_def)
  show ?thesis using uint_octets_hd u by (simp add: int_octets_def int_value_not)
qed

lemma valid_integer_octets: "CBS_is_valid_asn1_integer (int_octets i) = Some (i < 0)"
proof -
  have u: "CBS_is_valid_asn1_integer (uint_octets n) = Some False" for n
    using is_unsigned_integer [of "uint_octets n"] by (simp add: CBS_is_unsigned_asn1_integer_def)
  show ?thesis by (simp add: int_octets_def valid_integer_not u)
qed

lemma valid_integer: "CBS_is_valid_asn1_integer bs = Some neg \<longleftrightarrow>
    bs = int_octets (int_value bs) \<and> neg = (int_value bs < 0)"
proof (cases neg)
  case False
  show ?thesis
  proof
    assume "CBS_is_valid_asn1_integer bs = Some neg"
    then have b: "bs = uint_octets (be_value bs)"
      using False is_unsigned_integer by (simp add: CBS_is_unsigned_asn1_integer_def)
    then have "int_value bs = int (be_value bs)"
      using uint_octets_hd [of "be_value bs"] by (simp add: int_value_def)
    then show "bs = int_octets (int_value bs) \<and> neg = (int_value bs < 0)"
      using b False by (simp add: int_octets_def)
  next
    assume "bs = int_octets (int_value bs) \<and> neg = (int_value bs < 0)"
    then show "CBS_is_valid_asn1_integer bs = Some neg" using valid_integer_octets [of "int_value bs"] by simp
  qed
next
  case True
  show ?thesis
  proof
    assume "CBS_is_valid_asn1_integer bs = Some neg"
    then have b: "map NOT bs = uint_octets (be_value (map NOT bs))"
      using True valid_integer_neg by simp
    then have ne: "bs \<noteq> []" using uint_octets_hd [of "be_value (map NOT bs)"] by auto
    have "int_value (map NOT bs) = int (be_value (map NOT bs))"
      using uint_octets_hd [of "be_value (map NOT bs)"] b by (simp add: int_value_def)
    then have v: "- 1 - int_value bs = int (be_value (map NOT bs))" using int_value_not [OF ne] by simp
    then have "int_octets (int_value bs) = map NOT (uint_octets (be_value (map NOT bs)))"
      by (simp add: int_octets_def)
    then have "int_octets (int_value bs) = bs" using b map_not_not [of bs] by simp
    then show "bs = int_octets (int_value bs) \<and> neg = (int_value bs < 0)"
      using v True by simp
  next
    assume "bs = int_octets (int_value bs) \<and> neg = (int_value bs < 0)"
    then show "CBS_is_valid_asn1_integer bs = Some neg" using valid_integer_octets [of "int_value bs"] by simp
  qed
qed


text \<open>Up to eight octets fit the 64-bit result, sign-extended with the octet the source pads with.\<close>

lemma be_value_replicate_ff: "be_value (replicate k 0xff) = 256 ^ k - 1"
proof (induction k)
  case 0
  then show ?case by simp
next
  case (Suc k)
  have "(0xff :: u8) # replicate k 0xff = replicate k 0xff @ [0xff]"
    by (simp add: replicate_append_same)
  moreover have "(256 :: nat) ^ k \<ge> 1" by simp
  ultimately show ?case using Suc by (simp only: replicate_Suc be_value_snoc) (simp add: diff_mult_distrib)
qed

lemma be_value_replicate_0 [simp]: "be_value (replicate k 0) = 0"
  by (induction k) (simp_all add: be_value_Cons)

lemma int64_of_bytes_pad:
  assumes "bs \<noteq> []" "length bs \<le> 8"
  shows "int64_of_bytes (rev bs @ replicate (8 - length bs) (if int_value bs < 0 then 0xff else 0)) =
    of_int (int_value bs)"
proof (cases "int_value bs < 0")
  case False
  then have "int_value bs = int (be_value bs)"
    using be_value_less [of bs] by (auto simp: int_value_def split: if_splits)
  then show ?thesis using False by (simp add: int64_of_bytes_def be_value_append)
next
  case True
  then have v: "int_value bs = int (be_value bs) - 256 ^ length bs"
    by (auto simp: int_value_def split: if_splits)
  have p: "(256 :: nat) ^ (8 - length bs) * 256 ^ length bs = 2 ^ 64"
    using assms(2) by (simp flip: power_add)
  have "int (be_value (replicate (8 - length bs) 0xff @ bs)) =
      (256 ^ (8 - length bs) - 1) * 256 ^ length bs + int (be_value bs)"
    by (simp add: be_value_append be_value_replicate_ff of_nat_diff)
  also have "\<dots> = 2 ^ 64 + int_value bs"
    using arg_cong [OF p, of int] v by (simp add: left_diff_distrib)
  finally have "(of_nat (be_value (replicate (8 - length bs) 0xff @ bs)) :: u64) = of_int (2 ^ 64 + int_value bs)"
    by (metis of_int_of_nat_eq)
  also have "\<dots> = of_int (int_value bs)"
  proof -
    have "(of_int (2 ^ 64) :: u64) = 0" by simp
    then show ?thesis by (simp only: of_int_add add_0)
  qed
  finally show ?thesis using True by (simp add: int64_of_bytes_def)
qed

lemma int_octets_length:
  assumes "- (2 ^ 63) \<le> i" "i < 2 ^ 63"
  shows "length (int_octets i) \<le> 8"
proof -
  have u: "length (uint_octets n) \<le> 8" if n: "n < 2 ^ 63" for n
  proof (cases "min_be n")
    case (Cons b bs)
    have l: "length (min_be n) \<le> 8" using n by (intro length_min_be) simp
    have "\<not> (128 \<le> unat b \<and> length (min_be n) = 8)"
    proof
      assume b: "128 \<le> unat b \<and> length (min_be n) = 8"
      have "128 * 256 ^ 7 \<le> unat b * 256 ^ 7" using b by simp
      also have "\<dots> \<le> be_value (min_be n)" using b Cons by (simp add: be_value_Cons del: be_value_min_be)
      finally show False using n by simp
    qed
    then show ?thesis using l Cons by (auto simp: uint_octets_def Let_def)
  qed (simp add: uint_octets_def)
  show ?thesis using assms u [of "nat i"] u [of "nat (- 1 - i)"] by (auto simp: int_octets_def nat_less_iff)
qed

lemma int_value_range:
  assumes "length bs \<le> 8"
  shows "- (2 ^ 63) \<le> int_value bs \<and> int_value bs < 2 ^ 63"
proof (cases bs)
  case Nil
  then show ?thesis by (simp add: int_value_def)
next
  case (Cons b cs)
  have "be_value cs < 256 ^ length cs" by (rule be_value_less)
  then have cs: "int (be_value cs) < 256 ^ length cs"
    using of_nat_less_iff [of "be_value cs" "256 ^ length cs", where ?'a = int] by simp
  have p: "(256 :: int) ^ length cs \<le> 256 ^ 7" using assms Cons by (intro power_increasing) auto
  define n where "n = unat b"
  have n: "n \<le> 255" "int (be_value bs) = int n * 256 ^ length cs + int (be_value cs)"
    using unat_u8_le [of b] Cons by (simp_all add: n_def be_value_Cons)
  have v: "int_value bs = (if 128 \<le> n then int (be_value bs) - 256 ^ length bs else int (be_value bs))"
    using Cons by (simp add: int_value_def n_def)
  show ?thesis
  proof (cases "128 \<le> n")
    case False
    then have "(int n + 1) * 256 ^ length cs \<le> 128 * 256 ^ length cs" by (intro mult_right_mono) auto
    then have "int n * 256 ^ length cs + 256 ^ length cs \<le> 128 * 256 ^ length cs" by (simp add: algebra_simps)
    moreover have "0 \<le> int n * 256 ^ length cs" by simp
    moreover have "(256 :: int) ^ length cs \<le> 72057594037927936" using p by simp
    ultimately have "0 \<le> int (be_value bs)" "int (be_value bs) < 9223372036854775808"
      using cs unfolding n(2) by linarith+
    then show ?thesis using False unfolding v by simp
  next
    case True
    then have "128 * 256 ^ length cs \<le> int n * 256 ^ length cs" by (intro mult_right_mono) auto
    moreover
    have "(int n + 1) * 256 ^ length cs \<le> 256 * 256 ^ length cs"
      using n(1) by (intro mult_right_mono) auto
    then have "int n * 256 ^ length cs + 256 ^ length cs \<le> 256 * 256 ^ length cs" by (simp add: algebra_simps)
    moreover have "(256 :: int) ^ length cs \<le> 72057594037927936" using p by simp
    ultimately have "- 9223372036854775808 \<le> int (be_value bs) - 256 * 256 ^ length cs"
      "int (be_value bs) - 256 * 256 ^ length cs < 9223372036854775808"
      using cs unfolding n(2) by linarith+
    then show ?thesis using True Cons unfolding v by simp
  qed
qed

lemma sint_of_int_id: "- (2 ^ 63) \<le> i \<Longrightarrow> i < 2 ^ 63 \<Longrightarrow> sint (of_int i :: u64) = i"
  by (simp add: sint_sbintrunc' signed_take_bit_int_eq_self)

lemma asn1_int64_body:
  assumes "length bs \<le> 8"
  shows "CBS_is_valid_asn1_integer bs = Some neg \<and>
      w = int64_of_bytes (rev bs @ replicate (8 - length bs) (if neg then 0xff else 0)) \<longleftrightarrow>
    bs = int_octets (sint w) \<and> neg = (sint w < 0)"
proof -
  have ne: "bs \<noteq> []" if "bs = int_octets i" for i
    using that valid_integer_octets [of i] by (auto simp: CBS_is_valid_asn1_integer_def)
  have s: "sint (of_int (int_value bs) :: u64) = int_value bs"
    using int_value_range [OF assms] by (intro sint_of_int_id) simp_all
  show ?thesis
  proof
    assume l: "CBS_is_valid_asn1_integer bs = Some neg \<and>
      w = int64_of_bytes (rev bs @ replicate (8 - length bs) (if neg then 0xff else 0))"
    then have v: "bs = int_octets (int_value bs)" "neg = (int_value bs < 0)"
      unfolding valid_integer by auto
    then have "w = of_int (int_value bs)"
      using conjunct2 [OF l] int64_of_bytes_pad [OF ne [OF v(1)] assms] by (simp only:)
    then have "sint w = int_value bs" using s by (simp only:)
    then show "bs = int_octets (sint w) \<and> neg = (sint w < 0)" using v by (simp only:)
  next
    assume r: "bs = int_octets (sint w) \<and> neg = (sint w < 0)"
    then have v: "int_value bs = sint w" by simp
    have neg: "neg = (int_value bs < 0)" unfolding v using r by blast
    have "w = int64_of_bytes (rev bs @ replicate (8 - length bs) (if neg then 0xff else 0))"
      unfolding neg int64_of_bytes_pad [OF ne [OF conjunct1 [OF r]] assms] by (simp add: v)
    moreover have "CBS_is_valid_asn1_integer bs = Some neg"
      unfolding valid_integer v using r by blast
    ultimately show "CBS_is_valid_asn1_integer bs = Some neg \<and>
        w = int64_of_bytes (rev bs @ replicate (8 - length bs) (if neg then 0xff else 0))" by blast
  qed
qed

lemma int64_octets_length: "length (int_octets (sint (w :: u64))) \<le> 8"
  using sint_greater_eq [of w] sint_less [of w] by (intro int_octets_length) simp_all

lemma get_asn1_int64: "CBS_get_asn1_int64 cbs = (Some w, rest) \<longleftrightarrow>
    cbs = der_enc (CBS_ASN1_INTEGER, int_octets (sint w)) @ rest"
proof
  assume "CBS_get_asn1_int64 cbs = (Some w, rest)"
  then obtain bs s where bs: "CBS_get_asn1 cbs CBS_ASN1_INTEGER = (Some bs, s)"
    and k: "(case CBS_is_valid_asn1_integer bs of None \<Rightarrow> (None, s)
       | Some is_negative \<Rightarrow>
           if 8 < CBS_len bs then (None, s)
           else (Some (int64_of_bytes
             (rev bs @ replicate (8 - CBS_len bs) (if is_negative then 0xff else 0))), s)) = (Some w, rest)"
    unfolding CBS_get_asn1_int64_def ok_then_Some by blast
  from k obtain neg where neg: "CBS_is_valid_asn1_integer bs = Some neg"
    by (cases "CBS_is_valid_asn1_integer bs") simp_all
  with k have "length bs \<le> 8" "s = rest"
    "w = int64_of_bytes (rev bs @ replicate (8 - length bs) (if neg then 0xff else 0))"
    by (simp_all add: CBS_len_def split: if_split_asm)
  then have "bs = int_octets (sint w)" using neg asn1_int64_body by blast
  then show "cbs = der_enc (CBS_ASN1_INTEGER, int_octets (sint w)) @ rest"
    using bs \<open>s = rest\<close> unfolding get_asn1 by blast
next
  assume cbs: "cbs = der_enc (CBS_ASN1_INTEGER, int_octets (sint w)) @ rest"
  let ?bs = "int_octets (sint w)"
  have l: "length ?bs \<le> 8" by (rule int64_octets_length)
  then have g: "CBS_get_asn1 cbs CBS_ASN1_INTEGER = (Some ?bs, rest)" unfolding get_asn1 cbs by simp
  show "CBS_get_asn1_int64 cbs = (Some w, rest)"
    using l asn1_int64_body [OF l, of "sint w < 0" w]
    by (simp add: CBS_get_asn1_int64_def g CBS_len_def)
qed

text \<open>A valid BIT STRING body, and which of its bits are set.\<close>

definition bitstring_ok :: "u8 list \<Rightarrow> bool" where
  "bitstring_ok bs = (case bs of [] \<Rightarrow> False | u # body \<Rightarrow>
     unat u = 0 \<or> unat u \<le> 7 \<and> body \<noteq> [] \<and> unat (last body) mod 2 ^ unat u = 0)"

lemma last_u8: "cbs \<noteq> [] \<Longrightarrow> CBS_get_last_u8 cbs = (Some (last cbs), butlast cbs)"
  by (simp add: CBS_get_last_u8_def last_conv_nth butlast_conv_take)

lemma low_bits_zero: "n \<le> 7 \<Longrightarrow> (ucast b :: u32) AND (push_bit n 1 - 1) = 0 \<longleftrightarrow> unat b mod 2 ^ n = 0"
  for b :: u8
proof -
  assume n: "n \<le> 7"
  have "(push_bit n 1 - 1 :: u32) = mask n" by (simp add: mask_eq_exp_minus_1 push_bit_eq_mult)
  then have "(ucast b :: u32) AND (push_bit n 1 - 1) = 0 \<longleftrightarrow> unat ((ucast b :: u32) AND mask n) = 0"
    by (simp only: unat_0_iff)
  moreover have "unat (ucast b :: u32) = unat b" using unat_u8 [of b]
    by (simp add: unsigned_ucast_eq take_bit_eq_mod less_trans [of _ 256])
  ultimately show ?thesis by (simp only: unat_and_mask)
qed

lemma valid_bitstring: "CBS_is_valid_asn1_bitstring bs = bitstring_ok bs"
proof (cases bs)
  case Nil
  then show ?thesis by (simp add: CBS_is_valid_asn1_bitstring_def bitstring_ok_def)
next
  case (Cons u body)
  have u: "7 < u \<longleftrightarrow> 7 < unat u" by (simp add: word_less_nat_alt)
  show ?thesis
  proof (cases "body = []")
    case True
    then show ?thesis using Cons u unat_0_iff [of u]
      by (simp add: CBS_is_valid_asn1_bitstring_def bitstring_ok_def CBS_get_last_u8_def)
  next
    case False
    show ?thesis
    proof (cases "7 < unat u")
      case True
      then show ?thesis using Cons u by (simp add: CBS_is_valid_asn1_bitstring_def bitstring_ok_def)
    next
      case n: False
      then show ?thesis using Cons u False low_bits_zero [of "unat u" "last body"] unat_0_iff [of u]
        by (auto simp: CBS_is_valid_asn1_bitstring_def bitstring_ok_def last_u8)
    qed
  qed
qed

lemma bitstring_has_bit: "CBS_asn1_bitstring_has_bit bs n \<longleftrightarrow>
    bitstring_ok bs \<and> unat n div 8 < length (tl bs) \<and> bit (tl bs ! (unat n div 8)) (7 - unat n mod 8)"
proof -
  have d: "unat (drop_bit 3 n) = unat n div 8" using unat_drop_bit [of 3 n] by simp
  have lt: "unat n div 8 < 2 ^ 29"
    using unsigned_less [of n, where ?'a = nat] by (intro less_mult_imp_div_less) simp
  have byte: "unat (drop_bit 3 n + 1) = Suc (unat n div 8)"
    using unat_word_ariths(1) [of "drop_bit 3 n" 1] d lt by simp
  have m: "unat (n AND 7) = unat n mod 8"
    using unat_and_mask [of n 3] by (simp add: mask_eq_exp_minus_1)
  then have bitn: "unat (7 - (n AND 7)) = 7 - unat n mod 8"
    by (subst unat_sub) (simp_all add: word_le_nat_alt)
  have test: "(ucast b :: u32) AND 2 ^ k \<noteq> 0 \<longleftrightarrow> bit b k" if "k \<le> 7" for b :: u8 and k
    using that bit_iff_and_push_bit_not_eq_0 [of "ucast b :: u32" k] by (simp add: bit_ucast_iff)
  show ?thesis
  proof (cases bs)
    case Nil
    then show ?thesis by (simp add: CBS_asn1_bitstring_has_bit_def valid_bitstring bitstring_ok_def)
  next
    case (Cons u body)
    then show ?thesis
      by (simp add: CBS_asn1_bitstring_has_bit_def valid_bitstring byte bitn Let_def CBS_len_def
          CBS_data_def test)
  qed
qed

text \<open>An optional element is absent exactly when the next tag is another one.\<close>

lemma get_optional_asn1: "CBS_get_optional_asn1 cbs tag = (Some r, rest) \<longleftrightarrow>
    (case r of
       None \<Rightarrow> \<not> (\<exists>s. cbs = tag_enc tag @ s) \<and> rest = cbs
     | Some c \<Rightarrow> length c < 2 ^ 32 \<and> cbs = der_enc (tag, c) @ rest)"
proof -
  have "\<exists>s. der_enc (tag, c) @ rest = tag_enc tag @ s" for c
    by (simp add: der_enc_def)
  then show ?thesis
    by (auto simp: CBS_get_optional_asn1_def peek_asn1_tag ok_then_Some get_asn1 split: option.splits)
qed

lemma get_optional_asn1_absent:
  "\<not> CBS_peek_asn1_tag cbs tag \<Longrightarrow> CBS_get_optional_asn1 cbs tag = (Some None, cbs)"
  by (simp add: CBS_get_optional_asn1_def)

lemma der_enc_nonempty [simp]: "der_enc x \<noteq> []"
  by (cases x) (simp add: der_enc_def)

text \<open>A default value encoded explicitly is accepted, as is its absence.\<close>

lemma get_optional_uint64: "CBS_get_optional_asn1_uint64 cbs tag d = (Some w, rest) \<longleftrightarrow>
    (if CBS_peek_asn1_tag cbs tag
     then cbs = der_enc (tag, der_enc (CBS_ASN1_INTEGER, uint_octets (unat w))) @ rest
     else w = d \<and> rest = cbs)"
proof (cases "CBS_peek_asn1_tag cbs tag")
  case False
  then show ?thesis by (auto simp: CBS_get_optional_asn1_uint64_def get_optional_asn1_absent)
next
  case True
  have l: "length (der_enc (CBS_ASN1_INTEGER, uint_octets (unat w))) < 2 ^ 32" 
  proof -
    have "length (uint_octets (unat w)) \<le> 9"
      using length_min_be [of "unat w" 8] unsigned_less [of w, where ?'a = nat]
      by (simp add: uint_octets_def Let_def)
    moreover from this have "length (der_length (length (uint_octets (unat w)))) \<le> 5"
      by (intro length_der_length) simp
    ultimately show ?thesis using length_tag_enc [of CBS_ASN1_INTEGER] by (simp add: length_der_enc)
  qed
  have "CBS_get_optional_asn1_uint64 cbs tag d = (Some w, rest) \<longleftrightarrow>
      (\<exists>c. CBS_get_asn1 cbs tag = (Some c, rest) \<and> CBS_get_asn1_uint64 c = (Some w, []))"
  proof
    assume "CBS_get_optional_asn1_uint64 cbs tag d = (Some w, rest)"
    then obtain c s where c: "CBS_get_asn1 cbs tag = (Some c, s)"
      and k: "(case CBS_get_asn1_uint64 c of (None, _) \<Rightarrow> (None, s)
        | (Some out, child) \<Rightarrow> if CBS_len child \<noteq> 0 then (None, s) else (Some out, s)) = (Some w, rest)"
      using True by (auto simp: CBS_get_optional_asn1_uint64_def CBS_get_optional_asn1_def ok_then_Some)
    obtain r t where "CBS_get_asn1_uint64 c = (r, t)" by fastforce
    then have "CBS_get_asn1_uint64 c = (Some w, []) \<and> s = rest"
      using k by (cases r) (simp_all add: CBS_len_def split: if_split_asm)
    then show "\<exists>c. CBS_get_asn1 cbs tag = (Some c, rest) \<and> CBS_get_asn1_uint64 c = (Some w, [])"
      using c by blast
  next
    assume "\<exists>c. CBS_get_asn1 cbs tag = (Some c, rest) \<and> CBS_get_asn1_uint64 c = (Some w, [])"
    then show "CBS_get_optional_asn1_uint64 cbs tag d = (Some w, rest)"
      using True by (auto simp: CBS_get_optional_asn1_uint64_def CBS_get_optional_asn1_def CBS_len_def)
  qed
  also have "\<dots> \<longleftrightarrow> cbs = der_enc (tag, der_enc (CBS_ASN1_INTEGER, uint_octets (unat w))) @ rest"
    unfolding get_asn1 get_asn1_uint64 using l by auto
  finally show ?thesis using True by simp
qed

end
