(* ===== verification/Cbb.thy ===== *)
theory Cbb
  imports CbsTyped
begin

text \<open>
  The byte string builder of \<open>src/crypto/bytestring/cbb.c\<close>: the growing buffer, length-prefixed
  children and the integer writers. A chain of nested \<open>CBB\<close>s is a list of frames over one shared
  buffer; frame 0 is the top-level \<open>CBB\<close> and each next frame is the \<open>child\<close> of the one before it. A
  \<open>CBB *\<close> argument is the index of its frame, and an index past the end of the list stands for a
  \<open>CBB\<close> whose \<open>base\<close> is \<open>NULL\<close> (never initialised, finished, or flushed away by its parent).
  \<open>sys\<close> is libc's \<open>malloc\<close>, as in \<open>Mem\<close>.

  The second half gives the abstract view, a list of segments that are not closed yet, and proves
  that every operation refines one on segments.
\<close>

section \<open>State\<close>

text \<open>
  \<open>struct cbb_buffer_st\<close>. The first \<open>len\<close> bytes of the buffer are a list, so \<open>len\<close> is its length;
  what the memory holds behind them is not part of the state.
\<close>

record cbb_buffer_st =
  cb_buf :: "u8 list"
  cb_cap :: nat
  cb_can_resize :: bool
  cb_error :: bool

record cbb_frame =
  fr_offset :: nat
  fr_pending_len_len :: nat
  fr_pending_is_asn1 :: bool

record cbb_st =
  cbb_base :: cbb_buffer_st
  cbb_frames :: "cbb_frame list"

abbreviation cb_len :: "cbb_buffer_st \<Rightarrow> nat" where
  "cb_len base \<equiv> length (cb_buf base)"

definition root_frame :: cbb_frame where
  "root_frame = \<lparr> fr_offset = 0, fr_pending_len_len = 0, fr_pending_is_asn1 = False \<rparr>"

definition CBB_zero :: cbb_st where
  "CBB_zero =
     \<lparr> cbb_base = \<lparr> cb_buf = [], cb_cap = 0, cb_can_resize = False, cb_error = False \<rparr>,
       cbb_frames = [] \<rparr>"

text \<open>\<open>sizeof(struct cbb_buffer_st)\<close>: three words and two flags, padded.\<close>

definition sizeof_cbb_buffer_st :: nat where
  "sizeof_cbb_buffer_st = 32"

definition cbb_init :: "(nat \<Rightarrow> bool) \<Rightarrow> nat \<Rightarrow> bool \<times> cbb_st" where
  "cbb_init sys cap =
     (if \<not> OPENSSL_malloc sys sizeof_cbb_buffer_st then (False, CBB_zero)
      else (True,
        \<lparr> cbb_base = \<lparr> cb_buf = [], cb_cap = cap, cb_can_resize = True, cb_error = False \<rparr>,
          cbb_frames = [root_frame] \<rparr>))"

definition CBB_init :: "(nat \<Rightarrow> bool) \<Rightarrow> nat \<Rightarrow> bool \<times> cbb_st" where
  "CBB_init sys initial_capacity =
     (if 0 < initial_capacity \<and> \<not> OPENSSL_malloc sys initial_capacity then (False, CBB_zero)
      else cbb_init sys initial_capacity)"

definition CBB_init_fixed :: "(nat \<Rightarrow> bool) \<Rightarrow> nat \<Rightarrow> bool \<times> cbb_st" where
  "CBB_init_fixed sys len =
     then_do (cbb_init sys len) (\<lambda>s.
       (True, s\<lparr> cbb_base := (cbb_base s)\<lparr> cb_can_resize := False \<rparr> \<rparr>))"

definition CBB_cleanup :: "cbb_st \<Rightarrow> nat \<Rightarrow> cbb_st" where
  "CBB_cleanup s d = (if d \<noteq> 0 then s else s\<lparr> cbb_frames := [] \<rparr>)"

section \<open>The buffer\<close>

definition cbb_fail :: "cbb_buffer_st \<Rightarrow> bool \<times> cbb_buffer_st" where
  "cbb_fail base = (False, base\<lparr> cb_error := True \<rparr>)"

definition cbb_buffer_reserve :: "(nat \<Rightarrow> bool) \<Rightarrow> cbb_buffer_st \<Rightarrow> nat \<Rightarrow> bool \<times> cbb_buffer_st" where
  "cbb_buffer_reserve sys base len =
     (let newlen = size_t (cb_len base + len)
      in if newlen < cb_len base then cbb_fail base
         else if cb_cap base < newlen
         then if \<not> cb_can_resize base then cbb_fail base
              else let newcap = size_t (cb_cap base * 2);
                       newcap = (if newcap < cb_cap base \<or> newcap < newlen then newlen else newcap)
                   in case OPENSSL_realloc sys (cb_buf base) newcap of
                        None \<Rightarrow> cbb_fail base
                      | Some newbuf \<Rightarrow> (True, base\<lparr> cb_buf := newbuf, cb_cap := newcap \<rparr>)
         else (True, base))"

text \<open>
  Every caller fills the space it gets before anything else happens to the buffer, so the bytes
  it stores are an argument.
\<close>

definition cbb_buffer_add :: "(nat \<Rightarrow> bool) \<Rightarrow> cbb_buffer_st \<Rightarrow> u8 list \<Rightarrow> bool \<times> cbb_buffer_st" where
  "cbb_buffer_add sys base bytes =
     then_do (cbb_buffer_reserve sys base (length bytes)) (\<lambda>base.
       (True, base\<lparr> cb_buf := cb_buf base @ bytes \<rparr>))"

text \<open>The loop of \<open>cbb_buffer_add_u\<close>: the bytes it stores and what is left of \<open>v\<close>.\<close>

fun add_u_bytes :: "u64 \<Rightarrow> nat \<Rightarrow> u8 list \<times> u64" where
  "add_u_bytes v 0 = ([], v)"
| "add_u_bytes v (Suc i) = (let (bs, v') = add_u_bytes (drop_bit 8 v) i in (bs @ [ucast v], v'))"

definition cbb_buffer_add_u :: "(nat \<Rightarrow> bool) \<Rightarrow> cbb_buffer_st \<Rightarrow> u64 \<Rightarrow> nat \<Rightarrow> bool \<times> cbb_buffer_st" where
  "cbb_buffer_add_u sys base v len_len =
     (if len_len = 0 then (True, base)
      else let (bs, v) = add_u_bytes v len_len
           in then_do (cbb_buffer_add sys base bs) (\<lambda>base.
                if v \<noteq> 0 then cbb_fail base else (True, base)))"

text \<open>An operation on the shared buffer, as an operation on the chain.\<close>

definition on_base :: "(cbb_buffer_st \<Rightarrow> bool \<times> cbb_buffer_st) \<Rightarrow> cbb_st \<Rightarrow> bool \<times> cbb_st" where
  "on_base f s = (case f (cbb_base s) of (ok, base) \<Rightarrow> (ok, s\<lparr> cbb_base := base \<rparr>))"

section \<open>Flushing\<close>

definition OPENSSL_memmove :: "'a list \<Rightarrow> nat \<Rightarrow> nat \<Rightarrow> nat \<Rightarrow> 'a list" where
  "OPENSSL_memmove buf dst src n = take dst buf @ take n (drop src buf) @ drop (dst + n) buf"

text \<open>\<open>for (i = n - 1; i < n; i--) { buf[off + i] = (uint8_t)len; len >>= 8; }\<close>\<close>

fun store_len :: "u8 list \<Rightarrow> nat \<Rightarrow> nat \<Rightarrow> nat \<Rightarrow> u8 list \<times> nat" where
  "store_len buf off 0 len = (buf, len)"
| "store_len buf off (Suc i) len = store_len (buf[off + i := of_nat len]) off i (len div 256)"

text \<open>The length prefix of a closed child: its size and its first byte, \<open>None\<close> if it is too large.\<close>

definition asn1_len_len :: "nat \<Rightarrow> (nat \<times> u8 \<times> nat) option" where
  "asn1_len_len len =
     (if 0xfffffffe < len then None
      else if 0xffffff < len then Some (5, 0x80 OR 4, len)
      else if 0xffff < len then Some (4, 0x80 OR 3, len)
      else if 0xff < len then Some (3, 0x80 OR 2, len)
      else if 0x7f < len then Some (2, 0x80 OR 1, len)
      else Some (1, of_nat len, 0))"

definition write_pending_asn1 ::
  "(nat \<Rightarrow> bool) \<Rightarrow> cbb_buffer_st \<Rightarrow> cbb_frame \<Rightarrow> nat \<Rightarrow> bool \<times> cbb_buffer_st \<times> cbb_frame \<times> nat" where
  "write_pending_asn1 sys base child len =
     (let child_start = fr_offset child + fr_pending_len_len child
      in case asn1_len_len len of
           None \<Rightarrow> (False, base, child, len)
         | Some (len_len, initial_length_byte, len) \<Rightarrow>
             (case (if len_len \<noteq> 1
                    then then_do (cbb_buffer_add sys base (replicate (len_len - 1) 0)) (\<lambda>base.
                           (True, base\<lparr> cb_buf := OPENSSL_memmove (cb_buf base)
                                                     (child_start + (len_len - 1)) child_start len \<rparr>))
                    else (True, base)) of
                (False, base) \<Rightarrow> (False, base, child, len)
              | (True, base) \<Rightarrow>
                  (True, base\<lparr> cb_buf := (cb_buf base)[fr_offset child := initial_length_byte] \<rparr>,
                   child\<lparr> fr_offset := fr_offset child + 1, fr_pending_len_len := len_len - 1 \<rparr>, len)))"

definition write_pending :: "(nat \<Rightarrow> bool) \<Rightarrow> cbb_buffer_st \<Rightarrow> cbb_frame \<Rightarrow> bool \<times> cbb_buffer_st" where
  "write_pending sys base child =
     (let len = cb_len base - (fr_offset child + fr_pending_len_len child)
      in case (if fr_pending_is_asn1 child then write_pending_asn1 sys base child len
               else (True, base, child, len)) of
           (False, base, _) \<Rightarrow> (False, base)
         | (True, base, child, len) \<Rightarrow>
             (case store_len (cb_buf base) (fr_offset child) (fr_pending_len_len child) len of
                (buf, len) \<Rightarrow> (len = 0, base\<lparr> cb_buf := buf \<rparr>)))"

function CBB_flush :: "(nat \<Rightarrow> bool) \<Rightarrow> cbb_st \<Rightarrow> nat \<Rightarrow> bool \<times> cbb_st" where
  "CBB_flush sys s d =
     (if length (cbb_frames s) \<le> d \<or> cb_error (cbb_base s) then (False, s)
      else if length (cbb_frames s) \<le> Suc d \<or> fr_pending_len_len (cbb_frames s ! Suc d) = 0
      then (True, s)
      else let child = cbb_frames s ! Suc d;
               child_start = size_t (fr_offset child + fr_pending_len_len child)
           in case CBB_flush sys s (Suc d) of
                (False, s) \<Rightarrow> (False, s\<lparr> cbb_base := (cbb_base s)\<lparr> cb_error := True \<rparr> \<rparr>)
              | (True, s) \<Rightarrow>
                  if child_start < fr_offset child \<or> cb_len (cbb_base s) < child_start
                  then (False, s\<lparr> cbb_base := (cbb_base s)\<lparr> cb_error := True \<rparr> \<rparr>)
                  else case write_pending sys (cbb_base s) child of
                         (False, base) \<Rightarrow> (False, s\<lparr> cbb_base := base\<lparr> cb_error := True \<rparr> \<rparr>)
                       | (True, base) \<Rightarrow>
                           (True, s\<lparr> cbb_base := base, cbb_frames := take (Suc d) (cbb_frames s) \<rparr>))"
  by pat_completeness auto
termination by (relation "measure (\<lambda>(sys, s, d). length (cbb_frames s) - d)") auto

declare CBB_flush.simps [simp del]

text \<open>The bytes and their number, or \<open>None\<close> for failure; on success the \<open>CBB\<close> is cleaned up.\<close>

definition CBB_finish :: "(nat \<Rightarrow> bool) \<Rightarrow> cbb_st \<Rightarrow> nat \<Rightarrow> bool \<Rightarrow> u8 list option \<times> cbb_st" where
  "CBB_finish sys s d wants_out =
     (if d \<noteq> 0 then (None, s)
      else case CBB_flush sys s d of
             (False, s) \<Rightarrow> (None, s)
           | (True, s) \<Rightarrow>
               if cb_can_resize (cbb_base s) \<and> \<not> wants_out then (None, s)
               else (Some (cb_buf (cbb_base s)), CBB_cleanup s d))"

definition frame_start :: "cbb_st \<Rightarrow> nat \<Rightarrow> nat" where
  "frame_start s d = fr_offset (cbb_frames s ! d) + fr_pending_len_len (cbb_frames s ! d)"

definition CBB_data :: "cbb_st \<Rightarrow> nat \<Rightarrow> u8 list" where
  "CBB_data s d = drop (frame_start s d) (cb_buf (cbb_base s))"

definition CBB_len :: "cbb_st \<Rightarrow> nat \<Rightarrow> nat" where
  "CBB_len s d = cb_len (cbb_base s) - fr_offset (cbb_frames s ! d) - fr_pending_len_len (cbb_frames s ! d)"

section \<open>Writers\<close>

text \<open>The new child becomes frame \<open>Suc d\<close>.\<close>

definition link_child :: "cbb_st \<Rightarrow> nat \<Rightarrow> cbb_frame \<Rightarrow> cbb_st" where
  "link_child s d child = s\<lparr> cbb_frames := take (Suc d) (cbb_frames s) @ [child] \<rparr>"

definition cbb_add_length_prefixed :: "(nat \<Rightarrow> bool) \<Rightarrow> cbb_st \<Rightarrow> nat \<Rightarrow> nat \<Rightarrow> bool \<times> cbb_st" where
  "cbb_add_length_prefixed sys s d len_len =
     then_do (CBB_flush sys s d) (\<lambda>s.
       let offset = cb_len (cbb_base s)
       in then_do (on_base (\<lambda>base. cbb_buffer_add sys base (replicate len_len 0)) s) (\<lambda>s.
            (True, link_child s d
              \<lparr> fr_offset = offset, fr_pending_len_len = len_len, fr_pending_is_asn1 = False \<rparr>)))"

definition CBB_add_u8_length_prefixed :: "(nat \<Rightarrow> bool) \<Rightarrow> cbb_st \<Rightarrow> nat \<Rightarrow> bool \<times> cbb_st" where
  "CBB_add_u8_length_prefixed sys s d = cbb_add_length_prefixed sys s d 1"

definition CBB_add_u16_length_prefixed :: "(nat \<Rightarrow> bool) \<Rightarrow> cbb_st \<Rightarrow> nat \<Rightarrow> bool \<times> cbb_st" where
  "CBB_add_u16_length_prefixed sys s d = cbb_add_length_prefixed sys s d 2"

definition CBB_add_u24_length_prefixed :: "(nat \<Rightarrow> bool) \<Rightarrow> cbb_st \<Rightarrow> nat \<Rightarrow> bool \<times> cbb_st" where
  "CBB_add_u24_length_prefixed sys s d = cbb_add_length_prefixed sys s d 3"

definition CBB_add_bytes :: "(nat \<Rightarrow> bool) \<Rightarrow> cbb_st \<Rightarrow> nat \<Rightarrow> u8 list \<Rightarrow> bool \<times> cbb_st" where
  "CBB_add_bytes sys s d bytes =
     then_do (CBB_flush sys s d) (on_base (\<lambda>base. cbb_buffer_add sys base bytes))"

text \<open>The bytes are the ones the caller stores through \<open>*out_data\<close>.\<close>

definition CBB_add_space :: "(nat \<Rightarrow> bool) \<Rightarrow> cbb_st \<Rightarrow> nat \<Rightarrow> u8 list \<Rightarrow> bool \<times> cbb_st" where
  "CBB_add_space sys s d stored =
     then_do (CBB_flush sys s d) (on_base (\<lambda>base. cbb_buffer_add sys base stored))"

definition CBB_add_zeros :: "(nat \<Rightarrow> bool) \<Rightarrow> cbb_st \<Rightarrow> nat \<Rightarrow> nat \<Rightarrow> bool \<times> cbb_st" where
  "CBB_add_zeros sys s d len = CBB_add_space sys s d (replicate len 0)"

definition CBB_reserve :: "(nat \<Rightarrow> bool) \<Rightarrow> cbb_st \<Rightarrow> nat \<Rightarrow> nat \<Rightarrow> bool \<times> cbb_st" where
  "CBB_reserve sys s d len =
     then_do (CBB_flush sys s d) (on_base (\<lambda>base. cbb_buffer_reserve sys base len))"

text \<open>\<open>stored\<close> is what the caller wrote behind the valid bytes after \<open>CBB_reserve\<close>.\<close>

definition CBB_did_write :: "cbb_st \<Rightarrow> nat \<Rightarrow> u8 list \<Rightarrow> bool \<times> cbb_st" where
  "CBB_did_write s d stored =
     (let base = cbb_base s; newlen = size_t (cb_len base + length stored)
      in if Suc d < length (cbb_frames s) \<or> newlen < cb_len base \<or> cb_cap base < newlen
         then (False, s)
         else (True, s\<lparr> cbb_base := base\<lparr> cb_buf := cb_buf base @ stored \<rparr> \<rparr>))"

definition cbb_add_u :: "(nat \<Rightarrow> bool) \<Rightarrow> cbb_st \<Rightarrow> nat \<Rightarrow> u64 \<Rightarrow> nat \<Rightarrow> bool \<times> cbb_st" where
  "cbb_add_u sys s d v n =
     then_do (CBB_flush sys s d) (on_base (\<lambda>base. cbb_buffer_add_u sys base v n))"

definition CBB_add_u8 :: "(nat \<Rightarrow> bool) \<Rightarrow> cbb_st \<Rightarrow> nat \<Rightarrow> u8 \<Rightarrow> bool \<times> cbb_st" where
  "CBB_add_u8 sys s d v = cbb_add_u sys s d (ucast v) 1"

definition CBB_add_u16 :: "(nat \<Rightarrow> bool) \<Rightarrow> cbb_st \<Rightarrow> nat \<Rightarrow> u16 \<Rightarrow> bool \<times> cbb_st" where
  "CBB_add_u16 sys s d v = cbb_add_u sys s d (ucast v) 2"

definition CBB_add_u16le :: "(nat \<Rightarrow> bool) \<Rightarrow> cbb_st \<Rightarrow> nat \<Rightarrow> u16 \<Rightarrow> bool \<times> cbb_st" where
  "CBB_add_u16le sys s d v = CBB_add_u16 sys s d (CRYPTO_bswap2 v)"

definition CBB_add_u24 :: "(nat \<Rightarrow> bool) \<Rightarrow> cbb_st \<Rightarrow> nat \<Rightarrow> u32 \<Rightarrow> bool \<times> cbb_st" where
  "CBB_add_u24 sys s d v = cbb_add_u sys s d (ucast v) 3"

definition CBB_add_u32 :: "(nat \<Rightarrow> bool) \<Rightarrow> cbb_st \<Rightarrow> nat \<Rightarrow> u32 \<Rightarrow> bool \<times> cbb_st" where
  "CBB_add_u32 sys s d v = cbb_add_u sys s d (ucast v) 4"

definition CBB_add_u32le :: "(nat \<Rightarrow> bool) \<Rightarrow> cbb_st \<Rightarrow> nat \<Rightarrow> u32 \<Rightarrow> bool \<times> cbb_st" where
  "CBB_add_u32le sys s d v = CBB_add_u32 sys s d (CRYPTO_bswap4 v)"

definition CBB_add_u64 :: "(nat \<Rightarrow> bool) \<Rightarrow> cbb_st \<Rightarrow> nat \<Rightarrow> u64 \<Rightarrow> bool \<times> cbb_st" where
  "CBB_add_u64 sys s d v = cbb_add_u sys s d v 8"

definition CBB_add_u64le :: "(nat \<Rightarrow> bool) \<Rightarrow> cbb_st \<Rightarrow> nat \<Rightarrow> u64 \<Rightarrow> bool \<times> cbb_st" where
  "CBB_add_u64le sys s d v = CBB_add_u64 sys s d (CRYPTO_bswap8 v)"

definition CBB_discard_child :: "cbb_st \<Rightarrow> nat \<Rightarrow> cbb_st" where
  "CBB_discard_child s d =
     (if length (cbb_frames s) \<le> Suc d then s
      else let base = cbb_base s
           in s\<lparr> cbb_base := base\<lparr> cb_buf := take (fr_offset (cbb_frames s ! Suc d)) (cb_buf base) \<rparr>,
                 cbb_frames := take (Suc d) (cbb_frames s) \<rparr>)"

section \<open>The builder as open segments\<close>

text \<open>
  A segment is the kind of length prefix a \<open>CBB\<close> is waiting for and the bytes added to it so far,
  not counting its child. The top-level \<open>CBB\<close> waits for none (\<open>LenPrefix 0\<close>). \<open>layout\<close> is the buffer
  while the segments are open, with zeros where the prefixes will go; \<open>close_segs\<close> is what they
  become when all of them are flushed.
\<close>

datatype prefix = LenPrefix nat | Asn1Prefix

type_synonym segment = "prefix \<times> u8 list"

fun pending_len :: "prefix \<Rightarrow> nat" where
  "pending_len (LenPrefix n) = n"
| "pending_len Asn1Prefix = 1"

fun prefix_bytes :: "prefix \<Rightarrow> nat \<Rightarrow> u8 list" where
  "prefix_bytes (LenPrefix n) len = be_bytes n len"
| "prefix_bytes Asn1Prefix len = der_length len"

fun prefix_fits :: "prefix \<Rightarrow> nat \<Rightarrow> bool" where
  "prefix_fits (LenPrefix n) len = (len < 256 ^ n)"
| "prefix_fits Asn1Prefix len = (len < 2 ^ 32 - 1)"

fun layout :: "segment list \<Rightarrow> u8 list" where
  "layout [] = []"
| "layout ((k, c) # segs) = replicate (pending_len k) 0 @ c @ layout segs"

fun close_segs :: "segment list \<Rightarrow> u8 list" where
  "close_segs [] = []"
| "close_segs ((k, c) # segs) =
     (let body = c @ close_segs segs in prefix_bytes k (length body) @ body)"

fun closable :: "segment list \<Rightarrow> bool" where
  "closable [] = True"
| "closable ((k, c) # segs) = (closable segs \<and> prefix_fits k (length (c @ close_segs segs)))"

fun frames_of :: "nat \<Rightarrow> segment list \<Rightarrow> cbb_frame list" where
  "frames_of off [] = []"
| "frames_of off ((k, c) # segs) =
     \<lparr> fr_offset = off, fr_pending_len_len = pending_len k, fr_pending_is_asn1 = (k = Asn1Prefix) \<rparr>
     # frames_of (off + pending_len k + length c) segs"

definition segs_ok :: "segment list \<Rightarrow> bool" where
  "segs_ok segs = (case segs of [] \<Rightarrow> False | (k, c) # r \<Rightarrow> k = LenPrefix 0 \<and> (\<forall>x \<in> set r. 0 < pending_len (fst x)))"

definition buffer_ok :: "cbb_buffer_st \<Rightarrow> bool" where
  "buffer_ok base \<longleftrightarrow> cb_len base \<le> cb_cap base \<and> cb_cap base \<le> SIZE_MAX"

definition represents :: "cbb_st \<Rightarrow> segment list \<Rightarrow> bool" where
  "represents s segs \<longleftrightarrow>
     cb_buf (cbb_base s) = layout segs \<and> cbb_frames s = frames_of 0 segs \<and> segs_ok segs \<and>
     buffer_ok (cbb_base s)"

lemma layout_append: "layout (as @ bs) = layout as @ layout bs"
  by (induction as rule: layout.induct) auto

lemma frames_of_append:
  "frames_of off (as @ bs) = frames_of off as @ frames_of (off + length (layout as)) bs"
  by (induction off as rule: frames_of.induct) (auto simp: add.assoc)

lemma length_frames_of [simp]: "length (frames_of off segs) = length segs"
  by (induction off segs rule: frames_of.induct) auto

lemma take_frames_of: "take n (frames_of off segs) = frames_of off (take n segs)"
proof (induction n arbitrary: off segs)
  case 0
  then show ?case by simp
next
  case (Suc n)
  then show ?case by (cases segs) auto
qed

lemma frames_of_Cons: "frames_of off (x # segs) = 
     \<lparr> fr_offset = off, fr_pending_len_len = pending_len (fst x), fr_pending_is_asn1 = (fst x = Asn1Prefix) \<rparr>
     # frames_of (off + pending_len (fst x) + length (snd x)) segs"
  by (cases x) simp

section \<open>Length prefixes\<close>

lemma be_bytes_numeral: "be_bytes (numeral k) v = be_bytes (pred_numeral k) (v div 256) @ [of_nat v]"
  by (simp only: numeral_eq_Suc be_bytes.simps)

lemma min_be_be_bytes:
  assumes "256 ^ k \<le> n" "n < 256 ^ Suc k"
  shows "min_be n = be_bytes (Suc k) n"
proof -
  have v: "be_value (be_bytes (Suc k) n) = n" using assms(2) by (simp only: be_value_be_bytes_id)
  have "min_be (be_value (be_bytes (Suc k) n)) = be_bytes (Suc k) n"
    using assms(1) by (intro min_be_unique) (auto simp only: v length_be_bytes, simp_all)
  then show ?thesis by (simp only: v)
qed

lemma asn1_len_len_Some:
  "asn1_len_len n = Some (m, b, l) \<Longrightarrow>
    n < 2 ^ 32 - 1 \<and> 0 < m \<and> der_length n = b # be_bytes (m - 1) l \<and> l div 256 ^ (m - 1) = 0 \<and>
    (m \<noteq> 1 \<longrightarrow> l = n)"
proof -
  assume a: "asn1_len_len n = Some (m, b, l)"
  then have n: "n < 2 ^ 32 - 1" by (simp add: asn1_len_len_def split: if_split_asm)
  have long: "der_length n = (0x80 OR of_nat (Suc k)) # be_bytes (Suc k) n \<and> n div 256 ^ Suc k = 0"
    if "256 ^ k \<le> n" "n < 256 ^ Suc k" "128 \<le> n" "k < 4" for k
  proof -
    have "(0x80 OR of_nat (Suc k) :: u8) = of_nat (128 + Suc k)"
      using \<open>k < 4\<close> by (auto simp: less_Suc_eq numeral_eq_Suc)
    moreover have "der_length n = of_nat (128 + Suc k) # be_bytes (Suc k) n"
      using that(3) min_be_be_bytes [OF that(1,2)] by (simp only: der_length_def length_be_bytes) simp
    ultimately show ?thesis using that(2) by (simp only:) simp
  qed
  consider "n < 128" | "128 \<le> n" "n < 256 ^ Suc 0" | "256 ^ 1 \<le> n" "n < 256 ^ Suc 1"
    | "256 ^ 2 \<le> n" "n < 256 ^ Suc 2" | "256 ^ 3 \<le> n" "n < 256 ^ Suc 3" 
    using n by fastforce
  then show ?thesis
  proof cases
    case 1
    then show ?thesis using a by (auto simp: asn1_len_len_def der_length_def)
  next
    case 2
    then show ?thesis using a long [of 0] by (simp add: asn1_len_len_def be_bytes_numeral)
  next
    case 3
    then show ?thesis using a n long [of 1] by (simp add: asn1_len_len_def be_bytes_numeral)
  next
    case 4
    then show ?thesis using a n long [of 2] by (simp add: asn1_len_len_def be_bytes_numeral)
  next
    case 5
    then show ?thesis using a n long [of 3] by (auto simp: asn1_len_len_def be_bytes_numeral)
  qed
qed

lemma asn1_len_len_None: "asn1_len_len n = None \<longleftrightarrow> 2 ^ 32 - 1 \<le> n"
  by (auto simp: asn1_len_len_def)

lemma store_len: "off + n \<le> length buf \<Longrightarrow>
    store_len buf off n len = (take off buf @ be_bytes n len @ drop (off + n) buf, len div 256 ^ n)"
proof (induction n arbitrary: buf len)
  case 0
  then show ?case by simp
next
  case (Suc n)
  have "store_len buf off (Suc n) len = store_len (buf[off + n := of_nat len]) off n (len div 256)"
    by simp
  also have "\<dots> = (take off buf @ be_bytes n (len div 256) @ drop (off + n) (buf[off + n := of_nat len]),
      len div 256 div 256 ^ n)"
    using Suc by (simp add: take_update_cancel)
  also have "drop (off + n) (buf[off + n := of_nat len]) = of_nat len # drop (off + Suc n) buf"
    using Suc.prems by (simp add: drop_update_swap Cons_nth_drop_Suc[symmetric])
  finally show ?case by (simp add: div_mult2_eq)
qed

section \<open>The buffer\<close>

lemma cbb_buffer_reserve_True:
  assumes "cbb_buffer_reserve sys base n = (True, base')" "buffer_ok base" "n \<le> SIZE_MAX"
  shows "buffer_ok base' \<and> cb_len base + n \<le> cb_cap base' \<and> cb_buf base' = cb_buf base \<and>
    cb_can_resize base' = cb_can_resize base \<and> cb_error base' = cb_error base \<and>
    cb_cap base \<le> cb_cap base' \<and> (\<not> cb_can_resize base \<longrightarrow> base' = base)"
proof -
  have len: "cb_len base \<le> cb_cap base" "cb_cap base \<le> SIZE_MAX" using assms(2) by (auto simp: buffer_ok_def)
  define newlen where "newlen = size_t (cb_len base + n)"
  have nl: "\<not> newlen < cb_len base"
    using assms(1) by (auto simp: cbb_buffer_reserve_def cbb_fail_def newlen_def [symmetric])
  have new: "newlen = cb_len base + n" "newlen \<le> SIZE_MAX"
  proof -
    show "newlen \<le> SIZE_MAX" unfolding newlen_def by (rule size_t_le)
    show "newlen = cb_len base + n"
      using nl size_t_add_overflow [of "cb_len base" n] len assms(3) by (simp add: newlen_def)
  qed
  show ?thesis
  proof (cases "cb_cap base < newlen")
    case False
    then have "base' = base"
      using assms(1) nl by (simp add: cbb_buffer_reserve_def newlen_def [symmetric])
    then show ?thesis using False new assms(2) by simp
  next
    case True
    define newcap where "newcap = (if size_t (cb_cap base * 2) < cb_cap base \<or> size_t (cb_cap base * 2) < newlen
      then newlen else size_t (cb_cap base * 2))"
    have cap: "newlen \<le> newcap" "newcap \<le> SIZE_MAX"
      using new(2) size_t_le by (auto simp: newcap_def)
    have "cbb_buffer_reserve sys base n =
        (if \<not> cb_can_resize base then cbb_fail base
         else case OPENSSL_realloc sys (cb_buf base) newcap of None \<Rightarrow> cbb_fail base
            | Some newbuf \<Rightarrow> (True, base\<lparr> cb_buf := newbuf, cb_cap := newcap \<rparr>))"
      unfolding cbb_buffer_reserve_def Let_def newlen_def [symmetric] newcap_def [symmetric]
      using nl True by simp
    with assms(1) obtain nb where nb: "OPENSSL_realloc sys (cb_buf base) newcap = Some nb"
      "base' = base\<lparr> cb_buf := nb, cb_cap := newcap \<rparr>" "cb_can_resize base"
      by (auto simp: cbb_fail_def split: if_split_asm option.split_asm)
    have "cb_len base \<le> newcap" using cap(1) new by simp
    then have "nb = cb_buf base" using OPENSSL_realloc_keeps [OF nb(1)] by simp
    then show ?thesis using nb cap new True by (auto simp: buffer_ok_def)
  qed
qed

lemma cbb_buffer_add_True:
  assumes "cbb_buffer_add sys base bs = (True, base')" "buffer_ok base" "length bs \<le> SIZE_MAX"
  shows "buffer_ok base' \<and> cb_buf base' = cb_buf base @ bs \<and>
    cb_can_resize base' = cb_can_resize base \<and> cb_error base' = cb_error base \<and> 
    cb_cap base \<le> cb_cap base' \<and> (\<not> cb_can_resize base \<longrightarrow> cb_cap base' = cb_cap base)"
  using assms cbb_buffer_reserve_True [of sys base "length bs"]
  by (fastforce simp: cbb_buffer_add_def then_do_True buffer_ok_def)


lemma add_u_bytes: "add_u_bytes v n = (be_bytes n (unat v), if n = 0 then v else drop_bit (8 * n) v)"
proof (induction n arbitrary: v)
  case 0
  then show ?case by simp
next
  case (Suc n)
  have "unat (drop_bit 8 v) = unat v div 256" using unat_drop_bit [of 8 v] by simp
  then show ?case using Suc by (simp add: drop_bit_eq_0_iff add.commute)
qed

lemma cbb_buffer_add_u_True:
  assumes "cbb_buffer_add_u sys base v n = (True, base')" "buffer_ok base" "0 < n" "n \<le> 8"
  shows "unat v < 256 ^ n \<and> cbb_buffer_add sys base (be_bytes n (unat v)) = (True, base')"
proof -
  have "(drop_bit (8 * n) v \<noteq> 0) = (\<not> unat v < 256 ^ n)"
    using drop_bit_eq_0_iff [of "8 * n" v] by (simp add: power_mult)
  then show ?thesis using assms
    by (auto simp: cbb_buffer_add_u_def add_u_bytes then_do_True cbb_fail_def split: if_split_asm)
qed

text \<open>Writing the length prefix of a child that holds \<open>X\<close>, when the buffer ends with it.\<close>

definition frame_at :: "nat \<Rightarrow> prefix \<Rightarrow> cbb_frame" where
  "frame_at off k = \<lparr> fr_offset = off, fr_pending_len_len = pending_len k, fr_pending_is_asn1 = (k = Asn1Prefix) \<rparr>"

lemma write_pending_asn1_True:
  assumes p: "write_pending_asn1 sys base (frame_at (length P) Asn1Prefix) (length X) = (True, base1, child1, l1)"
    and buf: "cb_buf base = P @ 0 # X" and ok: "buffer_ok base"
  shows "\<exists>b e gap. buffer_ok base1 \<and> cb_buf base1 = P @ b # gap @ X \<and> length gap = e \<and> length X < 2 ^ 32 - 1 \<and>
    der_length (length X) = b # be_bytes e l1 \<and> l1 div 256 ^ e = 0 \<and>
    fr_offset child1 = length P + 1 \<and> fr_pending_len_len child1 = e \<and>
    cb_can_resize base1 = cb_can_resize base \<and> cb_error base1 = cb_error base \<and> cb_cap base \<le> cb_cap base1"
proof -
  have "asn1_len_len (length X) \<noteq> None"
  proof
    assume "asn1_len_len (length X) = None"
    with p show False by (simp add: write_pending_asn1_def Let_def)
  qed
  then obtain m b l where a: "asn1_len_len (length X) = Some (m, b, l)"
    by (cases "asn1_len_len (length X)") auto
  from asn1_len_len_Some [OF a] have a': "length X < 2 ^ 32 - 1" "0 < m"
    "der_length (length X) = b # be_bytes (m - 1) l" "l div 256 ^ (m - 1) = 0" "m \<noteq> 1 \<Longrightarrow> l = length X"
    by auto
  show ?thesis
  proof (cases "m = 1")
    case True
    then have c: "base1 = base\<lparr> cb_buf := (cb_buf base)[length P := b] \<rparr>" "fr_offset child1 = length P + 1"
      "fr_pending_len_len child1 = 0" "l1 = l"
      using p a by (auto simp: write_pending_asn1_def Let_def frame_at_def)
    have "cb_buf base1 = P @ b # X" by (simp add: c(1) buf)
    then show ?thesis using a' True ok c(2-4) buf
      by (intro exI [of _ b] exI [of _ 0] exI [of _ "[]"]) (simp add: c(1) buffer_ok_def)
  next
    case False
    let ?e = "m - 1"
    obtain ok2 base2 where add: "cbb_buffer_add sys base (replicate ?e 0) = (ok2, base2)" by fastforce
    have ok2: "ok2"
      using p a False add by (cases ok2) (simp_all add: write_pending_asn1_def Let_def)
    then have c: "base1 = base2\<lparr> cb_buf := (OPENSSL_memmove (cb_buf base2) (length P + 1 + ?e) (length P + 1) l)[length P := b] \<rparr>"
      "fr_offset child1 = length P + 1" "fr_pending_len_len child1 = ?e" "l1 = l"
      using p a False add by (auto simp: write_pending_asn1_def Let_def frame_at_def)
    have "m \<le> 5" using a by (simp add: asn1_len_len_def split: if_split_asm)
    then have e: "length (replicate ?e (0::u8)) \<le> SIZE_MAX" by (simp add: SIZE_MAX_def)
    note add = cbb_buffer_add_True [OF add [unfolded eqTrueI [OF ok2]] ok e]
    have l: "l = length X" using a'(5) False by simp
    define gap where "gap = take ?e (X @ replicate ?e 0)"
    have b1: "cb_buf base1 = P @ b # gap @ X" "length gap = ?e"
      using add buf l by (simp_all add: gap_def c(1) OPENSSL_memmove_def list_update_append)
    have "cb_len base1 = cb_len base2" unfolding b1(1) using b1(2) add buf by simp
    moreover have "cb_cap base1 = cb_cap base2" by (simp add: c(1))
    ultimately have "buffer_ok base1" using conjunct1 [OF add] by (simp only: buffer_ok_def)
    then show ?thesis
      using b1 a' add c l by (intro exI [of _ b] exI [of _ ?e] exI [of _ gap]) (simp add: c(1))
  qed
qed

lemma write_pending_True:
  assumes w: "write_pending sys base (frame_at (length P) k) = (True, base')" 
    and buf: "cb_buf base = P @ replicate (pending_len k) 0 @ X" and ok: "buffer_ok base"
  shows "buffer_ok base' \<and> cb_buf base' = P @ prefix_bytes k (length X) @ X \<and> prefix_fits k (length X) \<and>
    cb_can_resize base' = cb_can_resize base \<and> cb_error base' = cb_error base \<and> cb_cap base \<le> cb_cap base'"
proof (cases k)
  case (LenPrefix n)
  have "store_len (cb_buf base) (length P) n (length X) =
      (P @ be_bytes n (length X) @ X, length X div 256 ^ n)"
    using buf LenPrefix by (subst store_len) simp_all
  moreover have "length X div 256 ^ n = 0 \<longleftrightarrow> length X < 256 ^ n" by (simp add: div_eq_0_iff)
  ultimately show ?thesis
    using w buf ok LenPrefix by (auto simp: write_pending_def frame_at_def buffer_ok_def Let_def)
next
  case Asn1Prefix
  let ?f = "frame_at (length P) k"
  have len: "cb_len base - (fr_offset ?f + fr_pending_len_len ?f) = length X"
    using buf Asn1Prefix by (simp add: frame_at_def)
  obtain ok1 base1 child1 l1 where p: "write_pending_asn1 sys base ?f (length X) = (ok1, base1, child1, l1)"
    using prod_cases4 by blast
  have k: "fr_pending_is_asn1 ?f" by (simp add: frame_at_def Asn1Prefix)
  have "ok1" using w unfolding write_pending_def len Let_def using p k by (cases ok1) simp_all
  then have p': "write_pending_asn1 sys base (frame_at (length P) Asn1Prefix) (length X) = (True, base1, child1, l1)"
    using p Asn1Prefix by simp
  from write_pending_asn1_True [OF p' _ ok] buf Asn1Prefix obtain b e gap where
    r: "buffer_ok base1" "cb_buf base1 = P @ b # gap @ X" "length gap = e" "length X < 2 ^ 32 - 1"
    "der_length (length X) = b # be_bytes e l1" "l1 div 256 ^ e = 0" "fr_offset child1 = length P + 1"
    "fr_pending_len_len child1 = e" "cb_can_resize base1 = cb_can_resize base" "cb_error base1 = cb_error base"
    "cb_cap base \<le> cb_cap base1"
    by auto
  have "store_len (cb_buf base1) (length P + 1) e l1 = (P @ b # be_bytes e l1 @ X, 0)"
    using r(2,3,6) by (subst store_len) simp_all
  then have "base' = base1\<lparr> cb_buf := P @ b # be_bytes e l1 @ X \<rparr>"
    using w unfolding write_pending_def len Let_def using p k \<open>ok1\<close> r(7,8) by simp
  then show ?thesis using r Asn1Prefix by (simp add: buffer_ok_def)
qed


section \<open>Flushing closes the segments below\<close>

definition flush_segs :: "nat \<Rightarrow> segment list \<Rightarrow> segment list" where
  "flush_segs d segs = take d segs @ (case drop d segs of [] \<Rightarrow> [] | (k, c) # r \<Rightarrow> [(k, c @ close_segs r)])"

lemma drop_Suc_Cons: "d < length xs \<Longrightarrow> drop d xs = xs ! d # drop (Suc d) xs"
  by (rule Cons_nth_drop_Suc [symmetric])

lemma flush_segs_eq:
  "d < length segs \<Longrightarrow>
    flush_segs d segs = take d segs @ [(fst (segs ! d), snd (segs ! d) @ close_segs (drop (Suc d) segs))]"
  by (simp add: flush_segs_def drop_Suc_Cons split: prod.split)

lemma length_flush_segs [simp]: "d < length segs \<Longrightarrow> length (flush_segs d segs) = Suc d"
  by (simp add: flush_segs_eq)

lemma flush_segs_last: "length segs = Suc d \<Longrightarrow> flush_segs d segs = segs"
  using take_Suc_conv_app_nth [of d segs] by (simp add: flush_segs_eq)

lemma segs_ok_flush: "segs_ok segs \<Longrightarrow> d < length segs \<Longrightarrow> segs_ok (flush_segs d segs)"
proof (cases d)
  case 0
  then show "segs_ok segs \<Longrightarrow> ?thesis" by (cases segs) (auto simp: segs_ok_def flush_segs_def)
next
  case (Suc n)
  assume a: "segs_ok segs" "d < length segs"
  then obtain c r where r: "segs = (LenPrefix 0, c) # r" "\<forall>x \<in> set r. 0 < pending_len (fst x)"
    by (auto simp: segs_ok_def split: list.splits)
  have "\<forall>x \<in> set (take n r). 0 < pending_len (fst x)" using r(2) by (auto dest: in_set_takeD)
  moreover have "0 < pending_len (fst (r ! n))" using a(2) Suc r by simp
  ultimately show ?thesis using flush_segs_eq [OF a(2)] unfolding r(1) Suc by (simp add: segs_ok_def)
qed

lemma segs_ok_pending: "segs_ok segs \<Longrightarrow> 0 < i \<Longrightarrow> i < length segs \<Longrightarrow> 0 < pending_len (fst (segs ! i))"
  by (cases segs; cases i) (auto simp: segs_ok_def dest!: nth_mem split: prod.splits)

lemma frames_of_nth: "i < length segs \<Longrightarrow>
    frames_of off segs ! i = frame_at (off + length (layout (take i segs))) (fst (segs ! i))"
proof (induction segs arbitrary: off i)
  case Nil
  then show ?case by simp
next
  case (Cons x segs)
  then show ?case by (cases i; cases x) (auto simp: frame_at_def add.assoc)
qed

lemma closable_drop: "d < length segs \<Longrightarrow>
    closable (drop d segs) \<longleftrightarrow> closable (drop (Suc d) segs) \<and>
      prefix_fits (fst (segs ! d)) (length (snd (segs ! d) @ close_segs (drop (Suc d) segs)))"
  by (cases "segs ! d") (simp add: drop_Suc_Cons)

lemma CBB_flush_refines:
  assumes "represents s segs" "d < length segs" "CBB_flush sys s d = (True, s')"
  shows "represents s' (flush_segs d segs) \<and> closable (drop (Suc d) segs) \<and>
    cb_can_resize (cbb_base s') = cb_can_resize (cbb_base s) \<and> \<not> cb_error (cbb_base s') \<and> \<not> cb_error (cbb_base s) \<and>
    cb_cap (cbb_base s) \<le> cb_cap (cbb_base s')"
  using assms
proof (induction "length segs - d" arbitrary: d s')
  case 0
  then show ?case by simp
next
  case (Suc n)
  have rep: "cb_buf (cbb_base s) = layout segs" "cbb_frames s = frames_of 0 segs" "segs_ok segs"
    "buffer_ok (cbb_base s)" using Suc.prems(1) by (auto simp: represents_def)
  have noerr: "\<not> cb_error (cbb_base s)"
    using Suc.prems(3) by (subst (asm) CBB_flush.simps) (auto split: if_split_asm)
  show ?case
  proof (cases "length segs \<le> Suc d")
    case True
    then have "length segs = Suc d" using Suc.prems(2) by simp
    then show ?thesis
      using Suc.prems True noerr rep by (subst (asm) CBB_flush.simps) (simp add: flush_segs_last)
  next
    case False
    then have d1: "Suc d < length segs" by simp
    let ?child = "cbb_frames s ! Suc d"
    let ?k = "fst (segs ! Suc d)" and ?P = "layout (take (Suc d) segs)"
    have child: "?child = frame_at (length ?P) ?k" using frames_of_nth [OF d1, of 0] by (simp add: rep(2))
    have pend: "0 < pending_len ?k" using segs_ok_pending [OF rep(3)] d1 by simp
    obtain ok1 s1 where f: "CBB_flush sys s (Suc d) = (ok1, s1)" by fastforce
    have flush: "CBB_flush sys s d =
       (let child_start = size_t (fr_offset ?child + fr_pending_len_len ?child)
        in if \<not> ok1 then (False, s1\<lparr> cbb_base := (cbb_base s1)\<lparr> cb_error := True \<rparr> \<rparr>)
           else if child_start < fr_offset ?child \<or> cb_len (cbb_base s1) < child_start
           then (False, s1\<lparr> cbb_base := (cbb_base s1)\<lparr> cb_error := True \<rparr> \<rparr>)
           else case write_pending sys (cbb_base s1) ?child of
                  (False, base) \<Rightarrow> (False, s1\<lparr> cbb_base := base\<lparr> cb_error := True \<rparr> \<rparr>)
                | (True, base) \<Rightarrow>
                    (True, s1\<lparr> cbb_base := base, cbb_frames := take (Suc d) (cbb_frames s1) \<rparr>))"
      using noerr d1 pend f rep(2) child
      by (subst CBB_flush.simps) (simp add: Let_def frame_at_def split: bool.split)
    have "ok1" using Suc.prems(3) unfolding flush by (auto simp: Let_def split: if_split_asm)
    with f have f1: "CBB_flush sys s (Suc d) = (True, s1)" by simp
    have n: "n = length segs - Suc d" using Suc.hyps(2) by simp
    from Suc.hyps(1) [OF n Suc.prems(1) d1 f1]
    have r1: "represents s1 (flush_segs (Suc d) segs)" "closable (drop (Suc (Suc d)) segs)"
      "cb_can_resize (cbb_base s1) = cb_can_resize (cbb_base s)" "\<not> cb_error (cbb_base s1)"
      "cb_cap (cbb_base s) \<le> cb_cap (cbb_base s1)" by auto
    define X where "X = snd (segs ! Suc d) @ close_segs (drop (Suc (Suc d)) segs)"
    have fs: "flush_segs (Suc d) segs = take (Suc d) segs @ [(?k, X)]"
      using flush_segs_eq [OF d1] by (simp add: X_def)
    from r1(1) have b1: "cb_buf (cbb_base s1) = ?P @ replicate (pending_len ?k) 0 @ X"
      "cbb_frames s1 = frames_of 0 (take (Suc d) segs @ [(?k, X)])" "buffer_ok (cbb_base s1)"
      unfolding represents_def fs by (simp_all add: layout_append)
    obtain ok2 base where w: "write_pending sys (cbb_base s1) ?child = (ok2, base)" by fastforce
    have "ok2" and s': "s' = s1\<lparr> cbb_base := base, cbb_frames := take (Suc d) (cbb_frames s1) \<rparr>"
      using Suc.prems(3) unfolding flush w
      by (auto simp: Let_def split: if_split_asm bool.splits)
    from w \<open>ok2\<close> have w1: "write_pending sys (cbb_base s1) (frame_at (length ?P) ?k) = (True, base)"
      by (simp add: child)
    note r2 = write_pending_True [OF w1 b1(1,3)]
    have "flush_segs d segs = take d segs @ [(fst (segs ! d), snd (segs ! d) @ prefix_bytes ?k (length X) @ X)]"
    proof -
      have "close_segs (drop (Suc d) segs) = prefix_bytes ?k (length X) @ X"
        unfolding drop_Suc_Cons [OF d1] by (cases "segs ! Suc d") (simp add: X_def)
      then show ?thesis using flush_segs_eq [OF Suc.prems(2)] by simp
    qed
    moreover have "take (Suc d) segs = take d segs @ [segs ! d]"
      by (rule take_Suc_conv_app_nth [OF Suc.prems(2)])
    ultimately have lay: "layout (flush_segs d segs) = ?P @ prefix_bytes ?k (length X) @ X"
      and fr: "frames_of 0 (flush_segs d segs) = frames_of 0 (take (Suc d) segs)"
      by (cases "segs ! d"; simp add: layout_append frames_of_append)+
    have "represents s' (flush_segs d segs)"
      unfolding represents_def s' using r2 b1(2) segs_ok_flush [OF rep(3) Suc.prems(2)]
      d1 by (simp add: lay fr frames_of_append)
    moreover have "closable (drop (Suc d) segs)"
      using closable_drop [OF d1] r1(2) r2 by (simp add: X_def)
    ultimately show ?thesis using r1(3-5) r2 s' noerr by simp
  qed
qed

section \<open>Writers refine the operations on segments\<close>

definition add_seg :: "u8 list \<Rightarrow> segment list \<Rightarrow> segment list" where
  "add_seg bs segs = butlast segs @ [(fst (last segs), snd (last segs) @ bs)]"

lemma length_add_seg [simp]: "segs \<noteq> [] \<Longrightarrow> length (add_seg bs segs) = length segs"
  by (simp add: add_seg_def)

lemma add_seg_nonempty [simp]: "add_seg bs segs \<noteq> []"
  by (simp add: add_seg_def)

lemma add_seg_add_seg [simp]: "add_seg cs (add_seg bs segs) = add_seg (bs @ cs) segs"
  by (simp add: add_seg_def)

lemma add_seg_Nil [simp]: "segs \<noteq> [] \<Longrightarrow> add_seg [] segs = segs"
  by (simp add: add_seg_def append_butlast_last_id)

lemma layout_add_seg: "segs \<noteq> [] \<Longrightarrow> layout (add_seg bs segs) = layout segs @ bs"
  by (cases segs rule: rev_cases) (auto simp: add_seg_def layout_append)

lemma frames_of_add_seg: "segs \<noteq> [] \<Longrightarrow> frames_of off (add_seg bs segs) = frames_of off segs"
  by (cases segs rule: rev_cases) (auto simp: add_seg_def frames_of_append)

lemma segs_ok_add_seg: "segs_ok segs \<Longrightarrow> segs_ok (add_seg bs segs)"
  by (cases segs rule: rev_cases; cases "butlast segs") 
    (auto simp: add_seg_def segs_ok_def split: prod.splits)

lemma segs_ok_nonempty: "segs_ok segs \<Longrightarrow> segs \<noteq> []"
  by (auto simp: segs_ok_def)

lemma represents_length: "represents s segs \<Longrightarrow> length (cbb_frames s) = length segs"
  by (simp add: represents_def)

lemma represents_add:
  assumes "represents s segs" "cbb_buffer_add sys (cbb_base s) bs = (True, base)" "length bs \<le> SIZE_MAX"
  shows "represents (s\<lparr> cbb_base := base \<rparr>) (add_seg bs segs)"
proof -
  have "segs \<noteq> []" "buffer_ok (cbb_base s)"
    using assms(1) segs_ok_nonempty by (auto simp: represents_def)
  with assms cbb_buffer_add_True [OF assms(2) _ assms(3)] show ?thesis
    by (simp add: represents_def layout_add_seg frames_of_add_seg segs_ok_add_seg)
qed

lemma on_base_True: "on_base f s = (True, s') \<longleftrightarrow> (\<exists>base. f (cbb_base s) = (True, base) \<and> s' = s\<lparr> cbb_base := base \<rparr>)"
  by (auto simp: on_base_def split: prod.splits)

lemma CBB_add_bytes_refines:
  assumes "represents s segs" "d < length segs" "length bs \<le> SIZE_MAX" "CBB_add_bytes sys s d bs = (True, s')"
  shows "represents s' (add_seg bs (flush_segs d segs)) \<and> closable (drop (Suc d) segs)"
proof -
  from assms(4) obtain t base where "CBB_flush sys s d = (True, t)"
    "cbb_buffer_add sys (cbb_base t) bs = (True, base)" "s' = t\<lparr> cbb_base := base \<rparr>"
    by (auto simp: CBB_add_bytes_def then_do_True on_base_True)
  then show ?thesis using CBB_flush_refines [OF assms(1,2)] represents_add assms(3) by blast
qed

lemma CBB_add_space_eq: "CBB_add_space = CBB_add_bytes"
  by (intro ext) (simp add: CBB_add_space_def CBB_add_bytes_def)

lemma cbb_add_u_refines:
  assumes "represents s segs" "d < length segs" "0 < n" "n \<le> 8" "cbb_add_u sys s d v n = (True, s')"
  shows "unat v < 256 ^ n \<and> represents s' (add_seg (be_bytes n (unat v)) (flush_segs d segs)) \<and>
    closable (drop (Suc d) segs)"
proof -
  from assms(5) obtain t base where t: "CBB_flush sys s d = (True, t)"
    and b: "cbb_buffer_add_u sys (cbb_base t) v n = (True, base)" and s': "s' = t\<lparr> cbb_base := base \<rparr>"
    by (auto simp: cbb_add_u_def then_do_True on_base_True)
  note f = CBB_flush_refines [OF assms(1,2) t]
  then have "buffer_ok (cbb_base t)" by (simp add: represents_def)
  note u = cbb_buffer_add_u_True [OF b this assms(3,4)]
  have "n \<le> SIZE_MAX" using assms(4) by (simp add: SIZE_MAX_def)
  then show ?thesis using f u represents_add [of t _ sys "be_bytes n (unat v)" base] s' by simp
qed

lemma cbb_add_length_prefixed_refines:
  assumes "represents s segs" "d < length segs" "0 < n" "n \<le> SIZE_MAX"
    "cbb_add_length_prefixed sys s d n = (True, s')"
  shows "represents s' (flush_segs d segs @ [(LenPrefix n, [])]) \<and> closable (drop (Suc d) segs)"
proof -
  from assms(5) obtain t base where t: "CBB_flush sys s d = (True, t)"
    and b: "cbb_buffer_add sys (cbb_base t) (replicate n 0) = (True, base)"
    and s': "s' = link_child (t\<lparr> cbb_base := base \<rparr>) d
      \<lparr> fr_offset = cb_len (cbb_base t), fr_pending_len_len = n, fr_pending_is_asn1 = False \<rparr>"
    by (auto simp: cbb_add_length_prefixed_def Let_def then_do_True on_base_True)
  note f = CBB_flush_refines [OF assms(1,2) t]
  then have r: "represents t (flush_segs d segs)" by simp
  have "buffer_ok base \<and> cb_buf base = cb_buf (cbb_base t) @ replicate n 0"
    using cbb_buffer_add_True [OF b] r assms(4) by (simp add: represents_def)
  moreover have "segs_ok (flush_segs d segs @ [(LenPrefix n, [])])"
    using r assms(3) by (auto simp: represents_def segs_ok_def split: list.splits prod.splits)
  ultimately show ?thesis
    using f r assms(2) s' represents_length [OF r]
    by (simp add: represents_def link_child_def layout_append frames_of_append)
qed

lemma CBB_finish_refines:
  assumes "represents s segs" "CBB_finish sys s d w = (Some out, s')"
  shows "d = 0 \<and> out = close_segs segs \<and> closable (tl segs) \<and> cbb_frames s' = []"
proof -
  from assms(2) obtain t where t: "CBB_flush sys s 0 = (True, t)" "out = cb_buf (cbb_base t)" "d = 0"
    "s' = CBB_cleanup t 0"
    by (auto simp: CBB_finish_def split: if_split_asm prod.splits bool.splits)
  from assms(1) obtain c r where r: "segs = (LenPrefix 0, c) # r"
    by (auto simp: represents_def segs_ok_def split: list.splits)
  then have len: "0 < length segs" by simp
  from CBB_flush_refines [OF assms(1) len t(1)] show ?thesis
    using t r by (simp add: represents_def flush_segs_def CBB_cleanup_def drop_Suc)
qed

lemma CBB_discard_child_refines:
  assumes "represents s segs" "d < length segs"
  shows "represents (CBB_discard_child s d) (take (Suc d) segs)"
proof (cases "length segs \<le> Suc d")
  case True
  then show ?thesis using assms by (simp add: CBB_discard_child_def represents_def)
next
  case False
  then have d1: "Suc d < length segs" by simp
  have "segs_ok (take (Suc d) segs)"
    using assms(1) by (auto simp: represents_def segs_ok_def split: list.splits dest: in_set_takeD)
  moreover have "layout segs = layout (take (Suc d) segs) @ layout (drop (Suc d) segs)"
    by (metis append_take_drop_id layout_append)
  moreover have "fr_offset (frames_of 0 segs ! Suc d) = length (layout (take (Suc d) segs))"
    using frames_of_nth [OF d1, of 0] by (simp add: frame_at_def)
  ultimately show ?thesis using assms d1
    by (auto simp: represents_def CBB_discard_child_def Let_def take_frames_of buffer_ok_def)
qed

lemma CBB_did_write_refines:
  assumes "represents s segs" "length segs = Suc d" "length bs \<le> SIZE_MAX" "CBB_did_write s d bs = (True, s')"
  shows "represents s' (add_seg bs segs)"
proof -
  have ok: "segs \<noteq> []" "buffer_ok (cbb_base s)" using assms(1) segs_ok_nonempty by (auto simp: represents_def)
  then have "cb_len (cbb_base s) \<le> SIZE_MAX" by (simp add: buffer_ok_def)
  from size_t_add_overflow [OF this assms(3)] have
    s': "s' = s\<lparr> cbb_base := (cbb_base s)\<lparr> cb_buf := cb_buf (cbb_base s) @ bs \<rparr> \<rparr>"
    "size_t (cb_len (cbb_base s) + length bs) = cb_len (cbb_base s) + length bs"
    "cb_len (cbb_base s) + length bs \<le> cb_cap (cbb_base s)"
    using assms(4) ok(2) by (auto simp: CBB_did_write_def Let_def split: if_split_asm)
  then show ?thesis using assms(1) ok
    by (simp add: represents_def layout_add_seg frames_of_add_seg segs_ok_add_seg buffer_ok_def)
qed

lemma CBB_init_represents:
  assumes "CBB_init sys n = (True, s)" "n \<le> SIZE_MAX"
  shows "represents s [(LenPrefix 0, [])] \<and> cb_can_resize (cbb_base s) \<and> \<not> cb_error (cbb_base s)"
  using assms by (auto simp: CBB_init_def cbb_init_def represents_def segs_ok_def buffer_ok_def
      root_frame_def split: if_split_asm)

lemma CBB_init_fixed_represents:
  assumes "CBB_init_fixed sys n = (True, s)" "n \<le> SIZE_MAX"
  shows "represents s [(LenPrefix 0, [])] \<and> \<not> cb_can_resize (cbb_base s) \<and> \<not> cb_error (cbb_base s) \<and>
    cb_cap (cbb_base s) = n"
  using assms by (auto simp: CBB_init_fixed_def cbb_init_def represents_def segs_ok_def buffer_ok_def
      root_frame_def split: if_split_asm)

section \<open>When writing succeeds\<close>

text \<open>
  A buffer can hold \<open>n\<close> bytes if they fit its capacity, or if it can grow and memory does not run
  out; two to the 62 is far from the point where doubling the capacity would wrap around.
\<close>

definition can_hold :: "(nat \<Rightarrow> bool) \<Rightarrow> cbb_buffer_st \<Rightarrow> nat \<Rightarrow> bool" where
  "can_hold sys base n \<longleftrightarrow> n \<le> cb_cap base \<or> cb_can_resize base \<and> n \<le> 2 ^ 62 \<and> sys = (\<lambda>_. True)"

lemma cbb_buffer_reserve_ok:
  assumes "buffer_ok base" "can_hold sys base (cb_len base + n)"
  shows "fst (cbb_buffer_reserve sys base n)"
proof -
  have len: "cb_len base \<le> cb_cap base" "cb_cap base \<le> SIZE_MAX" using assms(1) by (auto simp: buffer_ok_def)
  have "cb_len base + n \<le> SIZE_MAX" using assms(2) len by (auto simp: can_hold_def SIZE_MAX_def)
  then have new: "size_t (cb_len base + n) = cb_len base + n" by simp
  show ?thesis
  proof (cases "cb_cap base < cb_len base + n")
    case False
    then show ?thesis using new by (simp add: cbb_buffer_reserve_def)
  next
    case True
    then have g: "cb_can_resize base" "cb_len base + n \<le> 2 ^ 62" "sys = (\<lambda>_. True)"
      using assms(2) by (auto simp: can_hold_def)
    then have "cb_cap base * 2 \<le> SIZE_MAX" using True by (simp add: SIZE_MAX_def)
    then have "OPENSSL_malloc sys (cb_len base + n)" "OPENSSL_malloc sys (cb_cap base * 2)"
      using g True by (auto simp: OPENSSL_malloc_def OPENSSL_MALLOC_PREFIX_def size_t_def)
    then show ?thesis
      using True new g \<open>cb_cap base * 2 \<le> SIZE_MAX\<close>
      by (simp add: cbb_buffer_reserve_def OPENSSL_realloc_def Let_def)
  qed
qed

lemma cbb_buffer_add_ok:
  assumes "buffer_ok base" "can_hold sys base (cb_len base + length bs)"
  obtains base' where "cbb_buffer_add sys base bs = (True, base')"
  using cbb_buffer_reserve_ok [OF assms] that
  by (cases "cbb_buffer_reserve sys base (length bs)") (simp add: cbb_buffer_add_def)

lemma can_hold_grow:
  "can_hold sys base n \<Longrightarrow> cb_cap base \<le> cb_cap base' \<Longrightarrow> cb_can_resize base' = cb_can_resize base \<Longrightarrow>
    can_hold sys base' n"
  by (auto simp: can_hold_def)

lemma can_hold_mono: "can_hold sys base n \<Longrightarrow> m \<le> n \<Longrightarrow> can_hold sys base m"
  by (auto simp: can_hold_def)

lemma length_prefix_bytes: "pending_len k \<le> length (prefix_bytes k n)"
  by (cases k) (auto simp: der_length_def)

lemma asn1_len_len_fits: "n < 2 ^ 32 - 1 \<Longrightarrow> \<exists>m b l. asn1_len_len n = Some (m, b, l)"
  using asn1_len_len_None [of n] by (cases "asn1_len_len n") auto

lemma write_pending_ok:
  assumes buf: "cb_buf base = P @ replicate (pending_len k) 0 @ X" and ok: "buffer_ok base"
    and fits: "prefix_fits k (length X)" 
    and hold: "can_hold sys base (length P + length (prefix_bytes k (length X)) + length X)"
  shows "\<exists>base'. write_pending sys base (frame_at (length P) k) = (True, base')"
proof (cases k)
  case (LenPrefix n)
  have "length X div 256 ^ n = 0" using fits LenPrefix by (simp add: div_eq_0_iff)
  then have "store_len (cb_buf base) (length P) n (length X) = (P @ be_bytes n (length X) @ X, 0)"
    using buf LenPrefix by (subst store_len) simp_all
  then show ?thesis using buf LenPrefix by (simp add: write_pending_def frame_at_def Let_def)
next
  case Asn1Prefix
  from asn1_len_len_fits obtain m b l where a: "asn1_len_len (length X) = Some (m, b, l)"
    using fits Asn1Prefix by fastforce
  from asn1_len_len_Some [OF a] have a': "0 < m" "length (der_length (length X)) = m" "l div 256 ^ (m - 1) = 0"
    by auto
  let ?f = "frame_at (length P) k"
  have len: "cb_len base - (fr_offset ?f + fr_pending_len_len ?f) = length X"
    using buf Asn1Prefix by (simp add: frame_at_def)
  have "\<exists>base1 child1 l1. write_pending_asn1 sys base ?f (length X) = (True, base1, child1, l1)"
  proof (cases "m = 1")
    case True
    then show ?thesis using a by (simp add: write_pending_asn1_def Let_def)
  next
    case False
    have "can_hold sys base (cb_len base + length (replicate (m - 1) (0 :: u8)))"
      using hold a' buf Asn1Prefix by (simp add: can_hold_def add.commute add.left_commute)
    from cbb_buffer_add_ok [OF ok this] obtain base2 where
      "cbb_buffer_add sys base (replicate (m - 1) 0) = (True, base2)" .
    then show ?thesis using a False by (simp add: write_pending_asn1_def Let_def)
  qed
  then obtain base1 child1 l1 where p: "write_pending_asn1 sys base ?f (length X) = (True, base1, child1, l1)"
    by auto
  then have p': "write_pending_asn1 sys base (frame_at (length P) Asn1Prefix) (length X) = (True, base1, child1, l1)"
    using Asn1Prefix by simp
  from write_pending_asn1_True [OF p' _ ok] buf Asn1Prefix obtain b e gap where
    r: "cb_buf base1 = P @ b # gap @ X" "length gap = e" 
    "l1 div 256 ^ e = 0" "fr_offset child1 = length P + 1" "fr_pending_len_len child1 = e"
    by auto
  have "store_len (cb_buf base1) (length P + 1) e l1 = (P @ b # be_bytes e l1 @ X, 0)"
    using r(1-3) by (subst store_len) simp_all
  then show ?thesis using p r(4,5) Asn1Prefix unfolding write_pending_def len Let_def 
    by (simp add: frame_at_def)
qed

lemma flush_segs_Suc:
  assumes "Suc d < length segs"
  obtains k X where "flush_segs (Suc d) segs = take (Suc d) segs @ [(k, X)]"
    "X = snd (segs ! Suc d) @ close_segs (drop (Suc (Suc d)) segs)" "k = fst (segs ! Suc d)"
    "layout (flush_segs d segs) = layout (take (Suc d) segs) @ prefix_bytes k (length X) @ X"
proof -
  define k X where "k = fst (segs ! Suc d)"
    and "X = snd (segs ! Suc d) @ close_segs (drop (Suc (Suc d)) segs)"
  have d: "d < length segs" using assms by simp
  have "close_segs (drop (Suc d) segs) = prefix_bytes k (length X) @ X"
    unfolding drop_Suc_Cons [OF assms] by (cases "segs ! Suc d") (simp add: X_def k_def)
  then have "flush_segs d segs = take d segs @ [(fst (segs ! d), snd (segs ! d) @ prefix_bytes k (length X) @ X)]"
    using flush_segs_eq [OF d] by simp
  moreover have "take (Suc d) segs = take d segs @ [segs ! d]" by (rule take_Suc_conv_app_nth [OF d])
  ultimately have "layout (flush_segs d segs) = layout (take (Suc d) segs) @ prefix_bytes k (length X) @ X"
    by (cases "segs ! d") (simp add: layout_append)
  then show ?thesis using that [of k X] flush_segs_eq [OF assms] by (simp add: k_def X_def)
qed

lemma CBB_flush_ok:
  assumes "represents s segs" "d < length segs" "\<not> cb_error (cbb_base s)" "closable (drop (Suc d) segs)"
    "can_hold sys (cbb_base s) (length (layout (flush_segs d segs)))"
  shows "\<exists>s'. CBB_flush sys s d = (True, s')"
  using assms(2,4,5)
proof (induction "length segs - d" arbitrary: d)
  case 0
  then show ?case by simp
next
  case (Suc n)
  have rep: "cbb_frames s = frames_of 0 segs" "segs_ok segs" using assms(1) by (auto simp: represents_def)
  show ?case
  proof (cases "length segs \<le> Suc d")
    case True
    then show ?thesis using Suc.prems(1) assms(3) rep by (subst CBB_flush.simps) simp
  next
    case False
    then have d1: "Suc d < length segs" by simp
    let ?child = "cbb_frames s ! Suc d"
    obtain k X where k: "flush_segs (Suc d) segs = take (Suc d) segs @ [(k, X)]"
      "X = snd (segs ! Suc d) @ close_segs (drop (Suc (Suc d)) segs)" "k = fst (segs ! Suc d)"
      "layout (flush_segs d segs) = layout (take (Suc d) segs) @ prefix_bytes k (length X) @ X"
      by (rule flush_segs_Suc [OF d1])
    let ?P = "layout (take (Suc d) segs)"
    have child: "?child = frame_at (length ?P) k" using frames_of_nth [OF d1, of 0] by (simp add: rep(1) k(3))
    have pend: "0 < pending_len k" using segs_ok_pending [OF rep(2)] d1 k(3) by simp
    have cl: "closable (drop (Suc (Suc d)) segs)" "prefix_fits k (length X)"
      using Suc.prems(2) closable_drop [OF d1] by (auto simp: k(2,3))
    have "can_hold sys (cbb_base s) (length (layout (flush_segs (Suc d) segs)))"
      using can_hold_mono [OF Suc.prems(3)] length_prefix_bytes [of k "length X"] 
      unfolding k(1,4) by (simp add: layout_append)
    moreover have "n = length segs - Suc d" using Suc.hyps(2) by simp
    ultimately obtain s1 where f1: "CBB_flush sys s (Suc d) = (True, s1)"
      using Suc.hyps(1) d1 cl(1) by blast
    note r = CBB_flush_refines [OF assms(1) d1 f1]
    then have b1: "cb_buf (cbb_base s1) = ?P @ replicate (pending_len k) 0 @ X" "buffer_ok (cbb_base s1)"
      unfolding represents_def k(1) by (simp_all add: layout_append)
    have hold: "can_hold sys (cbb_base s1) (length ?P + length (prefix_bytes k (length X)) + length X)"
      using can_hold_grow [OF Suc.prems(3)] r by (simp add: k(4) add.assoc)
    from write_pending_ok [OF b1 cl(2) hold] obtain base where
      w: "write_pending sys (cbb_base s1) (frame_at (length ?P) k) = (True, base)" by auto
    have le: "length ?P + pending_len k \<le> cb_len (cbb_base s1)" unfolding b1(1) by simp
    moreover have "cb_len (cbb_base s1) \<le> SIZE_MAX" using b1(2) by (simp add: buffer_ok_def)
    ultimately have "size_t (length ?P + pending_len k) = length ?P + pending_len k" by simp
    then show ?thesis
      using assms(3) d1 pend f1 w le rep child
      by (subst CBB_flush.simps) (simp add: Let_def frame_at_def)
  qed
qed

text \<open>After an error every later flush, and so every writer, fails and leaves the buffer alone.\<close>

lemma CBB_flush_error: "cb_error (cbb_base s) \<Longrightarrow> CBB_flush sys s d = (False, s)"
  by (subst CBB_flush.simps) simp

lemma CBB_flush_dead: "length (cbb_frames s) \<le> d \<Longrightarrow> CBB_flush sys s d = (False, s)"
  by (subst CBB_flush.simps) simp

lemma CBB_flush_deepest: "length (cbb_frames s) = Suc d \<Longrightarrow> \<not> cb_error (cbb_base s) \<Longrightarrow> CBB_flush sys s d = (True, s)"
  by (subst CBB_flush.simps) simp

lemma CBB_add_bytes_ok:
  assumes "represents s segs" "d < length segs" "\<not> cb_error (cbb_base s)" "closable (drop (Suc d) segs)"
    "can_hold sys (cbb_base s) (length (layout (flush_segs d segs)) + length bs)" 
  shows "\<exists>s'. CBB_add_bytes sys s d bs = (True, s')"
proof -
  obtain t where t: "CBB_flush sys s d = (True, t)"
    using CBB_flush_ok [OF assms(1-4)] can_hold_mono [OF assms(5)] by (meson le_add1)
  note r = CBB_flush_refines [OF assms(1,2) t]
  then have "buffer_ok (cbb_base t)" "can_hold sys (cbb_base t) (cb_len (cbb_base t) + length bs)"
    using can_hold_grow [OF assms(5)] by (auto simp: represents_def)
  then show ?thesis using t by (auto simp: CBB_add_bytes_def on_base_def elim: cbb_buffer_add_ok)
qed

section \<open>The builder as a byte sink\<close>

text \<open>
  A \<open>CBB\<close> with no open child takes bytes one at a time through \<open>CBB_add_u8\<close>.
\<close>

lemma byte_as_u64: "be_bytes (Suc 0) (unat (ucast b :: u64)) = [b]" for b :: u8
proof -
  have "unat (ucast b :: u64) = unat b"
    using unat_u8 [of b] by (simp add: unsigned_ucast_eq take_bit_eq_mod less_trans [of _ 256])
  then show ?thesis by (simp only: be_bytes.simps of_nat_unat ucast_id append_Nil)
qed

lemma CBB_add_u8_deepest:
  assumes "length (cbb_frames s) = Suc d" "\<not> cb_error (cbb_base s)"
  shows "CBB_add_u8 sys s d b = on_base (\<lambda>base. cbb_buffer_add sys base [b]) s"
proof -
  have "(drop_bit 8 (ucast b) :: u64) = 0"
    using unat_u8 [of b] by (simp add: drop_bit_eq_0_iff unsigned_ucast_eq take_bit_eq_mod less_trans [of _ 256])
  moreover have "(\<lambda>base. then_do (cbb_buffer_add sys base [b]) (\<lambda>base. (True, base))) = 
      (\<lambda>base. cbb_buffer_add sys base [b])"
    by (intro ext) (simp add: then_do_def split: prod.split)
  ultimately show ?thesis using assms
    by (simp add: CBB_add_u8_def cbb_add_u_def CBB_flush_deepest cbb_buffer_add_u_def add_u_bytes
        byte_as_u64 del: be_bytes.simps)
qed

definition cbb_ready :: "nat \<Rightarrow> cbb_st \<Rightarrow> bool" where
  "cbb_ready d s \<longleftrightarrow> length (cbb_frames s) = Suc d \<and> \<not> cb_error (cbb_base s) \<and> buffer_ok (cbb_base s)"

definition cbb_room :: "cbb_st \<Rightarrow> nat" where
  "cbb_room s = cb_cap (cbb_base s) - cb_len (cbb_base s)"

lemma CBB_add_u8_ready:
  assumes "cbb_ready d s" "CBB_add_u8 sys s d b = (True, s')"
  shows "cbb_ready d s' \<and> cb_buf (cbb_base s') = cb_buf (cbb_base s) @ [b] \<and> cbb_frames s' = cbb_frames s \<and>
    cb_cap (cbb_base s) \<le> cb_cap (cbb_base s')"
proof -
  have "length [b] \<le> SIZE_MAX" by (simp add: SIZE_MAX_def)
  then show ?thesis
    using assms CBB_add_u8_deepest [of s d sys b] cbb_buffer_add_True [of sys "cbb_base s" "[b]"]
    by (auto simp: cbb_ready_def on_base_True)
qed

interpretation cbb_sink: byte_sink "\<lambda>s. CBB_add_u8 sys s d" "\<lambda>s. cb_buf (cbb_base s)" "cbb_ready d"
  for sys d
  by unfold_locales (auto dest: CBB_add_u8_ready)

interpretation cbb_fixed_sink: bounded_sink "\<lambda>s. CBB_add_u8 sys s d" "\<lambda>s. cb_buf (cbb_base s)" "cbb_ready d" cbb_room
  for sys d
proof
  fix s and b :: u8
  assume r: "cbb_ready d s" "0 < cbb_room s"
  then have "buffer_ok (cbb_base s)" "can_hold sys (cbb_base s) (cb_len (cbb_base s) + length [b])"
    by (auto simp: cbb_ready_def can_hold_def cbb_room_def)
  then obtain base where "cbb_buffer_add sys (cbb_base s) [b] = (True, base)" by (rule cbb_buffer_add_ok)
  then show "fst (CBB_add_u8 sys s d b)"
    using r(1) CBB_add_u8_deepest [of s d sys b] by (simp add: cbb_ready_def on_base_def)
next
  fix s b s'
  assume "cbb_ready d s" "CBB_add_u8 sys s d b = (True, s')"
  from CBB_add_u8_ready [OF this] show "cbb_room s \<le> Suc (cbb_room s')"
    by (simp add: cbb_room_def) linarith
qed

end
