(* ===== verification/Sort.thy ===== *)
theory Sort
  imports Prelude "HOL-Library.Multiset"
begin

text \<open>
  libc's \<open>qsort\<close> and \<open>bsearch\<close> over a comparison function that returns a negative, zero or positive
  number, with the interfaces their callers rely on. \<open>qsort\<close> is insertion sort: the C library
  does not fix the algorithm, and where equal elements end up is only observable for a comparison
  that identifies distinct elements, so the lemmas do not depend on it.
\<close>

fun insert_by :: "('a \<Rightarrow> 'a \<Rightarrow> int) \<Rightarrow> 'a \<Rightarrow> 'a list \<Rightarrow> 'a list" where
  "insert_by cmp x [] = [x]"
| "insert_by cmp x (y # ys) = (if cmp x y \<le> 0 then x # y # ys else y # insert_by cmp x ys)"

fun qsort :: "('a \<Rightarrow> 'a \<Rightarrow> int) \<Rightarrow> 'a list \<Rightarrow> 'a list" where
  "qsort cmp [] = []"
| "qsort cmp (x # xs) = insert_by cmp x (qsort cmp xs)"

lemma mset_insert_by [simp]: "mset (insert_by cmp x ys) = add_mset x (mset ys)"
  by (induction ys) auto

lemma mset_qsort [simp]: "mset (qsort cmp xs) = mset xs"
  by (induction xs) auto

lemma length_qsort [simp]: "length (qsort cmp xs) = length xs"
  using mset_qsort [of cmp xs] by (metis size_mset)

lemma set_qsort [simp]: "set (qsort cmp xs) = set xs"
  using mset_qsort [of cmp xs] by (metis set_mset_mset)

text \<open>A comparison that is a total preorder on the elements of interest sorts them.\<close>

locale preorder_cmp =
  fixes cmp :: "'a \<Rightarrow> 'a \<Rightarrow> int"
  assumes total: "cmp x y \<le> 0 \<or> cmp y x \<le> 0"
    and trans: "cmp x y \<le> 0 \<Longrightarrow> cmp y z \<le> 0 \<Longrightarrow> cmp x z \<le> 0"
begin

lemma set_insert_by: "set (insert_by cmp x ys) = insert x (set ys)"
  by (induction ys) auto

lemma sorted_insert_by:
  "sorted_wrt (\<lambda>x y. cmp x y \<le> 0) ys \<Longrightarrow> sorted_wrt (\<lambda>x y. cmp x y \<le> 0) (insert_by cmp x ys)"
proof (induction ys)
  case Nil
  then show ?case by simp
next
  case (Cons y ys)
  then show ?case using total trans by (auto simp: set_insert_by)
qed

lemma sorted_qsort: "sorted_wrt (\<lambda>x y. cmp x y \<le> 0) (qsort cmp xs)"
  by (induction xs) (auto intro: sorted_insert_by)

end

text \<open>A sorted input stays as it is.\<close>

context preorder_cmp
begin

lemma insert_by_least:
  "\<forall>y \<in> set ys. cmp x y \<le> 0 \<Longrightarrow> insert_by cmp x ys = x # ys"
  by (cases ys) auto

lemma qsort_id: "sorted_wrt (\<lambda>x y. cmp x y \<le> 0) xs \<Longrightarrow> qsort cmp xs = xs"
  by (induction xs) (auto simp: insert_by_least)

end

text \<open>
  A comparison whose sign flips when its arguments are swapped lets a search discard half of a
  sorted array.
\<close>

locale search_cmp = preorder_cmp +
  assumes flip: "cmp x y < 0 \<longleftrightarrow> 0 < cmp y x"
begin

lemma above: "0 < cmp p y \<Longrightarrow> cmp x y \<le> 0 \<Longrightarrow> 0 < cmp p x"
  by (meson not_le trans)

lemma below: "cmp p y < 0 \<Longrightarrow> cmp y x \<le> 0 \<Longrightarrow> cmp p x < 0"
  by (metis above flip less_le_not_le linorder_neqE_linordered_idom not_le trans)

end

text \<open>If only equal elements compare equal, the result does not depend on the order of the input.\<close>

locale order_cmp = preorder_cmp +
  assumes antisym: "cmp x y \<le> 0 \<Longrightarrow> cmp y x \<le> 0 \<Longrightarrow> x = y"
begin

lemma sorted_unique:
  "mset xs = mset ys \<Longrightarrow> sorted_wrt (\<lambda>x y. cmp x y \<le> 0) xs \<Longrightarrow>
    sorted_wrt (\<lambda>x y. cmp x y \<le> 0) ys \<Longrightarrow> xs = ys"
proof (induction xs arbitrary: ys)
  case Nil
  then show ?case by simp
next
  case (Cons x xs)
  then obtain y zs where ys: "ys = y # zs" by (cases ys) auto
  have "x \<in> set ys" "y \<in> set (x # xs)"
    using Cons.prems(1) ys by (metis list.set_intros(1) set_mset_mset)+
  then have "x = y" using Cons.prems(2,3) ys antisym by auto
  then show ?case using Cons ys by simp
qed

lemma qsort_perm: "mset xs = mset ys \<Longrightarrow> qsort cmp xs = qsort cmp ys"
  by (intro sorted_unique) (auto simp: sorted_qsort)

lemma qsort_sorted: "sorted_wrt (\<lambda>x y. cmp x y \<le> 0) xs \<Longrightarrow> qsort cmp xs = xs"
  by (intro sorted_unique) (auto simp: sorted_qsort)

end

end
