(* ===== verification/CbbAsn1.thy ===== *)
theory CbbAsn1
  imports Cbb Sort
begin

text \<open>
  The ASN.1 writers of \<open>src/crypto/bytestring/cbb.c\<close>: base-128 integers, elements, the typed
  writers, object identifiers from text and back (\<open>CBS_asn1_oid_to_text\<close> of \<open>cbs.c\<close>), and the
  sorting of a SET OF.
\<close>

section \<open>Elements\<close>

text \<open>\<open>while (copy > 0) { len_len++; copy >>= 7; }\<close>\<close>

function base128_len_len :: "u64 \<Rightarrow> nat" where
  "base128_len_len copy = (if 0 < copy then Suc (base128_len_len (drop_bit 7 copy)) else 0)"
  by pat_completeness auto
termination
proof (relation "measure unat")
  fix copy :: u64
  assume "0 < copy"
  then have "0 < unat copy" by (simp add: word_less_nat_alt)
  then show "(drop_bit 7 copy, copy) \<in> measure unat" by (simp add: unat_drop_bit)
qed simp

declare base128_len_len.simps [simp del]

definition base128_byte :: "u64 \<Rightarrow> nat \<Rightarrow> u8" where
  "base128_byte v i =
     (let byte = ucast (drop_bit (7 * i) v AND 0x7f) in if i \<noteq> 0 then byte OR 0x80 else byte)"

definition add_base128_integer :: "(nat \<Rightarrow> bool) \<Rightarrow> cbb_st \<Rightarrow> nat \<Rightarrow> u64 \<Rightarrow> bool \<times> cbb_st" where
  "add_base128_integer sys s d v =
     (let len_len = base128_len_len v;
          len_len = (if len_len = 0 then 1 else len_len)
      in put_all (\<lambda>s. CBB_add_u8 sys s d) s (map (base128_byte v) (rev [0..<len_len])))"

definition CBB_add_asn1 :: "(nat \<Rightarrow> bool) \<Rightarrow> cbb_st \<Rightarrow> nat \<Rightarrow> u32 \<Rightarrow> bool \<times> cbb_st" where
  "CBB_add_asn1 sys s d tag =
     then_do (CBB_flush sys s d) (\<lambda>s.
       let tag_bits = ucast (drop_bit CBS_ASN1_TAG_SHIFT tag) AND 0xe0 :: u8;
           tag_number = tag AND CBS_ASN1_TAG_NUMBER_MASK
       in then_do
            (if 0x1f \<le> tag_number
             then then_do (CBB_add_u8 sys s d (tag_bits OR 0x1f)) (\<lambda>s.
                    add_base128_integer sys s d (ucast tag_number))
             else CBB_add_u8 sys s d (tag_bits OR ucast tag_number)) (\<lambda>s.
          let offset = cb_len (cbb_base s)
          in then_do (CBB_add_u8 sys s d 0) (\<lambda>s.
               (True, link_child s d
                 \<lparr> fr_offset = offset, fr_pending_len_len = 1, fr_pending_is_asn1 = True \<rparr>))))"

section \<open>Typed writers\<close>

fun add_uint64_loop :: "(nat \<Rightarrow> bool) \<Rightarrow> cbb_st \<Rightarrow> nat \<Rightarrow> bool \<Rightarrow> u8 list \<Rightarrow> bool \<times> cbb_st" where
  "add_uint64_loop sys s d started [] = (if \<not> started then CBB_add_u8 sys s d 0 else (True, s))"
| "add_uint64_loop sys s d started (byte # bytes) =
     (if \<not> started \<and> byte = 0 then add_uint64_loop sys s d False bytes
      else then_do (if \<not> started \<and> byte AND 0x80 \<noteq> 0 then CBB_add_u8 sys s d 0 else (True, s)) (\<lambda>s.
             then_do (CBB_add_u8 sys s d byte) (\<lambda>s. add_uint64_loop sys s d True bytes)))"

definition CBB_add_asn1_uint64 :: "(nat \<Rightarrow> bool) \<Rightarrow> cbb_st \<Rightarrow> nat \<Rightarrow> u64 \<Rightarrow> bool \<times> cbb_st" where
  "CBB_add_asn1_uint64 sys s d value =
     then_do (CBB_add_asn1 sys s d CBS_ASN1_INTEGER) (\<lambda>s.
       then_do (add_uint64_loop sys s (Suc d) False
                  (map (\<lambda>i. ucast (drop_bit (8 * (7 - i)) value)) [0..<8])) (\<lambda>s.
         CBB_flush sys s d))"

text \<open>\<open>while (start > 0 && u.bytes[start] == 0xff && (u.bytes[start - 1] & 0x80)) start--;\<close>\<close>

fun int64_start :: "u8 list \<Rightarrow> nat \<Rightarrow> nat" where
  "int64_start bytes 0 = 0"
| "int64_start bytes (Suc n) =
     (if bytes ! Suc n = 0xff \<and> bytes ! n AND 0x80 \<noteq> 0 then int64_start bytes n else Suc n)"

definition CBB_add_asn1_int64 :: "(nat \<Rightarrow> bool) \<Rightarrow> cbb_st \<Rightarrow> nat \<Rightarrow> u64 \<Rightarrow> bool \<times> cbb_st" where
  "CBB_add_asn1_int64 sys s d value =
     (if 0 \<le> sint value then CBB_add_asn1_uint64 sys s d value
      else let bytes = map (\<lambda>i. ucast (drop_bit (8 * i) value)) [0..<8];
               start = int64_start bytes 7
           in then_do (CBB_add_asn1 sys s d CBS_ASN1_INTEGER) (\<lambda>s.
                then_do (put_all (\<lambda>s. CBB_add_u8 sys s (Suc d)) s (rev (take (Suc start) bytes))) (\<lambda>s.
                  CBB_flush sys s d)))"

definition CBB_add_asn1_octet_string :: "(nat \<Rightarrow> bool) \<Rightarrow> cbb_st \<Rightarrow> nat \<Rightarrow> u8 list \<Rightarrow> bool \<times> cbb_st" where
  "CBB_add_asn1_octet_string sys s d data =
     then_do (CBB_add_asn1 sys s d CBS_ASN1_OCTETSTRING) (\<lambda>s.
       then_do (CBB_add_bytes sys s (Suc d) data) (\<lambda>s.
         CBB_flush sys s d))"

definition CBB_add_asn1_bool :: "(nat \<Rightarrow> bool) \<Rightarrow> cbb_st \<Rightarrow> nat \<Rightarrow> int \<Rightarrow> bool \<times> cbb_st" where
  "CBB_add_asn1_bool sys s d value =
     then_do (CBB_add_asn1 sys s d CBS_ASN1_BOOLEAN) (\<lambda>s.
       then_do (CBB_add_u8 sys s (Suc d) (if value \<noteq> 0 then 0xff else 0)) (\<lambda>s.
         CBB_flush sys s d))"

section \<open>Object identifiers\<close>

text \<open>The loop of \<open>parse_dotted_decimal\<close>, with \<open>*out\<close> and \<open>seen_digit\<close>.\<close>

fun parse_dotted_loop :: "u64 \<Rightarrow> bool \<Rightarrow> cbs \<Rightarrow> u64 option \<times> cbs" where
  "parse_dotted_loop out seen_digit [] = (if seen_digit then Some out else None, [])"
| "parse_dotted_loop out seen_digit (u # cbs) =
     (if u = 0x2e \<and> cbs \<noteq> [] then (if seen_digit then Some out else None, cbs)
      else if u < 0x30 \<or> 0x39 < u \<or> seen_digit \<and> out = 0 \<or> 1844674407370955161 < out \<or>
              18446744073709551615 - (ucast u - 0x30) < out * 10
      then (None, cbs)
      else parse_dotted_loop (out * 10 + (ucast u - 0x30)) True cbs)"

definition parse_dotted_decimal :: "cbs \<Rightarrow> u64 option \<times> cbs" where
  "parse_dotted_decimal cbs = parse_dotted_loop 0 False cbs"

lemma parse_dotted_loop_consumes: "length (snd (parse_dotted_loop out seen cbs)) \<le> length cbs"
  by (induction out seen cbs rule: parse_dotted_loop.induct) auto

lemma parse_dotted_decimal_consumes:
  "parse_dotted_decimal cbs = (Some a, rest) \<Longrightarrow> length rest < length cbs"
proof (cases cbs)
  case Nil
  then show "parse_dotted_decimal cbs = (Some a, rest) \<Longrightarrow> ?thesis" by (simp add: parse_dotted_decimal_def)
next
  case (Cons u cs)
  moreover assume "parse_dotted_decimal cbs = (Some a, rest)"
  ultimately show ?thesis
    using parse_dotted_loop_consumes [of "0 * 10 + (ucast u - 0x30)" True cs]
    by (auto simp: parse_dotted_decimal_def split: if_split_asm)
qed

text \<open>The loop over the remaining components.\<close>

function oid_components :: "(nat \<Rightarrow> bool) \<Rightarrow> cbb_st \<Rightarrow> nat \<Rightarrow> cbs \<Rightarrow> bool \<times> cbb_st" where
  "oid_components sys s d cbs =
     (if CBS_len cbs = 0 then (True, s)
      else case parse_dotted_decimal cbs of
             (None, _) \<Rightarrow> (False, s)
           | (Some a, rest) \<Rightarrow>
               then_do (add_base128_integer sys s d a) (\<lambda>s. oid_components sys s d rest))"
  by pat_completeness auto
termination
  by (relation "measure (\<lambda>(sys, s, d, cbs). length cbs)") (auto dest: parse_dotted_decimal_consumes [OF sym])

declare oid_components.simps [simp del]

definition CBB_add_asn1_oid_from_text :: "(nat \<Rightarrow> bool) \<Rightarrow> cbb_st \<Rightarrow> nat \<Rightarrow> u8 list \<Rightarrow> bool \<times> cbb_st" where
  "CBB_add_asn1_oid_from_text sys s d text =
     then_do (CBB_flush sys s d) (\<lambda>s.
       case parse_dotted_decimal (CBS_init text (length text)) of
         (None, _) \<Rightarrow> (False, s)
       | (Some a, cbs) \<Rightarrow>
           (case parse_dotted_decimal cbs of
              (None, _) \<Rightarrow> (False, s)
            | (Some b, cbs) \<Rightarrow>
                if 2 < a \<or> a < 2 \<and> 39 < b \<or> 18446744073709551615 - 80 < b then (False, s)
                else then_do (add_base128_integer sys s d (40 * a + b)) (\<lambda>s.
                       oid_components sys s d cbs)))"

text \<open>\<open>BIO_snprintf(buf, sizeof(buf), "%" PRIu64, v)\<close>: the decimal digits of \<open>v\<close>.\<close>

fun decimal_digits :: "nat \<Rightarrow> u8 list" where
  "decimal_digits n = (if n < 10 then [of_nat (48 + n)] else decimal_digits (n div 10) @ [of_nat (48 + n mod 10)])"

declare decimal_digits.simps [simp del]

definition add_decimal :: "(nat \<Rightarrow> bool) \<Rightarrow> cbb_st \<Rightarrow> nat \<Rightarrow> u64 \<Rightarrow> bool \<times> cbb_st" where
  "add_decimal sys s d v = CBB_add_bytes sys s d (decimal_digits (unat v))"

lemma parse_base128_loop_consumes: "length (snd (parse_base128_loop v cbs)) \<le> length cbs"
  by (induction v cbs rule: parse_base128_loop.induct) (auto simp: parse_base128_loop.simps(2) Let_def)

lemma parse_base128_integer_consumes:
  "parse_base128_integer cbs = (Some v, rest) \<Longrightarrow> length rest < length cbs"
  unfolding base128_codec.dec_Some_iff by auto

function oid_text_components :: "(nat \<Rightarrow> bool) \<Rightarrow> cbb_st \<Rightarrow> cbs \<Rightarrow> bool \<times> cbb_st" where
  "oid_text_components sys s copy =
     (if CBS_len copy = 0 then (True, s)
      else case parse_base128_integer copy of
             (None, _) \<Rightarrow> (False, s)
           | (Some v, rest) \<Rightarrow>
               then_do (CBB_add_u8 sys s 0 0x2e) (\<lambda>s.
                 then_do (add_decimal sys s 0 v) (\<lambda>s. oid_text_components sys s rest)))"
  by pat_completeness auto
termination
  by (relation "measure (\<lambda>(sys, s, copy). length copy)") (auto dest: parse_base128_integer_consumes [OF sym])

declare oid_text_components.simps [simp del]

text \<open>The text with its terminating zero, or \<open>None\<close> for \<open>NULL\<close>.\<close>

definition CBS_asn1_oid_to_text :: "(nat \<Rightarrow> bool) \<Rightarrow> cbs \<Rightarrow> u8 list option" where
  "CBS_asn1_oid_to_text sys cbs =
     (case CBB_init sys 32 of
        (False, _) \<Rightarrow> None
      | (True, cbb) \<Rightarrow>
          (case parse_base128_integer cbs of
             (None, _) \<Rightarrow> None
           | (Some v, copy) \<Rightarrow>
               (case then_do
                       (if 80 \<le> v
                        then then_do (CBB_add_bytes sys cbb 0 [0x32, 0x2e]) (\<lambda>cbb. add_decimal sys cbb 0 (v - 80))
                        else then_do (add_decimal sys cbb 0 (v div 40)) (\<lambda>cbb.
                               then_do (CBB_add_u8 sys cbb 0 0x2e) (\<lambda>cbb.
                                 add_decimal sys cbb 0 (v mod 40)))) (\<lambda>cbb.
                     then_do (oid_text_components sys cbb copy) (\<lambda>cbb. CBB_add_u8 sys cbb 0 0)) of
                  (False, _) \<Rightarrow> None
                | (True, cbb) \<Rightarrow> fst (CBB_finish sys cbb 0 True))))"

section \<open>SET OF\<close>

definition compare_set_of_element :: "cbs \<Rightarrow> cbs \<Rightarrow> int" where
  "compare_set_of_element a b =
     (let a_len = CBS_len a; b_len = CBS_len b;
          min_len = (if a_len < b_len then a_len else b_len);
          ret = OPENSSL_memcmp (CBS_data a) (CBS_data b) min_len
      in if ret \<noteq> 0 then ret
         else if a_len = b_len then 0
         else if a_len < b_len then -1 else 1)"

definition get_element :: "cbs \<Rightarrow> cbs option \<times> cbs" where
  "get_element cbs = ok_do (CBS_get_any_asn1_element cbs) (\<lambda>(out, _, _) cbs. (Some out, cbs))"

definition sizeof_CBS :: nat where
  "sizeof_CBS = 16"

text \<open>Writing the children back, in order, until one does not fit.\<close>

fun add_children :: "(nat \<Rightarrow> bool) \<Rightarrow> cbb_st \<Rightarrow> nat \<Rightarrow> cbs list \<Rightarrow> bool \<times> cbb_st" where
  "add_children sys s d [] = (True, s)"
| "add_children sys s d (c # cs) =
     then_do (CBB_add_bytes sys s d (CBS_data c)) (\<lambda>s. add_children sys s d cs)"

text \<open>
  The source parses the elements twice, to count them and then to collect them from a copy of the
  same bytes; the list \<open>children\<close> is what both passes see.
\<close>

definition CBB_flush_asn1_set_of :: "(nat \<Rightarrow> bool) \<Rightarrow> cbb_st \<Rightarrow> nat \<Rightarrow> bool \<times> cbb_st" where
  "CBB_flush_asn1_set_of sys s d =
     then_do (CBB_flush sys s d) (\<lambda>s.
       let cbs = CBS_init (CBB_data s d) (CBB_len s d)
       in case decode_all get_element (CBS_len cbs) cbs of
            None \<Rightarrow> (False, s)
          | Some children \<Rightarrow>
              let num_children = length children; buf_len = CBB_len s d
              in if num_children < 2 then (True, s)
                 else if SIZE_MAX div sizeof_CBS < num_children then (False, s)
                 else if OPENSSL_memdup sys (CBB_data s d) = None \<or>
                         \<not> OPENSSL_malloc sys (num_children * sizeof_CBS)
                 then (False, s)
                 else let base = cbb_base s;
                          base = base\<lparr> cb_buf := take (frame_start s d) (cb_buf base) \<rparr>
                      in add_children sys (s\<lparr> cbb_base := base \<rparr>) d (qsort compare_set_of_element children))"

section \<open>Bytes written one at a time\<close>

lemma CBB_add_u8_refines:
  assumes "represents s segs" "d < length segs" "CBB_add_u8 sys s d b = (True, s')"
  shows "represents s' (add_seg [b] (flush_segs d segs)) \<and> closable (drop (Suc d) segs)"
  using cbb_add_u_refines [OF assms(1,2), of 1 sys "ucast b" s'] assms(3) byte_as_u64 [of b]
  by (simp add: CBB_add_u8_def)

lemma flush_segs_add_seg: "length segs = Suc d \<Longrightarrow> flush_segs d (add_seg bs segs) = add_seg bs segs"
  by (intro flush_segs_last) (auto simp: add_seg_def)

lemma flush_segs_flush: "d < length segs \<Longrightarrow> flush_segs d (flush_segs d segs) = flush_segs d segs"
  by (intro flush_segs_last) simp

lemma put_all_refines:
  "represents s segs \<Longrightarrow> length segs = Suc d \<Longrightarrow> put_all (\<lambda>s. CBB_add_u8 sys s d) s bs = (True, s') \<Longrightarrow>
    represents s' (add_seg bs segs)"
proof (induction bs arbitrary: s segs)
  case Nil
  then show ?case by (cases segs) (auto simp: represents_def)
next
  case (Cons b bs)
  then obtain t where t: "CBB_add_u8 sys s d b = (True, t)"
    and r: "put_all (\<lambda>s. CBB_add_u8 sys s d) t bs = (True, s')" by (auto simp: then_do_True)
  have "represents t (add_seg [b] segs)"
    using CBB_add_u8_refines [OF Cons.prems(1) _ t] Cons.prems(2) by (simp add: flush_segs_last)
  moreover have "segs \<noteq> []" using Cons.prems(2) by auto
  ultimately show ?case using Cons.IH [OF _ _ r] Cons.prems(2) by fastforce
qed

section \<open>Base-128 integers\<close>

fun base128_digits :: "nat \<Rightarrow> nat" where
  "base128_digits n = (if n = 0 then 0 else Suc (base128_digits (n div 128)))"

declare base128_digits.simps [simp del]

lemma base128_len_len: "base128_len_len v = base128_digits (unat v)"
proof (induction v rule: base128_len_len.induct)
  case (1 v)
  have z: "0 < v \<longleftrightarrow> unat v \<noteq> 0" by (simp add: word_less_nat_alt)
  show ?case using 1 by (simp add: z base128_len_len.simps [of v] base128_digits.simps [of "unat v"] unat_drop_bit)
qed

lemma base128_byte:
  "base128_byte v i = of_nat ((unat v div 128 ^ i) mod 128 + (if i \<noteq> 0 then 128 else 0))"
proof -
  define b :: u8 where "b = ucast (drop_bit (7 * i) v AND 0x7f)"
  have "unat (drop_bit (7 * i) v AND 0x7f) = unat (drop_bit (7 * i) v) mod 128"
    using unat_and_mask [of "drop_bit (7 * i) v" 7] by (simp add: mask_eq_exp_minus_1)
  then have m: "unat (drop_bit (7 * i) v AND 0x7f) = (unat v div 128 ^ i) mod 128"
    by (simp add: unat_drop_bit power_mult)
  then have u: "unat b = (unat v div 128 ^ i) mod 128"
    by (simp add: b_def unsigned_ucast_eq take_bit_eq_mod less_trans [of _ 128])
  have "unat (push_bit 7 1 OR b) = 128 + unat b"
    using unat_push_or [of 7 "1 :: u8" b] u by simp
  then have "unat (b OR 0x80) = unat b + 128" by (simp add: or.commute)
  from arg_cong [OF this, of "of_nat :: nat \<Rightarrow> u8"] have "b OR 0x80 = of_nat (unat b + 128)"
    by (simp only: of_nat_unat ucast_id)
  moreover have "b = of_nat (unat b)" by simp
  ultimately show ?thesis unfolding base128_byte_def b_def [symmetric] u Let_def by simp
qed

lemma rev_upt_Suc: "rev [0..<Suc n] = map Suc (rev [0..<n]) @ [0]"
  by (simp add: upt_conv_Cons map_Suc_upt rev_map [symmetric] del: upt_Suc)

lemma base128_hi_digits:
  "base128_hi w = map (\<lambda>i. of_nat ((w div 128 ^ i) mod 128 + 128)) (rev [0..<base128_digits w])"
proof (induction w rule: base128_hi.induct)
  case (1 w)
  show ?case
  proof (cases "w = 0")
    case True
    then show ?thesis by (simp add: base128_digits.simps)
  next
    case False
    show ?thesis
      using False 1 by (simp add: base128_hi.simps [of w] base128_digits.simps [of w] rev_upt_Suc div_mult2_eq add.commute
        del: upt_Suc)
  qed
qed

lemma base128_bytes: 
  "map (base128_byte v) (rev [0..<if base128_len_len v = 0 then 1 else base128_len_len v]) = base128_enc (unat v)"
proof -
  have "(if base128_len_len v = 0 then 1 else base128_len_len v) = Suc (base128_digits (unat v div 128))"
    by (simp add: base128_len_len base128_digits.simps [of "unat v"]) (simp add: base128_digits.simps)
  then show ?thesis
    by (simp add: rev_upt_Suc base128_enc_def base128_hi_digits base128_byte div_mult2_eq del: upt_Suc)
qed

lemma add_base128_integer_eq:
  "add_base128_integer sys s d v = put_all (\<lambda>s. CBB_add_u8 sys s d) s (base128_enc (unat v))"
  unfolding add_base128_integer_def Let_def base128_bytes ..

section \<open>Elements\<close>

lemma tag_bytes:
  fixes tag :: u32
  defines "tag_bits \<equiv> ucast (drop_bit CBS_ASN1_TAG_SHIFT tag) AND 0xe0 :: u8"
    and "n \<equiv> tag AND CBS_ASN1_TAG_NUMBER_MASK"
  shows "tag_enc tag = (if 0x1f \<le> n then (tag_bits OR 0x1f) # base128_enc (unat (ucast n :: u64))
    else [tag_bits OR ucast n])"
proof -
  have mask: "CBS_ASN1_TAG_NUMBER_MASK = mask 29"
    by (simp add: CBS_ASN1_TAG_NUMBER_MASK_def CBS_ASN1_TAG_SHIFT_def mask_eq_exp_minus_1 push_bit_eq_mult)
  have n: "unat n = unat tag mod 2 ^ 29" unfolding n_def mask by (rule unat_and_mask)
  have e0: "(0xe0 :: u8) = push_bit 5 (mask 3)" by (simp add: mask_eq_exp_minus_1 push_bit_eq_mult)
  have "tag_bits = push_bit 5 (ucast (drop_bit 29 tag))"
    unfolding tag_bits_def e0 CBS_ASN1_TAG_SHIFT_def
    by (rule bit_word_eqI) (auto simp: bit_simps dest: bit_imp_le_length)
  moreover have t8: "unat tag div 2 ^ 29 < 8" using unsigned_less [of tag, where ?'a = nat]
    by (intro less_mult_imp_div_less) simp
  then have t: "unat (ucast (drop_bit 29 tag) :: u8) = unat tag div 2 ^ 29"
    by (simp only: unsigned_ucast_eq unat_drop_bit) (simp add: take_bit_eq_mod)
  ultimately have "unat (tag_bits OR w) = 32 * (unat tag div 2 ^ 29) + unat w" if "unat w < 32" for w
    using unat_push_or [of 5 "ucast (drop_bit 29 tag)" w] that t8 by simp
  from arg_cong [OF this, of _ "of_nat :: nat \<Rightarrow> u8"]
  have bits: "tag_bits OR w = of_nat (32 * (unat tag div 2 ^ 29) + unat w)" if "unat w < 32" for w
    using that by (simp only: of_nat_unat ucast_id)
  have "unat (ucast n :: u8) = unat n" if "unat n < 31"
    using that by (simp add: unsigned_ucast_eq take_bit_eq_mod)
  moreover have "unat (ucast n :: u64) = unat n"
    using unsigned_less [of n, where ?'a = nat] by (simp add: unsigned_ucast_eq take_bit_eq_mod)
  moreover have "0x1f \<le> n \<longleftrightarrow> \<not> unat n < 31" by (simp add: word_le_nat_alt not_less)
  moreover have "(of_nat (unat tag mod 2 ^ 29) :: u8) = ucast n" unfolding n [symmetric] by simp
  ultimately show ?thesis
    using bits [of "0x1f"] bits [of "ucast n"] n by (auto simp: tag_enc_def Let_def)
qed

lemma CBB_add_asn1_refines:
  assumes "represents s segs" "d < length segs" "CBB_add_asn1 sys s d tag = (True, s')"
  shows "represents s' (add_seg (tag_enc tag) (flush_segs d segs) @ [(Asn1Prefix, [])]) \<and>
    closable (drop (Suc d) segs)"
proof -
  let ?bits = "ucast (drop_bit CBS_ASN1_TAG_SHIFT tag) AND 0xe0 :: u8"
  let ?n = "tag AND CBS_ASN1_TAG_NUMBER_MASK"
  from assms(3) obtain t u v where t: "CBB_flush sys s d = (True, t)"
    and u: "(if 0x1f \<le> ?n
             then then_do (CBB_add_u8 sys t d (?bits OR 0x1f)) (\<lambda>s.
                    add_base128_integer sys s d (ucast ?n))
             else CBB_add_u8 sys t d (?bits OR ucast ?n)) = (True, u)"
    and v: "CBB_add_u8 sys u d 0 = (True, v)"
    and s': "s' = link_child v d \<lparr> fr_offset = cb_len (cbb_base u), fr_pending_len_len = 1, fr_pending_is_asn1 = True \<rparr>"
    unfolding CBB_add_asn1_def then_do_True Let_def by blast
  note f = CBB_flush_refines [OF assms(1,2) t]
  then have r: "represents t (flush_segs d segs)" by simp
  have "put_all (\<lambda>s. CBB_add_u8 sys s d) t (tag_enc tag) = (True, u)"
    using u by (simp add: tag_bytes add_base128_integer_eq then_do_def split: if_split_asm prod.splits)
  from put_all_refines [OF r _ this] have ru: "represents u (add_seg (tag_enc tag) (flush_segs d segs))"
    using assms(2) by simp
  have len: "length (add_seg (tag_enc tag) (flush_segs d segs)) = Suc d"
    using assms(2) by (simp add: add_seg_def)
  from CBB_add_u8_refines [OF ru _ v] len have rv: "represents v (add_seg (tag_enc tag @ [0]) (flush_segs d segs))"
    by (simp add: flush_segs_last)
  have ne: "flush_segs d segs \<noteq> []" using assms(2) by (metis length_0_conv length_flush_segs nat.simps(3))
  have "segs_ok (add_seg (tag_enc tag) (flush_segs d segs) @ [(Asn1Prefix, [])])"
    using ru by (auto simp: represents_def segs_ok_def split: list.splits prod.splits)
  then show ?thesis
    using rv ru s' f len ne represents_length [OF rv]
    by (simp add: represents_def link_child_def layout_append frames_of_append layout_add_seg
      frames_of_add_seg)
qed

text \<open>Closing the child gives the whole element.\<close>

lemma flush_element:
  assumes "length segs = Suc d"
  shows "flush_segs d (add_seg (tag_enc tag) segs @ [(Asn1Prefix, c)]) = add_seg (der_enc (tag, c)) segs"
proof -
  have "segs \<noteq> []" using assms by auto
  then show ?thesis
    using assms by (simp add: flush_segs_def add_seg_def der_enc_def drop_append)
qed


lemma add_seg_open [simp]: "add_seg bs (segs @ [(k, c)]) = segs @ [(k, c @ bs)]"
  by (simp add: add_seg_def)

lemma element_written:
  assumes "represents u (add_seg (tag_enc tag) segs @ [(Asn1Prefix, c)])" "length segs = Suc d"
    "CBB_flush sys u d = (True, s')"
  shows "represents s' (add_seg (der_enc (tag, c)) segs) \<and> length c < 2 ^ 32 - 1"
proof -
  have "segs \<noteq> []" using assms(2) by auto
  then have len: "length (add_seg (tag_enc tag) segs) = Suc d" using assms(2) by simp
  then have "drop (Suc d) (add_seg (tag_enc tag) segs @ [(Asn1Prefix, c)]) = [(Asn1Prefix, c)]" by simp
  then show ?thesis
    using CBB_flush_refines [OF assms(1) _ assms(3)] len by (simp add: flush_element [OF assms(2)])
qed

text \<open>The three steps of every typed writer: open the element, write its contents, flush.\<close>

lemma typed_writer:
  assumes "represents s segs" "d < length segs"
    "then_do (CBB_add_asn1 sys s d tag) (\<lambda>s. then_do (body s) (\<lambda>s. CBB_flush sys s d)) = (True, s')"
    "\<And>t u A. represents t (A @ [(Asn1Prefix, [])]) \<Longrightarrow> length A = Suc d \<Longrightarrow> body t = (True, u) \<Longrightarrow>
      represents u (A @ [(Asn1Prefix, c)])"
  shows "represents s' (add_seg (der_enc (tag, c)) (flush_segs d segs)) \<and> closable (drop (Suc d) segs) \<and>
    length c < 2 ^ 32 - 1"
proof -
  from assms(3) obtain t u where t: "CBB_add_asn1 sys s d tag = (True, t)" and u: "body t = (True, u)"
    and f: "CBB_flush sys u d = (True, s')" by (auto simp: then_do_True)
  note r = CBB_add_asn1_refines [OF assms(1,2) t]
  have len: "length (flush_segs d segs) = Suc d" using assms(2) by simp
  then have "flush_segs d segs \<noteq> []" by auto
  then have "length (add_seg (tag_enc tag) (flush_segs d segs)) = Suc d" using len by simp
  then have "represents u (add_seg (tag_enc tag) (flush_segs d segs) @ [(Asn1Prefix, c)])"
    using assms(4) r u by blast
  from element_written [OF this len f] r show ?thesis by simp
qed

lemma add_u8_child:
  assumes "represents t (A @ [(k, c)])" "length A = d" "CBB_add_u8 sys t d b = (True, u)"
  shows "represents u (A @ [(k, c @ [b])])"
  using CBB_add_u8_refines [OF assms(1) _ assms(3)] assms(2) by (simp add: flush_segs_last)

lemma CBB_add_asn1_octet_string_refines:
  assumes "represents s segs" "d < length segs" "length data \<le> SIZE_MAX"
    "CBB_add_asn1_octet_string sys s d data = (True, s')"
  shows "represents s' (add_seg (der_enc (CBS_ASN1_OCTETSTRING, data)) (flush_segs d segs)) \<and>
    closable (drop (Suc d) segs) \<and> length data < 2 ^ 32 - 1"
proof (rule typed_writer [OF assms(1,2) assms(4) [unfolded CBB_add_asn1_octet_string_def]])
  fix t u A
  assume a: "represents t (A @ [(Asn1Prefix, [])])" "length A = Suc d" "CBB_add_bytes sys t (Suc d) data = (True, u)"
  then show "represents u (A @ [(Asn1Prefix, data)])"
    using CBB_add_bytes_refines [OF a(1) _ assms(3) a(3)] by (simp add: flush_segs_last)
qed

lemma CBB_add_asn1_bool_refines:
  assumes "represents s segs" "d < length segs" "CBB_add_asn1_bool sys s d v = (True, s')"
  shows "represents s' (add_seg (der_enc (CBS_ASN1_BOOLEAN, [if v \<noteq> 0 then 0xff else 0])) (flush_segs d segs)) \<and>
    closable (drop (Suc d) segs)"
  using typed_writer [OF assms(1,2) assms(3) [unfolded CBB_add_asn1_bool_def], of "[if v \<noteq> 0 then 0xff else 0]"]
    add_u8_child by fastforce

section \<open>Integers\<close>

lemma put_all_started:
  "add_uint64_loop sys s d True bs = put_all (\<lambda>s. CBB_add_u8 sys s d) s bs"
  by (induction bs arbitrary: s) (auto simp: then_do_def split: prod.splits)

lemma min_be_dropWhile: "min_be (be_value bs) = dropWhile (\<lambda>b. b = 0) bs"
proof (induction bs)
  case Nil
  then show ?case by simp
next
  case (Cons b bs)
  then show ?case using min_be_eq [of b bs] by (simp add: be_value_0_Cons)
qed

lemma add_uint64_loop_eq:
  "add_uint64_loop sys s d False bs = put_all (\<lambda>s. CBB_add_u8 sys s d) s (uint_octets (be_value bs))"
proof (induction bs)
  case Nil
  then show ?case by (simp add: uint_octets_def then_do_def split: prod.split)
next
  case (Cons b bs)
  show ?case
  proof (cases "b = 0")
    case True
    then show ?thesis using Cons by (simp add: be_value_0_Cons)
  next
    case False
    then have "uint_octets (be_value (b # bs)) = (if 128 \<le> unat b then 0 # b # bs else b # bs)"
      using min_be_eq [OF False, of bs] by (simp add: uint_octets_def)
    then show ?thesis using False by (simp add: put_all_started byte_flag not_le)
  qed
qed

lemma put_all_child:
  assumes "represents t (A @ [(k, c)])" "length A = d" "put_all (\<lambda>s. CBB_add_u8 sys s d) t bs = (True, u)"
  shows "represents u (A @ [(k, c @ bs)])"
  using put_all_refines [OF assms(1) _ assms(3)] assms(2) by simp

lemma CBB_add_asn1_uint64_eq:
  "CBB_add_asn1_uint64 sys s d v = then_do (CBB_add_asn1 sys s d CBS_ASN1_INTEGER)
    (\<lambda>s. then_do (put_all (\<lambda>s. CBB_add_u8 sys s (Suc d)) s (uint_octets (unat v))) (\<lambda>s. CBB_flush sys s d))"
proof -
  have "map (\<lambda>i. ucast (drop_bit (8 * (7 - i)) v)) [0..<8] = be_bytes 8 (unat v)"
    by (simp add: be_bytes_word)
  moreover have "unat v < 256 ^ 8" using unsigned_less [of v, where ?'a = nat] by simp
  then have "be_value (be_bytes 8 (unat v)) = unat v" by (simp only: be_value_be_bytes_id)
  ultimately show ?thesis unfolding CBB_add_asn1_uint64_def add_uint64_loop_eq by simp
qed

fun strip_ff :: "u8 list \<Rightarrow> u8 list" where
  "strip_ff (b # c # bs) = (if b = 0xff \<and> c AND 0x80 \<noteq> 0 then strip_ff (c # bs) else b # c # bs)"
| "strip_ff bs = bs"

lemma int64_start_strip: "n < length bytes \<Longrightarrow>
    rev (take (Suc (int64_start bytes n)) bytes) = strip_ff (rev (take (Suc n) bytes))"
proof (induction n)
  case 0
  then show ?case by (simp add: take_Suc_conv_app_nth)
next
  case (Suc n)
  have "rev (take (Suc (Suc n)) bytes) = bytes ! Suc n # bytes ! n # rev (take n bytes)"
    using Suc.prems by (simp add: take_Suc_conv_app_nth)
  moreover have "rev (take (Suc n) bytes) = bytes ! n # rev (take n bytes)"
    using Suc.prems by (simp add: take_Suc_conv_app_nth)
  ultimately show ?case using Suc by simp
qed

lemma strip_ff_value: "int_value (strip_ff bs) = int_value bs"
proof (induction bs rule: strip_ff.induct)
  case (1 b c bs)
  have "int_value (0xff # c # bs) = int_value (c # bs)" if "128 \<le> unat c"
  proof -
    have ff: "unat (0xff :: u8) = 255" by simp
    have "be_value (0xff # c # bs) = 255 * 256 ^ length (c # bs) + be_value (c # bs)"
      using be_value_Cons [of "0xff" "c # bs"] by (simp only: ff)
    then have "int (be_value (0xff # c # bs)) - 256 ^ length (0xff # c # bs) =
        int (be_value (c # bs)) - 256 ^ length (c # bs)" by simp
    moreover have "128 \<le> unat (0xff :: u8)" unfolding ff by simp
    ultimately show ?thesis using that unfolding int_value_def list.sel by simp
  qed
  then show ?case using 1 by (simp add: byte_flag)
qed simp_all

lemma strip_ff_valid: "bs \<noteq> [] \<Longrightarrow> 128 \<le> unat (hd bs) \<Longrightarrow> CBS_is_valid_asn1_integer (strip_ff bs) = Some True"
proof (induction bs rule: strip_ff.induct)
  case (1 b c bs)
  then show ?case by (auto simp: CBS_is_valid_asn1_integer_def byte_flag Let_def)
qed (auto simp: CBS_is_valid_asn1_integer_def byte_flag Let_def)

lemma int_value_word: "int_value (be_bytes 8 (unat v)) = sint v" for v :: u64
proof -
  have "unat v < 256 ^ 8" using unsigned_less [of v, where ?'a = nat] by simp
  then have b: "be_value (be_bytes 8 (unat v)) = unat v" by (simp only: be_value_be_bytes_id)
  have ne: "be_bytes 8 (unat v) \<noteq> []" using length_be_bytes [of 8 "unat v"] by (metis list.size(3) zero_neq_numeral)
  have "of_int (int_value (be_bytes 8 (unat v))) = (of_nat (be_value (be_bytes 8 (unat v))) :: u64)"
    using int64_of_bytes_pad [OF ne] by (simp add: int64_of_bytes_def del: be_value_be_bytes_id)
  then have "of_int (int_value (be_bytes 8 (unat v))) = v" by (simp only: b of_nat_unat ucast_id)
  then show ?thesis
    using sint_of_int_id [of "int_value (be_bytes 8 (unat v))"] int_value_range [of "be_bytes 8 (unat v)"] by simp
qed

lemma CBB_add_asn1_int64_eq:
  "CBB_add_asn1_int64 sys s d v = then_do (CBB_add_asn1 sys s d CBS_ASN1_INTEGER)
    (\<lambda>s. then_do (put_all (\<lambda>s. CBB_add_u8 sys s (Suc d)) s (int_octets (sint v))) (\<lambda>s. CBB_flush sys s d))"
proof (cases "0 \<le> sint v")
  case True
  have lt: "unat v < 256 ^ 8" using unsigned_less [of v, where ?'a = nat] by simp
  then have b: "be_value (be_bytes 8 (unat v)) = unat v" by (simp only: be_value_be_bytes_id)
  have "int (unat v) < 256 ^ 8" using lt by (metis of_nat_less_iff of_nat_numeral of_nat_power)
  then have "nat (sint v) = unat v"
    using int_value_word [of v] True unfolding int_value_def b length_be_bytes
    by (simp split: if_split_asm) (metis nat_uint_eq)
  then show ?thesis
    using True by (simp add: CBB_add_asn1_int64_def int_octets_def CBB_add_asn1_uint64_eq)
next
  case False
  let ?bytes = "map (\<lambda>i. ucast (drop_bit (8 * i) v)) [0..<8] :: u8 list"
  have bytes: "rev ?bytes = be_bytes 8 (unat v)"
    by (simp add: be_bytes_word rev_map [symmetric] upt_rec)
  have "rev (take (Suc (int64_start ?bytes 7)) ?bytes) = strip_ff (be_bytes 8 (unat v))"
    using int64_start_strip [of 7 ?bytes] bytes by simp
  also have "\<dots> = int_octets (sint v)"
  proof -
    have "128 \<le> unat (hd (be_bytes 8 (unat v)))" "be_bytes 8 (unat v) \<noteq> []"
      using int_value_word [of v] False by (auto simp: int_value_def split: if_split_asm)
    then show ?thesis
      using strip_ff_valid strip_ff_value int_value_word [of v] by (metis valid_integer)
  qed
  finally have o: "rev (take (Suc (int64_start ?bytes 7)) ?bytes) = int_octets (sint v)" .
  show ?thesis using False unfolding CBB_add_asn1_int64_def Let_def o by simp
qed

lemma CBB_add_asn1_int64_refines:
  assumes "represents s segs" "d < length segs" "CBB_add_asn1_int64 sys s d v = (True, s')"
  shows "represents s' (add_seg (der_enc (CBS_ASN1_INTEGER, int_octets (sint v))) (flush_segs d segs)) \<and>
    closable (drop (Suc d) segs)"
  using typed_writer [OF assms(1,2) assms(3) [unfolded CBB_add_asn1_int64_eq], of "int_octets (sint v)"] put_all_child
  by fastforce

lemma CBB_add_asn1_uint64_refines:
  assumes "represents s segs" "d < length segs" "CBB_add_asn1_uint64 sys s d v = (True, s')"
  shows "represents s' (add_seg (der_enc (CBS_ASN1_INTEGER, uint_octets (unat v))) (flush_segs d segs)) \<and>
    closable (drop (Suc d) segs)"
  using typed_writer [OF assms(1,2) assms(3) [unfolded CBB_add_asn1_uint64_eq], of "uint_octets (unat v)"] put_all_child
  by fastforce

section \<open>SET OF\<close>

text \<open>The comparison is the lexicographic order, a prefix first.\<close>

fun lex_le :: "u8 list \<Rightarrow> u8 list \<Rightarrow> bool" where
  "lex_le [] bs = True"
| "lex_le (a # as) [] = False"
| "lex_le (a # as) (b # bs) = (a < b \<or> a = b \<and> lex_le as bs)"

lemma compare_set_of_Cons:
  "compare_set_of_element (a # as) (b # bs) =
    (if a \<noteq> b then uint a - uint b else compare_set_of_element as bs)"
proof -
  have "uint a - uint b \<noteq> 0" if "a \<noteq> b" using that by (simp add: word_uint_eq_iff)
  then show ?thesis by (auto simp: compare_set_of_element_def Let_def CBS_len_def CBS_data_def)
qed

lemma compare_set_of: "compare_set_of_element a b \<le> 0 \<longleftrightarrow> lex_le a b"
proof (induction a b rule: lex_le.induct)
  case (3 a as b bs)
  then show ?case by (auto simp: compare_set_of_Cons word_less_def word_uint_eq_iff)
qed (auto simp: compare_set_of_element_def CBS_len_def Let_def)

lemma lex_le_total: "lex_le a b \<or> lex_le b a"
  by (induction a b rule: lex_le.induct) auto

lemma lex_le_antisym: "lex_le a b \<Longrightarrow> lex_le b a \<Longrightarrow> a = b"
proof (induction a b rule: lex_le.induct)
  case (1 bs)
  then show ?case by (cases bs) auto
qed auto

lemma lex_le_trans: "lex_le a b \<Longrightarrow> lex_le b c \<Longrightarrow> lex_le a c"
proof (induction a b arbitrary: c rule: lex_le.induct)
  case (3 a as b bs)
  then show ?case by (cases c) auto
qed auto

interpretation set_of_order: order_cmp compare_set_of_element
  unfolding order_cmp_def preorder_cmp_def order_cmp_axioms_def compare_set_of
  using lex_le_total lex_le_antisym lex_le_trans by blast

lemma compare_set_of_flip: "compare_set_of_element a b < 0 \<longleftrightarrow> 0 < compare_set_of_element b a"
proof (induction a b rule: lex_le.induct)
  case (1 bs)
  then show ?case by (cases bs) (auto simp: compare_set_of_element_def CBS_len_def Let_def)
next
  case (3 a as b bs)
  then show ?case by (auto simp: compare_set_of_Cons)
qed (auto simp: compare_set_of_element_def CBS_len_def Let_def)

interpretation set_of_search: search_cmp compare_set_of_element
  by unfold_locales (rule compare_set_of_flip)

definition is_element :: "u8 list \<Rightarrow> bool" where
  "is_element e \<longleftrightarrow> (\<exists>tag c. length c < 2 ^ 32 \<and> e = der_enc (tag, c))"

interpretation element_codec: canonical_codec "\<lambda>e. e" get_element is_element
proof
  show "get_element (x @ rest) = (Some x, rest)" if "is_element x" for x rest
    using that by (auto simp: is_element_def get_element_def any_asn1_element_enc)
  show "is_element x \<and> bs = x @ rest" if "get_element bs = (Some x, rest)" for bs x rest
    using that by (auto simp: is_element_def get_element_def ok_then_Some any_asn1_element_Some)
qed

lemma is_element_nonempty: "is_element e \<Longrightarrow> e \<noteq> []"
  by (auto simp: is_element_def)

lemma decode_elements: "decode_all get_element (length bs) bs = Some es \<longleftrightarrow> list_all is_element es \<and> bs = concat es"
  using element_codec.decode_all_iff [of bs es] is_element_nonempty by simp

lemma add_children_refines:
  "represents s (A @ [(k, c)]) \<Longrightarrow> length A = d \<Longrightarrow> \<forall>e \<in> set es. length e \<le> SIZE_MAX \<Longrightarrow>
    add_children sys s d es = (True, s') \<Longrightarrow> represents s' (A @ [(k, c @ concat es)])"
proof (induction es arbitrary: s c)
  case Nil
  then show ?case by simp
next
  case (Cons e es)
  then obtain t where t: "CBB_add_bytes sys s d e = (True, t)" "add_children sys t d es = (True, s')"
    by (auto simp: then_do_True CBS_data_def)
  have "represents t (A @ [(k, c @ e)])"
    using CBB_add_bytes_refines [OF Cons.prems(1) _ _ t(1)] Cons.prems(2,3) by (simp add: flush_segs_last)
  then show ?case using Cons.IH [OF _ _ _ t(2)] Cons.prems(2,3) by fastforce
qed

lemma length_sum_le: "e \<in> set es \<Longrightarrow> length e \<le> length (concat es)"
  by (induction es) auto

text \<open>The bytes of the innermost frame, and rewinding to its start.\<close>

definition rewind :: "cbb_st \<Rightarrow> nat \<Rightarrow> cbb_st" where
  "rewind s d = s\<lparr> cbb_base := (cbb_base s)\<lparr> cb_buf := take (frame_start s d) (cb_buf (cbb_base s)) \<rparr> \<rparr>"

lemma innermost_frame:
  assumes "represents t (A @ [(k, c)])" "length A = d"
  shows "CBB_data t d = c \<and> CBB_len t d = length c \<and> represents (rewind t d) (A @ [(k, [])]) \<and>
    length c \<le> SIZE_MAX"
proof -
  have buf: "cb_buf (cbb_base t) = layout A @ replicate (pending_len k) 0 @ c"
    and fr: "cbb_frames t = frames_of 0 (A @ [(k, c)])" and ok: "buffer_ok (cbb_base t)"
    and sok: "segs_ok (A @ [(k, c)])"
    using assms(1) by (auto simp: represents_def layout_append)
  have nth: "cbb_frames t ! d = frame_at (length (layout A)) k"
    unfolding fr using frames_of_nth [of d "A @ [(k, c)]" 0] assms(2) by (simp add: nth_append)
  have start: "frame_start t d = length (layout A) + pending_len k"
    by (simp add: frame_start_def nth frame_at_def)
  have "segs_ok (A @ [(k, [])])" using sok by (cases A) (auto simp: segs_ok_def)
  then have "represents (rewind t d) (A @ [(k, [])])"
    using ok fr by (simp add: rewind_def represents_def start buf layout_append frames_of_append buffer_ok_def)
  moreover have "length c \<le> SIZE_MAX" using buf ok by (simp add: buffer_ok_def)
  ultimately show ?thesis by (simp add: CBB_data_def CBB_len_def start buf nth frame_at_def)
qed

lemma set_of_unfold:
  assumes "CBB_flush sys s d = (True, t)" "represents t (A @ [(k, c)])" "length A = d"
  shows "CBB_flush_asn1_set_of sys s d =
    (case decode_all get_element (length c) c of
       None \<Rightarrow> (False, t)
     | Some es \<Rightarrow>
        (if length es < 2 then (True, t)
         else if SIZE_MAX div sizeof_CBS < length es then (False, t)
         else if OPENSSL_memdup sys c = None \<or> \<not> OPENSSL_malloc sys (length es * sizeof_CBS) then (False, t)
         else add_children sys (rewind t d) d (qsort compare_set_of_element es)))"
proof -
  have i: "CBB_data t d = c" "CBB_len t d = length c" "CBS_init c (length c) = c"
    using innermost_frame [OF assms(2,3)] by (simp_all add: CBS_init_def)
  show ?thesis
    unfolding CBB_flush_asn1_set_of_def assms(1) then_do_simps Let_def i CBS_len_def rewind_def by (rule refl)
qed

lemma sorted_elements_fit:
  assumes "c = concat es" "length c \<le> SIZE_MAX" 
  shows "\<forall>e \<in> set (qsort cmp es). length e \<le> SIZE_MAX"
proof
  fix e assume "e \<in> set (qsort cmp es)"
  then have "length e \<le> length c" using assms(1) length_sum_le by simp
  then show "length e \<le> SIZE_MAX" using assms(2) by simp
qed

lemma CBB_flush_asn1_set_of_refines:
  assumes "represents s segs" "d < length segs" "CBB_flush_asn1_set_of sys s d = (True, s')"
    and fl: "flush_segs d segs = A @ [(k, c)]"
  shows "\<exists>es. list_all is_element es \<and> c = concat es \<and>
    represents s' (A @ [(k, concat (qsort compare_set_of_element es))])"
proof -
  from assms(3) obtain t where t: "CBB_flush sys s d = (True, t)"
    by (auto simp: CBB_flush_asn1_set_of_def then_do_True)
  have r: "represents t (A @ [(k, c)])" using CBB_flush_refines [OF assms(1,2) t] fl by simp
  have A: "length A = d" using length_flush_segs [OF assms(2)] fl by simp
  note u = assms(3) [unfolded set_of_unfold [OF t r A]]
  from u obtain es where d: "decode_all get_element (length c) c = Some es"
    by (cases "decode_all get_element (length c) c") auto
  then have es: "list_all is_element es" "c = concat es" using decode_elements by auto
  show ?thesis
  proof (cases "length es < 2")
    case True
    then have "qsort compare_set_of_element es = es" by (cases es; cases "tl es") auto
    then show ?thesis using True u d es r by auto
  next
    case False
    have add: "add_children sys (rewind t d) d (qsort compare_set_of_element es) = (True, s')"
      using u False by (simp add: d split: if_split_asm)
    have "represents (rewind t d) (A @ [(k, [])])" "length c \<le> SIZE_MAX"
      using innermost_frame [OF r A] by simp_all
    then have "represents s' (A @ [(k, concat (qsort compare_set_of_element es))])"
      using add_children_refines [OF _ A sorted_elements_fit [OF es(2)] add] by fastforce
    then show ?thesis using es by auto
  qed
qed

section \<open>Object identifiers\<close>

text \<open>A component: decimal digits without leading zeros. The value the loop computes.\<close>

lemma decimal_digits_nonempty [simp]: "decimal_digits n \<noteq> []"
  by (subst decimal_digits.simps) simp

lemma digit_props: "n < 10 \<Longrightarrow> \<not> (of_nat (48 + n) :: u8) < 0x30 \<and> \<not> (0x39 :: u8) < of_nat (48 + n) \<and>
    (of_nat (48 + n) :: u8) \<noteq> 0x2e \<and> ucast (of_nat (48 + n) :: u8) - 0x30 = (of_nat n :: u64)"
proof -
  assume n: "n < 10"
  then have u: "unat (of_nat (48 + n) :: u8) = 48 + n" unfolding unat_of_nat_u8 by simp
  have "ucast (of_nat (48 + n) :: u8) = (of_nat (48 + n) :: u64)"
    using u by (metis of_nat_unat)
  then have "ucast (of_nat (48 + n) :: u8) - 0x30 = (of_nat n :: u64)" by simp
  moreover have "\<not> (of_nat (48 + n) :: u8) < 0x30 \<and> \<not> (0x39 :: u8) < of_nat (48 + n) \<and> (of_nat (48 + n) :: u8) \<noteq> 0x2e"
    using n unfolding word_less_nat_alt word_unat_eq_iff u by simp
  ultimately show ?thesis by blast
qed

lemma decimal_digits_snoc: "0 < u \<Longrightarrow> d < 10 \<Longrightarrow> decimal_digits (u * 10 + d) = decimal_digits u @ [of_nat (48 + d)]"
  by (subst decimal_digits.simps) simp

lemma decimal_digits_small: "d < 10 \<Longrightarrow> decimal_digits d = [of_nat (48 + d)]"
  by (subst decimal_digits.simps) simp

lemma digit_cases: "\<not> u < 0x30 \<Longrightarrow> \<not> 0x39 < u \<Longrightarrow> \<exists>d < 10. u = of_nat (48 + d)" for u :: u8
proof -
  assume u: "\<not> u < 0x30" "\<not> 0x39 < u"
  then have r: "48 \<le> unat u" "unat u \<le> 57" by (auto simp: word_less_nat_alt)
  have "u = of_nat (48 + (unat u - 48))" using r(1) by (simp del: of_nat_add)
  moreover have "unat u - 48 < 10" using r(2) by simp
  ultimately show ?thesis by blast
qed

text \<open>One digit: the overflow tests of the source reject exactly the values that do not fit.\<close>

lemma dotted_step:
  assumes "d < 10" "u < 2 ^ 64"
  shows "parse_dotted_loop (of_nat u) seen (of_nat (48 + d) # cbs) =
    (if seen \<and> u = 0 \<or> 2 ^ 64 \<le> u * 10 + d then (None, cbs)
     else parse_dotted_loop (of_nat (u * 10 + d)) True cbs)"
proof -
  let ?u = "of_nat u :: u64"
  note p = digit_props [OF assms(1)]
  have u: "unat ?u = u" using assms(2) by (simp add: unat_of_nat)
  have d: "unat (of_nat d :: u64) = d" using assms(1) by (simp add: unat_of_nat)
  have z: "?u = 0 \<longleftrightarrow> u = 0" using unat_0_iff [of ?u] u by simp
  have big: "1844674407370955161 < ?u \<longleftrightarrow> 1844674407370955161 < u" by (simp add: word_less_nat_alt u)
  have sub: "unat (18446744073709551615 - of_nat d :: u64) = 18446744073709551615 - d"
    using assms(1) d by (subst unat_sub) (simp_all add: word_le_nat_alt)
  have over: "1844674407370955161 < ?u \<or> 18446744073709551615 - of_nat d < ?u * 10 \<longleftrightarrow> 2 ^ 64 \<le> u * 10 + d"
  proof (cases "1844674407370955161 < u")
    case True
    then show ?thesis using big by simp
  next
    case False
    then have "unat (?u * 10) = u * 10" by (simp add: unat_word_ariths u)
    then show ?thesis using False big assms(1) by (auto simp: word_less_nat_alt sub)
  qed
  have next_eq: "?u * 10 + of_nat d = of_nat (u * 10 + d)" by simp
  show ?thesis
    unfolding parse_dotted_loop.simps(2) using p z over
    by (simp only: conj_disj_distribL next_eq if_False HOL.simp_thms disj_assoc)
qed

lemma dotted_digits:
  "n < 2 ^ 64 \<Longrightarrow> parse_dotted_loop 0 False (decimal_digits n @ cbs) = parse_dotted_loop (of_nat n) True cbs"
proof (induction n arbitrary: cbs rule: decimal_digits.induct)
  case (1 n)
  show ?case
  proof (cases "n < 10")
    case True
    then show ?thesis using dotted_step [of n 0 False cbs] by (simp add: decimal_digits_small)
  next
    case False
    then have "decimal_digits n = decimal_digits (n div 10) @ [of_nat (48 + n mod 10)]"
      by (subst decimal_digits.simps) simp
    moreover have "n div 10 \<noteq> 0" using False by simp
    moreover have "n div 10 * 10 + n mod 10 = n" by simp
    ultimately show ?thesis
      using 1 False dotted_step [of "n mod 10" "n div 10" True cbs]
      by (simp del: of_nat_add parse_dotted_loop.simps)
  qed
qed

lemma dotted_canonical:
  "parse_dotted_loop out True cbs = (Some a, rest) \<Longrightarrow>
    decimal_digits (unat out) @ cbs = decimal_digits (unat a) @ (if rest = [] then [] else 0x2e # rest)"
proof (induction "length cbs" arbitrary: out cbs)
  case 0
  then show ?case by auto
next
  case (Suc n)
  then obtain u cs where cbs: "cbs = u # cs" by (cases cbs) auto
  show ?case
  proof (cases "u = 0x2e \<and> cs \<noteq> []")
    case True
    then show ?thesis using Suc.prems cbs by simp
  next
    case False
    then have "\<not> u < 0x30" "\<not> 0x39 < u" using Suc.prems cbs by (auto split: if_split_asm)
    then obtain d where d: "d < 10" "u = of_nat (48 + d)" using digit_cases by blast
    have lt: "unat out < 2 ^ 64" using unsigned_less [of out, where ?'a = nat] by simp
    have st: "unat out \<noteq> 0" "unat out * 10 + d < 2 ^ 64"
      "parse_dotted_loop (of_nat (unat out * 10 + d)) True cs = (Some a, rest)"
      using Suc.prems dotted_step [OF d(1) lt, of True cs] unfolding cbs d(2)
      by (auto simp del: of_nat_add of_nat_mult split: if_split_asm)
    have "unat (of_nat (unat out * 10 + d) :: u64) = unat out * 10 + d"
      unfolding unat_of_nat using st(2) by (intro mod_less) simp
    moreover have "n = length cs" using Suc.hyps(2) cbs by simp
    ultimately show ?thesis using Suc.hyps(1) [OF _ st(3)] decimal_digits_snoc [of "unat out" d] st(1) d cbs
      by (simp del: of_nat_add)
  qed
qed

lemma parse_dotted_decimal_Some:
  "parse_dotted_decimal cbs = (Some a, rest) \<longleftrightarrow>
    cbs = decimal_digits (unat a) @ (if rest = [] then [] else 0x2e # rest)"
proof
  assume p: "parse_dotted_decimal cbs = (Some a, rest)"
  then obtain u cs where cbs: "cbs = u # cs" by (cases cbs) (auto simp: parse_dotted_decimal_def)
  then have "\<not> u < 0x30" "\<not> 0x39 < u" using p by (auto simp: parse_dotted_decimal_def split: if_split_asm)
  then obtain d where d: "d < 10" "u = of_nat (48 + d)" using digit_cases by blast
  have "parse_dotted_loop (of_nat d) True cs = (Some a, rest)"
    using p dotted_step [OF d(1), of 0 False cs] unfolding parse_dotted_decimal_def cbs d(2)
    by (simp split: if_split_asm)
  from dotted_canonical [OF this] show "cbs = decimal_digits (unat a) @ (if rest = [] then [] else 0x2e # rest)"
    using d cbs by (simp add: unat_of_nat decimal_digits_small)
next
  assume cbs: "cbs = decimal_digits (unat a) @ (if rest = [] then [] else 0x2e # rest)"
  have "unat a < 2 ^ 64" using unsigned_less [of a, where ?'a = nat] by simp
  from dotted_digits [OF this] show "parse_dotted_decimal cbs = (Some a, rest)"
    unfolding parse_dotted_decimal_def cbs by simp
qed

fun dotted :: "nat list \<Rightarrow> u8 list" where
  "dotted [] = []"
| "dotted [n] = decimal_digits n"
| "dotted (n # m # ns) = decimal_digits n @ 0x2e # dotted (m # ns)"

definition oid_octets :: "nat list \<Rightarrow> u8 list" where
  "oid_octets arcs = (case arcs of a # b # ns \<Rightarrow> base128_enc (40 * a + b) @ concat (map base128_enc ns) | _ \<Rightarrow> [])"

definition oid_arcs :: "nat list \<Rightarrow> bool" where
  "oid_arcs arcs = (case arcs of
     a # b # ns \<Rightarrow> a \<le> 2 \<and> (a < 2 \<longrightarrow> b \<le> 39) \<and> b \<le> 2 ^ 64 - 1 - 80 \<and> list_all (\<lambda>n. n < 2 ^ 64) ns
   | _ \<Rightarrow> False)"

lemma dotted_nonempty [simp]: "dotted (n # ns) \<noteq> []"
  by (cases ns) auto

lemma dotted_Cons: "dotted (n # ns) = decimal_digits n @ (if ns = [] then [] else 0x2e # dotted ns)"
  by (cases ns) auto

lemma unat_u64_less: "unat (v :: u64) < 2 ^ 64"
  using unsigned_less [of v, where ?'a = nat] by simp

lemma oid_components_refines:
  "represents s segs \<Longrightarrow> length segs = Suc d \<Longrightarrow> oid_components sys s d cbs = (True, s') \<Longrightarrow>
    \<exists>ns. cbs = dotted ns \<and> list_all (\<lambda>n. n < 2 ^ 64) ns \<and>
      represents s' (add_seg (concat (map base128_enc ns)) segs)"
proof (induction sys s d cbs arbitrary: segs rule: oid_components.induct)
  case (1 sys s d cbs)
  show ?case
  proof (cases "cbs = []")
    case True
    then have "s' = s" using "1.prems"(3) by (simp add: oid_components.simps CBS_len_def)
    moreover have "segs \<noteq> []" using "1.prems"(2) by auto
    ultimately show ?thesis using True "1.prems"(1) by (intro exI [of _ "[]"]) simp
  next
    case False
    then obtain a rest t where p: "parse_dotted_decimal cbs = (Some a, rest)"
      and t: "add_base128_integer sys s d a = (True, t)" and k: "oid_components sys t d rest = (True, s')"
      using "1.prems"(3) by (subst (asm) oid_components.simps)
        (auto simp: CBS_len_def then_do_True split: prod.splits option.splits)
    have r: "represents t (add_seg (base128_enc (unat a)) segs)"
      using put_all_refines [OF "1.prems"(1,2)] t by (simp add: add_base128_integer_eq)
    have ne: "segs \<noteq> []" using "1.prems"(2) by auto
    have len: "CBS_len cbs \<noteq> 0" using False by (simp add: CBS_len_def)
    from "1.IH" [OF len p [symmetric] refl r _ k] ne "1.prems"(2) obtain ns where
      ns: "rest = dotted ns" "list_all (\<lambda>n. n < 2 ^ 64) ns"
      "represents s' (add_seg (concat (map base128_enc ns)) (add_seg (base128_enc (unat a)) segs))" by auto
    have "cbs = dotted (unat a # ns)"
      using p ns(1) unfolding parse_dotted_decimal_Some dotted_Cons by (cases ns) auto
    then show ?thesis using ns unat_u64_less [of a] ne
      by (intro exI [of _ "unat a # ns"]) simp
  qed
qed

lemma first_arcs:
  assumes "\<not> (2 < a \<or> a < 2 \<and> 39 < b \<or> 18446744073709551615 - 80 < (b :: u64))"
  shows "unat (40 * a + b) = 40 * unat a + unat b" "unat a \<le> 2" "unat a < 2 \<Longrightarrow> unat b \<le> 39" 
    "unat b \<le> 2 ^ 64 - 1 - 80"
proof -
  show a: "unat a \<le> 2" "unat a < 2 \<Longrightarrow> unat b \<le> 39" "unat b \<le> 2 ^ 64 - 1 - 80"
    using assms by (auto simp: word_less_nat_alt not_less)
  then have "40 * unat a + unat b < 2 ^ 64" by simp
  moreover have "unat (40 * a) = 40 * unat a" using a(1) by (simp add: unat_word_ariths)
  ultimately show "unat (40 * a + b) = 40 * unat a + unat b" by (simp add: unat_word_ariths)
qed

lemma case_decoder_True:
  "(case r of (None, _) \<Rightarrow> (False, s) | (Some x, c) \<Rightarrow> k x c) = (True, t) \<longleftrightarrow>
    (\<exists>x c. r = (Some x, c) \<and> k x c = (True, t))"
  by (auto split: prod.splits option.splits)

lemma CBB_add_asn1_oid_from_text_refines:
  assumes "represents s segs" "d < length segs" "CBB_add_asn1_oid_from_text sys s d text = (True, s')"
  shows "\<exists>arcs. text = dotted arcs \<and> oid_arcs arcs \<and>
    represents s' (add_seg (oid_octets arcs) (flush_segs d segs)) \<and> closable (drop (Suc d) segs)"
proof -
  from assms(3) obtain t a b rest rest2 u where t: "CBB_flush sys s d = (True, t)"
    and p: "parse_dotted_decimal text = (Some a, rest)" "parse_dotted_decimal rest = (Some b, rest2)"
    and v: "\<not> (2 < a \<or> a < 2 \<and> 39 < b \<or> 18446744073709551615 - 80 < b)"
    and u: "add_base128_integer sys t d (40 * a + b) = (True, u)"
    and k: "oid_components sys u d rest2 = (True, s')"
    unfolding CBB_add_asn1_oid_from_text_def then_do_True case_decoder_True CBS_init_def take_all [OF order.refl]
    by (auto simp: then_do_True split: if_split_asm)
  note f = CBB_flush_refines [OF assms(1,2) t]
  have len: "length (flush_segs d segs) = Suc d" using assms(2) by simp
  then have ne: "flush_segs d segs \<noteq> []" by auto
  have r: "represents u (add_seg (base128_enc (40 * unat a + unat b)) (flush_segs d segs))"
    by (rule put_all_refines [OF conjunct1 [OF f] len])
      (use u in \<open>simp add: add_base128_integer_eq first_arcs(1) [OF v]\<close>)
  from oid_components_refines [OF r _ k] len ne obtain ns where ns: "rest2 = dotted ns" "list_all (\<lambda>n. n < 2 ^ 64) ns"
    "represents s' (add_seg (concat (map base128_enc ns)) (add_seg (base128_enc (40 * unat a + unat b)) (flush_segs d segs)))"
    by auto
  let ?arcs = "unat a # unat b # ns"
  have "rest = dotted (unat b # ns)"
    using p(2) ns(1) unfolding parse_dotted_decimal_Some dotted_Cons by (cases ns) auto
  then have "text = dotted ?arcs"
    using p(1) unfolding parse_dotted_decimal_Some dotted_Cons [of "unat a"] by simp
  moreover have "oid_arcs ?arcs" using first_arcs(2-4) [OF v] ns(2) by (simp add: oid_arcs_def)
  ultimately show ?thesis using ns(3) ne f by (intro exI [of _ ?arcs]) (simp add: oid_octets_def)
qed

section \<open>Object identifiers as text\<close>

text \<open>A growing top-level builder that holds \<open>c\<close>; memory does not run out.\<close>

definition growing :: "cbb_st \<Rightarrow> u8 list \<Rightarrow> bool" where
  "growing s c \<longleftrightarrow> represents s [(LenPrefix 0, c)] \<and> cb_can_resize (cbb_base s) \<and> \<not> cb_error (cbb_base s)"

abbreviation always :: "nat \<Rightarrow> bool" where
  "always \<equiv> (\<lambda>_. True)"

lemma growing_buffer_add:
  assumes "growing s c" "length c + length bs \<le> 2 ^ 62"
  obtains base where "cbb_buffer_add always (cbb_base s) bs = (True, base)" "growing (s\<lparr> cbb_base := base \<rparr>) (c @ bs)"
proof -
  have rep: "represents s [(LenPrefix 0, c)]" using assms(1) by (simp add: growing_def)
  then have buf: "cb_buf (cbb_base s) = c" "buffer_ok (cbb_base s)" by (simp_all add: represents_def)
  have "can_hold always (cbb_base s) (cb_len (cbb_base s) + length bs)"
    using assms buf by (simp add: can_hold_def growing_def)
  then obtain base where b: "cbb_buffer_add always (cbb_base s) bs = (True, base)"
    using cbb_buffer_add_ok [OF buf(2)] by blast
  have l: "length bs \<le> SIZE_MAX" using assms(2) by (simp add: SIZE_MAX_def)
  have "growing (s\<lparr> cbb_base := base \<rparr>) (c @ bs)"
    using represents_add [OF rep b l] cbb_buffer_add_True [OF b buf(2) l] assms(1)
    by (simp add: growing_def add_seg_def)
  then show ?thesis using b that by blast
qed

lemma growing_frames: "growing s c \<Longrightarrow> length (cbb_frames s) = Suc 0 \<and> \<not> cb_error (cbb_base s)"
  by (simp add: growing_def represents_def)

lemma growing_add_bytes:
  assumes "growing s c" "length c + length bs \<le> 2 ^ 62"
  shows "\<exists>s'. CBB_add_bytes always s 0 bs = (True, s') \<and> growing s' (c @ bs)"
  using growing_buffer_add [OF assms] growing_frames [OF assms(1)]
  by (metis CBB_add_bytes_def CBB_flush_deepest on_base_True then_do_simps(1))

lemma growing_add_u8:
  assumes "growing s c" "length c < 2 ^ 62"
  shows "\<exists>s'. CBB_add_u8 always s 0 b = (True, s') \<and> growing s' (c @ [b])"
proof -
  have "length c + length [b] \<le> 2 ^ 62" using assms(2) by simp
  from growing_buffer_add [OF assms(1) this] growing_frames [OF assms(1)] show ?thesis
    by (metis CBB_add_u8_deepest on_base_True)
qed

lemma growing_init: "\<exists>s. CBB_init always 32 = (True, s) \<and> growing s []"
proof -
  have m: "OPENSSL_malloc always 32"
    by (simp add: OPENSSL_malloc_def OPENSSL_MALLOC_PREFIX_def size_t_def)
  then obtain s where s: "CBB_init always 32 = (True, s)"
    by (simp add: CBB_init_def cbb_init_def sizeof_cbb_buffer_st_def)
  then show ?thesis using CBB_init_represents [OF s] by (simp add: growing_def SIZE_MAX_def)
qed

lemma growing_finish:
  assumes "growing s c"
  shows "fst (CBB_finish always s 0 True) = Some c"
proof -
  have "CBB_flush always s 0 = (True, s)" using growing_frames [OF assms] by (simp add: CBB_flush_deepest)
  then show ?thesis using assms by (simp add: CBB_finish_def growing_def represents_def)
qed

lemma oid_text_components_growing:
  "growing s c \<Longrightarrow> list_all (\<lambda>n. n < 2 ^ 64) ns \<Longrightarrow>
    length c + length (concat (map (\<lambda>n. 0x2e # decimal_digits n) ns)) \<le> 2 ^ 62 \<Longrightarrow>
    \<exists>s'. oid_text_components always s (concat (map base128_enc ns)) = (True, s') \<and>
      growing s' (c @ concat (map (\<lambda>n. 0x2e # decimal_digits n) ns))"
proof (induction ns arbitrary: s c)
  case Nil
  then show ?case by (subst oid_text_components.simps) (simp add: CBS_len_def)
next
  case (Cons n ns)
  have n: "unat (of_nat n :: u64) = n" using Cons.prems(2) by (simp add: unat_of_nat)
  have p: "parse_base128_integer (concat (map base128_enc (n # ns))) = (Some (of_nat n), concat (map base128_enc ns))"
    unfolding base128_codec.dec_Some_iff using n by simp
  have "length c < 2 ^ 62" using Cons.prems(3) by simp
  from growing_add_u8 [OF Cons.prems(1) this, of "0x2e"] obtain t where
    t: "CBB_add_u8 always s 0 0x2e = (True, t)" "growing t (c @ [0x2e])" by auto
  have "length (c @ [0x2e]) + length (decimal_digits n) \<le> 2 ^ 62" using Cons.prems(3) by simp
  from growing_add_bytes [OF t(2) this] obtain u where
    u: "CBB_add_bytes always t 0 (decimal_digits n) = (True, u)" "growing u (c @ 0x2e # decimal_digits n)" by auto
  have l: "list_all (\<lambda>n. n < 2 ^ 64) ns"
    "length (c @ 0x2e # decimal_digits n) + length (concat (map (\<lambda>n. 0x2e # decimal_digits n) ns)) \<le> 2 ^ 62"
    using Cons.prems(2,3) by simp_all
  from Cons.IH [OF u(2) l] obtain s' where
    s': "oid_text_components always u (concat (map base128_enc ns)) = (True, s')"
      "growing s' ((c @ 0x2e # decimal_digits n) @ concat (map (\<lambda>n. 0x2e # decimal_digits n) ns))" by blast
  have "oid_text_components always s (concat (map base128_enc (n # ns))) = (True, s')"
    using t u s' p by (subst oid_text_components.simps) (simp add: CBS_len_def add_decimal_def n)
  then show ?case using s'(2) by auto
qed

lemma dotted_concat: "dotted (n # ns) = decimal_digits n @ concat (map (\<lambda>n. 0x2e # decimal_digits n) ns)"
proof (induction ns arbitrary: n)
  case Nil
  then show ?case by simp
next
  case (Cons m ns)
  then show ?case by simp
qed

lemma oid_to_text_dotted:
  assumes "oid_arcs arcs" "length (dotted arcs) < 2 ^ 62"
  shows "CBS_asn1_oid_to_text always (oid_octets arcs) = Some (dotted arcs @ [0])"
proof -
  from assms(1) obtain a b ns where arcs: "arcs = a # b # ns" "a \<le> 2" "a < 2 \<longrightarrow> b \<le> 39" "b \<le> 2 ^ 64 - 1 - 80"
    "list_all (\<lambda>n. n < 2 ^ 64) ns"
    by (auto simp: oid_arcs_def split: list.splits)
  let ?v = "of_nat (40 * a + b) :: u64"
  have v: "unat ?v = 40 * a + b" unfolding unat_of_nat using arcs(2,4) by (intro mod_less) simp
  have p: "parse_base128_integer (oid_octets arcs) = (Some ?v, concat (map base128_enc ns))"
    unfolding base128_codec.dec_Some_iff v using arcs(1) by (simp add: oid_octets_def)
  obtain s0 where s0: "CBB_init always 32 = (True, s0)" "growing s0 []" using growing_init by blast
  have len: "length (decimal_digits a @ 0x2e # decimal_digits b) +
      length (concat (map (\<lambda>n. 0x2e # decimal_digits n) ns)) < 2 ^ 62"
    using assms(2) unfolding arcs(1) dotted_concat by simp
  define first where "first = (if 80 \<le> ?v
      then then_do (CBB_add_bytes always s0 0 [0x32, 0x2e]) (\<lambda>cbb. add_decimal always cbb 0 (?v - 80))
      else then_do (add_decimal always s0 0 (?v div 40)) (\<lambda>cbb.
             then_do (CBB_add_u8 always cbb 0 0x2e) (\<lambda>cbb. add_decimal always cbb 0 (?v mod 40))))"
  have "\<exists>s1. first = (True, s1) \<and> growing s1 (decimal_digits a @ 0x2e # decimal_digits b)"
  proof (cases "a = 2")
    case True
    have d: "decimal_digits a = [0x32]" using True by (simp add: decimal_digits_small)
    have ge: "80 \<le> ?v" unfolding word_le_nat_alt v using True by simp
    have "unat (?v - 80) = (40 * a + b) - unat (80 :: u64)" using unat_sub [OF ge] unfolding v .
    then have sub: "unat (?v - 80) = b" using True by simp
    obtain t where t: "CBB_add_bytes always s0 0 [0x32, 0x2e] = (True, t)" "growing t [0x32, 0x2e]"
      using growing_add_bytes [OF s0(2), of "[0x32, 0x2e]"] by auto
    have "length [0x32 :: u8, 0x2e] + length (decimal_digits b) \<le> 2 ^ 62" using len d by simp
    from growing_add_bytes [OF t(2) this] show ?thesis
      using t(1) ge sub d by (simp add: first_def add_decimal_def)
  next
    case False
    then have a: "a < 2" using arcs(2) by simp
    then have lt: "\<not> 80 \<le> ?v" unfolding word_le_nat_alt v using arcs(3) by auto
    have d: "unat (?v div 40) = a" "unat (?v mod 40) = b"
      using a arcs(3) by (simp_all only: unat_div_distrib unat_mod_distrib v) auto
    have l: "length [] + length (decimal_digits a) \<le> 2 ^ 62" using len by simp
    obtain t where t: "CBB_add_bytes always s0 0 (decimal_digits a) = (True, t)" "growing t (decimal_digits a)"
      using growing_add_bytes [OF s0(2) l] by auto
    have "length (decimal_digits a) < 2 ^ 62" using len by simp
    from growing_add_u8 [OF t(2) this] obtain u where
      u: "CBB_add_u8 always t 0 0x2e = (True, u)" "growing u (decimal_digits a @ [0x2e])" by auto
    have "length (decimal_digits a @ [0x2e]) + length (decimal_digits b) \<le> 2 ^ 62" using len by simp
    from growing_add_bytes [OF u(2) this] show ?thesis
      using t(1) u(1) lt d by (simp add: first_def add_decimal_def)
  qed
  then obtain s1 where s1: "first = (True, s1)" "growing s1 (decimal_digits a @ 0x2e # decimal_digits b)" by blast
  have l1: "length (decimal_digits a @ 0x2e # decimal_digits b) +
      length (concat (map (\<lambda>n. 0x2e # decimal_digits n) ns)) \<le> 2 ^ 62" using len by simp
  from oid_text_components_growing [OF s1(2) arcs(5) l1] obtain s2 where
    s2: "oid_text_components always s1 (concat (map base128_enc ns)) = (True, s2)" "growing s2 (dotted arcs)"
    unfolding arcs(1) dotted_concat by auto
  obtain s3 where s3: "CBB_add_u8 always s2 0 0 = (True, s3)" "growing s3 (dotted arcs @ [0])"
    using growing_add_u8 [OF s2(2) assms(2)] by blast
  show ?thesis
    unfolding CBS_asn1_oid_to_text_def s0(1) p prod.case bool.case option.case first_def [symmetric]
    using s1 s2 s3 growing_finish by simp
qed

end
