(* ===== verification/CbbProgress.thy ===== *)
theory CbbProgress
  imports CbbAsn1
begin

text \<open>
  When the builder succeeds: a chain of open \<open>CBB\<close>s whose buffer can grow accepts every write, as
  long as the children to be closed fit their length prefixes and the buffer stays below two to the
  62. These lemmas turn the refinements of \<open>Cbb\<close> and \<open>CbbAsn1\<close> into statements about results.
\<close>

section \<open>Writing without running out of memory\<close>

definition open_chain :: "cbb_st \<Rightarrow> segment list \<Rightarrow> bool" where
  "open_chain s segs \<longleftrightarrow> represents s segs \<and> cb_can_resize (cbb_base s) \<and> \<not> cb_error (cbb_base s)"

lemma open_chain_hold: "open_chain s segs \<Longrightarrow> n \<le> 2 ^ 62 \<Longrightarrow> can_hold always (cbb_base s) n"
  by (simp add: open_chain_def can_hold_def)

lemma open_chain_flush:
  assumes "open_chain s segs" "d < length segs" "closable (drop (Suc d) segs)"
    "length (layout (flush_segs d segs)) \<le> 2 ^ 62"
  obtains t where "CBB_flush always s d = (True, t)" "open_chain t (flush_segs d segs)"
proof -
  from assms(1) have s: "represents s segs" "\<not> cb_error (cbb_base s)" by (simp_all add: open_chain_def)
  obtain t where t: "CBB_flush always s d = (True, t)"
    using CBB_flush_ok [OF s(1) assms(2) s(2) assms(3) open_chain_hold [OF assms(1,4)]] by blast
  then show ?thesis using that CBB_flush_refines [OF s(1) assms(2) t] assms(1) by (simp add: open_chain_def)
qed

lemma open_chain_buffer_add:
  assumes "open_chain s segs" "length (layout segs) + length bs \<le> 2 ^ 62"
  obtains base where "cbb_buffer_add always (cbb_base s) bs = (True, base)"
    "open_chain (s\<lparr> cbb_base := base \<rparr>) (add_seg bs segs)" "cb_len base = cb_len (cbb_base s) + length bs"
proof -
  have rep: "represents s segs" using assms(1) by (simp add: open_chain_def)
  then have buf: "cb_buf (cbb_base s) = layout segs" "buffer_ok (cbb_base s)" by (simp_all add: represents_def)
  obtain base where b: "cbb_buffer_add always (cbb_base s) bs = (True, base)"
    using cbb_buffer_add_ok [OF buf(2) open_chain_hold [OF assms(1)]] assms(2) buf(1) by metis
  have l: "length bs \<le> SIZE_MAX" using assms(2) by (simp add: SIZE_MAX_def)
  show ?thesis
    using that b represents_add [OF rep b l] cbb_buffer_add_True [OF b buf(2) l] assms(1)
    by (simp add: open_chain_def)
qed

lemma open_chain_add_bytes:
  assumes "open_chain s segs" "d < length segs" "closable (drop (Suc d) segs)"
    "length (layout (flush_segs d segs)) + length bs \<le> 2 ^ 62"
  obtains t where "CBB_add_bytes always s d bs = (True, t)" "open_chain t (add_seg bs (flush_segs d segs))"
proof -
  obtain u where u: "CBB_flush always s d = (True, u)" "open_chain u (flush_segs d segs)"
    using open_chain_flush [OF assms(1-3)] assms(4) by (metis add_leD1)
  obtain base where "cbb_buffer_add always (cbb_base u) bs = (True, base)"
    "open_chain (u\<lparr> cbb_base := base \<rparr>) (add_seg bs (flush_segs d segs))"
    using open_chain_buffer_add [OF u(2) assms(4)] by blast
  then show ?thesis using that u(1) by (simp add: CBB_add_bytes_def on_base_def)
qed

lemma open_chain_last:
  "open_chain s segs \<Longrightarrow> length segs = Suc d \<Longrightarrow> length (cbb_frames s) = Suc d \<and> \<not> cb_error (cbb_base s)"
  by (simp add: open_chain_def represents_def)

lemma open_chain_add_u8:
  assumes "open_chain s segs" "length segs = Suc d" "length (layout segs) < 2 ^ 62"
  obtains t where "CBB_add_u8 always s d b = (True, t)" "open_chain t (add_seg [b] segs)"
    "cb_len (cbb_base t) = Suc (cb_len (cbb_base s))"
proof -
  have "length (layout segs) + length [b] \<le> 2 ^ 62" using assms(3) by simp
  from open_chain_buffer_add [OF assms(1) this] obtain base where
    "cbb_buffer_add always (cbb_base s) [b] = (True, base)"
    "open_chain (s\<lparr> cbb_base := base \<rparr>) (add_seg [b] segs)" "cb_len base = cb_len (cbb_base s) + length [b]" .
  then show ?thesis
    using that [of "s\<lparr> cbb_base := base \<rparr>"] CBB_add_u8_deepest [of s d always b] open_chain_last [OF assms(1,2)]
    by (simp add: on_base_def)
qed

lemma open_chain_put_all:
  "open_chain s segs \<Longrightarrow> length segs = Suc d \<Longrightarrow> length (layout segs) + length bs \<le> 2 ^ 62 \<Longrightarrow>
    \<exists>t. put_all (\<lambda>s. CBB_add_u8 always s d) s bs = (True, t) \<and> open_chain t (add_seg bs segs)"
proof (induction bs arbitrary: s segs)
  case Nil
  then have "segs \<noteq> []" by auto
  then show ?case using Nil by simp
next
  case (Cons b bs)
  have ne: "segs \<noteq> []" using Cons.prems(2) by auto
  have l: "length (layout segs) < 2 ^ 62" using Cons.prems(3) by simp
  obtain t where t: "CBB_add_u8 always s d b = (True, t)" "open_chain t (add_seg [b] segs)"
    using open_chain_add_u8 [OF Cons.prems(1,2) l] by blast
  have "length (layout (add_seg [b] segs)) + length bs \<le> 2 ^ 62"
    using Cons.prems(3) ne by (simp add: layout_add_seg)
  from Cons.IH [OF t(2) _ this] t(1) ne Cons.prems(2) show ?case by simp
qed

lemma open_chain_add_asn1:
  assumes "open_chain s segs" "d < length segs" "closable (drop (Suc d) segs)"
    "length (layout (flush_segs d segs)) + 7 \<le> 2 ^ 62"
  obtains t where "CBB_add_asn1 always s d tag = (True, t)"
    "open_chain t (add_seg (tag_enc tag) (flush_segs d segs) @ [(Asn1Prefix, [])])"
proof -
  let ?n = "tag AND CBS_ASN1_TAG_NUMBER_MASK"
  let ?bits = "ucast (drop_bit CBS_ASN1_TAG_SHIFT tag) AND 0xe0 :: u8"
  have l: "length (layout (flush_segs d segs)) \<le> 2 ^ 62" using assms(4) by simp
  obtain u where u: "CBB_flush always s d = (True, u)" "open_chain u (flush_segs d segs)"
    using open_chain_flush [OF assms(1-3) l] .
  have len: "length (flush_segs d segs) = Suc d" using assms(2) by simp
  then have ne: "flush_segs d segs \<noteq> []" by auto
  have "length (layout (flush_segs d segs)) + length (tag_enc tag) \<le> 2 ^ 62"
    using assms(4) length_tag_enc [of tag] by linarith
  from open_chain_put_all [OF u(2) len this] obtain v where
    v: "put_all (\<lambda>s. CBB_add_u8 always s d) u (tag_enc tag) = (True, v)"
    "open_chain v (add_seg (tag_enc tag) (flush_segs d segs))" by blast
  have lv: "length (add_seg (tag_enc tag) (flush_segs d segs)) = Suc d" using ne len by simp
  have "length (layout (add_seg (tag_enc tag) (flush_segs d segs))) < 2 ^ 62"
    using assms(4) length_tag_enc [of tag] ne by (simp add: layout_add_seg)
  from open_chain_add_u8 [OF v(2) lv this] obtain w where w: "CBB_add_u8 always v d 0 = (True, w)"
    "open_chain w (add_seg [0] (add_seg (tag_enc tag) (flush_segs d segs)))" by metis
  have "(if 0x1f \<le> ?n
         then then_do (CBB_add_u8 always u d (?bits OR 0x1f)) (\<lambda>s. add_base128_integer always s d (ucast ?n))
         else CBB_add_u8 always u d (?bits OR ucast ?n)) = (True, v)"
    using v(1) unfolding tag_bytes add_base128_integer_eq by (auto simp: then_do_True split: if_split_asm)
  then have t: "CBB_add_asn1 always s d tag =
      (True, link_child w d \<lparr> fr_offset = cb_len (cbb_base v), fr_pending_len_len = 1, fr_pending_is_asn1 = True \<rparr>)"
    unfolding CBB_add_asn1_def u(1) then_do_simps Let_def using w(1) by simp
  from CBB_add_asn1_refines [OF _ assms(2) t] assms(1) w(2) show ?thesis
    using that t by (simp add: open_chain_def link_child_def)
qed

lemma open_chain_init: "\<exists>s. CBB_init always 32 = (True, s) \<and> open_chain s [(LenPrefix 0, [])]"
  using growing_init by (simp add: growing_def open_chain_def)

lemma open_chain_finish:
  assumes "open_chain s segs" "closable (tl segs)" "length (close_segs segs) \<le> 2 ^ 62"
  shows "fst (CBB_finish always s 0 True) = Some (close_segs segs)"
proof -
  from assms(1) obtain c r where r: "segs = (LenPrefix 0, c) # r"
    by (auto simp: open_chain_def represents_def segs_ok_def split: list.splits)
  then have len: "0 < length segs" by simp
  have l: "length (layout (flush_segs 0 segs)) \<le> 2 ^ 62" using assms(3) r by (simp add: flush_segs_def)
  from open_chain_flush [OF assms(1) len _ l] assms(2) r obtain t where
    "CBB_flush always s 0 = (True, t)" "open_chain t (flush_segs 0 segs)" by (metis drop_Suc drop_0)
  then show ?thesis using r by (simp add: CBB_finish_def open_chain_def represents_def flush_segs_def)
qed

end
