(* ===== verification/CbbState.thy ===== *)
theory CbbState
  imports CbbProgress
begin

text \<open>
  Every sequence of builder calls, successful or not, as a step relation. The invariant is that
  the buffer stays within its capacity and that, unless an error was recorded or the builder was
  finished, the chain of \<open>CBB\<close>s represents some list of open segments.
\<close>

section \<open>Failure leaves the buffer well-formed\<close>

definition cbb_inv :: "cbb_st \<Rightarrow> bool" where
  "cbb_inv s \<longleftrightarrow> buffer_ok (cbb_base s) \<and>
     (cb_error (cbb_base s) \<or> cbb_frames s = [] \<or> (\<exists>segs. represents s segs))"

text \<open>What no operation changes: whether the buffer may grow, and its capacity if it may not.\<close>

definition same_store :: "cbb_buffer_st \<Rightarrow> cbb_buffer_st \<Rightarrow> bool" where
  "same_store b b' \<longleftrightarrow> cb_can_resize b' = cb_can_resize b \<and> (\<not> cb_can_resize b \<longrightarrow> cb_cap b' = cb_cap b)"

lemma same_store_refl [simp]: "same_store b b"
  by (simp add: same_store_def)

lemma same_store_trans: "same_store a b \<Longrightarrow> same_store b c \<Longrightarrow> same_store a c"
  by (auto simp: same_store_def)

lemma cbb_buffer_reserve_store:
  "buffer_ok base \<Longrightarrow> n \<le> SIZE_MAX \<Longrightarrow> cbb_buffer_reserve sys base n = (ok, base') \<Longrightarrow>
    buffer_ok base' \<and> same_store base base' \<and> (\<not> ok \<longrightarrow> cb_error base')"
proof (cases ok)
  case True
  then show "buffer_ok base \<Longrightarrow> n \<le> SIZE_MAX \<Longrightarrow> cbb_buffer_reserve sys base n = (ok, base') \<Longrightarrow> ?thesis"
    using cbb_buffer_reserve_True [of sys base n base'] by (auto simp: same_store_def)
next
  case False
  assume "buffer_ok base" "cbb_buffer_reserve sys base n = (ok, base')"
  then show ?thesis using False
    by (auto simp: cbb_buffer_reserve_def cbb_fail_def Let_def buffer_ok_def same_store_def
        split: if_split_asm option.split_asm)
qed

lemma cbb_buffer_add_store:
  assumes "buffer_ok base" "length bs \<le> SIZE_MAX" "cbb_buffer_add sys base bs = (ok, base')"
  shows "buffer_ok base' \<and> same_store base base' \<and> (\<not> ok \<longrightarrow> cb_error base')"
proof -
  obtain ok1 b1 where r: "cbb_buffer_reserve sys base (length bs) = (ok1, b1)" by fastforce
  note s = cbb_buffer_reserve_store [OF assms(1,2) r]
  show ?thesis
  proof (cases ok1)
    case True
    then have "cbb_buffer_add sys base bs = (True, b1\<lparr> cb_buf := cb_buf b1 @ bs \<rparr>)"
      using r by (simp add: cbb_buffer_add_def)
    then show ?thesis using assms cbb_buffer_add_True [OF _ assms(1,2)] s
      by (fastforce simp: same_store_def)
  next
    case False
    then show ?thesis using r s assms(3) by (simp add: cbb_buffer_add_def)
  qed
qed

lemma cbb_buffer_add_u_store:
  assumes "buffer_ok base" "n \<le> SIZE_MAX" "cbb_buffer_add_u sys base v n = (ok, base')"
  shows "buffer_ok base' \<and> same_store base base' \<and> (\<not> ok \<longrightarrow> cb_error base')"
proof (cases "n = 0")
  case True
  then show ?thesis using assms by (simp add: cbb_buffer_add_u_def)
next
  case False
  obtain ok1 b1 where a: "cbb_buffer_add sys base (be_bytes n (unat v)) = (ok1, b1)" by fastforce
  have "length (be_bytes n (unat v)) \<le> SIZE_MAX" using assms(2) by simp
  note s = cbb_buffer_add_store [OF assms(1) this a]
  show ?thesis using assms(3) False a s
    by (cases ok1) (auto simp: cbb_buffer_add_u_def add_u_bytes cbb_fail_def buffer_ok_def same_store_def
        split: if_split_asm)
qed

lemma store_len_length: "length (fst (store_len buf off n len)) = length buf"
  by (induction buf off n len rule: store_len.induct) auto

lemma write_pending_asn1_store:
  assumes p: "write_pending_asn1 sys base (frame_at (length P) Asn1Prefix) (length X) = (ok, base1, child1, l1)"
    and buf: "cb_buf base = P @ 0 # X" and b: "buffer_ok base"
  shows "buffer_ok base1 \<and> same_store base base1"
proof (cases "asn1_len_len (length X)")
  case None
  then show ?thesis using p b by (simp add: write_pending_asn1_def Let_def)
next
  case (Some r)
  obtain m c l where r: "r = (m, c, l)" by (rule prod_cases3)
  with Some have a: "asn1_len_len (length X) = Some (m, c, l)" by simp
  show ?thesis
  proof (cases "m = 1")
    case True
    then have "base1 = base\<lparr> cb_buf := (cb_buf base)[length P := c] \<rparr>"
      using p a by (auto simp: write_pending_asn1_def Let_def frame_at_def)
    then show ?thesis using b by (simp add: buffer_ok_def same_store_def)
  next
    case False
    obtain ok2 base2 where add: "cbb_buffer_add sys base (replicate (m - 1) 0) = (ok2, base2)" by fastforce
    have "m \<le> 5" using a by (simp add: asn1_len_len_def split: if_split_asm)
    then have e: "length (replicate (m - 1) (0::u8)) \<le> SIZE_MAX" by (simp add: SIZE_MAX_def)
    note s = cbb_buffer_add_store [OF b e add]
    show ?thesis
    proof (cases ok2)
      case False
      then show ?thesis using p a \<open>m \<noteq> 1\<close> add s by (simp add: write_pending_asn1_def Let_def)
    next
      case True
      with add have add': "cbb_buffer_add sys base (replicate (m - 1) 0) = (True, base2)" by simp
      have "l = length X" using asn1_len_len_Some [OF a] \<open>m \<noteq> 1\<close> by simp
      moreover have "cb_buf base2 = P @ 0 # X @ replicate (m - 1) 0"
        using cbb_buffer_add_True [OF add' b e] buf by simp
      ultimately have "length (OPENSSL_memmove (cb_buf base2) (length P + 1 + (m - 1)) (length P + 1) l) = cb_len base2"
        by (simp add: OPENSSL_memmove_def)
      moreover have "base1 = base2\<lparr> cb_buf := (OPENSSL_memmove (cb_buf base2) (length P + 1 + (m - 1)) (length P + 1) l)[length P := c] \<rparr>"
        using p a \<open>m \<noteq> 1\<close> add True by (auto simp: write_pending_asn1_def Let_def frame_at_def)
      ultimately show ?thesis using s by (simp add: buffer_ok_def same_store_def)
    qed
  qed
qed

lemma write_pending_store:
  assumes w: "write_pending sys base (frame_at (length P) k) = (ok, base')"
    and buf: "cb_buf base = P @ replicate (pending_len k) 0 @ X" and b: "buffer_ok base"
  shows "buffer_ok base' \<and> same_store base base'"
proof -
  let ?f = "frame_at (length P) k"
  have len: "cb_len base - (fr_offset ?f + fr_pending_len_len ?f) = length X"
    using buf by (simp add: frame_at_def)
  have stored: "buffer_ok (base1\<lparr> cb_buf := buf' \<rparr>) \<and> same_store base1 (base1\<lparr> cb_buf := buf' \<rparr>)"
    if "buffer_ok base1" "store_len (cb_buf base1) off n l = (buf', l')" for base1 off n l buf' l'
  proof -
    have "length buf' = cb_len base1" using store_len_length [of "cb_buf base1" off n l] that(2) by simp
    then show ?thesis using that(1) by (simp add: buffer_ok_def same_store_def)
  qed
  show ?thesis
  proof (cases "k = Asn1Prefix")
    case False
    obtain buf' l' where st: "store_len (cb_buf base) (length P) (pending_len k) (length X) = (buf', l')" by fastforce
    then have "base' = base\<lparr> cb_buf := buf' \<rparr>"
      using w False unfolding write_pending_def len Let_def by (simp add: frame_at_def)
    then show ?thesis using stored [OF b st] by simp
  next
    case True
    obtain ok1 base1 child1 l1 where p: "write_pending_asn1 sys base ?f (length X) = (ok1, base1, child1, l1)"
      using prod_cases4 by blast
    have b1: "buffer_ok base1 \<and> same_store base base1"
      using write_pending_asn1_store [OF p [unfolded True] _ b] buf True by simp
    obtain buf' l' where st: "store_len (cb_buf base1) (fr_offset child1) (fr_pending_len_len child1) l1 = (buf', l')"
      by fastforce
    have "base' = base1 \<or> base' = base1\<lparr> cb_buf := buf' \<rparr>"
      using w True st unfolding write_pending_def len Let_def p
      by (cases ok1) (auto simp: frame_at_def)
    then show ?thesis using b1 stored [OF conjunct1 [OF b1] st] same_store_trans by blast
  qed
qed

lemma CBB_flush_store:
  assumes "represents s segs" "d < length segs" "CBB_flush sys s d = (ok, s')"
  shows "buffer_ok (cbb_base s') \<and> same_store (cbb_base s) (cbb_base s') \<and> (\<not> ok \<longrightarrow> cb_error (cbb_base s'))"
  using assms
proof (induction "length segs - d" arbitrary: d ok s')
  case 0
  then show ?case by simp
next
  case (Suc n)
  have rep: "cbb_frames s = frames_of 0 segs" "segs_ok segs" "buffer_ok (cbb_base s)"
    using Suc.prems(1) by (auto simp: represents_def)
  show ?case
  proof (cases "cb_error (cbb_base s) \<or> length segs \<le> Suc d")
    case True
    then show ?thesis using Suc.prems rep CBB_flush_error [of s sys d] CBB_flush_deepest [of s d sys]
      by (cases "cb_error (cbb_base s)") auto
  next
    case False
    then have d1: "Suc d < length segs" and noerr: "\<not> cb_error (cbb_base s)" by auto
    let ?child = "cbb_frames s ! Suc d"
    obtain k X where k: "flush_segs (Suc d) segs = take (Suc d) segs @ [(k, X)]"
      "X = snd (segs ! Suc d) @ close_segs (drop (Suc (Suc d)) segs)" "k = fst (segs ! Suc d)"
      "layout (flush_segs d segs) = layout (take (Suc d) segs) @ prefix_bytes k (length X) @ X"
      by (rule flush_segs_Suc [OF d1])
    let ?P = "layout (take (Suc d) segs)"
    have child: "?child = frame_at (length ?P) k" using frames_of_nth [OF d1, of 0] by (simp add: rep(1) k(3))
    have pend: "0 < pending_len k" using segs_ok_pending [OF rep(2)] d1 k(3) by simp
    obtain ok1 s1 where f: "CBB_flush sys s (Suc d) = (ok1, s1)" by fastforce
    have "n = length segs - Suc d" using Suc.hyps(2) by simp
    note ih = Suc.hyps(1) [OF this Suc.prems(1) d1 f]
    show ?thesis
    proof (cases ok1)
      case False
      then have "s' = s1\<lparr> cbb_base := (cbb_base s1)\<lparr> cb_error := True \<rparr> \<rparr> \<and> \<not> ok"
        using Suc.prems(3) noerr d1 pend f rep child
        by (subst (asm) CBB_flush.simps) (auto simp: Let_def frame_at_def)
      then show ?thesis using ih by (simp add: buffer_ok_def same_store_def)
    next
      case True
      with f have f1: "CBB_flush sys s (Suc d) = (True, s1)" by simp
      note r = CBB_flush_refines [OF Suc.prems(1) d1 f1]
      then have b1: "cb_buf (cbb_base s1) = ?P @ replicate (pending_len k) 0 @ X" "buffer_ok (cbb_base s1)"
        unfolding represents_def k(1) by (simp_all add: layout_append)
      obtain ok2 base where w: "write_pending sys (cbb_base s1) (frame_at (length ?P) k) = (ok2, base)" by fastforce
      note ws = write_pending_store [OF w b1]
      have "ok \<and> s' = s1\<lparr> cbb_base := base, cbb_frames := take (Suc d) (cbb_frames s1) \<rparr> \<or>
          \<not> ok \<and> (s' = s1\<lparr> cbb_base := (cbb_base s1)\<lparr> cb_error := True \<rparr> \<rparr> \<or>
            s' = s1\<lparr> cbb_base := base\<lparr> cb_error := True \<rparr> \<rparr>)"
        using Suc.prems(3) noerr d1 pend f1 rep child w
        by (subst (asm) CBB_flush.simps) (auto simp: Let_def frame_at_def split: if_split_asm bool.splits)
      then show ?thesis using ws ih b1(2) by (auto simp: buffer_ok_def same_store_def)
    qed
  qed
qed

lemma CBB_flush_inv:
  assumes "cbb_inv s" "CBB_flush sys s d = (ok, s')"
  shows "cbb_inv s' \<and> same_store (cbb_base s) (cbb_base s') \<and>
    (ok \<longrightarrow> (\<exists>segs. d < length segs \<and> represents s segs \<and> represents s' (flush_segs d segs)) \<and> \<not> cb_error (cbb_base s'))"
proof (cases "cb_error (cbb_base s) \<or> length (cbb_frames s) \<le> d")
  case True
  then show ?thesis using assms CBB_flush_error [of s sys d] CBB_flush_dead [of s d sys] by auto
next
  case False
  then obtain segs where r: "represents s segs" "d < length segs"
    using assms(1) by (auto simp: cbb_inv_def represents_def)
  show ?thesis
  proof (cases ok)
    case True
    with assms(2) have f: "CBB_flush sys s d = (True, s')" by simp
    show ?thesis using CBB_flush_refines [OF r f] CBB_flush_store [OF r assms(2)] r True
      by (auto simp: cbb_inv_def)
  next
    case False
    then show ?thesis using CBB_flush_store [OF r assms(2)] by (auto simp: cbb_inv_def)
  qed
qed

section \<open>Steps\<close>

text \<open>
  A step is one call, successful or not, on any \<open>CBB\<close> of the chain. Each call has its own allocator \<open>sys\<close>, so memory may
  come and go between calls. The bounds are the argument types' (\<open>size_t\<close> lengths) and the calls' own assertions; a
  call that dereferences the base of a \<open>CBB\<close> not in the chain is not a step.
\<close>

inductive cbb_step :: "cbb_st \<Rightarrow> cbb_st \<Rightarrow> bool" where
  flush: "CBB_flush sys s d = (ok, s') \<Longrightarrow> cbb_step s s'"
| add_bytes: "length bs \<le> SIZE_MAX \<Longrightarrow> CBB_add_bytes sys s d bs = (ok, s') \<Longrightarrow> cbb_step s s'"
| add_u: "n \<le> 8 \<Longrightarrow> cbb_add_u sys s d v n = (ok, s') \<Longrightarrow> cbb_step s s'"
| add_length_prefixed: "0 < n \<Longrightarrow> n \<le> 3 \<Longrightarrow> cbb_add_length_prefixed sys s d n = (ok, s') \<Longrightarrow> cbb_step s s'"
| add_asn1: "CBB_add_asn1 sys s d tag = (ok, s') \<Longrightarrow> cbb_step s s'"
| reserve: "n \<le> SIZE_MAX \<Longrightarrow> CBB_reserve sys s d n = (ok, s') \<Longrightarrow> cbb_step s s'"
| did_write: "d < length (cbb_frames s) \<Longrightarrow> length bs \<le> SIZE_MAX \<Longrightarrow> CBB_did_write s d bs = (ok, s') \<Longrightarrow> cbb_step s s'"
| discard_child: "d < length (cbb_frames s) \<Longrightarrow> cbb_step s (CBB_discard_child s d)"
| flush_asn1_set_of: "CBB_flush_asn1_set_of sys s d = (ok, s') \<Longrightarrow> cbb_step s s'"
| add_asn1_uint64: "CBB_add_asn1_uint64 sys s d v = (ok, s') \<Longrightarrow> cbb_step s s'"
| add_asn1_int64: "CBB_add_asn1_int64 sys s d v = (ok, s') \<Longrightarrow> cbb_step s s'"
| add_asn1_octet_string:
    "length bs \<le> SIZE_MAX \<Longrightarrow> CBB_add_asn1_octet_string sys s d bs = (ok, s') \<Longrightarrow> cbb_step s s'"
| add_asn1_bool: "CBB_add_asn1_bool sys s d b = (ok, s') \<Longrightarrow> cbb_step s s'"
| add_asn1_oid_from_text: "CBB_add_asn1_oid_from_text sys s d text = (ok, s') \<Longrightarrow> cbb_step s s'"
| finish: "CBB_finish sys s d w = (r, s') \<Longrightarrow> cbb_step s s'"
| cleanup: "cbb_step s (CBB_cleanup s 0)"

inductive_cases cbb_stepE: "cbb_step s s'"

lemma buffer_op_inv:
  assumes "cbb_inv s" 
    and op: "\<And>base ok base'. buffer_ok base \<Longrightarrow> f base = (ok, base') \<Longrightarrow>
      buffer_ok base' \<and> same_store base base' \<and> (\<not> ok \<longrightarrow> cb_error base')"
    and rep: "\<And>t segs base. represents t segs \<Longrightarrow> f (cbb_base t) = (True, base) \<Longrightarrow>
      \<exists>segs'. represents (t\<lparr> cbb_base := base \<rparr>) segs'"
    and r: "then_do (CBB_flush sys s d) (on_base f) = (ok, s')"
  shows "cbb_inv s' \<and> same_store (cbb_base s) (cbb_base s')"
proof -
  obtain ok1 t where t: "CBB_flush sys s d = (ok1, t)" by fastforce
  note fl = CBB_flush_inv [OF assms(1) t]
  show ?thesis
  proof (cases ok1)
    case False
    then show ?thesis using r t fl by simp
  next
    case True
    obtain ok2 base where b: "f (cbb_base t) = (ok2, base)" by fastforce
    have s': "s' = t\<lparr> cbb_base := base \<rparr>" using r t True b by (simp add: on_base_def)
    have ok: "buffer_ok (cbb_base t)" using fl by (simp add: cbb_inv_def)
    from fl True obtain segs where "represents t segs" by blast
    then have "ok2 \<Longrightarrow> \<exists>segs'. represents s' segs'" using rep [of t _ base] b s' by auto
    then show ?thesis using op [OF ok b] fl s' same_store_trans by (auto simp: cbb_inv_def)
  qed
qed

lemma add_bytes_inv:
  assumes "cbb_inv s" "length bs \<le> SIZE_MAX" "CBB_add_bytes sys s d bs = (ok, s')"
  shows "cbb_inv s' \<and> same_store (cbb_base s) (cbb_base s')"
proof (rule buffer_op_inv [OF assms(1) _ _ assms(3) [unfolded CBB_add_bytes_def]])
  fix base ok base'
  assume "buffer_ok base" "cbb_buffer_add sys base bs = (ok, base')"
  then show "buffer_ok base' \<and> same_store base base' \<and> (\<not> ok \<longrightarrow> cb_error base')"
    using cbb_buffer_add_store assms(2) by blast
next
  fix t segs base
  assume "represents t segs" "cbb_buffer_add sys (cbb_base t) bs = (True, base)"
  then show "\<exists>segs'. represents (t\<lparr>cbb_base := base\<rparr>) segs'" using represents_add assms(2) by blast
qed

lemma add_u_inv:
  assumes "cbb_inv s" "n \<le> 8" "cbb_add_u sys s d v n = (ok, s')"
  shows "cbb_inv s' \<and> same_store (cbb_base s) (cbb_base s')"
proof (rule buffer_op_inv [OF assms(1) _ _ assms(3) [unfolded cbb_add_u_def]])
  have n: "n \<le> SIZE_MAX" using assms(2) by (simp add: SIZE_MAX_def)
  fix base ok base'
  assume "buffer_ok base" "cbb_buffer_add_u sys base v n = (ok, base')"
  then show "buffer_ok base' \<and> same_store base base' \<and> (\<not> ok \<longrightarrow> cb_error base')"
    using cbb_buffer_add_u_store n by blast
next
  have n: "n \<le> SIZE_MAX" using assms(2) by (simp add: SIZE_MAX_def)
  fix t segs base
  assume t: "represents t segs" "cbb_buffer_add_u sys (cbb_base t) v n = (True, base)"
  show "\<exists>segs'. represents (t\<lparr>cbb_base := base\<rparr>) segs'"
  proof (cases "n = 0")
    case True
    then show ?thesis using t by (auto simp: cbb_buffer_add_u_def)
  next
    case False
    have "buffer_ok (cbb_base t)" using t(1) by (simp add: represents_def)
    from cbb_buffer_add_u_True [OF t(2) this] False assms(2)
    have "cbb_buffer_add sys (cbb_base t) (be_bytes n (unat v)) = (True, base)" by simp
    then show ?thesis using represents_add [OF t(1)] n by fastforce
  qed
qed

lemma reserve_inv:
  assumes "cbb_inv s" "n \<le> SIZE_MAX" "CBB_reserve sys s d n = (ok, s')"
  shows "cbb_inv s' \<and> same_store (cbb_base s) (cbb_base s')"
proof (rule buffer_op_inv [OF assms(1) _ _ assms(3) [unfolded CBB_reserve_def]])
  fix base ok base'
  assume "buffer_ok base" "cbb_buffer_reserve sys base n = (ok, base')"
  then show "buffer_ok base' \<and> same_store base base' \<and> (\<not> ok \<longrightarrow> cb_error base')"
    using cbb_buffer_reserve_store assms(2) by blast
next
  fix t segs base
  assume t: "represents t segs" "cbb_buffer_reserve sys (cbb_base t) n = (True, base)"
  then have "buffer_ok (cbb_base t)" by (simp add: represents_def)
  from cbb_buffer_reserve_True [OF t(2) this assms(2)] t(1)
  show "\<exists>segs'. represents (t\<lparr>cbb_base := base\<rparr>) segs'" by (auto simp: represents_def)
qed

lemma add_length_prefixed_inv:
  assumes "cbb_inv s" "0 < n" "n \<le> 3" "cbb_add_length_prefixed sys s d n = (ok, s')"
  shows "cbb_inv s' \<and> same_store (cbb_base s) (cbb_base s')"
proof -
  have n: "length (replicate n (0::u8)) \<le> SIZE_MAX" "n \<le> SIZE_MAX" using assms(3) by (simp_all add: SIZE_MAX_def)
  obtain ok1 t where t: "CBB_add_bytes sys s d (replicate n 0) = (ok1, t)" by fastforce
  note a = add_bytes_inv [OF assms(1) n(1) t]
  have "ok = ok1" and s': "\<not> ok \<Longrightarrow> s' = t" "cbb_base s' = cbb_base t"
    using assms(4) t by (auto simp: cbb_add_length_prefixed_def CBB_add_bytes_def then_do_def Let_def link_child_def
        split: prod.splits if_split_asm)
  show ?thesis
  proof (cases ok)
    case False
    then show ?thesis using a s'(1) by simp
  next
    case True
    with assms(4) have l: "cbb_add_length_prefixed sys s d n = (True, s')" by simp
    then obtain u where "CBB_flush sys s d = (True, u)" by (auto simp: cbb_add_length_prefixed_def then_do_True)
    then obtain segs where "d < length segs" "represents s segs"
      using CBB_flush_inv [OF assms(1)] by blast
    from cbb_add_length_prefixed_refines [OF this(2,1) assms(2) n(2) l] show ?thesis
      using a s'(2) by (auto simp: cbb_inv_def)
  qed
qed

lemma add_u8_inv:
  "cbb_inv s \<Longrightarrow> CBB_add_u8 sys s d b = (ok, s') \<Longrightarrow> cbb_inv s' \<and> same_store (cbb_base s) (cbb_base s')"
  using add_u_inv [of s 1 sys d "ucast b" ok s'] by (simp add: CBB_add_u8_def)

lemma put_all_inv:
  "cbb_inv s \<Longrightarrow> put_all (\<lambda>s. CBB_add_u8 sys s d) s bs = (ok, s') \<Longrightarrow>
    cbb_inv s' \<and> same_store (cbb_base s) (cbb_base s')"
proof (induction bs arbitrary: s)
  case Nil
  then show ?case by simp
next
  case (Cons b bs)
  obtain ok1 t where t: "CBB_add_u8 sys s d b = (ok1, t)" by fastforce
  note a = add_u8_inv [OF Cons.prems(1) t]
  show ?case
  proof (cases ok1)
    case False
    then show ?thesis using Cons.prems(2) t a by simp
  next
    case True
    then have "put_all (\<lambda>s. CBB_add_u8 sys s d) t bs = (ok, s')" using Cons.prems(2) t by simp
    then show ?thesis using Cons.IH [of t] a same_store_trans by blast
  qed
qed

lemma add_asn1_inv:
  assumes "cbb_inv s" "CBB_add_asn1 sys s d tag = (ok, s')"
  shows "cbb_inv s' \<and> same_store (cbb_base s) (cbb_base s')"
proof -
  let ?n = "tag AND CBS_ASN1_TAG_NUMBER_MASK"
  let ?bits = "ucast (drop_bit CBS_ASN1_TAG_SHIFT tag) AND 0xe0 :: u8"
  have header: "(if 0x1f \<le> ?n
             then then_do (CBB_add_u8 sys t d (?bits OR 0x1f)) (\<lambda>s.
                    add_base128_integer sys s d (ucast ?n))
             else CBB_add_u8 sys t d (?bits OR ucast ?n)) = put_all (\<lambda>s. CBB_add_u8 sys s d) t (tag_enc tag)" for t
    unfolding tag_bytes add_base128_integer_eq by (simp add: then_do_def split: prod.splits)
  obtain ok1 t where t: "CBB_flush sys s d = (ok1, t)" by fastforce
  obtain ok2 u where u: "put_all (\<lambda>s. CBB_add_u8 sys s d) t (tag_enc tag) = (ok2, u)" by fastforce
  obtain ok3 v where v: "CBB_add_u8 sys u d 0 = (ok3, v)" by fastforce
  have s': "(ok, s') = (if \<not> ok1 then (False, t) else if \<not> ok2 then (False, u) else if \<not> ok3 then (False, v)
      else (True, link_child v d \<lparr> fr_offset = cb_len (cbb_base u), fr_pending_len_len = 1, fr_pending_is_asn1 = True \<rparr>))"
    using assms(2) unfolding CBB_add_asn1_def Let_def header t
    by (simp add: then_do_def u v split: if_split_asm)
  note it = CBB_flush_inv [OF assms(1) t]
  then have iu: "cbb_inv u \<and> same_store (cbb_base s) (cbb_base u)" using put_all_inv [OF _ u] same_store_trans by blast
  then have iv: "cbb_inv v \<and> same_store (cbb_base s) (cbb_base v)" using add_u8_inv [OF _ v] same_store_trans by blast
  show ?thesis
  proof (cases ok)
    case False
    then show ?thesis using s' it iu iv by (auto split: if_split_asm)
  next
    case True
    then obtain segs where "d < length segs" "represents s segs" using it s' by (auto split: if_split_asm)
    from CBB_add_asn1_refines [OF this(2,1)] assms(2) True have "\<exists>segs. represents s' segs" by auto
    moreover have "cbb_base s' = cbb_base v" using s' True by (auto simp: link_child_def split: if_split_asm)
    ultimately show ?thesis using iv by (auto simp: cbb_inv_def)
  qed
qed

lemma did_write_inv:
  assumes "cbb_inv s" "d < length (cbb_frames s)" "length bs \<le> SIZE_MAX" "CBB_did_write s d bs = (ok, s')"
  shows "cbb_inv s' \<and> same_store (cbb_base s) (cbb_base s')"
proof (cases ok)
  case False
  then show ?thesis using assms by (auto simp: CBB_did_write_def Let_def split: if_split_asm)
next
  case True
  with assms(4) have w: "CBB_did_write s d bs = (True, s')" by simp
  have len: "length (cbb_frames s) = Suc d" 
    using w assms(2) by (auto simp: CBB_did_write_def Let_def split: if_split_asm)
  have b: "buffer_ok (cbb_base s)" using assms(1) by (simp add: cbb_inv_def)
  then have "cb_len (cbb_base s) \<le> SIZE_MAX" by (simp add: buffer_ok_def)
  from size_t_add_overflow [OF this assms(3)] w have
    s': "s' = s\<lparr> cbb_base := (cbb_base s)\<lparr> cb_buf := cb_buf (cbb_base s) @ bs \<rparr> \<rparr>"
    "cb_len (cbb_base s) + length bs \<le> cb_cap (cbb_base s)"
    using b by (auto simp: CBB_did_write_def Let_def buffer_ok_def split: if_split_asm)
  then have st: "buffer_ok (cbb_base s') \<and> same_store (cbb_base s) (cbb_base s')"
    using b by (simp add: buffer_ok_def same_store_def)
  moreover have "cb_error (cbb_base s') \<or> (\<exists>segs. represents s' segs)"
    using assms(1) len CBB_did_write_refines [OF _ _ assms(3) w] s'(1) represents_length
    by (fastforce simp: cbb_inv_def)
  ultimately show ?thesis by (auto simp: cbb_inv_def)
qed

lemma discard_child_inv:
  assumes "cbb_inv s" "d < length (cbb_frames s)"
  shows "cbb_inv (CBB_discard_child s d) \<and> same_store (cbb_base s) (cbb_base (CBB_discard_child s d))"
proof -
  have "buffer_ok (cbb_base (CBB_discard_child s d)) \<and> same_store (cbb_base s) (cbb_base (CBB_discard_child s d)) \<and>
      cb_error (cbb_base (CBB_discard_child s d)) = cb_error (cbb_base s)"
    using assms(1) by (auto simp: CBB_discard_child_def Let_def cbb_inv_def buffer_ok_def same_store_def)
  then show ?thesis using assms CBB_discard_child_refines [of s _ d] represents_length
    by (fastforce simp: cbb_inv_def)
qed

lemma finish_inv:
  assumes "cbb_inv s" "CBB_finish sys s d w = (r, s')"
  shows "cbb_inv s' \<and> same_store (cbb_base s) (cbb_base s')"
proof (cases "d = 0")
  case False
  then show ?thesis using assms by (simp add: CBB_finish_def)
next
  case True
  obtain ok t where t: "CBB_flush sys s 0 = (ok, t)" by fastforce
  note f = CBB_flush_inv [OF assms(1) t]
  have "s' = t \<or> s' = CBB_cleanup t 0" using assms(2) True t
    by (cases ok) (auto simp: CBB_finish_def split: if_split_asm)
  then show ?thesis using f by (auto simp: CBB_cleanup_def cbb_inv_def)
qed

text \<open>Calls composed of others.\<close>

definition keeps_inv :: "(cbb_st \<Rightarrow> bool \<times> cbb_st) \<Rightarrow> bool" where
  "keeps_inv f \<longleftrightarrow> (\<forall>s ok s'. cbb_inv s \<longrightarrow> f s = (ok, s') \<longrightarrow> cbb_inv s' \<and> same_store (cbb_base s) (cbb_base s'))"

lemma keeps_invI:
  "(\<And>s ok s'. cbb_inv s \<Longrightarrow> f s = (ok, s') \<Longrightarrow> cbb_inv s' \<and> same_store (cbb_base s) (cbb_base s')) \<Longrightarrow> keeps_inv f"
  by (simp add: keeps_inv_def)

lemma keeps_invD:
  "keeps_inv f \<Longrightarrow> f s = (ok, s') \<Longrightarrow> cbb_inv s \<Longrightarrow> cbb_inv s' \<and> same_store (cbb_base s) (cbb_base s')"
  by (simp add: keeps_inv_def)

lemma keeps_return: "keeps_inv (Pair ok)"
  by (simp add: keeps_inv_def)

lemma keeps_then_do:
  assumes "keeps_inv f" "keeps_inv g"
  shows "keeps_inv (\<lambda>s. then_do (f s) g)"
proof (rule keeps_invI)
  fix s ok s'
  assume s: "cbb_inv s" and r: "then_do (f s) g = (ok, s')"
  obtain ok1 t where t: "f s = (ok1, t)" by fastforce
  note i = keeps_invD [OF assms(1) t s]
  show "cbb_inv s' \<and> same_store (cbb_base s) (cbb_base s')"
    using r t i keeps_invD [OF assms(2), of t ok s'] same_store_trans by (cases ok1) auto
qed

lemma keeps_if: "(c \<Longrightarrow> keeps_inv f) \<Longrightarrow> (\<not> c \<Longrightarrow> keeps_inv g) \<Longrightarrow> keeps_inv (\<lambda>s. if c then f s else g s)"
  by (simp add: keeps_inv_def)

lemma keeps_flush: "keeps_inv (\<lambda>s. CBB_flush sys s d)"
  using CBB_flush_inv by (blast intro: keeps_invI)

lemma keeps_add_u8: "keeps_inv (\<lambda>s. CBB_add_u8 sys s d b)"
  using add_u8_inv by (blast intro: keeps_invI)

lemma keeps_add_bytes: "length bs \<le> SIZE_MAX \<Longrightarrow> keeps_inv (\<lambda>s. CBB_add_bytes sys s d bs)"
  using add_bytes_inv by (blast intro: keeps_invI)

lemma keeps_add_asn1: "keeps_inv (\<lambda>s. CBB_add_asn1 sys s d tag)"
  using add_asn1_inv by (blast intro: keeps_invI)

lemma keeps_put_all: "keeps_inv (\<lambda>s. put_all (\<lambda>s. CBB_add_u8 sys s d) s bs)"
  using put_all_inv by (blast intro: keeps_invI)

lemma keeps_uint64_loop: "keeps_inv (\<lambda>s. add_uint64_loop sys s d started bs)"
proof (induction bs arbitrary: started)
  case Nil
  then show ?case using keeps_add_u8 keeps_return by (cases started) auto
next
  case (Cons b bs)
  show ?case unfolding add_uint64_loop.simps
    by (intro keeps_if keeps_then_do Cons.IH keeps_add_u8 keeps_return)
qed

lemma keeps_base128: "keeps_inv (\<lambda>s. add_base128_integer sys s d v)"
  unfolding add_base128_integer_def Let_def by (rule keeps_put_all)

lemma keeps_oid_components: "keeps_inv (\<lambda>s. oid_components sys s d cbs)"
proof (induction "length cbs" arbitrary: cbs rule: less_induct)
  case less
  show ?case
  proof (cases "parse_dotted_decimal cbs")
    case (Pair r rest)
    then have "keeps_inv (\<lambda>s. case parse_dotted_decimal cbs of (None, _) \<Rightarrow> (False, s)
        | (Some a, rest) \<Rightarrow> then_do (add_base128_integer sys s d a) (\<lambda>s. oid_components sys s d rest))"
      using less parse_dotted_decimal_consumes keeps_return
      by (cases r) (auto intro!: keeps_then_do keeps_base128)
    then show ?thesis by (subst oid_components.simps) (intro keeps_if keeps_return)
  qed
qed

lemma keeps_uint64: "keeps_inv (\<lambda>s. CBB_add_asn1_uint64 sys s d v)"
  unfolding CBB_add_asn1_uint64_def by (intro keeps_then_do keeps_add_asn1 keeps_uint64_loop keeps_flush)

lemma keeps_int64: "keeps_inv (\<lambda>s. CBB_add_asn1_int64 sys s d v)"
  unfolding CBB_add_asn1_int64_def Let_def
  by (intro keeps_if keeps_uint64 keeps_then_do keeps_add_asn1 keeps_put_all keeps_flush)

lemma keeps_octet_string: "length bs \<le> SIZE_MAX \<Longrightarrow> keeps_inv (\<lambda>s. CBB_add_asn1_octet_string sys s d bs)"
  unfolding CBB_add_asn1_octet_string_def by (intro keeps_then_do keeps_add_asn1 keeps_add_bytes keeps_flush)

lemma keeps_bool: "keeps_inv (\<lambda>s. CBB_add_asn1_bool sys s d b)"
  unfolding CBB_add_asn1_bool_def by (intro keeps_then_do keeps_add_asn1 keeps_add_u8 keeps_flush)

lemma keeps_oid: "keeps_inv (\<lambda>s. CBB_add_asn1_oid_from_text sys s d text)"
proof -
  let ?in = "CBS_init text (length text)"
  have "keeps_inv (\<lambda>s. case parse_dotted_decimal cbs of (None, _) \<Rightarrow> (False, s)
      | (Some b, cbs) \<Rightarrow> if 2 < a \<or> a < 2 \<and> 39 < b \<or> 18446744073709551615 - 80 < b then (False, s)
          else then_do (add_base128_integer sys s d (40 * a + b)) (\<lambda>s. oid_components sys s d cbs))" for a cbs
    by (cases "parse_dotted_decimal cbs"; cases "fst (parse_dotted_decimal cbs)")
      (auto simp: keeps_return intro!: keeps_if keeps_then_do keeps_base128 keeps_oid_components)
  note second = this
  show ?thesis unfolding CBB_add_asn1_oid_from_text_def
  proof (intro keeps_then_do keeps_flush)
    show "keeps_inv (\<lambda>s. case parse_dotted_decimal ?in of (None, _) \<Rightarrow> (False, s)
      | (Some a, cbs) \<Rightarrow> (case parse_dotted_decimal cbs of (None, _) \<Rightarrow> (False, s)
          | (Some b, cbs) \<Rightarrow> if 2 < a \<or> a < 2 \<and> 39 < b \<or> 18446744073709551615 - 80 < b then (False, s)
              else then_do (add_base128_integer sys s d (40 * a + b)) (\<lambda>s. oid_components sys s d cbs)))"
      using second keeps_return
      by (cases "parse_dotted_decimal ?in"; cases "fst (parse_dotted_decimal ?in)") simp_all
  qed
qed

lemma keeps_add_children:
  "\<forall>e \<in> set es. length e \<le> SIZE_MAX \<Longrightarrow> keeps_inv (\<lambda>s. add_children sys s d es)"
proof (induction es)
  case Nil
  then show ?case using keeps_return by simp
next
  case (Cons e es)
  then show ?case unfolding add_children.simps CBS_data_def by (intro keeps_then_do keeps_add_bytes) auto
qed

text \<open>Rewriting a \<open>SET OF\<close> in place, also when it fails half way.\<close>

lemma set_of_inv:
  assumes "cbb_inv s" "CBB_flush_asn1_set_of sys s d = (ok, s')"
  shows "cbb_inv s' \<and> same_store (cbb_base s) (cbb_base s')"
proof -
  obtain ok1 t where t: "CBB_flush sys s d = (ok1, t)" by fastforce
  note f = CBB_flush_inv [OF assms(1) t]
  show ?thesis
  proof (cases ok1)
    case False
    then show ?thesis using assms(2) t f by (simp add: CBB_flush_asn1_set_of_def)
  next
    case True
    with f obtain segs where segs: "d < length segs" "represents t (flush_segs d segs)" by blast
    from length_flush_segs [OF segs(1)] have l: "length (flush_segs d segs) = Suc d" .
    then obtain A k c where fl: "flush_segs d segs = A @ [(k, c)]" and A: "length A = d"
      by (cases "flush_segs d segs" rule: rev_cases) (auto simp: prod_eq_iff)
    have r: "represents t (A @ [(k, c)])" using segs(2) fl by simp
    note in_frame = innermost_frame [OF r A]
    have rw: "cbb_inv (rewind t d)" using in_frame by (auto simp: cbb_inv_def represents_def)
    have st: "same_store (cbb_base t) (cbb_base (rewind t d))" by (simp add: rewind_def same_store_def)
    from t True have t': "CBB_flush sys s d = (True, t)" by simp
    have "s' = t \<or> (\<exists>es. c = concat es \<and> add_children sys (rewind t d) d (qsort compare_set_of_element es) = (ok, s'))"
      using assms(2) decode_elements [of c] unfolding set_of_unfold [OF t' r A]
      by (auto split: option.split_asm if_split_asm)
    then show ?thesis
    proof (elim disjE exE conjE)
      assume "s' = t"
      then show ?thesis using f by simp
    next
      fix es
      assume c: "c = concat es" and a: "add_children sys (rewind t d) d (qsort compare_set_of_element es) = (ok, s')"
      have "\<forall>e \<in> set (qsort compare_set_of_element es). length e \<le> SIZE_MAX"
        using sorted_elements_fit [OF c] in_frame by simp
      from keeps_invD [OF keeps_add_children [OF this] a rw] f st same_store_trans show ?thesis by blast
    qed
  qed
qed

lemma cleanup_inv: "cbb_inv s \<Longrightarrow> cbb_inv (CBB_cleanup s 0) \<and> same_store (cbb_base s) (cbb_base (CBB_cleanup s 0))"
  by (simp add: CBB_cleanup_def cbb_inv_def)

lemma cbb_step_inv:
  assumes "cbb_step s s'" "cbb_inv s"
  shows "cbb_inv s' \<and> same_store (cbb_base s) (cbb_base s')"
  using assms(1)
proof cases
  case flush
  then show ?thesis using CBB_flush_inv [OF assms(2)] by blast
next
  case add_bytes
  then show ?thesis using add_bytes_inv [OF assms(2)] by blast
next
  case add_u
  then show ?thesis using add_u_inv [OF assms(2)] by blast
next
  case add_length_prefixed
  then show ?thesis using add_length_prefixed_inv [OF assms(2)] by blast
next
  case add_asn1
  then show ?thesis using add_asn1_inv [OF assms(2)] by blast
next
  case reserve
  then show ?thesis using reserve_inv [OF assms(2)] by blast
next
  case did_write
  then show ?thesis using did_write_inv [OF assms(2)] by blast
next
  case discard_child
  then show ?thesis using discard_child_inv [OF assms(2)] by blast
next
  case flush_asn1_set_of
  then show ?thesis using set_of_inv [OF assms(2)] by blast
next
  case add_asn1_uint64
  then show ?thesis using keeps_invD [OF keeps_uint64 _ assms(2)] by blast
next
  case add_asn1_int64
  then show ?thesis using keeps_invD [OF keeps_int64 _ assms(2)] by blast
next
  case add_asn1_octet_string
  then show ?thesis using keeps_invD [OF keeps_octet_string _ assms(2)] by blast
next
  case add_asn1_bool
  then show ?thesis using keeps_invD [OF keeps_bool _ assms(2)] by blast
next
  case add_asn1_oid_from_text
  then show ?thesis using keeps_invD [OF keeps_oid _ assms(2)] by blast
next
  case finish
  then show ?thesis using finish_inv [OF assms(2)] by blast
next
  case cleanup
  then show ?thesis using cleanup_inv [OF assms(2)] by simp
qed

lemma cbb_steps_inv: "cbb_step\<^sup>*\<^sup>* s s' \<Longrightarrow> cbb_inv s \<Longrightarrow> cbb_inv s' \<and> same_store (cbb_base s) (cbb_base s')"
  by (induction rule: rtranclp_induct) (auto dest: cbb_step_inv intro: same_store_trans)

lemma represents_inv: "represents s segs \<Longrightarrow> cbb_inv s"
  by (auto simp: cbb_inv_def represents_def)

lemma CBB_init_inv: "CBB_init sys n = (True, s) \<Longrightarrow> n \<le> SIZE_MAX \<Longrightarrow> cbb_inv s"
  using CBB_init_represents represents_inv by blast

lemma CBB_init_fixed_inv: "CBB_init_fixed sys n = (True, s) \<Longrightarrow> n \<le> SIZE_MAX \<Longrightarrow> cbb_inv s"
  using CBB_init_fixed_represents represents_inv by blast

end
