(* ===== verification/Bytestring.thy ===== *)
theory Bytestring
  imports CbbState
begin

text \<open>
  The properties of the byte string library (\<open>src/crypto/bytestring\<close>): what its reader accepts, what
  its builder produces, and that the two agree.
\<close>

section \<open>Reading\<close>

text \<open>
  C1. The DER element reader is canonical: it accepts an input exactly when the input starts with
  the DER encoding of a tag and contents (identifier octets, shortest length octets, contents), it
  returns that tag and those contents, and it leaves the rest of the input.
\<close>

theorem der_element_canonical:
  "CBS_get_any_asn1 cbs = (Some (contents, tag), rest) \<longleftrightarrow>
     length contents < 2 ^ 32 \<and> cbs = tag_enc tag @ der_length (length contents) @ contents @ rest"
  by (simp add: any_asn1 der_enc_def)

text \<open>
  \<open>CBS_get_asn1\<close> with an expected tag succeeds exactly on the element with that tag; on a
  well-formed element with another tag it fails after having consumed the element, and
  \<open>CBS_peek_asn1_tag\<close> looks at the identifier octets only.
\<close>

lemma get_asn1_expected_tag:
  "(CBS_get_asn1 cbs tag = (Some contents, rest) \<longleftrightarrow> CBS_get_any_asn1 cbs = (Some (contents, tag), rest)) \<and>
   (CBS_get_any_asn1 cbs = (Some (contents, tag'), rest) \<longrightarrow> tag' \<noteq> tag \<longrightarrow> CBS_get_asn1 cbs tag = (None, rest)) \<and>
   (CBS_peek_asn1_tag cbs tag \<longleftrightarrow> (\<exists>s. parse_asn1_tag cbs = (Some tag, s)))"
  by (auto simp: any_asn1 get_asn1 get_asn1_mismatch peek_asn1_tag tag_codec.dec_Some_iff)

lemma get_asn1_expected_tag_witness:
  "CBS_get_asn1 [0x04, 0x01, 0xaa, 0x05] 2 = (None, [0x05])"
  using get_asn1_expected_tag [of "[0x04, 0x01, 0xaa, 0x05]" 2 "[0xaa]" "[0x05]" 4]
    any_asn1 [of "[0x04, 0x01, 0xaa, 0x05]" "[0xaa]" 4 "[0x05]"]
  by (simp add: der_enc_def tag_enc_def der_length_def)

text \<open>
  Identifier octets and base-128 integers are canonical too: the parsers accept exactly the
  encodings without leading zero groups, the high-tag-number form only for numbers from 31 that
  fit 29 bits, and values of up to 64 bits.
\<close>

lemma tags_and_base128_canonical:
  "(parse_asn1_tag cbs = (Some tag, rest) \<longleftrightarrow> cbs = tag_enc tag @ rest) \<and>
   (parse_base128_integer cbs = (Some v, rest) \<longleftrightarrow> cbs = base128_enc (unat v) @ rest)"
  by (simp add: tag_codec.dec_Some_iff base128_codec.dec_Some_iff)

text \<open>
  The fixed-width readers accept exactly the big-endian bytes of their value, and the
  little-endian ones the reversed bytes: 16, 24, 32 and 64 bits.
\<close>

lemma integer_readers:
  "(CBS_get_u16 cbs = (Some a, rest) \<longleftrightarrow> cbs = be_bytes 2 (unat a) @ rest) \<and>
   (CBS_get_u24 cbs = (Some b, rest) \<longleftrightarrow> unat b < 2 ^ 24 \<and> cbs = be_bytes 3 (unat b) @ rest) \<and>
   (CBS_get_u32 cbs = (Some c, rest) \<longleftrightarrow> cbs = be_bytes 4 (unat c) @ rest) \<and>
   (CBS_get_u64 cbs = (Some e, rest) \<longleftrightarrow> cbs = be_bytes 8 (unat e) @ rest) \<and>
   (CBS_get_u16le cbs = (Some a, rest) \<longleftrightarrow> cbs = rev (be_bytes 2 (unat a)) @ rest) \<and>
   (CBS_get_u32le cbs = (Some c, rest) \<longleftrightarrow> cbs = rev (be_bytes 4 (unat c)) @ rest) \<and>
   (CBS_get_u64le cbs = (Some e, rest) \<longleftrightarrow> cbs = rev (be_bytes 8 (unat e)) @ rest)"
  by (simp add: get_u16 get_u24 get_u32 get_u64 get_le)

text \<open>
  C7. The INTEGER readers accept exactly the shortest two's complement contents: the unsigned one
  the octets of a 64-bit number, the signed one those of a number between \<open>-2^63\<close> and \<open>2^63 - 1\<close>;
  validity means that no shorter contents have the same value.
\<close>

theorem integer_contents_shortest:
  "(CBS_get_asn1_uint64 cbs = (Some w, rest) \<longleftrightarrow>
      CBS_get_asn1 cbs CBS_ASN1_INTEGER = (Some (uint_octets (unat w)), rest)) \<and>
   (CBS_get_asn1_int64 cbs = (Some w, rest) \<longleftrightarrow>
      CBS_get_asn1 cbs CBS_ASN1_INTEGER = (Some (int_octets (sint w)), rest)) \<and>
   (CBS_is_valid_asn1_integer bs = Some neg \<longleftrightarrow> bs = int_octets (int_value bs) \<and> neg = (int_value bs < 0))"
proof -
  have "length (uint_octets (unat w)) < 2 ^ 32"
    using length_min_be [of "unat w" 8] unat_u64_less [of w] by (simp add: uint_octets_def Let_def)
  moreover have "length (int_octets (sint w)) < 2 ^ 32" using int64_octets_length [of w] by simp
  ultimately show ?thesis by (auto simp: get_asn1_uint64 get_asn1_int64 get_asn1 valid_integer)
qed

text \<open>
  \<open>CBS_asn1_bitstring_has_bit\<close> tests bit \<open>n\<close> of a valid BIT STRING, counted from the most
  significant bit of the first octet after the count of unused bits; it is false for an invalid
  string and beyond the end.
\<close>

lemma bitstring_bit:
  "CBS_asn1_bitstring_has_bit bs n \<longleftrightarrow>
     (\<exists>u body. bs = u # body \<and> CBS_is_valid_asn1_bitstring bs \<and>
        unat n div 8 < length body \<and> bit (body ! (unat n div 8)) (7 - unat n mod 8))"
  by (cases bs) (auto simp: bitstring_has_bit valid_bitstring bitstring_ok_def)

section \<open>Building\<close>

text \<open>
  C3. Closing a chain: if the builder represents the open segments \<open>segs\<close>, a successful flush at
  depth \<open>d\<close> leaves the first \<open>d\<close> segments alone and replaces everything deeper by its encoding
  with the length prefixes filled in; every prefix closed was wide enough.
\<close>

theorem flush_closes_children:
  assumes "represents s segs" "d < length segs" "CBB_flush sys s d = (True, s')"
  shows "represents s' (take d segs @ [(fst (segs ! d), snd (segs ! d) @ close_segs (drop (Suc d) segs))]) \<and>
    closable (drop (Suc d) segs)"
  using CBB_flush_refines [OF assms] flush_segs_eq [OF assms(2)] by simp

definition demo_chain :: cbb_st where
  "demo_chain = \<lparr> cbb_base = \<lparr> cb_buf = [1, 0, 2, 3], cb_cap = 8, cb_can_resize = False, cb_error = False \<rparr>,
     cbb_frames = [root_frame, \<lparr> fr_offset = 1, fr_pending_len_len = 1, fr_pending_is_asn1 = False \<rparr>] \<rparr>"

lemma demo_chain_flush:
  "CBB_flush (\<lambda>_. False) demo_chain 0 =
     (True, \<lparr> cbb_base = \<lparr> cb_buf = [1, 2, 2, 3], cb_cap = 8, cb_can_resize = False, cb_error = False \<rparr>,
              cbb_frames = [root_frame] \<rparr>)"
proof -
  have "CBB_flush (\<lambda>_. False) demo_chain (Suc 0) = (True, demo_chain)"
    by (rule CBB_flush_deepest) (simp_all add: demo_chain_def)
  then show ?thesis
    unfolding demo_chain_def
    by (subst CBB_flush.simps) (simp add: size_t_def write_pending_def)
qed

theorem flush_closes_children_witness:
  "represents \<lparr> cbb_base = \<lparr> cb_buf = [1, 2, 2, 3], cb_cap = 8, cb_can_resize = False, cb_error = False \<rparr>,
              cbb_frames = [root_frame] \<rparr> [(LenPrefix 0, [1, 2, 2, 3])]"
  using flush_closes_children [of demo_chain "[(LenPrefix 0, [1]), (LenPrefix 1, [2, 3])]" 0, OF _ _ demo_chain_flush]
  by (simp add: represents_def demo_chain_def root_frame_def segs_ok_def buffer_ok_def SIZE_MAX_def)

text \<open>
  C10. Errors are sticky: once an error has been recorded, flushing, finishing, reserving and every
  writer fail and leave the builder as it is. \<open>CBB_did_write\<close> does not look at the error: on
  the innermost child it takes the bytes if the buffer has room for them. The error and the children stay all the same, so
  nothing written after an error is ever returned by \<open>CBB_finish\<close>.
\<close>

theorem errors_sticky:
  assumes "cb_error (cbb_base s)"
  shows "CBB_flush sys s d = (False, s) \<and> CBB_add_bytes sys s d bs = (False, s) \<and>
    cbb_add_u sys s d v n = (False, s) \<and> cbb_add_length_prefixed sys s d n = (False, s) \<and>
    CBB_add_asn1 sys s d tag = (False, s) \<and> CBB_reserve sys s d n = (False, s) \<and>
    CBB_add_space sys s d bs = (False, s) \<and> CBB_add_zeros sys s d n = (False, s) \<and>
    CBB_add_asn1_uint64 sys s d v = (False, s) \<and> CBB_add_asn1_int64 sys s d v = (False, s) \<and>
    CBB_add_asn1_octet_string sys s d bs = (False, s) \<and> CBB_add_asn1_bool sys s d b = (False, s) \<and>
    CBB_add_asn1_oid_from_text sys s d bs = (False, s) \<and>
    CBB_flush_asn1_set_of sys s d = (False, s) \<and> CBB_finish sys s d w = (None, s) \<and>
    (let (did, t) = CBB_did_write s d bs
     in (did \<longleftrightarrow> length (cbb_frames s) \<le> Suc d \<and> cb_len (cbb_base s) \<le> size_t (cb_len (cbb_base s) + length bs) \<and>
           size_t (cb_len (cbb_base s) + length bs) \<le> cb_cap (cbb_base s)) \<and>
        cb_buf (cbb_base t) = cb_buf (cbb_base s) @ (if did then bs else []) \<and>
        cb_error (cbb_base t) \<and> cbb_frames t = cbb_frames s \<and> CBB_finish sys t d w = (None, t))"
proof -
  note writers = CBB_add_bytes_def cbb_add_u_def cbb_add_length_prefixed_def CBB_add_asn1_def CBB_reserve_def
    CBB_add_space_def CBB_add_zeros_def CBB_flush_asn1_set_of_def CBB_finish_def
  note typed = CBB_add_asn1_uint64_def CBB_add_asn1_int64_def CBB_add_asn1_octet_string_def CBB_add_asn1_bool_def
    CBB_add_asn1_oid_from_text_def
  have "CBB_finish sys t d w = (None, t)" if "cb_error (cbb_base t)" for t
    using CBB_flush_error [OF that, of sys] by (simp add: CBB_finish_def)
  then show ?thesis
    using assms CBB_flush_error [OF assms, of sys] by (auto simp: writers typed CBB_did_write_def Let_def not_less)
qed

text \<open>A builder with an error and a buffer of four bytes: a write fails, but \<open>CBB_did_write\<close> succeeds.\<close>

theorem errors_sticky_witness:
  fixes s :: cbb_st
  defines "s \<equiv> \<lparr> cbb_base = \<lparr> cb_buf = [5], cb_cap = 4, cb_can_resize = False, cb_error = True \<rparr>,
    cbb_frames = [root_frame] \<rparr>"
  shows "CBB_add_bytes (\<lambda>_. True) s 0 [1, 2] = (False, s) \<and> fst (CBB_did_write s 0 [1, 2])"
  using errors_sticky [of s "\<lambda>_. True" 0 "[1, 2]"]
  by (simp add: s_def CBB_did_write_def size_t_def split: prod.splits)

text \<open>
  C5. A fixed builder never writes past its buffer: whatever calls are made after
  \<open>CBB_init_fixed\<close> with a buffer of \<open>n\<close> bytes (any of the builder's calls, the sorting of a SET OF in place
  included), successful or not, and whichever allocations succeed from one call to the next, at most \<open>n\<close> bytes
  are in use and the buffer is never replaced.
\<close>

theorem fixed_buffer_never_exceeded:
  assumes "CBB_init_fixed sys n = (True, s)" "n \<le> SIZE_MAX" "cbb_step\<^sup>*\<^sup>* s t"
  shows "cb_len (cbb_base t) \<le> n \<and> cb_cap (cbb_base t) = n \<and> \<not> cb_can_resize (cbb_base t)"
  using cbb_steps_inv [OF assms(3) CBB_init_fixed_inv [OF assms(1,2)]] CBB_init_fixed_represents [OF assms(1,2)]
  by (simp add: cbb_inv_def buffer_ok_def same_store_def)

theorem fixed_buffer_never_exceeded_witness:
  "cb_len (cbb_base (snd (CBB_add_bytes (\<lambda>_. True) (snd (CBB_init_fixed (\<lambda>_. True) 1)) 0 [7, 8]))) \<le> 1"
proof -
  have i: "CBB_init_fixed (\<lambda>_. True) 1 = (True, snd (CBB_init_fixed (\<lambda>_. True) 1))"
    by (simp add: CBB_init_fixed_def cbb_init_def OPENSSL_malloc_def OPENSSL_MALLOC_PREFIX_def
        sizeof_cbb_buffer_st_def size_t_def)
  have "cbb_step (snd (CBB_init_fixed (\<lambda>_. True) 1))
      (snd (CBB_add_bytes (\<lambda>_. True) (snd (CBB_init_fixed (\<lambda>_. True) 1)) 0 [7, 8]))"
    by (rule cbb_step.add_bytes [where bs = "[7, 8]" and sys = "\<lambda>_. True" and d = 0
          and ok = "fst (CBB_add_bytes (\<lambda>_. True) (snd (CBB_init_fixed (\<lambda>_. True) 1)) 0 [7, 8])"])
      (simp_all add: SIZE_MAX_def)
  then show ?thesis using fixed_buffer_never_exceeded [OF i _ r_into_rtranclp] by (simp add: SIZE_MAX_def)
qed

text \<open>
  C4. Whatever calls are made after \<open>CBB_init\<close>, with any allocator at each call, the bytes in use stay within
  the capacity, and unless an error was recorded or the builder was finished the chain is well-formed: it
  represents a list of open segments, the offsets of the children pointing at their pending length
  prefixes. The calls are the writers, the typed writers, flushing, reserving and declaring bytes written,
  discarding a child, sorting a SET OF in place, finishing and cleaning up.
\<close>

theorem builder_invariant:
  assumes "CBB_init sys n = (True, s)" "n \<le> SIZE_MAX" "cbb_step\<^sup>*\<^sup>* s t"
  shows "cb_len (cbb_base t) \<le> cb_cap (cbb_base t) \<and>
    (cb_error (cbb_base t) \<or> cbb_frames t = [] \<or> (\<exists>segs. represents t segs))"
  using cbb_steps_inv [OF assms(3) CBB_init_inv [OF assms(1,2)]] by (simp add: cbb_inv_def buffer_ok_def)

text \<open>An element is opened with memory, and its boolean is refused for want of it.\<close>

theorem builder_invariant_witness:
  "\<exists>s t u. CBB_init (\<lambda>_. True) 4 = (True, s) \<and> cbb_step s t \<and> cbb_step t u \<and> cb_len (cbb_base u) \<le> cb_cap (cbb_base u)"
proof -
  obtain s where i: "CBB_init (\<lambda>_. True) 4 = (True, s)"
    by (simp add: CBB_init_def cbb_init_def OPENSSL_malloc_def OPENSSL_MALLOC_PREFIX_def
        sizeof_cbb_buffer_st_def size_t_def)
  obtain ok t where "CBB_add_asn1 (\<lambda>_. True) s 0 0x30 = (ok, t)" by fastforce
  then have t: "cbb_step s t" by (rule cbb_step.add_asn1)
  obtain ok u where "CBB_add_asn1_bool (\<lambda>_. False) t 1 1 = (ok, u)" by fastforce
  then have u: "cbb_step t u" by (rule cbb_step.add_asn1_bool)
  have "4 \<le> SIZE_MAX" by (simp add: SIZE_MAX_def)
  from builder_invariant [OF i this, of u] t u i show ?thesis by (meson rtranclp.rtrancl_into_rtrancl rtranclp.rtrancl_refl)
qed

section \<open>Building and reading back\<close>

lemma open_chain_element:
  assumes "open_chain s segs" "length segs = Suc d" "length c < 2 ^ 32 - 1"
    "length (layout segs) + length c + 12 \<le> 2 ^ 62"
  shows "\<exists>t. then_do (CBB_add_asn1 always s d tag)
      (\<lambda>s. then_do (put_all (\<lambda>s. CBB_add_u8 always s (Suc d)) s c) (\<lambda>s. CBB_flush always s d)) = (True, t) \<and>
    open_chain t (add_seg (der_enc (tag, c)) segs)"
proof -
  have ne: "segs \<noteq> []" using assms(2) by auto
  have fl: "flush_segs d segs = segs" by (rule flush_segs_last [OF assms(2)])
  have lt: "length (tag_enc tag) \<le> 6" by (rule length_tag_enc)
  have "d < length segs" "closable (drop (Suc d) segs)" "length (layout (flush_segs d segs)) + 7 \<le> 2 ^ 62"
    using assms(2,4) by (simp_all add: fl)
  from open_chain_add_asn1 [OF assms(1) this, of tag] obtain t where
    t: "CBB_add_asn1 always s d tag = (True, t)" "open_chain t (add_seg (tag_enc tag) segs @ [(Asn1Prefix, [])])"
    unfolding fl by blast
  let ?A = "add_seg (tag_enc tag) segs"
  have lA: "length ?A = Suc d" using assms(2) ne by simp
  have "length (layout (?A @ [(Asn1Prefix, [])])) + length c \<le> 2 ^ 62"
    using assms(4) lt ne by (simp add: layout_append layout_add_seg)
  moreover have "length (?A @ [(Asn1Prefix, [])]) = Suc (Suc d)" using lA by simp
  ultimately obtain u where u: "put_all (\<lambda>s. CBB_add_u8 always s (Suc d)) t c = (True, u)"
    "open_chain u (?A @ [(Asn1Prefix, c)])" using open_chain_put_all [OF t(2)] by fastforce
  have fe: "flush_segs d (?A @ [(Asn1Prefix, c)]) = add_seg (der_enc (tag, c)) segs"
    by (rule flush_element [OF assms(2)])
  have "length (der_length (length c)) \<le> 5" using assms(3) by (intro length_der_length) simp
  then have "length (layout (add_seg (der_enc (tag, c)) segs)) \<le> 2 ^ 62"
    using assms(4) lt ne by (simp add: layout_add_seg length_der_enc)
  moreover have "closable (drop (Suc d) (?A @ [(Asn1Prefix, c)]))" using lA assms(3) by simp
  ultimately obtain v where "CBB_flush always u d = (True, v)" "open_chain v (add_seg (der_enc (tag, c)) segs)"
    using open_chain_flush [OF u(2), of d] lA fe by (metis length_append_singleton less_Suc_eq)
  then show ?thesis using t(1) u(1) by simp
qed

text \<open>
  C2. What is built is what is read: with enough memory, opening an element with any tag, adding
  contents shorter than \<open>2^32 - 1\<close> bytes to it and finishing succeeds, and reading the result with
  the same tag gives the contents back, with nothing left over.
\<close>

theorem element_roundtrip:
  assumes "length contents < 2 ^ 32 - 1"
  shows "\<exists>s t u out. CBB_init (\<lambda>_. True) 32 = (True, s) \<and> CBB_add_asn1 (\<lambda>_. True) s 0 tag = (True, t) \<and>
    CBB_add_bytes (\<lambda>_. True) t 1 contents = (True, u) \<and> fst (CBB_finish (\<lambda>_. True) u 0 True) = Some out \<and>
    CBS_get_asn1 out tag = (Some contents, [])"
proof -
  obtain s where s: "CBB_init always 32 = (True, s)" "open_chain s [(LenPrefix 0, [])]"
    using open_chain_init by blast
  from open_chain_add_asn1 [OF s(2), of 0 tag] obtain t where t: "CBB_add_asn1 always s 0 tag = (True, t)"
    "open_chain t [(LenPrefix 0, tag_enc tag), (Asn1Prefix, [])]"
    by (auto simp: flush_segs_def add_seg_def)
  have "length (layout (flush_segs 1 [(LenPrefix 0, tag_enc tag), (Asn1Prefix, [])])) + length contents \<le> 2 ^ 62"
    using assms length_tag_enc [of tag] by (simp add: flush_segs_def)
  from open_chain_add_bytes [OF t(2) _ _ this] obtain u where u: "CBB_add_bytes always t 1 contents = (True, u)"
    "open_chain u [(LenPrefix 0, tag_enc tag), (Asn1Prefix, contents)]"
    by (auto simp: flush_segs_def add_seg_def)
  have c: "close_segs [(LenPrefix 0, tag_enc tag), (Asn1Prefix, contents)] = der_enc (tag, contents)"
    by (simp add: der_enc_def)
  have "length (der_length (length contents)) \<le> 5" using assms by (intro length_der_length) simp
  then have "length (der_enc (tag, contents)) \<le> 2 ^ 62"
    using assms length_tag_enc [of tag] by (simp add: length_der_enc)
  then have "fst (CBB_finish always u 0 True) = Some (der_enc (tag, contents))"
    using open_chain_finish [OF u(2)] assms unfolding c by simp
  moreover have "CBS_get_asn1 (der_enc (tag, contents)) tag = (Some contents, [])"
    unfolding get_asn1 using assms by simp
  ultimately show ?thesis using s(1) t(1) u(1) by blast
qed

theorem element_roundtrip_witness:
  "\<exists>s t u out. CBB_init (\<lambda>_. True) 32 = (True, s) \<and> CBB_add_asn1 (\<lambda>_. True) s 0 0x20000010 = (True, t) \<and>
    CBB_add_bytes (\<lambda>_. True) t 1 [1, 2] = (True, u) \<and> fst (CBB_finish (\<lambda>_. True) u 0 True) = Some out \<and>
    CBS_get_asn1 out 0x20000010 = (Some [1, 2], [])"
  by (rule element_roundtrip [of "[1, 2]"]) simp

text \<open>
  C6. Every signed 64-bit number that \<open>CBB_add_asn1_int64\<close> writes is read back by
  \<open>CBS_get_asn1_int64\<close>, and every unsigned one by the unsigned pair.
\<close>

theorem integer_roundtrip:
  "\<exists>s t u out out'. CBB_init (\<lambda>_. True) 32 = (True, s) \<and>
    CBB_add_asn1_int64 (\<lambda>_. True) s 0 v = (True, t) \<and> fst (CBB_finish (\<lambda>_. True) t 0 True) = Some out \<and>
    CBS_get_asn1_int64 out = (Some v, []) \<and>
    CBB_add_asn1_uint64 (\<lambda>_. True) s 0 v = (True, u) \<and> fst (CBB_finish (\<lambda>_. True) u 0 True) = Some out' \<and>
    CBS_get_asn1_uint64 out' = (Some v, [])"
proof -
  obtain s where s: "CBB_init always 32 = (True, s)" "open_chain s [(LenPrefix 0, [])]"
    using open_chain_init by blast
  have element: "\<exists>t. then_do (CBB_add_asn1 always s 0 CBS_ASN1_INTEGER)
      (\<lambda>s. then_do (put_all (\<lambda>s. CBB_add_u8 always s (Suc 0)) s c) (\<lambda>s. CBB_flush always s 0)) = (True, t) \<and>
      fst (CBB_finish always t 0 True) = Some (der_enc (CBS_ASN1_INTEGER, c))" if "length c \<le> 9" for c
  proof -
    have "length c < 2 ^ 32 - 1" using that by simp
    from open_chain_element [OF s(2) _ this, of 0 CBS_ASN1_INTEGER] that obtain t where
      t: "then_do (CBB_add_asn1 always s 0 CBS_ASN1_INTEGER)
        (\<lambda>s. then_do (put_all (\<lambda>s. CBB_add_u8 always s (Suc 0)) s c) (\<lambda>s. CBB_flush always s 0)) = (True, t)"
      "open_chain t [(LenPrefix 0, der_enc (CBS_ASN1_INTEGER, c))]"
      by (auto simp: add_seg_def)
    have "length (der_length (length c)) \<le> 5" using that by (intro length_der_length) simp
    then have "length (der_enc (CBS_ASN1_INTEGER, c)) \<le> 2 ^ 62"
      using that length_tag_enc [of CBS_ASN1_INTEGER] by (simp add: length_der_enc)
    then show ?thesis using t(1) open_chain_finish [OF t(2)] by auto
  qed
  have "length (uint_octets (unat v)) \<le> 9"
    using length_min_be [of "unat v" 8] unat_u64_less [of v] by (simp add: uint_octets_def Let_def)
  from element [OF this] obtain u where u: "CBB_add_asn1_uint64 always s 0 v = (True, u)"
    "fst (CBB_finish always u 0 True) = Some (der_enc (CBS_ASN1_INTEGER, uint_octets (unat v)))"
    unfolding CBB_add_asn1_uint64_eq by blast
  have "length (int_octets (sint v)) \<le> 9" using int64_octets_length [of v] by simp
  from element [OF this] obtain t where t: "CBB_add_asn1_int64 always s 0 v = (True, t)"
    "fst (CBB_finish always t 0 True) = Some (der_enc (CBS_ASN1_INTEGER, int_octets (sint v)))"
    unfolding CBB_add_asn1_int64_eq by blast
  have "CBS_get_asn1_int64 (der_enc (CBS_ASN1_INTEGER, int_octets (sint v))) = (Some v, [])"
    "CBS_get_asn1_uint64 (der_enc (CBS_ASN1_INTEGER, uint_octets (unat v))) = (Some v, [])"
    by (simp_all add: get_asn1_int64 get_asn1_uint64)
  then show ?thesis using s(1) t u by blast
qed

lemma open_chain_add_children:
  "open_chain s (A @ [(k, c)]) \<Longrightarrow> length A = d \<Longrightarrow>
    length (layout (A @ [(k, c)])) + length (concat es) \<le> 2 ^ 62 \<Longrightarrow>
    \<exists>t. add_children always s d es = (True, t) \<and> open_chain t (A @ [(k, c @ concat es)])"
proof (induction es arbitrary: s c)
  case Nil
  then show ?case by simp
next
  case (Cons e es)
  have fl: "flush_segs d (A @ [(k, c)]) = A @ [(k, c)]" by (rule flush_segs_last) (simp add: Cons.prems(2))
  have "length (layout (flush_segs d (A @ [(k, c)]))) + length e \<le> 2 ^ 62" using Cons.prems(3) by (simp add: fl)
  from open_chain_add_bytes [OF Cons.prems(1) _ _ this] Cons.prems(2) obtain t where
    t: "CBB_add_bytes always s d e = (True, t)" "open_chain t (A @ [(k, c @ e)])" by (auto simp: fl)
  have "length (layout (A @ [(k, c @ e)])) + length (concat es) \<le> 2 ^ 62"
    using Cons.prems(3) by (simp add: layout_append)
  from Cons.IH [OF t(2) Cons.prems(2) this] t(1) show ?case by (simp add: CBS_data_def)
qed

lemma elements_count: "list_all is_element es \<Longrightarrow> length es \<le> length (concat es)"
proof (induction es)
  case (Cons e es)
  then have "e \<noteq> []" using is_element_nonempty by simp
  then show ?case using Cons by (cases e) auto
qed simp

lemma mset_concat_cong: "mset xs = mset ys \<Longrightarrow> mset (concat xs) = mset (concat ys)"
  unfolding mset_concat sum_mset_sum_list [symmetric] mset_map by (rule arg_cong)

lemma open_chain_set_of:
  assumes "open_chain s (A @ [(k, concat es)])" "length A = d" "list_all is_element es"
    "length (layout (A @ [(k, concat es)])) \<le> 2 ^ 59"
  shows "\<exists>t. CBB_flush_asn1_set_of always s d = (True, t) \<and>
    open_chain t (A @ [(k, concat (qsort compare_set_of_element es))])"
proof -
  have rep: "represents s (A @ [(k, concat es)])" using assms(1) by (simp add: open_chain_def)
  have fl: "CBB_flush always s d = (True, s)"
    using open_chain_last [OF assms(1)] assms(2) by (simp add: CBB_flush_deepest)
  have dec: "decode_all get_element (length (concat es)) (concat es) = Some es"
    using decode_elements assms(3) by blast
  note u = set_of_unfold [OF fl rep assms(2)]
  show ?thesis
  proof (cases "length es < 2")
    case True
    then have "qsort compare_set_of_element es = es" by (cases es; cases "tl es") auto
    then show ?thesis using u dec True assms(1) by simp
  next
    case False
    have n: "length es \<le> 2 ^ 59" "length (concat es) \<le> 2 ^ 59"
      using elements_count [OF assms(3)] assms(4) by (simp_all add: layout_append)
    have "0 < length (concat es)" using False elements_count [OF assms(3)] by linarith
    then have "concat es \<noteq> []" by (rule length_greater_0_conv [THEN iffD1])
    then have mem: "OPENSSL_memdup always (concat es) \<noteq> None" "OPENSSL_malloc always (length es * sizeof_CBS)"
      using n by (auto simp: OPENSSL_memdup_def OPENSSL_malloc_def OPENSSL_MALLOC_PREFIX_def size_t_def sizeof_CBS_def)
    have max: "\<not> SIZE_MAX div sizeof_CBS < length es" using n by (simp add: SIZE_MAX_def sizeof_CBS_def)
    have r: "open_chain (rewind s d) (A @ [(k, [])])"
      using innermost_frame [OF rep assms(2)] assms(1) by (simp add: open_chain_def rewind_def)
    have "mset (concat (qsort compare_set_of_element es)) = mset (concat es)"
      by (rule mset_concat_cong [OF mset_qsort])
    then have len: "length (concat (qsort compare_set_of_element es)) = length (concat es)" by (rule mset_eq_length)
    have "length (layout (A @ [(k, [])])) + length (concat (qsort compare_set_of_element es)) \<le> 2 ^ 62"
      using assms(4) unfolding len by (simp add: layout_append)
    from open_chain_add_children [OF r assms(2) this] show ?thesis
      using u dec False mem max by auto
  qed
qed

text \<open>
  C8. A SET OF is put in canonical order: on a child that holds a sequence of DER elements the
  flush succeeds (memory permitting) and leaves the same elements sorted by their bytes, so two
  builders that hold the same elements in different orders end up with the same contents.
\<close>

theorem set_of_canonical:
  assumes "open_chain s (A @ [(k, concat es)])" "open_chain s' (A @ [(k, concat es')])"
    "list_all is_element es" "mset es' = mset es" "length (layout (A @ [(k, concat es)])) \<le> 2 ^ 59"
  shows "\<exists>t t' ordered. CBB_flush_asn1_set_of (\<lambda>_. True) s (length A) = (True, t) \<and>
    CBB_flush_asn1_set_of (\<lambda>_. True) s' (length A) = (True, t') \<and>
    mset ordered = mset es \<and> sorted_wrt lex_le ordered \<and>
    open_chain t (A @ [(k, concat ordered)]) \<and> open_chain t' (A @ [(k, concat ordered)])"
proof -
  have "set es' = set es" by (rule mset_eq_setD [OF assms(4)])
  then have e': "list_all is_element es'" using assms(3) by (simp add: list_all_iff)
  have "mset (concat es') = mset (concat es)" by (rule mset_concat_cong [OF assms(4)])
  then have "length (concat es') = length (concat es)" by (rule mset_eq_length)
  then have l': "length (layout (A @ [(k, concat es')])) \<le> 2 ^ 59"
    using assms(5) by (simp add: layout_append)
  have q: "qsort compare_set_of_element es' = qsort compare_set_of_element es"
    by (rule set_of_order.qsort_perm [OF assms(4)])
  have "sorted_wrt lex_le (qsort compare_set_of_element es)"
    using set_of_order.sorted_qsort [of es] unfolding compare_set_of .
  moreover obtain t where "CBB_flush_asn1_set_of always s (length A) = (True, t)"
    "open_chain t (A @ [(k, concat (qsort compare_set_of_element es))])"
    using open_chain_set_of [OF assms(1) refl assms(3,5)] by blast
  moreover obtain t' where "CBB_flush_asn1_set_of always s' (length A) = (True, t')"
    "open_chain t' (A @ [(k, concat (qsort compare_set_of_element es))])"
    using open_chain_set_of [OF assms(2) refl e' l'] unfolding q by blast
  ultimately show ?thesis
    by (intro exI [of _ t] exI [of _ t'] exI [of _ "qsort compare_set_of_element es"]) simp
qed

definition demo_set :: "u8 list \<Rightarrow> cbb_st" where
  "demo_set bs = \<lparr> cbb_base = \<lparr> cb_buf = bs, cb_cap = 16, cb_can_resize = True, cb_error = False \<rparr>,
     cbb_frames = [root_frame] \<rparr>"

lemma demo_set_open: "length bs \<le> 16 \<Longrightarrow> open_chain (demo_set bs) ([] @ [(LenPrefix 0, bs)])"
  by (simp add: open_chain_def demo_set_def represents_def root_frame_def segs_ok_def buffer_ok_def SIZE_MAX_def)

lemma demo_elements: "is_element [0x04, 0x00]" "is_element [0x02, 0x01, 0x05]"
proof -
  have "[0x04, 0x00] = der_enc (4, [])" "[0x02, 0x01, 0x05] = der_enc (2, [0x05])"
    by (simp_all add: der_enc_def tag_enc_def der_length_def)
  moreover have "length ([] :: u8 list) < 2 ^ 32" "length [0x05 :: u8] < 2 ^ 32" by simp_all
  ultimately show "is_element [0x04, 0x00]" "is_element [0x02, 0x01, 0x05]"
    unfolding is_element_def by blast+
qed

theorem set_of_canonical_witness:
  "\<exists>t t'. CBB_flush_asn1_set_of (\<lambda>_. True) (demo_set [0x04, 0x00, 0x02, 0x01, 0x05]) 0 = (True, t) \<and>
    CBB_flush_asn1_set_of (\<lambda>_. True) (demo_set [0x02, 0x01, 0x05, 0x04, 0x00]) 0 = (True, t') \<and>
    cb_buf (cbb_base t) = cb_buf (cbb_base t')"
proof -
  have "list_all is_element [[0x04, 0x00], [0x02, 0x01, 0x05]]" using demo_elements by simp
  moreover have "mset [[0x02, 0x01, 0x05], [0x04, 0x00]] = mset [[0x04, 0x00], [0x02, 0x01, 0x05 :: u8]]" by simp
  ultimately show ?thesis
    using set_of_canonical [OF demo_set_open [of "concat [[0x04, 0x00], [0x02, 0x01, 0x05]]"]
        demo_set_open [of "concat [[0x02, 0x01, 0x05], [0x04, 0x00]]"]]
    by (fastforce simp: open_chain_def represents_def)
qed

section \<open>Object identifiers\<close>

text \<open>
  C9. Object identifiers: the text form accepted is exactly dotted decimal components without
  leading zeros (the first two within the ranges of X.660, all below \<open>2^64\<close>); what is written for
  a text is the encoding of its components, and reading that encoding back gives the same text.
\<close>

theorem oid_text_roundtrip:
  assumes "represents s segs" "d < length segs" "CBB_add_asn1_oid_from_text sys s d text = (True, s')"
    "length text < 2 ^ 62"
  shows "\<exists>octets. represents s' (add_seg octets (flush_segs d segs)) \<and>
    CBS_asn1_oid_to_text (\<lambda>_. True) octets = Some (text @ [0])"
  using CBB_add_asn1_oid_from_text_refines [OF assms(1-3)] oid_to_text_dotted assms(4) by blast

lemma demo_oid: "CBB_add_asn1_oid_from_text (\<lambda>_. True) (demo_set []) 0 [0x31, 0x2e, 0x32, 0x2e, 0x33] = (True, demo_set [0x2a, 0x03])"
proof -
  let ?s = "demo_set []"
  have fl: "CBB_flush (\<lambda>_. True) (demo_set bs) 0 = (True, demo_set bs)" for bs
    by (rule CBB_flush_deepest) (simp_all add: demo_set_def)
  have put: "CBB_add_u8 (\<lambda>_. True) (demo_set bs) 0 b = (True, demo_set (bs @ [b]))" if "length bs < 16" for bs b
    using CBB_add_u8_deepest [of "demo_set bs" 0 "\<lambda>_. True" b] that
    by (simp add: demo_set_def on_base_def cbb_buffer_add_def cbb_buffer_reserve_def size_t_def)
  have small: "base128_enc n = [of_nat n]" if "n < 128" for n
    using that by (simp add: base128_enc_def)
  have add: "add_base128_integer (\<lambda>_. True) (demo_set bs) 0 v = (True, demo_set (bs @ [of_nat (unat v)]))"
    if "length bs < 16" "unat v < 128" for bs v
    using put [OF that(1)] small [OF that(2)] by (simp add: add_base128_integer_eq)
  have p: "parse_dotted_decimal [0x31, 0x2e, 0x32, 0x2e, 0x33] = (Some 1, [0x32, 0x2e, 0x33])"
    "parse_dotted_decimal [0x32, 0x2e, 0x33] = (Some 2, [0x33])" "parse_dotted_decimal [0x33] = (Some 3, [])"
    by (simp_all add: parse_dotted_decimal_def)
  have "oid_components (\<lambda>_. True) (demo_set [0x2a]) 0 [0x33] = (True, demo_set [0x2a, 0x03])"
    by (subst oid_components.simps) (simp add: CBS_len_def p add oid_components.simps [of _ _ _ "[]"])
  then show ?thesis by (simp add: CBB_add_asn1_oid_from_text_def fl CBS_init_def p add)
qed

theorem oid_text_roundtrip_witness:
  "\<exists>octets. represents (demo_set [0x2a, 0x03]) (add_seg octets (flush_segs 0 [(LenPrefix 0, [])])) \<and>
    CBS_asn1_oid_to_text (\<lambda>_. True) octets = Some ([0x31, 0x2e, 0x32, 0x2e, 0x33] @ [0])"
proof -
  have "represents (demo_set []) [(LenPrefix 0, [])]" using demo_set_open [of "[]"] by (simp add: open_chain_def)
  from oid_text_roundtrip [OF this _ demo_oid] show ?thesis by simp
qed

end
