(* ===== verification/Ber.thy ===== *)
theory Ber
  imports CbbProgress
begin

text \<open>
  BER input, \<open>src/crypto/bytestring/ber.c\<close> and \<open>asn1_compat.c\<close>: the search for encodings that are not DER, the conversion
  to DER through the builder, implicitly tagged strings, and finishing a builder into a caller's buffer.
  The specification is \<open>ber_der\<close>, an inductive relation between BER and its DER form that follows the
  rules of X.690, and \<open>der_forest\<close>, the well-formedness of DER at every depth. The conversion calls itself on what an
  earlier call left of the input, so its termination rests on a lemma about its own results.
\<close>


section \<open>Finding BER\<close>

definition CBS_ASN1_UTF8STRING :: u32 where "CBS_ASN1_UTF8STRING = 0xc"
definition CBS_ASN1_NUMERICSTRING :: u32 where "CBS_ASN1_NUMERICSTRING = 0x12"
definition CBS_ASN1_PRINTABLESTRING :: u32 where "CBS_ASN1_PRINTABLESTRING = 0x13"
definition CBS_ASN1_T61STRING :: u32 where "CBS_ASN1_T61STRING = 0x14"
definition CBS_ASN1_VIDEOTEXSTRING :: u32 where "CBS_ASN1_VIDEOTEXSTRING = 0x15"
definition CBS_ASN1_IA5STRING :: u32 where "CBS_ASN1_IA5STRING = 0x16"
definition CBS_ASN1_GRAPHICSTRING :: u32 where "CBS_ASN1_GRAPHICSTRING = 0x19"
definition CBS_ASN1_VISIBLESTRING :: u32 where "CBS_ASN1_VISIBLESTRING = 0x1a"
definition CBS_ASN1_GENERALSTRING :: u32 where "CBS_ASN1_GENERALSTRING = 0x1b"
definition CBS_ASN1_UNIVERSALSTRING :: u32 where "CBS_ASN1_UNIVERSALSTRING = 0x1c"
definition CBS_ASN1_BMPSTRING :: u32 where "CBS_ASN1_BMPSTRING = 0x1e"

definition kMaxDepth :: nat where
  "kMaxDepth = 2048"

abbreviation constructed :: "u32 \<Rightarrow> bool" where
  "constructed tag \<equiv> tag AND CBS_ASN1_CONSTRUCTED \<noteq> 0"

definition is_string_type :: "u32 \<Rightarrow> bool" where
  "is_string_type tag \<longleftrightarrow> tag AND NOT CBS_ASN1_CONSTRUCTED \<in>
     {CBS_ASN1_OCTETSTRING, CBS_ASN1_UTF8STRING, CBS_ASN1_NUMERICSTRING, CBS_ASN1_PRINTABLESTRING,
      CBS_ASN1_T61STRING, CBS_ASN1_VIDEOTEXSTRING, CBS_ASN1_IA5STRING, CBS_ASN1_GRAPHICSTRING,
      CBS_ASN1_VISIBLESTRING, CBS_ASN1_GENERALSTRING, CBS_ASN1_UNIVERSALSTRING, CBS_ASN1_BMPSTRING}"

text \<open>A BER header: \<open>None\<close> is the indefinite length.\<close>

definition ber_header :: "u32 \<Rightarrow> nat option \<Rightarrow> u8 list \<Rightarrow> bool" where
  "ber_header tag len h \<longleftrightarrow>
     (case len of
        None \<Rightarrow> constructed tag \<and> h = tag_enc tag @ [0x80]
      | Some n \<Rightarrow> n < 128 \<and> h = tag_enc tag @ [of_nat n] \<or>
          (\<exists>k \<in> {1..4}. n < 256 ^ k \<and> h = tag_enc tag @ of_nat (128 + k) # be_bytes k n))"

lemma ber_long_form:
  assumes bs: "length bs = k" "0 < k" "k \<le> 4" and hl: "hl \<le> 7"
    and r: "asn1_long_form cbs tag hl k (of_nat (be_value bs)) True = (Some e, rest)"
  shows "\<exists>out bf. cbs = out @ rest \<and> length out = be_value bs + hl + k \<and> e = (out, tag, hl + k, bf) \<and>
    (\<not> bf \<longrightarrow> 128 \<le> be_value bs \<and> 256 ^ (k - 1) \<le> be_value bs)"
proof -
  have "(256::nat) ^ k \<le> 256 ^ 4" using bs(3) by (intro power_increasing) auto
  then have v: "be_value bs < 2 ^ 32" using be_value_less [of bs] bs(1) by simp
  then have u: "unat (of_nat (be_value bs) :: u64) = be_value bs" by (simp add: unat_of_nat)
  have lt: "(of_nat (be_value bs) :: u64) < 128 \<longleftrightarrow> be_value bs < 128"
    by (simp add: word_less_nat_alt u)
  have "(2::nat) ^ ((k - 1) * 8) = 256 ^ (k - 1)" by (simp add: power_mult mult.commute [of _ 8])
  then have d: "drop_bit ((k - 1) * 8) (of_nat (be_value bs) :: u64) = 0 \<longleftrightarrow> be_value bs < 256 ^ (k - 1)"
    by (simp only: drop_bit_eq_0_iff u)
  have sz: "size_t (be_value bs + hl + k) = be_value bs + hl + k"
    using v hl bs(3) by (intro size_t_id) (simp add: SIZE_MAX_def)
  have "element_bytes cbs tag (hl + k) (be_value bs < 128 \<or> be_value bs < 256 ^ (k - 1)) (be_value bs + hl + k) =
      (Some e, rest)"
    using r unfolding asn1_long_form_def lt d u Let_def sz by simp
  then obtain out where "cbs = out @ rest" "length out = be_value bs + hl + k"
    "e = (out, tag, hl + k, be_value bs < 128 \<or> be_value bs < 256 ^ (k - 1))"
    unfolding element_bytes_Some by blast
  then show ?thesis by (intro exI conjI) (assumption, assumption, assumption, simp add: not_less)
qed

lemma ber_element:
  assumes "CBS_get_any_ber_asn1_element inp = (Some (out, tag, hl, bf), rest)"
  shows "\<exists>h c. out = h @ c \<and> inp = h @ c @ rest \<and> hl = length h \<and> 2 \<le> hl \<and>
    (ber_header tag (Some (length c)) h \<and> (bf \<or> length c < 2 ^ 32 \<and> h = tag_enc tag @ der_length (length c)) \<or>
     ber_header tag None h \<and> c = [] \<and> bf)"
proof -
  let ?t = "tag_enc tag"
  obtain tag' header where t: "parse_asn1_tag inp = (Some tag', header)"
    using assms unfolding CBS_get_any_ber_asn1_element_def cbs_get_any_asn1_element_def ok_then_Some by blast
  obtain b h where b: "header = b # h"
    using assms t unfolding CBS_get_any_ber_asn1_element_def cbs_get_any_asn1_element_def
    by (cases header) auto
  have inp: "inp = tag_enc tag' @ b # h" using t b by (simp add: tag_codec.dec_Some_iff)
  let ?hl = "length (tag_enc tag') + 1"
  have hl: "CBS_len inp - CBS_len h = ?hl" by (simp add: inp CBS_len_def)
  have hl7: "?hl \<le> 7" using length_tag_enc [of tag'] by simp
  have r: "(if b AND 0x80 = 0 then element_bytes inp tag' ?hl False (unat b + ?hl)
      else let num_bytes = unat (b AND 0x7f)
           in if True \<and> constructed tag' \<and> num_bytes = 0 then element_bytes inp tag' ?hl True ?hl
              else if num_bytes = 0 \<or> 4 < num_bytes then (None, inp)
              else ok_then (cbs_get_u h num_bytes) (\<lambda>len64 _. asn1_long_form inp tag' ?hl num_bytes len64 True) (\<lambda>_. inp))
      = (Some (out, tag, hl, bf), rest)"
    using assms t b hl unfolding CBS_get_any_ber_asn1_element_def cbs_get_any_asn1_element_def
    by (simp only: t b ok_then_simps CBS_get_u8_Cons hl Let_def)
  have ne: "Suc 0 \<le> length (tag_enc tag')" by (simp add: Suc_le_eq)
  show ?thesis
  proof (cases "unat b < 128")
    case True
    then have e: "inp = out @ rest" "length out = unat b + ?hl" "tag = tag'" "hl = ?hl" "\<not> bf"
      using r by (auto simp: byte_flag element_bytes_Some)
    let ?h = "tag_enc tag' @ [b]" and ?c = "drop ?hl out"
    have o: "out = ?h @ ?c"
    proof -
      have "take ?hl out = take ?hl inp" using e(1,2) by simp
      then have "take ?hl out = ?h" by (simp add: inp)
      then show ?thesis by (metis append_take_drop_id)
    qed
    have c: "length ?c = unat b" using e(2) by simp
    have 1: "ber_header tag (Some (length ?c)) ?h" unfolding ber_header_def c e(3) using True by simp
    have "?h = tag_enc tag @ der_length (length ?c)" unfolding c e(3) using True by (simp add: der_length_def)
    moreover have "length ?c < 2 ^ 32" unfolding c using True by simp
    ultimately have 2: "length ?c < 2 ^ 32 \<and> ?h = tag_enc tag @ der_length (length ?c)" by blast
    show ?thesis
    proof (intro exI conjI)
      show "out = ?h @ ?c" by (rule o)
      then show "inp = ?h @ ?c @ rest" using e(1) by (metis append.assoc)
      show "hl = length ?h" "2 \<le> hl" using e(4) ne by simp_all
      show "ber_header tag (Some (length ?c)) ?h \<and> (bf \<or> length ?c < 2 ^ 32 \<and> ?h = tag_enc tag @ der_length (length ?c)) \<or>
          ber_header tag None ?h \<and> ?c = [] \<and> bf" using 1 2 by blast
    qed
  next
    case False
    then have b128: "128 \<le> unat b" by simp
    have num: "unat (b AND 0x7f) = unat b - 128"
    proof -
      have "unat b - 128 < 128" using unat_u8 [of b] by arith
      then show ?thesis using b128 by (simp add: byte_low7 le_mod_geq)
    qed
    let ?k = "unat b - 128"
    show ?thesis
    proof (cases "constructed tag' \<and> ?k = 0")
      case True
      then have e: "inp = out @ rest" "length out = ?hl" "tag = tag'" "hl = ?hl" "bf"
        using r False by (auto simp: byte_flag num element_bytes_Some Let_def)
      have "unat b = 128" using True b128 by simp
      then have "b = 0x80" by (simp add: word_unat_eq_iff)
      moreover have "out = tag_enc tag' @ [b]"
        using arg_cong [OF e(1), of "take ?hl"] e(2) by (simp add: inp)
      ultimately show ?thesis using e True ne
        by (intro exI [of _ out] exI [of _ "[]"]) (auto simp: ber_header_def)
    next
      case ind: False
      obtain v h' where v: "?k \<noteq> 0" "?k \<le> 4" "cbs_get_u h ?k = (Some v, h')"
        "asn1_long_form inp tag' ?hl ?k v True = (Some (out, tag, hl, bf), rest)"
        using r False ind by (auto simp: byte_flag num Let_def ok_then_Some not_less split: if_split_asm)
      from v(3) obtain bs where bs: "h = bs @ h'" "length bs = ?k" "v = of_nat (be_value bs)"
        by (auto simp: cbs_get_u_Some)
      from ber_long_form [OF bs(2) _ v(2) hl7 v(4) [unfolded bs(3)]] v(1) have
        e: "inp = out @ rest" "length out = be_value bs + ?hl + ?k" "tag = tag'" "hl = ?hl + ?k"
        "\<not> bf \<longrightarrow> 128 \<le> be_value bs \<and> 256 ^ (?k - 1) \<le> be_value bs" by auto
      let ?h = "tag_enc tag' @ b # bs" and ?c = "drop (?hl + ?k) out"
      have o: "out = ?h @ ?c"
      proof -
        have "take (?hl + ?k) out = take (?hl + ?k) inp" using e(1,2) by simp
        then have "take (?hl + ?k) out = ?h" by (simp add: inp bs)
        then show ?thesis by (metis append_take_drop_id)
      qed
      have c: "length ?c = be_value bs" using e(2) by simp
      have val: "be_value bs < 256 ^ ?k" using be_value_less [of bs] bs(2) by simp
      have bb: "b = of_nat (128 + ?k)" using b128 by (simp add: word_unat_eq_iff)
      have bbs: "bs = be_bytes ?k (be_value bs)" using bs(2) be_bytes_be_value [of bs] by simp
      have hd: "?h = tag_enc tag @ of_nat (128 + ?k) # be_bytes ?k (length ?c)"
        using bb bbs unfolding c e(3) by simp
      have "?k \<in> {1..4}" using v(1,2) by simp
      then have 1: "ber_header tag (Some (length ?c)) ?h" unfolding ber_header_def hd using val c by auto
      have 2: "length ?c < 2 ^ 32 \<and> ?h = tag_enc tag @ der_length (length ?c)" if "\<not> bf"
      proof -
        have "(256::nat) ^ ?k \<le> 256 ^ 4" using v(2) by (intro power_increasing) auto
        then have "length ?c < 2 ^ 32" using val c by simp
        moreover have "min_be (length ?c) = bs"
          unfolding c using min_be_unique [of bs] that e(5) bs(2) v(1) by fastforce
        ultimately show ?thesis using that e(3,5) bs(2) bb c by (simp add: der_length_def)
      qed
      show ?thesis
      proof (intro exI conjI)
        show "out = ?h @ ?c" by (rule o)
        then show "inp = ?h @ ?c @ rest" using e(1) by (metis append.assoc)
        show "hl = length ?h" "2 \<le> hl" using e(4) ne bs(2) by simp_all
        show "ber_header tag (Some (length ?c)) ?h \<and> (bf \<or> length ?c < 2 ^ 32 \<and> ?h = tag_enc tag @ der_length (length ?c)) \<or>
            ber_header tag None ?h \<and> ?c = [] \<and> bf" using 1 2 by blast
      qed
    qed
  qed
qed

lemma ber_element_length:
  "CBS_get_any_ber_asn1_element inp = (Some (out, tag, hl, bf), rest) \<Longrightarrow>
    2 \<le> hl \<and> hl \<le> length out \<and> length inp = length out + length rest"
  by (auto dest!: ber_element)

lemma ber_element_rest: "length (snd (CBS_get_any_ber_asn1_element inp)) \<le> length inp"
proof -
  have e: "length (snd (element_bytes cbs tag hl bf n)) \<le> length cbs" for cbs tag hl bf n
    by (auto simp: element_bytes_def CBS_get_bytes_def cbs_get_def ok_then_def)
  then have "length (snd (asn1_long_form cbs tag hl k v True)) \<le> length cbs" for cbs tag hl k v
    by (auto simp: asn1_long_form_def Let_def)
  with e show ?thesis
    unfolding CBS_get_any_ber_asn1_element_def cbs_get_any_asn1_element_def ok_then_def
    by (auto simp: Let_def split: prod.splits option.splits)
qed

lemma CBS_skip_drop: "CBS_skip cbs n = (Some (), rest) \<Longrightarrow> n \<le> length cbs \<and> rest = drop n cbs"
  by (auto simp: CBS_skip_Some)

text \<open>
  \<open>ber_found\<close> is the value of \<open>*ber_found\<close>, which the loop leaves from one round to the next. The depth does not change
  in the loop, so it is compared in every round.
\<close>

function cbs_find_ber :: "cbs \<Rightarrow> bool \<Rightarrow> nat \<Rightarrow> bool option" where
  "cbs_find_ber inp ber_found depth =
     (if kMaxDepth < depth then None
      else if CBS_len inp = 0 then Some ber_found
      else case CBS_get_any_ber_asn1_element inp of
             (None, _) \<Rightarrow> None
           | (Some (contents, tag, header_len, ber_found), inp) \<Rightarrow>
               if ber_found then Some True
               else if constructed tag
               then if is_string_type tag then Some True
                    else (case CBS_skip contents header_len of
                            (None, _) \<Rightarrow> None
                          | (Some _, contents) \<Rightarrow>
                              (case cbs_find_ber contents False (depth + 1) of
                                 None \<Rightarrow> None
                               | Some ber_found \<Rightarrow> cbs_find_ber inp ber_found depth))
               else cbs_find_ber inp ber_found depth)"
  by pat_completeness auto
termination
  by (relation "measure (\<lambda>(inp, _). length inp)")
    (auto dest!: ber_element_length [OF sym] simp: CBS_skip_Some eq_commute [of "(Some (), _)"])

declare cbs_find_ber.simps [simp del]

definition is_eoc :: "nat \<Rightarrow> cbs \<Rightarrow> bool" where
  "is_eoc header_len contents \<longleftrightarrow> header_len = 2 \<and> CBS_len contents = 2 \<and> OPENSSL_memcmp contents [0, 0] 2 = 0"

section \<open>Conversion\<close>

text \<open>
  Where the contents of an element go, and the string type its children must have. Inside a constructed string they go
  to \<open>out\<close> itself, else to a new child of it; a constructed string loses its constructed bit. \<open>None\<close> is a failure.
\<close>

definition out_contents :: "(nat \<Rightarrow> bool) \<Rightarrow> cbb_st \<Rightarrow> nat \<Rightarrow> u32 \<Rightarrow> u32 \<Rightarrow> (nat \<times> u32) option \<times> cbb_st" where
  "out_contents sys s out string_tag tag =
     (if string_tag \<noteq> 0
      then (if tag AND NOT CBS_ASN1_CONSTRUCTED \<noteq> string_tag then None else Some (out, string_tag), s)
      else let string = constructed tag \<and> is_string_type tag;
               out_tag = (if string then tag AND NOT CBS_ASN1_CONSTRUCTED else tag);
               child_string_tag = (if string then out_tag else string_tag)
           in case CBB_add_asn1 sys s out out_tag of
                (False, s) \<Rightarrow> (None, s)
              | (True, s) \<Rightarrow> (Some (Suc out, child_string_tag), s))"

definition is_indefinite :: "nat \<Rightarrow> cbs \<Rightarrow> bool" where
  "is_indefinite header_len contents \<longleftrightarrow>
     CBS_len contents = header_len \<and> 0 < header_len \<and> contents ! (header_len - 1) = 0x80"

text \<open>
  \<open>cbs_convert_ber\<close> returns whether it succeeded, what is left of \<open>in\<close>, and the builder; \<open>out\<close> is the index of a \<open>CBB\<close>. As
  above, one round of the loop is one call.
\<close>

function cbs_convert_ber ::
  "(nat \<Rightarrow> bool) \<Rightarrow> cbs \<Rightarrow> cbb_st \<Rightarrow> nat \<Rightarrow> u32 \<Rightarrow> bool \<Rightarrow> nat \<Rightarrow> bool \<times> cbs \<times> cbb_st" where
  "cbs_convert_ber sys inp s out string_tag looking_for_eoc depth =
     (if kMaxDepth < depth then (False, inp, s)
      else if CBS_len inp = 0 then (\<not> looking_for_eoc, inp, s)
      else case CBS_get_any_ber_asn1_element inp of
             (None, inp) \<Rightarrow> (False, inp, s)
           | (Some (contents, tag, header_len, _), inp) \<Rightarrow>
               if is_eoc header_len contents then (looking_for_eoc, inp, s)
               else case out_contents sys s out string_tag tag of
                      (None, s) \<Rightarrow> (False, inp, s)
                    | (Some (child, child_string_tag), s) \<Rightarrow>
                        (case (if is_indefinite header_len contents
                               then cbs_convert_ber sys inp s child child_string_tag True (depth + 1)
                               else case CBS_skip contents header_len of
                                      (None, _) \<Rightarrow> (False, inp, s)
                                    | (Some _, contents) \<Rightarrow>
                                        if constructed tag
                                        then case cbs_convert_ber sys contents s child child_string_tag False (depth + 1) of
                                               (ok, _, s) \<Rightarrow> (ok, inp, s)
                                        else case CBB_add_bytes sys s child contents of (ok, s) \<Rightarrow> (ok, inp, s)) of
                           (False, inp, s) \<Rightarrow> (False, inp, s)
                         | (True, inp, s) \<Rightarrow>
                             (case CBB_flush sys s out of
                                (False, s) \<Rightarrow> (False, inp, s)
                              | (True, s) \<Rightarrow> cbs_convert_ber sys inp s out string_tag looking_for_eoc depth)))"
  by pat_completeness auto

lemma convert_ber_rest_dom:
  "cbs_convert_ber_dom (sys, inp, s, out, st, lk, dp) \<Longrightarrow>
    length (fst (snd (cbs_convert_ber sys inp s out st lk dp))) \<le> length inp"
proof (induction rule: cbs_convert_ber.pinduct)
  case (1 sys inp s out st lk dp)
  note step = cbs_convert_ber.psimps [OF "1.hyps"]
  show ?case
  proof (cases "kMaxDepth < dp \<or> CBS_len inp = 0")
    case True
    then show ?thesis by (auto simp: step)
  next
    case False
    then have n: "\<not> kMaxDepth < dp" "CBS_len inp \<noteq> 0" by auto
    obtain e inp1 where e: "CBS_get_any_ber_asn1_element inp = (e, inp1)" by fastforce
    show ?thesis
    proof (cases e)
      case None
      then show ?thesis using n e ber_element_rest [of inp] by (simp add: step)
    next
      case (Some q)
      obtain c tag hl bf where q: "q = (c, tag, hl, bf)" by (cases q) auto
      note e = e [unfolded Some q]
      have l: "length inp1 \<le> length inp" using ber_element_length [OF e] by simp
      obtain r s1 where o: "out_contents sys s out st tag = (r, s1)" by fastforce
      show ?thesis
      proof (cases "is_eoc hl c \<or> r = None")
        case True
        then show ?thesis using n e o l by (auto simp: step)
      next
        case False
        then obtain ch cst where r: "r = Some (ch, cst)" and ne: "\<not> is_eoc hl c" by (cases r) auto
        note o = o [unfolded r]
        define body where "body = (if is_indefinite hl c then cbs_convert_ber sys inp1 s1 ch cst True (dp + 1)
          else case CBS_skip c hl of (None, _) \<Rightarrow> (False, inp1, s1)
            | (Some _, c) \<Rightarrow> if constructed tag
                then case cbs_convert_ber sys c s1 ch cst False (dp + 1) of (ok, _, s) \<Rightarrow> (ok, inp1, s)
                else case CBB_add_bytes sys s1 ch c of (ok, s) \<Rightarrow> (ok, inp1, s))"
        obtain ok inp2 s2 where b: "body = (ok, inp2, s2)" by (cases body) auto
        have "length inp2 \<le> length inp1"
          using "1.IH"(1) [OF n e [symmetric] refl refl refl refl ne o [symmetric] refl refl] b
          by (auto simp: body_def split: if_split_asm prod.splits option.splits)
        moreover have "length (fst (snd (cbs_convert_ber sys inp2 s3 out st lk dp))) \<le> length inp2"
          if "ok" "CBB_flush sys s2 out = (True, s3)" for s3
          using "1.IH"(3) [OF n e [symmetric] refl refl refl refl ne o [symmetric] refl refl
              b [unfolded body_def, symmetric] _ refl] that by simp
        ultimately show ?thesis
          using l unfolding step using n e o ne b
          by (auto simp flip: body_def split: bool.splits prod.splits)
      qed
    qed
  qed
qed

termination cbs_convert_ber
proof (relation "measure (\<lambda>(sys, inp, _). length inp)", goal_cases)
  case 1
  then show ?case by simp
next
  case 2
  then show ?case by (auto dest!: ber_element_length [OF sym])
next
  case 3
  then show ?case by (auto dest!: ber_element_length [OF sym] simp: CBS_skip_Some eq_commute [of "(Some (), _)"])
next
  case (4 sys inp s out st lk dp e inp1 q c r tag r' hl bf o1 s1 w ch cst x body inp2 s2)
  have "length inp2 \<le> length inp1"
  proof (cases "is_indefinite hl c")
    case True
    then show ?thesis using 4(12,14) convert_ber_rest_dom [OF 4(18) [OF True]]
      by (cases "cbs_convert_ber sys inp1 s1 ch cst True (dp + 1)") simp
  next
    case False
    then show ?thesis using 4(12,14) by (auto split: prod.splits option.splits if_split_asm)
  qed
  moreover have "length inp1 < length inp" using ber_element_length [OF 4(3) [unfolded 4(4), symmetric, unfolded 4(5-7) [symmetric]]] by auto
  ultimately show ?case by simp
qed

declare cbs_convert_ber.simps [simp del]

definition CBS_asn1_ber_to_der :: "(nat \<Rightarrow> bool) \<Rightarrow> cbs \<Rightarrow> (cbs \<times> bool) option \<times> cbs" where
  "CBS_asn1_ber_to_der sys inp =
     (case cbs_find_ber inp False 0 of
        None \<Rightarrow> (None, inp)
      | Some False \<Rightarrow> ok_do (CBS_get_any_asn1_element inp) (\<lambda>(out, _, _) inp. (Some (out, False), inp))
      | Some True \<Rightarrow>
          (case CBB_init sys (CBS_len inp) of
             (False, _) \<Rightarrow> (None, inp)
           | (True, cbb) \<Rightarrow>
               (case cbs_convert_ber sys inp cbb 0 0 False 0 of
                  (False, inp, _) \<Rightarrow> (None, inp)
                | (True, inp, cbb) \<Rightarrow>
                    (case CBB_finish sys cbb 0 True of
                       (None, _) \<Rightarrow> (None, inp)
                     | (Some der, _) \<Rightarrow> (Some (CBS_init der (length der), True), inp)))))"

text \<open>The loop over the pieces of a constructed string.\<close>

function add_chunks :: "(nat \<Rightarrow> bool) \<Rightarrow> cbs \<Rightarrow> u32 \<Rightarrow> cbb_st \<Rightarrow> bool \<times> cbb_st" where
  "add_chunks sys child inner_tag result =
     (if CBS_len child = 0 then (True, result)
      else case CBS_get_asn1 child inner_tag of
             (None, _) \<Rightarrow> (False, result)
           | (Some chunk, child) \<Rightarrow>
               then_do (CBB_add_bytes sys result 0 chunk) (add_chunks sys child inner_tag))"
  by pat_completeness auto
termination
  by (relation "measure (\<lambda>(_, child, _). length child)") (auto simp: get_asn1 length_der_enc eq_commute [of "(Some _, _)"])

declare add_chunks.simps [simp del]

definition CBS_get_asn1_implicit_string ::
  "(nat \<Rightarrow> bool) \<Rightarrow> cbs \<Rightarrow> u32 \<Rightarrow> u32 \<Rightarrow> (cbs \<times> bool) option \<times> cbs" where
  "CBS_get_asn1_implicit_string sys inp outer_tag inner_tag =
     (if CBS_peek_asn1_tag inp outer_tag
      then ok_do (CBS_get_asn1 inp outer_tag) (\<lambda>out inp. (Some (out, False), inp))
      else case CBB_init sys (CBS_len inp) of
             (False, _) \<Rightarrow> (None, inp)
           | (True, result) \<Rightarrow>
               ok_do (CBS_get_asn1 inp (outer_tag OR CBS_ASN1_CONSTRUCTED)) (\<lambda>child inp.
                 case add_chunks sys child inner_tag result of
                   (False, _) \<Rightarrow> (None, inp)
                 | (True, result) \<Rightarrow>
                     (case CBB_finish sys result 0 True of
                        (None, _) \<Rightarrow> (None, inp)
                      | (Some data, _) \<Rightarrow> (Some (CBS_init data (length data), True), inp))))"

section \<open>What BER means\<close>

text \<open>
  \<open>ber_der st bytes der\<close>: \<open>bytes\<close> is a sequence of BER elements and \<open>der\<close> is its DER form; with \<open>st\<close> other than zero, it is a
  sequence of pieces of a string type \<open>st\<close> and \<open>der\<close> are the joined contents. \<open>ber_body st tag e c\<close>: \<open>e\<close> is one element
  with the identifier \<open>tag\<close> and the DER form of its contents is \<open>c\<close>.
\<close>

inductive ber_der :: "u32 \<Rightarrow> u8 list \<Rightarrow> u8 list \<Rightarrow> bool"
  and ber_body :: "u32 \<Rightarrow> u32 \<Rightarrow> u8 list \<Rightarrow> u8 list \<Rightarrow> bool" where
  no_elements: "ber_der st [] []"
| an_element: "ber_body 0 tag e c \<Longrightarrow> e \<noteq> [0, 0] \<Longrightarrow> \<not> (constructed tag \<and> is_string_type tag) \<Longrightarrow> length c < 2 ^ 32 - 1 \<Longrightarrow>
    ber_der 0 r w \<Longrightarrow> ber_der 0 (e @ r) (der_enc (tag, c) @ w)"
| a_string: "ber_body t tag e c \<Longrightarrow> constructed tag \<Longrightarrow> is_string_type tag \<Longrightarrow> t = tag AND NOT CBS_ASN1_CONSTRUCTED \<Longrightarrow>
    length c < 2 ^ 32 - 1 \<Longrightarrow> ber_der 0 r w \<Longrightarrow> ber_der 0 (e @ r) (der_enc (t, c) @ w)"
| a_chunk: "ber_body st tag e c \<Longrightarrow> st \<noteq> 0 \<Longrightarrow> tag AND NOT CBS_ASN1_CONSTRUCTED = st \<Longrightarrow> ber_der st r w \<Longrightarrow>
    ber_der st (e @ r) (c @ w)"
| primitive: "\<not> constructed tag \<Longrightarrow> ber_header tag (Some (length c)) h \<Longrightarrow> ber_body st tag (h @ c) c"
| definite: "constructed tag \<Longrightarrow> ber_header tag (Some (length b)) h \<Longrightarrow> ber_der st b c \<Longrightarrow> ber_body st tag (h @ b) c"
| indefinite: "ber_header tag None h \<Longrightarrow> ber_der st b c \<Longrightarrow> ber_body st tag (h @ b @ [0, 0]) c"

definition element_body where
  "element_body sys inp s ch cst dp c tag hl =
     (if is_indefinite hl c then cbs_convert_ber sys inp s ch cst True (dp + 1)
      else case CBS_skip c hl of
             (None, _) \<Rightarrow> (False, inp, s)
           | (Some _, c) \<Rightarrow>
               if constructed tag
               then case cbs_convert_ber sys c s ch cst False (dp + 1) of (ok, _, s) \<Rightarrow> (ok, inp, s)
               else case CBB_add_bytes sys s ch c of (ok, s) \<Rightarrow> (ok, inp, s))"

lemma convert_step:
  assumes "cbs_convert_ber sys inp s out st lk dp = (True, rest, s')" "inp \<noteq> []"
  obtains c tag hl bf inp1 where "CBS_get_any_ber_asn1_element inp = (Some (c, tag, hl, bf), inp1)"
    "is_eoc hl c" "lk" "rest = inp1" "s' = s"
  | c tag hl bf inp1 ch cst s1 inp2 s2 s3 where
    "CBS_get_any_ber_asn1_element inp = (Some (c, tag, hl, bf), inp1)" "\<not> is_eoc hl c"
    "out_contents sys s out st tag = (Some (ch, cst), s1)"
    "element_body sys inp1 s1 ch cst dp c tag hl = (True, inp2, s2)" "CBB_flush sys s2 out = (True, s3)"
    "cbs_convert_ber sys inp2 s3 out st lk dp = (True, rest, s')"
  using assms by (subst (asm) cbs_convert_ber.simps)
    (simp add: CBS_len_def element_body_def [symmetric] split: if_split_asm prod.split_asm option.split_asm bool.split_asm; blast)

lemma is_eoc_iff: "is_eoc hl c \<longleftrightarrow> hl = 2 \<and> c = [0, 0]"
  using OPENSSL_memcmp_zero [of c "[0, 0]"] by (auto simp: is_eoc_def CBS_len_def numeral_2_eq_2)

text \<open>A definite header never ends in 0x80 without contents, so the code's test recognises the indefinite form.\<close>

lemma is_indefinite_header:
  assumes "is_indefinite (length h) (h @ c)" "ber_header tag (Some (length c)) h"
  shows False
proof -
  have c: "c = []" and l: "h \<noteq> []" "h ! (length h - 1) = 0x80" using assms(1) by (auto simp: is_indefinite_def CBS_len_def)
  then have l: "List.last h = 0x80" by (simp add: last_conv_nth)
  from assms(2) have "h = tag_enc tag @ [of_nat 0] \<or> (\<exists>k \<in> {1..4}. h = tag_enc tag @ of_nat (128 + k) # be_bytes k 0)"
    unfolding ber_header_def c option.case list.size by blast
  then show False
  proof
    assume "h = tag_enc tag @ [of_nat 0]"
    then show False using l by simp
  next
    assume "\<exists>k \<in> {1..4}. h = tag_enc tag @ of_nat (128 + k) # be_bytes k 0"
    then obtain k where k: "k \<in> {1..4 :: nat}" "h = tag_enc tag @ of_nat (128 + k) # be_bytes k 0" by blast
    then obtain j where "k = Suc j" by (cases k) auto
    then have "List.last h = 0" using k(2) by simp
    then show False using l by simp
  qed
qed

lemma string_type_nonzero: "is_string_type tag \<Longrightarrow> tag AND NOT CBS_ASN1_CONSTRUCTED \<noteq> 0"
  by (auto simp: is_string_type_def CBS_ASN1_OCTETSTRING_def CBS_ASN1_UTF8STRING_def CBS_ASN1_NUMERICSTRING_def
      CBS_ASN1_PRINTABLESTRING_def CBS_ASN1_T61STRING_def CBS_ASN1_VIDEOTEXSTRING_def CBS_ASN1_IA5STRING_def
      CBS_ASN1_GRAPHICSTRING_def CBS_ASN1_VISIBLESTRING_def CBS_ASN1_GENERALSTRING_def
      CBS_ASN1_UNIVERSALSTRING_def CBS_ASN1_BMPSTRING_def)

text \<open>What the conversion promises, for the induction on the length of the input.\<close>

definition converts :: "u8 list \<Rightarrow> bool" where
  "converts inp \<longleftrightarrow> (\<forall>sys s segs out st lk dp rest s'.
     represents s segs \<longrightarrow> length segs = Suc out \<longrightarrow> length inp \<le> SIZE_MAX \<longrightarrow>
     cbs_convert_ber sys inp s out st lk dp = (True, rest, s') \<longrightarrow>
     (\<exists>used c. ber_der st used c \<and> inp = used @ (if lk then [0, 0] else []) @ rest \<and> (lk \<or> rest = []) \<and>
       represents s' (add_seg c segs)))"

lemma convertsD:
  assumes "converts inp" "represents s segs" "length segs = Suc out" "length inp \<le> SIZE_MAX"
    "cbs_convert_ber sys inp s out st lk dp = (True, rest, s')"
  obtains used c where "ber_der st used c" "inp = used @ (if lk then [0, 0] else []) @ rest" "lk \<or> rest = []"
    "represents s' (add_seg c segs)"
  using assms unfolding converts_def by blast

lemma element_body_sound:
  assumes IH: "\<And>i. length i < length inp \<Longrightarrow> converts i"
    and e: "CBS_get_any_ber_asn1_element inp = (Some (c, tag, hl, bf), inp1)"
    and r: "represents s segs" "length segs = Suc ch" and size: "length inp \<le> SIZE_MAX"
    and body: "element_body sys inp1 s ch cst dp c tag hl = (True, inp2, s2)"
  shows "\<exists>e d. inp = e @ inp2 \<and> e \<noteq> [] \<and> (e = [0, 0] \<longrightarrow> c = [0, 0] \<and> hl = 2) \<and> ber_body cst tag e d \<and>
    represents s2 (add_seg d segs)"
proof -
  from ber_element [OF e] obtain h b where hb: "c = h @ b" "inp = h @ b @ inp1" "hl = length h" "2 \<le> hl"
    "ber_header tag (Some (length b)) h \<or> ber_header tag None h \<and> b = []" by blast
  have len: "length inp1 < length inp" "length b < length inp" using hb(2-4) by auto
  show ?thesis
  proof (cases "is_indefinite hl c")
    case True
    then have h: "ber_header tag None h" "b = []" using hb is_indefinite_header [of h b tag] by auto
    have conv: "cbs_convert_ber sys inp1 s ch cst True (dp + 1) = (True, inp2, s2)"
      using body True by (simp add: element_body_def)
    have "converts inp1" "length inp1 \<le> SIZE_MAX" using IH [OF len(1)] len(1) size by simp_all
    from convertsD [OF this(1) r this(2) conv] obtain used d where
      u: "ber_der cst used d" "inp1 = used @ [0, 0] @ inp2" "represents s2 (add_seg d segs)" by auto
    show ?thesis
    proof (intro exI conjI)
      show "inp = (h @ used @ [0, 0]) @ inp2" using hb(2) h(2) u(2) by simp
      show "ber_body cst tag (h @ used @ [0, 0]) d" by (rule indefinite [OF h(1) u(1)])
      show "represents s2 (add_seg d segs)" by (rule u(3))
      show "h @ used @ [0, 0] = [0, 0] \<longrightarrow> c = [0, 0] \<and> hl = 2" using hb(3,4) by (cases h) auto
    qed simp
  next
    case False
    have def: "ber_header tag (Some (length b)) h" 
    proof (rule ccontr)
      assume "\<not> ?thesis"
      then have "h = tag_enc tag @ [0x80]" "b = []" using hb(5) by (auto simp: ber_header_def)
      then show False using False hb(1,3) by (simp add: is_indefinite_def CBS_len_def)
    qed
    have skip: "CBS_skip c hl = (Some (), b)" using hb(1,3) by simp
    have e0: "h @ b = [0, 0] \<longrightarrow> c = [0, 0] \<and> hl = 2"
    proof
      assume z: "h @ b = [0, 0]"
      have "length (h @ b) = 2" unfolding z by simp
      then have "hl = 2" using hb(3,4) by (simp only: length_append)
      then show "c = [0, 0] \<and> hl = 2" using hb(1) z by (simp only:)
    qed
    show ?thesis
    proof (cases "constructed tag")
      case True
      then obtain x where conv: "cbs_convert_ber sys b s ch cst False (dp + 1) = (True, x, s2)" "inp2 = inp1"
        using body False skip by (auto simp: element_body_def split: prod.splits)
      have "converts b" "length b \<le> SIZE_MAX" using IH [OF len(2)] len(2) size by simp_all
      from convertsD [OF this(1) r this(2) conv(1)] obtain d where
        u: "ber_der cst b d" "represents s2 (add_seg d segs)" by auto
      then show ?thesis using definite [OF True def u(1)] hb(2,3,4) conv(2) e0
        by (intro exI [of _ "h @ b"] exI [of _ d]) auto
    next
      case prim: False
      then have add: "CBB_add_bytes sys s ch b = (True, s2)" "inp2 = inp1"
        using body False skip by (auto simp: element_body_def split: prod.splits)
      have "length b \<le> SIZE_MAX" using hb(2) size by simp
      from CBB_add_bytes_refines [OF r(1) _ this add(1)] r(2) have "represents s2 (add_seg b segs)"
        by (simp add: flush_segs_last)
      then show ?thesis using primitive [OF prim def] hb(2,3,4) add(2) e0
        by (intro exI [of _ "h @ b"] exI [of _ b]) auto
    qed
  qed
qed

text \<open>One element and the flush after it.\<close>

lemma element_sound:
  assumes IH: "\<And>i. length i < length inp \<Longrightarrow> converts i"
    and e: "CBS_get_any_ber_asn1_element inp = (Some (c, tag, hl, bf), inp1)" "\<not> is_eoc hl c"
    and r: "represents s segs" "length segs = Suc out" and size: "length inp \<le> SIZE_MAX"
    and o: "out_contents sys s out st tag = (Some (ch, cst), s1)"
    and body: "element_body sys inp1 s1 ch cst dp c tag hl = (True, inp2, s2)"
    and flush: "CBB_flush sys s2 out = (True, s3)"
  shows "\<exists>e d. inp = e @ inp2 \<and> e \<noteq> [] \<and> represents s3 (add_seg d segs) \<and>
    (\<forall>r w. ber_der st r w \<longrightarrow> ber_der st (e @ r) (d @ w))"
proof (cases "st = 0")
  case False
  then have o': "ch = out" "cst = st" "s1 = s" "tag AND NOT CBS_ASN1_CONSTRUCTED = st"
    using o by (auto simp: out_contents_def split: if_split_asm)
  from element_body_sound [OF IH e(1) r size body [unfolded o'(1-3)]] obtain x d where
    d: "inp = x @ inp2" "x \<noteq> []" "ber_body st tag x d" "represents s2 (add_seg d segs)" by blast
  have "length (add_seg d segs) = Suc out" using r(2) by (metis length_add_seg length_0_conv nat.distinct(1))
  with CBB_flush_refines [OF d(4) _ flush] have "represents s3 (add_seg d segs)" by (simp add: flush_segs_last)
  then show ?thesis using d a_chunk [OF d(3) False o'(4)] by blast
next
  case True
  define t where "t = (if constructed tag \<and> is_string_type tag then tag AND NOT CBS_ASN1_CONSTRUCTED else tag)"
  from o True have o': "CBB_add_asn1 sys s out t = (True, s1)" "ch = Suc out"
    "cst = (if constructed tag \<and> is_string_type tag then t else 0)"
    by (auto simp: out_contents_def t_def Let_def split: prod.splits bool.splits)
  have ne: "segs \<noteq> []" using r(2) by auto
  have "represents s1 (add_seg (tag_enc t) segs @ [(Asn1Prefix, [])])"
    using CBB_add_asn1_refines [OF r(1) _ o'(1)] r(2) by (simp add: flush_segs_last)
  moreover have "length (add_seg (tag_enc t) segs @ [(Asn1Prefix, [])]) = Suc ch" using r(2) ne o'(2) by simp
  ultimately obtain x d where d: "inp = x @ inp2" "x \<noteq> []" "x = [0, 0] \<longrightarrow> c = [0, 0] \<and> hl = 2" "ber_body cst tag x d"
    "represents s2 (add_seg (tag_enc t) segs @ [(Asn1Prefix, d)])"
    using element_body_sound [OF IH e(1) _ _ size body] by fastforce
  from element_written [OF d(5) r(2) flush] have w: "represents s3 (add_seg (der_enc (t, d)) segs)" "length d < 2 ^ 32 - 1"
    by auto
  have eoc: "x \<noteq> [0, 0]" using d(3) e(2) is_eoc_iff by blast
  have "ber_der 0 (x @ r) (der_enc (t, d) @ w)" if "ber_der 0 r w" for r w
  proof (cases "constructed tag \<and> is_string_type tag")
    case True
    then show ?thesis using a_string [OF d(4) _ _ _ w(2) that] o'(3) by (simp add: t_def)
  next
    case False
    then have "t = tag" "cst = 0" unfolding t_def o'(3) by (rule if_not_P)+
    then show ?thesis using an_element [OF _ eoc False w(2) that] d(4) by simp
  qed
  then show ?thesis using d(1,2) w(1) True by blast
qed

lemma convert_sound: "converts inp"
proof (induction "length inp" arbitrary: inp rule: less_induct)
  case less
  note IH = less.hyps
  show ?case unfolding converts_def
  proof (intro allI impI)
    fix sys s segs out st lk dp rest s'
    assume r: "represents s segs" "length segs = Suc out" and size: "length inp \<le> SIZE_MAX"
      and conv: "cbs_convert_ber sys inp s out st lk dp = (True, rest, s')"
    have ne: "segs \<noteq> []" using r(2) by auto
    let ?goal = "\<exists>used c. ber_der st used c \<and> inp = used @ (if lk then [0, 0] else []) @ rest \<and> (lk \<or> rest = []) \<and>
       represents s' (add_seg c segs)"
    show ?goal
    proof (cases "inp = []")
      case True
      then have "\<not> lk" "rest = []" "s' = s"
        using conv by (simp_all add: cbs_convert_ber.simps CBS_len_def split: if_split_asm)
      then show ?thesis using True r ne by (intro exI [of _ "[]"] exI [of _ "[]"]) (simp add: no_elements)
    next
      case False
      from conv False show ?thesis
      proof (cases rule: convert_step)
        case (1 c tag hl bf inp1)
        from ber_element [OF 1(1)] obtain h b where "c = h @ b" "inp = h @ b @ inp1" by blast
        then have "inp = [0, 0] @ inp1" using 1(2) is_eoc_iff by auto
        then show ?thesis using 1 r ne by (intro exI [of _ "[]"] exI [of _ "[]"]) (simp add: no_elements)
      next
        case (2 c tag hl bf inp1 ch cst s1 inp2 s2 s3)
        have "\<And>i. length i < length inp \<Longrightarrow> converts i" using IH by blast
        from element_sound [OF this 2(1,2) r size 2(3-5)] obtain e d where
          e: "inp = e @ inp2" "e \<noteq> []" "represents s3 (add_seg d segs)"
          "\<And>r w. ber_der st r w \<Longrightarrow> ber_der st (e @ r) (d @ w)" by blast
        have "converts inp2" "length inp2 \<le> SIZE_MAX" using IH [of inp2] e(1,2) size by simp_all
        moreover have "length (add_seg d segs) = Suc out" using r(2) ne by simp
        ultimately obtain used c' where "ber_der st used c'" "inp2 = used @ (if lk then [0, 0] else []) @ rest"
          "lk \<or> rest = []" "represents s' (add_seg c' (add_seg d segs))"
          using convertsD e(3) 2(6) by metis
        then show ?thesis using e(1) e(4) by (intro exI [of _ "e @ used"] exI [of _ "d @ c'"]) simp
      qed
    qed
  qed
qed

text \<open>A conversion that succeeds yields the DER form of the whole input.\<close>

lemma ber_to_der_sound:
  assumes "CBS_asn1_ber_to_der sys inp = (Some (der, True), rest)" "length inp \<le> SIZE_MAX"
  shows "ber_der 0 inp der \<and> rest = []"
proof -
  from assms(1) obtain cbb cbb' s where c: "CBB_init sys (CBS_len inp) = (True, cbb)"
    "cbs_convert_ber sys inp cbb 0 0 False 0 = (True, rest, cbb')" "CBB_finish sys cbb' 0 True = (Some der, s)"
    unfolding CBS_asn1_ber_to_der_def
    by (auto simp: CBS_init_def ok_then_Some split: option.splits bool.splits prod.splits)
  have "represents cbb [(LenPrefix 0, [])]" using CBB_init_represents [OF c(1)] assms(2) by (simp add: CBS_len_def)
  from convertsD [OF convert_sound this _ assms(2) c(2)] obtain d where
    d: "ber_der 0 inp d" "rest = []" "represents cbb' [(LenPrefix 0, d)]" by (auto simp: add_seg_def)
  from CBB_finish_refines [OF d(3) c(3)] d show ?thesis by simp
qed

section \<open>Well-formed DER\<close>

text \<open>
  The identifiers of constructed strings, spelled out: the constructed bit, bit 29, and the universal numbers of
  OCTET STRING and of the character string types of X.680. BIT STRING is not among them, nor are the types
  that are derived from strings by a tag (ObjectDescriptor, UTCTime, GeneralizedTime).
\<close>

definition string_numbers :: "nat list" where
  "string_numbers = [4, 12, 18, 19, 20, 21, 22, 25, 26, 27, 28, 30]"

definition constructed_string :: "u32 \<Rightarrow> bool" where
  "constructed_string tag \<longleftrightarrow> (\<exists>n \<in> set string_numbers. unat tag = 2 ^ 29 + n)"

lemma constructed_string_iff: "constructed_string tag \<longleftrightarrow> constructed tag \<and> is_string_type tag"
proof -
  note defs = is_string_type_def CBS_ASN1_OCTETSTRING_def CBS_ASN1_UTF8STRING_def CBS_ASN1_NUMERICSTRING_def
    CBS_ASN1_PRINTABLESTRING_def CBS_ASN1_T61STRING_def CBS_ASN1_VIDEOTEXSTRING_def CBS_ASN1_IA5STRING_def
    CBS_ASN1_GRAPHICSTRING_def CBS_ASN1_VISIBLESTRING_def CBS_ASN1_GENERALSTRING_def
    CBS_ASN1_UNIVERSALSTRING_def CBS_ASN1_BMPSTRING_def
  have bit: "CBS_ASN1_CONSTRUCTED = 0x20000000" by (simp add: CBS_ASN1_CONSTRUCTED_def CBS_ASN1_TAG_SHIFT_def)
  have dec: "constructed tag \<longleftrightarrow> tag = (tag AND NOT CBS_ASN1_CONSTRUCTED) OR CBS_ASN1_CONSTRUCTED"
  proof -
    have "(0x20000000 :: u32) = 2 ^ 29" by simp
    then have "bit CBS_ASN1_CONSTRUCTED n \<longleftrightarrow> n = 29" for n
      unfolding bit by (auto simp only: bit_exp_iff possible_bit_word) simp
    moreover have "constructed tag \<longleftrightarrow> bit tag 29" using and_exp_eq_0_iff_not_bit [of tag 29] by (simp add: bit)
    ultimately show ?thesis by (auto simp: bit_eq_iff [of tag] bit_or_iff bit_and_iff bit_not_iff dest: spec [of _ 29])
  qed
  show ?thesis
  proof
    assume "constructed_string tag"
    then obtain n where n: "n \<in> set string_numbers" "unat tag = 2 ^ 29 + n" by (auto simp: constructed_string_def)
    then have "tag = of_nat (2 ^ 29 + n)" by (metis of_nat_unat ucast_id)
    with n(1) have "n \<in> set string_numbers \<and> tag = of_nat (2 ^ 29 + n)" by blast
    then show "constructed tag \<and> is_string_type tag" unfolding string_numbers_def by (auto simp: bit defs)
  next
    assume t: "constructed tag \<and> is_string_type tag"
    define k where "k = tag AND NOT CBS_ASN1_CONSTRUCTED"
    from t have "tag = k OR CBS_ASN1_CONSTRUCTED" and "k \<in> {4, 12, 18, 19, 20, 21, 22, 25, 26, 27, 28, 30}"
      unfolding k_def using dec by (auto simp: defs)
    then show "constructed_string tag" by (auto simp: constructed_string_def string_numbers_def bit)
  qed
qed

text \<open>
  Sequences of elements with definite lengths in the shortest form and no constructed strings, down to every depth.
\<close>

inductive der_forest :: "u8 list \<Rightarrow> bool" where
  empty_forest: "der_forest []"
| der_element: "\<not> constructed_string tag \<Longrightarrow> (constructed tag \<Longrightarrow> der_forest c) \<Longrightarrow> length c < 2 ^ 32 - 1 \<Longrightarrow>
    der_forest r \<Longrightarrow> der_forest (der_enc (tag, c) @ r)"

lemma not_constructed: "\<not> constructed (tag AND NOT CBS_ASN1_CONSTRUCTED)"
  by (simp add: and.assoc and.commute [of "NOT CBS_ASN1_CONSTRUCTED"])

lemma ber_der_forest:
  "(ber_der st b d \<longrightarrow> st = 0 \<longrightarrow> der_forest d) \<and> (ber_body st tag e c \<longrightarrow> st = 0 \<longrightarrow> constructed tag \<longrightarrow> der_forest c)"
proof -
  have "(ber_der st b d \<Longrightarrow> st = 0 \<longrightarrow> der_forest d)"
    and "(ber_body st tag e c \<Longrightarrow> st = 0 \<longrightarrow> constructed tag \<longrightarrow> der_forest c)" for st b d tag e c
  proof (induction rule: ber_der_ber_body.inducts)
    case (an_element tag e c r w)
    then show ?case by (auto intro!: der_element simp: constructed_string_iff)
  next
    case (a_string t tag e c r w)
    then show ?case using not_constructed [of tag] by (auto intro!: der_element simp: constructed_string_iff)
  qed (auto intro: empty_forest)
  then show ?thesis by blast
qed

lemma der_forest_first:
  "der_forest (der_enc (tag, c) @ r) \<Longrightarrow> length c < 2 ^ 32 \<Longrightarrow>
    \<not> constructed_string tag \<and> (constructed tag \<longrightarrow> der_forest c) \<and> der_forest r"
proof (erule der_forest.cases)
  assume "der_enc (tag, c) @ r = []"
  then show ?thesis by (simp add: der_enc_def)
next
  fix tag' c' r'
  assume f: "der_enc (tag, c) @ r = der_enc (tag', c') @ r'" "\<not> constructed_string tag'" "constructed tag' \<Longrightarrow> der_forest c'"
    "length c' < 2 ^ 32 - 1" "der_forest r'" and l: "length c < 2 ^ 32"
  have "CBS_get_any_asn1 (der_enc (tag, c) @ r) = (Some (c, tag), r)" unfolding any_asn1 using l by simp
  moreover have "CBS_get_any_asn1 (der_enc (tag, c) @ r) = (Some (c', tag'), r')" unfolding any_asn1 using f(1,4) by simp
  ultimately show ?thesis using f by simp
qed

lemma der_forest_definite: "der_forest x \<Longrightarrow> x \<noteq> [] \<Longrightarrow> \<exists>c tag r. CBS_get_any_asn1 x = (Some (c, tag), r)"
proof (erule der_forest.cases)
  fix tag c r
  assume "x = der_enc (tag, c) @ r" "length c < 2 ^ 32 - 1"
  then have "CBS_get_any_asn1 x = (Some (c, tag), r)" unfolding any_asn1 by simp
  then show ?thesis by blast
qed simp

section \<open>What the search overlooks\<close>

text \<open>\<open>x\<close> starts with an element of indefinite length or with a constructed string.\<close>

definition starts_with_ber :: "u8 list \<Rightarrow> bool" where
  "starts_with_ber x \<longleftrightarrow> (\<exists>tag y. constructed tag \<and> x = tag_enc tag @ 0x80 # y) \<or>
     (\<exists>tag c y. constructed_string tag \<and> length c < 2 ^ 32 \<and> x = der_enc (tag, c) @ y)"

text \<open>What is read in DER mode is read the same way in BER mode.\<close>

lemma long_form_of_der:
  "asn1_long_form cbs tag hl n v False = (Some e, rest) \<Longrightarrow> asn1_long_form cbs tag hl n v True = (Some e, rest)"
  by (auto simp: asn1_long_form_def Let_def split: if_split_asm)

lemma ber_of_der:
  assumes "cbs_get_any_asn1_element cbs False = (Some e, rest)"
  shows "CBS_get_any_ber_asn1_element cbs = (Some e, rest)"
proof -
  from assms obtain tag h b h' where p: "parse_asn1_tag cbs = (Some tag, h)" "CBS_get_u8 h = (Some b, h')"
    unfolding cbs_get_any_asn1_element_def ok_then_Some by blast
  show ?thesis
  proof (cases "b AND 0x80 = 0")
    case True
    then show ?thesis using assms p unfolding CBS_get_any_ber_asn1_element_def cbs_get_any_asn1_element_def
      by (simp add: Let_def)
  next
    case False
    then have n: "unat (b AND 0x7f) \<noteq> 0" "\<not> 4 < unat (b AND 0x7f)"
      using assms p unfolding cbs_get_any_asn1_element_def by (auto simp: Let_def split: if_split_asm)
    obtain v u where "cbs_get_u h' (unat (b AND 0x7f)) = (v, u)" by fastforce
    then show ?thesis using assms p n False long_form_of_der
      unfolding CBS_get_any_ber_asn1_element_def cbs_get_any_asn1_element_def
      by (cases v) (auto simp: Let_def)
  qed
qed

lemma ber_element_enc:
  assumes "length c < 2 ^ 32"
  shows "\<exists>hl. CBS_get_any_ber_asn1_element (der_enc (tag, c) @ r) = (Some (der_enc (tag, c), tag, hl, False), r) \<and>
    CBS_skip (der_enc (tag, c)) hl = (Some (), c)"
proof -
  have "cbs_get_any_asn1_element (der_enc (tag, c) @ r) False =
      (Some (der_enc (tag, c), tag, length (tag_enc tag) + length (der_length (length c)), False), r)"
    unfolding any_asn1_element_der using assms by blast
  from ber_of_der [OF this] show ?thesis by (intro exI conjI) (assumption, simp)
qed

lemma ber_element_indefinite:
  assumes "constructed tag"
  shows "CBS_get_any_ber_asn1_element (tag_enc tag @ 0x80 # y) =
    (Some (tag_enc tag @ [0x80], tag, Suc (length (tag_enc tag)), True), y)"
proof -
  have p: "parse_asn1_tag (tag_enc tag @ 0x80 # y) = (Some tag, 0x80 # y)" by (simp add: tag_codec.dec_Some_iff)
  have z: "unat ((0x80 :: u8) AND 0x7f) = 0" "(0x80 :: u8) AND 0x80 \<noteq> 0" by simp_all
  show ?thesis unfolding CBS_get_any_ber_asn1_element_def cbs_get_any_asn1_element_def p
    using assms z by (simp add: Let_def element_bytes_Some header_length)
qed

lemma find_ber_found: "starts_with_ber x \<Longrightarrow> depth \<le> kMaxDepth \<Longrightarrow> cbs_find_ber x found depth = Some True"
proof -
  assume x: "starts_with_ber x" and d: "depth \<le> kMaxDepth"
  from x show ?thesis unfolding starts_with_ber_def
  proof (elim disjE exE conjE)
    fix tag y
    assume "constructed tag" "x = tag_enc tag @ 0x80 # y"
    then show ?thesis using d
      by (subst cbs_find_ber.simps) (simp add: CBS_len_def ber_element_indefinite)
  next
    fix tag c y
    assume t: "constructed_string tag" "length c < 2 ^ 32" "x = der_enc (tag, c) @ y"
    obtain hl where "CBS_get_any_ber_asn1_element x = (Some (der_enc (tag, c), tag, hl, False), y)"
      using ber_element_enc [OF t(2)] t(3) by blast
    then show ?thesis using t d
      by (subst cbs_find_ber.simps) (simp add: CBS_len_def der_enc_def constructed_string_iff)
  qed
qed

lemma find_ber_element:
  assumes "length c < 2 ^ 32" "depth \<le> kMaxDepth" "\<not> constructed_string tag"
  shows "cbs_find_ber (der_enc (tag, c) @ r) found depth =
    (if constructed tag then Option.bind (cbs_find_ber c False (depth + 1)) (\<lambda>found. cbs_find_ber r found depth)
     else cbs_find_ber r False depth)"
proof -
  obtain hl where e: "CBS_get_any_ber_asn1_element (der_enc (tag, c) @ r) = (Some (der_enc (tag, c), tag, hl, False), r)"
    "CBS_skip (der_enc (tag, c)) hl = (Some (), c)" using ber_element_enc [OF assms(1)] by blast
  have "CBS_len (der_enc (tag, c) @ r) \<noteq> 0" by (simp add: CBS_len_def der_enc_def)
  then show ?thesis using assms e
    by (subst cbs_find_ber.simps) (auto simp: constructed_string_iff split: option.splits)
qed

lemma length_der_enc_ge: "length c \<le> length (der_enc (tag, c))"
  by (simp add: der_enc_def)

abbreviation elements :: "(u32 \<times> u8 list) list \<Rightarrow> u8 list" where
  "elements es \<equiv> concat (map der_enc es)"

definition primitive_elements :: "(u32 \<times> u8 list) list \<Rightarrow> bool" where
  "primitive_elements es \<longleftrightarrow> list_all (\<lambda>e. \<not> constructed (fst e)) es"

lemma find_ber_primitive:
  "primitive_elements es \<Longrightarrow> length (elements es) < 2 ^ 32 \<Longrightarrow> depth \<le> kMaxDepth \<Longrightarrow>
    cbs_find_ber (elements es @ r) found depth = cbs_find_ber r (if es = [] then found else False) depth"
proof (induction es arbitrary: found)
  case (Cons e es)
  obtain tag c where e: "e = (tag, c)" by fastforce
  have "length c < 2 ^ 32" "length (elements es) < 2 ^ 32"
    using Cons.prems(2) length_der_enc_ge [of c tag] by (simp_all add: e)
  then show ?case using Cons.prems Cons.IH [of False]
    by (simp add: e primitive_elements_def find_ber_element constructed_string_iff)
qed simp

lemma not_forest_after:
  "length (elements es) < 2 ^ 32 \<Longrightarrow> der_forest (elements es @ r) \<Longrightarrow> der_forest r"
proof (induction es)
  case (Cons e es)
  obtain tag c where e: "e = (tag, c)" by fastforce
  have "length c < 2 ^ 32" "length (elements es) < 2 ^ 32"
    using Cons.prems(1) length_der_enc_ge [of c tag] by (simp_all add: e)
  then show ?case using Cons.prems(2) Cons.IH der_forest_first [of tag c "elements es @ r"] by (simp add: e)
qed simp

lemma not_forest_ber: "starts_with_ber x \<Longrightarrow> \<not> der_forest x"
  unfolding starts_with_ber_def
proof (elim disjE exE conjE)
  fix tag y
  assume x: "constructed tag" "x = tag_enc tag @ 0x80 # y"
  show ?thesis
  proof
    assume "der_forest x"
    then obtain c t r where "CBS_get_any_asn1 x = (Some (c, t), r)" using der_forest_definite x(2) by fastforce
    then have "length c < 2 ^ 32" "x = der_enc (t, c) @ r" by (simp_all add: any_asn1)
    then show False using ber_element_enc [of c t r] ber_element_indefinite [OF x(1), of y] x(2) by auto
  qed
next
  fix tag c y
  assume "constructed_string tag" "length c < 2 ^ 32" "x = der_enc (tag, c) @ y"
  then show ?thesis using der_forest_first by blast
qed

section \<open>Implicitly tagged strings\<close>

lemma add_chunks_represents:
  "represents s [(LenPrefix 0, a)] \<Longrightarrow> length child \<le> SIZE_MAX \<Longrightarrow> add_chunks sys child tag s = (True, s') \<Longrightarrow>
    \<exists>chunks. child = concat (map (\<lambda>c. der_enc (tag, c)) chunks) \<and> represents s' [(LenPrefix 0, a @ concat chunks)]"
proof (induction sys child tag s arbitrary: a rule: add_chunks.induct)
  case (1 sys child tag s)
  show ?case
  proof (cases "child = []")
    case True
    then show ?thesis using "1.prems" by (intro exI [of _ "[]"]) (simp add: add_chunks.simps CBS_len_def)
  next
    case False
    from "1.prems"(3) False obtain c r t where c: "CBS_get_asn1 child tag = (Some c, r)"
      "CBB_add_bytes sys s 0 c = (True, t)" "add_chunks sys r tag t = (True, s')"
      by (subst (asm) add_chunks.simps) (auto simp: CBS_len_def then_do_True split: prod.splits option.splits)
    then have child: "child = der_enc (tag, c) @ r" by (simp add: get_asn1)
    have l: "length c \<le> SIZE_MAX" "length r \<le> SIZE_MAX" using "1.prems"(2) by (simp_all add: child der_enc_def)
    have "represents t [(LenPrefix 0, a @ c)]"
      using CBB_add_bytes_refines [OF "1.prems"(1) _ l(1) c(2)] by (simp add: flush_segs_last add_seg_def)
    from "1.IH" [OF _ c(1) [symmetric] refl this l(2) c(3)] False obtain chunks where
      "r = concat (map (\<lambda>c. der_enc (tag, c)) chunks)" "represents s' [(LenPrefix 0, (a @ c) @ concat chunks)]"
      by (auto simp: CBS_len_def)
    then show ?thesis using child by (intro exI [of _ "c # chunks"]) simp
  qed
qed

lemma implicit_string:
  assumes "CBS_get_asn1_implicit_string sys inp outer_tag inner_tag = (Some (out, stored), rest)" "length inp \<le> SIZE_MAX"
  shows "(if stored then \<exists>chunks. inp = der_enc (outer_tag OR CBS_ASN1_CONSTRUCTED, concat (map (\<lambda>c. der_enc (inner_tag, c)) chunks)) @ rest \<and>
        out = concat chunks
      else inp = der_enc (outer_tag, out) @ rest)"
proof (cases "CBS_peek_asn1_tag inp outer_tag")
  case True
  then show ?thesis using assms(1)
    by (auto simp: CBS_get_asn1_implicit_string_def ok_then_Some get_asn1)
next
  case False
  obtain ok a where a: "CBB_init sys (CBS_len inp) = (ok, a)" by fastforce
  have ok using False assms(1) a by (cases ok) (simp_all add: CBS_get_asn1_implicit_string_def)
  with False assms(1) a obtain child t where child: "CBS_get_asn1 inp (outer_tag OR CBS_ASN1_CONSTRUCTED) = (Some child, t)"
    and k: "(case add_chunks sys child inner_tag a of (False, _) \<Rightarrow> (None, t)
      | (True, result) \<Rightarrow> (case CBB_finish sys result 0 True of (None, _) \<Rightarrow> (None, t)
         | (Some data, _) \<Rightarrow> (Some (CBS_init data (length data), True), t))) = (Some (out, stored), rest)"
    by (auto simp: CBS_get_asn1_implicit_string_def ok_then_Some)
  obtain ok2 b where b: "add_chunks sys child inner_tag a = (ok2, b)" by fastforce
  obtain f s where f: "CBB_finish sys b 0 True = (f, s)" by fastforce
  have r: "CBB_init sys (CBS_len inp) = (True, a)"
    "CBS_get_asn1 inp (outer_tag OR CBS_ASN1_CONSTRUCTED) = (Some child, rest)"
    "add_chunks sys child inner_tag a = (True, b)" "CBB_finish sys b 0 True = (Some out, s)" "stored"
    using a \<open>ok\<close> child k b f by (cases ok2; cases f; simp add: CBS_init_def)+
  have inp: "inp = der_enc (outer_tag OR CBS_ASN1_CONSTRUCTED, child) @ rest" using r(2) by (simp add: get_asn1)
  have l: "length child \<le> SIZE_MAX" using assms(2) by (simp add: inp der_enc_def)
  have "represents a [(LenPrefix 0, [])]" using CBB_init_represents [OF r(1)] assms(2) by (simp add: CBS_len_def)
  from add_chunks_represents [OF this l r(3)] obtain chunks where
    c: "child = concat (map (\<lambda>c. der_enc (inner_tag, c)) chunks)" "represents b [(LenPrefix 0, concat chunks)]" by auto
  from CBB_finish_refines [OF c(2) r(4)] show ?thesis using inp c(1) r(5) by auto
qed

section \<open>Finishing into a caller's buffer\<close>

text \<open>
  \<open>CBB_finish_i2d\<close> of \<open>asn1_compat.c\<close>. The \<open>outp\<close> argument is \<open>NULL\<close>, or a pointer to \<open>NULL\<close>, or a pointer to a position in a
  buffer; then the bytes are stored there and the position moves on. -1 is the result of a failure.
\<close>

datatype i2d_out = OutNull | OutAlloc "u8 list option" | OutBuffer "u8 list" nat

definition CBB_finish_i2d :: "(nat \<Rightarrow> bool) \<Rightarrow> cbb_st \<Rightarrow> nat \<Rightarrow> i2d_out \<Rightarrow> int \<times> i2d_out \<times> cbb_st" where
  "CBB_finish_i2d sys s d outp =
     (case CBB_finish sys s d True of
        (None, s) \<Rightarrow> (-1, outp, CBB_cleanup s d)
      | (Some der, s) \<Rightarrow>
          if INT_MAX < length der then (-1, outp, s)
          else (int (length der),
                (case outp of
                   OutNull \<Rightarrow> OutNull
                 | OutAlloc None \<Rightarrow> OutAlloc (Some der)
                 | OutAlloc (Some buf) \<Rightarrow> OutBuffer (der @ drop (length der) buf) (length der)
                 | OutBuffer buf pos \<Rightarrow>
                     OutBuffer (take pos buf @ der @ drop (pos + length der) buf) (pos + length der)),
                s))"

lemma finish_i2d:
  assumes "represents s segs" "CBB_finish_i2d sys s 0 (OutAlloc None) = (n, outp, s')" "n \<noteq> -1"
  shows "n = int (length (close_segs segs)) \<and> n \<le> int INT_MAX \<and> outp = OutAlloc (Some (close_segs segs)) \<and> cbb_frames s' = []"
proof -
  obtain r t where f: "CBB_finish sys s 0 True = (r, t)" by fastforce
  with assms(2,3) obtain der where r: "r = Some der" by (cases r) (auto simp: CBB_finish_i2d_def)
  from CBB_finish_refines [OF assms(1) f [unfolded r]] show ?thesis
    using assms(2,3) f r by (auto simp: CBB_finish_i2d_def split: if_split_asm)
qed

section \<open>Properties\<close>

text \<open>
  C37. When \<open>CBS_asn1_ber_to_der\<close> converts, the result is the DER form of the whole input, every element with its
  identifier, in order: indefinite and long lengths become the shortest definite ones, and the pieces of
  a constructed string are joined into one primitive string. All of the input is consumed.
\<close>

theorem ber_to_der_refines:
  assumes "CBS_asn1_ber_to_der sys inp = (Some (der, True), rest)" "length inp \<le> SIZE_MAX"
  shows "ber_der 0 inp der \<and> rest = []"
  using assms by (rule ber_to_der_sound)

text \<open>A constructed octet string of indefinite length in one piece, followed through the conversion.\<close>

abbreviation ber_demo :: "u8 list" where
  "ber_demo \<equiv> [0x24, 0x80, 0x04, 0x01, 0x61, 0, 0]"

lemma demo_ber_elements:
  "CBS_get_any_ber_asn1_element ber_demo = (Some ([0x24, 0x80], 0x20000004, 2, True), [0x04, 0x01, 0x61, 0, 0])"
  "CBS_get_any_ber_asn1_element [0x04, 0x01, 0x61, 0, 0] = (Some ([0x04, 0x01, 0x61], 4, 2, False), [0, 0])"
  "CBS_get_any_ber_asn1_element [0, 0] = (Some ([0, 0], 0, 2, False), [])"
  "cbs_find_ber ber_demo False 0 = Some True"
  by code_simp+

lemma demo_tags:
  "(0x20000004 :: u32) AND NOT CBS_ASN1_CONSTRUCTED = 4" "constructed 0x20000004" "\<not> constructed 4"
  "is_string_type 0x20000004" "(4 :: u32) AND NOT CBS_ASN1_CONSTRUCTED = 4" "tag_enc 4 = [4]"
  by (simp_all add: CBS_ASN1_CONSTRUCTED_def CBS_ASN1_TAG_SHIFT_def is_string_type_def CBS_ASN1_OCTETSTRING_def tag_enc_def
      CBS_ASN1_TAG_NUMBER_MASK_def)

lemma demo_ber_converted: "\<exists>rest. CBS_asn1_ber_to_der always ber_demo = (Some ([0x04, 0x01, 0x61], True), rest)"
proof -
  have m: "OPENSSL_malloc always 7"
    by (simp add: OPENSSL_malloc_def OPENSSL_MALLOC_PREFIX_def size_t_def)
  then obtain s0 where i: "CBB_init always 7 = (True, s0)"
    by (simp add: CBB_init_def cbb_init_def OPENSSL_malloc_def OPENSSL_MALLOC_PREFIX_def sizeof_cbb_buffer_st_def size_t_def)
  then have c0: "open_chain s0 [(LenPrefix 0, [])]"
    using CBB_init_represents [OF i] by (simp add: open_chain_def SIZE_MAX_def)
  obtain s1 where s1: "CBB_add_asn1 always s0 0 4 = (True, s1)" "open_chain s1 [(LenPrefix 0, [4]), (Asn1Prefix, [])]"
    by (rule open_chain_add_asn1 [OF c0, of 0 4]) (auto simp: flush_segs_def add_seg_def demo_tags)
  obtain s2 where s2: "CBB_add_bytes always s1 1 [0x61] = (True, s2)" "open_chain s2 [(LenPrefix 0, [4]), (Asn1Prefix, [0x61])]"
    by (rule open_chain_add_bytes [OF s1(2), of 1 "[0x61]"]) (auto simp: flush_segs_def add_seg_def)
  have f2: "CBB_flush always s2 1 = (True, s2)"
    using open_chain_last [OF s2(2), of 1] by (intro CBB_flush_deepest) auto
  obtain s3 where s3: "CBB_flush always s2 0 = (True, s3)" "open_chain s3 [(LenPrefix 0, [4, 1, 0x61])]"
    by (rule open_chain_flush [OF s2(2), of 0]) (auto simp: flush_segs_def der_length_def)
  have inner: "cbs_convert_ber always [0x04, 0x01, 0x61, 0, 0] s1 1 4 True 1 = (True, [], s2)"
  proof -
    have "cbs_convert_ber always [0, 0] s2 1 4 True 1 = (True, [], s2)"
      by (subst cbs_convert_ber.simps) (simp add: kMaxDepth_def CBS_len_def demo_ber_elements(3) is_eoc_iff)
    then show ?thesis using s2(1) f2
      by (subst cbs_convert_ber.simps)
        (simp add: kMaxDepth_def CBS_len_def demo_ber_elements(2) is_eoc_iff out_contents_def demo_tags is_indefinite_def
          CBS_skip_def cbs_get_def)
  qed
  have "cbs_convert_ber always ber_demo s0 0 0 False 0 = (True, [], s3)"
  proof -
    have "cbs_convert_ber always [] s3 0 0 False 0 = (True, [], s3)"
      by (subst cbs_convert_ber.simps) (simp add: kMaxDepth_def CBS_len_def)
    then show ?thesis using s1(1) inner s3(1)
      by (subst cbs_convert_ber.simps)
        (simp add: kMaxDepth_def CBS_len_def demo_ber_elements(1) is_eoc_iff out_contents_def demo_tags is_indefinite_def Let_def)
  qed
  moreover have "fst (CBB_finish always s3 0 True) = Some [4, 1, 0x61]"
    using open_chain_finish [OF s3(2)] by simp
  then obtain t where "CBB_finish always s3 0 True = (Some [4, 1, 0x61], t)" by (cases "CBB_finish always s3 0 True") auto
  moreover have "CBS_len ber_demo = 7" by (simp add: CBS_len_def)
  ultimately show ?thesis using i by (simp add: CBS_asn1_ber_to_der_def demo_ber_elements(4) CBS_init_def)
qed

theorem ber_to_der_refines_witness: "ber_der 0 ber_demo [0x04, 0x01, 0x61]"
proof -
  obtain rest where r: "CBS_asn1_ber_to_der always ber_demo = (Some ([0x04, 0x01, 0x61], True), rest)"
    using demo_ber_converted by blast
  have l: "length ber_demo \<le> SIZE_MAX" by (simp add: SIZE_MAX_def)
  from ber_to_der_refines [OF r l] show ?thesis by blast
qed

text \<open>
  C38. Whatever is converted, the result is well-formed DER at every depth: definite lengths in the shortest form and no
  constructed OCTET STRING or character string. The code leaves a constructed BIT STRING as it is (on purpose, as its
  comment says), and \<open>internal.h\<close> says that not all deviations from DER are converted.
\<close>

theorem ber_output_well_formed:
  assumes "CBS_asn1_ber_to_der sys inp = (Some (der, True), rest)" "length inp \<le> SIZE_MAX"
  shows "der_forest der"
  using ber_to_der_sound [OF assms] ber_der_forest by blast

theorem ber_output_well_formed_witness: "der_forest [0x04, 0x01, 0x61]"
proof -
  obtain rest where r: "CBS_asn1_ber_to_der always ber_demo = (Some ([0x04, 0x01, 0x61], True), rest)"
    using demo_ber_converted by blast
  have l: "length ber_demo \<le> SIZE_MAX" by (simp add: SIZE_MAX_def)
  from ber_output_well_formed [OF r l] show ?thesis .
qed

text \<open>
  C39. The search forgets what it found in a child when primitive siblings follow: in a constructed element, a child that starts
  with an element of indefinite length or with a constructed string, some primitive DER elements before it and at least
  one after it. Nothing is converted: the input is returned as it is, and it is not DER.
\<close>

theorem nested_ber_missed:
  assumes "constructed t" "\<not> constructed_string t" "constructed u" "\<not> constructed_string u" "starts_with_ber x"
    and "primitive_elements before" "primitive_elements after" "after \<noteq> []"
    and inp: "inp = der_enc (t, elements before @ der_enc (u, x) @ elements after)" and "length inp < 2 ^ 32"
  shows "CBS_asn1_ber_to_der sys inp = (Some (inp, False), []) \<and> \<not> der_forest inp"
proof -
  let ?c = "elements before @ der_enc (u, x) @ elements after"
  have l: "length ?c < 2 ^ 32" using assms(10) length_der_enc_ge [of ?c t] unfolding inp by linarith
  then have lx: "length x < 2 ^ 32" "length (elements before) < 2 ^ 32" "length (elements after) < 2 ^ 32"
    using length_der_enc_ge [of x u] by simp_all
  have "cbs_find_ber (elements after) True 1 = Some False"
    using find_ber_primitive [OF assms(7) lx(3), of 1 "[]" True] assms(8)
    by (simp add: kMaxDepth_def cbs_find_ber.simps CBS_len_def)
  then have "cbs_find_ber ?c False 1 = Some False"
    using find_ber_primitive [OF assms(6) lx(2), of 1 "der_enc (u, x) @ elements after" False] assms(3,4)
      find_ber_found [OF assms(5), of "1 + 1" False] find_ber_element [OF lx(1) _ assms(4), of 1 "elements after"]
    by (simp add: kMaxDepth_def)
  then have "cbs_find_ber inp False 0 = Some False"
    using find_ber_element [OF l _ assms(2), of 0 "[]" False] assms(1) unfolding inp
    by (simp add: kMaxDepth_def cbs_find_ber.simps [of "[]"] CBS_len_def)
  moreover have "\<exists>hl. CBS_get_any_asn1_element inp = (Some (inp, t, hl), [])"
    using any_asn1_element_enc [OF l, of t "[]"] unfolding inp by (auto simp: CBS_get_any_asn1_element_def)
  ultimately have "CBS_asn1_ber_to_der sys inp = (Some (inp, False), [])" by (auto simp: CBS_asn1_ber_to_der_def)
  moreover have "\<not> der_forest inp"
  proof
    assume "der_forest inp"
    then have "der_forest ?c" using der_forest_first [of t ?c "[]"] l assms(1) by (simp add: inp)
    then have "der_forest (der_enc (u, x) @ elements after)" using not_forest_after lx(2) by blast
    then show False using der_forest_first lx(1) assms(3) not_forest_ber [OF assms(5)] by blast
  qed
  ultimately show ?thesis by blast
qed

text \<open>A sequence of a sequence, which holds an empty sequence of indefinite length, and a NULL.\<close>

theorem nested_ber_missed_witness:
  "CBS_asn1_ber_to_der always [0x30, 8, 0x30, 4, 0x30, 0x80, 0, 0, 5, 0] =
     (Some ([0x30, 8, 0x30, 4, 0x30, 0x80, 0, 0, 5, 0], False), []) \<and>
   \<not> der_forest [0x30, 8, 0x30, 4, 0x30, 0x80, 0, 0, 5, 0]"
proof -
  have t: "constructed 0x20000010" "\<not> constructed_string 0x20000010" "\<not> constructed 5"
    by (simp_all add: CBS_ASN1_CONSTRUCTED_def CBS_ASN1_TAG_SHIFT_def constructed_string_def string_numbers_def)
  have enc: "tag_enc 0x20000010 = [0x30]" "tag_enc 5 = [5]"
    by (simp_all add: tag_enc_def CBS_ASN1_TAG_NUMBER_MASK_def CBS_ASN1_TAG_SHIFT_def)
  have "starts_with_ber [0x30, 0x80, 0, 0]"
    unfolding starts_with_ber_def using t(1) enc(1) by (intro disjI1 exI [of _ "0x20000010"] exI [of _ "[0, 0]"]) simp
  from nested_ber_missed [OF t(1,2) t(1,2) this, of "[]" "[(5, [])]" "[0x30, 8, 0x30, 4, 0x30, 0x80, 0, 0, 5, 0]" always]
  show ?thesis using t(3) by (simp add: primitive_elements_def der_enc_def enc der_length_def)
qed

text \<open>
  C40. \<open>CBS_get_asn1_implicit_string\<close> returns the contents of a primitive string with the outer tag, or the joined
  contents of the pieces, each with the inner tag, of a constructed one; only then it has a buffer of its own.
\<close>

theorem implicit_string_contents:
  assumes "CBS_get_asn1_implicit_string sys inp outer_tag inner_tag = (Some (out, stored), rest)" "length inp \<le> SIZE_MAX"
  shows "(if stored then \<exists>chunks. out = concat chunks \<and>
        inp = der_enc (outer_tag OR CBS_ASN1_CONSTRUCTED, concat (map (\<lambda>c. der_enc (inner_tag, c)) chunks)) @ rest
      else inp = der_enc (outer_tag, out) @ rest)"
  using implicit_string [OF assms] by (cases stored) auto

theorem implicit_string_contents_witness: "[0x80, 1, 0x61, 7] = der_enc (0x80000000, [0x61]) @ [7]"
proof -
  have r: "CBS_get_asn1_implicit_string sys [0x80, 1, 0x61, 7] 0x80000000 4 = (Some ([0x61], False), [7])" for sys
  proof -
    have "CBS_peek_asn1_tag [0x80, 1, 0x61, 7] 0x80000000" by code_simp
    moreover have "CBS_get_asn1 [0x80, 1, 0x61, 7] 0x80000000 = (Some [0x61], [7])" by code_simp
    ultimately show ?thesis by (simp add: CBS_get_asn1_implicit_string_def)
  qed
  have l: "length [0x80, 1, 0x61, 7 :: u8] \<le> SIZE_MAX" by (simp add: SIZE_MAX_def)
  from implicit_string_contents [OF r l] show ?thesis by simp
qed

end
