(* ===== verification/Unicode.thy ===== *)
theory Unicode
  imports CbbAsn1
begin

text \<open>
  Characters in the encodings ASN.1 strings use, \<open>src/crypto/bytestring/unicode.c\<close>: UTF-8, Latin-1, UCS-2 and UTF-32
  readers and writers over the byte string reader and builder. \<open>utf8\<close> states the UTF-8 form of a code point as
  arithmetic; the readers are proved to accept exactly the encodings of valid code points, shortest
  forms only, and the writers to add exactly those. \<open>char_codec\<close> is the interface that a function converting
  between two encodings relies on, with an interpretation for each of the four.
\<close>


section \<open>Code points\<close>

definition is_valid_code_point :: "u32 \<Rightarrow> bool" where
  "is_valid_code_point v \<longleftrightarrow>
     \<not> (0x10ffff < v \<or> v AND 0xfffe = 0xfffe \<or> (0xfdd0 \<le> v \<and> v \<le> 0xfdef) \<or> (0xd800 \<le> v \<and> v \<le> 0xdfff))"

definition BOTTOM_BITS :: "nat \<Rightarrow> u8" where
  "BOTTOM_BITS n = ucast (push_bit n 1 - 1 :: u32)"

definition TOP_BITS :: "nat \<Rightarrow> u8" where
  "TOP_BITS n = NOT (BOTTOM_BITS (8 - n))"

section \<open>Readers\<close>

text \<open>The loop over the continuation bytes.\<close>

fun utf8_tail :: "nat \<Rightarrow> u32 \<Rightarrow> cbs \<Rightarrow> u32 option \<times> cbs" where
  "utf8_tail 0 v cbs = (Some v, cbs)"
| "utf8_tail (Suc n) v cbs =
     ok_do (CBS_get_u8 cbs) (\<lambda>c cbs.
       if c AND TOP_BITS 2 \<noteq> TOP_BITS 1 then (None, cbs)
       else utf8_tail n (push_bit 6 v OR ucast (c AND BOTTOM_BITS 6)) cbs)"

definition utf8_rest :: "u32 \<Rightarrow> nat \<Rightarrow> u32 \<Rightarrow> cbs \<Rightarrow> u32 option \<times> cbs" where
  "utf8_rest v len lower_bound cbs =
     ok_do (utf8_tail len v cbs) (\<lambda>v cbs.
       if \<not> is_valid_code_point v \<or> v < lower_bound then (None, cbs) else (Some v, cbs))"

definition cbs_get_utf8 :: "cbs \<Rightarrow> u32 option \<times> cbs" where
  "cbs_get_utf8 cbs =
     ok_do (CBS_get_u8 cbs) (\<lambda>c cbs.
       if c \<le> 0x7f then (Some (ucast c), cbs)
       else if c AND TOP_BITS 3 = TOP_BITS 2 then utf8_rest (ucast (c AND BOTTOM_BITS 5)) 1 0x80 cbs
       else if c AND TOP_BITS 4 = TOP_BITS 3 then utf8_rest (ucast (c AND BOTTOM_BITS 4)) 2 0x800 cbs
       else if c AND TOP_BITS 5 = TOP_BITS 4 then utf8_rest (ucast (c AND BOTTOM_BITS 3)) 3 0x10000 cbs
       else (None, cbs))"

definition cbs_get_latin1 :: "cbs \<Rightarrow> u32 option \<times> cbs" where
  "cbs_get_latin1 cbs = ok_do (CBS_get_u8 cbs) (\<lambda>c cbs. (Some (ucast c), cbs))"

definition cbs_get_ucs2_be :: "cbs \<Rightarrow> u32 option \<times> cbs" where
  "cbs_get_ucs2_be cbs =
     ok_do (CBS_get_u16 cbs) (\<lambda>c cbs.
       if \<not> is_valid_code_point (ucast c) then (None, cbs) else (Some (ucast c), cbs))"

definition cbs_get_utf32_be :: "cbs \<Rightarrow> u32 option \<times> cbs" where
  "cbs_get_utf32_be cbs =
     ok_do (CBS_get_u32 cbs) (\<lambda>c cbs. if is_valid_code_point c then (Some c, cbs) else (None, cbs))"

section \<open>Writers\<close>

definition cbb_get_utf8_len :: "u32 \<Rightarrow> nat" where
  "cbb_get_utf8_len u = (if u \<le> 0x7f then 1 else if u \<le> 0x7ff then 2 else if u \<le> 0xffff then 3 else 4)"

text \<open>The integers the code passes to \<open>CBB_add_u8\<close> are 32 bits wide and converted to a byte.\<close>

definition cbb_add_utf8 :: "(nat \<Rightarrow> bool) \<Rightarrow> cbb_st \<Rightarrow> nat \<Rightarrow> u32 \<Rightarrow> bool \<times> cbb_st" where
  "cbb_add_utf8 sys s d u =
     (let add = (\<lambda>b s. CBB_add_u8 sys s d (ucast (b :: u32)));
          top = (\<lambda>n. ucast (TOP_BITS n)); low6 = (\<lambda>v. v AND ucast (BOTTOM_BITS 6))
      in if \<not> is_valid_code_point u then (False, s)
         else if u \<le> 0x7f then CBB_add_u8 sys s d (ucast u)
         else if u \<le> 0x7ff
         then then_do (add (top 2 OR drop_bit 6 u) s) (add (top 1 OR low6 u))
         else if u \<le> 0xffff
         then then_do (add (top 3 OR drop_bit 12 u) s) (\<lambda>s.
              then_do (add (top 1 OR low6 (drop_bit 6 u)) s) (add (top 1 OR low6 u)))
         else if u \<le> 0x10ffff
         then then_do (add (top 4 OR drop_bit 18 u) s) (\<lambda>s.
              then_do (add (top 1 OR low6 (drop_bit 12 u)) s) (\<lambda>s.
              then_do (add (top 1 OR low6 (drop_bit 6 u)) s) (add (top 1 OR low6 u))))
         else (False, s))"

definition cbb_add_latin1 :: "(nat \<Rightarrow> bool) \<Rightarrow> cbb_st \<Rightarrow> nat \<Rightarrow> u32 \<Rightarrow> bool \<times> cbb_st" where
  "cbb_add_latin1 sys s d u = (if u \<le> 0xff then CBB_add_u8 sys s d (ucast u) else (False, s))"

definition cbb_add_ucs2_be :: "(nat \<Rightarrow> bool) \<Rightarrow> cbb_st \<Rightarrow> nat \<Rightarrow> u32 \<Rightarrow> bool \<times> cbb_st" where
  "cbb_add_ucs2_be sys s d u =
     (if u \<le> 0xffff \<and> is_valid_code_point u then CBB_add_u16 sys s d (ucast u) else (False, s))"

definition cbb_add_utf32_be :: "(nat \<Rightarrow> bool) \<Rightarrow> cbb_st \<Rightarrow> nat \<Rightarrow> u32 \<Rightarrow> bool \<times> cbb_st" where
  "cbb_add_utf32_be sys s d u = (if is_valid_code_point u then CBB_add_u32 sys s d u else (False, s))"

section \<open>UTF-8 as arithmetic\<close>

fun utf8_cont :: "nat \<Rightarrow> nat \<Rightarrow> u8 list" where
  "utf8_cont 0 u = []"
| "utf8_cont (Suc n) u = of_nat (128 + u div 64 ^ n mod 64) # utf8_cont n u"

definition utf8 :: "nat \<Rightarrow> u8 list" where
  "utf8 u =
     (if u < 0x80 then [of_nat u]
      else if u < 0x800 then of_nat (192 + u div 64) # utf8_cont 1 u
      else if u < 0x10000 then of_nat (224 + u div 4096) # utf8_cont 2 u
      else of_nat (240 + u div 262144) # utf8_cont 3 u)"

lemma low_bits:
  "BOTTOM_BITS 3 = mask 3" "BOTTOM_BITS 4 = mask 4" "BOTTOM_BITS 5 = mask 5" "BOTTOM_BITS 6 = mask 6"
  by (simp_all add: BOTTOM_BITS_def mask_eq_exp_minus_1)

lemma top_bits:
  "TOP_BITS 1 = push_bit 7 1" "TOP_BITS 2 = push_bit 6 3" "TOP_BITS 3 = push_bit 5 7" "TOP_BITS 4 = push_bit 4 15"
  "TOP_BITS 2 = NOT (mask 6)" "TOP_BITS 3 = NOT (mask 5)" "TOP_BITS 4 = NOT (mask 4)" "TOP_BITS 5 = NOT (mask 3)"
  by (simp_all add: TOP_BITS_def BOTTOM_BITS_def mask_eq_exp_minus_1)

lemma and_not_mask_eq: "c AND NOT (mask k) = push_bit k d \<longleftrightarrow> drop_bit k c = drop_bit k (push_bit k d)"
  for c d :: "'a::len word"
proof -
  have e: "c AND NOT (mask k) = push_bit k (drop_bit k c)"
    by (rule bit_word_eqI) (auto simp: bit_simps)
  have r: "push_bit k (drop_bit k (push_bit k d)) = push_bit k d"
    by (rule bit_word_eqI) (auto simp: bit_simps)
  have i: "drop_bit k (push_bit k (drop_bit k c)) = drop_bit k c"
    by (rule bit_word_eqI) (auto simp: bit_simps dest: bit_imp_le_length)
  show ?thesis unfolding e using r i by metis
qed

lemma lead_byte:
  fixes c :: u8
  shows "c AND TOP_BITS 2 = TOP_BITS 1 \<longleftrightarrow> unat c div 64 = 2"
    "c AND TOP_BITS 3 = TOP_BITS 2 \<longleftrightarrow> unat c div 32 = 6"
    "c AND TOP_BITS 4 = TOP_BITS 3 \<longleftrightarrow> unat c div 16 = 14"
    "c AND TOP_BITS 5 = TOP_BITS 4 \<longleftrightarrow> unat c div 8 = 30"
proof -
  have d: "drop_bit k c = drop_bit k (push_bit k d) \<longleftrightarrow> unat c div 2 ^ k = unat (drop_bit k (push_bit k d))"
    for k and d :: u8
    by (simp only: word_unat_eq_iff unat_drop_bit)
  have t: "TOP_BITS 1 = push_bit 6 2" "TOP_BITS 2 = push_bit 5 6" "TOP_BITS 3 = push_bit 4 14" 
    "TOP_BITS 4 = push_bit 3 30" unfolding top_bits by simp_all
  show "c AND TOP_BITS 2 = TOP_BITS 1 \<longleftrightarrow> unat c div 64 = 2"
    using and_not_mask_eq [of c 6 2] d [of 6 2] by (simp only: t(1) top_bits(5)) simp
  show "c AND TOP_BITS 3 = TOP_BITS 2 \<longleftrightarrow> unat c div 32 = 6"
    using and_not_mask_eq [of c 5 6] d [of 5 6] by (simp add: t(2) top_bits(6))
  show "c AND TOP_BITS 4 = TOP_BITS 3 \<longleftrightarrow> unat c div 16 = 14"
    using and_not_mask_eq [of c 4 14] d [of 4 14] by (simp add: t(3) top_bits(7))
  show "c AND TOP_BITS 5 = TOP_BITS 4 \<longleftrightarrow> unat c div 8 = 30"
    using and_not_mask_eq [of c 3 30] d [of 3 30] by (simp add: t(4) top_bits(8))
qed

lemma unat_low_bits: "unat (ucast (c AND mask k) :: u32) = unat c mod 2 ^ k" for c :: u8
proof -
  have "unat (c AND mask k) < 2 ^ 32" using unat_u8 [of "c AND mask k"] by (simp add: less_trans [of _ 256])
  then have "unat (ucast (c AND mask k) :: u32) = unat (c AND mask k)"
    by (simp add: unsigned_ucast_eq take_bit_eq_mod)
  then show ?thesis by (simp only: unat_and_mask)
qed

lemma byte_eq_of_nat: "n < 256 \<Longrightarrow> c = of_nat n \<longleftrightarrow> unat c = n" for c :: u8
  by (metis mod_less of_nat_unat ucast_id unat_of_nat_u8)

lemma digit_split: "b < k \<Longrightarrow> q = v * k + b \<longleftrightarrow> q div k = v \<and> q mod k = b" for q v b k :: nat
  by auto

lemma lead_split: "b < k \<Longrightarrow> h = v * k \<Longrightarrow> q div k = v \<and> b = q mod k \<longleftrightarrow> q = h + b" for q v b k h :: nat
  by auto

lemma div_too_large: "l * k \<le> u \<Longrightarrow> 0 < k \<Longrightarrow> 0 < l \<Longrightarrow> u div k \<noteq> c mod l" for c k l u :: nat
  by (metis less_eq_div_iff_mult_less_eq mod_less_divisor not_le)

lemma cont_byte: "c = of_nat (128 + q mod 64) \<longleftrightarrow> unat c div 64 = 2 \<and> unat c mod 64 = q mod 64" for c :: u8
proof -
  have "q mod 64 < 64" by simp
  then have b: "128 + q mod 64 < 256" by linarith
  show ?thesis unfolding byte_eq_of_nat [OF b] using digit_split [OF \<open>q mod 64 < 64\<close>, of "unat c" 2] by simp
qed

lemma utf8_tail_Some:
  "(unat v + 1) * 64 ^ n \<le> 2 ^ 32 \<Longrightarrow>
    utf8_tail n v cbs = (Some w, rest) \<longleftrightarrow> unat w div 64 ^ n = unat v \<and> cbs = utf8_cont n (unat w) @ rest"
proof (induction n arbitrary: v cbs)
  case 0
  then show ?case by (auto simp: word_unat_eq_iff)
next
  case (Suc n)
  show ?case
  proof (cases cbs)
    case Nil
    then show ?thesis by simp
  next
    case (Cons c t)
    let ?v = "push_bit 6 v OR ucast (c AND BOTTOM_BITS 6) :: u32" and ?q = "unat w div 64 ^ n"
    have v64: "unat v * 64 + 64 \<le> 2 ^ 32"
    proof -
      have "(unat v + 1) * 64 * 1 \<le> (unat v + 1) * 64 * 64 ^ n" by (intro mult_left_mono) auto
      then show ?thesis using Suc.prems by (simp add: algebra_simps)
    qed
    have v: "unat ?v = unat v * 64 + unat c mod 64"
      using unat_push_or [of 6 v "ucast (c AND BOTTOM_BITS 6)"] v64 by (simp add: low_bits unat_low_bits)
    have "unat c mod 64 < 64" by simp
    then have "(unat ?v + 1) * 64 ^ n \<le> ((unat v + 1) * 64) * 64 ^ n"
      unfolding v by (intro mult_right_mono) (simp_all add: algebra_simps)
    also have "\<dots> = (unat v + 1) * 64 ^ Suc n" by (simp only: power_Suc mult.assoc)
    also note Suc.prems
    finally have lt: "(unat ?v + 1) * 64 ^ n \<le> 2 ^ 32" .
    have c: "c = of_nat (128 + ?q mod 64) \<longleftrightarrow> unat c div 64 = 2 \<and> unat c mod 64 = ?q mod 64"
      by (rule cont_byte)
    have q: "?q = unat v * 64 + unat c mod 64 \<longleftrightarrow> ?q div 64 = unat v \<and> ?q mod 64 = unat c mod 64"
      by (rule digit_split) simp
    have d: "?q div 64 = unat w div 64 ^ Suc n" by (simp only: power_Suc2 div_mult2_eq)
    have "utf8_tail (Suc n) v cbs = (Some w, rest) \<longleftrightarrow>
        unat c div 64 = 2 \<and> ?q = unat v * 64 + unat c mod 64 \<and> t = utf8_cont n (unat w) @ rest"
      unfolding Cons using Suc.IH [OF lt, of t] by (simp add: lead_byte v del: One_nat_def)
    also have "\<dots> \<longleftrightarrow> ?q div 64 = unat v \<and> c = of_nat (128 + ?q mod 64) \<and> t = utf8_cont n (unat w) @ rest"
      unfolding c q by (auto simp: eq_commute [of _ "unat c mod 64"])
    finally show ?thesis unfolding Cons d utf8_cont.simps by simp
  qed
qed

lemma div_eq_range: "0 < k \<Longrightarrow> n div k = v \<longleftrightarrow> v * k \<le> n \<and> n < v * k + k" for n k v :: nat
  by (metis add.commute div_nat_eqI dividend_less_div_times div_times_less_eq_dividend mult.commute mult_Suc_right)

lemma lead_ranges:
  "n div 32 = 6 \<longleftrightarrow> 192 \<le> n \<and> n < 224" "n div 16 = 14 \<longleftrightarrow> 224 \<le> n \<and> n < 240"
  "n div 8 = 30 \<longleftrightarrow> 240 \<le> n \<and> n < 248" for n :: nat
  using div_eq_range [of 32 n 6] div_eq_range [of 16 n 14] div_eq_range [of 8 n 30] by simp_all

lemma utf8_rest_Some:
  "(unat v + 1) * 64 ^ n \<le> 2 ^ 32 \<Longrightarrow>
    utf8_rest v n lb cbs = (Some w, rest) \<longleftrightarrow>
      is_valid_code_point w \<and> lb \<le> w \<and> unat w div 64 ^ n = unat v \<and> cbs = utf8_cont n (unat w) @ rest"
  by (auto simp: utf8_rest_def ok_then_Some utf8_tail_Some not_less)

lemma valid_code_point_max: "is_valid_code_point w \<Longrightarrow> unat w \<le> 0x10ffff"
  by (simp add: is_valid_code_point_def word_le_nat_alt not_less)

lemma valid_ascii: "w \<le> 0x7f \<Longrightarrow> is_valid_code_point w"
proof -
  assume w: "w \<le> 0x7f"
  have "drop_bit 8 w = 0" using w by (simp add: drop_bit_eq_0_iff word_le_nat_alt)
  moreover have "bit (drop_bit 8 w) 0 = bit w 8" by (simp add: bit_simps)
  ultimately have "\<not> bit w 8" by simp
  moreover have "bit (0xfffe :: u32) 8" by simp
  ultimately have "w AND 0xfffe \<noteq> 0xfffe" by (metis bit_and_iff)
  then show ?thesis using w by (auto simp: is_valid_code_point_def word_le_nat_alt word_less_nat_alt)
qed

lemma unat_u16 [simp]: "unat (c :: u16) < 65536"
proof -
  have "unat c < 2 ^ LENGTH(16)" by (rule unsigned_less)
  then show ?thesis by simp
qed

lemma unat_ucast_byte [simp]: "unat (ucast (b :: u8) :: u32) = unat b"
  using unat_u8 [of b] by (simp add: unsigned_ucast_eq take_bit_eq_mod less_trans [of _ 256])

lemma get_utf8: "cbs_get_utf8 cbs = (Some u, rest) \<longleftrightarrow> is_valid_code_point u \<and> cbs = utf8 (unat u) @ rest"
proof (cases cbs)
  case Nil
  then show ?thesis by (simp add: cbs_get_utf8_def utf8_def)
next
  case (Cons c t)
  have m: "unat (ucast (c AND BOTTOM_BITS 5) :: u32) = unat c mod 32"
    "unat (ucast (c AND BOTTOM_BITS 4) :: u32) = unat c mod 16"
    "unat (ucast (c AND BOTTOM_BITS 3) :: u32) = unat c mod 8"
    by (simp_all only: low_bits unat_low_bits) simp_all
  note uc = unat_ucast_byte [of c]
  let ?tail = "\<lambda>n. t = utf8_cont n (unat u) @ rest"
  have "cbs_get_utf8 cbs = (Some u, rest) \<longleftrightarrow> 
      (unat c < 128 \<and> unat u = unat c \<and> t = rest \<or>
       unat c div 32 = 6 \<and> is_valid_code_point u \<and> 0x80 \<le> unat u \<and> unat u div 64 = unat c mod 32 \<and> ?tail 1 \<or>
       unat c div 16 = 14 \<and> is_valid_code_point u \<and> 0x800 \<le> unat u \<and> unat u div 4096 = unat c mod 16 \<and> ?tail 2 \<or>
       unat c div 8 = 30 \<and> is_valid_code_point u \<and> 0x10000 \<le> unat u \<and> unat u div 262144 = unat c mod 8 \<and> ?tail 3)"
  proof -
    have b: "(unat c mod 32 + 1) * 64 ^ 1 \<le> 2 ^ 32" "(unat c mod 16 + 1) * 64 ^ 2 \<le> 2 ^ 32"
      "(unat c mod 8 + 1) * 64 ^ 3 \<le> 2 ^ 32" 
      using unat_u8 [of c] by auto
    have le: "0x80 \<le> u \<longleftrightarrow> 0x80 \<le> unat u" "0x800 \<le> u \<longleftrightarrow> 0x800 \<le> unat u" "0x10000 \<le> u \<longleftrightarrow> 0x10000 \<le> unat u"
      "c \<le> 0x7f \<longleftrightarrow> unat c < 128"
      by (simp_all add: word_le_nat_alt less_Suc_eq_le [of _ 127, simplified])
    have p: "(64 :: nat) ^ 1 = 64" "(64 :: nat) ^ 2 = 4096" "(64 :: nat) ^ 3 = 262144" by simp_all
    note r = utf8_rest_Some [of "ucast (c AND BOTTOM_BITS 5)" 1 "0x80" t u rest, unfolded m, OF b(1), unfolded p le]
      utf8_rest_Some [of "ucast (c AND BOTTOM_BITS 4)" 2 "0x800" t u rest, unfolded m, OF b(2), unfolded p le]
      utf8_rest_Some [of "ucast (c AND BOTTOM_BITS 3)" 3 "0x10000" t u rest, unfolded m, OF b(3), unfolded p le]
    note def = Cons cbs_get_utf8_def CBS_get_u8_Cons ok_then_simps lead_byte le r
    consider "unat c < 128" | "unat c div 32 = 6" | "unat c div 16 = 14" | "unat c div 8 = 30"
      | "\<not> unat c < 128" "unat c div 32 \<noteq> 6" "unat c div 16 \<noteq> 14" "unat c div 8 \<noteq> 30" by blast
    then show ?thesis
    proof cases
      case 1
      then have n: "unat c div 32 \<noteq> 6" "unat c div 16 \<noteq> 14" "unat c div 8 \<noteq> 30" by (simp_all add: lead_ranges)
      have "ucast c = u \<longleftrightarrow> unat u = unat c" by (metis uc word_unat_eq_iff)
      then show ?thesis unfolding def using 1 n by (simp only: if_True prod.inject option.inject) blast
    next
      case 2
      then have n: "\<not> unat c < 128" "unat c div 16 \<noteq> 14" "unat c div 8 \<noteq> 30" by (simp_all add: lead_ranges)
      show ?thesis unfolding def if_not_P [OF n(1)] if_P [OF 2] using 2 n by blast
    next
      case 3
      then have n: "\<not> unat c < 128" "unat c div 32 \<noteq> 6" "unat c div 8 \<noteq> 30" by (simp_all add: lead_ranges)
      show ?thesis unfolding def if_not_P [OF n(1)] if_not_P [OF n(2)] if_P [OF 3] using 3 n by blast
    next
      case 4
      then have n: "\<not> unat c < 128" "unat c div 32 \<noteq> 6" "unat c div 16 \<noteq> 14" by (simp_all add: lead_ranges)
      show ?thesis unfolding def if_not_P [OF n(1)] if_not_P [OF n(2)] if_not_P [OF n(3)] if_P [OF 4] using 4 n by blast
    next
      case 5
      then show ?thesis unfolding def if_not_P [OF 5(1)] if_not_P [OF 5(2)] if_not_P [OF 5(3)] if_not_P [OF 5(4)]
        by (simp only: prod.inject option.distinct) blast
    qed
  qed
  also have "\<dots> \<longleftrightarrow> is_valid_code_point u \<and> c # t = utf8 (unat u) @ rest"
  proof (cases "is_valid_code_point u")
    case False
    then have "128 \<le> unat u" using valid_ascii [of u] by (force simp: word_le_nat_alt not_le)
    then show ?thesis using False by auto
  next
    case True
    then have u: "unat u \<le> 0x10ffff" by (rule valid_code_point_max)
    consider "unat u < 0x80" | "0x80 \<le> unat u" "unat u < 0x800" | "0x800 \<le> unat u" "unat u < 0x10000"
      | "0x10000 \<le> unat u" by linarith
    then show ?thesis
    proof cases
      case 1
      then have "c # t = utf8 (unat u) @ rest \<longleftrightarrow> unat c = unat u \<and> t = rest"
        by (simp add: utf8_def byte_eq_of_nat del: of_nat_unat)
      with 1 True show ?thesis by auto
    next
      case 2
      then have "192 + unat u div 64 < 256" by simp
      then have e: "c # t = utf8 (unat u) @ rest \<longleftrightarrow> unat c = 192 + unat u div 64 \<and> ?tail 1"
        using 2 by (simp add: utf8_def byte_eq_of_nat del: One_nat_def of_nat_add)
      have d: "unat u div 64 < 32" using 2 by simp
      have n: "unat c < 128 \<and> unat u = unat c \<longleftrightarrow> False" "0x800 \<le> unat u \<longleftrightarrow> False" "0x10000 \<le> unat u \<longleftrightarrow> False"
        using 2 by auto
      have "unat c div 32 = 6 \<and> unat u div 64 = unat c mod 32 \<longleftrightarrow> unat c = 192 + unat u div 64"
        by (rule lead_split [OF d]) simp
      then show ?thesis unfolding e using 2(1) True n by blast
    next
      case 3
      then have "224 + unat u div 4096 < 256" by simp
      then have e: "c # t = utf8 (unat u) @ rest \<longleftrightarrow> unat c = 224 + unat u div 4096 \<and> ?tail 2"
        using 3 by (simp add: utf8_def byte_eq_of_nat del: of_nat_add)
      have d: "unat u div 4096 < 16" using 3 by simp
      have n: "unat c < 128 \<and> unat u = unat c \<longleftrightarrow> False" "unat u div 64 = unat c mod 32 \<longleftrightarrow> False"
        "0x10000 \<le> unat u \<longleftrightarrow> False"
        using 3 div_too_large [of 32 64 "unat u"] by auto
      have "unat c div 16 = 14 \<and> unat u div 4096 = unat c mod 16 \<longleftrightarrow> unat c = 224 + unat u div 4096"
        by (rule lead_split [OF d]) simp
      then show ?thesis unfolding e using 3(1) True n by blast
    next
      case 4
      have d: "unat u div 262144 < 8" using u by simp
      then have "240 + unat u div 262144 < 256" by simp
      then have e: "c # t = utf8 (unat u) @ rest \<longleftrightarrow> unat c = 240 + unat u div 262144 \<and> ?tail 3"
        using 4 by (simp add: utf8_def byte_eq_of_nat del: of_nat_add)
      have n: "unat c < 128 \<and> unat u = unat c \<longleftrightarrow> False" "unat u div 64 = unat c mod 32 \<longleftrightarrow> False"
        "unat u div 4096 = unat c mod 16 \<longleftrightarrow> False"
        using 4 div_too_large [of 32 64 "unat u"] div_too_large [of 16 4096 "unat u"] by auto
      have "unat c div 8 = 30 \<and> unat u div 262144 = unat c mod 8 \<longleftrightarrow> unat c = 240 + unat u div 262144"
        by (rule lead_split [OF d]) simp
      then show ?thesis unfolding e using 4 True n by blast
    qed
  qed
  finally show ?thesis by (simp add: Cons)
qed

lemma utf8_nonempty [simp]: "utf8 u \<noteq> []"
  by (simp add: utf8_def)

lemma length_utf8_cont [simp]: "length (utf8_cont n u) = n"
  by (induction n) auto

lemma length_utf8: "length (utf8 (unat u)) = cbb_get_utf8_len u"
  by (simp add: utf8_def cbb_get_utf8_len_def word_le_nat_alt)

lemma get_latin1: "cbs_get_latin1 cbs = (Some u, rest) \<longleftrightarrow> unat u < 256 \<and> cbs = [of_nat (unat u)] @ rest"
proof (cases cbs)
  case Nil
  then show ?thesis by (simp add: cbs_get_latin1_def)
next
  case (Cons b t)
  have "ucast b = u \<longleftrightarrow> unat u = unat b" by (metis unat_ucast_byte word_unat_eq_iff)
  moreover have "unat u = unat b \<longleftrightarrow> unat u < 256 \<and> b = of_nat (unat u)"
    using byte_eq_of_nat [of "unat u" b] unat_u8 [of b] by metis
  ultimately show ?thesis by (auto simp: cbs_get_latin1_def Cons simp del: of_nat_unat)
qed

lemma unat_ucast_16_32: "unat (ucast (c :: u16) :: u32) = unat c"
  using unat_u16 [of c] by (simp add: unsigned_ucast_eq take_bit_eq_mod less_trans [of _ 65536])

lemma get_ucs2_be: "cbs_get_ucs2_be cbs = (Some u, rest) \<longleftrightarrow>
    (is_valid_code_point u \<and> unat u < 65536) \<and> cbs = be_bytes 2 (unat u) @ rest"
proof
  assume "cbs_get_ucs2_be cbs = (Some u, rest)"
  then obtain c where c: "CBS_get_u16 cbs = (Some c, rest)" "is_valid_code_point (ucast c)" "u = ucast c"
    unfolding cbs_get_ucs2_be_def ok_then_Some
    by (metis fst_conv option.distinct(1) option.inject prod.inject)
  have "unat u = unat c" unfolding c(3) by (rule unat_ucast_16_32)
  then show "(is_valid_code_point u \<and> unat u < 65536) \<and> cbs = be_bytes 2 (unat u) @ rest"
    using c(1,2) unat_u16 [of c] unfolding get_u16 c(3) by (simp only:)
next
  assume r: "(is_valid_code_point u \<and> unat u < 65536) \<and> cbs = be_bytes 2 (unat u) @ rest"
  then have u: "unat (ucast u :: u16) = unat u" by (simp add: unsigned_ucast_eq take_bit_eq_mod)
  then have "ucast (ucast u :: u16) = u" by (metis unat_ucast_16_32 word_unat_eq_iff)
  moreover have "CBS_get_u16 cbs = (Some (ucast u), rest)" unfolding get_u16 u using r by simp
  ultimately show "cbs_get_ucs2_be cbs = (Some u, rest)" using r by (simp add: cbs_get_ucs2_be_def)
qed

lemma get_utf32_be: "cbs_get_utf32_be cbs = (Some u, rest) \<longleftrightarrow>
    is_valid_code_point u \<and> cbs = be_bytes 4 (unat u) @ rest"
  by (auto simp: cbs_get_utf32_be_def ok_then_Some get_u32 split: if_splits)

section \<open>What the writers add\<close>

lemma word_top_or:
  fixes v :: u32
  assumes "t = push_bit k w" "unat w < 2 ^ (32 - k)" "k \<le> 32" "unat v < 2 ^ k"
  shows "(ucast (t OR v) :: u8) = of_nat (unat w * 2 ^ k + unat v)"
proof -
  have "unat (t OR v) = unat w * 2 ^ k + unat v"
    unfolding assms(1) by (rule unat_push_or) (use assms in auto)
  then show ?thesis by (metis of_nat_unat)
qed

lemma unat_low6: "unat (v AND ucast (BOTTOM_BITS 6)) = unat v mod 64" for v :: u32
proof -
  have "(ucast (BOTTOM_BITS 6) :: u32) = mask 6" by (simp add: BOTTOM_BITS_def mask_eq_exp_minus_1)
  then show ?thesis using unat_and_mask [of v 6] by simp
qed

lemma cont_or: "(ucast (ucast (TOP_BITS 1) OR (v AND ucast (BOTTOM_BITS 6))) :: u8) = of_nat (128 + unat v mod 64)"
  for v :: u32
proof -
  let ?w = "v AND ucast (BOTTOM_BITS 6)"
  have w: "unat ?w < 2 ^ 6" using mod_less_divisor [of 64 "unat v"] by (simp add: unat_low6)
  have "(ucast (ucast (TOP_BITS 1) OR ?w) :: u8) = of_nat (unat (2 :: u32) * 2 ^ 6 + unat ?w)"
    by (rule word_top_or) (use w in \<open>simp_all add: TOP_BITS_def BOTTOM_BITS_def\<close>)
  then show ?thesis unfolding unat_low6 by simp
qed

lemma lead_or:
  fixes v :: u32
  shows "unat v < 32 \<Longrightarrow> (ucast (ucast (TOP_BITS 2) OR v) :: u8) = of_nat (192 + unat v)"
    "unat v < 16 \<Longrightarrow> (ucast (ucast (TOP_BITS 3) OR v) :: u8) = of_nat (224 + unat v)"
    "unat v < 8 \<Longrightarrow> (ucast (ucast (TOP_BITS 4) OR v) :: u8) = of_nat (240 + unat v)"
  using word_top_or [of "ucast (TOP_BITS 2)" 5 6 v] word_top_or [of "ucast (TOP_BITS 3)" 4 14 v]
    word_top_or [of "ucast (TOP_BITS 4)" 3 30 v]
  by (simp_all add: top_bits del: of_nat_add)

lemma put_all_few:
  "put_all put s [a] = put s a"
  "put_all put s [a, b] = then_do (put s a) (\<lambda>s. put s b)"
  "put_all put s [a, b, c] = then_do (put s a) (\<lambda>s. then_do (put s b) (\<lambda>s. put s c))"
  "put_all put s [a, b, c, e] =
     then_do (put s a) (\<lambda>s. then_do (put s b) (\<lambda>s. then_do (put s c) (\<lambda>s. put s e)))"
  by (auto simp: then_do_def fun_eq_iff split: prod.split)

lemma utf8_cont_few:
  "utf8_cont 1 n = [of_nat (128 + n mod 64)]"
  "utf8_cont 2 n = [of_nat (128 + n div 64 mod 64), of_nat (128 + n mod 64)]"
  "utf8_cont 3 n = [of_nat (128 + n div 4096 mod 64), of_nat (128 + n div 64 mod 64), of_nat (128 + n mod 64)]"
  unfolding One_nat_def numeral_2_eq_2 numeral_3_eq_3 by (simp_all add: power2_eq_square)

lemma utf8_long:
  "0x80 \<le> n \<Longrightarrow> n < 0x800 \<Longrightarrow> utf8 n = [of_nat (192 + n div 64), of_nat (128 + n mod 64)]"
  "0x800 \<le> n \<Longrightarrow> n < 0x10000 \<Longrightarrow>
    utf8 n = [of_nat (224 + n div 4096), of_nat (128 + n div 64 mod 64), of_nat (128 + n mod 64)]"
  "0x10000 \<le> n \<Longrightarrow>
    utf8 n = [of_nat (240 + n div 262144), of_nat (128 + n div 4096 mod 64), of_nat (128 + n div 64 mod 64),
      of_nat (128 + n mod 64)]"
  by (simp_all only: utf8_def utf8_cont_few) simp_all

lemma cbb_add_utf8_eq:
  "cbb_add_utf8 sys s d u =
     (if is_valid_code_point u then put_all (\<lambda>s. CBB_add_u8 sys s d) s (utf8 (unat u)) else (False, s))"
proof (cases "is_valid_code_point u")
  case False
  then show ?thesis by (simp add: cbb_add_utf8_def Let_def)
next
  case True
  then have u: "unat u \<le> 0x10ffff" by (rule valid_code_point_max)
  then have max: "u \<le> 0x10ffff" by (simp add: word_le_nat_alt)
  note ifs = True if_True if_False not_True_eq_False put_all_few cont_or unat_drop_bit
  consider "unat u < 0x80" | "0x80 \<le> unat u" "unat u < 0x800" | "0x800 \<le> unat u" "unat u < 0x10000"
    | "0x10000 \<le> unat u" by linarith
  then show ?thesis
  proof cases
    case 1
    then have l: "u \<le> 0x7f" "utf8 (unat u) = [ucast u]" by (simp_all add: word_le_nat_alt utf8_def)
    show ?thesis unfolding cbb_add_utf8_def Let_def by (simp only: ifs l)
  next
    case 2
    then have c: "u \<le> 0x7f \<longleftrightarrow> False" "u \<le> 0x7ff" by (simp_all add: word_le_nat_alt)
    have "unat (drop_bit 6 u) < 32" using 2 by (simp add: unat_drop_bit)
    note a = lead_or(1) [OF this]
    show ?thesis unfolding cbb_add_utf8_def Let_def utf8_long(1) [OF 2]
      by (simp only: ifs c a) simp
  next
    case 3
    then have c: "u \<le> 0x7f \<longleftrightarrow> False" "u \<le> 0x7ff \<longleftrightarrow> False" "u \<le> 0xffff" by (simp_all add: word_le_nat_alt)
    have "unat (drop_bit 12 u) < 16" using 3 by (simp add: unat_drop_bit)
    note a = lead_or(2) [OF this]
    show ?thesis unfolding cbb_add_utf8_def Let_def utf8_long(2) [OF 3]
      by (simp only: ifs c a) simp
  next
    case 4
    then have c: "u \<le> 0x7f \<longleftrightarrow> False" "u \<le> 0x7ff \<longleftrightarrow> False" "u \<le> 0xffff \<longleftrightarrow> False" by (simp_all add: word_le_nat_alt)
    have "unat (drop_bit 18 u) < 8" using u by (simp add: unat_drop_bit)
    note a = lead_or(3) [OF this]
    show ?thesis unfolding cbb_add_utf8_def Let_def utf8_long(3) [OF 4]
      by (simp only: ifs c a max) simp
  qed
qed

section \<open>Character encodings as an interface\<close>

text \<open>
  What a function that converts text relies on: a canonical reader of code points, and a writer
  that adds exactly the encoding the reader accepts. It succeeds whenever the code point can be
  encoded and memory does not run out.
\<close>

locale char_codec = canonical_codec enc dec encodable
  for enc :: "u32 \<Rightarrow> u8 list" and dec :: "cbs \<Rightarrow> u32 option \<times> cbs" and encodable :: "u32 \<Rightarrow> bool" +
  fixes add :: "(nat \<Rightarrow> bool) \<Rightarrow> cbb_st \<Rightarrow> nat \<Rightarrow> u32 \<Rightarrow> bool \<times> cbb_st"
  assumes add_refines: "represents s segs \<Longrightarrow> length segs = Suc d \<Longrightarrow> add sys s d u = (True, s') \<Longrightarrow>
      encodable u \<and> represents s' (add_seg (enc u) segs)"
    and add_growing: "growing s c \<Longrightarrow> encodable u \<Longrightarrow> length c + 4 \<le> 2 ^ 62 \<Longrightarrow>
      \<exists>s'. add always s 0 u = (True, s') \<and> growing s' (c @ enc u)"
    and enc_nonempty: "enc u \<noteq> []"
    and enc_short: "length (enc u) \<le> 4"

lemma add_u_refines_last:
  assumes "represents s segs" "length segs = Suc d" "0 < n" "n \<le> 8" "cbb_add_u sys s d v n = (True, s')"
  shows "represents s' (add_seg (be_bytes n (unat v)) segs)"
  using cbb_add_u_refines [OF assms(1) _ assms(3-5)] assms(2) by (simp add: flush_segs_last)

lemma growing_add_u:
  assumes "growing s c" "0 < n" "n \<le> 8" "unat v < 256 ^ n" "length c + n \<le> 2 ^ 62"
  shows "\<exists>s'. cbb_add_u always s 0 v n = (True, s') \<and> growing s' (c @ be_bytes n (unat v))"
proof -
  from growing_buffer_add [OF assms(1), of "be_bytes n (unat v)"] assms(5) obtain base where
    b: "cbb_buffer_add always (cbb_base s) (be_bytes n (unat v)) = (True, base)"
    "growing (s\<lparr> cbb_base := base \<rparr>) (c @ be_bytes n (unat v))" by auto
  have "drop_bit (8 * n) v = 0" using assms(4) by (simp add: drop_bit_eq_0_iff power_mult)
  then have "cbb_buffer_add_u always (cbb_base s) v n = (True, base)"
    using b(1) assms(2) by (simp add: cbb_buffer_add_u_def add_u_bytes)
  then have "cbb_add_u always s 0 v n = (True, s\<lparr> cbb_base := base \<rparr>)"
    using growing_frames [OF assms(1)] by (simp add: cbb_add_u_def CBB_flush_deepest on_base_def)
  then show ?thesis using b(2) by blast
qed

lemma growing_put_all:
  "growing s c \<Longrightarrow> length c + length bs \<le> 2 ^ 62 \<Longrightarrow>
    \<exists>s'. put_all (\<lambda>s. CBB_add_u8 always s 0) s bs = (True, s') \<and> growing s' (c @ bs)"
proof (induction bs arbitrary: s c)
  case Nil
  then show ?case by simp
next
  case (Cons b bs)
  then obtain t where t: "CBB_add_u8 always s 0 b = (True, t)" "growing t (c @ [b])"
    using growing_add_u8 [OF Cons.prems(1), of b] by auto
  then show ?case using Cons.IH [OF t(2)] Cons.prems(2) by simp
qed

lemma code_point_le:
  "u \<le> 0xff \<longleftrightarrow> unat u < 256" "u \<le> 0xffff \<longleftrightarrow> unat u < 65536" for u :: u32
  by (auto simp: word_le_nat_alt)

interpretation utf8_codec: char_codec "\<lambda>u. utf8 (unat u)" cbs_get_utf8 is_valid_code_point cbb_add_utf8
proof
  fix s segs d sys u s'
  assume "represents s segs" "length segs = Suc d" "cbb_add_utf8 sys s d u = (True, s')"
  then show "is_valid_code_point u \<and> represents s' (add_seg (utf8 (unat u)) segs)"
    by (auto simp: cbb_add_utf8_eq put_all_refines split: if_split_asm)
next
  fix u :: u32 show "length (utf8 (unat u)) \<le> 4" by (simp add: length_utf8 cbb_get_utf8_len_def)
next
  fix s c u
  assume "growing s c" "is_valid_code_point u" "length c + 4 \<le> 2 ^ 62"
  then show "\<exists>s'. cbb_add_utf8 always s 0 u = (True, s') \<and> growing s' (c @ utf8 (unat u))"
    unfolding cbb_add_utf8_eq
    using growing_put_all [of s c "utf8 (unat u)"] by (simp add: length_utf8 cbb_get_utf8_len_def)
qed (simp_all add: get_utf8)

interpretation latin1_codec: char_codec "\<lambda>u. [of_nat (unat u)]" cbs_get_latin1 "\<lambda>u. unat u < 256" cbb_add_latin1
proof
  fix s segs d sys u s'
  assume "represents s segs" "length segs = Suc d" "cbb_add_latin1 sys s d u = (True, s')"
  then show "unat u < 256 \<and> represents s' (add_seg [of_nat (unat u)] segs)"
    using CBB_add_u8_refines [of s segs d sys "ucast u" s']
    by (auto simp: cbb_add_latin1_def code_point_le flush_segs_last split: if_split_asm)
next
  fix s c and u :: u32
  assume "growing s c" "unat u < 256" "length c + 4 \<le> 2 ^ 62"
  then show "\<exists>s'. cbb_add_latin1 always s 0 u = (True, s') \<and> growing s' (c @ [of_nat (unat u)])"
    using growing_add_u8 [of s c "ucast u"] by (simp add: cbb_add_latin1_def code_point_le)
qed (simp_all add: get_latin1 del: of_nat_unat)

lemma unat_code_units:
  "unat (ucast (c :: u16) :: u64) = unat c" "unat (ucast (u :: u32) :: u64) = unat u"
  "unat u < 65536 \<Longrightarrow> unat (ucast u :: u16) = unat u"
proof -
  have u: "unat u < 2 ^ LENGTH(32)" by (rule unsigned_less)
  show "unat (ucast c :: u64) = unat c"
    using unat_u16 [of c] by (simp add: unsigned_ucast_eq take_bit_eq_mod less_trans [of _ 65536])
  show "unat (ucast u :: u64) = unat u"
    using u by (simp add: unsigned_ucast_eq take_bit_eq_mod less_trans [of _ 4294967296])
  show "unat u < 65536 \<Longrightarrow> unat (ucast u :: u16) = unat u"
    by (simp add: unsigned_ucast_eq take_bit_eq_mod)
qed

interpretation ucs2_codec: char_codec "\<lambda>u. be_bytes 2 (unat u)" cbs_get_ucs2_be
  "\<lambda>u. is_valid_code_point u \<and> unat u < 65536" cbb_add_ucs2_be
proof
  fix s segs d sys u s'
  assume a: "represents s segs" "length segs = Suc d" "cbb_add_ucs2_be sys s d u = (True, s')"
  then have v: "is_valid_code_point u" "unat u < 65536" "cbb_add_u sys s d (ucast (ucast u :: u16)) 2 = (True, s')"
    by (auto simp: cbb_add_ucs2_be_def code_point_le CBB_add_u16_def split: if_split_asm)
  show "(is_valid_code_point u \<and> unat u < 65536) \<and> represents s' (add_seg (be_bytes 2 (unat u)) segs)"
    using add_u_refines_last [OF a(1,2) _ _ v(3)] v by (simp add: unat_code_units)
next
  fix s c u
  assume "growing s c" "is_valid_code_point u \<and> unat u < 65536" "length c + 4 \<le> 2 ^ 62"
  then show "\<exists>s'. cbb_add_ucs2_be always s 0 u = (True, s') \<and> growing s' (c @ be_bytes 2 (unat u))"
    using growing_add_u [of s c 2 "ucast (ucast u :: u16)"]
    by (simp add: cbb_add_ucs2_be_def CBB_add_u16_def unat_code_units code_point_le)
next
  fix u :: u32
  show "be_bytes 2 (unat u) \<noteq> []" using length_be_bytes [of 2 "unat u"] by (metis list.size(3) zero_neq_numeral)
qed (simp_all add: get_ucs2_be)

interpretation utf32_codec: char_codec "\<lambda>u. be_bytes 4 (unat u)" cbs_get_utf32_be is_valid_code_point cbb_add_utf32_be
proof
  fix s segs d sys u s'
  assume a: "represents s segs" "length segs = Suc d" "cbb_add_utf32_be sys s d u = (True, s')"
  then have v: "is_valid_code_point u" "cbb_add_u sys s d (ucast u) 4 = (True, s')"
    by (auto simp: cbb_add_utf32_be_def CBB_add_u32_def split: if_split_asm)
  show "is_valid_code_point u \<and> represents s' (add_seg (be_bytes 4 (unat u)) segs)"
    using add_u_refines_last [OF a(1,2) _ _ v(2)] v by (simp add: unat_code_units)
next
  fix s c u
  assume a: "growing s c" "is_valid_code_point u" "length c + 4 \<le> 2 ^ 62"
  then have "unat u < 256 ^ 4" using valid_code_point_max [of u] by simp
  then show "\<exists>s'. cbb_add_utf32_be always s 0 u = (True, s') \<and> growing s' (c @ be_bytes 4 (unat u))"
    using a growing_add_u [of s c 4 "ucast u"]
    by (simp add: cbb_add_utf32_be_def CBB_add_u32_def unat_code_units)
next
  fix u :: u32
  show "be_bytes 4 (unat u) \<noteq> []" using length_be_bytes [of 4 "unat u"] by (metis list.size(3) zero_neq_numeral)
qed (simp_all add: get_utf32_be)

text \<open>
  C33. The UTF-8 reader accepts an input exactly when it starts with the shortest form of a valid code point, neither a
  surrogate nor a noncharacter nor above 0x10ffff, returns that code point and leaves the rest; the length
  that is computed for a code point is that of its form.
\<close>

theorem utf8_shortest_form:
  "(cbs_get_utf8 cbs = (Some u, rest) \<longleftrightarrow> is_valid_code_point u \<and> cbs = utf8 (unat u) @ rest) \<and>
   length (utf8 (unat u)) = cbb_get_utf8_len u"
  by (simp add: get_utf8 length_utf8)

end
