(* ===== verification/Mbstr.thy ===== *)
theory Mbstr
  imports Unicode
begin

text \<open>
  ASN.1 strings and the conversion of text between their encodings: \<open>src/crypto/asn1/a_mbstr.c\<close>, the parts of
  \<open>asn1_lib.c\<close> it uses and \<open>ASN1_STRING_to_UTF8\<close> of \<open>a_strex.c\<close>. The first pass decodes the input and drops the
  types that cannot represent a character, the second writes it in the encoding of the first type left,
  through the builder. The specification side is \<open>code_points\<close>, what a byte string means in an encoding, and \<open>first_kind\<close>, the
  first type of a mask that allows all characters.
\<close>


section \<open>Strings\<close>

text \<open>
  \<open>struct asn1_string_st\<close>. \<open>st_data\<close> is \<open>None\<close> for \<open>NULL\<close>, else the bytes stored in the block so far; what a
  fresh block holds behind them is not part of the state.
\<close>

record asn1_string =
  st_length :: int
  st_type :: int
  st_data :: "u8 list option"
  st_flags :: int

definition sizeof_ASN1_STRING :: nat where
  "sizeof_ASN1_STRING = 24"

definition ASN1_STRING_type_new :: "(nat \<Rightarrow> bool) \<Rightarrow> int \<Rightarrow> asn1_string option" where
  "ASN1_STRING_type_new sys type =
     (if \<not> OPENSSL_malloc sys sizeof_ASN1_STRING then None
      else Some \<lparr> st_length = 0, st_type = type, st_data = None, st_flags = 0 \<rparr>)"

text \<open>
  \<open>str->data\<close> gets room for \<open>len\<close> bytes and a terminator. The outer \<open>None\<close> is a read past the end of the
  caller's memory. A \<open>strlen\<close> is truncated to an \<open>int\<close>, and a negative \<open>int\<close> is a huge \<open>size_t\<close>.
\<close>

definition asn1_string_reserve :: "(nat \<Rightarrow> bool) \<Rightarrow> asn1_string \<Rightarrow> int \<Rightarrow> u8 list option" where
  "asn1_string_reserve sys str len =
     (case st_data str of
        None \<Rightarrow> if OPENSSL_malloc sys (nat ((len + 1) mod 2 ^ 64)) then Some [] else None
      | Some c \<Rightarrow> if st_length str \<le> len then OPENSSL_realloc sys c (nat ((len + 1) mod 2 ^ 64)) else Some c)"

definition ASN1_STRING_set ::
  "(nat \<Rightarrow> bool) \<Rightarrow> asn1_string \<Rightarrow> u8 list option \<Rightarrow> int \<Rightarrow> (bool \<times> asn1_string) option" where
  "ASN1_STRING_set sys str data len =
     (if len < 0 \<and> data = None then Some (False, str)
      else Option.bind (if len < 0 then map_option (\<lambda>n. signed_take_bit 31 (int n)) (strlen (the data)) else Some len) (\<lambda>len.
        case asn1_string_reserve sys str len of
          None \<Rightarrow> Some (False, str)
        | Some block \<Rightarrow>
            (case data of
               None \<Rightarrow> Some (True, str\<lparr> st_length := len, st_data := Some block \<rparr>)
             | Some data \<Rightarrow>
                 if len < 0 \<or> length data < nat len then None
                 else Some (True, str\<lparr> st_length := len,
                        st_data := Some (take (nat len) data @ 0 # drop (nat len + 1) block) \<rparr>))))"

section \<open>Types and formats\<close>

definition V_ASN1_UTF8STRING :: int where "V_ASN1_UTF8STRING = 12"
definition V_ASN1_PRINTABLESTRING :: int where "V_ASN1_PRINTABLESTRING = 19"
definition V_ASN1_T61STRING :: int where "V_ASN1_T61STRING = 20"
definition V_ASN1_IA5STRING :: int where "V_ASN1_IA5STRING = 22"
definition V_ASN1_UNIVERSALSTRING :: int where "V_ASN1_UNIVERSALSTRING = 28"
definition V_ASN1_BMPSTRING :: int where "V_ASN1_BMPSTRING = 30"

definition B_ASN1_PRINTABLESTRING :: u64 where "B_ASN1_PRINTABLESTRING = 0x0002"
definition B_ASN1_T61STRING :: u64 where "B_ASN1_T61STRING = 0x0004"
definition B_ASN1_IA5STRING :: u64 where "B_ASN1_IA5STRING = 0x0010"
definition B_ASN1_UNIVERSALSTRING :: u64 where "B_ASN1_UNIVERSALSTRING = 0x0100"
definition B_ASN1_BMPSTRING :: u64 where "B_ASN1_BMPSTRING = 0x0800"
definition B_ASN1_UTF8STRING :: u64 where "B_ASN1_UTF8STRING = 0x2000"

definition DIRSTRING_TYPE :: u64 where
  "DIRSTRING_TYPE = B_ASN1_PRINTABLESTRING OR B_ASN1_T61STRING OR B_ASN1_BMPSTRING OR B_ASN1_UTF8STRING"

definition MBSTRING_FLAG :: int where "MBSTRING_FLAG = 0x1000"

text \<open>The errors that are pushed before the functions return -1.\<close>

datatype mb_error =
  UNKNOWN_FORMAT | INVALID_BMPSTRING | INVALID_UNIVERSALSTRING | INVALID_UTF8STRING | ILLEGAL_CHARACTERS
  | STRING_TOO_SHORT | STRING_TOO_LONG | MALLOC_FAILURE | INTERNAL_ERROR

datatype mb_form = MBSTRING_UTF8 | MBSTRING_ASC | MBSTRING_BMP | MBSTRING_UNIV

text \<open>The \<open>switch\<close> over \<open>inform\<close>.\<close>

definition mb_form_of :: "int \<Rightarrow> mb_form option" where
  "mb_form_of inform =
     (if inform = MBSTRING_FLAG + 2 then Some MBSTRING_BMP
      else if inform = MBSTRING_FLAG + 4 then Some MBSTRING_UNIV
      else if inform = MBSTRING_FLAG then Some MBSTRING_UTF8
      else if inform = MBSTRING_FLAG + 1 then Some MBSTRING_ASC
      else None)"

fun decode_func :: "mb_form \<Rightarrow> cbs \<Rightarrow> u32 option \<times> cbs" where
  "decode_func MBSTRING_BMP = cbs_get_ucs2_be"
| "decode_func MBSTRING_UNIV = cbs_get_utf32_be"
| "decode_func MBSTRING_UTF8 = cbs_get_utf8"
| "decode_func MBSTRING_ASC = cbs_get_latin1"

fun decode_error :: "mb_form \<Rightarrow> mb_error" where
  "decode_error MBSTRING_BMP = INVALID_BMPSTRING"
| "decode_error MBSTRING_UNIV = INVALID_UNIVERSALSTRING"
| "decode_error MBSTRING_UTF8 = INVALID_UTF8STRING"
| "decode_error MBSTRING_ASC = INTERNAL_ERROR"

fun encode_func :: "mb_form \<Rightarrow> (nat \<Rightarrow> bool) \<Rightarrow> cbb_st \<Rightarrow> nat \<Rightarrow> u32 \<Rightarrow> bool \<times> cbb_st" where
  "encode_func MBSTRING_BMP = cbb_add_ucs2_be"
| "encode_func MBSTRING_UNIV = cbb_add_utf32_be"
| "encode_func MBSTRING_UTF8 = cbb_add_utf8"
| "encode_func MBSTRING_ASC = cbb_add_latin1"

definition asn1_is_printable :: "u32 \<Rightarrow> bool" where
  "asn1_is_printable c \<longleftrightarrow> \<not> 0x7f < c \<and>
     (0x61 \<le> c \<and> c \<le> 0x7a \<or> 0x41 \<le> c \<and> c \<le> 0x5a \<or> 0x30 \<le> c \<and> c \<le> 0x39 \<or>
      c \<in> {0x20, 0x27, 0x28, 0x29, 0x2b, 0x2c, 0x2d, 0x2e, 0x2f, 0x3a, 0x3d, 0x3f})"

section \<open>The first pass\<close>

definition drop_format :: "u64 \<Rightarrow> bool \<Rightarrow> u64 \<Rightarrow> u64" where
  "drop_format b impossible str_mask = (if str_mask AND b \<noteq> 0 \<and> impossible then str_mask AND NOT b else str_mask)"

definition narrow_mask :: "u32 \<Rightarrow> u64 \<Rightarrow> u64" where
  "narrow_mask c str_mask =
     (let str_mask = drop_format B_ASN1_PRINTABLESTRING (\<not> asn1_is_printable c) str_mask;
          str_mask = drop_format B_ASN1_IA5STRING (127 < c) str_mask;
          str_mask = drop_format B_ASN1_T61STRING (0xff < c) str_mask
      in drop_format B_ASN1_BMPSTRING (0xffff < c) str_mask)"

lemma decode_func_consumes: "decode_func f cbs = (Some c, rest) \<Longrightarrow> length rest < length cbs"
proof -
  have n: "length (be_bytes 2 (unat c)) = 2" "length (be_bytes 4 (unat c)) = 4" by (rule length_be_bytes)+
  have "0 < length (utf8 (unat c))" by simp
  then show "decode_func f cbs = (Some c, rest) \<Longrightarrow> length rest < length cbs"
    using n by (cases f) (auto simp: get_ucs2_be get_utf32_be get_utf8 get_latin1)
qed

function mb_scan :: "mb_form \<Rightarrow> cbs \<Rightarrow> u64 \<Rightarrow> nat \<Rightarrow> nat \<Rightarrow> mb_error + u64 \<times> nat \<times> nat" where
  "mb_scan inform cbs str_mask nchar utf8_len =
     (if CBS_len cbs = 0 then Inr (str_mask, nchar, utf8_len)
      else case decode_func inform cbs of
             (None, _) \<Rightarrow> Inl (decode_error inform)
           | (Some c, cbs) \<Rightarrow>
               if nchar = 0 \<and> (inform = MBSTRING_BMP \<or> inform = MBSTRING_UNIV) \<and> c = 0xfeff
               then Inl ILLEGAL_CHARACTERS
               else let str_mask = narrow_mask c str_mask
                    in if str_mask = 0 then Inl ILLEGAL_CHARACTERS
                       else mb_scan inform cbs str_mask (nchar + 1) (utf8_len + cbb_get_utf8_len c))"
  by pat_completeness auto
termination by (relation "measure (\<lambda>(_, cbs, _). length cbs)") (auto dest: decode_func_consumes [OF sym])

declare mb_scan.simps [simp del]

text \<open>The output type, its format and the estimate of the output's size.\<close>

definition choose_output :: "u64 \<Rightarrow> nat \<Rightarrow> nat \<Rightarrow> (int \<times> mb_form \<times> nat) option" where
  "choose_output str_mask nchar utf8_len =
     (if str_mask AND B_ASN1_PRINTABLESTRING \<noteq> 0 then Some (V_ASN1_PRINTABLESTRING, MBSTRING_ASC, nchar)
      else if str_mask AND B_ASN1_IA5STRING \<noteq> 0 then Some (V_ASN1_IA5STRING, MBSTRING_ASC, nchar)
      else if str_mask AND B_ASN1_T61STRING \<noteq> 0 then Some (V_ASN1_T61STRING, MBSTRING_ASC, nchar)
      else if str_mask AND B_ASN1_BMPSTRING \<noteq> 0 then Some (V_ASN1_BMPSTRING, MBSTRING_BMP, 2 * nchar)
      else if str_mask AND B_ASN1_UNIVERSALSTRING \<noteq> 0 then Some (V_ASN1_UNIVERSALSTRING, MBSTRING_UNIV, 4 * nchar)
      else if str_mask AND B_ASN1_UTF8STRING \<noteq> 0 then Some (V_ASN1_UTF8STRING, MBSTRING_UTF8, utf8_len)
      else None)"

section \<open>The second pass\<close>

function mb_convert :: "(nat \<Rightarrow> bool) \<Rightarrow> mb_form \<Rightarrow> mb_form \<Rightarrow> cbs \<Rightarrow> cbb_st \<Rightarrow> bool \<times> cbb_st" where
  "mb_convert sys inform outform cbs cbb =
     (if CBS_len cbs = 0 then (True, cbb)
      else case decode_func inform cbs of
             (None, _) \<Rightarrow> (False, cbb)
           | (Some c, cbs) \<Rightarrow> then_do (encode_func outform sys cbb 0 c) (mb_convert sys inform outform cbs))"
  by pat_completeness auto
termination by (relation "measure (\<lambda>(_, _, _, cbs, _). length cbs)") (auto dest: decode_func_consumes [OF sym])

declare mb_convert.simps [simp del]

text \<open>The output with its terminator, \<open>None\<close> after the jump to \<open>err\<close>.\<close>

definition mb_output :: "(nat \<Rightarrow> bool) \<Rightarrow> mb_form \<Rightarrow> mb_form \<Rightarrow> cbs \<Rightarrow> nat \<Rightarrow> mb_error + u8 list" where
  "mb_output sys inform outform cbs size_estimate =
     (case CBB_init sys (size_t (size_estimate + 1)) of
        (False, _) \<Rightarrow> Inl MALLOC_FAILURE
      | (True, cbb) \<Rightarrow>
          (case mb_convert sys inform outform cbs cbb of
             (False, _) \<Rightarrow> Inl INTERNAL_ERROR
           | (True, cbb) \<Rightarrow>
               (case CBB_add_u8 sys cbb 0 0 of
                  (False, _) \<Rightarrow> Inl INTERNAL_ERROR
                | (True, cbb) \<Rightarrow>
                    (case CBB_finish sys cbb 0 True of
                       (None, _) \<Rightarrow> Inl INTERNAL_ERROR
                     | (Some data, _) \<Rightarrow>
                         if length data < 1 \<or> INT_MAX < length data then Inl INTERNAL_ERROR else Inr data))))"

section \<open>Conversion\<close>

text \<open>
  What the caller's variable \<open>*out\<close> holds: \<open>NULL\<close>, a string, or a pointer to memory that has been
  released. The \<open>out\<close> argument is \<open>None\<close> when it is \<open>NULL\<close> itself.
\<close>

datatype string_var = NullString | PointsTo asn1_string | DanglingString

text \<open>
  The destination is the caller's string, with its data released, or a new one: \<open>Some None\<close> if that
  cannot be allocated. \<open>None\<close> is an access to released memory, through a pointer that dangles.
\<close>

definition mb_dest :: "(nat \<Rightarrow> bool) \<Rightarrow> string_var \<Rightarrow> int \<Rightarrow> (bool \<times> asn1_string) option option" where
  "mb_dest sys out str_type =
     (case out of
        PointsTo dest \<Rightarrow>
          Some (Some (False,
            (if st_data dest \<noteq> None then dest\<lparr> st_length := 0, st_data := None \<rparr> else dest)\<lparr> st_type := str_type \<rparr>))
      | NullString \<Rightarrow> Some (map_option (Pair True) (ASN1_STRING_type_new sys str_type))
      | DanglingString \<Rightarrow> None)"

definition mb_write :: "(nat \<Rightarrow> bool) \<Rightarrow> string_var \<Rightarrow> u8 list \<Rightarrow> mb_form \<Rightarrow> int \<times> mb_form \<times> nat \<Rightarrow>
    ((mb_error + int) \<times> string_var) option" where
  "mb_write sys out input inform outp =
     (case outp of (str_type, outform, size_estimate) \<Rightarrow>
        Option.bind (mb_dest sys out str_type) (\<lambda>dst. case dst of
           None \<Rightarrow> Some (Inl MALLOC_FAILURE, out)
         | Some (free_out, dest) \<Rightarrow>
             if inform = outform
             then map_option (\<lambda>(ok, dest). (if ok then Inr str_type else Inl MALLOC_FAILURE, PointsTo dest))
                    (ASN1_STRING_set sys dest (Some input) (int (length input)))
             else Some (case mb_output sys inform outform (CBS_init input (length input)) size_estimate of
                     Inl e \<Rightarrow> (Inl e, if free_out then DanglingString else PointsTo dest)
                   | Inr data \<Rightarrow>
                       (Inr str_type,
                        PointsTo (dest\<lparr> st_length := int (length data) - 1, st_data := Some data \<rparr>)))))"

text \<open>Everything after \<open>len\<close> is known: \<open>input\<close> is the bytes that it covers.\<close>

definition mb_ncopy :: "(nat \<Rightarrow> bool) \<Rightarrow> string_var option \<Rightarrow> u8 list \<Rightarrow> int \<Rightarrow> u64 \<Rightarrow> int \<Rightarrow> int \<Rightarrow>
    ((mb_error + int) \<times> string_var option) option" where
  "mb_ncopy sys out input inform str_mask minsize maxsize =
     (let str_mask = (if str_mask = 0 then DIRSTRING_TYPE else str_mask)
      in case mb_form_of inform of
           None \<Rightarrow> Some (Inl UNKNOWN_FORMAT, out)
         | Some inform \<Rightarrow>
             (case mb_scan inform (CBS_init input (length input)) str_mask 0 0 of
                Inl e \<Rightarrow> Some (Inl e, out)
              | Inr (str_mask, nchar, utf8_len) \<Rightarrow>
                  if 0 < minsize \<and> int nchar < minsize then Some (Inl STRING_TOO_SHORT, out)
                  else if 0 < maxsize \<and> maxsize < int nchar then Some (Inl STRING_TOO_LONG, out)
                  else case choose_output str_mask nchar utf8_len of
                         None \<Rightarrow> Some (Inl ILLEGAL_CHARACTERS, out)
                       | Some outp \<Rightarrow>
                           (case out of
                              None \<Rightarrow> Some (Inr (fst outp), None)
                            | Some var \<Rightarrow> map_option (map_prod id Some) (mb_write sys var input inform outp))))"

text \<open>
  The parameter \<open>len\<close> once the length of a terminated string is known: \<open>len = strlen(in)\<close> is truncated to
  an \<open>int\<close>. \<open>None\<close> is a string that is not terminated in the caller's memory \<open>input\<close>.
\<close>

definition mb_length :: "u8 list \<Rightarrow> int \<Rightarrow> int option" where
  "mb_length input len = (if len = -1 then map_option (\<lambda>n. signed_take_bit 31 (int n)) (strlen input) else Some len)"

text \<open>
  \<open>None\<close> is an access outside the caller's memory: the length reaches past the end of \<open>input\<close>, as any negative
  one does, which \<open>CBS_init\<close> converts to a \<open>size_t\<close> of at least \<open>2^64 - 2^31\<close>; or the caller's pointer dangles.
\<close>

definition ASN1_mbstring_ncopy ::
  "(nat \<Rightarrow> bool) \<Rightarrow> string_var option \<Rightarrow> u8 list \<Rightarrow> int \<Rightarrow> int \<Rightarrow> u64 \<Rightarrow> int \<Rightarrow> int \<Rightarrow>
    ((mb_error + int) \<times> string_var option) option" where
  "ASN1_mbstring_ncopy sys out input len inform str_mask minsize maxsize =
     Option.bind (mb_length input len) (\<lambda>len.
       if mb_form_of inform \<noteq> None \<and> (len < 0 \<or> length input < nat len) then None
       else mb_ncopy sys out (take (nat len) input) inform str_mask minsize maxsize)"

definition ASN1_mbstring_copy ::
  "(nat \<Rightarrow> bool) \<Rightarrow> string_var option \<Rightarrow> u8 list \<Rightarrow> int \<Rightarrow> int \<Rightarrow> u64 \<Rightarrow>
    ((mb_error + int) \<times> string_var option) option" where
  "ASN1_mbstring_copy sys out input len inform str_mask = ASN1_mbstring_ncopy sys out input len inform str_mask 0 0"

section \<open>To UTF-8\<close>

definition tag2nbyte :: "int list" where
  "tag2nbyte =
     [-1, -1, -1, -1, -1,
      -1, -1, -1, -1, -1,
      -1, -1, 0, -1,
      -1, -1, -1, -1,
      1, 1, 1,
      -1, 1, 1, 1,
      -1, 1, -1,
      4, -1, 2]"

text \<open>
  The new buffer without its terminator; \<open>None\<close> for a negative return value. The string being
  converted has \<open>st_length\<close> bytes of data.
\<close>

definition ASN1_STRING_to_UTF8 :: "(nat \<Rightarrow> bool) \<Rightarrow> asn1_string \<Rightarrow> u8 list option" where
  "ASN1_STRING_to_UTF8 sys str =
     (let type = st_type str
      in if type < 0 \<or> 30 < type then None
         else let mbflag = tag2nbyte ! nat type
              in if mbflag = -1 then None
                 else let stmp = \<lparr> st_length = 0, st_type = 0, st_data = None, st_flags = 0 \<rparr>
                      in case ASN1_mbstring_copy sys (Some (PointsTo stmp)) (the (st_data str)) (st_length str)
                                (MBSTRING_FLAG + mbflag) B_ASN1_UTF8STRING of
                           Some (Inr _, Some (PointsTo stmp)) \<Rightarrow> Some (take (nat (st_length stmp)) (the (st_data stmp)))
                         | _ \<Rightarrow> None)"

section \<open>The four encodings\<close>

fun char_enc :: "mb_form \<Rightarrow> u32 \<Rightarrow> u8 list" where
  "char_enc MBSTRING_BMP c = be_bytes 2 (unat c)"
| "char_enc MBSTRING_UNIV c = be_bytes 4 (unat c)"
| "char_enc MBSTRING_UTF8 c = utf8 (unat c)"
| "char_enc MBSTRING_ASC c = [of_nat (unat c)]"

fun encodable :: "mb_form \<Rightarrow> u32 \<Rightarrow> bool" where
  "encodable MBSTRING_BMP c \<longleftrightarrow> is_valid_code_point c \<and> unat c < 65536"
| "encodable MBSTRING_UNIV c \<longleftrightarrow> is_valid_code_point c"
| "encodable MBSTRING_UTF8 c \<longleftrightarrow> is_valid_code_point c"
| "encodable MBSTRING_ASC c \<longleftrightarrow> unat c < 256"

definition text_enc :: "mb_form \<Rightarrow> u32 list \<Rightarrow> u8 list" where
  "text_enc f us = concat (map (char_enc f) us)"

text \<open>The characters of a byte string, if it is well-formed in an encoding.\<close>

definition code_points :: "mb_form \<Rightarrow> u8 list \<Rightarrow> u32 list option" where
  "code_points f bs = decode_all (decode_func f) (length bs) bs"

lemma form_funs:
  "char_enc MBSTRING_BMP = (\<lambda>c. be_bytes 2 (unat c))" "char_enc MBSTRING_UNIV = (\<lambda>c. be_bytes 4 (unat c))"
  "char_enc MBSTRING_UTF8 = (\<lambda>c. utf8 (unat c))" "char_enc MBSTRING_ASC = (\<lambda>c. [of_nat (unat c)])"
  "encodable MBSTRING_BMP = (\<lambda>c. is_valid_code_point c \<and> unat c < 65536)"
  "encodable MBSTRING_UNIV = is_valid_code_point" "encodable MBSTRING_UTF8 = is_valid_code_point"
  "encodable MBSTRING_ASC = (\<lambda>c. unat c < 256)"
  by (auto simp del: of_nat_unat)

lemma char_codec_form: "char_codec (char_enc f) (decode_func f) (encodable f) (encode_func f)"
proof (cases f)
  case MBSTRING_UTF8
  then show ?thesis using utf8_codec.char_codec_axioms by (simp only: form_funs decode_func.simps encode_func.simps)
next
  case MBSTRING_ASC
  then show ?thesis using latin1_codec.char_codec_axioms by (simp only: form_funs decode_func.simps encode_func.simps)
next
  case MBSTRING_BMP
  then show ?thesis using ucs2_codec.char_codec_axioms by (simp only: form_funs decode_func.simps encode_func.simps)
next
  case MBSTRING_UNIV
  then show ?thesis using utf32_codec.char_codec_axioms by (simp only: form_funs decode_func.simps encode_func.simps)
qed

interpretation mb: char_codec "char_enc f" "decode_func f" "encodable f" "encode_func f" for f
  by (rule char_codec_form)

lemma code_points_Some: "code_points f bs = Some us \<longleftrightarrow> list_all (encodable f) us \<and> bs = text_enc f us"
  unfolding code_points_def text_enc_def by (rule mb.decode_all_iff) (rule mb.enc_nonempty)

lemma text_enc_simps [simp]:
  "text_enc f [] = []"
  "text_enc f (u # us) = char_enc f u @ text_enc f us"
  by (simp_all add: text_enc_def)

lemma length_text_enc: "length us \<le> length (text_enc f us) \<and> length (text_enc f us) \<le> 4 * length us"
proof (induction us)
  case (Cons u us)
  then show ?case using mb.enc_short [of f u] mb.enc_nonempty [of f u] by (cases "char_enc f u") auto
qed simp

lemma latin1_valid: "unat u < 256 \<Longrightarrow> is_valid_code_point u"
proof -
  assume u: "unat u < 256"
  have "drop_bit 8 u = 0" using u by (simp add: drop_bit_eq_0_iff)
  moreover have "bit (drop_bit 8 u) 0 = bit u 8" by (simp add: bit_simps)
  ultimately have "\<not> bit u 8" by simp
  moreover have "bit (0xfffe :: u32) 8" by simp
  ultimately have "u AND 0xfffe \<noteq> 0xfffe" by (metis bit_and_iff)
  then show ?thesis using u by (auto simp: is_valid_code_point_def word_le_nat_alt word_less_nat_alt)
qed

lemma encodable_valid: "encodable f u \<Longrightarrow> is_valid_code_point u"
  by (cases f) (auto simp: latin1_valid)

section \<open>The type that is chosen\<close>

text \<open>The types in order of preference, with their flag, their encoding and the characters they allow.\<close>

type_synonym string_kind = "int \<times> nat \<times> mb_form \<times> (u32 \<Rightarrow> bool)"

definition string_kinds :: "string_kind list" where
  "string_kinds =
     [(V_ASN1_PRINTABLESTRING, 1, MBSTRING_ASC, asn1_is_printable),
      (V_ASN1_IA5STRING, 4, MBSTRING_ASC, \<lambda>c. unat c < 0x80),
      (V_ASN1_T61STRING, 2, MBSTRING_ASC, \<lambda>c. unat c < 0x100),
      (V_ASN1_BMPSTRING, 11, MBSTRING_BMP, \<lambda>c. unat c < 0x10000),
      (V_ASN1_UNIVERSALSTRING, 8, MBSTRING_UNIV, \<lambda>_. True),
      (V_ASN1_UTF8STRING, 13, MBSTRING_UTF8, \<lambda>_. True)]"

definition first_kind :: "u64 \<Rightarrow> u32 list \<Rightarrow> (int \<times> mb_form) option" where
  "first_kind str_mask us =
     map_option (\<lambda>(t, _, f, _). (t, f)) (find (\<lambda>(_, b, _, ok). bit str_mask b \<and> list_all ok us) string_kinds)"

lemma flag_bits:
  "B_ASN1_PRINTABLESTRING = push_bit 1 1" "B_ASN1_IA5STRING = push_bit 4 1" "B_ASN1_T61STRING = push_bit 2 1"
  "B_ASN1_BMPSTRING = push_bit 11 1" "B_ASN1_UNIVERSALSTRING = push_bit 8 1" "B_ASN1_UTF8STRING = push_bit 13 1"
  by (simp_all add: B_ASN1_PRINTABLESTRING_def B_ASN1_IA5STRING_def B_ASN1_T61STRING_def B_ASN1_BMPSTRING_def
      B_ASN1_UNIVERSALSTRING_def B_ASN1_UTF8STRING_def)

lemma flag_test: "m AND push_bit n 1 \<noteq> 0 \<longleftrightarrow> bit m n" for m :: u64
  by (simp only: bit_iff_and_push_bit_not_eq_0)

lemma bit_drop_format:
  "n < 64 \<Longrightarrow> bit (drop_format (push_bit n 1) impossible m) i \<longleftrightarrow> bit m i \<and> \<not> (impossible \<and> i = n)"
  unfolding drop_format_def flag_test by (auto simp: bit_simps dest: bit_imp_le_length)

definition narrowed :: "u32 \<Rightarrow> nat \<Rightarrow> bool" where
  "narrowed c i \<longleftrightarrow> i = 1 \<and> \<not> asn1_is_printable c \<or> i = 4 \<and> \<not> unat c < 0x80 \<or> i = 2 \<and> \<not> unat c < 0x100 \<or>
     i = 11 \<and> \<not> unat c < 0x10000"

lemma bit_narrow_mask: "bit (narrow_mask c m) i \<longleftrightarrow> bit m i \<and> \<not> narrowed c i"
proof -
  have w: "127 < c \<longleftrightarrow> \<not> unat c < 0x80" "0xff < c \<longleftrightarrow> \<not> unat c < 0x100" "0xffff < c \<longleftrightarrow> \<not> unat c < 0x10000"
    by (auto simp: word_less_nat_alt)
  show ?thesis unfolding narrow_mask_def Let_def flag_bits w
    by ((subst bit_drop_format, simp)+) (auto simp: narrowed_def)
qed

lemma bit_narrow_all: "bit (fold narrow_mask us m) i \<longleftrightarrow> bit m i \<and> list_all (\<lambda>c. \<not> narrowed c i) us"
  by (induction us arbitrary: m) (auto simp: bit_narrow_mask)

lemma narrow_mask_0 [simp]: "narrow_mask c 0 = 0"
  by (rule bit_word_eqI) (simp add: bit_narrow_mask)

lemma narrow_all_0 [simp]: "fold narrow_mask us 0 = 0"
  by (induction us) auto

lemma choose_output_first:
  "map_option (\<lambda>(t, f, n). (t, f)) (choose_output (fold narrow_mask us m) nchar utf8_len) = first_kind m us"
proof -
  have [simp]: "list_all (\<lambda>c. \<not> narrowed c 1) us = list_all asn1_is_printable us"
    "list_all (\<lambda>c. \<not> narrowed c 4) us = list_all (\<lambda>c. unat c < 0x80) us"
    "list_all (\<lambda>c. \<not> narrowed c 2) us = list_all (\<lambda>c. unat c < 0x100) us"
    "list_all (\<lambda>c. \<not> narrowed c 11) us = list_all (\<lambda>c. unat c < 0x10000) us"
    "list_all (\<lambda>_. True) us" "list_all (\<lambda>c. \<not> narrowed c 8) us" "list_all (\<lambda>c. \<not> narrowed c 13) us"
    by (simp_all add: narrowed_def list_all_iff)
  show ?thesis
    unfolding choose_output_def flag_bits flag_test bit_narrow_all first_kind_def string_kinds_def
    by (simp del: One_nat_def)
qed

lemma first_kind_encodable:
  assumes "first_kind m us = Some (t, g)" "list_all (encodable f) us"
  shows "list_all (encodable g) us"
proof -
  have v: "list_all is_valid_code_point us" using assms(2) encodable_valid by (auto simp: list_all_iff)
  from assms(1) obtain b ok where "(t, b, g, ok) \<in> set string_kinds" "list_all ok us"
    unfolding first_kind_def by (auto simp: find_Some_iff) (metis nth_mem)
  then show ?thesis using v by (auto simp: string_kinds_def list_all_iff asn1_is_printable_def word_less_nat_alt)
qed

section \<open>The two passes\<close>

definition has_bom :: "mb_form \<Rightarrow> u32 list \<Rightarrow> bool" where
  "has_bom f us \<longleftrightarrow> (f = MBSTRING_BMP \<or> f = MBSTRING_UNIV) \<and> (\<exists>r. us = 0xfeff # r)"

lemma CBS_len_0: "CBS_len cbs = 0 \<longleftrightarrow> cbs = []"
  by (simp add: CBS_len_def)

lemma mb_scan_chars:
  "list_all (encodable f) us \<Longrightarrow> mb_scan f (text_enc f us) m n l =
    (if n = 0 \<and> has_bom f us then Inl ILLEGAL_CHARACTERS
     else if us \<noteq> [] \<and> fold narrow_mask us m = 0 then Inl ILLEGAL_CHARACTERS
     else Inr (fold narrow_mask us m, n + length us, l + sum_list (map cbb_get_utf8_len us)))"
proof (induction us arbitrary: m n l)
  case Nil
  then show ?case by (simp add: mb_scan.simps CBS_len_0 has_bom_def)
next
  case (Cons u us)
  have d: "decode_func f (char_enc f u @ text_enc f us) = (Some u, text_enc f us)"
    using Cons.prems by (intro mb.dec_enc) simp
  show ?case
  proof (cases "narrow_mask u m = 0")
    case True
    then show ?thesis by (subst mb_scan.simps) (simp add: CBS_len_0 mb.enc_nonempty d has_bom_def)
  next
    case False
    then show ?thesis
      using Cons by (subst mb_scan.simps) (auto simp: CBS_len_0 mb.enc_nonempty d has_bom_def Let_def)
  qed
qed

lemma mb_scan_decodes:
  "mb_scan f cbs m n l = Inr r \<Longrightarrow> \<exists>us. list_all (encodable f) us \<and> cbs = text_enc f us"
proof (induction f cbs m n l rule: mb_scan.induct)
  case (1 f cbs m n l)
  show ?case
  proof (cases "cbs = []")
    case True
    then show ?thesis by (intro exI [of _ "[]"]) simp
  next
    case False
    obtain x t where x: "decode_func f cbs = (x, t)" by fastforce
    from "1.prems" False x obtain c where c: "x = Some c"
      by (subst (asm) mb_scan.simps) (cases x, auto simp: CBS_len_0)
    from mb.dec_canonical [OF x [unfolded c]] have e: "encodable f c" "cbs = char_enc f c @ t" by auto
    have "mb_scan f t (narrow_mask c m) (n + 1) (l + cbb_get_utf8_len c) = Inr r"
      and b: "\<not> (n = 0 \<and> (f = MBSTRING_BMP \<or> f = MBSTRING_UNIV) \<and> c = 0xfeff)" "narrow_mask c m \<noteq> 0"
      using "1.prems" False x c by (subst (asm) mb_scan.simps, simp add: CBS_len_0 Let_def split: if_split_asm)+
    with "1.IH" [OF _ x [symmetric] c b(1) refl b(2)] False obtain us where
      "list_all (encodable f) us" "t = text_enc f us" by (auto simp: CBS_len_0 c)
    then show ?thesis using e by (intro exI [of _ "c # us"]) simp
  qed
qed

lemma mb_convert_represents:
  "list_all (encodable f) us \<Longrightarrow> represents cbb [(LenPrefix 0, c)] \<Longrightarrow>
    mb_convert sys f g (text_enc f us) cbb = (True, cbb') \<Longrightarrow>
    list_all (encodable g) us \<and> represents cbb' [(LenPrefix 0, c @ text_enc g us)]"
proof (induction us arbitrary: cbb c)
  case Nil
  then show ?case by (simp add: mb_convert.simps CBS_len_0)
next
  case (Cons u us)
  have d: "decode_func f (char_enc f u @ text_enc f us) = (Some u, text_enc f us)"
    using Cons.prems(1) by (intro mb.dec_enc) simp
  from Cons.prems(3) obtain t where t: "encode_func g sys cbb 0 u = (True, t)"
    and r: "mb_convert sys f g (text_enc f us) t = (True, cbb')"
    by (subst (asm) mb_convert.simps) (auto simp: CBS_len_0 mb.enc_nonempty d then_do_True)
  from mb.add_refines [OF Cons.prems(2) _ t] have t2: "encodable g u" "represents t [(LenPrefix 0, c @ char_enc g u)]"
    by (simp_all add: add_seg_def)
  then show ?case using Cons.IH [OF _ t2(2) r] Cons.prems(1) by simp
qed

lemma mb_convert_growing:
  "list_all (encodable f) us \<Longrightarrow> list_all (encodable g) us \<Longrightarrow> growing cbb c \<Longrightarrow>
    length c + length (text_enc g us) + 4 \<le> 2 ^ 62 \<Longrightarrow>
    \<exists>cbb'. mb_convert always f g (text_enc f us) cbb = (True, cbb') \<and> growing cbb' (c @ text_enc g us)"
proof (induction us arbitrary: cbb c)
  case Nil
  then show ?case by (simp add: mb_convert.simps CBS_len_0)
next
  case (Cons u us)
  have d: "decode_func f (char_enc f u @ text_enc f us) = (Some u, text_enc f us)"
    using Cons.prems(1) by (intro mb.dec_enc) simp
  have "encodable g u" "length c + 4 \<le> 2 ^ 62" using Cons.prems by auto
  from mb.add_growing [OF Cons.prems(3) this] obtain t where
    t: "encode_func g always cbb 0 u = (True, t)" "growing t (c @ char_enc g u)" by blast
  have "mb_convert always f g (text_enc f (u # us)) cbb = mb_convert always f g (text_enc f us) t"
    using t(1) by (subst mb_convert.simps) (simp add: CBS_len_0 mb.enc_nonempty d)
  then show ?case using Cons.IH [OF _ _ t(2)] Cons.prems by simp
qed

lemma mb_output_Inr:
  assumes "list_all (encodable f) us" "mb_output sys f g (text_enc f us) n = Inr data"
  shows "list_all (encodable g) us \<and> data = text_enc g us @ [0] \<and> length data \<le> INT_MAX"
proof -
  from assms(2) obtain a b c s where r: "CBB_init sys (size_t (n + 1)) = (True, a)"
    "mb_convert sys f g (text_enc f us) a = (True, b)" "CBB_add_u8 sys b 0 0 = (True, c)"
    "CBB_finish sys c 0 True = (Some data, s)" "length data \<le> INT_MAX"
    unfolding mb_output_def by (auto split: prod.splits bool.splits option.splits if_split_asm)
  have "represents a [(LenPrefix 0, [])]" using CBB_init_represents [OF r(1) size_t_le] by simp
  from mb_convert_represents [OF assms(1) this r(2)] have b: "list_all (encodable g) us"
    "represents b [(LenPrefix 0, text_enc g us)]" by auto
  from CBB_add_u8_refines [OF b(2) _ r(3)] have "represents c [(LenPrefix 0, text_enc g us @ [0])]"
    by (simp add: add_seg_def flush_segs_def)
  from CBB_finish_refines [OF this r(4)] b(1) r(5) show ?thesis by simp
qed

lemma growing_init_any:
  assumes "n \<le> 2 ^ 62"
  shows "\<exists>s. CBB_init always n = (True, s) \<and> growing s []"
proof -
  have m: "OPENSSL_malloc always k" if "k \<le> 2 ^ 62" for k
    using that by (simp add: OPENSSL_malloc_def OPENSSL_MALLOC_PREFIX_def size_t_def)
  then obtain s where s: "CBB_init always n = (True, s)"
    using assms by (simp add: CBB_init_def cbb_init_def sizeof_cbb_buffer_st_def)
  then show ?thesis using CBB_init_represents [OF s] assms by (simp add: growing_def SIZE_MAX_def)
qed

lemma mb_output_always:
  assumes "list_all (encodable f) us" "list_all (encodable g) us" "length (text_enc g us) < INT_MAX" "n < 2 ^ 62"
  shows "mb_output always f g (text_enc f us) n = Inr (text_enc g us @ [0])"
proof -
  have n: "size_t (n + 1) = n + 1" using assms(4) by (simp add: SIZE_MAX_def)
  from growing_init_any [of "n + 1"] assms(4) obtain a where a: "CBB_init always (n + 1) = (True, a)" "growing a []"
    by auto
  from mb_convert_growing [OF assms(1,2) a(2)] assms(3) obtain b where
    b: "mb_convert always f g (text_enc f us) a = (True, b)" "growing b (text_enc g us)"
    by (auto simp: INT_MAX_def)
  from growing_add_u8 [OF b(2), of 0] assms(3) obtain c where
    c: "CBB_add_u8 always b 0 0 = (True, c)" "growing c (text_enc g us @ [0])" by (auto simp: INT_MAX_def)
  from growing_finish [OF c(2)] obtain s where f: "CBB_finish always c 0 True = (Some (text_enc g us @ [0]), s)"
    by (cases "CBB_finish always c 0 True") auto
  show ?thesis unfolding mb_output_def n using a(1) b(1) c(1) f assms(3) by simp
qed

section \<open>The whole conversion\<close>

definition default_mask :: "u64 \<Rightarrow> u64" where
  "default_mask m = (if m = 0 then DIRSTRING_TYPE else m)"

text \<open>\<open>size_ok\<close>: the number of characters respects the limits that are set.\<close>

definition size_ok :: "int \<Rightarrow> int \<Rightarrow> nat \<Rightarrow> bool" where
  "size_ok minsize maxsize n \<longleftrightarrow> (0 < minsize \<longrightarrow> minsize \<le> int n) \<and> (0 < maxsize \<longrightarrow> int n \<le> maxsize)"

lemma mb_scan_Inr:
  assumes "mb_scan f cbs m 0 0 = Inr (m', n, l)" "m \<noteq> 0"
  shows "\<exists>us. list_all (encodable f) us \<and> cbs = text_enc f us \<and> \<not> has_bom f us \<and> n = length us \<and>
    m' = fold narrow_mask us m"
proof -
  from mb_scan_decodes [OF assms(1)] obtain us where us: "list_all (encodable f) us" "cbs = text_enc f us" by blast
  then show ?thesis using assms(1) mb_scan_chars [OF us(1), of m 0 0] by (auto split: if_split_asm)
qed

lemma choose_output_Some:
  "choose_output (fold narrow_mask us m) n l = Some (t, g, k) \<Longrightarrow> first_kind m us = Some (t, g)"
  using choose_output_first [of us m n l] by simp

lemma mb_dest_Some:
  "mb_dest sys var t = Some (Some (fr, dest)) \<Longrightarrow> st_type dest = t \<and> st_data dest = None"
  by (cases var) (auto simp: mb_dest_def ASN1_STRING_type_new_def split: if_split_asm)

lemma set_fresh:
  assumes "st_data dest = None" "ASN1_STRING_set sys dest (Some input) (int (length input)) = Some (True, dest')"
  shows "dest' = dest\<lparr> st_length := int (length input), st_data := Some (input @ [0]) \<rparr>"
  using assms by (auto simp: ASN1_STRING_set_def asn1_string_reserve_def split: if_split_asm)

lemma mb_write_Inr:
  assumes w: "mb_write sys var (text_enc f us) f (t, g, n) = Some (Inr r, var')"
    and us: "list_all (encodable f) us" and g: "list_all (encodable g) us"
  shows "r = t \<and> (\<exists>str. var' = PointsTo str \<and> st_type str = t \<and> st_length str = int (length (text_enc g us)) \<and>
    st_data str = Some (text_enc g us @ [0]))"
proof -
  from w obtain fr dest where d: "mb_dest sys var t = Some (Some (fr, dest))"
    by (auto simp: mb_write_def Option.bind_eq_Some_conv split: option.splits)
  note dest = mb_dest_Some [OF d]
  show ?thesis
  proof (cases "f = g")
    case True
    then obtain dest' where "ASN1_STRING_set sys dest (Some (text_enc f us)) (int (length (text_enc f us))) = Some (True, dest')"
      "r = t" "var' = PointsTo dest'"
      using w d by (auto simp: mb_write_def split: if_split_asm)
    with set_fresh [OF conjunct2 [OF dest] this(1)] dest True show ?thesis by simp
  next
    case False
    obtain data where o: "mb_output sys f g (text_enc f us) n = Inr data" "r = t"
      "var' = PointsTo (dest\<lparr> st_length := int (length data) - 1, st_data := Some data \<rparr>)"
      using w d False by (auto simp: mb_write_def CBS_init_def split: sum.splits)
    with mb_output_Inr [OF us o(1)] dest show ?thesis by simp
  qed
qed

lemma mb_ncopy_Inr:
  assumes "mb_ncopy sys (Some var) input inform m minsize maxsize = Some (Inr t, out')"
  shows "\<exists>f g us str. mb_form_of inform = Some f \<and> code_points f input = Some us \<and> \<not> has_bom f us \<and>
    size_ok minsize maxsize (length us) \<and> first_kind (default_mask m) us = Some (t, g) \<and>
    list_all (encodable g) us \<and> out' = Some (PointsTo str) \<and> st_type str = t \<and>
    st_length str = int (length (text_enc g us)) \<and> st_data str = Some (text_enc g us @ [0])"
proof -
  let ?m = "default_mask m"
  have m: "?m \<noteq> 0" by (simp add: default_mask_def DIRSTRING_TYPE_def flag_bits)
  from assms obtain f m' n l outp where f: "mb_form_of inform = Some f"
    "mb_scan f (CBS_init input (length input)) ?m 0 0 = Inr (m', n, l)"
    "choose_output m' n l = Some outp" "size_ok minsize maxsize n"
    "map_option (map_prod id Some) (mb_write sys var input f outp) = Some (Inr t, out')"
    unfolding mb_ncopy_def default_mask_def [symmetric] Let_def
    by (auto simp: size_ok_def not_less split: option.splits sum.splits if_split_asm)
  from mb_scan_Inr [OF f(2) m] obtain us where us: "list_all (encodable f) us" "input = text_enc f us"
    "\<not> has_bom f us" "n = length us" "m' = fold narrow_mask us ?m" by (auto simp: CBS_init_def)
  obtain t' g k where outp: "outp = (t', g, k)" by (cases outp)
  have k: "first_kind ?m us = Some (t', g)" using f(3) unfolding us(5) outp by (rule choose_output_Some)
  from first_kind_encodable [OF this us(1)] have g: "list_all (encodable g) us" .
  from f(5) obtain var' where w: "mb_write sys var (text_enc f us) f (t', g, k) = Some (Inr t, var')" "out' = Some var'"
    unfolding outp us(2) by (cases "mb_write sys var (text_enc f us) f (t', g, k)") auto
  from mb_write_Inr [OF w(1) us(1) g] k g f us w(2) show ?thesis by (auto simp: code_points_Some)
qed

lemma sum_utf8_len: "sum_list (map cbb_get_utf8_len us) \<le> 4 * length us"
  by (induction us) (auto simp: cbb_get_utf8_len_def)

lemma choose_output_size:
  "choose_output m n l = Some (t, g, k) \<Longrightarrow> l \<le> 4 * n \<Longrightarrow> k \<le> 4 * n"
  by (auto simp: choose_output_def split: if_split_asm)

lemma mb_write_always:
  assumes "list_all (encodable f) us" "list_all (encodable g) us" "length (text_enc g us) < INT_MAX" "n < 2 ^ 62"
    "var \<noteq> DanglingString"
  shows "\<exists>var'. mb_write always var (text_enc f us) f (t, g, n) = Some (Inr t, var')"
proof -
  have m: "OPENSSL_malloc always k" if "k \<le> 2 ^ 62" for k
    using that by (simp add: OPENSSL_malloc_def OPENSSL_MALLOC_PREFIX_def size_t_def)
  obtain fr dest where d: "mb_dest always var t = Some (Some (fr, dest))"
    using assms(5) by (cases var) (auto simp: mb_dest_def ASN1_STRING_type_new_def m sizeof_ASN1_STRING_def)
  note dest = mb_dest_Some [OF d]
  show ?thesis
  proof (cases "f = g")
    case True
    then have "nat ((int (length (text_enc f us)) + 1) mod 2 ^ 64) \<le> 2 ^ 62" using assms(3) by (simp add: INT_MAX_def)
    then show ?thesis using d dest m True
      by (auto simp: mb_write_def ASN1_STRING_set_def asn1_string_reserve_def)
  next
    case False
    then show ?thesis using d mb_output_always [OF assms(1-4)] by (simp add: mb_write_def CBS_init_def)
  qed
qed

lemma mb_ncopy_always:
  assumes "mb_form_of inform = Some f" "code_points f input = Some us" "\<not> has_bom f us"
    "size_ok minsize maxsize (length us)" "first_kind (default_mask m) us = Some (t, g)"
    "length (text_enc g us) < INT_MAX" "var \<noteq> DanglingString"
  shows "\<exists>out'. mb_ncopy always (Some var) input inform m minsize maxsize = Some (Inr t, out')"
proof -
  let ?m = "default_mask m" and ?l = "sum_list (map cbb_get_utf8_len us)"
  have us: "list_all (encodable f) us" "input = text_enc f us" using assms(2) by (simp_all add: code_points_Some)
  have g: "list_all (encodable g) us" by (rule first_kind_encodable [OF assms(5) us(1)])
  from choose_output_first [of us ?m "length us" ?l] assms(5) obtain k where
    k: "choose_output (fold narrow_mask us ?m) (length us) ?l = Some (t, g, k)" by auto
  then have "fold narrow_mask us ?m \<noteq> 0" by (auto simp: choose_output_def)
  then have scan: "mb_scan f (text_enc f us) ?m 0 0 = Inr (fold narrow_mask us ?m, length us, ?l)"
    using mb_scan_chars [OF us(1), of ?m 0 0] assms(3) by simp
  have "length us < INT_MAX" using length_text_enc [of us g] assms(6) by linarith
  then have "k < 2 ^ 62" using choose_output_size [OF k sum_utf8_len] by (simp add: INT_MAX_def)
  from mb_write_always [OF us(1) g assms(6) this assms(7), of t] show ?thesis
    using assms(1,4) us(2) scan k unfolding mb_ncopy_def default_mask_def [symmetric] Let_def
    by (auto simp: CBS_init_def size_ok_def)
qed

section \<open>Properties\<close>

lemma ncopy_len:
  assumes "ASN1_mbstring_ncopy sys out input len inform m minsize maxsize = Some r" "mb_form_of inform \<noteq> None"
  obtains k where "mb_length input len = Some (int k)" "k \<le> length input"
    "mb_ncopy sys out (take k input) inform m minsize maxsize = Some r"
proof -
  from assms obtain n where "mb_length input len = Some n" "0 \<le> n" "nat n \<le> length input"
    "mb_ncopy sys out (take (nat n) input) inform m minsize maxsize = Some r"
    by (auto simp: ASN1_mbstring_ncopy_def Option.bind_eq_Some_conv not_less split: if_split_asm)
  then show thesis by (intro that [of "nat n"]) simp_all
qed

text \<open>
  C34. A conversion that succeeds returns the first type of the mask that allows every character of the input, in
  the order Printable, IA5, T61, BMP, Universal, UTF8 (the one of the comment above the code; \<open>asn1.h\<close> promises T61
  before IA5), and stores the same characters in that type's encoding: reading the input in its
  encoding and the stored string in the new one gives the same code points. The size limits hold, the
  input does not start with a byte-order mark, and the length was that of a part of the caller's memory.
\<close>

theorem mbstring_first_type:
  assumes "ASN1_mbstring_ncopy sys (Some var) input len inform m minsize maxsize = Some (Inr t, out')"
  shows "\<exists>k f g us str. mb_length input len = Some (int k) \<and> k \<le> length input \<and> mb_form_of inform = Some f \<and>
    code_points f (take k input) = Some us \<and> \<not> has_bom f us \<and> size_ok minsize maxsize (length us) \<and>
    first_kind (default_mask m) us = Some (t, g) \<and> out' = Some (PointsTo str) \<and> st_type str = t \<and>
    code_points g (take (nat (st_length str)) (the (st_data str))) = Some us"
proof -
  have "mb_form_of inform \<noteq> None"
    using assms by (cases "mb_form_of inform") (auto simp: ASN1_mbstring_ncopy_def mb_ncopy_def Option.bind_eq_Some_conv)
  from ncopy_len [OF assms this] obtain k where k: "mb_length input len = Some (int k)" "k \<le> length input"
    "mb_ncopy sys (Some var) (take k input) inform m minsize maxsize = Some (Inr t, out')" .
  from mb_ncopy_Inr [OF k(3)] obtain f g us str where r: "mb_form_of inform = Some f"
    "code_points f (take k input) = Some us" "\<not> has_bom f us" "size_ok minsize maxsize (length us)"
    "first_kind (default_mask m) us = Some (t, g)" "list_all (encodable g) us" "out' = Some (PointsTo str)"
    "st_type str = t" "st_length str = int (length (text_enc g us))" "st_data str = Some (text_enc g us @ [0])"
    by blast
  then have "code_points g (take (nat (st_length str)) (the (st_data str))) = Some us"
    by (simp add: code_points_Some)
  with k(1,2) r show ?thesis by blast
qed

text \<open>In particular IA5 is chosen before T61 whenever both are permitted, against the order in \<open>asn1.h\<close>.\<close>

lemma ia5_before_t61:
  assumes "list_all (\<lambda>c. unat c < 0x80) us"
  shows "first_kind (B_ASN1_T61STRING OR B_ASN1_IA5STRING) us = Some (V_ASN1_IA5STRING, MBSTRING_ASC)"
  using assms by (simp add: first_kind_def string_kinds_def flag_bits bit_or_iff)

lemma demo_text:
  "mb_form_of 0x1001 = Some MBSTRING_ASC" "code_points MBSTRING_ASC [0xe9] = Some [0xe9]"
  "first_kind (default_mask B_ASN1_UTF8STRING) [0xe9] = Some (12, MBSTRING_UTF8)"
  "\<not> has_bom MBSTRING_ASC [0xe9]" "size_ok 0 0 (length [0xe9])" "text_enc MBSTRING_UTF8 [0xe9] = [0xc3, 0xa9]"
  by (simp_all add: mb_form_of_def MBSTRING_FLAG_def code_points_Some default_mask_def flag_bits first_kind_def
      string_kinds_def has_bom_def size_ok_def V_ASN1_UTF8STRING_def text_enc_def utf8_def)

lemma ncopy_exact:
  "ASN1_mbstring_ncopy sys out input (int (length input)) inform m minsize maxsize =
    mb_ncopy sys out input inform m minsize maxsize"
  by (simp add: ASN1_mbstring_ncopy_def mb_length_def)

lemma demo_converted:
  "\<exists>out'. ASN1_mbstring_ncopy always (Some NullString) [0xe9] 1 0x1001 B_ASN1_UTF8STRING 0 0 = Some (Inr 12, out')"
  using mb_ncopy_always [OF demo_text(1,2,4,5,3), of NullString] demo_text(6)
    ncopy_exact [of always "Some NullString" "[0xe9]" "0x1001" B_ASN1_UTF8STRING 0 0]
  by (simp add: INT_MAX_def)

theorem mbstring_first_type_witness:
  "\<exists>us str. code_points MBSTRING_ASC [0xe9] = Some us \<and> st_type str = 12 \<and>
    ASN1_mbstring_ncopy always (Some NullString) [0xe9] 1 0x1001 B_ASN1_UTF8STRING 0 0 = Some (Inr 12, Some (PointsTo str))"
proof -
  obtain out' where c: "ASN1_mbstring_ncopy always (Some NullString) [0xe9] 1 0x1001 B_ASN1_UTF8STRING 0 0 = Some (Inr 12, out')"
    using demo_converted by blast
  from mbstring_first_type [OF c] c demo_text(1,2) show ?thesis by (auto simp: mb_length_def)
qed

text \<open>
  C35. A conversion that can succeed does: if the input is well-formed without a byte-order mark, its length is within
  the limits, the mask has a type for its characters, the output's length fits an \<open>int\<close>, the caller's variable is
  \<open>NULL\<close> or points to a live string, and memory does not run out, the first such type is returned, in the
  order of the previous property.
\<close>

theorem mbstring_succeeds:
  assumes "mb_form_of inform = Some f" "code_points f input = Some us" "\<not> has_bom f us"
    "size_ok minsize maxsize (length us)" "first_kind (default_mask m) us = Some (t, g)"
    "length (text_enc g us) < INT_MAX" "var \<noteq> DanglingString"
  shows "\<exists>out'. ASN1_mbstring_ncopy always (Some var) input (int (length input)) inform m minsize maxsize =
    Some (Inr t, out')"
  using mb_ncopy_always [OF assms] by (simp add: ncopy_exact)

theorem mbstring_succeeds_witness:
  "\<exists>out'. ASN1_mbstring_ncopy always (Some NullString) [0xe9] 1 0x1001 B_ASN1_UTF8STRING 0 0 = Some (Inr 12, out')"
  using mbstring_succeeds [OF demo_text(1,2,4,5,3), of NullString] demo_text(6) by (simp add: INT_MAX_def)

lemma mb_write_null_fails:
  assumes "mb_write sys NullString input f (t, g, n) = Some (Inl e, var')"
  shows "var' = DanglingString \<longleftrightarrow> OPENSSL_malloc sys sizeof_ASN1_STRING \<and> f \<noteq> g"
  using assms
  by (auto simp: mb_write_def mb_dest_def ASN1_STRING_type_new_def split: if_split_asm sum.splits)

text \<open>
  C36. A call with \<open>*out\<close> \<open>NULL\<close> that fails leaves the caller's variable pointing to the string it has released exactly if
  the text and the limits were in order, a permitted type was found whose encoding is not that of the input (so the
  characters are converted, not copied), and the new string was allocated: that is, when memory runs out, or
  the output grows too long, during the conversion.
\<close>

theorem mbstring_failure_dangles:
  assumes "ASN1_mbstring_ncopy sys (Some NullString) input (int (length input)) inform m minsize maxsize = Some (Inl e, out')"
  shows "out' = Some DanglingString \<longleftrightarrow>
    OPENSSL_malloc sys sizeof_ASN1_STRING \<and>
    (\<exists>f us t g. mb_form_of inform = Some f \<and> code_points f input = Some us \<and> \<not> has_bom f us \<and>
       size_ok minsize maxsize (length us) \<and> first_kind (default_mask m) us = Some (t, g) \<and> f \<noteq> g)"
    (is "_ \<longleftrightarrow> _ \<and> ?text")
proof -
  let ?m = "default_mask m"
  have m: "?m \<noteq> 0" by (simp add: default_mask_def DIRSTRING_TYPE_def flag_bits)
  note e = assms [unfolded ncopy_exact mb_ncopy_def default_mask_def [symmetric] Let_def]
  show ?thesis
  proof (cases ?text)
    case True
    then obtain f us t g where f: "mb_form_of inform = Some f" "code_points f input = Some us" "\<not> has_bom f us"
      "size_ok minsize maxsize (length us)" "first_kind ?m us = Some (t, g)" "f \<noteq> g" by blast
    then have us: "list_all (encodable f) us" "input = text_enc f us" by (simp_all add: code_points_Some)
    let ?l = "sum_list (map cbb_get_utf8_len us)"
    from choose_output_first [of us ?m "length us" ?l] f(5) obtain k where
      k: "choose_output (fold narrow_mask us ?m) (length us) ?l = Some (t, g, k)" by auto
    then have "fold narrow_mask us ?m \<noteq> 0" by (auto simp: choose_output_def)
    then have "mb_scan f (text_enc f us) ?m 0 0 = Inr (fold narrow_mask us ?m, length us, ?l)"
      using mb_scan_chars [OF us(1), of ?m 0 0] f(3) by simp
    then obtain var' where "mb_write sys NullString input f (t, g, k) = Some (Inl e, var')" "out' = Some var'"
      using e f(1,4) k us(2) by (auto simp: CBS_init_def size_ok_def)
    then show ?thesis using mb_write_null_fails True f(6) by auto
  next
    case False
    have "out' \<noteq> Some DanglingString"
    proof
      assume d: "out' = Some DanglingString"
      with e obtain f m' n l t g k where f: "mb_form_of inform = Some f"
        "mb_scan f (CBS_init input (length input)) ?m 0 0 = Inr (m', n, l)"
        "choose_output m' n l = Some (t, g, k)" "size_ok minsize maxsize n"
        "mb_write sys NullString input f (t, g, k) = Some (Inl e, DanglingString)"
        by (auto simp: size_ok_def not_less split: option.splits sum.splits if_split_asm)
      from mb_scan_Inr [OF f(2) m] obtain us where us: "list_all (encodable f) us" "input = text_enc f us"
        "\<not> has_bom f us" "n = length us" "m' = fold narrow_mask us ?m" by (auto simp: CBS_init_def)
      have "first_kind ?m us = Some (t, g)" using f(3) unfolding us(5) by (rule choose_output_Some)
      moreover have "f \<noteq> g" using mb_write_null_fails [OF f(5)] by simp
      ultimately show False using False f(1,4) us by (auto simp: code_points_Some)
    qed
    then show ?thesis using False by blast
  qed
qed

lemma demo_failure:
  "ASN1_mbstring_ncopy (\<lambda>n. n = 32) (Some NullString) [0xe9] 1 0x1001 B_ASN1_UTF8STRING 0 0 =
    Some (Inl MALLOC_FAILURE, Some DanglingString)"
proof -
  let ?sys = "\<lambda>n. n = (32 :: nat)"
  have "list_all (encodable MBSTRING_ASC) [0xe9]" by simp
  note chars = mb_scan_chars [OF this, of B_ASN1_UTF8STRING 0 0]
  have n: "fold narrow_mask [0xe9] B_ASN1_UTF8STRING = B_ASN1_UTF8STRING"
    by (simp add: narrow_mask_def drop_format_def flag_bits asn1_is_printable_def)
  have scan: "mb_scan MBSTRING_ASC [0xe9] B_ASN1_UTF8STRING 0 0 = Inr (B_ASN1_UTF8STRING, 1, 2)"
    using chars unfolding n by (simp add: has_bom_def flag_bits cbb_get_utf8_len_def)
  have c: "choose_output B_ASN1_UTF8STRING 1 2 = Some (12, MBSTRING_UTF8, 2)"
    by (simp add: choose_output_def flag_bits V_ASN1_UTF8STRING_def)
  have "mb_output ?sys MBSTRING_ASC MBSTRING_UTF8 [0xe9] 2 = Inl MALLOC_FAILURE"
    by (simp add: mb_output_def CBB_init_def OPENSSL_malloc_def OPENSSL_MALLOC_PREFIX_def size_t_def)
  then have "mb_write ?sys NullString [0xe9] MBSTRING_ASC (12, MBSTRING_UTF8, 2) = Some (Inl MALLOC_FAILURE, DanglingString)"
    by (simp add: mb_write_def mb_dest_def ASN1_STRING_type_new_def sizeof_ASN1_STRING_def OPENSSL_malloc_def
        OPENSSL_MALLOC_PREFIX_def CBS_init_def size_t_def)
  then show ?thesis
    using scan c demo_text(1) by (simp add: ASN1_mbstring_ncopy_def mb_length_def mb_ncopy_def Let_def CBS_init_def flag_bits)
qed

theorem mbstring_failure_dangles_witness:
  "\<exists>f us t g. mb_form_of 0x1001 = Some f \<and> code_points f [0xe9] = Some us \<and>
    first_kind (default_mask B_ASN1_UTF8STRING) us = Some (t, g) \<and> f \<noteq> g"
  using mbstring_failure_dangles [of "\<lambda>n. n = 32" "[0xe9]" "0x1001" B_ASN1_UTF8STRING 0 0] demo_failure by auto

end
