(* ===== verification/Base64.thy ===== *)
theory Base64
  imports Mem
begin

text \<open>
  Base64 (\<open>src/crypto/base64/base64.c\<close>) on top of the constant-time helpers of
  \<open>src/crypto/internal.h\<close>: the two character tables written without branches, the block encoder and
  decoder, and the streaming interface that breaks its output into lines of 64 characters. Outputs
  are the lists of bytes written; a \<open>crypto_word_t\<close> has 64 bits.
\<close>

section \<open>Constant-time helpers\<close>

definition constant_time_msb_w :: "u64 \<Rightarrow> u64" where
  "constant_time_msb_w a = 0 - drop_bit 63 a"

definition constant_time_is_zero_w :: "u64 \<Rightarrow> u64" where
  "constant_time_is_zero_w a = constant_time_msb_w (NOT a AND (a - 1))"

definition constant_time_eq_w :: "u64 \<Rightarrow> u64 \<Rightarrow> u64" where
  "constant_time_eq_w a b = constant_time_is_zero_w (a XOR b)"

definition constant_time_eq_8 :: "u64 \<Rightarrow> u64 \<Rightarrow> u8" where
  "constant_time_eq_8 a b = ucast (constant_time_eq_w a b)"

definition constant_time_lt_w :: "u64 \<Rightarrow> u64 \<Rightarrow> u64" where
  "constant_time_lt_w a b = constant_time_msb_w (a XOR ((a XOR b) OR ((a - b) XOR a)))"

definition constant_time_lt_8 :: "u64 \<Rightarrow> u64 \<Rightarrow> u8" where
  "constant_time_lt_8 a b = ucast (constant_time_lt_w a b)"

definition constant_time_ge_w :: "u64 \<Rightarrow> u64 \<Rightarrow> u64" where
  "constant_time_ge_w a b = NOT (constant_time_lt_w a b)"

definition constant_time_select_w :: "u64 \<Rightarrow> u64 \<Rightarrow> u64 \<Rightarrow> u64" where
  "constant_time_select_w m a b = (m AND a) OR (NOT m AND b)"

definition constant_time_select_8 :: "u8 \<Rightarrow> u8 \<Rightarrow> u8 \<Rightarrow> u8" where
  "constant_time_select_8 m a b = ucast (constant_time_select_w (ucast m) (ucast a) (ucast b))"

definition constant_time_lt_args_8 :: "u8 \<Rightarrow> u8 \<Rightarrow> u8" where
  "constant_time_lt_args_8 a b = ucast (constant_time_msb_w (ucast a - ucast b))"

definition constant_time_in_range_8 :: "u8 \<Rightarrow> u8 \<Rightarrow> u8 \<Rightarrow> u8" where
  "constant_time_in_range_8 a lo hi = constant_time_lt_args_8 (a - lo) (hi - lo + 1)"

section \<open>Encoding\<close>

definition conv_bin2ascii :: "u8 \<Rightarrow> u8" where
  "conv_bin2ascii a =
     (let a = a AND 0x3f;
          ret = constant_time_select_8 (constant_time_eq_8 (ucast a) 62) 0x2b 0x2f;
          ret = constant_time_select_8 (constant_time_lt_args_8 a 62) (a - 52 + 0x30) ret;
          ret = constant_time_select_8 (constant_time_lt_args_8 a 52) (a - 26 + 0x61) ret
      in constant_time_select_8 (constant_time_lt_args_8 a 26) (a + 0x41) ret)"

text \<open>\<open>*out_len\<close>, or \<open>None\<close> if it does not fit a \<open>size_t\<close>.\<close>

definition EVP_EncodedLength :: "nat \<Rightarrow> nat option" where
  "EVP_EncodedLength len =
     (if size_t (len + 2) < len then None
      else let len = size_t (len + 2) div 3
           in if size_t (len * 4) div 4 \<noteq> len then None
              else let len = size_t (len * 4)
                   in if size_t (len + 1) < len then None else Some (size_t (len + 1)))"

text \<open>The characters of \<open>EVP_EncodeBlock\<close>, without the final NUL.\<close>

fun encode_groups :: "u8 list \<Rightarrow> u8 list" where
  "encode_groups [] = []"
| "encode_groups [a] =
     (let l = push_bit 16 (ucast a) :: u32
      in [conv_bin2ascii (ucast (drop_bit 18 l)), conv_bin2ascii (ucast (drop_bit 12 l)), 0x3d, 0x3d])"
| "encode_groups [a, b] =
     (let l = push_bit 16 (ucast a) OR push_bit 8 (ucast b) :: u32
      in [conv_bin2ascii (ucast (drop_bit 18 l)), conv_bin2ascii (ucast (drop_bit 12 l)),
          conv_bin2ascii (ucast (drop_bit 6 l)), 0x3d])"
| "encode_groups (a # b # c # src) =
     (let l = push_bit 16 (ucast a) OR push_bit 8 (ucast b) OR ucast c :: u32
      in [conv_bin2ascii (ucast (drop_bit 18 l)), conv_bin2ascii (ucast (drop_bit 12 l)),
          conv_bin2ascii (ucast (drop_bit 6 l)), conv_bin2ascii (ucast l)] @ encode_groups src)"

text \<open>What is written to \<open>dst\<close> and the number returned.\<close>

definition EVP_EncodeBlock :: "u8 list \<Rightarrow> u8 list \<times> nat" where
  "EVP_EncodeBlock src = (encode_groups src @ [0], length (encode_groups src))"

text \<open>
  \<open>EVP_ENCODE_CTX\<close>: the valid part of \<open>data\<close> is a list, so \<open>data_used\<close> is its length.
\<close>

record evp_encode_ctx =
  ctx_data :: "u8 list"
  ctx_eof_seen :: bool
  ctx_error :: bool

definition ctx_data_size :: nat where
  "ctx_data_size = 48"

definition EVP_EncodeInit :: evp_encode_ctx where
  "EVP_EncodeInit = \<lparr> ctx_data = [], ctx_eof_seen = False, ctx_error = False \<rparr>"

definition EVP_ENCODE_CTX_new :: "(nat \<Rightarrow> bool) \<Rightarrow> evp_encode_ctx option" where
  "EVP_ENCODE_CTX_new sys = (if OPENSSL_malloc sys 56 then Some EVP_EncodeInit else None)"

text \<open>
  The loop over whole lines, from \<open>total\<close>: the lines written, the input left, and \<open>None\<close> for the
  early return when \<open>total\<close> would wrap around.
\<close>

function encode_lines :: "nat \<Rightarrow> u8 list \<Rightarrow> u8 list \<times> u8 list \<times> nat option" where
  "encode_lines tot inp =
     (if length inp < ctx_data_size then ([], inp, Some tot)
      else let line = encode_groups (take ctx_data_size inp) @ [0x0a];
               rest = drop ctx_data_size inp
           in if size_t (tot + length line) < tot then (line, rest, None)
              else case encode_lines (size_t (tot + length line)) rest of
                     (out, rest, t) \<Rightarrow> (line @ out, rest, t))"
  by pat_completeness auto
termination by (relation "measure (\<lambda>(tot, inp). length inp)") (auto simp: ctx_data_size_def)

declare encode_lines.simps [simp del]

text \<open>The context, the bytes written (without the final NUL) and \<open>*out_len\<close>.\<close>

definition EVP_EncodeUpdate :: "evp_encode_ctx \<Rightarrow> u8 list \<Rightarrow> evp_encode_ctx \<times> u8 list \<times> nat" where
  "EVP_EncodeUpdate ctx inp =
     (let used = length (ctx_data ctx)
      in if length inp = 0 then (ctx, [], 0)
         else if length inp < ctx_data_size - used
         then (ctx\<lparr> ctx_data := ctx_data ctx @ inp \<rparr>, [], 0)
         else let todo = ctx_data_size - used;
                  first = (if used \<noteq> 0 then encode_groups (ctx_data ctx @ take todo inp) @ [0x0a] else []);
                  inp = (if used \<noteq> 0 then drop todo inp else inp)
              in case encode_lines (length first) inp of
                   (lines, rest, None) \<Rightarrow> (ctx\<lparr> ctx_data := [] \<rparr>, first @ lines, 0)
                 | (lines, rest, Some tot) \<Rightarrow>
                     (ctx\<lparr> ctx_data := rest \<rparr>, first @ lines, if INT_MAX < tot then 0 else tot))"

definition EVP_EncodeFinal :: "evp_encode_ctx \<Rightarrow> evp_encode_ctx \<times> u8 list \<times> nat" where
  "EVP_EncodeFinal ctx =
     (if length (ctx_data ctx) = 0 then (ctx, [], 0)
      else let out = encode_groups (ctx_data ctx) @ [0x0a]
           in (ctx\<lparr> ctx_data := [] \<rparr>, out, length out))"

section \<open>Decoding\<close>

definition EVP_DecodedLength :: "nat \<Rightarrow> nat option" where
  "EVP_DecodedLength len = (if len mod 4 \<noteq> 0 then None else Some (size_t (len div 4 * 3)))"

definition base64_ascii_to_bin :: "u8 \<Rightarrow> u8" where
  "base64_ascii_to_bin a =
     (let is_upper = constant_time_in_range_8 a 0x41 0x5a;
          is_lower = constant_time_in_range_8 a 0x61 0x7a;
          is_digit = constant_time_in_range_8 a 0x30 0x39;
          is_plus = constant_time_eq_8 (ucast a) 0x2b;
          is_slash = constant_time_eq_8 (ucast a) 0x2f;
          is_equals = constant_time_eq_8 (ucast a) 0x3d;
          ret = 0;
          ret = ret OR (is_upper AND (a - 0x41));
          ret = ret OR (is_lower AND (a - 0x61 + 26));
          ret = ret OR (is_digit AND (a - 0x30 + 52));
          ret = ret OR (is_plus AND 62);
          ret = ret OR (is_slash AND 63);
          is_valid = is_upper OR is_lower OR is_digit OR is_plus OR is_slash OR is_equals
      in ret OR NOT is_valid)"

text \<open>The bytes written, or \<open>None\<close> for an error; the last argument is the four input characters.\<close>

definition base64_decode_quad :: "u8 \<Rightarrow> u8 \<Rightarrow> u8 \<Rightarrow> u8 \<Rightarrow> u8 list option" where
  "base64_decode_quad in0 in1 in2 in3 =
     (let a = base64_ascii_to_bin in0; b = base64_ascii_to_bin in1;
          c = base64_ascii_to_bin in2; d = base64_ascii_to_bin in3
      in if a = 0xff \<or> b = 0xff \<or> c = 0xff \<or> d = 0xff then None
         else let v = push_bit 18 (ucast a) OR push_bit 12 (ucast b) OR push_bit 6 (ucast c) OR ucast d :: u32;
                  padding_pattern =
                    push_bit 3 (of_bool (in0 = 0x3d)) OR push_bit 2 (of_bool (in1 = 0x3d)) OR
                    push_bit 1 (of_bool (in2 = 0x3d)) OR of_bool (in3 = 0x3d) :: u32
              in if padding_pattern = 0
                 then Some [ucast (drop_bit 16 v), ucast (drop_bit 8 v), ucast v]
                 else if padding_pattern = 1
                 then Some [ucast (drop_bit 16 v), ucast (drop_bit 8 v)]
                 else if padding_pattern = 3 then Some [ucast (drop_bit 16 v)]
                 else None)"

definition is_space :: "u8 \<Rightarrow> bool" where
  "is_space c = (c = 0x20 \<or> c = 0x09 \<or> c = 0x0d \<or> c = 0x0a)"

text \<open>
  The loop of \<open>EVP_DecodeUpdate\<close>: whether it ran to the end, the context and the bytes written.
\<close>

fun decode_update_loop :: "evp_encode_ctx \<Rightarrow> u8 list \<Rightarrow> bool \<times> evp_encode_ctx \<times> u8 list" where
  "decode_update_loop ctx [] = (True, ctx, [])"
| "decode_update_loop ctx (c # inp) =
     (if is_space c then decode_update_loop ctx inp
      else if ctx_eof_seen ctx then (False, ctx\<lparr> ctx_error := True \<rparr>, [])
      else let ctx = ctx\<lparr> ctx_data := ctx_data ctx @ [c] \<rparr>
           in if length (ctx_data ctx) = 4
              then case base64_decode_quad (ctx_data ctx ! 0) (ctx_data ctx ! 1)
                                           (ctx_data ctx ! 2) (ctx_data ctx ! 3) of
                     None \<Rightarrow> (False, ctx\<lparr> ctx_error := True \<rparr>, [])
                   | Some bytes \<Rightarrow>
                       (case decode_update_loop
                               (ctx\<lparr> ctx_data := [],
                                     ctx_eof_seen := length bytes < 3 \<or> ctx_eof_seen ctx \<rparr>) inp of
                          (ok, ctx, out) \<Rightarrow> (ok, ctx, bytes @ out))
              else decode_update_loop ctx inp)"

text \<open>The return value, the context, the bytes written and \<open>*out_len\<close>.\<close>

definition EVP_DecodeUpdate :: "evp_encode_ctx \<Rightarrow> u8 list \<Rightarrow> int \<times> evp_encode_ctx \<times> u8 list \<times> nat" where
  "EVP_DecodeUpdate ctx inp =
     (if ctx_error ctx then (-1, ctx, [], 0)
      else case decode_update_loop ctx inp of
             (False, ctx, out) \<Rightarrow> (-1, ctx, out, 0)
           | (True, ctx, out) \<Rightarrow>
               if INT_MAX < length out then (-1, ctx\<lparr> ctx_error := True \<rparr>, out, 0)
               else (if ctx_eof_seen ctx then 0 else 1, ctx, out, length out))"

definition EVP_DecodeFinal :: "evp_encode_ctx \<Rightarrow> int \<times> nat" where
  "EVP_DecodeFinal ctx = (if ctx_error ctx \<or> length (ctx_data ctx) \<noteq> 0 then (-1, 0) else (1, 0))"

text \<open>
  The loop of \<open>EVP_DecodeBase64\<close> over an input whose length is a multiple of four: whether it ran to the end, and the
  bytes written. A quad that is not the last one is written before its padding is refused.
\<close>

fun decode_quads :: "u8 list \<Rightarrow> bool \<times> u8 list" where
  "decode_quads (a # b # c # d # inp) =
     (case base64_decode_quad a b c d of
        None \<Rightarrow> (False, [])
      | Some bytes \<Rightarrow>
          if length bytes \<noteq> 3 \<and> inp \<noteq> [] then (False, bytes)
          else case decode_quads inp of (ok, out) \<Rightarrow> (ok, bytes @ out))"
| "decode_quads inp = (True, [])"

text \<open>The return value, the bytes written to \<open>out\<close> (also by a call that fails) and \<open>*out_len\<close>.\<close>

definition EVP_DecodeBase64 :: "nat \<Rightarrow> u8 list \<Rightarrow> bool \<times> u8 list \<times> nat" where
  "EVP_DecodeBase64 max_out inp =
     (if length inp mod 4 \<noteq> 0 then (False, [], 0)
      else case EVP_DecodedLength (length inp) of
             None \<Rightarrow> (False, [], 0)
           | Some max_len \<Rightarrow>
               if max_out < max_len then (False, [], 0)
               else case decode_quads inp of
                      (False, out) \<Rightarrow> (False, out, 0)
                    | (True, out) \<Rightarrow> (True, out, length out))"

text \<open>The number returned, or \<open>-1\<close>, and what is written, padded with NULs on success.\<close>

definition EVP_DecodeBlock :: "u8 list \<Rightarrow> int \<times> u8 list" where
  "EVP_DecodeBlock src =
     (let src = dropWhile (\<lambda>c. c = 0x20 \<or> c = 0x09) src;
          src = rev (dropWhile is_space (rev src))
      in case EVP_DecodedLength (length src) of
           None \<Rightarrow> (-1, [])
         | Some dst_len \<Rightarrow>
             if INT_MAX < dst_len then (-1, [])
             else case EVP_DecodeBase64 dst_len src of
                    (False, out, _) \<Rightarrow> (-1, out)
                  | (True, out, dst_len) \<Rightarrow>
                      (let out = out @ replicate ((3 - dst_len mod 3) mod 3) 0 in (int (length out), out)))"

section \<open>The helpers select as intended\<close>

lemma top_bit_64: "bit a 63 \<longleftrightarrow> 2 ^ 63 \<le> unat a" for a :: u64
proof -
  have "bit a 63 \<longleftrightarrow> odd (unat a div 2 ^ 63)"
  proof -
    have "bit (unat a) 63 = bit a 63" by (simp add: bit_unsigned_iff)
    then show ?thesis by (simp add: bit_iff_odd [of "unat a"])
  qed
  moreover have "unat a div 2 ^ 63 < 2" using unsigned_less [of a, where ?'a = nat]
    by (intro less_mult_imp_div_less) simp
  ultimately show ?thesis by (cases "unat a div 2 ^ 63") (auto simp: div_eq_0_iff)
qed

lemma msb_w: "constant_time_msb_w a = (if bit a 63 then - 1 else 0)"
proof -
  have "unat a div 2 ^ 63 < 2" using unsigned_less [of a, where ?'a = nat] by (intro less_mult_imp_div_less) simp
  then have "unat (drop_bit 63 a) = of_bool (bit a 63)"
    unfolding top_bit_64 unat_drop_bit by (cases "unat a div 2 ^ 63") (auto simp: div_eq_0_iff)
  then have "drop_bit 63 a = of_bool (bit a 63)" by (simp add: word_unat_eq_iff)
  then show ?thesis by (simp add: constant_time_msb_w_def)
qed

lemma unat_minus_u64: "unat (a - b) = (if unat b \<le> unat a then unat a - unat b else unat a + 2 ^ 64 - unat b)"
  for a b :: u64
  using unat_sub_if_size [of a b] by (simp add: word_size)

lemma constant_time_lt_w: "constant_time_lt_w a b = (if a < b then - 1 else 0)"
proof -
  have lt: "a < b \<longleftrightarrow> unat a < unat b" by (rule word_less_nat_alt)
  have "bit (a XOR ((a XOR b) OR ((a - b) XOR a))) 63 \<longleftrightarrow> a < b"
    unfolding bit_xor_iff bit_or_iff
    unfolding top_bit_64 unat_minus_u64 lt
    using unsigned_less [of a, where ?'a = nat] unsigned_less [of b, where ?'a = nat] by auto
  then show ?thesis by (simp add: constant_time_lt_w_def msb_w)
qed

lemma constant_time_is_zero_w: "constant_time_is_zero_w a = (if a = 0 then - 1 else 0)"
proof (cases "a = 0")
  case True
  then show ?thesis by (simp add: constant_time_is_zero_w_def msb_w top_bit_64 unsigned_minus_1_eq_mask mask_eq_exp_minus_1)
next
  case False
  then have "unat a \<noteq> 0" by (simp add: unat_0_iff)
  then have "unat (a - 1) = unat a - 1" unfolding unat_minus_u64 by simp
  then have "\<not> (bit (NOT a) 63 \<and> bit (a - 1) 63)" 
    unfolding bit_not_iff unfolding top_bit_64 by auto
  then show ?thesis using False by (simp add: constant_time_is_zero_w_def msb_w bit_and_iff)
qed

lemma ucast_minus_1: "(ucast (- 1 :: u64) :: u8) = 0xff"
proof -
  have "(0xff :: u8) = - 1" by simp
  moreover have "(ucast (- 1 :: u64) :: u8) = - 1" by (rule bit_word_eqI) (simp add: bit_simps)
  ultimately show ?thesis by simp
qed

lemma constant_time_eq_8: "constant_time_eq_8 a b = (if a = b then 0xff else 0)"
  by (simp add: constant_time_eq_8_def constant_time_eq_w_def constant_time_is_zero_w word_xor_eq_0_iff ucast_minus_1)

lemma unat_ucast_u8_u64 [simp]: "unat (ucast a :: u64) = unat a" for a :: u8
  using unat_u8 [of a] by (simp add: unsigned_ucast_eq take_bit_eq_mod less_trans [of _ 256])

lemma constant_time_lt_args_8: "constant_time_lt_args_8 a b = (if a < b then 0xff else 0)"
proof -
  have "bit (ucast a - ucast b :: u64) 63 \<longleftrightarrow> a < b"
    unfolding top_bit_64 unat_minus_u64 unat_ucast_u8_u64 word_less_nat_alt
    using unat_u8_le [of a] unat_u8_le [of b] by auto
  then show ?thesis by (simp add: constant_time_lt_args_8_def msb_w ucast_minus_1)
qed

lemma constant_time_select_8: "constant_time_select_8 0xff a b = a" "constant_time_select_8 0 a b = b"
  unfolding constant_time_select_8_def constant_time_select_w_def
proof -
  have ff: "(0xff :: u8) = mask 8" by (simp add: mask_eq_exp_minus_1)
  show "ucast (ucast (0xff :: u8) AND ucast a OR NOT (ucast (0xff :: u8)) AND ucast b :: u64) = a"
    unfolding ff by (rule bit_word_eqI) (simp add: bit_simps)
  show "ucast (ucast (0 :: u8) AND ucast a OR NOT (ucast (0 :: u8)) AND ucast b :: u64) = b"
    by (rule bit_word_eqI) (simp add: bit_simps)
qed

section \<open>The tables\<close>

text \<open>The base64 alphabet and its inverse.\<close>

definition base64_char :: "nat \<Rightarrow> nat" where
  "base64_char n =
     (if n < 26 then n + 65 else if n < 52 then n - 26 + 97 else if n < 62 then n - 52 + 48
      else if n = 62 then 43 else 47)"

definition base64_index :: "nat \<Rightarrow> nat option" where
  "base64_index c =
     (if 65 \<le> c \<and> c \<le> 90 then Some (c - 65) else if 97 \<le> c \<and> c \<le> 122 then Some (c - 97 + 26)
      else if 48 \<le> c \<and> c \<le> 57 then Some (c - 48 + 52) else if c = 43 then Some 62
      else if c = 47 then Some 63 else None)"

lemma base64_index_char: "n < 64 \<Longrightarrow> base64_index (base64_char n) = Some n"
  by (auto simp: base64_index_def base64_char_def)

lemma base64_char_index: "base64_index c = Some n \<Longrightarrow> n < 64 \<and> base64_char n = c"
  by (auto simp: base64_index_def base64_char_def split: if_split_asm)

lemma unat_minus_u8: "unat (a - b) = (if unat b \<le> unat a then unat a - unat b else unat a + 256 - unat b)"
  for a b :: u8
  using unat_sub_if_size [of a b] by (simp add: word_size)

lemma unat_plus_u8: "unat (a + b) = (unat a + unat b) mod 256" for a b :: u8
  by (simp add: unat_word_ariths)

lemma byte_low6: "unat (b AND 0x3f) = unat b mod 64" for b :: u8
  using unat_and_mask [of b 6] by (simp add: mask_eq_exp_minus_1)

lemma conv_bin2ascii: "unat (conv_bin2ascii a) = base64_char (unat a mod 64)"
proof -
  define n where "n = a AND 0x3f"
  have n: "unat n = unat a mod 64" "unat n < 64" by (simp_all add: n_def byte_low6)
  have "ucast n = (62 :: u64) \<longleftrightarrow> unat n = 62" by (simp add: word_unat_eq_iff)
  then show ?thesis
    unfolding conv_bin2ascii_def Let_def n_def [symmetric] constant_time_lt_args_8 constant_time_eq_8
    using n by (auto simp: base64_char_def constant_time_select_8 word_less_nat_alt unat_plus_u8 unat_minus_u8)
qed

lemma in_range_8: "unat lo \<le> unat hi \<Longrightarrow> unat hi - unat lo < 255 \<Longrightarrow> constant_time_in_range_8 a lo hi = (if unat lo \<le> unat a \<and> unat a \<le> unat hi then 0xff else 0)"
  using unat_u8_le [of hi] unat_u8_le [of a]
  by (auto simp: constant_time_in_range_8_def constant_time_lt_args_8 word_less_nat_alt unat_plus_u8 unat_minus_u8)

lemma and_ff [simp]: "0xff AND a = a" "a AND 0xff = a" "a OR 0xff = 0xff" "0xff OR a = 0xff" for a :: u8
proof -
  have ff: "(0xff :: u8) = - 1" by simp
  show "0xff AND a = a" "a AND 0xff = a" "a OR 0xff = 0xff" "0xff OR a = 0xff" unfolding ff by simp_all
qed

lemma byte_consts: "(- 256 :: u8) = 0" "unat (- 1 :: u8) = 255"
  by (simp_all add: unsigned_minus_1_eq_mask mask_eq_exp_minus_1)

lemma base64_ascii_to_bin: "unat (base64_ascii_to_bin c) =
    (case base64_index (unat c) of Some n \<Rightarrow> n | None \<Rightarrow> if c = 0x3d then 0 else 255)"
proof -
  have eq: "(ucast c = (k :: u64)) \<longleftrightarrow> unat c = unat k" for k by (simp add: word_unat_eq_iff)
  show ?thesis
    unfolding base64_ascii_to_bin_def Let_def constant_time_eq_8 eq
    using unat_u8_le [of c]
    by (auto simp: in_range_8 base64_index_def unat_plus_u8 unat_minus_u8 word_unat_eq_iff byte_consts)
qed

section \<open>One group\<close>

definition b64c :: "nat \<Rightarrow> u8" where
  "b64c n = of_nat (base64_char n)"

lemma base64_char_less: "n < 64 \<Longrightarrow> base64_char n < 123"
  by (auto simp: base64_char_def)

lemma unat_b64c: "n < 64 \<Longrightarrow> unat (b64c n) = base64_char n"
  using base64_char_less [of n] by (simp add: b64c_def)

lemma conv_b64c: "conv_bin2ascii x = b64c (unat x mod 64)"
  by (rule unsigned_word_eqI [where ?'a = nat]) (simp add: conv_bin2ascii unat_b64c)

lemma ascii_to_bin_b64c: "n < 64 \<Longrightarrow> base64_ascii_to_bin (b64c n) = of_nat n"
  by (rule unsigned_word_eqI [where ?'a = nat]) (simp add: base64_ascii_to_bin unat_b64c base64_index_char)

lemma ascii_to_bin_pad: "base64_ascii_to_bin 0x3d = 0"
  by (rule unsigned_word_eqI [where ?'a = nat]) (simp add: base64_ascii_to_bin base64_index_def)

lemma b64c_not_pad: "n < 64 \<Longrightarrow> b64c n \<noteq> 0x3d \<and> \<not> is_space (b64c n)"
  by (auto simp: is_space_def word_unat_eq_iff unat_b64c base64_char_def)

lemma sextet:
  assumes "unat (l :: u32) = n" "n < 2 ^ 24"
  shows "conv_bin2ascii (ucast (drop_bit k l)) = b64c (n div 2 ^ k mod 64)"
proof -
  have "unat (ucast (drop_bit k l) :: u8) = n div 2 ^ k mod 256"
    using assms(1) by (simp add: unsigned_ucast_eq take_bit_eq_mod unat_drop_bit)
  moreover have "(n div 2 ^ k mod 256) mod 64 = n div 2 ^ k mod 64" by (rule mod_mod_cancel) simp
  ultimately show ?thesis by (simp add: conv_b64c)
qed

lemma unat_ucast_u8_u32 [simp]: "unat (ucast a :: u32) = unat a" for a :: u8
  using unat_u8 [of a] by (simp add: unsigned_ucast_eq take_bit_eq_mod less_trans [of _ 256])

lemma unat_group:
  "unat (push_bit 16 (ucast a) OR push_bit 8 (ucast b) OR ucast c :: u32) = unat a * 65536 + unat b * 256 + unat c"
  for a b c :: u8
proof -
  have b: "unat (push_bit 8 (ucast b) OR ucast c :: u32) = unat b * 256 + unat c"
    using unat_push_or [of 8 "ucast b :: u32" "ucast c"] unat_u8_le [of b] by simp
  then have "unat (push_bit 8 (ucast b) OR ucast c :: u32) < 2 ^ 16" using unat_u8_le [of b] unat_u8_le [of c] by simp
  then show ?thesis
    using unat_push_or [of 16 "ucast a :: u32" "push_bit 8 (ucast b) OR ucast c"] unat_u8_le [of a] b
    by (simp add: or.assoc)
qed

text \<open>The characters of three bytes, as sextets of the 24-bit number they form.\<close>

definition group_value :: "u8 \<Rightarrow> u8 \<Rightarrow> u8 \<Rightarrow> nat" where
  "group_value a b c = unat a * 65536 + unat b * 256 + unat c"

definition sextets :: "nat \<Rightarrow> u8 list" where
  "sextets n = [b64c (n div 2 ^ 18 mod 64), b64c (n div 2 ^ 12 mod 64), b64c (n div 2 ^ 6 mod 64), b64c (n mod 64)]"

lemma group_value_less: "group_value a b c < 2 ^ 24"
  using unat_u8_le [of a] unat_u8_le [of b] unat_u8_le [of c] by (simp add: group_value_def)

lemma encode_groups_eq:
  "encode_groups [a] = take 2 (sextets (group_value a 0 0)) @ [0x3d, 0x3d]"
  "encode_groups [a, b] = take 3 (sextets (group_value a b 0)) @ [0x3d]"
  "encode_groups (a # b # c # src) = sextets (group_value a b c) @ encode_groups src"
proof -
  have ucast0: "(ucast (0 :: u8) :: u32) = 0" by simp
  note s = sextet [OF unat_group [folded group_value_def] group_value_less]
  show "encode_groups [a] = take 2 (sextets (group_value a 0 0)) @ [0x3d, 0x3d]"
    using s [of _ a 0 0] by (simp add: sextets_def)
  show "encode_groups [a, b] = take 3 (sextets (group_value a b 0)) @ [0x3d]"
    using s [of _ a b 0] by (simp add: sextets_def)
  show "encode_groups (a # b # c # src) = sextets (group_value a b c) @ encode_groups src"
    using s [of _ a b c] s [of 0 a b c] by (simp add: sextets_def)
qed

lemma unat_quad:
  assumes "i < 64" "j < 64" "k < 64" "m < 64"
  shows "unat (push_bit 18 (ucast (of_nat i :: u8)) OR push_bit 12 (ucast (of_nat j :: u8)) OR
      push_bit 6 (ucast (of_nat k :: u8)) OR ucast (of_nat m :: u8) :: u32) = i * 2 ^ 18 + j * 2 ^ 12 + k * 2 ^ 6 + m"
proof -
  have u: "unat (ucast (of_nat n :: u8) :: u32) = n" if "n < 64" for n
    using that by (simp only: unat_ucast_u8_u32) simp
  have k: "unat (push_bit 6 (ucast (of_nat k :: u8)) OR ucast (of_nat m :: u8) :: u32) = k * 2 ^ 6 + m"
    using unat_push_or [of 6 "ucast (of_nat k :: u8) :: u32" "ucast (of_nat m :: u8)"] u assms by simp
  have j: "unat (push_bit 12 (ucast (of_nat j :: u8)) OR
      (push_bit 6 (ucast (of_nat k :: u8)) OR ucast (of_nat m :: u8)) :: u32) = j * 2 ^ 12 + (k * 2 ^ 6 + m)"
    using unat_push_or [of 12 "ucast (of_nat j :: u8) :: u32"
        "push_bit 6 (ucast (of_nat k :: u8)) OR ucast (of_nat m :: u8)"] u [of j] k assms by simp
  show ?thesis
    using unat_push_or [of 18 "ucast (of_nat i :: u8) :: u32"
        "push_bit 12 (ucast (of_nat j :: u8)) OR (push_bit 6 (ucast (of_nat k :: u8)) OR ucast (of_nat m :: u8))"]
      u [of i] j assms by (simp add: or.assoc)
qed

lemma ucast_drop: "ucast (drop_bit k (v :: u32)) = (of_nat (unat v div 2 ^ k) :: u8)"
  by (simp flip: unat_drop_bit)

definition quad_bytes :: "nat \<Rightarrow> u8 list" where
  "quad_bytes v = [of_nat (v div 65536), of_nat (v div 256), of_nat v]"

lemma decode_quad:
  assumes bins: "base64_ascii_to_bin in0 = of_nat i" "base64_ascii_to_bin in1 = of_nat j"
      "base64_ascii_to_bin in2 = of_nat k" "base64_ascii_to_bin in3 = of_nat m"
    and lt: "i < 64" "j < 64" "k < 64" "m < 64" and ne: "in0 \<noteq> 0x3d" "in1 \<noteq> 0x3d"
  shows "base64_decode_quad in0 in1 in2 in3 =
    (let bs = quad_bytes (i * 2 ^ 18 + j * 2 ^ 12 + k * 2 ^ 6 + m)
     in if in2 \<noteq> 0x3d \<and> in3 \<noteq> 0x3d then Some bs
        else if in2 \<noteq> 0x3d then Some (take 2 bs)
        else if in3 = 0x3d then Some (take 1 bs) else None)"
proof -
  have ff: "(of_nat n :: u8) \<noteq> 0xff" if "n < 64" for n using that by (simp add: word_unat_eq_iff)
  have c: "((of_nat i :: u8) = 0xff \<or> (of_nat j :: u8) = 0xff \<or> (of_nat k :: u8) = 0xff \<or> (of_nat m :: u8) = 0xff) = False"
    using ff lt by blast
  define v :: u32 where "v = push_bit 18 (ucast (of_nat i :: u8)) OR push_bit 12 (ucast (of_nat j :: u8)) OR
      push_bit 6 (ucast (of_nat k :: u8)) OR ucast (of_nat m :: u8)"
  have v: "quad_bytes (i * 2 ^ 18 + j * 2 ^ 12 + k * 2 ^ 6 + m) = [ucast (drop_bit 16 v), ucast (drop_bit 8 v), ucast v]"
  proof -
    have "(ucast v :: u8) = of_nat (unat v)" by simp
    moreover have "unat v = i * 2 ^ 18 + j * 2 ^ 12 + k * 2 ^ 6 + m" unfolding v_def by (rule unat_quad [OF lt])
    ultimately show ?thesis using ucast_drop [of 16 v] ucast_drop [of 8 v] by (simp only: quad_bytes_def) simp
  qed
  show ?thesis
    unfolding base64_decode_quad_def Let_def bins c if_False v_def [symmetric] v
    using ne by (cases "in2 = 0x3d"; cases "in3 = 0x3d") simp_all
qed

lemma quad_value: 
  "n < 2 ^ 24 \<Longrightarrow> n div 2 ^ 18 mod 64 * 2 ^ 18 + n div 2 ^ 12 mod 64 * 2 ^ 12 + n div 2 ^ 6 mod 64 * 2 ^ 6 + n mod 64 = n"
  for n :: nat
proof -
  assume n: "n < 2 ^ 24"
  define q r t where "q = n div 64" and "r = q div 64" and "t = r div 64"
  have e: "n = q * 64 + n mod 64" "q = r * 64 + q mod 64" "r = t * 64 + r mod 64"
    by (simp_all add: q_def r_def t_def)
  have "n div 2 ^ 6 = q" "n div 2 ^ 12 = r" "n div 2 ^ 18 = t"
    by (simp_all add: q_def r_def t_def flip: div_mult2_eq)
  moreover have "t < 64" using n unfolding t_def r_def q_def by (simp flip: div_mult2_eq)
  then have "t mod 64 = t" by simp
  ultimately show ?thesis using e by simp
qed

lemma quad_bytes_group: "quad_bytes (group_value a b c) = [a, b, c]"
proof -
  have m: "(of_nat n :: u8) = x" if "n mod 256 = unat x" for n x
    using that by (simp add: word_unat_eq_iff)
  have bc: "unat b * 256 + unat c < 65536" using unat_u8_le [of b] unat_u8_le [of c] by simp
  have "group_value a b c div 65536 = unat a"
    using bc by (simp add: group_value_def add.assoc div_mult_self3)
  moreover have "group_value a b c div 256 = unat a * 256 + unat b"
  proof -
    have "group_value a b c = unat c + (unat a * 256 + unat b) * 256" by (simp add: group_value_def)
    then show ?thesis by (simp only: div_mult_self1) simp
  qed
  then have "group_value a b c div 256 mod 256 = unat b" by simp
  moreover have "group_value a b c mod 256 = unat c"
  proof -
    have "group_value a b c = unat c + (unat a * 256 + unat b) * 256" by (simp add: group_value_def)
    then show ?thesis by (simp only: mod_mult_self1) simp
  qed
  ultimately show ?thesis using m by (simp add: quad_bytes_def)
qed

lemma decode_b64:
  assumes "i < 64" "j < 64" "k < 64" "m < 64"
  shows "base64_decode_quad (b64c i) (b64c j) (b64c k) (b64c m) = Some (quad_bytes (i * 2 ^ 18 + j * 2 ^ 12 + k * 2 ^ 6 + m))"
    "base64_decode_quad (b64c i) (b64c j) (b64c k) 0x3d = Some (take 2 (quad_bytes (i * 2 ^ 18 + j * 2 ^ 12 + k * 2 ^ 6)))"
    "base64_decode_quad (b64c i) (b64c j) 0x3d 0x3d = Some (take 1 (quad_bytes (i * 2 ^ 18 + j * 2 ^ 12)))"
proof -
  note b = ascii_to_bin_b64c [OF assms(1)] ascii_to_bin_b64c [OF assms(2)] ascii_to_bin_b64c [OF assms(3)]
    ascii_to_bin_b64c [OF assms(4)]
  have ne: "b64c i \<noteq> 0x3d" "b64c j \<noteq> 0x3d" "b64c k \<noteq> 0x3d" "b64c m \<noteq> 0x3d" using b64c_not_pad assms by simp_all
  have p: "base64_ascii_to_bin 0x3d = of_nat 0" by (simp add: ascii_to_bin_pad)
  have z: "(0 :: nat) < 64" by simp
  show "base64_decode_quad (b64c i) (b64c j) (b64c k) (b64c m) = Some (quad_bytes (i * 2 ^ 18 + j * 2 ^ 12 + k * 2 ^ 6 + m))"
    using decode_quad [OF b assms ne(1,2)] ne by simp
  show "base64_decode_quad (b64c i) (b64c j) (b64c k) 0x3d = Some (take 2 (quad_bytes (i * 2 ^ 18 + j * 2 ^ 12 + k * 2 ^ 6)))"
    using decode_quad [OF b(1-3) p assms(1-3) z ne(1,2)] ne by simp
  show "base64_decode_quad (b64c i) (b64c j) 0x3d 0x3d = Some (take 1 (quad_bytes (i * 2 ^ 18 + j * 2 ^ 12)))"
    using decode_quad [OF b(1,2) p p assms(1,2) z z ne(1,2)] by simp
qed

lemma decode_sextets:
  "sextets (group_value a b c) = [x, y, z, w] \<Longrightarrow> base64_decode_quad x y z w = Some [a, b, c]"
  "sextets (group_value a b 0) = [x, y, z, w] \<Longrightarrow> base64_decode_quad x y z 0x3d = Some [a, b]"
  "sextets (group_value a 0 0) = [x, y, z, w] \<Longrightarrow> base64_decode_quad x y 0x3d 0x3d = Some [a]"
proof -
  have lt: "n mod 64 < 64" for n :: nat by simp
  note d = decode_b64 [OF lt lt lt lt]
  note q = quad_value [OF group_value_less]
  show "sextets (group_value a b c) = [x, y, z, w] \<Longrightarrow> base64_decode_quad x y z w = Some [a, b, c]"
    unfolding sextets_def list.inject by (elim conjE, hypsubst) (simp only: d q quad_bytes_group simp_thms)
  assume s: "sextets (group_value a b 0) = [x, y, z, w]"
  have "group_value a b 0 mod 64 = 0" by (simp add: group_value_def)
  then have v: "group_value a b 0 div 2 ^ 18 mod 64 * 2 ^ 18 + group_value a b 0 div 2 ^ 12 mod 64 * 2 ^ 12 +
      group_value a b 0 div 2 ^ 6 mod 64 * 2 ^ 6 = group_value a b 0"
    using q [of a b 0] by linarith
  from s show "base64_decode_quad x y z 0x3d = Some [a, b]"
    unfolding sextets_def list.inject by (elim conjE, hypsubst) (simp only: d v quad_bytes_group, simp)
next
  have lt: "n mod 64 < 64" for n :: nat by simp
  note d = decode_b64 [OF lt lt lt lt]
  assume s: "sextets (group_value a 0 0) = [x, y, z, w]"
  have z: "group_value a 0 0 mod 64 = 0" "group_value a 0 0 div 2 ^ 6 mod 64 = 0" by (simp_all add: group_value_def)
  have v: "group_value a 0 0 div 2 ^ 18 mod 64 * 2 ^ 18 + group_value a 0 0 div 2 ^ 12 mod 64 * 2 ^ 12 = group_value a 0 0"
    using quad_value [OF group_value_less, of a 0 0] unfolding z by (simp only: mult_0 add_0_right)
  from s show "base64_decode_quad x y 0x3d 0x3d = Some [a]"
    unfolding sextets_def list.inject by (elim conjE, hypsubst) (simp only: d v quad_bytes_group, simp)
qed

section \<open>Blocks\<close>

lemma length_sextets [simp]: "length (sextets n) = 4"
  by (simp add: sextets_def)

lemma length_encode_groups: "length (encode_groups src) = (length src + 2) div 3 * 4"
proof (induction src rule: encode_groups.induct)
  case (4 a b c src)
  have "(length (a # b # c # src) + 2) div 3 = Suc ((length src + 2) div 3)" by simp
  then show ?case using 4 by (simp add: Let_def)
qed (simp_all add: Let_def)

lemma sextets_4: obtains x y z w where "sextets n = [x, y, z, w]"
  by (simp add: sextets_def)

lemma encode_groups_nonempty: "encode_groups src = [] \<longleftrightarrow> src = []"
  by (cases src rule: encode_groups.cases) (simp_all add: Let_def)

lemma decode_encode_quads: "decode_quads (encode_groups src) = (True, src)"
proof (induction src rule: encode_groups.induct)
  case 1
  then show ?case by simp
next
  case (2 a)
  obtain x y z w where s: "sextets (group_value a 0 0) = [x, y, z, w]" by (rule sextets_4)
  show ?case using decode_sextets(3) [OF s] by (simp add: encode_groups_eq s numeral_2_eq_2 del: encode_groups.simps)
next
  case (3 a b)
  obtain x y z w where s: "sextets (group_value a b 0) = [x, y, z, w]" by (rule sextets_4)
  show ?case using decode_sextets(2) [OF s] by (simp add: encode_groups_eq s numeral_3_eq_3 del: encode_groups.simps)
next
  case (4 a b c src)
  obtain x y z w where s: "sextets (group_value a b c) = [x, y, z, w]" by (rule sextets_4)
  show ?case using decode_sextets(1) [OF s] 4 by (simp add: encode_groups_eq s del: encode_groups.simps)
qed

section \<open>Streams\<close>

text \<open>The whole lines of an input, encoded, and what is left for the next call.\<close>

function split_lines :: "u8 list \<Rightarrow> u8 list \<times> u8 list" where
  "split_lines inp =
     (if length inp < 48 then ([], inp)
      else case split_lines (drop 48 inp) of
             (out, rest) \<Rightarrow> ((encode_groups (take 48 inp) @ [0x0a]) @ out, rest))"
  by pat_completeness auto
termination by (relation "measure length") auto

declare split_lines.simps [simp del]

text \<open>The text of a complete input: its whole lines and, if anything is left, a short last line.\<close>

definition base64_text :: "u8 list \<Rightarrow> u8 list" where
  "base64_text inp = (case split_lines inp of (out, rest) \<Rightarrow>
     out @ (if rest = [] then [] else encode_groups rest @ [0x0a]))"

lemma split_lines_short: "length inp < 48 \<Longrightarrow> split_lines inp = ([], inp)"
  by (subst split_lines.simps) simp

lemma split_lines_long: "48 \<le> length inp \<Longrightarrow> split_lines inp =
    ((encode_groups (take 48 inp) @ [0x0a]) @ fst (split_lines (drop 48 inp)), snd (split_lines (drop 48 inp)))"
  by (subst split_lines.simps) (simp split: prod.split)

lemma split_lines_rest: "length (snd (split_lines inp)) < 48"
proof (induction inp rule: split_lines.induct)
  case (1 inp)
  then show ?case by (cases "length inp < 48") (simp_all add: split_lines_short split_lines_long)
qed

lemma split_lines_append:
  "split_lines (xs @ ys) =
    (fst (split_lines xs) @ fst (split_lines (snd (split_lines xs) @ ys)), snd (split_lines (snd (split_lines xs) @ ys)))"
proof (induction xs rule: split_lines.induct)
  case (1 xs)
  show ?case
  proof (cases "length xs < 48")
    case True
    then show ?thesis by (simp add: split_lines_short)
  next
    case False
    then show ?thesis using 1 by (simp add: split_lines_long [of "xs @ ys"] split_lines_long [of xs])
  qed
qed

lemma encode_lines_split:
  "tot + length (fst (split_lines inp)) \<le> SIZE_MAX \<Longrightarrow>
    encode_lines tot inp = (fst (split_lines inp), snd (split_lines inp), Some (tot + length (fst (split_lines inp))))"
proof (induction inp arbitrary: tot rule: split_lines.induct)
  case (1 inp)
  show ?case
  proof (cases "length inp < 48")
    case True
    then show ?thesis by (subst encode_lines.simps) (simp add: ctx_data_size_def split_lines_short)
  next
    case False
    let ?line = "encode_groups (take 48 inp) @ [0x0a]"
    have len: "length (fst (split_lines inp)) = length ?line + length (fst (split_lines (drop 48 inp)))"
      using False by (simp add: split_lines_long)
    then have le: "tot + length ?line + length (fst (split_lines (drop 48 inp))) \<le> SIZE_MAX"
      using "1.prems" by simp
    then have st: "size_t (tot + length ?line) = tot + length ?line" by (intro size_t_id) simp
    have "encode_lines (tot + length ?line) (drop 48 inp) =
        (fst (split_lines (drop 48 inp)), snd (split_lines (drop 48 inp)),
         Some (tot + length ?line + length (fst (split_lines (drop 48 inp)))))"
      using "1.IH" [OF False le] .
    then show ?thesis
      using False st by (subst encode_lines.simps) (simp add: ctx_data_size_def Let_def split_lines_long)
  qed
qed

lemma EVP_EncodeUpdate_split:
  assumes "length (ctx_data ctx) < 48" "length (fst (split_lines (ctx_data ctx @ inp))) \<le> SIZE_MAX"
  shows "EVP_EncodeUpdate ctx inp =
    (let s = split_lines (ctx_data ctx @ inp)
     in (ctx\<lparr> ctx_data := snd s \<rparr>, fst s, if INT_MAX < length (fst s) then 0 else length (fst s)))"
proof (cases "length inp = 0")
  case True
  then show ?thesis using assms(1) by (cases ctx) (simp add: EVP_EncodeUpdate_def split_lines_short INT_MAX_def)
next
  case False
  let ?d = "ctx_data ctx"
  show ?thesis
  proof (cases "length inp < 48 - length ?d")
    case True
    then have "length (?d @ inp) < 48" by simp
    then show ?thesis using False True
      by (simp add: EVP_EncodeUpdate_def split_lines_short ctx_data_size_def INT_MAX_def)
  next
    case long: False
    then have all: "48 \<le> length (?d @ inp)" using assms(1) by simp
    show ?thesis
    proof (cases "?d = []")
      case True
      then have "encode_lines 0 inp = (fst (split_lines inp), snd (split_lines inp), Some (length (fst (split_lines inp))))"
        using encode_lines_split [of 0 inp] assms(2) by simp
      then show ?thesis using True False long
        by (simp add: EVP_EncodeUpdate_def ctx_data_size_def Let_def)
    next
      case d: False
      let ?todo = "48 - length ?d"
      let ?first = "encode_groups (?d @ take ?todo inp) @ [0x0a]"
      have t: "take 48 (?d @ inp) = ?d @ take ?todo inp" "drop 48 (?d @ inp) = drop ?todo inp"
        using assms(1) by simp_all
      have s: "split_lines (?d @ inp) =
          (?first @ fst (split_lines (drop ?todo inp)), snd (split_lines (drop ?todo inp)))"
        using split_lines_long [OF all] unfolding t .
      have "length ?first + length (fst (split_lines (drop ?todo inp))) \<le> SIZE_MAX"
        using assms(2) unfolding s by simp
      from encode_lines_split [OF this] show ?thesis
        using d False long unfolding s
        by (simp add: EVP_EncodeUpdate_def ctx_data_size_def Let_def)
    qed
  qed
qed

text \<open>
  A whole stream as its caller sees it: the chunks in turn, then the final call, keeping of each call the \<open>*out_len\<close>
  bytes it says it wrote.
\<close>

fun encode_stream :: "evp_encode_ctx \<Rightarrow> u8 list list \<Rightarrow> u8 list" where
  "encode_stream ctx [] = (case EVP_EncodeFinal ctx of (_, out, out_len) \<Rightarrow> take out_len out)"
| "encode_stream ctx (c # cs) =
     (case EVP_EncodeUpdate ctx c of (ctx, out, out_len) \<Rightarrow> take out_len out @ encode_stream ctx cs)"

text \<open>
  The longest chunk whose output always fits \<open>*out_len\<close>, an \<open>int\<close>: 33038209 lines of 65 bytes. For a longer one
  \<open>EVP_EncodeUpdate\<close> may report 0.
\<close>

definition max_chunk :: nat where
  "max_chunk = INT_MAX div 65 * 48"

lemma split_lines_length: "length (fst (split_lines inp)) = length inp div 48 * 65"
proof (induction inp rule: split_lines.induct)
  case (1 inp)
  show ?case
  proof (cases "length inp < 48")
    case True
    then show ?thesis by (simp add: split_lines_short)
  next
    case False
    then have "length (fst (split_lines (drop 48 inp))) = (length inp - 48) div 48 * 65" using 1 by simp
    moreover have "length inp div 48 = Suc ((length inp - 48) div 48)" using False by (simp add: le_div_geq)
    ultimately show ?thesis using False by (simp add: split_lines_long length_encode_groups)
  qed
qed

lemma lines_fit_int:
  assumes "length d < 48" "length c \<le> max_chunk"
  shows "length (fst (split_lines (d @ c))) \<le> INT_MAX"
proof -
  have "length (d @ c) < (INT_MAX div 65 + 1) * 48" using assms by (simp add: max_chunk_def)
  then have "length (d @ c) div 48 \<le> INT_MAX div 65" using less_mult_imp_div_less by fastforce
  then have "length (d @ c) div 48 * 65 \<le> INT_MAX div 65 * 65" by (rule mult_le_mono1)
  also have "\<dots> \<le> INT_MAX" by (simp add: INT_MAX_def)
  finally show ?thesis unfolding split_lines_length .
qed

lemma base64_text_append: "base64_text (xs @ ys) = fst (split_lines xs) @ base64_text (snd (split_lines xs) @ ys)"
  by (simp add: base64_text_def split_lines_append [of xs ys] split: prod.split)

lemma encode_stream_text:
  "length (ctx_data ctx) < 48 \<Longrightarrow> \<forall>c \<in> set cs. length c \<le> max_chunk \<Longrightarrow>
    encode_stream ctx cs = base64_text (ctx_data ctx @ concat cs)"
proof (induction cs arbitrary: ctx)
  case Nil
  then show ?case by (simp add: EVP_EncodeFinal_def base64_text_def split_lines_short)
next
  case (Cons c cs)
  let ?s = "split_lines (ctx_data ctx @ c)"
  have m: "length (fst ?s) \<le> INT_MAX" using lines_fit_int Cons.prems by simp
  then have "length (fst ?s) \<le> SIZE_MAX" by (simp add: INT_MAX_def SIZE_MAX_def)
  then have u: "EVP_EncodeUpdate ctx c = (ctx\<lparr> ctx_data := snd ?s \<rparr>, fst ?s, length (fst ?s))"
    using EVP_EncodeUpdate_split [OF Cons.prems(1)] m by (simp add: Let_def)
  have "length (snd ?s) < 48" by (rule split_lines_rest)
  then have "encode_stream (ctx\<lparr> ctx_data := snd ?s \<rparr>) cs = base64_text (snd ?s @ concat cs)"
    using Cons.IH [of "ctx\<lparr> ctx_data := snd ?s \<rparr>"] Cons.prems(2) by simp
  then show ?case using u base64_text_append [of "ctx_data ctx @ c" "concat cs"] by simp
qed

fun decode_stream :: "evp_encode_ctx \<Rightarrow> u8 list list \<Rightarrow> u8 list option" where
  "decode_stream ctx [] = (if fst (EVP_DecodeFinal ctx) = 1 then Some [] else None)"
| "decode_stream ctx (c # cs) =
     (case EVP_DecodeUpdate ctx c of
        (r, ctx, out, n) \<Rightarrow> if r = -1 then None else map_option ((@) (take n out)) (decode_stream ctx cs))"

lemma decode_update_loop_append:
  "decode_update_loop ctx (xs @ ys) =
    (case decode_update_loop ctx xs of
       (False, c, out) \<Rightarrow> (False, c, out)
     | (True, c, out) \<Rightarrow> (case decode_update_loop c ys of (ok, c, out') \<Rightarrow> (ok, c, out @ out')))"
proof (induction ctx xs rule: decode_update_loop.induct)
  case (1 ctx)
  then show ?case by (simp split: prod.split)
next
  case (2 ctx c xs)
  then show ?case by (auto simp: Let_def split: prod.splits bool.splits option.splits)
qed

lemma quad_length: "base64_decode_quad a b c d = Some bs \<Longrightarrow> length bs \<le> 3"
  by (auto simp: base64_decode_quad_def Let_def split: if_split_asm)

lemma decode_update_loop_space: "is_space c \<Longrightarrow> decode_update_loop ctx (c # inp) = decode_update_loop ctx inp"
  by simp

lemma decode_update_loop_store:
  "\<not> is_space c \<Longrightarrow> length d < 3 \<Longrightarrow>
    decode_update_loop \<lparr> ctx_data = d, ctx_eof_seen = False, ctx_error = e \<rparr> (c # inp) =
    decode_update_loop \<lparr> ctx_data = d @ [c], ctx_eof_seen = False, ctx_error = e \<rparr> inp"
  by simp

lemma decode_update_loop_quad:
  "\<not> is_space c \<Longrightarrow>
    decode_update_loop \<lparr> ctx_data = [x, y, z], ctx_eof_seen = False, ctx_error = e \<rparr> (c # inp) =
    (case base64_decode_quad x y z c of
       None \<Rightarrow> (False, \<lparr> ctx_data = [x, y, z, c], ctx_eof_seen = False, ctx_error = True \<rparr>, [])
     | Some bytes \<Rightarrow>
         (case decode_update_loop \<lparr> ctx_data = [], ctx_eof_seen = length bytes < 3, ctx_error = e \<rparr> inp of
            (ok, ctx, out) \<Rightarrow> (ok, ctx, bytes @ out)))"
  by (simp add: numeral_2_eq_2 numeral_3_eq_3 cong: option.case_cong)

declare decode_update_loop.simps(2) [simp del]

definition dctx :: "u8 list \<Rightarrow> bool \<Rightarrow> evp_encode_ctx" where
  "dctx d eof = \<lparr> ctx_data = d, ctx_eof_seen = eof, ctx_error = False \<rparr>"

lemma decode_update_loop_four:
  "\<not> is_space x \<Longrightarrow> \<not> is_space y \<Longrightarrow> \<not> is_space z \<Longrightarrow> \<not> is_space w \<Longrightarrow>
    base64_decode_quad x y z w = Some bytes \<Longrightarrow>
    decode_update_loop (dctx [] False) (x # y # z # w # inp) =
    (case decode_update_loop (dctx [] (length bytes < 3)) inp of
       (ok, ctx, out) \<Rightarrow> (ok, ctx, bytes @ out))"
  unfolding dctx_def by (simp add: decode_update_loop_store decode_update_loop_quad)

lemma decode_groups:
  "decode_update_loop (dctx [] False) (encode_groups xs @ ys) =
    (case decode_update_loop (dctx [] (length xs mod 3 \<noteq> 0)) ys of
       (ok, c, out) \<Rightarrow> (ok, c, xs @ out))"
proof (induction xs rule: encode_groups.induct)
  case 1
  then show ?case by (simp split: prod.split)
next
  case (2 a)
  obtain x y z w where s: "sextets (group_value a 0 0) = [x, y, z, w]" by (rule sextets_4)
  then have n: "\<not> is_space x" "\<not> is_space y" using b64c_not_pad by (auto simp: sextets_def)
  have p: "\<not> is_space 0x3d" by (simp add: is_space_def)
  have e: "encode_groups [a] @ ys = x # y # 0x3d # 0x3d # ys"
    by (simp add: encode_groups_eq s del: encode_groups.simps)
  have m: "(length [a] mod 3 \<noteq> 0) = (length [a] < 3)" by simp
  show ?case unfolding e m decode_update_loop_four [OF n p p decode_sextets(3) [OF s]]
    by simp
next
  case (3 a b)
  obtain x y z w where s: "sextets (group_value a b 0) = [x, y, z, w]" by (rule sextets_4)
  then have n: "\<not> is_space x" "\<not> is_space y" "\<not> is_space z" using b64c_not_pad by (auto simp: sextets_def)
  have p: "\<not> is_space 0x3d" by (simp add: is_space_def)
  have e: "encode_groups [a, b] @ ys = x # y # z # 0x3d # ys"
    by (simp add: encode_groups_eq s del: encode_groups.simps)
  have m: "(length [a, b] mod 3 \<noteq> 0) = (length [a, b] < 3)" by simp
  show ?case unfolding e m decode_update_loop_four [OF n p decode_sextets(2) [OF s]]
    by simp
next
  case (4 a b c src)
  obtain x y z w where s: "sextets (group_value a b c) = [x, y, z, w]" by (rule sextets_4)
  then have n: "\<not> is_space x" "\<not> is_space y" "\<not> is_space z" "\<not> is_space w"
    using b64c_not_pad by (auto simp: sextets_def)
  have e: "encode_groups (a # b # c # src) @ ys = x # y # z # w # (encode_groups src @ ys)"
    by (simp add: encode_groups_eq s del: encode_groups.simps)
  have m: "length (a # b # c # src) mod 3 = length src mod 3" by simp
  show ?case unfolding e m decode_update_loop_four [OF n decode_sextets(1) [OF s]]
    using 4 by (simp split: prod.split)
qed

lemma newline_skipped: "decode_update_loop ctx (0x0a # ys) = decode_update_loop ctx ys"
  by (rule decode_update_loop_space) (simp add: is_space_def)

lemma decode_lines:
  "\<exists>p. xs = p @ snd (split_lines xs) \<and>
    (\<forall>ys. decode_update_loop (dctx [] False) (fst (split_lines xs) @ ys) =
       (case decode_update_loop (dctx [] False) ys of (ok, c, out) \<Rightarrow> (ok, c, p @ out)))"
proof (induction xs rule: split_lines.induct)
  case (1 xs)
  show ?case
  proof (cases "length xs < 48")
    case True
    then show ?thesis by (intro exI [of _ "[]"]) (simp add: split_lines_short split: prod.split)
  next
    case False
    obtain p where p: "drop 48 xs = p @ snd (split_lines (drop 48 xs))"
      "\<forall>ys. decode_update_loop (dctx [] False) (fst (split_lines (drop 48 xs)) @ ys) =
       (case decode_update_loop (dctx [] False) ys of (ok, c, out) \<Rightarrow> (ok, c, p @ out))"
      using 1 [OF False] by (elim exE conjE)
    have l: "split_lines xs = ((encode_groups (take 48 xs) @ [0x0a]) @ fst (split_lines (drop 48 xs)), snd (split_lines (drop 48 xs)))"
      using False by (intro split_lines_long) simp
    have m: "length (take 48 xs) mod 3 = 0" using False by simp
    have x: "xs = (take 48 xs @ p) @ snd (split_lines xs)"
      unfolding l snd_conv append_assoc p(1) [symmetric] by simp
    have "decode_update_loop (dctx [] False) (fst (split_lines xs) @ ys) =
        (case decode_update_loop (dctx [] False) ys of (ok, c, out) \<Rightarrow> (ok, c, (take 48 xs @ p) @ out))" for ys
      unfolding l fst_conv append_assoc decode_groups m
      by (simp add: newline_skipped p(2) split: prod.split)
    with x show ?thesis by (intro exI [of _ "take 48 xs @ p"]) simp
  qed
qed

lemma decode_text: "\<exists>eof. decode_update_loop (dctx [] False) (base64_text xs) = (True, dctx [] eof, xs)"
proof -
  obtain p where p: "xs = p @ snd (split_lines xs)"
    "\<forall>ys. decode_update_loop (dctx [] False) (fst (split_lines xs) @ ys) =
       (case decode_update_loop (dctx [] False) ys of (ok, c, out) \<Rightarrow> (ok, c, p @ out))"
    using decode_lines [of xs] by (elim exE conjE)
  show ?thesis
  proof (cases "snd (split_lines xs) = []")
    case True
    then show ?thesis using p(1) spec [OF p(2), of "[]"] by (auto simp: base64_text_def split: prod.splits)
  next
    case False
    then have "base64_text xs = fst (split_lines xs) @ encode_groups (snd (split_lines xs)) @ [0x0a]"
      by (cases "split_lines xs") (simp add: base64_text_def)
    then show ?thesis using p(1) p(2) decode_groups [of "snd (split_lines xs)" "[0x0a]"]
      by (auto simp: newline_skipped)
  qed
qed


lemma decode_update_loop_kept:
  "decode_update_loop ctx inp = (True, c, out) \<Longrightarrow> length (ctx_data ctx) < 4 \<Longrightarrow>
    ctx_error c = ctx_error ctx \<and> length (ctx_data c) < 4 \<and>
    4 * length out + 3 * length (ctx_data c) \<le> 3 * (length (ctx_data ctx) + length inp)"
proof (induction ctx inp arbitrary: c out rule: decode_update_loop.induct)
  case (1 ctx)
  then show ?case by simp
next
  case (2 ctx b inp)
  show ?case
  proof (cases "is_space b")
    case True
    then show ?thesis using 2(1) [OF True] 2(4,5) by (force simp: decode_update_loop_space)
  next
    case ns: False
    with 2(4) have eof: "\<not> ctx_eof_seen ctx" by (auto simp: decode_update_loop.simps(2))
    let ?ctx = "ctx\<lparr> ctx_data := ctx_data ctx @ [b] \<rparr>"
    show ?thesis
    proof (cases "length (ctx_data ctx) = 3")
      case True
      let ?q = "base64_decode_quad (ctx_data ?ctx ! 0) (ctx_data ?ctx ! 1) (ctx_data ?ctx ! 2) (ctx_data ?ctx ! 3)"
      obtain bytes where q: "?q = Some bytes"
        using 2(4) ns eof True by (cases ?q) (auto simp: decode_update_loop.simps(2))
      let ?n = "?ctx\<lparr> ctx_data := [], ctx_eof_seen := length bytes < 3 \<or> ctx_eof_seen ?ctx \<rparr>"
      obtain ok c' out' where r: "decode_update_loop ?n inp = (ok, c', out')" by (metis prod_cases3)
      have l: "length (ctx_data ?ctx) = 4" using True by simp
      have e: "decode_update_loop ctx (b # inp) = (ok, c', bytes @ out')"
        using ns eof l q r by (simp add: decode_update_loop.simps(2) Let_def cong: option.case_cong)
      with 2(4) have t: "ok = True" "c' = c" "out = bytes @ out'" by auto
      from 2(2) [OF ns eof refl l q r [unfolded t(1,2)]]
      show ?thesis using quad_length [OF q] True t by simp
    next
      case False
      then have s: "decode_update_loop ctx (b # inp) = decode_update_loop ?ctx inp"
        using ns eof by (simp add: decode_update_loop.simps(2))
      have l: "length (ctx_data ?ctx) \<noteq> 4" using False by simp
      from 2(3) [OF ns eof refl l, of c out] 2(4,5) show ?thesis unfolding s using False by simp
    qed
  qed
qed

text \<open>However the text is cut into chunks, the decoder sees the concatenation.\<close>

lemma decode_stream_loop:
  "\<not> ctx_error ctx \<Longrightarrow> length (ctx_data ctx) < 4 \<Longrightarrow> length (ctx_data ctx @ concat cs) \<le> INT_MAX \<Longrightarrow>
    decode_stream ctx cs =
     (case decode_update_loop ctx (concat cs) of
        (ok, c, out) \<Rightarrow> if ok \<and> ctx_data c = [] then Some out else None)"
proof (induction cs arbitrary: ctx)
  case Nil
  then show ?case by (simp add: EVP_DecodeFinal_def)
next
  case (Cons b cs)
  obtain ok c out where r: "decode_update_loop ctx b = (ok, c, out)" by (metis prod_cases3)
  show ?case
  proof (cases ok)
    case True
    have r1: "decode_update_loop ctx b = (True, c, out)" using r True by simp
    note k = decode_update_loop_kept [OF r1 Cons.prems(2)]
    have le: "length out \<le> INT_MAX" "length (ctx_data c @ concat cs) \<le> INT_MAX"
      using k Cons.prems(3) by simp_all
    have u: "EVP_DecodeUpdate ctx b = (if ctx_eof_seen c then 0 else 1, c, out, length out)"
      using Cons.prems(1) r True le by (simp add: EVP_DecodeUpdate_def)
    show ?thesis
      using u Cons.IH [of c] k le Cons.prems(1) r True
      by (auto simp: decode_update_loop_append split: prod.split)
  next
    case False
    then have "EVP_DecodeUpdate ctx b = (-1, c, out, 0)" using Cons.prems(1) r by (simp add: EVP_DecodeUpdate_def)
    then show ?thesis using r False by (simp add: decode_update_loop_append)
  qed
qed


section \<open>Properties\<close>

definition EVP_DecodeInit :: evp_encode_ctx where
  "EVP_DecodeInit = \<lparr> ctx_data = [], ctx_eof_seen = False, ctx_error = False \<rparr>"

lemma EVP_DecodeInit_dctx: "EVP_DecodeInit = dctx [] False"
  by (simp add: EVP_DecodeInit_def dctx_def)

lemma base64_text_length: "length (base64_text xs) \<le> 5 * length xs"
proof -
  have "length (fst (split_lines xs)) + 5 * length (snd (split_lines xs)) \<le> 5 * length xs"
  proof (induction xs rule: split_lines.induct)
    case (1 xs)
    then show ?case
      by (cases "length xs < 48") (simp_all add: split_lines_short split_lines_long length_encode_groups)
  qed
  moreover have "length (encode_groups ys @ [0x0a]) \<le> 5 * length ys" if "ys \<noteq> []" for ys
    using that by (cases ys) (simp_all add: length_encode_groups)
  ultimately show ?thesis
    by (cases "split_lines xs") (fastforce simp: base64_text_def)
qed

text \<open>
  C11. Whatever way the data is cut into calls of \<open>EVP_EncodeUpdate\<close> and the text into calls of
  \<open>EVP_DecodeUpdate\<close>, decoding the encoded stream succeeds and gives the data back.
\<close>

theorem base64_stream_roundtrip:
  assumes "length (concat chunks) \<le> 2 ^ 28"
    and "concat texts = encode_stream EVP_EncodeInit chunks"
  shows "decode_stream EVP_DecodeInit texts = Some (concat chunks)"
proof -
  have "length c \<le> length (concat chunks)" if "c \<in> set chunks" for c
    using that by (induction chunks) auto
  then have chunks: "\<forall>c \<in> set chunks. length c \<le> max_chunk"
    using assms(1) by (fastforce simp: max_chunk_def INT_MAX_def)
  have e: "concat texts = base64_text (concat chunks)"
    using encode_stream_text [of EVP_EncodeInit chunks] chunks assms(2) by (simp add: EVP_EncodeInit_def)
  then have "length (concat texts) \<le> 5 * length (concat chunks)" by (simp only: base64_text_length)
  then have l: "length (concat texts) \<le> INT_MAX" using assms(1) by (simp add: INT_MAX_def)
  obtain eof where "decode_update_loop (dctx [] False) (base64_text (concat chunks)) = (True, dctx [] eof, concat chunks)"
    using decode_text by blast
  then show ?thesis
    using decode_stream_loop [of "dctx [] False" texts] l unfolding EVP_DecodeInit_dctx e
    by (simp add: dctx_def)
qed

theorem base64_stream_roundtrip_witness:
  "concat [[0x5a, 0x6d], [0x38, 0x3d, 0x0a]] = encode_stream EVP_EncodeInit [[0x66], [0x6f]] \<and>
   decode_stream EVP_DecodeInit [[0x5a, 0x6d], [0x38, 0x3d, 0x0a]] = Some (concat [[0x66], [0x6f]])"
proof -
  have e: "concat [[0x5a, 0x6d], [0x38, 0x3d, 0x0a]] = encode_stream EVP_EncodeInit [[0x66], [0x6f]]"
    by code_simp
  have "decode_stream EVP_DecodeInit [[0x5a, 0x6d], [0x38, 0x3d, 0x0a]] = Some (concat [[0x66], [0x6f]])"
    by (rule base64_stream_roundtrip [OF _ e]) simp
  with e show ?thesis ..
qed



text \<open>
  A block: \<open>EVP_EncodedLength\<close> is the exact size of the buffer \<open>EVP_EncodeBlock\<close> fills, the
  number it returns leaves out the NUL, and \<open>EVP_DecodeBase64\<close> with a buffer of
  \<open>EVP_DecodedLength\<close> bytes gives the data back.
\<close>

lemma base64_block_roundtrip:
  assumes "length src \<le> 2 ^ 60"
  shows "case EVP_EncodeBlock src of (dst, n) \<Rightarrow>
    EVP_EncodedLength (length src) = Some (length dst) \<and> n + 1 = length dst \<and>
    (\<exists>m. EVP_DecodedLength n = Some m \<and> length src \<le> m \<and> EVP_DecodeBase64 m (take n dst) = (True, src, length src))"
proof -
  let ?n = "length (encode_groups src)"
  have n: "?n = (length src + 2) div 3 * 4" by (rule length_encode_groups)
  have st: "size_t k = k" if "k \<le> 2 ^ 61 + 4" for k using that by (intro size_t_id) (simp add: SIZE_MAX_def)
  define q where "q = (length src + 2) div 3"
  have q: "3 * q \<le> length src + 2" "length src + 2 < 3 * q + 3" unfolding q_def by linarith+
  have "q * 4 + 1 \<le> 2 ^ 61 + 4" "q * 3 \<le> 2 ^ 61 + 4" "length src + 2 \<le> 2 ^ 61 + 4" "q * 4 \<le> 2 ^ 61 + 4"
    using q assms by simp_all
  note st' = this [THEN st]
  have "EVP_EncodedLength (length src) = Some (?n + 1)"
    unfolding EVP_EncodedLength_def Let_def n st' q_def [symmetric]
    by (simp only: st' div_mult_self_is_m zero_less_numeral) simp
  moreover have d: "EVP_DecodedLength ?n = Some (q * 3)"
    unfolding EVP_DecodedLength_def n q_def [symmetric] using st' by simp
  moreover have "EVP_DecodeBase64 (q * 3) (encode_groups src) = (True, src, length src)"
    using d n by (simp add: EVP_DecodeBase64_def decode_encode_quads)
  ultimately show ?thesis using q by (simp add: EVP_EncodeBlock_def)
qed

lemma base64_block_roundtrip_witness:
  "\<exists>m. EVP_DecodedLength 4 = Some m \<and> EVP_DecodeBase64 m [0x5a, 0x6d, 0x38, 0x3d] = (True, [0x66, 0x6f], 2)"
proof -
  have "EVP_EncodeBlock [0x66, 0x6f] = ([0x5a, 0x6d, 0x38, 0x3d, 0], 4)" by code_simp
  then show ?thesis using base64_block_roundtrip [of "[0x66, 0x6f]"] by auto
qed

lemma decode_quads_length: "length (snd (decode_quads inp)) \<le> length inp div 4 * 3"
proof (induction inp rule: decode_quads.induct)
  case (1 a b c d inp)
  have n: "length (a # b # c # d # inp) div 4 = Suc (length inp div 4)" by simp
  show ?case
  proof (cases "base64_decode_quad a b c d")
    case (Some bytes)
    show ?thesis
    proof (cases "length bytes \<noteq> 3 \<and> inp \<noteq> []")
      case True
      then show ?thesis unfolding n using quad_length [OF Some] Some by simp
    next
      case False
      have "length (snd (decode_quads inp)) \<le> length inp div 4 * 3" using "1.IH" [OF Some False] .
      then show ?thesis unfolding n using quad_length [OF Some] Some False by (auto split: prod.split)
    qed
  qed simp
qed simp_all

text \<open>A call of \<open>EVP_DecodeUpdate\<close> writes no more when it fails.\<close>

lemma decode_update_loop_writes:
  "decode_update_loop ctx inp = (ok, c, out) \<Longrightarrow> length (ctx_data ctx) < 4 \<Longrightarrow>
    4 * length out \<le> 3 * (length (ctx_data ctx) + length inp)"
proof (induction ctx inp arbitrary: ok c out rule: decode_update_loop.induct)
  case (1 ctx)
  then show ?case by simp
next
  case (2 ctx b inp)
  let ?ctx = "ctx\<lparr> ctx_data := ctx_data ctx @ [b] \<rparr>"
  let ?q = "base64_decode_quad (ctx_data ?ctx ! 0) (ctx_data ?ctx ! 1) (ctx_data ?ctx ! 2) (ctx_data ?ctx ! 3)"
  consider (space) "is_space b" | (stop) "\<not> is_space b" "ctx_eof_seen ctx \<or> length (ctx_data ctx) = 3 \<and> ?q = None"
    | (quad) bytes where "\<not> is_space b" "\<not> ctx_eof_seen ctx" "length (ctx_data ctx) = 3" "?q = Some bytes"
    | (store) "\<not> is_space b" "\<not> ctx_eof_seen ctx" "length (ctx_data ctx) \<noteq> 3" by fastforce
  then show ?case
  proof cases
    case space
    then show ?thesis using 2(1) [OF space] 2(4,5) by (force simp: decode_update_loop_space)
  next
    case stop
    have "out = []"
      using stop(2)
    proof (elim disjE conjE)
      assume "length (ctx_data ctx) = 3" "?q = None"
      then show ?thesis using 2(4) stop(1)
        by (cases "ctx_eof_seen ctx") (simp_all add: decode_update_loop.simps(2) Let_def cong: option.case_cong)
    qed (use 2(4) stop(1) in \<open>simp add: decode_update_loop.simps(2)\<close>)
    then show ?thesis by simp
  next
    case (quad bytes)
    let ?n = "?ctx\<lparr> ctx_data := [], ctx_eof_seen := length bytes < 3 \<or> ctx_eof_seen ?ctx \<rparr>"
    obtain ok' c' out' where r: "decode_update_loop ?n inp = (ok', c', out')" by (metis prod_cases3)
    have l: "length (ctx_data ?ctx) = 4" using quad by simp
    have "out = bytes @ out'" using 2(4) quad l r by (simp add: decode_update_loop.simps(2) Let_def cong: option.case_cong)
    then show ?thesis using 2(2) [OF quad(1,2) refl l quad(4) r] quad_length [OF quad(4)] quad(3) by simp
  next
    case store
    then have s: "decode_update_loop ctx (b # inp) = decode_update_loop ?ctx inp"
      by (simp add: decode_update_loop.simps(2))
    have l: "length (ctx_data ?ctx) \<noteq> 4" using store by simp
    from 2(3) [OF store(1,2) refl l, of ok c out] 2(4,5) show ?thesis unfolding s using store(3) by simp
  qed
qed

text \<open>
  C13. The decoder never writes more than \<open>max_out\<close> bytes, whether it succeeds or fails, and on success says how many it
  wrote; nor does any call of \<open>EVP_DecodeUpdate\<close> write more than three bytes for every four characters it holds and
  reads.
\<close>

theorem base64_decode_bounds:
  "(EVP_DecodeBase64 max_out inp = (ok, out, out_len) \<and> length inp \<le> SIZE_MAX \<longrightarrow>
     length out \<le> max_out \<and> out_len = (if ok then length out else 0)) \<and>
   (length (ctx_data ctx) < 4 \<and> EVP_DecodeUpdate ctx inp = (r, ctx', out', n) \<longrightarrow>
     4 * length out' \<le> 3 * (length (ctx_data ctx) + length inp) \<and>
     (if r = -1 then n = 0 else n = length out' \<and> n \<le> INT_MAX \<and> length (ctx_data ctx') < 4))"
proof (intro conjI impI)
  assume d: "EVP_DecodeBase64 max_out inp = (ok, out, out_len) \<and> length inp \<le> SIZE_MAX"
  then have "size_t (length inp div 4 * 3) = length inp div 4 * 3" by (intro size_t_id) linarith
  with d have "out = [] \<or> length inp div 4 * 3 \<le> max_out \<and> out = snd (decode_quads inp)"
    by (auto simp: EVP_DecodeBase64_def EVP_DecodedLength_def split: if_splits prod.splits bool.splits)
  then show "length out \<le> max_out" using decode_quads_length [of inp] by auto
  show "out_len = (if ok then length out else 0)"
    using d by (auto simp: EVP_DecodeBase64_def split: if_splits prod.splits bool.splits option.splits)
next
  assume a: "length (ctx_data ctx) < 4 \<and> EVP_DecodeUpdate ctx inp = (r, ctx', out', n)"
  then have "out' = [] \<or> (\<exists>ok c. decode_update_loop ctx inp = (ok, c, out'))"
    by (auto simp: EVP_DecodeUpdate_def split: if_splits prod.splits bool.splits)
  then show "4 * length out' \<le> 3 * (length (ctx_data ctx) + length inp)"
    using decode_update_loop_writes a by auto
  show "if r = -1 then n = 0 else n = length out' \<and> n \<le> INT_MAX \<and> length (ctx_data ctx') < 4"
    using a decode_update_loop_kept [of ctx inp ctx' out']
    by (auto simp: EVP_DecodeUpdate_def split: if_splits prod.splits bool.splits)
qed

theorem base64_decode_bounds_witness:
  "EVP_DecodeBase64 3 [0x5a, 0x6d, 0x38, 0x3d] = (True, [0x66, 0x6f], 2) \<and> length [0x66 :: u8, 0x6f] \<le> 3 \<and>
   EVP_DecodeUpdate EVP_DecodeInit [0x5a, 0x6d, 0x38, 0x3d] = (0, dctx [] True, [0x66, 0x6f], 2) \<and>
   4 * 2 \<le> 3 * (length (ctx_data EVP_DecodeInit) + length [0x5a :: u8, 0x6d, 0x38, 0x3d])"
proof -
  have q: "base64_decode_quad 0x5a 0x6d 0x38 0x3d = Some [0x66, 0x6f]" by code_simp
  have d: "EVP_DecodeBase64 3 [0x5a, 0x6d, 0x38, 0x3d] = (True, [0x66, 0x6f], 2)"
    by (simp add: EVP_DecodeBase64_def EVP_DecodedLength_def size_t_def q)
  have "\<not> is_space 0x5a" "\<not> is_space 0x6d" "\<not> is_space 0x38" "\<not> is_space 0x3d" by (simp_all add: is_space_def)
  from decode_update_loop_four [OF this q, of "[]"]
  have u: "EVP_DecodeUpdate EVP_DecodeInit [0x5a, 0x6d, 0x38, 0x3d] = (0, dctx [] True, [0x66, 0x6f], 2)"
    unfolding EVP_DecodeInit_dctx by (simp add: EVP_DecodeUpdate_def dctx_def INT_MAX_def)
  have "length (ctx_data EVP_DecodeInit) < 4" by (simp add: EVP_DecodeInit_def)
  then show ?thesis using d u base64_decode_bounds
    [of 3 "[0x5a, 0x6d, 0x38, 0x3d]" True "[0x66, 0x6f]" 2 EVP_DecodeInit 0 "dctx [] True" "[0x66, 0x6f]" 2]
    by (simp add: SIZE_MAX_def)
qed

end
