(* ===== verification/PbStream.thy ===== *)
theory PbStream
  imports Codec
begin

text \<open>
  The wire level of nanopb: the streams of \<open>pb_encode.c\<close> and \<open>pb_decode.c\<close>, variable-length and
  fixed-width integers, tags, strings, skipping, and length-limited substreams. An input stream
  reads a buffer (the bytes from \<open>state\<close> on) or a user callback; an output stream measures, fills a
  buffer, or calls a user callback.

  A user callback for input gets its own state and the number of bytes wanted; it returns them, or
  fails and may then mark the end of the stream by clearing \<open>bytes_left\<close>, as the documentation of
  \<open>pb_istream_s\<close> describes. \<open>pb_byte_t\<close> and \<open>uint_fast8_t\<close> have eight bits.
\<close>

section \<open>Input streams\<close>

datatype in_result = Got "u8 list" | Failed bool

datatype 's in_source = InBuffer "u8 list" | InCallback "'s \<Rightarrow> nat \<Rightarrow> in_result \<times> 's" 's

record 's pb_istream =
  in_state :: "'s in_source"
  bytes_left :: nat
  in_errmsg :: "string option"

text \<open>\<open>PB_RETURN_ERROR\<close>: the first message is kept.\<close>

definition in_error :: "string \<Rightarrow> 's pb_istream \<Rightarrow> 'a option \<times> 's pb_istream" where
  "in_error msg s =
     (None, s\<lparr> in_errmsg := (case in_errmsg s of Some m \<Rightarrow> Some m | None \<Rightarrow> Some msg) \<rparr>)"

definition buf_read :: "u8 list \<Rightarrow> nat \<Rightarrow> u8 list \<times> u8 list" where
  "buf_read source count = (take count source, drop count source)"

definition in_callback :: "'s pb_istream \<Rightarrow> nat \<Rightarrow> u8 list option \<times> 's pb_istream" where
  "in_callback s count =
     (case in_state s of
        InBuffer bs \<Rightarrow> (case buf_read bs count of (out, bs) \<Rightarrow> (Some out, s\<lparr> in_state := InBuffer bs \<rparr>))
      | InCallback f st \<Rightarrow>
          (case f st count of
             (Got bs, st) \<Rightarrow> (Some bs, s\<lparr> in_state := InCallback f st \<rparr>)
           | (Failed eof, st) \<Rightarrow>
               (None, s\<lparr> in_state := InCallback f st, bytes_left := if eof then 0 else bytes_left s \<rparr>)))"

text \<open>\<open>pb_read\<close> into a buffer.\<close>

definition pb_read :: "'s pb_istream \<Rightarrow> nat \<Rightarrow> u8 list option \<times> 's pb_istream" where
  "pb_read s count =
     (if count = 0 then (Some [], s)
      else if bytes_left s < count then in_error ''end-of-stream'' s
      else case in_callback s count of
             (None, s) \<Rightarrow> in_error ''io error'' s
           | (Some bs, s) \<Rightarrow> (Some bs, s\<lparr> bytes_left := bytes_left s - count \<rparr>))"

text \<open>\<open>pb_read\<close> with a null buffer: a callback is asked for sixteen bytes at a time.\<close>

fun pb_read_null :: "'s pb_istream \<Rightarrow> nat \<Rightarrow> unit option \<times> 's pb_istream" where
  "pb_read_null s count =
     (if count = 0 then (Some (), s)
      else case in_state s of
             InBuffer _ \<Rightarrow> ok_do (pb_read s count) (\<lambda>_ s. (Some (), s))
           | InCallback _ _ \<Rightarrow>
               if 16 < count then ok_do (pb_read s 16) (\<lambda>_ s. pb_read_null s (count - 16))
               else ok_do (pb_read s count) (\<lambda>_ s. (Some (), s)))"

declare pb_read_null.simps [simp del]

definition pb_readbyte :: "'s pb_istream \<Rightarrow> u8 option \<times> 's pb_istream" where
  "pb_readbyte s =
     (if bytes_left s = 0 then in_error ''end-of-stream'' s
      else case in_callback s 1 of
             (None, s) \<Rightarrow> in_error ''io error'' s
           | (Some bs, s) \<Rightarrow> (Some (bs ! 0), s\<lparr> bytes_left := bytes_left s - 1 \<rparr>))"

definition pb_istream_from_buffer :: "u8 list \<Rightarrow> nat \<Rightarrow> 's pb_istream" where
  "pb_istream_from_buffer buf bufsize = \<lparr> in_state = InBuffer buf, bytes_left = bufsize, in_errmsg = None \<rparr>"

section \<open>Reading integers\<close>

lemma in_callback_left: "in_callback s n = (Some x, s') \<Longrightarrow> bytes_left s' = bytes_left s"
  by (auto simp: in_callback_def buf_read_def split: in_source.splits prod.splits in_result.splits)

lemma pb_readbyte_left: "pb_readbyte s = (Some b, s') \<Longrightarrow> bytes_left s' < bytes_left s"
  by (auto simp: pb_readbyte_def in_error_def dest!: in_callback_left split: if_split_asm prod.splits option.splits)

lemma pb_read_left: "pb_read s n = (Some bs, s') \<Longrightarrow> bytes_left s' = bytes_left s - n"
  by (auto simp: pb_read_def in_error_def dest!: in_callback_left split: if_split_asm prod.splits option.splits)

text \<open>The loop of \<open>pb_decode_varint32_eof\<close> with the check after it; \<open>bitpos\<close> has eight bits.\<close>

function varint32_loop :: "'s pb_istream \<Rightarrow> u32 \<Rightarrow> u8 \<Rightarrow> u32 option \<times> 's pb_istream" where
  "varint32_loop s result bitpos =
     (case pb_readbyte s of
        (None, s') \<Rightarrow> (None, s')
      | (Some byte, s') \<Rightarrow>
          let sign_extension = (if bitpos < 63 then 0xff else 0x01) :: u8
          in if 32 \<le> bitpos \<and> byte AND 0x7f \<noteq> 0 \<and> (drop_bit 31 result = 0 \<or> byte \<noteq> sign_extension)
             then in_error ''varint overflow'' s'
             else let result = (if 32 \<le> bitpos then result
                                else result OR push_bit (unat bitpos) (ucast (byte AND 0x7f)));
                      bitpos = bitpos + 7
                  in if byte AND 0x80 \<noteq> 0 then varint32_loop s' result bitpos
                     else if bitpos = 35 \<and> byte AND 0x70 \<noteq> 0 then in_error ''varint overflow'' s'
                     else (Some result, s'))"
  by pat_completeness auto
termination
  by (relation "measure (\<lambda>(s, _). bytes_left s)") (auto dest: pb_readbyte_left [OF sym])

declare varint32_loop.simps [simp del]

text \<open>The last component tells whether \<open>*eof\<close> was set.\<close>

definition pb_decode_varint32_eof :: "'s pb_istream \<Rightarrow> u32 option \<times> 's pb_istream \<times> bool" where
  "pb_decode_varint32_eof s =
     (case pb_readbyte s of
        (None, s) \<Rightarrow> (None, s, bytes_left s = 0)
      | (Some byte, s) \<Rightarrow>
          if byte AND 0x80 = 0 then (Some (ucast byte), s, False)
          else case varint32_loop s (ucast (byte AND 0x7f)) 7 of (r, s) \<Rightarrow> (r, s, False))"

definition pb_decode_varint32 :: "'s pb_istream \<Rightarrow> u32 option \<times> 's pb_istream" where
  "pb_decode_varint32 s = (case pb_decode_varint32_eof s of (r, s, _) \<Rightarrow> (r, s))"

function varint_loop :: "'s pb_istream \<Rightarrow> u64 \<Rightarrow> u8 \<Rightarrow> u64 option \<times> 's pb_istream" where
  "varint_loop s result bitpos =
     (if 64 \<le> bitpos then in_error ''varint overflow'' s
      else case pb_readbyte s of
             (None, s') \<Rightarrow> (None, s')
           | (Some byte, s') \<Rightarrow>
               let result = result OR push_bit (unat bitpos) (ucast (byte AND 0x7f));
                   bitpos = bitpos + 7
               in if byte AND 0x80 \<noteq> 0 then varint_loop s' result bitpos else (Some result, s'))"
  by pat_completeness auto
termination
  by (relation "measure (\<lambda>(s, _). bytes_left s)") (auto dest: pb_readbyte_left [OF sym])

declare varint_loop.simps [simp del]

definition pb_decode_varint :: "'s pb_istream \<Rightarrow> u64 option \<times> 's pb_istream" where
  "pb_decode_varint s = varint_loop s 0 0"

function pb_skip_varint :: "'s pb_istream \<Rightarrow> unit option \<times> 's pb_istream" where
  "pb_skip_varint s =
     (case pb_read s 1 of
        (None, s') \<Rightarrow> (None, s')
      | (Some byte, s') \<Rightarrow> if byte ! 0 AND 0x80 \<noteq> 0 then pb_skip_varint s' else (Some (), s'))"
  by pat_completeness auto
termination
proof (relation "measure bytes_left", goal_cases)
  case 1
  then show ?case by simp
next
  case (2 s p)
  then show ?case by (auto simp: pb_read_def in_error_def dest!: in_callback_left split: if_split_asm prod.splits option.splits)
qed

declare pb_skip_varint.simps [simp del]

definition pb_decode_svarint :: "'s pb_istream \<Rightarrow> u64 option \<times> 's pb_istream" where
  "pb_decode_svarint s =
     ok_do (pb_decode_varint s) (\<lambda>value s.
       if value AND 1 \<noteq> 0 then (Some (NOT (drop_bit 1 value)), s) else (Some (drop_bit 1 value), s))"

definition pb_decode_fixed32 :: "'s pb_istream \<Rightarrow> u32 option \<times> 's pb_istream" where
  "pb_decode_fixed32 s =
     ok_do (pb_read s 4) (\<lambda>bytes s.
       (Some (ucast (bytes ! 0) OR push_bit 8 (ucast (bytes ! 1)) OR
              push_bit 16 (ucast (bytes ! 2)) OR push_bit 24 (ucast (bytes ! 3))), s))"

definition pb_decode_fixed64 :: "'s pb_istream \<Rightarrow> u64 option \<times> 's pb_istream" where
  "pb_decode_fixed64 s =
     ok_do (pb_read s 8) (\<lambda>bytes s.
       (Some (ucast (bytes ! 0) OR push_bit 8 (ucast (bytes ! 1)) OR
              push_bit 16 (ucast (bytes ! 2)) OR push_bit 24 (ucast (bytes ! 3)) OR
              push_bit 32 (ucast (bytes ! 4)) OR push_bit 40 (ucast (bytes ! 5)) OR
              push_bit 48 (ucast (bytes ! 6)) OR push_bit 56 (ucast (bytes ! 7))), s))"

section \<open>Tags, skipping, substreams\<close>

definition PB_WT_VARINT :: nat where "PB_WT_VARINT = 0"

definition PB_WT_64BIT :: nat where "PB_WT_64BIT = 1"

definition PB_WT_STRING :: nat where "PB_WT_STRING = 2"

definition PB_WT_32BIT :: nat where "PB_WT_32BIT = 5"

lemmas wire_types = PB_WT_VARINT_def PB_WT_64BIT_def PB_WT_STRING_def PB_WT_32BIT_def

definition pb_skip_string :: "'s pb_istream \<Rightarrow> unit option \<times> 's pb_istream" where
  "pb_skip_string s = ok_do (pb_decode_varint32 s) (\<lambda>len s. pb_read_null s (unat len))"

text \<open>The wire type and the tag, and whether \<open>*eof\<close> was set (also for a zero tag).\<close>

definition pb_decode_tag :: "'s pb_istream \<Rightarrow> (nat \<times> nat) option \<times> 's pb_istream \<times> bool" where
  "pb_decode_tag s =
     (case pb_decode_varint32_eof s of
        (None, s, eof) \<Rightarrow> (None, s, eof)
      | (Some temp, s, _) \<Rightarrow>
          if temp = 0 then (None, s, True)
          else (Some (unat (temp AND 7), unat (drop_bit 3 temp)), s, False))"

definition pb_skip_field :: "'s pb_istream \<Rightarrow> nat \<Rightarrow> unit option \<times> 's pb_istream" where
  "pb_skip_field s wire_type =
     (if wire_type = PB_WT_VARINT then pb_skip_varint s
      else if wire_type = PB_WT_64BIT then pb_read_null s 8
      else if wire_type = PB_WT_STRING then pb_skip_string s
      else if wire_type = PB_WT_32BIT then pb_read_null s 4
      else in_error ''invalid wire_type'' s)"

text \<open>The loop of \<open>read_raw_value\<close>: \<open>n\<close> is what is left of \<open>max_size\<close>.\<close>

fun raw_varint :: "'s pb_istream \<Rightarrow> nat \<Rightarrow> u8 list option \<times> 's pb_istream" where
  "raw_varint s 0 = (None, s)"
| "raw_varint s (Suc n) =
     ok_do (pb_read s 1) (\<lambda>b s.
       if b ! 0 AND 0x80 \<noteq> 0 then ok_do (raw_varint s n) (\<lambda>bs s. (Some (b ! 0 # bs), s))
       else (Some [b ! 0], s))"

definition read_raw_value :: "'s pb_istream \<Rightarrow> nat \<Rightarrow> nat \<Rightarrow> u8 list option \<times> 's pb_istream" where
  "read_raw_value s wire_type max_size =
     (if wire_type = PB_WT_VARINT then raw_varint s max_size
      else if wire_type = PB_WT_64BIT then pb_read s 8
      else if wire_type = PB_WT_32BIT then pb_read s 4
      else in_error ''invalid wire_type'' s)"

text \<open>The substream; the state returned is the parent, which shares the position until it is closed.\<close>

definition pb_make_string_substream :: "'s pb_istream \<Rightarrow> 's pb_istream option \<times> 's pb_istream" where
  "pb_make_string_substream s =
     ok_do (pb_decode_varint32 s) (\<lambda>size s.
       if bytes_left s < unat size then in_error ''parent stream too short'' s
       else (Some (s\<lparr> bytes_left := unat size \<rparr>), s\<lparr> bytes_left := bytes_left s - unat size \<rparr>))"

definition pb_close_string_substream :: "'s pb_istream \<Rightarrow> 's pb_istream \<Rightarrow> bool \<times> 's pb_istream" where
  "pb_close_string_substream s sub =
     (case (if bytes_left sub \<noteq> 0 then pb_read_null sub (bytes_left sub) else (Some (), sub)) of
        (None, sub) \<Rightarrow> (False, s)
      | (Some _, sub) \<Rightarrow> (True, s\<lparr> in_state := in_state sub, in_errmsg := in_errmsg sub \<rparr>))"

section \<open>Output streams\<close>

datatype 'o out_sink = Sizing | OutBuffer "u8 list" | OutCallback "'o \<Rightarrow> u8 list \<Rightarrow> bool \<times> 'o" 'o

record 'o pb_ostream =
  out_sink :: "'o out_sink"
  max_size :: nat
  bytes_written :: nat
  out_errmsg :: "string option"

definition is_sizing :: "'o pb_ostream \<Rightarrow> bool" where
  "is_sizing s = (case out_sink s of Sizing \<Rightarrow> True | _ \<Rightarrow> False)"

definition out_error :: "string \<Rightarrow> 'o pb_ostream \<Rightarrow> bool \<times> 'o pb_ostream" where
  "out_error msg s =
     (False, s\<lparr> out_errmsg := (case out_errmsg s of Some m \<Rightarrow> Some m | None \<Rightarrow> Some msg) \<rparr>)"

text \<open>The bytes written to a buffer so far are a list, which \<open>buf_write\<close> extends.\<close>

definition buf_write :: "u8 list \<Rightarrow> u8 list \<Rightarrow> u8 list" where
  "buf_write dest buf = dest @ buf"

definition out_callback :: "'o pb_ostream \<Rightarrow> u8 list \<Rightarrow> bool \<times> 'o pb_ostream" where
  "out_callback s buf =
     (case out_sink s of
        Sizing \<Rightarrow> (True, s)
      | OutBuffer dest \<Rightarrow> (True, s\<lparr> out_sink := OutBuffer (buf_write dest buf) \<rparr>)
      | OutCallback f st \<Rightarrow> (case f st buf of (ok, st) \<Rightarrow> (ok, s\<lparr> out_sink := OutCallback f st \<rparr>)))"

definition pb_ostream_from_buffer :: "nat \<Rightarrow> 'o pb_ostream" where
  "pb_ostream_from_buffer bufsize =
     \<lparr> out_sink = OutBuffer [], max_size = bufsize, bytes_written = 0, out_errmsg = None \<rparr>"

definition PB_OSTREAM_SIZING :: "'o pb_ostream" where
  "PB_OSTREAM_SIZING = \<lparr> out_sink = Sizing, max_size = 0, bytes_written = 0, out_errmsg = None \<rparr>"

definition pb_write :: "'o pb_ostream \<Rightarrow> u8 list \<Rightarrow> bool \<times> 'o pb_ostream" where
  "pb_write s buf =
     (let count = length buf
      in then_do
           (if 0 < count \<and> \<not> is_sizing s
            then if size_t (bytes_written s + count) < bytes_written s \<or>
                    max_size s < size_t (bytes_written s + count)
                 then out_error ''stream full'' s
                 else case out_callback s buf of
                        (False, s) \<Rightarrow> out_error ''io error'' s
                      | (True, s) \<Rightarrow> (True, s)
            else (True, s))
           (\<lambda>s. (True, s\<lparr> bytes_written := size_t (bytes_written s + count) \<rparr>)))"

section \<open>Writing integers\<close>

text \<open>The loop of \<open>pb_encode_varint\<close>, before the last byte loses its top bit.\<close>

function varint_groups :: "u64 \<Rightarrow> u8 list" where
  "varint_groups value =
     (if value = 0 then [] else ucast (value AND 0x7f OR 0x80) # varint_groups (drop_bit 7 value))"
  by pat_completeness auto
termination
proof (relation "measure unat", goal_cases)
  case 1
  then show ?case by simp
next
  case (2 val)
  then have "0 < unat val" by (simp add: unat_gt_0)
  then show ?case unfolding in_measure unat_drop_bit by simp
qed

declare varint_groups.simps [simp del]

definition pb_encode_varint :: "'o pb_ostream \<Rightarrow> u64 \<Rightarrow> bool \<times> 'o pb_ostream" where
  "pb_encode_varint s value =
     (if value \<le> 0x7f then pb_write s [ucast value]
      else let buffer = varint_groups value; i = length buffer
           in pb_write s (buffer[i - 1 := buffer ! (i - 1) AND 0x7f]))"

text \<open>\<open>pb_int64_t\<close> as its two's-complement bits.\<close>

definition pb_encode_svarint :: "'o pb_ostream \<Rightarrow> u64 \<Rightarrow> bool \<times> 'o pb_ostream" where
  "pb_encode_svarint s value =
     pb_encode_varint s (if sint value < 0 then NOT (push_bit 1 value) else push_bit 1 value)"

definition pb_encode_fixed32 :: "'o pb_ostream \<Rightarrow> u32 \<Rightarrow> bool \<times> 'o pb_ostream" where
  "pb_encode_fixed32 s val =
     pb_write s [ucast (val AND 0xff), ucast (drop_bit 8 val AND 0xff),
                 ucast (drop_bit 16 val AND 0xff), ucast (drop_bit 24 val AND 0xff)]"

definition pb_encode_fixed64 :: "'o pb_ostream \<Rightarrow> u64 \<Rightarrow> bool \<times> 'o pb_ostream" where
  "pb_encode_fixed64 s val =
     pb_write s [ucast (val AND 0xff), ucast (drop_bit 8 val AND 0xff),
                 ucast (drop_bit 16 val AND 0xff), ucast (drop_bit 24 val AND 0xff),
                 ucast (drop_bit 32 val AND 0xff), ucast (drop_bit 40 val AND 0xff),
                 ucast (drop_bit 48 val AND 0xff), ucast (drop_bit 56 val AND 0xff)]"

definition pb_encode_tag :: "'o pb_ostream \<Rightarrow> nat \<Rightarrow> u32 \<Rightarrow> bool \<times> 'o pb_ostream" where
  "pb_encode_tag s wiretype field_number =
     pb_encode_varint s (push_bit 3 (ucast field_number) OR of_nat wiretype)"

definition pb_encode_string :: "'o pb_ostream \<Rightarrow> u8 list \<Rightarrow> nat \<Rightarrow> bool \<times> 'o pb_ostream" where
  "pb_encode_string s buffer n =
     then_do (pb_encode_varint s (of_nat n)) (\<lambda>s. pb_write s (take n buffer))"

section \<open>Reading from a buffer\<close>

text \<open>A buffer stream: the memory from \<open>state\<close> on, and how much of it belongs to the stream.\<close>

definition ibuf :: "u8 list \<Rightarrow> nat \<Rightarrow> string option \<Rightarrow> 's pb_istream" where
  "ibuf bs n e = \<lparr> in_state = InBuffer bs, bytes_left = n, in_errmsg = e \<rparr>"

lemma ibuf_sel [simp]:
  "in_state (ibuf bs n e) = InBuffer bs" "bytes_left (ibuf bs n e) = n" "in_errmsg (ibuf bs n e) = e"
  "(ibuf bs n e)\<lparr> bytes_left := m \<rparr> = ibuf bs m e"
  by (simp_all add: ibuf_def)

lemma ibuf_from_buffer: "pb_istream_from_buffer buf n = ibuf buf n None"
  by (simp add: ibuf_def pb_istream_from_buffer_def)

lemma ibuf_eq: "in_state s = InBuffer bs \<Longrightarrow> s = ibuf bs (bytes_left s) (in_errmsg s)"
  by (simp add: ibuf_def)

lemma in_callback_ibuf [simp]: "in_callback (ibuf bs n e) k = (Some (take k bs), ibuf (drop k bs) n e)"
  by (simp add: in_callback_def buf_read_def ibuf_def)

lemma pb_readbyte_ibuf [step_simps]:
  "pb_readbyte (ibuf (b # bs) (Suc n) e) = (Some b, ibuf bs n e)"
  "pb_readbyte (ibuf bs' 0 e) = in_error ''end-of-stream'' (ibuf bs' 0 e)"
  by (simp_all add: pb_readbyte_def)

lemma pb_read_ibuf [step_simps]:
  "length v = k \<Longrightarrow> pb_read (ibuf (v @ bs) (k + n) e) k = (Some v, ibuf bs n e)"
  by (auto simp: pb_read_def)

lemma pb_read_null_ibuf [step_simps]:
  "length v = k \<Longrightarrow> pb_read_null (ibuf (v @ bs) (k + n) e) k = (Some (), ibuf bs n e)"
  by (subst pb_read_null.simps) (auto simp: pb_read_ibuf)

section \<open>The bytes of a varint\<close>

fun varint_bytes :: "nat \<Rightarrow> u8 list" where
  "varint_bytes v = (if v < 128 then [of_nat v] else of_nat (v mod 128 + 128) # varint_bytes (v div 128))"

declare varint_bytes.simps [simp del]

lemma varint_bytes_short: "v < 128 \<Longrightarrow> varint_bytes v = [of_nat v]"
  by (subst varint_bytes.simps) simp

lemma varint_bytes_long: "128 \<le> v \<Longrightarrow> varint_bytes v = of_nat (v mod 128 + 128) # varint_bytes (v div 128)"
  by (subst varint_bytes.simps) simp

lemma varint_bytes_nonempty [simp]: "varint_bytes v \<noteq> []"
  by (subst varint_bytes.simps) simp

lemma length_varint_bytes: "v < 2 ^ (7 * Suc n) \<Longrightarrow> length (varint_bytes v) \<le> Suc n"
proof (induction n arbitrary: v)
  case 0
  then show ?case by (simp add: varint_bytes_short)
next
  case (Suc n)
  show ?case
  proof (cases "v < 128")
    case True
    then show ?thesis by (simp add: varint_bytes_short)
  next
    case False
    have "v div 128 < 2 ^ (7 * Suc n)" using Suc.prems by (intro less_mult_imp_div_less) (simp add: power_add)
    then show ?thesis using False Suc.IH by (simp add: varint_bytes_long)
  qed
qed

lemma length_varint_bytes_64: "length (varint_bytes (unat v)) \<le> 10" for v :: u64
proof -
  have "unat v < 2 ^ (7 * Suc 9)" using unsigned_less [of v, where ?'a = nat] by (rule less_trans) simp
  from length_varint_bytes [OF this] show ?thesis by simp
qed

lemma group_byte: "ucast (val AND 0x7f OR 0x80) = (of_nat (unat val mod 128 + 128) :: u8)" for val :: u64
proof (rule unsigned_word_eqI [where ?'a = nat])
  have m: "unat (val AND 0x7f) = unat val mod 128"
    using unat_and_mask [of val 7] by (simp add: mask_eq_exp_minus_1)
  have "val AND 0x7f OR 0x80 = push_bit 7 1 OR (val AND 0x7f)" by (simp add: or.commute)
  also have "unat \<dots> = unat val mod 128 + 128"
    using unat_push_or [of 7 "1 :: u64" "val AND 0x7f"] m by simp
  finally have u: "unat (val AND 0x7f OR 0x80) = unat val mod 128 + 128" .
  have "unat val mod 128 + 128 < 256" using mod_less_divisor [of 128 "unat val"] by linarith
  then show "unat (ucast (val AND 0x7f OR 0x80) :: u8) = unat (of_nat (unat val mod 128 + 128) :: u8)"
    unfolding unsigned_ucast_eq u unat_of_nat_u8 by (simp add: take_bit_eq_mod)
qed

lemma varint_groups_bytes:
  "val \<noteq> 0 \<Longrightarrow>
    (varint_groups val)[length (varint_groups val) - 1 := varint_groups val ! (length (varint_groups val) - 1) AND 0x7f] =
    varint_bytes (unat val)"
proof (induction val rule: varint_groups.induct)
  case (1 val)
  have g: "varint_groups val = of_nat (unat val mod 128 + 128) # varint_groups (drop_bit 7 val)"
    using "1.prems" by (subst varint_groups.simps) (simp add: group_byte)
  have z: "drop_bit 7 val = 0 \<longleftrightarrow> unat val < 128" using drop_bit_eq_0_iff [of 7 val] by simp
  show ?case
  proof (cases "unat val < 128")
    case True
    then have "varint_groups (drop_bit 7 val) = []" using z by (subst varint_groups.simps) simp
    moreover have "(of_nat (unat val + 128) AND 0x7f :: u8) = of_nat (unat val)"
      using True by (simp add: word_unat_eq_iff byte_low7 del: of_nat_unat of_nat_add)
    ultimately show ?thesis using True unfolding g by (simp add: varint_bytes_short del: of_nat_unat of_nat_add)
  next
    case False
    then have "varint_groups (drop_bit 7 val) \<noteq> []" using z by (subst varint_groups.simps) simp
    then obtain b bs where bs: "varint_groups (drop_bit 7 val) = b # bs" by (cases "varint_groups (drop_bit 7 val)") auto
    have "(varint_groups (drop_bit 7 val))[length (varint_groups (drop_bit 7 val)) - 1 :=
        varint_groups (drop_bit 7 val) ! (length (varint_groups (drop_bit 7 val)) - 1) AND 0x7f] = varint_bytes (unat (drop_bit 7 val))"
      using "1.IH" "1.prems" False z by simp
    then show ?thesis using False
      unfolding g varint_bytes_long [OF False [unfolded not_less]] unat_drop_bit bs
      by (simp del: of_nat_unat of_nat_add)
  qed
qed

lemma pb_encode_varint_bytes: "pb_encode_varint s val = pb_write s (varint_bytes (unat val))"
proof (cases "val \<le> 0x7f")
  case True
  then have "unat val < 128" by (simp add: word_le_nat_alt)
  moreover have "(ucast val :: u8) = of_nat (unat val)" by simp
  ultimately show ?thesis using True by (simp add: pb_encode_varint_def varint_bytes_short)
next
  case False
  then have "val \<noteq> 0" by auto
  then show ?thesis using False varint_groups_bytes [of val] by (simp add: pb_encode_varint_def Let_def)
qed


section \<open>Decoding varints\<close>

lemma word_split7: "(of_nat v :: 'a::len word) = of_nat (v mod 128) OR push_bit 7 (of_nat (v div 128))"
proof (rule bit_word_eqI)
  fix n assume "n < LENGTH('a)"
  moreover have "v mod 128 = take_bit 7 v" "v div 128 = drop_bit 7 v"
    by (simp_all add: take_bit_eq_mod drop_bit_eq_div)
  ultimately show "bit (of_nat v :: 'a word) n = bit (of_nat (v mod 128) OR push_bit 7 (of_nat (v div 128)) :: 'a word) n"
    by (auto simp: bit_simps)
qed

lemma low7_more: "of_nat (v mod 128 + 128) AND (0x7f :: u8) = of_nat (v mod 128)"
proof (rule unsigned_word_eqI [where ?'a = nat])
  have "v mod 128 < 128" by simp
  then have "v mod 128 + 128 < 256" "v mod 128 < 256" by linarith+
  then show "unat (of_nat (v mod 128 + 128) AND (0x7f :: u8)) = unat (of_nat (v mod 128) :: u8)"
    unfolding byte_low7 unat_of_nat_u8 by simp
qed

lemma low7_last: "v < 128 \<Longrightarrow> of_nat v AND (0x7f :: u8) = of_nat v"
  by (simp add: word_unat_eq_iff byte_low7)

lemma more_flag: "of_nat (v mod 128 + 128) AND (0x80 :: u8) \<noteq> 0"
proof -
  have "v mod 128 < 128" by simp
  then have "v mod 128 + 128 < 256" by linarith
  then show ?thesis unfolding byte_flag unat_of_nat_u8 by simp
qed

lemma last_flag: "v < 128 \<Longrightarrow> of_nat v AND (0x80 :: u8) = 0"
  by (simp add: byte_flag)

lemma ucast_small_byte: "n < 256 \<Longrightarrow> (ucast (of_nat n :: u8) :: 'a::len word) = of_nat n"
proof -
  assume "n < 256"
  then have "unat (of_nat n :: u8) = n" by simp
  then show ?thesis by (metis of_nat_unat)
qed

lemma varint_loop_bytes:
  "unat pos = 7 * k \<Longrightarrow> k \<le> 9 \<Longrightarrow> v < 2 ^ (64 - 7 * k) \<Longrightarrow>
    varint_loop (ibuf (varint_bytes v @ rest) (length (varint_bytes v) + n) e) acc pos =
      (Some (acc OR push_bit (unat pos) (of_nat v)), ibuf rest n e)"
proof (induction v arbitrary: pos k acc rule: varint_bytes.induct)
  case (1 v)
  have p: "\<not> 64 \<le> pos" using "1.prems" by (simp add: word_le_nat_alt)
  show ?case
  proof (cases "v < 128")
    case True
    then show ?thesis using p
      by (subst varint_loop.simps)
        (simp add: varint_bytes_short pb_readbyte_ibuf low7_last last_flag ucast_small_byte Let_def)
  next
    case False
    let ?b = "of_nat (v mod 128 + 128) :: u8"
    have m: "v mod 128 < 256" using mod_less_divisor [of 128 v] by linarith
    have k: "k < 9"
    proof (rule ccontr)
      assume "\<not> k < 9"
      then have "k = 9" using "1.prems"(2) by simp
      then show False using "1.prems"(3) False by simp
    qed
    have s: "64 - 7 * k = (64 - 7 * Suc k) + 7" using k by simp
    have v: "v div 128 < 2 ^ (64 - 7 * Suc k)"
      using "1.prems"(3) unfolding s by (intro less_mult_imp_div_less) (simp add: power_add)
    have u: "unat (pos + 7) = 7 * Suc k"
      using "1.prems"(1) k by (subst unat_plus_simple [THEN iffD1]) (simp_all add: word_le_nat_alt unat_word_ariths)
    have or: "push_bit (unat pos) (of_nat (v mod 128)) OR push_bit (unat (pos + 7)) (of_nat (v div 128)) =
        push_bit (unat pos) (of_nat v :: u64)"
      unfolding u "1.prems"(1) word_split7 [of v] push_bit_or by (simp add: ac_simps)
    show ?thesis
      unfolding varint_bytes_long [OF False [unfolded not_less]]
      using p more_flag [of v] "1.IH" [OF False u _ v, of "acc OR push_bit (unat pos) (of_nat (v mod 128))"] k
      by (subst varint_loop.simps)
        (simp add: pb_readbyte_ibuf low7_more ucast_small_byte [OF m] Let_def or or.assoc del: of_nat_add)
  qed
qed

lemma pb_decode_varint_bytes:
  "pb_decode_varint (ibuf (varint_bytes (unat v) @ rest) (length (varint_bytes (unat v)) + n) e) =
    (Some v, ibuf rest n e)"
  using varint_loop_bytes [of 0 0 "unat v" rest n e 0] unsigned_less [of v, where ?'a = nat]
  by (simp add: pb_decode_varint_def)

lemma byte_high_small: "n < 16 \<Longrightarrow> of_nat n AND (0x70 :: u8) = 0"
proof -
  assume "n < 16"
  define w :: u8 where "w = of_nat n"
  have n: "unat w < 2 ^ 4" using \<open>n < 16\<close> by (simp add: w_def)
  have hi: "\<not> bit w i" if "4 \<le> i" for i
  proof -
    have "unat w div 2 ^ i = 0"
      using n that by (meson div_less le_trans less_le_trans one_le_numeral power_increasing)
    then have "\<not> bit (unat w) i" by (simp only: bit_iff_odd) simp
    then show ?thesis by (simp add: bit_unsigned_iff)
  qed
  have lo: "\<not> bit (0x70 :: u8) i" if "i < 4" for i
  proof -
    have "(0x70 :: u8) = push_bit 4 7" by simp
    then show ?thesis using that by (simp only: bit_push_bit_iff) simp
  qed
  have "\<not> bit (w AND 0x70) i" for i using hi [of i] lo [of i] by (cases "i < 4") (auto simp: bit_and_iff)
  then show ?thesis unfolding w_def [symmetric] by (intro bit_word_eqI) simp
qed

lemma varint32_loop_bytes:
  "unat pos = 7 * k \<Longrightarrow> k \<le> 4 \<Longrightarrow> v < 2 ^ (32 - 7 * k) \<Longrightarrow>
    varint32_loop (ibuf (varint_bytes v @ rest) (length (varint_bytes v) + n) e) acc pos =
      (Some (acc OR push_bit (unat pos) (of_nat v)), ibuf rest n e)"
proof (induction v arbitrary: pos k acc rule: varint_bytes.induct)
  case (1 v)
  have p: "\<not> 32 \<le> pos" using "1.prems" by (simp add: word_le_nat_alt)
  have u: "unat (pos + 7) = 7 * Suc k"
    using "1.prems"(1,2) by (subst unat_plus_simple [THEN iffD1]) (simp_all add: word_le_nat_alt unat_word_ariths)
  show ?case
  proof (cases "v < 128")
    case True
    have "pos + 7 = 35 \<Longrightarrow> of_nat v AND (0x70 :: u8) = 0"
    proof -
      assume "pos + 7 = 35"
      then have "7 * Suc k = unat (35 :: u8)" using u by metis
      then have "k = 4" by simp
      then have "v < 16" using "1.prems"(3) by simp
      then show ?thesis by (rule byte_high_small)
    qed
    then show ?thesis using p True
      by (subst varint32_loop.simps)
        (auto simp add: varint_bytes_short pb_readbyte_ibuf low7_last last_flag ucast_small_byte Let_def)
  next
    case False
    let ?b = "of_nat (v mod 128 + 128) :: u8"
    have m: "v mod 128 < 256" using mod_less_divisor [of 128 v] by linarith
    have k: "k < 4"
    proof (rule ccontr)
      assume "\<not> k < 4"
      then have "k = 4" using "1.prems"(2) by simp
      then show False using "1.prems"(3) False by simp
    qed
    have s: "32 - 7 * k = (32 - 7 * Suc k) + 7" using k by simp
    have v: "v div 128 < 2 ^ (32 - 7 * Suc k)"
      using "1.prems"(3) unfolding s by (intro less_mult_imp_div_less) (simp add: power_add)
    have or: "push_bit (unat pos) (of_nat (v mod 128)) OR push_bit (unat (pos + 7)) (of_nat (v div 128)) =
        push_bit (unat pos) (of_nat v :: u32)"
      unfolding u "1.prems"(1) word_split7 [of v] push_bit_or by (simp add: ac_simps)
    show ?thesis
      unfolding varint_bytes_long [OF False [unfolded not_less]]
      using p more_flag [of v] "1.IH" [OF False u _ v, of "acc OR push_bit (unat pos) (of_nat (v mod 128))"] k
      by (subst varint32_loop.simps)
        (simp add: pb_readbyte_ibuf low7_more ucast_small_byte [OF m] Let_def or or.assoc del: of_nat_add)
  qed
qed

lemma pb_decode_varint32_eof_bytes:
  "pb_decode_varint32_eof (ibuf (varint_bytes (unat v) @ rest) (length (varint_bytes (unat v)) + n) e :: 's pb_istream) =
    (Some v, ibuf rest n e, False)"
proof (cases "unat v < 128")
  case True
  then show ?thesis
    by (simp add: pb_decode_varint32_eof_def varint_bytes_short pb_readbyte_ibuf last_flag ucast_small_byte
        del: of_nat_unat) simp
next
  case False
  have m: "unat v mod 128 < 256" using mod_less_divisor [of 128 "unat v"] by linarith
  have "unat v div 128 < 2 ^ (32 - 7 * 1)"
    using unsigned_less [of v, where ?'a = nat] by (intro less_mult_imp_div_less) simp
  from varint32_loop_bytes [OF _ _ this, of 7 rest n e "of_nat (unat v mod 128)"]
  have l: "varint32_loop (ibuf (varint_bytes (unat v div 128) @ rest) (length (varint_bytes (unat v div 128)) + n) e :: 's pb_istream)
      (of_nat (unat v mod 128)) 7 = (Some v, ibuf rest n e)"
    using word_split7 [of "unat v", where ?'a = 32] by simp
  show ?thesis
    unfolding varint_bytes_long [OF False [unfolded not_less]]
    using more_flag [of "unat v"] l
    by (simp add: pb_decode_varint32_eof_def pb_readbyte_ibuf low7_more ucast_small_byte [OF m] del: of_nat_add)
qed

lemma pb_decode_varint32_bytes:
  "pb_decode_varint32 (ibuf (varint_bytes (unat v) @ rest) (length (varint_bytes (unat v)) + n) e) =
    (Some v, ibuf rest n e)"
  by (simp add: pb_decode_varint32_def pb_decode_varint32_eof_bytes)

lemma pb_decode_tag_bytes:
  "(v :: u32) \<noteq> 0 \<Longrightarrow>
    pb_decode_tag (ibuf (varint_bytes (unat v) @ rest) (length (varint_bytes (unat v)) + n) e) =
      (Some (unat v mod 8, unat v div 8), ibuf rest n e, False)"
  using unat_and_mask [of v 3]
  by (simp add: pb_decode_tag_def pb_decode_varint32_eof_bytes unat_drop_bit mask_eq_exp_minus_1)

lemma zigzag:
  fixes v :: u64
  defines "z \<equiv> if sint v < 0 then NOT (push_bit 1 v) else push_bit 1 v"
  shows "(if z AND 1 \<noteq> 0 then NOT (drop_bit 1 z) else drop_bit 1 z) = v"
proof -
  have top: "sint v < 0 \<longleftrightarrow> bit v 63" using bit_last_iff [of v] by simp
  have odd: "z AND 1 \<noteq> 0 \<longleftrightarrow> bit v 63"
  proof -
    have "z AND 1 \<noteq> 0 \<longleftrightarrow> bit z 0" using bit_iff_and_push_bit_not_eq_0 [of z 0] by simp
    moreover have "bit z 0 \<longleftrightarrow> bit v 63"
    proof (cases "bit v 63")
      case True
      then show ?thesis by (simp only: z_def top if_True bit_not_iff bit_push_bit_iff) simp
    next
      case False
      then show ?thesis by (simp only: z_def top if_False bit_not_iff bit_push_bit_iff) simp
    qed
    ultimately show ?thesis by simp
  qed
  show ?thesis
  proof (cases "bit v 63")
    case True
    then have "NOT (drop_bit 1 (NOT (push_bit 1 v))) = v"
    proof -
      have "bit (NOT (drop_bit 1 (NOT (push_bit 1 v)))) i = bit v i" if "i < 64" for i
        unfolding bit_not_iff bit_drop_bit_eq bit_push_bit_iff o_def using that True by (cases "i = 63") auto
      then show ?thesis by (intro bit_word_eqI) simp
    qed
    then show ?thesis using True odd by (simp add: z_def top)
  next
    case False
    then have "drop_bit 1 (push_bit 1 v) = v"
    proof -
      have "bit (drop_bit 1 (push_bit 1 v)) i = bit v i" if "i < 64" for i
        unfolding bit_drop_bit_eq bit_push_bit_iff o_def using that False by (cases "i = 63") auto
      then show ?thesis by (intro bit_word_eqI) simp
    qed
    then show ?thesis using False odd by (simp add: z_def top)
  qed
qed

definition zigzag_bytes :: "u64 \<Rightarrow> u8 list" where
  "zigzag_bytes v = varint_bytes (unat (if sint v < 0 then NOT (push_bit 1 v) else push_bit 1 v))"

lemma pb_encode_svarint_bytes: "pb_encode_svarint s v = pb_write s (zigzag_bytes v)"
  by (simp add: pb_encode_svarint_def pb_encode_varint_bytes zigzag_bytes_def)

lemma pb_decode_svarint_bytes:
  "pb_decode_svarint (ibuf (zigzag_bytes v @ rest) (length (zigzag_bytes v) + n) e) = (Some v, ibuf rest n e)"
  using zigzag [of v] unfolding pb_decode_svarint_def zigzag_bytes_def pb_decode_varint_bytes
  by (auto split: if_splits)

section \<open>Fixed-width integers, strings and substreams\<close>

definition fixed32_bytes :: "u32 \<Rightarrow> u8 list" where
  "fixed32_bytes val = [ucast (val AND 0xff), ucast (drop_bit 8 val AND 0xff),
     ucast (drop_bit 16 val AND 0xff), ucast (drop_bit 24 val AND 0xff)]"

definition fixed64_bytes :: "u64 \<Rightarrow> u8 list" where
  "fixed64_bytes val = [ucast (val AND 0xff), ucast (drop_bit 8 val AND 0xff),
     ucast (drop_bit 16 val AND 0xff), ucast (drop_bit 24 val AND 0xff),
     ucast (drop_bit 32 val AND 0xff), ucast (drop_bit 40 val AND 0xff),
     ucast (drop_bit 48 val AND 0xff), ucast (drop_bit 56 val AND 0xff)]"

lemma pb_encode_fixed_bytes:
  "pb_encode_fixed32 s v = pb_write s (fixed32_bytes v)"
  "pb_encode_fixed64 s w = pb_write s (fixed64_bytes w)"
  by (simp_all add: pb_encode_fixed32_def fixed32_bytes_def pb_encode_fixed64_def fixed64_bytes_def)

lemma length_fixed_bytes [simp]: "length (fixed32_bytes v) = 4" "length (fixed64_bytes w) = 8"
  by (simp_all add: fixed32_bytes_def fixed64_bytes_def)

lemma byte_of_word: "(ucast (w AND 0xff) :: u8) = ucast w" for w :: "'a::len word"
proof -
  have "w AND 0xff = take_bit 8 w" by (simp add: take_bit_eq_mask mask_eq_exp_minus_1)
  then show ?thesis by (intro bit_word_eqI) (auto simp: bit_simps dest: bit_imp_le_length)
qed

lemma bit_byte_at:
  "bit (push_bit k (ucast (ucast (drop_bit k v) :: u8)) :: 'a word) n \<longleftrightarrow> k \<le> n \<and> n < k + 8 \<and> bit v n"
  for v :: "'a::len word"
  by (auto simp: bit_simps dest: bit_imp_le_length)

lemmas byte_nth = nth_Cons_0 nth_Cons_numeral One_nat_def nth_Cons_Suc pred_numeral_simps
  eval_nat_numeral BitM.simps

lemma fixed32_value:
  "ucast (fixed32_bytes v ! 0) OR push_bit 8 (ucast (fixed32_bytes v ! 1)) OR
   push_bit 16 (ucast (fixed32_bytes v ! 2)) OR push_bit 24 (ucast (fixed32_bytes v ! 3)) = v"
proof (rule bit_word_eqI)
  fix n assume n: "n < LENGTH(32)"
  have z: "(ucast (ucast v :: u8) :: u32) = push_bit 0 (ucast (ucast (drop_bit 0 v) :: u8))" by simp
  have f: "fixed32_bytes v ! 0 = ucast v" "fixed32_bytes v ! 1 = ucast (drop_bit 8 v)"
    "fixed32_bytes v ! 2 = ucast (drop_bit 16 v)" "fixed32_bytes v ! 3 = ucast (drop_bit 24 v)"
    by (simp_all add: fixed32_bytes_def byte_of_word)
  show "bit (ucast (fixed32_bytes v ! 0) OR push_bit 8 (ucast (fixed32_bytes v ! 1)) OR
      push_bit 16 (ucast (fixed32_bytes v ! 2)) OR push_bit 24 (ucast (fixed32_bytes v ! 3)) :: u32) n = bit v n"
    unfolding f z bit_or_iff bit_byte_at using n by auto
qed

lemma fixed64_value:
  "ucast (fixed64_bytes v ! 0) OR push_bit 8 (ucast (fixed64_bytes v ! 1)) OR
   push_bit 16 (ucast (fixed64_bytes v ! 2)) OR push_bit 24 (ucast (fixed64_bytes v ! 3)) OR
   push_bit 32 (ucast (fixed64_bytes v ! 4)) OR push_bit 40 (ucast (fixed64_bytes v ! 5)) OR
   push_bit 48 (ucast (fixed64_bytes v ! 6)) OR push_bit 56 (ucast (fixed64_bytes v ! 7)) = v"
proof (rule bit_word_eqI)
  fix n assume n: "n < LENGTH(64)"
  have z: "(ucast (ucast v :: u8) :: u64) = push_bit 0 (ucast (ucast (drop_bit 0 v) :: u8))" by simp
  have f: "fixed64_bytes v ! 0 = ucast v" "fixed64_bytes v ! 1 = ucast (drop_bit 8 v)"
    "fixed64_bytes v ! 2 = ucast (drop_bit 16 v)" "fixed64_bytes v ! 3 = ucast (drop_bit 24 v)"
    "fixed64_bytes v ! 4 = ucast (drop_bit 32 v)" "fixed64_bytes v ! 5 = ucast (drop_bit 40 v)"
    "fixed64_bytes v ! 6 = ucast (drop_bit 48 v)" "fixed64_bytes v ! 7 = ucast (drop_bit 56 v)"
    by (simp_all add: fixed64_bytes_def byte_of_word)
  show "bit (ucast (fixed64_bytes v ! 0) OR push_bit 8 (ucast (fixed64_bytes v ! 1)) OR
      push_bit 16 (ucast (fixed64_bytes v ! 2)) OR push_bit 24 (ucast (fixed64_bytes v ! 3)) OR
      push_bit 32 (ucast (fixed64_bytes v ! 4)) OR push_bit 40 (ucast (fixed64_bytes v ! 5)) OR
      push_bit 48 (ucast (fixed64_bytes v ! 6)) OR push_bit 56 (ucast (fixed64_bytes v ! 7)) :: u64) n = bit v n"
    unfolding f z bit_or_iff bit_byte_at using n by auto
qed

lemma pb_decode_fixed_bytes:
  "pb_decode_fixed32 (ibuf (fixed32_bytes v @ rest) (4 + n) e) = (Some v, ibuf rest n e)"
  "pb_decode_fixed64 (ibuf (fixed64_bytes w @ rest) (8 + n) e) = (Some w, ibuf rest n e)"
  unfolding pb_decode_fixed32_def pb_decode_fixed64_def
    pb_read_ibuf [OF length_fixed_bytes(1)] pb_read_ibuf [OF length_fixed_bytes(2)] ok_then_simps fixed32_value fixed64_value
  by (rule refl)+

definition string_bytes :: "u8 list \<Rightarrow> u8 list" where
  "string_bytes body = varint_bytes (length body) @ body"

lemma pb_decode_varint32_length:
  "k < 2 ^ 32 \<Longrightarrow> pb_decode_varint32 (ibuf (varint_bytes k @ rest) (length (varint_bytes k) + n) e) =
    (Some (of_nat k), ibuf rest n e)"
  using pb_decode_varint32_bytes [of "of_nat k"] by (simp add: unat_of_nat)

lemma unat_length_u32: "k < 2 ^ 32 \<Longrightarrow> unat (of_nat k :: u32) = k"
  by (simp add: unat_of_nat)

lemma pb_make_string_substream_bytes:
  "length body < 2 ^ 32 \<Longrightarrow>
    pb_make_string_substream (ibuf (string_bytes body @ rest) (length (string_bytes body) + n) e) =
      (Some (ibuf (body @ rest) (length body) e), ibuf (body @ rest) n e)"
  by (simp add: pb_make_string_substream_def string_bytes_def unat_of_nat pb_decode_varint32_length add.assoc)

lemma ibuf_update: "(ibuf bs n e)\<lparr> in_state := InBuffer cs, in_errmsg := e' \<rparr> = ibuf cs n e'"
  by (simp add: ibuf_def)

lemma pb_read_null_all: "length xs = k \<Longrightarrow> pb_read_null (ibuf (xs @ rest) k e) k = (Some (), ibuf rest 0 e)"
  using pb_read_null_ibuf [of xs k rest 0 e] by simp

lemma pb_close_string_substream_bytes:
  "length xs = k \<Longrightarrow>
    pb_close_string_substream (ibuf bs n e) (ibuf (xs @ rest) k e') = (True, ibuf rest n e')"
  by (cases "k = 0") (simp_all add: pb_close_string_substream_def pb_read_null_all ibuf_update)

lemma pb_skip_string_bytes:
  "length body < 2 ^ 32 \<Longrightarrow>
    pb_skip_string (ibuf (string_bytes body @ rest) (length (string_bytes body) + n) e) = (Some (), ibuf rest n e)"
  by (simp add: pb_skip_string_def string_bytes_def unat_of_nat pb_decode_varint32_length pb_read_null_ibuf add.assoc)

lemma pb_read_1_ibuf [step_simps]: "pb_read (ibuf (b # bs) (Suc n) e) (Suc 0) = (Some [b], ibuf bs n e)"
  using pb_read_ibuf [of "[b]" 1 bs n e] by simp

lemma pb_skip_varint_bytes:
  "pb_skip_varint (ibuf (varint_bytes v @ rest) (length (varint_bytes v) + n) e) = (Some (), ibuf rest n e)"
proof (induction v rule: varint_bytes.induct)
  case (1 v)
  show ?case
  proof (cases "v < 128")
    case True
    then show ?thesis using last_flag [OF True]
      by (subst pb_skip_varint.simps) (simp add: varint_bytes_short pb_read_1_ibuf)
  next
    case False
    then show ?thesis using 1 more_flag [of v]
      by (subst pb_skip_varint.simps) (simp add: varint_bytes_long pb_read_1_ibuf del: of_nat_add)
  qed
qed

section \<open>Readers stay inside the stream\<close>

text \<open>
  What every reader promises for a buffer stream: it moves forward in the buffer, and the position
  and what is left of the stream stay within what was left before, also when it fails.
\<close>

definition in_step :: "'s pb_istream \<Rightarrow> 's pb_istream \<Rightarrow> bool" where
  "in_step s s' \<longleftrightarrow>
     (\<forall>bs. in_state s = InBuffer bs \<longrightarrow>
        (\<exists>c. in_state s' = InBuffer (drop c bs) \<and> c + bytes_left s' \<le> bytes_left s))"

lemma in_stepI: "(\<And>bs. in_state s = InBuffer bs \<Longrightarrow>
    in_state s' = InBuffer (drop c bs) \<and> c + bytes_left s' \<le> bytes_left s) \<Longrightarrow> in_step s s'"
  unfolding in_step_def by blast

lemma in_step_refl [simp, intro]: "in_step s s"
  by (rule in_stepI [of _ _ 0]) simp

lemma in_step_trans: "in_step s t \<Longrightarrow> in_step t u \<Longrightarrow> in_step s u"
  unfolding in_step_def
proof (intro allI impI)
  fix bs
  assume st: "\<forall>bs. in_state s = InBuffer bs \<longrightarrow> (\<exists>c. in_state t = InBuffer (drop c bs) \<and> c + bytes_left t \<le> bytes_left s)"
    and tu: "\<forall>bs. in_state t = InBuffer bs \<longrightarrow> (\<exists>c. in_state u = InBuffer (drop c bs) \<and> c + bytes_left u \<le> bytes_left t)"
    and s: "in_state s = InBuffer bs"
  from st s obtain c where c: "in_state t = InBuffer (drop c bs)" "c + bytes_left t \<le> bytes_left s" by blast
  from tu c(1) obtain d where "in_state u = InBuffer (drop d (drop c bs))" "d + bytes_left u \<le> bytes_left t" by blast
  then show "\<exists>c. in_state u = InBuffer (drop c bs) \<and> c + bytes_left u \<le> bytes_left s"
    using c(2) by (intro exI [of _ "d + c"]) simp
qed

lemma in_step_error [simp]: "in_step s (snd (in_error msg s))"
  by (rule in_stepI [of _ _ 0]) (simp add: in_error_def)

lemma in_step_left: "n \<le> bytes_left s \<Longrightarrow> in_step s (s\<lparr> bytes_left := n \<rparr>)"
  by (rule in_stepI [of _ _ 0]) simp

lemma in_step_callback: "in_callback s n = (Some x, s') \<Longrightarrow> n \<le> bytes_left s \<Longrightarrow>
    in_step s (s'\<lparr> bytes_left := bytes_left s' - n \<rparr>)"
  by (rule in_stepI [of _ _ n]) (auto simp: in_callback_def buf_read_def)

lemma in_callback_None: "in_callback s n = (None, s') \<Longrightarrow> in_step s s'"
  by (rule in_stepI [of _ _ 0]) (simp add: in_callback_def buf_read_def)

lemma pb_read_step [intro]: "in_step s (snd (pb_read s n))"
proof (cases "n = 0 \<or> bytes_left s < n")
  case True
  then show ?thesis by (auto simp: pb_read_def)
next
  case False
  obtain x t where c: "in_callback s n = (x, t)" by fastforce
  show ?thesis
  proof (cases x)
    case None
    then have "in_step s t" using c in_callback_None by simp
    then have "in_step s (snd (in_error ''io error'' t))" by (rule in_step_trans) simp
    then show ?thesis using c None False by (simp add: pb_read_def)
  next
    case (Some bs)
    then have "in_step s (t\<lparr> bytes_left := bytes_left t - n \<rparr>)" using c False in_step_callback [of s n bs t] by simp
    then show ?thesis using c Some False by (simp add: pb_read_def)
  qed
qed

lemma pb_readbyte_step [intro]: "in_step s (snd (pb_readbyte s))"
proof (cases "bytes_left s = 0")
  case True
  then show ?thesis by (simp add: pb_readbyte_def)
next
  case False
  obtain x t where c: "in_callback s 1 = (x, t)" by fastforce
  show ?thesis
  proof (cases x)
    case None
    then have "in_step s t" using c in_callback_None by simp
    then have "in_step s (snd (in_error ''io error'' t))" by (rule in_step_trans) simp
    then show ?thesis using c None False by (simp add: pb_readbyte_def)
  next
    case (Some bs)
    then have "in_step s (t\<lparr> bytes_left := bytes_left t - 1 \<rparr>)" using c False in_step_callback [of s 1 bs t] by simp
    then show ?thesis using c Some False by (simp add: pb_readbyte_def)
  qed
qed

text \<open>Sequencing preserves \<open>in_step\<close>.\<close>

lemma in_step_ok_then [intro]:
  assumes "in_step s (snd r)" "\<And>x t. r = (Some x, t) \<Longrightarrow> in_step t (snd (k x t))"
  shows "in_step s (snd (ok_do r k))"
proof (cases r)
  case (Pair x t)
  show ?thesis
  proof (cases x)
    case None
    then show ?thesis using assms(1) Pair by simp
  next
    case (Some y)
    then show ?thesis using assms Pair in_step_trans by fastforce
  qed
qed

lemma pb_read_null_step [intro]: "in_step s (snd (pb_read_null s n))"
proof (induction s n rule: pb_read_null.induct)
  case (1 s n)
  show ?case
  proof (cases "n = 0")
    case True
    then show ?thesis by (simp add: pb_read_null.simps)
  next
    case False
    show ?thesis
    proof (cases "in_state s")
      case (InBuffer bs)
      then show ?thesis using False by (subst pb_read_null.simps) (auto intro!: in_step_ok_then)
    next
      case (InCallback f st)
      then show ?thesis using False 1 [OF False InCallback]
        by (subst pb_read_null.simps) (auto intro!: in_step_ok_then)
    qed
  qed
qed

lemma in_step_None: "snd (in_error msg s) = s' \<Longrightarrow> in_step s s'"
  using in_step_error by metis

lemma varint32_loop_step [intro]: "in_step s (snd (varint32_loop s acc pos))"
proof (induction s acc pos rule: varint32_loop.induct)
  case (1 s acc pos)
  obtain r t where r: "pb_readbyte s = (r, t)" by fastforce
  then have st: "in_step s t" using pb_readbyte_step [of s] by simp
  show ?case
  proof (cases r)
    case None
    then show ?thesis using r st by (subst varint32_loop.simps) simp
  next
    case (Some b)
    note IH = "1.IH" [OF r [symmetric] Some refl]
    show ?thesis using r Some st in_step_trans [OF st IH] in_step_trans [OF st in_step_error]
      by (subst varint32_loop.simps) (auto simp: Let_def)
  qed
qed

lemma varint_loop_step [intro]: "in_step s (snd (varint_loop s acc pos))"
proof (induction s acc pos rule: varint_loop.induct)
  case (1 s acc pos)
  show ?case
  proof (cases "64 \<le> pos")
    case True
    then show ?thesis by (subst varint_loop.simps) simp
  next
    case False
    obtain r t where r: "pb_readbyte s = (r, t)" by fastforce
    then have st: "in_step s t" using pb_readbyte_step [of s] by simp
    show ?thesis
    proof (cases r)
      case None
      then show ?thesis using r st False by (subst varint_loop.simps) simp
    next
      case (Some b)
      show ?thesis using r Some st False "1.IH" [OF False r [symmetric] Some refl refl] in_step_trans [OF st]
        by (subst varint_loop.simps) (auto simp: Let_def)
    qed
  qed
qed

lemma pb_decode_varint_step [intro]: "in_step s (snd (pb_decode_varint s))"
  unfolding pb_decode_varint_def ..

lemma pb_decode_varint32_eof_step [intro]: "in_step s (fst (snd (pb_decode_varint32_eof s)))"
proof -
  obtain r t where r: "pb_readbyte s = (r, t)" by fastforce
  then have st: "in_step s t" using pb_readbyte_step [of s] by simp
  show ?thesis using r st in_step_trans [OF st varint32_loop_step]
    by (cases r) (auto simp: pb_decode_varint32_eof_def split_beta)
qed

lemma pb_decode_varint32_step [intro]: "in_step s (snd (pb_decode_varint32 s))"
  using pb_decode_varint32_eof_step [of s] by (auto simp: pb_decode_varint32_def split: prod.split)

lemma pb_decode_svarint_step [intro]: "in_step s (snd (pb_decode_svarint s))"
  unfolding pb_decode_svarint_def by (rule in_step_ok_then) auto

lemma pb_decode_fixed_step [intro]:
  "in_step s (snd (pb_decode_fixed32 s))" "in_step s (snd (pb_decode_fixed64 s))"
  unfolding pb_decode_fixed32_def pb_decode_fixed64_def by (rule in_step_ok_then; auto)+

lemma pb_skip_varint_step [intro]: "in_step s (snd (pb_skip_varint s))"
proof (induction s rule: pb_skip_varint.induct)
  case (1 s)
  obtain r t where r: "pb_read s 1 = (r, t)" by fastforce
  then have st: "in_step s t" using pb_read_step [of s 1] by simp
  show ?case
  proof (cases r)
    case None
    then show ?thesis using r st by (subst pb_skip_varint.simps) simp
  next
    case (Some b)
    show ?thesis using r Some st "1.IH" [OF r [symmetric] Some] in_step_trans [OF st]
      by (subst pb_skip_varint.simps) auto
  qed
qed

lemma pb_skip_string_step [intro]: "in_step s (snd (pb_skip_string s))"
  unfolding pb_skip_string_def by (rule in_step_ok_then) auto

lemma pb_skip_field_step [intro]: "in_step s (snd (pb_skip_field s wt))"
  unfolding pb_skip_field_def by auto

lemma pb_decode_tag_step [intro]: "in_step s (fst (snd (pb_decode_tag s)))"
  using pb_decode_varint32_eof_step [of s] by (auto simp: pb_decode_tag_def split: prod.split option.split)

lemma raw_varint_step [intro]: "in_step s (snd (raw_varint s n))"
  by (induction n arbitrary: s) (auto intro!: in_step_ok_then)

lemma read_raw_value_step [intro]: "in_step s (snd (read_raw_value s wt n))"
  unfolding read_raw_value_def by auto

text \<open>
  A substream ends where its length says: whatever is read from it, closing it leaves the parent
  after it, inside the parent.
\<close>

lemma substream_step:
  assumes m: "pb_make_string_substream s = (Some sub, s')"
    and sub: "in_step sub sub'"
    and c: "pb_close_string_substream s' sub' = (ok, s'')"
    and buf: "in_state s = InBuffer bs"
  shows "bytes_left sub + bytes_left s' \<le> bytes_left s" "in_step s s''"
    "ok \<Longrightarrow> bytes_left s'' = bytes_left s'"
proof -
  obtain r t where v: "pb_decode_varint32 s = (r, t)" by fastforce
  then have st: "in_step s t" using pb_decode_varint32_step [of s] by simp
  from m v obtain n where n: "r = Some n" "unat n \<le> bytes_left t" "sub = t\<lparr> bytes_left := unat n \<rparr>"
    "s' = t\<lparr> bytes_left := bytes_left t - unat n \<rparr>"
    by (cases r) (auto simp: pb_make_string_substream_def in_error_def split: if_split_asm)
  from st buf obtain a where a: "in_state t = InBuffer (drop a bs)" "a + bytes_left t \<le> bytes_left s"
    by (auto simp: in_step_def)
  show "bytes_left sub + bytes_left s' \<le> bytes_left s" using n a by simp
  let ?fin = "if bytes_left sub' \<noteq> 0 then pb_read_null sub' (bytes_left sub') else (Some (), sub')"
  obtain q e where e: "?fin = (q, e)" by fastforce
  have "in_step sub' (snd ?fin)" by auto
  then have se: "in_step sub e" using in_step_trans [OF sub] e by simp
  show "ok \<Longrightarrow> bytes_left s'' = bytes_left s'"
    using c e by (cases q) (auto simp: pb_close_string_substream_def)
  show "in_step s s''"
  proof (cases q)
    case None
    then have "s'' = s'" using c e by (simp add: pb_close_string_substream_def)
    then show ?thesis using st n(4) in_step_trans [OF st in_step_left [of "bytes_left t - unat n" t]] by simp
  next
    case (Some u)
    then have s'': "s'' = s'\<lparr> in_state := in_state e, in_errmsg := in_errmsg e \<rparr>"
      using c e by (simp add: pb_close_string_substream_def)
    from se n(3) a(1) obtain d where "in_state e = InBuffer (drop d (drop a bs))" "d + bytes_left e \<le> unat n"
      by (auto simp: in_step_def)
    then show ?thesis using a n buf by (intro in_stepI [of _ _ "d + a"]) (simp add: s'')
  qed
qed

end
