(* ===== verification/PbWire.thy ===== *)
theory PbWire
  imports PbStream
begin

text \<open>
  What the wire level of nanopb guarantees: buffers and substreams are never overrun, a sizing
  stream predicts what the real one writes, and every encoding is read back as it was written.
  The decoders are interpreted as codecs on byte strings, the buffer stream as a bounded byte sink.
\<close>

section \<open>Output streams\<close>

text \<open>A buffer stream that has been used only through \<open>pb_write\<close>.\<close>

definition out_ok :: "'o pb_ostream \<Rightarrow> bool" where
  "out_ok s = (case out_sink s of
     OutBuffer d \<Rightarrow> bytes_written s = length d \<and> length d \<le> max_size s \<and> max_size s \<le> SIZE_MAX
   | _ \<Rightarrow> False)"

definition out_bytes :: "'o pb_ostream \<Rightarrow> u8 list" where
  "out_bytes s = (case out_sink s of OutBuffer d \<Rightarrow> d | _ \<Rightarrow> [])"

definition out_room :: "'o pb_ostream \<Rightarrow> nat" where
  "out_room s = max_size s - bytes_written s"

lemma out_ok_buffer: "out_ok s \<Longrightarrow> out_sink s = OutBuffer (out_bytes s) \<and>
    bytes_written s = length (out_bytes s) \<and> length (out_bytes s) \<le> max_size s \<and> max_size s \<le> SIZE_MAX"
  by (auto simp: out_ok_def out_bytes_def split: out_sink.splits)

lemma pb_write_ok:
  assumes "out_ok s" "length buf \<le> SIZE_MAX"
  shows "pb_write s buf =
    (if length buf \<le> out_room s
     then (True, s\<lparr> out_sink := OutBuffer (out_bytes s @ buf), bytes_written := bytes_written s + length buf \<rparr>)
     else out_error ''stream full'' s)"
proof -
  note o = out_ok_buffer [OF assms(1)]
  show ?thesis
  proof (cases "length buf \<le> out_room s")
    case True
    then have "bytes_written s + length buf \<le> max_size s" using o by (auto simp: out_room_def)
    moreover from this have "size_t (bytes_written s + length buf) = bytes_written s + length buf"
      using o by (intro size_t_id) linarith
    moreover obtain d where d: "out_sink s = OutBuffer d" "out_bytes s = d" using o by blast
    ultimately show ?thesis using True
      by (cases "buf = []") (simp_all add: pb_write_def is_sizing_def out_callback_def buf_write_def Let_def)
  next
    case False
    then have f: "max_size s < bytes_written s + length buf" "0 < length buf" using o by (auto simp: out_room_def)
    have "size_t (bytes_written s + length buf) < bytes_written s \<or> max_size s < size_t (bytes_written s + length buf)"
      using f o assms(2) size_t_add_overflow [of "bytes_written s" "length buf"]
      by (cases "bytes_written s + length buf \<le> SIZE_MAX") auto
    then show ?thesis using False f o by (simp add: pb_write_def is_sizing_def Let_def out_error_def)
  qed
qed

lemma pb_write_sizing:
  "out_sink s = Sizing \<Longrightarrow>
    pb_write s buf = (True, s\<lparr> bytes_written := size_t (bytes_written s + length buf) \<rparr>)"
  by (simp add: pb_write_def is_sizing_def Let_def)

lemma pb_write_True:
  assumes "out_ok s" "length buf \<le> SIZE_MAX" "pb_write s buf = (True, s')"
  shows "out_ok s'" "out_bytes s' = out_bytes s @ buf" "max_size s' = max_size s"
    "length buf \<le> out_room s" "out_room s' = out_room s - length buf"
proof -
  note o = out_ok_buffer [OF assms(1)]
  show r: "length buf \<le> out_room s"
    using assms(3) unfolding pb_write_ok [OF assms(1,2)] by (simp add: out_error_def split: if_split_asm)
  then have s': "s' = s\<lparr> out_sink := OutBuffer (out_bytes s @ buf), bytes_written := bytes_written s + length buf \<rparr>"
    using assms(3) unfolding pb_write_ok [OF assms(1,2)] by simp
  show "out_bytes s' = out_bytes s @ buf" "max_size s' = max_size s" "out_room s' = out_room s - length buf"
    unfolding s' by (simp_all add: out_bytes_def out_room_def)
  show "out_ok s'" using r o unfolding s' by (auto simp: out_ok_def out_room_def)
qed

interpretation out_stream: bounded_sink "\<lambda>s b. pb_write s [b]" out_bytes out_ok out_room
proof (unfold_locales, goal_cases)
  case (1 s b s')
  then show ?case using pb_write_True [of s "[b]" s'] by (simp add: SIZE_MAX_def)
next
  case (2 s b s')
  then show ?case using pb_write_True [of s "[b]" s'] by (simp add: SIZE_MAX_def)
next
  case (3 s b)
  then show ?case using pb_write_ok [of s "[b]"] by (simp add: SIZE_MAX_def)
next
  case (4 s b s')
  then show ?case using pb_write_True [of s "[b]" s'] by (simp add: SIZE_MAX_def)
qed

section \<open>Decoders on byte strings\<close>

definition on_buffer :: "(unit pb_istream \<Rightarrow> 'a option \<times> unit pb_istream) \<Rightarrow> u8 list \<Rightarrow> 'a option \<times> u8 list" where
  "on_buffer dec bs =
     (case dec (pb_istream_from_buffer bs (length bs)) of
        (r, s) \<Rightarrow> (r, case in_state s of InBuffer cs \<Rightarrow> take (bytes_left s) cs | _ \<Rightarrow> []))"

lemma on_bufferI:
  "dec (ibuf bs (length bs) None) = (r, ibuf cs (length cs) e) \<Longrightarrow> on_buffer dec bs = (r, cs)"
  by (simp add: on_buffer_def ibuf_from_buffer)

interpretation varint_codec: codec "\<lambda>v. varint_bytes (unat v)" "on_buffer pb_decode_varint" "\<lambda>_. True"
  by unfold_locales (rule on_bufferI, simp add: pb_decode_varint_bytes)

interpretation varint32_codec: codec "\<lambda>v. varint_bytes (unat v)" "on_buffer pb_decode_varint32" "\<lambda>_. True"
  by unfold_locales (rule on_bufferI, simp add: pb_decode_varint32_bytes)

interpretation svarint_codec: codec zigzag_bytes "on_buffer pb_decode_svarint" "\<lambda>_. True"
  by unfold_locales (rule on_bufferI, simp add: pb_decode_svarint_bytes)

interpretation fixed32_codec: codec fixed32_bytes "on_buffer pb_decode_fixed32" "\<lambda>_. True"
  by unfold_locales (rule on_bufferI, simp add: pb_decode_fixed_bytes)

interpretation fixed64_codec: codec fixed64_bytes "on_buffer pb_decode_fixed64" "\<lambda>_. True"
  by unfold_locales (rule on_bufferI, simp add: pb_decode_fixed_bytes)

section \<open>Sequences of wire items\<close>

text \<open>What a field encoder can emit, and the calls that emit and read it.\<close>

datatype wire_item =
  WVarint u64 | WSvarint u64 | WFixed32 u32 | WFixed64 u64 | WTag nat u32 | WString "u8 list"

fun encode_item :: "'o pb_ostream \<Rightarrow> wire_item \<Rightarrow> bool \<times> 'o pb_ostream" where
  "encode_item s (WVarint v) = pb_encode_varint s v"
| "encode_item s (WSvarint v) = pb_encode_svarint s v"
| "encode_item s (WFixed32 v) = pb_encode_fixed32 s v"
| "encode_item s (WFixed64 v) = pb_encode_fixed64 s v"
| "encode_item s (WTag wt n) = pb_encode_tag s wt n"
| "encode_item s (WString body) = pb_encode_string s body (length body)"

fun encode_items :: "'o pb_ostream \<Rightarrow> wire_item list \<Rightarrow> bool \<times> 'o pb_ostream" where
  "encode_items s [] = (True, s)"
| "encode_items s (i # is) = then_do (encode_item s i) (\<lambda>s. encode_items s is)"

text \<open>Reading the item that a pattern of the same shape describes.\<close>

fun decode_item :: "'s pb_istream \<Rightarrow> wire_item \<Rightarrow> wire_item option \<times> 's pb_istream" where
  "decode_item s (WVarint _) = ok_do (pb_decode_varint s) (\<lambda>v s. (Some (WVarint v), s))"
| "decode_item s (WSvarint _) = ok_do (pb_decode_svarint s) (\<lambda>v s. (Some (WSvarint v), s))"
| "decode_item s (WFixed32 _) = ok_do (pb_decode_fixed32 s) (\<lambda>v s. (Some (WFixed32 v), s))"
| "decode_item s (WFixed64 _) = ok_do (pb_decode_fixed64 s) (\<lambda>v s. (Some (WFixed64 v), s))"
| "decode_item s (WTag _ _) =
     (case pb_decode_tag s of
        (None, s, _) \<Rightarrow> (None, s)
      | (Some (wt, n), s, _) \<Rightarrow> (Some (WTag wt (of_nat n)), s))"
| "decode_item s (WString _) =
     ok_do (pb_make_string_substream s) (\<lambda>sub s.
       ok_do (case pb_read sub (bytes_left sub) of (r, sub) \<Rightarrow> (map_option (\<lambda>bs. (bs, sub)) r, s)) (\<lambda>(bs, sub) s.
         case pb_close_string_substream s sub of
           (True, s) \<Rightarrow> (Some (WString bs), s)
         | (False, s) \<Rightarrow> (None, s)))"

fun decode_items :: "'s pb_istream \<Rightarrow> wire_item list \<Rightarrow> wire_item list option \<times> 's pb_istream" where
  "decode_items s [] = (Some [], s)"
| "decode_items s (i # is) =
     ok_do (decode_item s i) (\<lambda>x s. ok_do (decode_items s is) (\<lambda>xs s. (Some (x # xs), s)))"

fun item_valid :: "wire_item \<Rightarrow> bool" where
  "item_valid (WTag wt n) \<longleftrightarrow> wt < 8 \<and> unat n < 2 ^ 29 \<and> (n \<noteq> 0 \<or> wt \<noteq> 0)"
| "item_valid (WString body) \<longleftrightarrow> length body < 2 ^ 32"
| "item_valid _ \<longleftrightarrow> True"

fun item_bytes :: "wire_item \<Rightarrow> u8 list" where
  "item_bytes (WVarint v) = varint_bytes (unat v)"
| "item_bytes (WSvarint v) = zigzag_bytes v"
| "item_bytes (WFixed32 v) = fixed32_bytes v"
| "item_bytes (WFixed64 v) = fixed64_bytes v"
| "item_bytes (WTag wt n) = varint_bytes (unat n * 8 + wt)"
| "item_bytes (WString body) = string_bytes body"

lemma unat_ucast_u32_u64: "unat (ucast n :: u64) = unat n" for n :: u32
  using unsigned_less [of n, where ?'a = nat] by (simp add: unsigned_ucast_eq take_bit_eq_mod)

lemma tag_value:
  "wt < 8 \<Longrightarrow> unat (push_bit 3 (ucast n) OR of_nat wt :: u64) = unat n * 8 + wt" for n :: u32
  using unat_push_or [of 3 "ucast n :: u64" "of_nat wt"] unsigned_less [of n, where ?'a = nat]
  by (simp add: unat_ucast_u32_u64 unat_of_nat)

lemma pb_encode_tag_bytes: "wt < 8 \<Longrightarrow> pb_encode_tag s wt n = pb_write s (varint_bytes (unat n * 8 + wt))"
  by (simp add: pb_encode_tag_def pb_encode_varint_bytes tag_value)

lemma pb_encode_string_bytes:
  "length body < 2 ^ 32 \<Longrightarrow> pb_encode_string s body (length body) =
    then_do (pb_write s (varint_bytes (length body))) (\<lambda>s. pb_write s body)"
  by (simp add: pb_encode_string_def pb_encode_varint_bytes unat_of_nat)

text \<open>All items but strings are one write.\<close>

lemma encode_item_write:
  "item_valid i \<Longrightarrow> (\<nexists>body. i = WString body) \<Longrightarrow> encode_item s i = pb_write s (item_bytes i)"
  by (cases i) (simp_all add: pb_encode_varint_bytes pb_encode_svarint_bytes pb_encode_fixed_bytes pb_encode_tag_bytes)

lemma item_bytes_length: "item_valid i \<Longrightarrow> length (item_bytes i) \<le> 2 ^ 33"
proof (cases i)
  case (WSvarint v)
  have "length (zigzag_bytes v) \<le> 10" unfolding zigzag_bytes_def by (rule length_varint_bytes_64)
  then show ?thesis using WSvarint by simp
next
  case (WTag wt n)
  assume "item_valid i"
  then have "unat n * 8 + wt < 2 ^ (7 * Suc 4)" using WTag by simp
  from length_varint_bytes [OF this] show ?thesis using WTag by simp
next
  case (WString body)
  assume "item_valid i"
  then have l: "length body < 2 ^ 32" using WString by simp
  then have "length body < 2 ^ (7 * Suc 4)" by simp
  from length_varint_bytes [OF this] l show ?thesis using WString by (simp add: string_bytes_def)
next
  case (WVarint v)
  then show ?thesis using length_varint_bytes_64 [of v] by simp
qed simp_all

lemma encode_item_sizing:
  assumes "item_valid i" "out_sink s = Sizing"
  shows "encode_item s i = (True, s\<lparr> bytes_written := size_t (bytes_written s + length (item_bytes i)) \<rparr>)"
proof (cases "\<exists>body. i = WString body")
  case True
  then obtain body where i: "i = WString body" by blast
  have m: "size_t (size_t a + b) = size_t (a + b)" for a b by (simp add: size_t_def mod_simps)
  show ?thesis using assms
    by (simp add: i pb_encode_string_bytes pb_write_sizing string_bytes_def m add.assoc)
next
  case False
  then show ?thesis using assms by (simp add: encode_item_write pb_write_sizing)
qed

lemma encode_item_ok:
  assumes i: "item_valid i" and s: "out_ok s"
  shows "\<exists>s'. encode_item s i = (length (item_bytes i) \<le> out_room s, s') \<and> out_ok s' \<and> max_size s' = max_size s \<and>
    (length (item_bytes i) \<le> out_room s \<longrightarrow>
       out_bytes s' = out_bytes s @ item_bytes i \<and> out_room s' = out_room s - length (item_bytes i))"
proof -
  have error: "out_ok (snd (out_error msg t)) = out_ok t" "max_size (snd (out_error msg t)) = max_size t" for msg and t :: "'a pb_ostream"
    by (simp_all add: out_error_def out_ok_def split: out_sink.split)
  have le: "length (item_bytes i) \<le> SIZE_MAX" using item_bytes_length [OF i] by (simp add: SIZE_MAX_def)
  have single: ?thesis if "encode_item s i = pb_write s (item_bytes i)"
  proof (cases "length (item_bytes i) \<le> out_room s")
    case True
    then obtain s' where "pb_write s (item_bytes i) = (True, s')" using pb_write_ok [OF s le] by simp
    with pb_write_True [OF s le this] True show ?thesis by (intro exI [of _ s']) (simp_all add: \<open>encode_item s i = _\<close>)
  next
    case False
    then show ?thesis using pb_write_ok [OF s le] \<open>encode_item s i = _\<close> error [of "''stream full''" s] s
      by (intro exI [of _ "snd (out_error ''stream full'' s)"]) (simp_all add: out_error_def)
  qed
  show ?thesis
  proof (cases "\<exists>body. i = WString body")
    case False
    then show ?thesis using single encode_item_write [OF i] by blast
  next
    case True
    then obtain body where b: "i = WString body" by blast
    let ?h = "varint_bytes (length body)"
    have l: "length ?h \<le> SIZE_MAX" "length body \<le> SIZE_MAX" using le by (simp_all add: b string_bytes_def)
    have e: "encode_item s i = then_do (pb_write s ?h) (\<lambda>s. pb_write s body)"
      using i by (simp add: b pb_encode_string_bytes)
    show ?thesis
    proof (cases "length ?h \<le> out_room s")
      case False
      then show ?thesis using e pb_write_ok [OF s l(1)] error [of "''stream full''" s] s
        by (intro exI [of _ "snd (out_error ''stream full'' s)"]) (simp_all add: b string_bytes_def out_error_def)
    next
      case True
      then obtain t where t: "pb_write s ?h = (True, t)" using pb_write_ok [OF s l(1)] by simp
      note T = pb_write_True [OF s l(1) t]
      show ?thesis
      proof (cases "length body \<le> out_room t")
        case True
        then obtain u where u: "pb_write t body = (True, u)" using pb_write_ok [OF T(1) l(2)] by simp
        note U = pb_write_True [OF T(1) l(2) u]
        show ?thesis using e t u T U by (intro exI [of _ u]) (simp_all add: b string_bytes_def)
      next
        case False
        then have "\<not> length ?h + length body \<le> out_room s" using T(4,5) by linarith
        then show ?thesis using e t T False pb_write_ok [OF T(1) l(2)] error [of "''stream full''" t]
          by (intro exI [of _ "snd (out_error ''stream full'' t)"]) (simp_all add: b string_bytes_def out_error_def)
      qed
    qed
  qed
qed


definition items_bytes :: "wire_item list \<Rightarrow> u8 list" where
  "items_bytes is = concat (map item_bytes is)"

lemma items_bytes_simps [simp]:
  "items_bytes [] = []" "items_bytes (i # is) = item_bytes i @ items_bytes is"
  by (simp_all add: items_bytes_def)

lemma encode_items_ok:
  "list_all item_valid is \<Longrightarrow> out_ok s \<Longrightarrow>
    \<exists>s'. encode_items s is = (length (items_bytes is) \<le> out_room s, s') \<and> out_ok s' \<and> max_size s' = max_size s \<and>
      (length (items_bytes is) \<le> out_room s \<longrightarrow> out_bytes s' = out_bytes s @ items_bytes is)"
proof (induction "is" arbitrary: s)
  case Nil
  then show ?case by simp
next
  case (Cons i "is")
  then have i: "item_valid i" by simp
  obtain t where t: "encode_item s i = (length (item_bytes i) \<le> out_room s, t)" "out_ok t" "max_size t = max_size s"
    "length (item_bytes i) \<le> out_room s \<longrightarrow> out_bytes t = out_bytes s @ item_bytes i \<and> out_room t = out_room s - length (item_bytes i)"
    using encode_item_ok [OF i Cons.prems(2)] by blast
  show ?case
  proof (cases "length (item_bytes i) \<le> out_room s")
    case False
    then show ?thesis using t by simp
  next
    case True
    obtain u where u: "encode_items t is = (length (items_bytes is) \<le> out_room t, u)" "out_ok u" "max_size u = max_size t"
      "length (items_bytes is) \<le> out_room t \<longrightarrow> out_bytes u = out_bytes t @ items_bytes is"
      using Cons.IH [OF _ t(2)] Cons.prems(1) by auto
    have "length (items_bytes is) \<le> out_room t \<longleftrightarrow> length (items_bytes (i # is)) \<le> out_room s"
      using mp [OF t(4) True] True by auto
    then show ?thesis using t(1,3) mp [OF t(4) True] u True by simp
  qed
qed

lemma encode_items_sizing:
  "list_all item_valid is \<Longrightarrow> out_sink s = Sizing \<Longrightarrow> bytes_written s \<le> SIZE_MAX \<Longrightarrow>
    encode_items s is = (True, s\<lparr> bytes_written := size_t (bytes_written s + length (items_bytes is)) \<rparr>)"
proof (induction "is" arbitrary: s)
  case Nil
  then show ?case by simp
next
  case (Cons i "is")
  have m: "size_t (size_t a + b) = size_t (a + b)" for a b by (simp add: size_t_def mod_simps)
  show ?case using Cons encode_item_sizing [of i s] by (simp add: size_t_le m add.assoc)
qed

lemma pb_read_all: "pb_read (ibuf (xs @ rest) (length xs) e) (length xs) = (Some xs, ibuf rest 0 e)"
  using pb_read_ibuf [of xs "length xs" rest 0 e] by simp

lemma pb_close_empty: "pb_close_string_substream (ibuf bs n e) (ibuf rest 0 e') = (True, ibuf rest n e')"
  using pb_close_string_substream_bytes [of "[]" 0 bs n e rest e'] by simp

lemma decode_item_bytes:
  "item_valid i \<Longrightarrow>
    decode_item (ibuf (item_bytes i @ rest) (length (item_bytes i) + n) e) i = (Some i, ibuf rest n e)"
proof (cases i)
  case (WTag wt k)
  assume v: "item_valid i"
  define t :: u32 where "t = of_nat (unat k * 8 + wt)"
  have lt: "unat k * 8 + wt < 2 ^ 32" using v WTag by simp
  then have t: "unat t = unat k * 8 + wt" unfolding t_def by (simp only: unat_of_nat) simp
  have "t \<noteq> 0" using t v WTag by (auto simp: unat_0_iff)
  moreover have "unat t mod 8 = wt" "unat t div 8 = unat k" using v WTag by (simp_all add: t)
  ultimately show ?thesis using pb_decode_tag_bytes [of t rest n e, where ?'a = 'a] WTag by (simp add: t)
next
  case (WString body)
  assume "item_valid i"
  then have "length body < 2 ^ 32" using WString by simp
  then show ?thesis
    using WString by (simp add: pb_make_string_substream_bytes pb_read_all pb_close_empty)
qed (simp_all add: pb_decode_varint_bytes pb_decode_svarint_bytes pb_decode_fixed_bytes)

lemma decode_items_bytes:
  "list_all item_valid is \<Longrightarrow>
    decode_items (ibuf (items_bytes is @ rest) (length (items_bytes is) + n) e) is = (Some is, ibuf rest n e)"
proof (induction "is")
  case Nil
  then show ?case by simp
next
  case (Cons i "is")
  then show ?case using decode_item_bytes [of i "items_bytes is @ rest" "length (items_bytes is) + n" e, where ?'a = 'a]
    by (simp add: add.assoc)
qed

section \<open>Properties\<close>

text \<open>
  C14. Every sequence of varints, zigzag integers, fixed-width integers, tags and strings that fits
  the buffer is written completely, and a buffer stream over the result reads the same sequence.
\<close>

theorem wire_roundtrip:
  assumes "list_all item_valid is" "length (items_bytes is) \<le> bufsize" "bufsize \<le> SIZE_MAX"
  shows "\<exists>s. encode_items (pb_ostream_from_buffer bufsize :: 'o pb_ostream) is = (True, s) \<and>
    out_sink s = OutBuffer (items_bytes is) \<and> bytes_written s = length (items_bytes is) \<and>
    decode_items (pb_istream_from_buffer (out_bytes s) (bytes_written s) :: 's pb_istream) is =
      (Some is, pb_istream_from_buffer [] 0)"
proof -
  let ?o = "pb_ostream_from_buffer bufsize :: 'o pb_ostream"
  have s: "out_ok ?o" "out_room ?o = bufsize" "out_bytes ?o = []"
    using assms(3) by (simp_all add: pb_ostream_from_buffer_def out_ok_def out_room_def out_bytes_def)
  from encode_items_ok [OF assms(1) s(1)] s assms(2) obtain t where
    t: "encode_items ?o is = (True, t)" "out_ok t" "out_bytes t = items_bytes is"
    by auto
  have "decode_items (ibuf (items_bytes is) (length (items_bytes is)) None :: 's pb_istream) is = (Some is, ibuf [] 0 None)"
    using decode_items_bytes [OF assms(1), of "[]" 0 None] by simp
  then show ?thesis using out_ok_buffer [OF t(2)] t by (simp add: ibuf_from_buffer)
qed

theorem wire_roundtrip_witness:
  "\<exists>s. encode_items (pb_ostream_from_buffer 20) [WTag 2 1, WString [0x61], WSvarint (- 1)] = (True, s) \<and>
    decode_items (pb_istream_from_buffer (out_bytes s) (bytes_written s)) [WTag 2 1, WString [0x61], WSvarint (- 1)] =
      (Some [WTag 2 1, WString [0x61], WSvarint (- 1)], pb_istream_from_buffer [] 0)"
proof -
  have "sint (- 1 :: u64) < 0" by simp
  then have z: "zigzag_bytes (- 1) = [1]" by (simp add: zigzag_bytes_def varint_bytes_short)
  have "length (items_bytes [WTag 2 1, WString [0x61], WSvarint (- 1)]) \<le> 20"
    by (simp add: z string_bytes_def varint_bytes_short)
  from wire_roundtrip [OF _ this] show ?thesis by (auto simp: SIZE_MAX_def)
qed

text \<open>
  C19. A sizing stream predicts a buffer stream: the same calls count exactly the bytes that the
  buffer receives, and the calls on the buffer succeed exactly if that count fits; a buffer stream
  never holds more than \<open>max_size\<close> bytes, failed calls included.
\<close>

theorem sizing_predicts:
  assumes "list_all item_valid is" "out_ok s" "length (items_bytes is) \<le> SIZE_MAX"
    and "encode_items (PB_OSTREAM_SIZING :: 'p pb_ostream) is = (ok, sized)" "encode_items s is = (ok', s')"
  shows "ok \<and> (ok' \<longleftrightarrow> bytes_written s + bytes_written sized \<le> max_size s) \<and>
    (ok' \<longrightarrow> bytes_written s' = bytes_written s + bytes_written sized) \<and>
    length (out_bytes s') \<le> max_size s"
proof -
  have z: "encode_items (PB_OSTREAM_SIZING :: 'p pb_ostream) is =
      (True, PB_OSTREAM_SIZING\<lparr> bytes_written := size_t (length (items_bytes is)) \<rparr>)"
    using encode_items_sizing [OF assms(1), of PB_OSTREAM_SIZING] by (simp add: PB_OSTREAM_SIZING_def)
  then have n: "ok" "bytes_written sized = length (items_bytes is)" using assms(3,4) by auto
  obtain t where t: "encode_items s is = (length (items_bytes is) \<le> out_room s, t)" "out_ok t" "max_size t = max_size s"
    "length (items_bytes is) \<le> out_room s \<longrightarrow> out_bytes t = out_bytes s @ items_bytes is"
    using encode_items_ok [OF assms(1,2)] by blast
  then have s': "s' = t" "ok' \<longleftrightarrow> length (items_bytes is) \<le> out_room s" using assms(5) by auto
  show ?thesis
    using n t s' out_ok_buffer [OF assms(2)] out_ok_buffer [OF t(2)] by (auto simp: out_room_def)
qed

theorem sizing_predicts_witness:
  "fst (encode_items (pb_ostream_from_buffer 1 :: unit pb_ostream) [WFixed32 7]) \<longleftrightarrow> 0 + 4 \<le> (1 :: nat)"
proof -
  have ok: "out_ok (pb_ostream_from_buffer 1 :: unit pb_ostream)"
    by (simp add: pb_ostream_from_buffer_def out_ok_def SIZE_MAX_def)
  have l: "length (items_bytes [WFixed32 7]) \<le> SIZE_MAX" by (simp add: SIZE_MAX_def)
  have z: "encode_items PB_OSTREAM_SIZING [WFixed32 7] = (True, PB_OSTREAM_SIZING\<lparr> bytes_written := 4 \<rparr> :: unit pb_ostream)"
    by (simp add: pb_encode_fixed_bytes pb_write_sizing PB_OSTREAM_SIZING_def SIZE_MAX_def)
  obtain r t where e: "encode_items (pb_ostream_from_buffer 1 :: unit pb_ostream) [WFixed32 7] = (r, t)" by fastforce
  from sizing_predicts [OF _ ok l z e] show ?thesis
    unfolding e by (simp add: pb_ostream_from_buffer_def PB_OSTREAM_SIZING_def)
qed

text \<open>
  C20. Reading never leaves the stream: after any operation on a buffer stream, successful or not,
  the position has moved forward by some number of bytes that, with what is left, is within what
  was left before. A substream has the same property and is cut off from the rest of its parent;
  closing it puts the parent after it.
\<close>

theorem readers_stay_inside:
  assumes "in_state s = InBuffer bs" "bytes_left s \<le> length bs"
    and "s' \<in> {snd (pb_read s n), snd (pb_read_null s n), snd (pb_decode_varint s), snd (pb_decode_varint32 s),
      snd (pb_decode_svarint s), snd (pb_decode_fixed32 s), snd (pb_decode_fixed64 s),
      fst (snd (pb_decode_tag s)), snd (pb_skip_field s wt), snd (read_raw_value s wt n)}"
  shows "\<exists>c. in_state s' = InBuffer (drop c bs) \<and> c + bytes_left s' \<le> bytes_left s \<and>
    bytes_left s' \<le> length (drop c bs)"
proof -
  have "in_step s s'" using assms(3) by auto
  then obtain c where "in_state s' = InBuffer (drop c bs)" "c + bytes_left s' \<le> bytes_left s"
    using assms(1) by (auto simp: in_step_def)
  then show ?thesis using assms(2) by (intro exI [of _ c]) simp
qed

theorem readers_stay_inside_witness:
  "\<exists>c. in_state (snd (pb_decode_varint (pb_istream_from_buffer [0x80, 1, 2] 2 :: unit pb_istream))) =
      InBuffer (drop c [0x80, 1, 2]) \<and> c \<le> 2"
proof -
  have "in_state (pb_istream_from_buffer [0x80, 1, 2] 2 :: unit pb_istream) = InBuffer [0x80, 1, 2]"
    "bytes_left (pb_istream_from_buffer [0x80, 1, 2] 2 :: unit pb_istream) = 2"
    by (simp_all add: pb_istream_from_buffer_def)
  then show ?thesis
    using readers_stay_inside [of "pb_istream_from_buffer [0x80, 1, 2] 2 :: unit pb_istream" "[0x80, 1, 2]"
        "snd (pb_decode_varint (pb_istream_from_buffer [0x80, 1, 2] 2 :: unit pb_istream))"]
    by fastforce
qed

text \<open>
  A string substream ends where its length says: whatever its reader does with it, it and the
  rest of the parent were both part of the parent, closing it leaves the parent after the string,
  and only bytes of the string are skipped.
\<close>

lemma substream_isolated:
  assumes "pb_make_string_substream s = (Some sub, s')" "in_step sub sub'"
    and "pb_close_string_substream s' sub' = (ok, s'')" "in_state s = InBuffer bs"
  shows "bytes_left sub + bytes_left s' \<le> bytes_left s \<and> in_step s s'' \<and>
    (ok \<longrightarrow> bytes_left s'' = bytes_left s')"
  using substream_step [OF assms] by simp

lemma substream_isolated_witness:
  "in_step (pb_istream_from_buffer (string_bytes [7, 8] @ [9]) (length (string_bytes [7, 8]) + 1) :: unit pb_istream)
    (pb_istream_from_buffer [9] 1)"
proof -
  have m: "pb_make_string_substream (ibuf (string_bytes [7, 8] @ [9]) (length (string_bytes [7, 8]) + 1) None :: unit pb_istream) =
      (Some (ibuf ([7, 8] @ [9]) (length [7 :: u8, 8]) None), ibuf ([7, 8] @ [9]) 1 None)"
    by (rule pb_make_string_substream_bytes) simp
  have r: "in_step (ibuf ([7, 8] @ [9]) (length [7 :: u8, 8]) None :: unit pb_istream) (ibuf ([8] @ [9]) 1 None)"
    by (rule in_stepI [of _ _ 1]) simp
  have c: "pb_close_string_substream (ibuf ([7, 8] @ [9]) 1 None) (ibuf ([8] @ [9]) 1 None :: unit pb_istream) = (True, ibuf [9] 1 None)"
    by (rule pb_close_string_substream_bytes) simp
  from substream_isolated [OF m r c] show ?thesis by (simp add: ibuf_from_buffer)
qed

text \<open>What can follow a tag with the given wire type.\<close>

fun payload_of :: "nat \<Rightarrow> wire_item \<Rightarrow> bool" where
  "payload_of wt (WVarint _) \<longleftrightarrow> wt = PB_WT_VARINT"
| "payload_of wt (WSvarint _) \<longleftrightarrow> wt = PB_WT_VARINT"
| "payload_of wt (WFixed64 _) \<longleftrightarrow> wt = PB_WT_64BIT"
| "payload_of wt (WString _) \<longleftrightarrow> wt = PB_WT_STRING"
| "payload_of wt (WFixed32 _) \<longleftrightarrow> wt = PB_WT_32BIT"
| "payload_of wt (WTag _ _) \<longleftrightarrow> False"

lemma pb_skip_field_bytes:
  "item_valid i \<Longrightarrow> payload_of wt i \<Longrightarrow>
    pb_skip_field (ibuf (item_bytes i @ rest) (length (item_bytes i) + n) e) wt = (Some (), ibuf rest n e)"
  by (cases i) (simp_all add: pb_skip_field_def wire_types pb_skip_varint_bytes zigzag_bytes_def
      pb_read_null_ibuf pb_skip_string_bytes)

text \<open>
  C21. A field that the decoder does not know is skipped exactly: after its tag has been read,
  \<open>pb_skip_field\<close> leaves the stream at the next field, for every wire type that is written.
\<close>

theorem skip_unknown_field:
  assumes "item_valid (WTag wt num)" "item_valid i" "payload_of wt i"
  shows "\<exists>t. pb_decode_tag (pb_istream_from_buffer (items_bytes [WTag wt num, i] @ rest)
        (length (items_bytes [WTag wt num, i] @ rest)) :: 's pb_istream) = (Some (wt, unat num), t, False) \<and>
      pb_skip_field t wt = (Some (), pb_istream_from_buffer rest (length rest))"
proof -
  define tg :: u32 where "tg = of_nat (unat num * 8 + wt)"
  have lt: "unat num * 8 + wt < 2 ^ 32" using assms(1) by simp
  then have t: "unat tg = unat num * 8 + wt" unfolding tg_def by (simp only: unat_of_nat) simp
  have nz: "tg \<noteq> 0" using t assms(1) by (auto simp: unat_0_iff)
  have m: "unat tg mod 8 = wt" "unat tg div 8 = unat num" using assms(1) by (simp_all add: t)
  have "pb_decode_tag (ibuf (varint_bytes (unat tg) @ item_bytes i @ rest)
      (length (varint_bytes (unat tg)) + (length (item_bytes i) + length rest)) None :: 's pb_istream) =
    (Some (wt, unat num), ibuf (item_bytes i @ rest) (length (item_bytes i) + length rest) None, False)"
    unfolding pb_decode_tag_bytes [OF nz] m ..
  then show ?thesis using pb_skip_field_bytes [OF assms(2,3)]
    by (simp add: ibuf_from_buffer t)
qed

theorem skip_unknown_field_witness:
  "\<exists>t. pb_decode_tag (pb_istream_from_buffer [0x12, 2, 7, 8, 9] (length [0x12 :: u8, 2, 7, 8, 9]) :: unit pb_istream) = (Some (2, 2), t, False) \<and>
    pb_skip_field t 2 = (Some (), pb_istream_from_buffer [9] 1)"
  using skip_unknown_field [of 2 2 "WString [7, 8]" "[9]", where ?'s = unit]
  by (simp add: string_bytes_def varint_bytes_short wire_types)

lemma in_error_ibuf:
  "in_error msg (ibuf bs n e) = (None, ibuf bs n (case e of Some m \<Rightarrow> Some m | None \<Rightarrow> Some msg))"
  by (simp add: in_error_def ibuf_def)

lemma varint_loop_bound:
  "unat pos = 7 * k \<Longrightarrow> k \<le> 10 \<Longrightarrow> length bs \<ge> n \<Longrightarrow>
    \<exists>c r e'. varint_loop (ibuf bs n e :: 's pb_istream) acc pos = (r, ibuf (drop c bs) (n - c) e') \<and> c \<le> 10 - k \<and> c \<le> n"
proof (induction "10 - k" arbitrary: k pos acc bs n)
  case 0
  then have "64 \<le> pos" by (simp add: word_le_nat_alt)
  then show ?case by (intro exI [of _ 0]) (auto simp: varint_loop.simps [of _ acc pos] in_error_ibuf)
next
  case (Suc d)
  then have k: "k \<le> 9" by simp
  then have p: "\<not> 64 \<le> pos" using Suc.prems(1) by (simp add: word_le_nat_alt)
  have u: "unat (pos + 7) = 7 * Suc k"
    using Suc.prems(1) k by (subst unat_plus_simple [THEN iffD1]) (simp_all add: word_le_nat_alt unat_word_ariths)
  show ?case
  proof (cases n)
    case 0
    then show ?thesis using p
      by (intro exI [of _ 0]) (auto simp: varint_loop.simps [of _ acc pos] pb_readbyte_ibuf in_error_ibuf)
  next
    case (Suc m)
    then obtain b cs where bs: "bs = b # cs" "m \<le> length cs" using Suc.prems(3) by (cases bs) auto
    have e: "varint_loop (ibuf bs n e :: 's pb_istream) acc pos =
       (if b AND 0x80 \<noteq> 0 then varint_loop (ibuf cs m e :: 's pb_istream) (acc OR push_bit (unat pos) (ucast (b AND 0x7f))) (pos + 7)
        else (Some (acc OR push_bit (unat pos) (ucast (b AND 0x7f))), ibuf cs m e :: 's pb_istream))"
      using p unfolding bs Suc by (subst varint_loop.simps) (simp add: pb_readbyte_ibuf Let_def)
    have k': "Suc k \<le> 10" using k by simp
    have d: "d = 10 - Suc k" using Suc.hyps(2) by simp
    obtain c r e' where "varint_loop (ibuf cs m e :: 's pb_istream) (acc OR push_bit (unat pos) (ucast (b AND 0x7f))) (pos + 7) =
        (r, ibuf (drop c cs) (m - c) e')" "c \<le> 10 - Suc k" "c \<le> m"
      using Suc.hyps(1) [OF d u k' bs(2), of "acc OR push_bit (unat pos) (ucast (b AND 0x7f))"] by blast
    then show ?thesis using e k Suc bs(1)
      by (cases "b AND 0x80 = 0")
        (simp, intro exI [of _ 1], force, simp, intro exI [of _ "Suc c"], force)
  qed
qed


text \<open>
  \<open>pb_decode_varint\<close> always ends after at most ten bytes, whatever the stream holds.
\<close>

lemma varint_ten_bytes:
  assumes "n \<le> length bs"
  shows "\<exists>c r e. pb_decode_varint (pb_istream_from_buffer bs n :: 's pb_istream) =
    (r, \<lparr> in_state = InBuffer (drop c bs), bytes_left = n - c, in_errmsg = e \<rparr>) \<and> c \<le> 10 \<and> c \<le> n"
proof -
  obtain c r e where "varint_loop (ibuf bs n None :: 's pb_istream) 0 0 = (r, ibuf (drop c bs) (n - c) e)" "c \<le> 10" "c \<le> n"
    using varint_loop_bound [of 0 0 n bs None 0] assms by fastforce
  then show ?thesis unfolding ibuf_from_buffer pb_decode_varint_def by (auto simp: ibuf_def)
qed

lemma varint_ten_bytes_witness:
  "\<exists>c r e. pb_decode_varint (pb_istream_from_buffer (replicate 20 0x80) 20 :: unit pb_istream) =
    (r, \<lparr> in_state = InBuffer (drop c (replicate 20 0x80)), bytes_left = 20 - c, in_errmsg = e \<rparr>) \<and> c \<le> 10 \<and> c \<le> 20"
  by (rule varint_ten_bytes) simp






end
