(* ===== verification/PbField.thy ===== *)
theory PbField
  imports PbWire
begin

text \<open>
  The field encoders and decoders of nanopb for everything but submessages: what the generated
  message tables refer to through \<open>PB_ENCODERS\<close> and \<open>PB_DECODERS\<close>. The memory at \<open>src\<close> and \<open>dest\<close> is a
  list of bytes, little-endian for integers, as on the platform; a field with \<open>PB_ATYPE_POINTER\<close> has
  the block its pointer refers to, or \<open>None\<close> for a null pointer. Sizes have 32 bits (\<open>PB_FIELD_32BIT\<close>).
\<close>

section \<open>Field descriptors\<close>

record 'p pb_field =
  tag :: u32
  ftype :: u8
  data_offset :: nat
  size_offset :: int
  data_size :: nat
  array_size :: nat
  ptr :: 'p

definition PB_LTYPE :: "u8 \<Rightarrow> u8" where "PB_LTYPE x = x AND 0x0f"

definition PB_HTYPE :: "u8 \<Rightarrow> u8" where "PB_HTYPE x = x AND 0x30"

definition PB_ATYPE :: "u8 \<Rightarrow> u8" where "PB_ATYPE x = x AND 0xc0"

abbreviation (input) PB_LTYPE_BOOL :: u8 where "PB_LTYPE_BOOL \<equiv> 0x00"
abbreviation (input) PB_LTYPE_VARINT :: u8 where "PB_LTYPE_VARINT \<equiv> 0x01"
abbreviation (input) PB_LTYPE_UVARINT :: u8 where "PB_LTYPE_UVARINT \<equiv> 0x02"
abbreviation (input) PB_LTYPE_SVARINT :: u8 where "PB_LTYPE_SVARINT \<equiv> 0x03"
abbreviation (input) PB_LTYPE_FIXED32 :: u8 where "PB_LTYPE_FIXED32 \<equiv> 0x04"
abbreviation (input) PB_LTYPE_FIXED64 :: u8 where "PB_LTYPE_FIXED64 \<equiv> 0x05"
abbreviation (input) PB_LTYPE_BYTES :: u8 where "PB_LTYPE_BYTES \<equiv> 0x06"
abbreviation (input) PB_LTYPE_STRING :: u8 where "PB_LTYPE_STRING \<equiv> 0x07"
abbreviation (input) PB_LTYPE_SUBMESSAGE :: u8 where "PB_LTYPE_SUBMESSAGE \<equiv> 0x08"
abbreviation (input) PB_LTYPE_EXTENSION :: u8 where "PB_LTYPE_EXTENSION \<equiv> 0x09"
abbreviation (input) PB_LTYPE_FIXED_LENGTH_BYTES :: u8 where "PB_LTYPE_FIXED_LENGTH_BYTES \<equiv> 0x0a"
abbreviation (input) PB_HTYPE_REQUIRED :: u8 where "PB_HTYPE_REQUIRED \<equiv> 0x00"
abbreviation (input) PB_HTYPE_OPTIONAL :: u8 where "PB_HTYPE_OPTIONAL \<equiv> 0x10"
abbreviation (input) PB_HTYPE_REPEATED :: u8 where "PB_HTYPE_REPEATED \<equiv> 0x20"
abbreviation (input) PB_HTYPE_ONEOF :: u8 where "PB_HTYPE_ONEOF \<equiv> 0x30"
abbreviation (input) PB_ATYPE_STATIC :: u8 where "PB_ATYPE_STATIC \<equiv> 0x00"
abbreviation (input) PB_ATYPE_POINTER :: u8 where "PB_ATYPE_POINTER \<equiv> 0x80"
abbreviation (input) PB_ATYPE_CALLBACK :: u8 where "PB_ATYPE_CALLBACK \<equiv> 0x40"

definition PB_LTYPE_LAST_PACKABLE :: u8 where
  "PB_LTYPE_LAST_PACKABLE = 0x05"

definition PB_SIZE_MAX :: nat where "PB_SIZE_MAX = 4294967295"

definition is_pointer :: "'p pb_field \<Rightarrow> bool" where
  "is_pointer field = (PB_ATYPE (ftype field) = PB_ATYPE_POINTER)"

section \<open>Memory\<close>

text \<open>Little-endian loads and stores of \<open>n\<close> bytes; signed values as integers.\<close>

definition load :: "nat \<Rightarrow> u8 list \<Rightarrow> nat" where
  "load n src = be_value (rev (take n src))"

definition load_signed :: "nat \<Rightarrow> u8 list \<Rightarrow> int" where
  "load_signed n src = signed_take_bit (8 * n - 1) (int (load n src))"

definition le_bytes :: "nat \<Rightarrow> nat \<Rightarrow> u8 list" where
  "le_bytes n v = rev (be_bytes n v)"

definition store :: "u8 list \<Rightarrow> u8 list \<Rightarrow> u8 list" where
  "store dest bs = bs @ drop (length bs) dest"

section \<open>Encoders\<close>

text \<open>\<open>sizeof(bool)\<close> is one.\<close>

definition safe_read_bool :: "u8 list \<Rightarrow> bool" where
  "safe_read_bool p = list_ex (\<lambda>b. b \<noteq> 0) (take 1 p)"

definition pb_encode_tag_for_field :: "'o pb_ostream \<Rightarrow> 'p pb_field \<Rightarrow> bool \<times> 'o pb_ostream" where
  "pb_encode_tag_for_field s field =
     (let t = PB_LTYPE (ftype field)
      in if t = PB_LTYPE_BOOL \<or> t = PB_LTYPE_VARINT \<or> t = PB_LTYPE_UVARINT \<or> t = PB_LTYPE_SVARINT
         then pb_encode_tag s PB_WT_VARINT (tag field)
         else if t = PB_LTYPE_FIXED32 then pb_encode_tag s PB_WT_32BIT (tag field)
         else if t = PB_LTYPE_FIXED64 then pb_encode_tag s PB_WT_64BIT (tag field)
         else if t = PB_LTYPE_BYTES \<or> t = PB_LTYPE_STRING \<or> t = PB_LTYPE_SUBMESSAGE \<or> t = PB_LTYPE_FIXED_LENGTH_BYTES
         then pb_encode_tag s PB_WT_STRING (tag field)
         else out_error ''invalid field type'' s)"

definition pb_enc_bool :: "'o pb_ostream \<Rightarrow> u8 list \<Rightarrow> bool \<times> 'o pb_ostream" where
  "pb_enc_bool s src = pb_encode_varint s (if safe_read_bool src then 1 else 0)"

definition pb_enc_varint :: "'o pb_ostream \<Rightarrow> 'p pb_field \<Rightarrow> u8 list \<Rightarrow> bool \<times> 'o pb_ostream" where
  "pb_enc_varint s field src =
     (if data_size field = 1 then pb_encode_varint s (word_of_int (load_signed 1 src))
      else if data_size field = 2 then pb_encode_varint s (word_of_int (load_signed 2 src))
      else if data_size field = 4 then pb_encode_varint s (word_of_int (load_signed 4 src))
      else if data_size field = 8 then pb_encode_varint s (word_of_int (load_signed 8 src))
      else out_error ''invalid data_size'' s)"

definition pb_enc_uvarint :: "'o pb_ostream \<Rightarrow> 'p pb_field \<Rightarrow> u8 list \<Rightarrow> bool \<times> 'o pb_ostream" where
  "pb_enc_uvarint s field src =
     (if data_size field = 1 then pb_encode_varint s (of_nat (load 1 src))
      else if data_size field = 2 then pb_encode_varint s (of_nat (load 2 src))
      else if data_size field = 4 then pb_encode_varint s (of_nat (load 4 src))
      else if data_size field = 8 then pb_encode_varint s (of_nat (load 8 src))
      else out_error ''invalid data_size'' s)"

definition pb_enc_svarint :: "'o pb_ostream \<Rightarrow> 'p pb_field \<Rightarrow> u8 list \<Rightarrow> bool \<times> 'o pb_ostream" where
  "pb_enc_svarint s field src =
     (if data_size field = 1 then pb_encode_svarint s (word_of_int (load_signed 1 src))
      else if data_size field = 2 then pb_encode_svarint s (word_of_int (load_signed 2 src))
      else if data_size field = 4 then pb_encode_svarint s (word_of_int (load_signed 4 src))
      else if data_size field = 8 then pb_encode_svarint s (word_of_int (load_signed 8 src))
      else out_error ''invalid data_size'' s)"

definition pb_enc_fixed32 :: "'o pb_ostream \<Rightarrow> u8 list \<Rightarrow> bool \<times> 'o pb_ostream" where
  "pb_enc_fixed32 s src = pb_encode_fixed32 s (of_nat (load 4 src))"

definition pb_enc_fixed64 :: "'o pb_ostream \<Rightarrow> u8 list \<Rightarrow> bool \<times> 'o pb_ostream" where
  "pb_enc_fixed64 s src = pb_encode_fixed64 s (of_nat (load 8 src))"

definition PB_BYTES_ARRAY_T_ALLOCSIZE :: "nat \<Rightarrow> nat" where
  "PB_BYTES_ARRAY_T_ALLOCSIZE n = size_t (n + 4)"

text \<open>\<open>src\<close> holds a \<open>pb_bytes_array_t\<close>: the size in four bytes, then the bytes.\<close>

definition pb_enc_bytes :: "'o pb_ostream \<Rightarrow> 'p pb_field \<Rightarrow> u8 list option \<Rightarrow> bool \<times> 'o pb_ostream" where
  "pb_enc_bytes s field src =
     (case src of
        None \<Rightarrow> pb_encode_string s [] 0
      | Some mem \<Rightarrow>
          let n = load 4 mem; allocsize = PB_BYTES_ARRAY_T_ALLOCSIZE n
          in if allocsize < n \<or> (PB_ATYPE (ftype field) = PB_ATYPE_STATIC \<and> data_size field < allocsize)
             then out_error ''bytes size exceeded'' s
             else pb_encode_string s (drop 4 mem) n)"

text \<open>The loop of \<open>pb_enc_string\<close>: \<open>size < max_size && *p != 0\<close>.\<close>

fun bounded_strlen :: "nat \<Rightarrow> u8 list \<Rightarrow> nat" where
  "bounded_strlen limit [] = 0"
| "bounded_strlen limit (c # p) =
     (if 0 < limit \<and> c \<noteq> 0 then 1 + bounded_strlen (limit - 1) p else 0)"

definition pb_enc_string :: "'o pb_ostream \<Rightarrow> 'p pb_field \<Rightarrow> u8 list option \<Rightarrow> bool \<times> 'o pb_ostream" where
  "pb_enc_string s field src =
     (let limit = (if is_pointer field then SIZE_MAX else data_size field);
          n = (case src of None \<Rightarrow> 0 | Some p \<Rightarrow> bounded_strlen limit p)
      in pb_encode_string s (case src of None \<Rightarrow> [] | Some p \<Rightarrow> p) n)"

definition pb_enc_fixed_length_bytes :: "'o pb_ostream \<Rightarrow> 'p pb_field \<Rightarrow> u8 list \<Rightarrow> bool \<times> 'o pb_ostream" where
  "pb_enc_fixed_length_bytes s field src = pb_encode_string s src (data_size field)"


section \<open>Decoders\<close>

text \<open>
  A decoder returns its success, the stream and the memory at \<open>dest\<close>, which it may have written
  before it fails.
\<close>

definition dec_error :: "string \<Rightarrow> 's pb_istream \<Rightarrow> 'd \<Rightarrow> bool \<times> 's pb_istream \<times> 'd" where
  "dec_error msg s dest = (case (in_error msg s :: unit option \<times> 's pb_istream) of (_, s) \<Rightarrow> (False, s, dest))"

definition dec_do :: "'a option \<times> 's pb_istream \<Rightarrow> 'd \<Rightarrow>
    ('a \<Rightarrow> 's pb_istream \<Rightarrow> bool \<times> 's pb_istream \<times> 'd) \<Rightarrow> bool \<times> 's pb_istream \<times> 'd" where
  "dec_do r dest k = (case r of (None, s) \<Rightarrow> (False, s, dest) | (Some v, s) \<Rightarrow> k v s)"

lemma dec_do_simps [simp]:
  "dec_do (None, s) dest k = (False, s, dest)"
  "dec_do (Some v, s) dest k = k v s"
  by (simp_all add: dec_do_def)

definition pb_dec_bool :: "'s pb_istream \<Rightarrow> u8 list \<Rightarrow> bool \<times> 's pb_istream \<times> u8 list" where
  "pb_dec_bool s dest =
     dec_do (pb_decode_varint32 s) dest (\<lambda>v s. (True, s, store dest [if v \<noteq> 0 then 1 else 0]))"

definition pb_decode_bool :: "'s pb_istream \<Rightarrow> u8 list \<Rightarrow> bool \<times> 's pb_istream \<times> u8 list" where
  "pb_decode_bool s dest = pb_dec_bool s dest"

text \<open>
  \<open>clamped = *dest = svalue\<close> for a destination of \<open>n\<close> bytes, then the comparison with the value.
\<close>

definition store_signed :: "nat \<Rightarrow> int \<Rightarrow> 's pb_istream \<Rightarrow> u8 list \<Rightarrow> bool \<times> 's pb_istream \<times> u8 list" where
  "store_signed n svalue s dest =
     (let bytes = le_bytes n (nat (svalue mod 2 ^ (8 * n)));
          dest = store dest bytes
      in if load_signed n bytes \<noteq> svalue then dec_error ''integer too large'' s dest else (True, s, dest))"

definition pb_dec_varint :: "'s pb_istream \<Rightarrow> 'p pb_field \<Rightarrow> u8 list \<Rightarrow> bool \<times> 's pb_istream \<times> u8 list" where
  "pb_dec_varint s field dest =
     dec_do (pb_decode_varint s) dest (\<lambda>v s.
       let svalue = (if data_size field = 8 then sint v else sint (ucast v :: u32))
       in if data_size field = 8 then store_signed 8 svalue s dest
          else if data_size field = 4 then store_signed 4 svalue s dest
          else if data_size field = 2 then store_signed 2 svalue s dest
          else if data_size field = 1 then store_signed 1 svalue s dest
          else dec_error ''invalid data_size'' s dest)"

definition store_unsigned :: "nat \<Rightarrow> nat \<Rightarrow> 's pb_istream \<Rightarrow> u8 list \<Rightarrow> bool \<times> 's pb_istream \<times> u8 list" where
  "store_unsigned n v s dest =
     (let bytes = le_bytes n v;
          dest = store dest bytes
      in if load n bytes \<noteq> v then dec_error ''integer too large'' s dest else (True, s, dest))"

definition pb_dec_uvarint :: "'s pb_istream \<Rightarrow> 'p pb_field \<Rightarrow> u8 list \<Rightarrow> bool \<times> 's pb_istream \<times> u8 list" where
  "pb_dec_uvarint s field dest =
     dec_do (pb_decode_varint s) dest (\<lambda>v s.
       if data_size field = 8 then store_unsigned 8 (unat v) s dest
       else if data_size field = 4 then store_unsigned 4 (unat v) s dest
       else if data_size field = 2 then store_unsigned 2 (unat v) s dest
       else if data_size field = 1 then store_unsigned 1 (unat v) s dest
       else dec_error ''invalid data_size'' s dest)"

definition pb_dec_svarint :: "'s pb_istream \<Rightarrow> 'p pb_field \<Rightarrow> u8 list \<Rightarrow> bool \<times> 's pb_istream \<times> u8 list" where
  "pb_dec_svarint s field dest =
     dec_do (pb_decode_svarint s) dest (\<lambda>v s.
       if data_size field = 8 then store_signed 8 (sint v) s dest
       else if data_size field = 4 then store_signed 4 (sint v) s dest
       else if data_size field = 2 then store_signed 2 (sint v) s dest
       else if data_size field = 1 then store_signed 1 (sint v) s dest
       else dec_error ''invalid data_size'' s dest)"

definition pb_dec_fixed32 :: "'s pb_istream \<Rightarrow> u8 list \<Rightarrow> bool \<times> 's pb_istream \<times> u8 list" where
  "pb_dec_fixed32 s dest = dec_do (pb_decode_fixed32 s) dest (\<lambda>v s. (True, s, store dest (le_bytes 4 (unat v))))"

definition pb_dec_fixed64 :: "'s pb_istream \<Rightarrow> u8 list \<Rightarrow> bool \<times> 's pb_istream \<times> u8 list" where
  "pb_dec_fixed64 s dest = dec_do (pb_decode_fixed64 s) dest (\<lambda>v s. (True, s, store dest (le_bytes 8 (unat v))))"

section \<open>Allocation\<close>

text \<open>
  \<open>realloc\<close> is the parameter \<open>sys\<close>: for a size it fails or gives the indeterminate contents of a
  new block of that size, whose beginning is the old block.
\<close>

definition pb_realloc :: "(nat \<Rightarrow> u8 list option) \<Rightarrow> u8 list option \<Rightarrow> nat \<Rightarrow> u8 list option" where
  "pb_realloc sys old n =
     map_option (\<lambda>fresh. let kept = (case old of None \<Rightarrow> [] | Some b \<Rightarrow> take n b) in kept @ drop (length kept) fresh) (sys n)"

definition allocate_field :: "(nat \<Rightarrow> u8 list option) \<Rightarrow> 's pb_istream \<Rightarrow> u8 list option \<Rightarrow> nat \<Rightarrow> nat \<Rightarrow>
    bool \<times> 's pb_istream \<times> u8 list option" where
  "allocate_field sys s block dsize asize =
     (if dsize = 0 \<or> asize = 0 then dec_error ''invalid size'' s block
      else if (2 ^ 32 \<le> dsize \<or> 2 ^ 32 \<le> asize) \<and> SIZE_MAX div asize < dsize
      then dec_error ''size too large'' s block
      else case pb_realloc sys block (size_t (asize * dsize)) of
             None \<Rightarrow> dec_error ''realloc failed'' s block
           | Some b \<Rightarrow> (True, s, Some b))"

section \<open>Bytes and strings\<close>

definition dec_bytes_body :: "'s pb_istream \<Rightarrow> nat \<Rightarrow> u8 list \<Rightarrow> bool \<times> 's pb_istream \<times> u8 list option" where
  "dec_bytes_body s n mem =
     (let mem = store mem (le_bytes 4 n)
      in dec_do (pb_read s n) (Some mem) (\<lambda>bs s. (True, s, Some (take 4 mem @ store (drop 4 mem) bs))))"

definition pb_dec_bytes :: "(nat \<Rightarrow> u8 list option) \<Rightarrow> 's pb_istream \<Rightarrow> 'p pb_field \<Rightarrow> u8 list option \<Rightarrow>
    bool \<times> 's pb_istream \<times> u8 list option" where
  "pb_dec_bytes sys s field dest =
     dec_do (pb_decode_varint32 s) dest (\<lambda>sz s.
       let n = unat sz; alloc_size = PB_BYTES_ARRAY_T_ALLOCSIZE n
       in if PB_SIZE_MAX < n then dec_error ''bytes overflow'' s dest
          else if alloc_size < n then dec_error ''size too large'' s dest
          else if is_pointer field
          then if bytes_left s < n then dec_error ''end-of-stream'' s dest
               else case allocate_field sys s dest alloc_size 1 of
                      (False, s, dest) \<Rightarrow> (False, s, dest)
                    | (True, s, dest) \<Rightarrow> dec_bytes_body s n (the dest)
          else if data_size field < alloc_size then dec_error ''bytes overflow'' s dest
          else dec_bytes_body s n (the dest))"

definition dec_string_body :: "'s pb_istream \<Rightarrow> nat \<Rightarrow> u8 list \<Rightarrow> bool \<times> 's pb_istream \<times> u8 list option" where
  "dec_string_body s n mem =
     dec_do (pb_read s n) (Some (mem[n := 0])) (\<lambda>bs s. (True, s, Some ((store mem bs)[n := 0])))"

definition pb_dec_string :: "(nat \<Rightarrow> u8 list option) \<Rightarrow> 's pb_istream \<Rightarrow> 'p pb_field \<Rightarrow> u8 list option \<Rightarrow>
    bool \<times> 's pb_istream \<times> u8 list option" where
  "pb_dec_string sys s field dest =
     dec_do (pb_decode_varint32 s) dest (\<lambda>sz s.
       let n = unat sz; alloc_size = unat (sz + 1)
       in if alloc_size < n then dec_error ''size too large'' s dest
          else if is_pointer field
          then if bytes_left s < n then dec_error ''end-of-stream'' s dest
               else case allocate_field sys s dest alloc_size 1 of
                      (False, s, dest) \<Rightarrow> (False, s, dest)
                    | (True, s, dest) \<Rightarrow> dec_string_body s n (the dest)
          else if data_size field < alloc_size then dec_error ''string overflow'' s dest
          else dec_string_body s n (the dest))"

definition pb_dec_fixed_length_bytes :: "'s pb_istream \<Rightarrow> 'p pb_field \<Rightarrow> u8 list \<Rightarrow> bool \<times> 's pb_istream \<times> u8 list" where
  "pb_dec_fixed_length_bytes s field dest =
     dec_do (pb_decode_varint32 s) dest (\<lambda>sz s.
       if PB_SIZE_MAX < unat sz then dec_error ''bytes overflow'' s dest
       else if sz = 0 then (True, s, store dest (replicate (data_size field) 0))
       else if unat sz \<noteq> data_size field then dec_error ''incorrect fixed length bytes size'' s dest
       else dec_do (pb_read s (data_size field)) dest (\<lambda>bs s. (True, s, store dest bs)))"

section \<open>Loads and stores\<close>

lemma length_le_bytes [simp]: "length (le_bytes n v) = n"
  by (simp add: le_bytes_def)

lemma load_le_bytes: "load n (le_bytes n v) = v mod 256 ^ n"
  by (simp add: load_def le_bytes_def be_value_be_bytes)

lemma load_less: "n \<le> length src \<Longrightarrow> load n src < 256 ^ n"
  using be_value_less [of "rev (take n src)"] by (simp add: load_def)

lemma le_bytes_load: "n \<le> length src \<Longrightarrow> le_bytes n (load n src) = take n src"
  using be_bytes_be_value [of "rev (take n src)"] by (simp add: le_bytes_def load_def)

lemma load_take: "load n (take n src) = load n src"
  by (simp add: load_def)

lemma load_append: "length a = n \<Longrightarrow> load n (a @ b) = load n a"
  by (simp add: load_def)

lemma length_store [simp]: "length bs \<le> length dest \<Longrightarrow> length (store dest bs) = length dest"
  by (simp add: store_def)

lemma store_replaces: "length bs = length dest \<Longrightarrow> store dest bs = bs"
  by (simp add: store_def)

lemma load_signed_mod:
  assumes "0 < n" "n \<le> length src"
  shows "load_signed n src mod 2 ^ (8 * n) = int (load n src)"
proof -
  have "load_signed n src mod 2 ^ (8 * n) = take_bit (8 * n) (signed_take_bit (8 * n - 1) (int (load n src)))"
    by (simp add: load_signed_def take_bit_eq_mod)
  also have "\<dots> = take_bit (8 * n) (int (load n src))"
    using assms(1) by (intro take_bit_signed_take_bit) simp
  also have "\<dots> = int (load n src)"
  proof -
    have "(256 :: nat) ^ n = 2 ^ (8 * n)" by (simp add: power_mult)
    then have "load n src < 2 ^ (8 * n)" using load_less [OF assms(2)] by simp
    then have "int (load n src) < 2 ^ (8 * n)" by (metis of_nat_less_numeral_power_cancel_iff)
    then show ?thesis by (simp add: take_bit_int_eq_self)
  qed
  finally show ?thesis .
qed

lemma load_signed_range:
  "0 < n \<Longrightarrow> - (2 ^ (8 * n - 1)) \<le> load_signed n src \<and> load_signed n src < 2 ^ (8 * n - 1)"
  by (simp add: load_signed_def signed_take_bit_int_greater_eq_minus_exp signed_take_bit_int_less_exp)

lemma load_signed_take: "load_signed n (take n src) = load_signed n src"
  by (simp add: load_signed_def load_take)

lemma store_signed_load:
  "0 < n \<Longrightarrow> n \<le> length src \<Longrightarrow> store_signed n (load_signed n src) s dest = (True, s, store dest (take n src))"
  by (simp add: store_signed_def load_signed_mod le_bytes_load load_signed_take)

lemma store_unsigned_load:
  "n \<le> length src \<Longrightarrow> store_unsigned n (load n src) s dest = (True, s, store dest (take n src))"
  by (simp add: store_unsigned_def le_bytes_load load_take)

text \<open>The destination takes exactly the values of its width.\<close>

lemma store_signed_fits:
  assumes "0 < n"
  shows "store_signed n v s dest =
    (let dest = store dest (le_bytes n (nat (v mod 2 ^ (8 * n))))
     in if - (2 ^ (8 * n - 1)) \<le> v \<and> v < 2 ^ (8 * n - 1) then (True, s, dest)
        else dec_error ''integer too large'' s dest)"
proof -
  have p: "(256 :: nat) ^ n = 2 ^ (8 * n)" by (simp add: power_mult)
  have n8: "\<not> 8 * n \<le> 8 * n - 1" using assms by arith
  have nz: "0 \<le> v mod 2 ^ (8 * n)" by simp
  have "nat (v mod 2 ^ (8 * n)) mod 256 ^ n = nat (v mod 2 ^ (8 * n))"
  proof (rule mod_less)
    have "v mod 2 ^ (8 * n) < 2 ^ (8 * n)" by simp
    then show "nat (v mod 2 ^ (8 * n)) < 256 ^ n" unfolding p using nz by (simp add: nat_less_iff)
  qed
  then have "load_signed n (le_bytes n (nat (v mod 2 ^ (8 * n)))) = signed_take_bit (8 * n - 1) (v mod 2 ^ (8 * n))"
    using nz by (simp add: load_signed_def load_le_bytes)
  also have "v mod 2 ^ (8 * n) = take_bit (8 * n) v" by (simp add: take_bit_eq_mod)
  also have "signed_take_bit (8 * n - 1) (take_bit (8 * n) v) = signed_take_bit (8 * n - 1) v"
    using n8 by (simp add: signed_take_bit_take_bit)
  finally have e: "load_signed n (le_bytes n (nat (take_bit (8 * n) v))) = signed_take_bit (8 * n - 1) v" .
  have "load_signed n (le_bytes n (nat (v mod 2 ^ (8 * n)))) = signed_take_bit (8 * n - 1) v"
    using e by (simp add: take_bit_eq_mod)
  moreover have "signed_take_bit (8 * n - 1) v = v \<longleftrightarrow> - (2 ^ (8 * n - 1)) \<le> v \<and> v < 2 ^ (8 * n - 1)"
    by (rule signed_take_bit_int_eq_self_iff)
  ultimately show ?thesis by (simp add: store_signed_def Let_def)
qed

lemma sint_word_of_int: "signed_take_bit (LENGTH('a) - 1) x = x \<Longrightarrow> sint (word_of_int x :: 'a::len word) = x"
  by (simp add: sint_sbintrunc')


section \<open>Properties\<close>

text \<open>The encoder and the decoder of an integer or boolean field.\<close>

definition enc_scalar :: "'o pb_ostream \<Rightarrow> 'p pb_field \<Rightarrow> u8 list \<Rightarrow> bool \<times> 'o pb_ostream" where
  "enc_scalar s field src =
     (let t = PB_LTYPE (ftype field)
      in if t = PB_LTYPE_BOOL then pb_enc_bool s src
         else if t = PB_LTYPE_VARINT then pb_enc_varint s field src
         else if t = PB_LTYPE_UVARINT then pb_enc_uvarint s field src
         else if t = PB_LTYPE_SVARINT then pb_enc_svarint s field src
         else if t = PB_LTYPE_FIXED32 then pb_enc_fixed32 s src
         else pb_enc_fixed64 s src)"

definition dec_scalar :: "'s pb_istream \<Rightarrow> 'p pb_field \<Rightarrow> u8 list \<Rightarrow> bool \<times> 's pb_istream \<times> u8 list" where
  "dec_scalar s field dest =
     (let t = PB_LTYPE (ftype field)
      in if t = PB_LTYPE_BOOL then pb_dec_bool s dest
         else if t = PB_LTYPE_VARINT then pb_dec_varint s field dest
         else if t = PB_LTYPE_UVARINT then pb_dec_uvarint s field dest
         else if t = PB_LTYPE_SVARINT then pb_dec_svarint s field dest
         else if t = PB_LTYPE_FIXED32 then pb_dec_fixed32 s dest
         else pb_dec_fixed64 s dest)"

text \<open>The widths the generator uses, and a C \<open>bool\<close> that holds 0 or 1.\<close>

definition scalar_field :: "'p pb_field \<Rightarrow> u8 list \<Rightarrow> bool" where
  "scalar_field field src \<longleftrightarrow>
     (let t = PB_LTYPE (ftype field); n = data_size field
      in length src = n \<and>
         (t = PB_LTYPE_BOOL \<and> n = 1 \<and> src \<in> {[0], [1]} \<or>
          t \<in> {PB_LTYPE_VARINT, PB_LTYPE_UVARINT, PB_LTYPE_SVARINT} \<and> n \<in> {1, 2, 4, 8} \<or>
          t = PB_LTYPE_FIXED32 \<and> n = 4 \<or> t = PB_LTYPE_FIXED64 \<and> n = 8))"

text \<open>The bytes on the wire.\<close>

definition scalar_bytes :: "'p pb_field \<Rightarrow> u8 list \<Rightarrow> u8 list" where
  "scalar_bytes field src =
     (let t = PB_LTYPE (ftype field); n = data_size field
      in if t = PB_LTYPE_BOOL then varint_bytes (load 1 src)
         else if t = PB_LTYPE_VARINT then varint_bytes (unat (word_of_int (load_signed n src) :: u64))
         else if t = PB_LTYPE_UVARINT then varint_bytes (load n src)
         else if t = PB_LTYPE_SVARINT then zigzag_bytes (word_of_int (load_signed n src))
         else if t = PB_LTYPE_FIXED32 then fixed32_bytes (of_nat (load 4 src))
         else fixed64_bytes (of_nat (load 8 src)))"

lemma load_less_64: "n \<le> 8 \<Longrightarrow> length src = n \<Longrightarrow> load n src < 2 ^ 64"
proof -
  assume a: "n \<le> 8" "length src = n"
  have "load n src < 256 ^ n" using load_less [of n src] a by simp
  also have "\<dots> \<le> 256 ^ 8" using a(1) by (intro power_increasing) simp_all
  finally show ?thesis by simp
qed

lemma unat_load: "n \<le> 8 \<Longrightarrow> length src = n \<Longrightarrow> unat (of_nat (load n src) :: u64) = load n src"
  using load_less_64 [of n src] by (simp add: unat_of_nat)

lemma enc_scalar_bytes: "scalar_field field src \<Longrightarrow> enc_scalar s field src = pb_write s (scalar_bytes field src)"
proof -
  assume a: "scalar_field field src"
  have b: "pb_enc_bool s [0] = pb_write s (varint_bytes (load (Suc 0) [0]))"
    "pb_enc_bool s [1] = pb_write s (varint_bytes (load (Suc 0) [1]))"
    by (simp_all add: pb_enc_bool_def safe_read_bool_def pb_encode_varint_bytes load_def be_value_def)
  show ?thesis using a
    by (auto simp: scalar_field_def enc_scalar_def scalar_bytes_def Let_def b pb_enc_varint_def pb_enc_uvarint_def
        pb_enc_svarint_def pb_enc_fixed32_def pb_enc_fixed64_def pb_encode_varint_bytes pb_encode_svarint_bytes
        pb_encode_fixed_bytes unat_load)
qed

lemma sint_load_signed:
  assumes "0 < n" "n \<le> 8"
  shows "sint (word_of_int (load_signed n src) :: u64) = load_signed n src"
proof (rule sint_word_of_int)
  have "8 * n - 1 \<le> LENGTH(64) - 1" using assms by simp
  then show "signed_take_bit (LENGTH(64) - 1) (load_signed n src) = load_signed n src"
    unfolding load_signed_def signed_take_bit_signed_take_bit by (simp only: min_absorb1 min_absorb2)
qed

lemma sint_load_signed32:
  assumes "0 < n" "n \<le> 4"
  shows "sint (ucast (word_of_int (load_signed n src) :: u64) :: u32) = load_signed n src"
proof -
  have "(ucast (word_of_int (load_signed n src) :: u64) :: u32) = word_of_int (load_signed n src)"
    by (rule bit_word_eqI) (simp add: bit_simps)
  moreover have "sint (word_of_int (load_signed n src) :: u32) = load_signed n src"
  proof (rule sint_word_of_int)
    have "8 * n - 1 \<le> LENGTH(32) - 1" using assms by simp
    then show "signed_take_bit (LENGTH(32) - 1) (load_signed n src) = load_signed n src"
      unfolding load_signed_def signed_take_bit_signed_take_bit by (simp only: min_absorb1 min_absorb2)
  qed
  ultimately show ?thesis by simp
qed


lemma fixed_of_load:
  "length src = 4 \<Longrightarrow> le_bytes 4 (unat (of_nat (load 4 src) :: u32)) = src"
  "length src = 8 \<Longrightarrow> le_bytes 8 (unat (of_nat (load 8 src) :: u64)) = src"
  using load_less [of 4 src] le_bytes_load [of 4 src] le_bytes_load [of 8 src] unat_load [of 8 src]
  by (simp_all add: unat_of_nat)

lemma pb_decode_varint_nat:
  "k < 2 ^ 64 \<Longrightarrow> pb_decode_varint (ibuf (varint_bytes k @ rest) (length (varint_bytes k) + n) e) =
    (Some (of_nat k), ibuf rest n e)"
  using pb_decode_varint_bytes [of "of_nat k"] by (simp add: unat_of_nat)

lemma dec_scalar_bytes:
  assumes "scalar_field field src"
  shows "dec_scalar (ibuf (scalar_bytes field src @ rest) (length (scalar_bytes field src) + n) e) field dest =
    (True, ibuf rest n e, store dest src)"
proof -
  let ?t = "PB_LTYPE (ftype field)" and ?n = "data_size field"
  have l: "length src = ?n" using assms by (simp add: scalar_field_def Let_def)
  consider (bool) "?t = PB_LTYPE_BOOL" "src \<in> {[0], [1]}"
    | (varint) "?t = PB_LTYPE_VARINT" "?n \<in> {1, 2, 4, 8}"
    | (uvarint) "?t = PB_LTYPE_UVARINT" "?n \<in> {1, 2, 4, 8}"
    | (svarint) "?t = PB_LTYPE_SVARINT" "?n \<in> {1, 2, 4, 8}"
    | (fixed32) "?t = PB_LTYPE_FIXED32" "?n = 4"
    | (fixed64) "?t = PB_LTYPE_FIXED64" "?n = 8"
    using assms by (auto simp: scalar_field_def Let_def)
  then show ?thesis
  proof cases
    case bool
    have u: "load (Suc 0) [0] = 0" "load (Suc 0) [1] = 1" by (simp_all add: load_def be_value_def)
    show ?thesis using bool
      by (auto simp: dec_scalar_def scalar_bytes_def pb_dec_bool_def u pb_decode_varint32_length)
  next
    case varint
    then show ?thesis using l
      by (auto simp: dec_scalar_def scalar_bytes_def pb_dec_varint_def pb_decode_varint_bytes sint_load_signed
          sint_load_signed32 store_signed_load Let_def)
  next
    case uvarint
    then show ?thesis using l
      by (auto simp: dec_scalar_def scalar_bytes_def pb_dec_uvarint_def pb_decode_varint_nat load_less_64 [simplified]
          unat_load store_unsigned_load Let_def)
  next
    case svarint
    then show ?thesis using l
      by (auto simp: dec_scalar_def scalar_bytes_def pb_dec_svarint_def pb_decode_svarint_bytes sint_load_signed
          store_signed_load Let_def)
  next
    case fixed32
    then show ?thesis using l
      by (simp add: dec_scalar_def scalar_bytes_def pb_dec_fixed32_def pb_decode_fixed_bytes fixed_of_load)
  next
    case fixed64
    then show ?thesis using l
      by (simp add: dec_scalar_def scalar_bytes_def pb_dec_fixed64_def pb_decode_fixed_bytes fixed_of_load)
  qed
qed

text \<open>
  Every integer, boolean and fixed-width field of the widths the generator uses: what the
  encoder writes for the value in the source struct is decoded to the same bytes in the destination
  struct, negative values and all sign extensions included, and the rest of the stream is left.
\<close>

lemma scalar_field_roundtrip:
  assumes "scalar_field field src" "length dest = length src" "out_ok s"
    and "length (scalar_bytes field src) \<le> out_room s"
  shows "\<exists>s'. enc_scalar s field src = (True, s') \<and> out_bytes s' = out_bytes s @ scalar_bytes field src \<and>
    dec_scalar (pb_istream_from_buffer (scalar_bytes field src @ rest) (length (scalar_bytes field src @ rest)) :: 's pb_istream)
      field dest = (True, pb_istream_from_buffer rest (length rest), src)"
proof -
  have o: "max_size s \<le> SIZE_MAX" using out_ok_buffer [OF assms(3)] by simp
  then have l: "length (scalar_bytes field src) \<le> SIZE_MAX" using assms(4) unfolding out_room_def by linarith
  obtain s' where s': "pb_write s (scalar_bytes field src) = (True, s')"
    using pb_write_ok [OF assms(3) l] assms(4) by simp
  have d: "dec_scalar (pb_istream_from_buffer (scalar_bytes field src @ rest) (length (scalar_bytes field src @ rest)) :: 's pb_istream)
      field dest = (True, pb_istream_from_buffer rest (length rest), src)"
    using assms(2) by (simp add: dec_scalar_bytes [OF assms(1)] ibuf_from_buffer store_replaces)
  show ?thesis
    using s' d pb_write_True [OF assms(3) l s'] enc_scalar_bytes [OF assms(1), of s] by simp
qed

definition demo_sint32 :: "unit pb_field" where
  "demo_sint32 = \<lparr> tag = 1, ftype = 0x13, data_offset = 0, size_offset = 0, data_size = 4, array_size = 0, ptr = () \<rparr>"

lemma scalar_field_roundtrip_witness:
  "dec_scalar (pb_istream_from_buffer (scalar_bytes demo_sint32 [0xfe, 0xff, 0xff, 0xff])
      (length (scalar_bytes demo_sint32 [0xfe, 0xff, 0xff, 0xff])) :: unit pb_istream) demo_sint32 [0, 0, 0, 0] =
    (True, pb_istream_from_buffer [] 0, [0xfe, 0xff, 0xff, 0xff])"
proof -
  let ?s = "pb_ostream_from_buffer 20 :: unit pb_ostream"
  have t: "PB_LTYPE 0x13 = PB_LTYPE_SVARINT"
  proof -
    have "(0x0f :: u8) = mask 4" by (simp add: mask_eq_exp_minus_1)
    then have "unat (PB_LTYPE 0x13) = unat (0x13 :: u8) mod 2 ^ 4" unfolding PB_LTYPE_def by (simp only: unat_and_mask)
    then show ?thesis by (simp add: word_unat_eq_iff)
  qed
  have f: "scalar_field demo_sint32 [0xfe, 0xff, 0xff, 0xff]"
    by (simp add: scalar_field_def demo_sint32_def t)
  have "length (scalar_bytes demo_sint32 [0xfe, 0xff, 0xff, 0xff]) \<le> 10"
    by (simp add: scalar_bytes_def demo_sint32_def t zigzag_bytes_def length_varint_bytes_64)
  then have "out_ok ?s" "length (scalar_bytes demo_sint32 [0xfe, 0xff, 0xff, 0xff]) \<le> out_room ?s"
    by (simp_all add: pb_ostream_from_buffer_def out_ok_def out_room_def SIZE_MAX_def)
  from scalar_field_roundtrip [OF f _ this, of "[0, 0, 0, 0]" "[]"] show ?thesis by auto
qed

lemma le_value_fits: "store_unsigned n v s dest =
    (if v < 256 ^ n then (True, s, store dest (le_bytes n v)) else dec_error ''integer too large'' s (store dest (le_bytes n v)))"
  by (simp add: store_unsigned_def load_le_bytes mod_eq_self_iff_div_eq_0 div_eq_0_iff)

text \<open>What is accepted, and what the destination then holds.\<close>

lemma store_unsigned_result:
  "case store_unsigned n v s dest of (ok, _, dest') \<Rightarrow> (ok \<longleftrightarrow> v < 2 ^ (8 * n)) \<and> (ok \<longrightarrow> load n dest' = v)"
proof -
  have "(256 :: nat) ^ n = 2 ^ (8 * n)" by (simp add: power_mult)
  then show ?thesis
    by (auto simp: le_value_fits dec_error_def store_def load_append load_le_bytes split: prod.split)
qed

lemma store_signed_result:
  assumes "0 < n"
  shows "case store_signed n v s dest of (ok, _, dest') \<Rightarrow>
    (ok \<longleftrightarrow> - (2 ^ (8 * n - 1)) \<le> v \<and> v < 2 ^ (8 * n - 1)) \<and> (ok \<longrightarrow> load_signed n dest' = v)"
proof -
  let ?bs = "le_bytes n (nat (v mod 2 ^ (8 * n)))"
  have "load_signed n (store dest ?bs) = load_signed n ?bs" by (simp add: load_signed_def store_def load_append)
  then have "fst (store_signed n v s dest) \<Longrightarrow> load_signed n (snd (snd (store_signed n v s dest))) = v"
    by (auto simp: store_signed_def dec_error_def Let_def split: prod.splits if_split_asm)
  moreover have "fst (store_signed n v s dest) \<longleftrightarrow> - (2 ^ (8 * n - 1)) \<le> v \<and> v < 2 ^ (8 * n - 1)"
    unfolding store_signed_fits [OF assms] by (simp add: dec_error_def Let_def split: prod.split)
  ultimately show ?thesis by (simp add: case_prod_beta)
qed

lemma sint_low32: "sint (ucast v :: u32) = signed_take_bit 31 (uint v)" for v :: u64
  by (simp add: sint_uint unsigned_ucast_eq signed_take_bit_take_bit)

text \<open>
  C23. What the three integer decoders accept and store, for a field of 1, 2, 4 or 8 bytes. An unsigned (\<open>UVARINT\<close>) or
  zigzag (\<open>SVARINT\<close>) value is accepted exactly if it fits the field. A plain \<open>VARINT\<close> value is first cut to its low 32
  bits, read as a signed number, unless the field has 8 bytes: what is accepted, and stored, is that number if it fits, so
  that a 4-byte field takes every value. In each case the value accepted is the one the field then holds.
\<close>

theorem integer_overflow_detected:
  assumes "data_size field = n" "n \<in> {1, 2, 4, 8}"
  shows "(pb_decode_varint s = (Some v, s') \<longrightarrow>
      (case pb_dec_uvarint s field dest of (ok, _, dest') \<Rightarrow>
         (ok \<longleftrightarrow> unat v < 2 ^ (8 * n)) \<and> (ok \<longrightarrow> load n dest' = unat v))) \<and>
    (pb_decode_svarint s = (Some v, s') \<longrightarrow>
      (case pb_dec_svarint s field dest of (ok, _, dest') \<Rightarrow>
         (ok \<longleftrightarrow> - (2 ^ (8 * n - 1)) \<le> sint v \<and> sint v < 2 ^ (8 * n - 1)) \<and> (ok \<longrightarrow> load_signed n dest' = sint v))) \<and>
    (pb_decode_varint s = (Some v, s') \<longrightarrow>
      (case pb_dec_varint s field dest of (ok, _, dest') \<Rightarrow>
         let value = (if n = 8 then sint v else signed_take_bit 31 (uint v))
         in (ok \<longleftrightarrow> - (2 ^ (8 * n - 1)) \<le> value \<and> value < 2 ^ (8 * n - 1)) \<and> (ok \<longrightarrow> load_signed n dest' = value)))"
proof (intro conjI impI)
  have n: "0 < n" using assms(2) by auto
  have u: "pb_decode_varint s = (Some v, s') \<Longrightarrow> pb_dec_uvarint s field dest = store_unsigned n (unat v) s' dest"
    using assms by (auto simp: pb_dec_uvarint_def)
  have z: "pb_decode_svarint s = (Some v, s') \<Longrightarrow> pb_dec_svarint s field dest = store_signed n (sint v) s' dest"
    using assms by (auto simp: pb_dec_svarint_def)
  have p: "pb_decode_varint s = (Some v, s') \<Longrightarrow> pb_dec_varint s field dest =
      store_signed n (if n = 8 then sint v else signed_take_bit 31 (uint v)) s' dest"
    using assms by (auto simp: pb_dec_varint_def sint_low32)
  show "pb_decode_varint s = (Some v, s') \<Longrightarrow> case pb_dec_uvarint s field dest of (ok, _, dest') \<Rightarrow>
      (ok \<longleftrightarrow> unat v < 2 ^ (8 * n)) \<and> (ok \<longrightarrow> load n dest' = unat v)"
    using u store_unsigned_result [where n = n and v = "unat v" and s = s' and dest = dest] by simp
  show "pb_decode_svarint s = (Some v, s') \<Longrightarrow> case pb_dec_svarint s field dest of (ok, _, dest') \<Rightarrow>
      (ok \<longleftrightarrow> - (2 ^ (8 * n - 1)) \<le> sint v \<and> sint v < 2 ^ (8 * n - 1)) \<and> (ok \<longrightarrow> load_signed n dest' = sint v)"
    using z store_signed_result [OF n, of "sint v" s' dest] by simp
  show "pb_decode_varint s = (Some v, s') \<Longrightarrow> case pb_dec_varint s field dest of (ok, _, dest') \<Rightarrow>
      let value = (if n = 8 then sint v else signed_take_bit 31 (uint v))
      in (ok \<longleftrightarrow> - (2 ^ (8 * n - 1)) \<le> value \<and> value < 2 ^ (8 * n - 1)) \<and> (ok \<longrightarrow> load_signed n dest' = value)"
    using p store_signed_result [OF n, of "if n = 8 then sint v else signed_take_bit 31 (uint v)" s' dest]
    by (simp add: Let_def)
qed

theorem integer_overflow_detected_witness:
  "\<not> fst (pb_dec_uvarint (pb_istream_from_buffer [0x80, 0x02] 2 :: unit pb_istream) (demo_sint32\<lparr> data_size := 1 \<rparr>) [0]) \<and>
   (case pb_dec_varint (pb_istream_from_buffer [0x80, 0x02] 2 :: unit pb_istream) demo_sint32 [0, 0, 0, 0] of
      (ok, _, dest) \<Rightarrow> ok \<and> load_signed 4 dest = 256)"
proof -
  have b: "varint_bytes (unat (256 :: u64)) = [0x80, 0x02]" by (simp add: varint_bytes_long varint_bytes_short)
  have d: "pb_decode_varint (pb_istream_from_buffer [0x80, 0x02] 2 :: unit pb_istream) = (Some 256, ibuf [] 0 None)"
    using pb_decode_varint_bytes [of 256 "[]" 0 None, where ?'a = unit] unfolding b
    by (simp add: ibuf_from_buffer numeral_2_eq_2)
  have v: "signed_take_bit 31 (256 :: int) = 256" by (simp add: signed_take_bit_int_eq_self)
  show ?thesis
    using integer_overflow_detected [of "demo_sint32\<lparr> data_size := 1 \<rparr>" 1
        "pb_istream_from_buffer [0x80, 0x02] 2 :: unit pb_istream" 256 "ibuf [] 0 None" "[0]"]
      integer_overflow_detected [of demo_sint32 4
        "pb_istream_from_buffer [0x80, 0x02] 2 :: unit pb_istream" 256 "ibuf [] 0 None" "[0, 0, 0, 0]"] d
    by (auto simp: demo_sint32_def v Let_def split: prod.splits)
qed

section \<open>Bytes and strings stay in their storage\<close>

lemma pb_read_length:
  assumes "in_state s = InBuffer bs" "bytes_left s \<le> length bs" "pb_read s n = (Some v, s')"
  shows "length v = n"
proof -
  have s: "s = ibuf bs (bytes_left s) (in_errmsg s)" using ibuf_eq [OF assms(1)] .
  have r: "pb_read (ibuf bs (bytes_left s) (in_errmsg s)) n = (Some v, s')" using assms(3) s by simp
  show ?thesis using r assms(2)
    by (auto simp: pb_read_def in_error_def split: if_split_asm)
qed

lemma dec_string_body_storage:
  assumes "in_state s = InBuffer bs" "bytes_left s \<le> length bs" "n < length mem"
    and "dec_string_body s n mem = (ok, s', dest)"
  obtains mem' where "dest = Some mem'" "length mem' = length mem" "mem' ! n = 0"
proof (cases "pb_read s n")
  case (Pair r t)
  show ?thesis
  proof (cases r)
    case None
    then show ?thesis using assms Pair that [of "mem[n := 0]"] by (simp add: dec_string_body_def)
  next
    case (Some v)
    then have "length v = n" using pb_read_length [OF assms(1,2)] Pair by simp
    then show ?thesis using assms Pair Some that [of "(store mem v)[n := 0]"] by (simp add: dec_string_body_def)
  qed
qed

lemma in_step_valid:
  assumes "in_step s s'" "in_state s = InBuffer bs" "bytes_left s \<le> length bs"
  obtains c where "in_state s' = InBuffer (drop c bs)" "bytes_left s' \<le> length (drop c bs)"
proof -
  from assms(1,2) obtain c where "in_state s' = InBuffer (drop c bs)" "c + bytes_left s' \<le> bytes_left s"
    by (auto simp: in_step_def)
  then show ?thesis using assms(3) by (intro that [of c]) simp_all
qed

text \<open>\<open>realloc\<close> gives blocks of the size asked for.\<close>

definition realloc_ok :: "(nat \<Rightarrow> u8 list option) \<Rightarrow> bool" where
  "realloc_ok sys \<longleftrightarrow> (\<forall>n fresh. sys n = Some fresh \<longrightarrow> length fresh = n)"

lemma allocate_field_True:
  assumes "allocate_field sys s block dsize 1 = (True, s', dest)" "realloc_ok sys"
    and "dsize \<le> SIZE_MAX"
  obtains b where "dest = Some b" "length b = dsize" "s' = s"
proof -
  have sz: "size_t dsize = dsize" using assms(3) by simp
  from assms(1) obtain b where b: "pb_realloc sys block dsize = Some b" "dest = Some b" "s' = s"
    by (auto simp: allocate_field_def dec_error_def sz split: if_split_asm option.splits prod.splits)
  then obtain fresh where f: "sys dsize = Some fresh" "b = (let kept = (case block of None \<Rightarrow> [] | Some b \<Rightarrow> take dsize b) in kept @ drop (length kept) fresh)"
    by (auto simp: pb_realloc_def)
  have "length (case block of None \<Rightarrow> [] | Some b \<Rightarrow> take dsize b) \<le> dsize" by (simp split: option.split)
  then have "length b = dsize" using f assms(2) by (simp add: realloc_ok_def Let_def)
  then show ?thesis using b that by blast
qed


text \<open>The string decoder fails without touching the destination, or has found room for the string.\<close>

lemma dec_error_False: "dec_error msg t dest = (ok, s', dest') \<Longrightarrow> \<not> ok \<and> dest' = dest"
  by (simp add: dec_error_def in_error_def)

lemma string_size_no_wrap: "\<not> unat (sz + 1) < unat sz \<Longrightarrow> unat (sz + 1) = unat sz + 1" for sz :: u32
  using unsigned_less [of sz, where ?'a = nat] by (cases "unat sz = 2 ^ 32 - 1") (simp_all add: unat_word_ariths)

lemma pb_dec_string_cases:
  assumes res: "pb_dec_string sys s field dest = (ok, s', dest')"
    and static: "\<not> is_pointer field \<Longrightarrow> \<exists>mem. dest = Some mem \<and> length mem = data_size field"
    and sys: "realloc_ok sys"
  obtains "\<not> ok" "dest' = dest"
    | t n mem where "in_step s t" "dec_string_body t n mem = (ok, s', dest')" "n < length mem"
        "is_pointer field \<Longrightarrow> length mem = n + 1" "\<not> is_pointer field \<Longrightarrow> dest = Some mem"
        "is_pointer field \<or> length mem = data_size field"
    | "\<not> ok" "is_pointer field"
proof -
  obtain r t where v: "pb_decode_varint32 s = (r, t)" by fastforce
  then have st: "in_step s t" using pb_decode_varint32_step [of s] by simp
  show ?thesis
  proof (cases r)
    case None
    then show ?thesis using res v that(1) by (simp add: pb_dec_string_def)
  next
    case (Some sz)
    note unf = pb_dec_string_def v Some dec_do_simps Let_def
    consider (large) "unat (sz + 1) < unat sz" | (ptr) "\<not> unat (sz + 1) < unat sz" "is_pointer field"
      | (static) "\<not> unat (sz + 1) < unat sz" "\<not> is_pointer field" by blast
    then show ?thesis
    proof cases
      case large
      then show ?thesis using res that(1) by (auto simp: unf dest!: dec_error_False)
    next
      case static
      then obtain mem where m: "dest = Some mem" "length mem = data_size field" using assms(2) by blast
      note sz = string_size_no_wrap [OF static(1)]
      show ?thesis
      proof (cases "data_size field < unat (sz + 1)")
        case True
        then show ?thesis using res that(1) static by (auto simp: unf dest!: dec_error_False)
      next
        case False
        then have "dec_string_body t (unat sz) mem = (ok, s', dest')" using res static m by (simp add: unf)
        then show ?thesis using that(2) [OF st] m sz False static by auto
      qed
    next
      case ptr
      note sz = string_size_no_wrap [OF ptr(1)]
      show ?thesis
      proof (cases "bytes_left t < unat sz")
        case True
        then show ?thesis using res that(1) ptr by (auto simp: unf dest!: dec_error_False)
      next
        case False
        obtain a u d where a: "allocate_field sys t dest (unat (sz + 1)) 1 = (a, u, d)" by (metis prod_cases3)
        have le: "unat (sz + 1) \<le> SIZE_MAX" using unsigned_less [of "sz + 1", where ?'a = nat] by (simp add: SIZE_MAX_def)
        show ?thesis
        proof (cases a)
          case False
          then show ?thesis using res a ptr \<open>\<not> bytes_left t < unat sz\<close> that(3) by (simp add: unf)
        next
          case True
          with a have "allocate_field sys t dest (unat (sz + 1)) 1 = (True, u, d)" by simp
          from allocate_field_True [OF this sys le] obtain b where b: "d = Some b" "length b = unat (sz + 1)" "u = t" .
          have "dec_string_body t (unat sz) b = (ok, s', dest')"
            using res a True b ptr \<open>\<not> bytes_left t < unat sz\<close> by (simp add: unf)
          then show ?thesis using that(2) [OF st] b sz ptr by auto
        qed
      qed
    qed
  qed
qed

text \<open>
  The string decoder writes only inside its storage: a static field keeps its size, a pointer
  field gets a block that is exactly as long as the string and its terminator, and after success
  the string in it is terminated.
\<close>

lemma string_stays_in_storage:
  assumes "in_state s = InBuffer bs" "bytes_left s \<le> length bs"
    and "\<not> is_pointer field \<Longrightarrow> \<exists>mem. dest = Some mem \<and> length mem = data_size field"
    and "realloc_ok sys"
    and "pb_dec_string sys s field dest = (ok, s', dest')"
  shows "(\<not> is_pointer field \<longrightarrow> (\<exists>mem. dest' = Some mem \<and> length mem = data_size field)) \<and>
    (ok \<longrightarrow> (\<exists>mem n. dest' = Some mem \<and> n < length mem \<and> mem ! n = 0 \<and> (is_pointer field \<longrightarrow> length mem = n + 1)))"
proof (rule pb_dec_string_cases [OF assms(5,3,4)])
  assume "\<not> ok" "dest' = dest"
  then show ?thesis using assms(3) by simp
next
  fix t n mem
  assume st: "in_step s t" and body: "dec_string_body t n mem = (ok, s', dest')" "n < length mem"
    and mem: "is_pointer field \<Longrightarrow> length mem = n + 1" "is_pointer field \<or> length mem = data_size field"
  from st obtain c where t: "in_state t = InBuffer (drop c bs)" "bytes_left t \<le> length (drop c bs)"
    by (rule in_step_valid [OF _ assms(1,2)])
  from dec_string_body_storage [OF t body(2,1)] obtain mem' where
    "dest' = Some mem'" "length mem' = length mem" "mem' ! n = 0" .
  then show ?thesis using body(2) mem by auto
qed simp_all

lemma string_stays_in_storage_witness:
  "\<exists>mem. snd (snd (pb_dec_string (\<lambda>_. None) (pb_istream_from_buffer [2, 0x61, 0x62] 3 :: unit pb_istream)
     demo_sint32 (Some [9, 9, 9, 9]))) = Some mem \<and> length mem = 4"
proof -
  let ?s = "pb_istream_from_buffer [2, 0x61, 0x62] 3 :: unit pb_istream"
  obtain ok s' d where r: "pb_dec_string (\<lambda>_. None) ?s demo_sint32 (Some [9, 9, 9, 9]) = (ok, s', d)"
    by (metis prod_cases3)
  have "(0x13 :: u8) AND 0xc0 \<noteq> 0x80" by code_simp
  then have "\<not> is_pointer demo_sint32" by (simp add: is_pointer_def PB_ATYPE_def demo_sint32_def)
  then show ?thesis
    using string_stays_in_storage [OF _ _ _ _ r, of "[2, 0x61, 0x62]"] unfolding r
    by (simp add: pb_istream_from_buffer_def demo_sint32_def realloc_ok_def)
qed

end
