(* ===== verification/PbIter.thy ===== *)
theory PbIter
  imports PbField
begin

text \<open>
  The field iterator of nanopb (\<open>pb_common.c\<close>): it walks the descriptor array of a message, whose
  end is marked by a zero tag, keeps the addresses of the current field and of its count or
  \<open>has_\<close> flag, and wraps around to the first field. \<open>start\<close> is the array, \<open>pos\<close> an index into it;
  addresses are integers.
\<close>

record 'p pb_field_iter =
  start :: "'p pb_field list"
  pos :: nat
  required_field_index :: nat
  dest_struct :: int
  pData :: int
  pSize :: int

definition cur_field :: "'p pb_field_iter \<Rightarrow> 'p pb_field" where
  "cur_field iter = start iter ! pos iter"

definition pb_field_iter_begin :: "'p pb_field list \<Rightarrow> int \<Rightarrow> bool \<times> 'p pb_field_iter" where
  "pb_field_iter_begin fs dest =
     (let f = fs ! 0
      in (tag f \<noteq> 0,
          \<lparr> start = fs, pos = 0, required_field_index = 0, dest_struct = dest,
            pData = dest + int (data_offset f), pSize = dest + int (data_offset f) + size_offset f \<rparr>))"

text \<open>\<open>sizeof(void * )\<close> is eight.\<close>

definition pb_field_iter_next :: "'p pb_field_iter \<Rightarrow> bool \<times> 'p pb_field_iter" where
  "pb_field_iter_next iter =
     (let prev = cur_field iter
      in if tag prev = 0 then (False, iter)
         else let iter = iter\<lparr> pos := pos iter + 1 \<rparr>; f = cur_field iter
              in if tag f = 0 then (False, snd (pb_field_iter_begin (start iter) (dest_struct iter)))
                 else let prev_size = data_size prev
                      in if PB_HTYPE (ftype prev) = PB_HTYPE_ONEOF \<and> PB_HTYPE (ftype f) = PB_HTYPE_ONEOF \<and>
                            data_offset f = PB_SIZE_MAX
                         then (True, iter)
                         else let prev_size =
                                    (if PB_ATYPE (ftype prev) = PB_ATYPE_STATIC \<and> PB_HTYPE (ftype prev) = PB_HTYPE_REPEATED
                                     then prev_size * array_size prev
                                     else if PB_ATYPE (ftype prev) = PB_ATYPE_POINTER then 8
                                     else prev_size);
                                  iter = (if PB_HTYPE (ftype prev) = PB_HTYPE_REQUIRED
                                          then iter\<lparr> required_field_index := required_field_index iter + 1 \<rparr> else iter);
                                  d = pData iter + int prev_size + int (data_offset f)
                              in (True, iter\<lparr> pData := d, pSize := d + size_offset f \<rparr>))"

definition field_matches :: "u32 \<Rightarrow> 'p pb_field \<Rightarrow> bool" where
  "field_matches t f \<longleftrightarrow> tag f = t \<and> PB_LTYPE (ftype f) \<noteq> PB_LTYPE_EXTENSION"

text \<open>The loop of \<open>pb_field_iter_find\<close>, with fuel; \<open>None\<close> if the fuel runs out.\<close>

fun find_loop :: "nat \<Rightarrow> nat \<Rightarrow> u32 \<Rightarrow> 'p pb_field_iter \<Rightarrow> (bool \<times> 'p pb_field_iter) option" where
  "find_loop 0 first t iter = None"
| "find_loop (Suc fuel) first t iter =
     (if field_matches t (cur_field iter) then Some (True, iter)
      else let iter = snd (pb_field_iter_next iter)
           in if pos iter \<noteq> first then find_loop fuel first t iter else Some (False, iter))"

definition pb_field_iter_find :: "'p pb_field_iter \<Rightarrow> u32 \<Rightarrow> (bool \<times> 'p pb_field_iter) option" where
  "pb_field_iter_find iter t = find_loop (length (start iter)) (pos iter) t iter"

section \<open>The positions of the iterator\<close>

text \<open>A descriptor array with \<open>n\<close> fields and its terminator.\<close>

definition message_fields :: "nat \<Rightarrow> 'p pb_field list \<Rightarrow> bool" where
  "message_fields n fs \<longleftrightarrow> length fs = Suc n \<and> tag (fs ! n) = 0 \<and> (\<forall>i<n. tag (fs ! i) \<noteq> 0)"

fun iter_at :: "'p pb_field list \<Rightarrow> int \<Rightarrow> nat \<Rightarrow> 'p pb_field_iter" where
  "iter_at fs dest 0 = snd (pb_field_iter_begin fs dest)"
| "iter_at fs dest (Suc i) = snd (pb_field_iter_next (iter_at fs dest i))"

lemma begin_sel [simp]:
  "start (snd (pb_field_iter_begin fs dest)) = fs" "pos (snd (pb_field_iter_begin fs dest)) = 0"
  "dest_struct (snd (pb_field_iter_begin fs dest)) = dest"
  "required_field_index (snd (pb_field_iter_begin fs dest)) = 0"
  by (simp_all add: pb_field_iter_begin_def Let_def)

text \<open>Inside the array the position advances by one; the required fields passed are counted.\<close>

lemma iter_next_inside:
  assumes "tag (cur_field it) \<noteq> 0" "tag (start it ! Suc (pos it)) \<noteq> 0"
  shows "fst (pb_field_iter_next it)" "pos (snd (pb_field_iter_next it)) = Suc (pos it)"
    "start (snd (pb_field_iter_next it)) = start it" "dest_struct (snd (pb_field_iter_next it)) = dest_struct it"
    "required_field_index (snd (pb_field_iter_next it)) = required_field_index it +
       (if PB_HTYPE (ftype (cur_field it)) = PB_HTYPE_REQUIRED then 1 else 0)"
  using assms by (auto simp: pb_field_iter_next_def cur_field_def Let_def)

lemma iter_next_last:
  "tag (cur_field it) \<noteq> 0 \<Longrightarrow> tag (start it ! Suc (pos it)) = 0 \<Longrightarrow>
    pb_field_iter_next it = (False, snd (pb_field_iter_begin (start it) (dest_struct it)))"
  by (simp add: pb_field_iter_next_def cur_field_def Let_def)

lemma iter_at_inside:
  assumes "message_fields n fs"
  shows "i < n \<Longrightarrow> start (iter_at fs dest i) = fs \<and> pos (iter_at fs dest i) = i \<and>
    dest_struct (iter_at fs dest i) = dest \<and>
    required_field_index (iter_at fs dest i) =
      length (filter (\<lambda>f. PB_HTYPE (ftype f) = PB_HTYPE_REQUIRED) (take i fs))"
proof (induction i)
  case 0
  then show ?case by simp
next
  case (Suc i)
  let ?it = "iter_at fs dest i"
  from Suc have it: "start ?it = fs" "pos ?it = i" "dest_struct ?it = dest"
    "required_field_index ?it = length (filter (\<lambda>f. PB_HTYPE (ftype f) = PB_HTYPE_REQUIRED) (take i fs))" by simp_all
  have nz: "tag (cur_field ?it) \<noteq> 0" "tag (start ?it ! Suc (pos ?it)) \<noteq> 0"
    using assms Suc.prems by (simp_all add: message_fields_def cur_field_def it)
  have "take (Suc i) fs = take i fs @ [fs ! i]"
    using assms Suc.prems by (intro take_Suc_conv_app_nth) (simp add: message_fields_def)
  then show ?case using iter_next_inside [OF nz] it by (simp add: cur_field_def)
qed

lemma iter_at_next:
  assumes "message_fields n fs" "i < n"
  shows "snd (pb_field_iter_next (iter_at fs dest i)) = iter_at fs dest (if Suc i = n then 0 else Suc i)"
    "fst (pb_field_iter_next (iter_at fs dest i)) \<longleftrightarrow> Suc i \<noteq> n"
proof -
  let ?it = "iter_at fs dest i"
  from iter_at_inside [OF assms] have it: "start ?it = fs" "pos ?it = i" "dest_struct ?it = dest" by simp_all
  have nz: "tag (cur_field ?it) \<noteq> 0" using assms by (simp add: message_fields_def cur_field_def it)
  have z: "tag (start ?it ! Suc (pos ?it)) = 0 \<longleftrightarrow> Suc i = n"
  proof -
    have "Suc i < n \<or> Suc i = n" using assms(2) by linarith
    then show ?thesis using assms by (auto simp: message_fields_def it)
  qed
  show "snd (pb_field_iter_next ?it) = iter_at fs dest (if Suc i = n then 0 else Suc i)"
    using iter_next_last [OF nz] z it by (cases "Suc i = n") simp_all
  show "fst (pb_field_iter_next ?it) \<longleftrightarrow> Suc i \<noteq> n"
    using iter_next_last [OF nz] iter_next_inside(1) [OF nz] z by (cases "Suc i = n") simp_all
qed


section \<open>Searching\<close>

text \<open>The positions in the order of the search from \<open>i\<close>.\<close>

definition search_order :: "nat \<Rightarrow> nat \<Rightarrow> nat list" where
  "search_order n i = map (\<lambda>k. (i + k) mod n) [0..<n]"

lemma length_search_order [simp]: "length (search_order n i) = n"
  by (simp add: search_order_def)

lemma search_order_drop:
  assumes "m < n"
  shows "drop m (search_order n i) = (i + m) mod n # drop (Suc m) (search_order n i)"
proof -
  have "search_order n i ! m = (i + m) mod n" using assms by (simp add: search_order_def)
  then show ?thesis using Cons_nth_drop_Suc [of m "search_order n i"] assms by simp
qed

lemma search_order_wrap:
  assumes "i < n" "m < n"
  shows "(i + Suc m) mod n = i \<longleftrightarrow> Suc m = n"
proof (cases "i + Suc m < n")
  case True
  then show ?thesis using assms by simp
next
  case False
  have "(i + Suc m) mod n = (i + Suc m - n) mod n" using False by (simp add: le_mod_geq)
  also have "\<dots> = i + Suc m - n" using assms by (intro mod_less) linarith
  finally show ?thesis using False assms by auto
qed

lemma find_loop_order:
  assumes mf: "message_fields n fs" and i: "i < n"
  shows "m < n \<Longrightarrow> n - m \<le> fuel \<Longrightarrow>
    find_loop fuel i t (iter_at fs dest ((i + m) mod n)) =
      Some (case find (\<lambda>j. field_matches t (fs ! j)) (drop m (search_order n i)) of
              Some j \<Rightarrow> (True, iter_at fs dest j) | None \<Rightarrow> (False, iter_at fs dest i))"
proof (induction "n - m" arbitrary: m fuel)
  case 0
  then show ?case by simp
next
  case (Suc d)
  then obtain f where f: "fuel = Suc f" by (cases fuel) auto
  let ?j = "(i + m) mod n"
  have j: "?j < n" using i by simp
  note at = iter_at_inside [OF mf j, of dest]
  have cur: "cur_field (iter_at fs dest ?j) = fs ! ?j" using at by (simp add: cur_field_def)
  show ?case
  proof (cases "field_matches t (fs ! ?j)")
    case True
    then show ?thesis using Suc.prems f cur by (simp add: search_order_drop)
  next
    case False
    have nx: "snd (pb_field_iter_next (iter_at fs dest ?j)) = iter_at fs dest ((i + Suc m) mod n)"
      using iter_at_next(1) [OF mf j, of dest] mod_Suc [of "i + m" n] by simp
    have p: "pos (iter_at fs dest ((i + Suc m) mod n)) = (i + Suc m) mod n"
      using iter_at_inside [OF mf, of "(i + Suc m) mod n" dest] i by simp
    show ?thesis
    proof (cases "Suc m = n")
      case True
      then show ?thesis using False f cur nx p search_order_wrap [OF i Suc.prems(1)] Suc.prems(1)
        by (simp add: search_order_drop [OF Suc.prems(1)])
    next
      case more: False
      then have "Suc m < n" using Suc.prems(1) by simp
      moreover have "d = n - Suc m" using Suc.hyps(2) by simp
      ultimately have "find_loop f i t (iter_at fs dest ((i + Suc m) mod n)) =
          Some (case find (\<lambda>j. field_matches t (fs ! j)) (drop (Suc m) (search_order n i)) of
              Some j \<Rightarrow> (True, iter_at fs dest j) | None \<Rightarrow> (False, iter_at fs dest i))"
        using Suc.hyps(1) [of "Suc m" f] Suc.prems(2) f by simp
      then show ?thesis using False f cur nx p search_order_wrap [OF i Suc.prems(1)] more
        by (simp add: search_order_drop [OF Suc.prems(1)])
    qed
  qed
qed

section \<open>The addresses of the members\<close>

text \<open>
  What the macros of \<open>pb.h\<close> make of a struct. A member has a tag, the bits of its type (allocation, rules and wire
  type), its offset and size, the size of one entry \<open>m[0]\<close> and, if there is one, the offset of its \<open>has_\<close>, \<open>_count\<close> or
  \<open>which_\<close> member. A placement says how the member follows the previous one.
\<close>

record member =
  m_tag :: u32
  m_type :: u8
  m_offset :: nat
  m_size :: nat
  m_entry :: nat
  m_flag :: "nat option"
  m_ptr :: int

datatype placement = FIRST | OTHER | UNION

text \<open>\<open>PB_DATAOFFSET_FIRST\<close>, \<open>PB_DATAOFFSET_OTHER\<close> and \<open>PB_DATAOFFSET_UNION\<close>, stored in 32 bits.\<close>

definition PB_DATAOFFSET :: "placement \<Rightarrow> member \<Rightarrow> member \<Rightarrow> nat" where
  "PB_DATAOFFSET placement m prev =
     (case placement of
        FIRST \<Rightarrow> m_offset m
      | OTHER \<Rightarrow> nat ((int (m_offset m) - int (m_offset prev) - int (m_size prev)) mod 2 ^ 32)
      | UNION \<Rightarrow> PB_SIZE_MAX)"

definition static_array :: "u8 \<Rightarrow> bool" where
  "static_array ty \<longleftrightarrow> PB_ATYPE ty = PB_ATYPE_STATIC \<and> PB_HTYPE ty = PB_HTYPE_REPEATED"

text \<open>\<open>PB_FIELD\<close>, \<open>PB_ONEOF_FIELD\<close> and \<open>PB_REPEATED_FIXED_COUNT\<close>, by the rules and allocation in the type.\<close>

definition PB_FIELD :: "placement \<Rightarrow> member \<Rightarrow> member \<Rightarrow> int pb_field" where
  "PB_FIELD placement m prev =
     \<lparr> tag = m_tag m, ftype = m_type m, data_offset = PB_DATAOFFSET placement m prev,
       size_offset = (case m_flag m of None \<Rightarrow> 0 | Some flag \<Rightarrow> int flag - int (m_offset m)),
       data_size = (if static_array (m_type m) \<or> PB_ATYPE (m_type m) = PB_ATYPE_POINTER then m_entry m else m_size m),
       array_size = (if static_array (m_type m) then m_size m div m_entry m else 0), ptr = m_ptr m \<rparr>"

definition PB_LAST_FIELD :: "int pb_field" where
  "PB_LAST_FIELD = \<lparr> tag = 0, ftype = 0, data_offset = 0, size_offset = 0, data_size = 0, array_size = 0, ptr = 0 \<rparr>"

fun descriptors :: "member \<Rightarrow> (placement \<times> member) list \<Rightarrow> int pb_field list" where
  "descriptors prev [] = [PB_LAST_FIELD]"
| "descriptors prev ((pl, m) # ms) = PB_FIELD pl m prev # descriptors m ms"

definition pb_fields :: "(placement \<times> member) list \<Rightarrow> int pb_field list" where
  "pb_fields ms = descriptors (snd (hd ms)) ms"

text \<open>
  A struct as a compiler lays it out: members one after the other, those of a union at the same place with the same
  \<open>which_\<close> member, pointers of eight bytes, arrays of whole entries, less than 2 GiB in all.
\<close>

definition member_ok :: "member \<Rightarrow> bool" where
  "member_ok m \<longleftrightarrow> m_tag m \<noteq> 0 \<and> m_offset m + m_size m < 2 ^ 31 \<and>
     (PB_ATYPE (m_type m) = PB_ATYPE_POINTER \<longrightarrow> m_size m = 8) \<and> (static_array (m_type m) \<longrightarrow> m_entry m dvd m_size m)"

definition follows :: "placement \<times> member \<Rightarrow> member \<Rightarrow> bool" where
  "follows p prev \<longleftrightarrow>
     (case p of
        (FIRST, m) \<Rightarrow> False
      | (OTHER, m) \<Rightarrow> m_offset prev + m_size prev \<le> m_offset m
      | (UNION, m) \<Rightarrow> PB_HTYPE (m_type prev) = PB_HTYPE_ONEOF \<and> PB_HTYPE (m_type m) = PB_HTYPE_ONEOF \<and>
          m_offset m = m_offset prev \<and> m_flag m = m_flag prev)"

definition struct_layout :: "(placement \<times> member) list \<Rightarrow> bool" where
  "struct_layout ms \<longleftrightarrow> ms \<noteq> [] \<and> fst (ms ! 0) = FIRST \<and> (\<forall>i < length ms. member_ok (snd (ms ! i))) \<and>
     (\<forall>i. Suc i < length ms \<longrightarrow> follows (ms ! Suc i) (snd (ms ! i)))"

text \<open>The iterator on member \<open>i\<close>: the addresses of the member and of its flag, and the required fields before it.\<close>

definition field_iter :: "(placement \<times> member) list \<Rightarrow> int \<Rightarrow> nat \<Rightarrow> int pb_field_iter" where
  "field_iter ms dest i =
     (let m = snd (ms ! i)
      in \<lparr> start = pb_fields ms, pos = i,
           required_field_index = length (filter (\<lambda>(_, m). PB_HTYPE (m_type m) = PB_HTYPE_REQUIRED) (take i ms)),
           dest_struct = dest, pData = dest + int (m_offset m),
           pSize = dest + int (case m_flag m of None \<Rightarrow> m_offset m | Some flag \<Rightarrow> flag) \<rparr>)"

lemma length_descriptors [simp]: "length (descriptors prev ms) = Suc (length ms)"
  by (induction prev ms rule: descriptors.induct) auto

lemma descriptors_nth:
  "i < length ms \<Longrightarrow>
    descriptors prev ms ! i = PB_FIELD (fst (ms ! i)) (snd (ms ! i)) (if i = 0 then prev else snd (ms ! (i - 1)))"
proof (induction prev ms arbitrary: i rule: descriptors.induct)
  case (2 prev pl m ms)
  then show ?case by (cases i) (auto simp: nth_Cons split: nat.split)
qed simp

lemma descriptors_last: "descriptors prev ms ! length ms = PB_LAST_FIELD"
  by (induction prev ms rule: descriptors.induct) auto

lemma PB_FIELD_sel [simp]:
  "tag (PB_FIELD pl m prev) = m_tag m" "ftype (PB_FIELD pl m prev) = m_type m"
  "data_offset (PB_FIELD pl m prev) = PB_DATAOFFSET pl m prev"
  by (simp_all add: PB_FIELD_def)

lemma layout_fields:
  assumes "struct_layout ms"
  shows "message_fields (length ms) (pb_fields ms)"
  using assms descriptors_last [of "snd (hd ms)" ms]
  by (auto simp: message_fields_def pb_fields_def struct_layout_def member_ok_def descriptors_nth PB_LAST_FIELD_def)

text \<open>The size that the iterator skips is the size of the member.\<close>

lemma member_step:
  assumes "member_ok m"
  shows "(if PB_ATYPE (m_type m) = PB_ATYPE_STATIC \<and> PB_HTYPE (m_type m) = PB_HTYPE_REPEATED
          then data_size (PB_FIELD pl m prev) * array_size (PB_FIELD pl m prev)
          else if PB_ATYPE (m_type m) = PB_ATYPE_POINTER then 8 else data_size (PB_FIELD pl m prev)) = m_size m"
  using assms by (auto simp: PB_FIELD_def member_ok_def static_array_def)

lemma next_member:
  assumes l: "struct_layout ms" and i: "Suc i < length ms"
  shows "pb_field_iter_next (field_iter ms dest i) = (True, field_iter ms dest (Suc i))"
proof -
  let ?m = "snd (ms ! i)" and ?n = "snd (ms ! Suc i)" and ?pl = "fst (ms ! Suc i)"
  obtain q where f: "pb_fields ms ! i = PB_FIELD (fst (ms ! i)) ?m q" "pb_fields ms ! Suc i = PB_FIELD ?pl ?n ?m"
    using i descriptors_nth [of i ms] descriptors_nth [of "Suc i" ms] by (simp add: pb_fields_def)
  have ok: "member_ok ?m" "member_ok ?n" "follows (?pl, ?n) ?m"
    using l i by (auto simp: struct_layout_def)
  have nz: "m_tag ?m \<noteq> 0" "m_tag ?n \<noteq> 0" using ok by (simp_all add: member_ok_def)
  have req: "take (Suc i) ms = take i ms @ [ms ! i]" using i by (simp add: take_Suc_conv_app_nth)
  have step: "pb_field_iter_next (field_iter ms dest i) =
      (if PB_HTYPE (m_type ?m) = PB_HTYPE_ONEOF \<and> PB_HTYPE (m_type ?n) = PB_HTYPE_ONEOF \<and>
          PB_DATAOFFSET ?pl ?n ?m = PB_SIZE_MAX
       then (True, (field_iter ms dest i)\<lparr> pos := Suc i \<rparr>)
       else let it = (field_iter ms dest i)\<lparr> pos := Suc i \<rparr>;
                it = (if PB_HTYPE (m_type ?m) = PB_HTYPE_REQUIRED
                      then it\<lparr> required_field_index := required_field_index it + 1 \<rparr> else it);
                d = dest + int (m_offset ?m) + int (m_size ?m) + int (PB_DATAOFFSET ?pl ?n ?m)
            in (True, it\<lparr> pData := d, pSize := d + size_offset (PB_FIELD ?pl ?n ?m) \<rparr>))"
    using nz f member_step [OF ok(1), of "fst (ms ! i)" q]
    by (auto simp: pb_field_iter_next_def cur_field_def field_iter_def Let_def split: if_split_asm)
  show ?thesis
  proof (cases ?pl)
    case FIRST
    then show ?thesis using ok(3) by (simp add: follows_def)
  next
    case OTHER
    then have o: "m_offset ?m + m_size ?m \<le> m_offset ?n" using ok(3) by (simp add: follows_def)
    have "m_offset ?n < 2 ^ 31" using ok(2) by (simp add: member_ok_def)
    then have d: "PB_DATAOFFSET ?pl ?n ?m = m_offset ?n - m_offset ?m - m_size ?m"
      using o OTHER by (simp add: PB_DATAOFFSET_def nat_eq_iff)
    then have "PB_DATAOFFSET ?pl ?n ?m \<noteq> PB_SIZE_MAX" using \<open>m_offset ?n < 2 ^ 31\<close> by (simp add: PB_SIZE_MAX_def)
    then show ?thesis unfolding step using d o req
      by (cases "ms ! i") (simp add: field_iter_def Let_def PB_FIELD_def split: option.split)
  next
    case UNION
    then have u: "PB_HTYPE (m_type ?m) = PB_HTYPE_ONEOF" "PB_HTYPE (m_type ?n) = PB_HTYPE_ONEOF"
      "m_offset ?n = m_offset ?m" "m_flag ?n = m_flag ?m" "PB_DATAOFFSET ?pl ?n ?m = PB_SIZE_MAX"
      using ok(3) by (simp_all add: follows_def PB_DATAOFFSET_def)
    then show ?thesis unfolding step using req by (cases "ms ! i") (simp add: field_iter_def Let_def split: option.split)
  qed
qed

lemma begin_member:
  assumes "struct_layout ms"
  shows "pb_field_iter_begin (pb_fields ms) dest = (True, field_iter ms dest 0)"
proof -
  have "pb_fields ms ! 0 = PB_FIELD FIRST (snd (ms ! 0)) (snd (hd ms))" "member_ok (snd (ms ! 0))"
    using assms descriptors_nth [of 0 ms] by (auto simp: struct_layout_def pb_fields_def)
  then show ?thesis
    by (auto simp: pb_field_iter_begin_def field_iter_def PB_DATAOFFSET_def PB_FIELD_def member_ok_def Let_def split: option.split)
qed

lemma iter_at_member: "struct_layout ms \<Longrightarrow> i < length ms \<Longrightarrow> iter_at (pb_fields ms) dest i = field_iter ms dest i"
  by (induction i) (simp_all add: begin_member next_member)

text \<open>
  C24. On the descriptors that the macros of \<open>pb.h\<close> make of a struct, the iterator knows its addresses: it starts on the first
  member, steps from each to the next and from the last back to the first, and the search for a tag ends, within the fuel
  of one round, on the first matching member in cyclic order or back where it was. On every member its pointers are the
  addresses of the member and of its \<open>has_\<close>, \<open>_count\<close> or \<open>which_\<close> member in the struct.
\<close>

theorem field_search:
  assumes "struct_layout ms" "i < length ms"
  shows "pb_field_iter_begin (pb_fields ms) dest = (True, field_iter ms dest 0) \<and>
    pb_field_iter_next (field_iter ms dest i) =
      (if Suc i < length ms then (True, field_iter ms dest (Suc i)) else (False, field_iter ms dest 0)) \<and>
    pb_field_iter_find (field_iter ms dest i) t =
      Some (case find (\<lambda>j. m_tag (snd (ms ! j)) = t \<and> PB_LTYPE (m_type (snd (ms ! j))) \<noteq> PB_LTYPE_EXTENSION)
                   (map (\<lambda>k. (i + k) mod length ms) [0..<length ms]) of
              Some j \<Rightarrow> (True, field_iter ms dest j) | None \<Rightarrow> (False, field_iter ms dest i))"
proof (intro conjI)
  let ?n = "length ms" and ?fs = "pb_fields ms"
  note mf = layout_fields [OF assms(1)] and at = iter_at_member [OF assms(1)]
  have n: "0 < ?n" using assms(2) by linarith
  show "pb_field_iter_begin ?fs dest = (True, field_iter ms dest 0)" by (rule begin_member [OF assms(1)])
  show "pb_field_iter_next (field_iter ms dest i) =
      (if Suc i < ?n then (True, field_iter ms dest (Suc i)) else (False, field_iter ms dest 0))"
  proof (cases "Suc i < ?n")
    case True
    then show ?thesis using next_member [OF assms(1) True] by simp
  next
    case False
    then have "Suc i = ?n" using assms(2) by simp
    then show ?thesis
      using iter_at_next [OF mf assms(2), of dest] unfolding at [OF assms(2)] by (simp add: begin_member [OF assms(1)] prod_eq_iff)
  qed
  have j: "(i + k) mod ?n < ?n" for k using n by simp
  have m: "field_matches t (?fs ! j) \<longleftrightarrow> m_tag (snd (ms ! j)) = t \<and> PB_LTYPE (m_type (snd (ms ! j))) \<noteq> PB_LTYPE_EXTENSION"
    if "j < ?n" for j using that by (simp add: field_matches_def pb_fields_def descriptors_nth)
  have order: "set (search_order ?n i) \<subseteq> {..<?n}" using j by (auto simp: search_order_def)
  have f: "find (\<lambda>j. field_matches t (?fs ! j)) (search_order ?n i) =
      find (\<lambda>j. m_tag (snd (ms ! j)) = t \<and> PB_LTYPE (m_type (snd (ms ! j))) \<noteq> PB_LTYPE_EXTENSION) (search_order ?n i)"
    using order m by (intro find_cong) auto
  have s: "find P (search_order ?n i) = Some k \<Longrightarrow> k < ?n" for P k
    using j by (auto simp: find_Some_iff search_order_def)
  have "pos (field_iter ms dest i) = i" "start (field_iter ms dest i) = ?fs" by (simp_all add: field_iter_def Let_def)
  then show "pb_field_iter_find (field_iter ms dest i) t =
      Some (case find (\<lambda>j. m_tag (snd (ms ! j)) = t \<and> PB_LTYPE (m_type (snd (ms ! j))) \<noteq> PB_LTYPE_EXTENSION)
                   (map (\<lambda>k. (i + k) mod ?n) [0..<?n]) of
              Some j \<Rightarrow> (True, field_iter ms dest j) | None \<Rightarrow> (False, field_iter ms dest i))"
    using find_loop_order [OF mf assms(2), of 0 "length ?fs" t dest] at [OF assms(2), of dest] at [OF s, of _ _ dest] n assms(2) f
    by (auto simp: pb_field_iter_find_def pb_fields_def search_order_def split: option.split)
qed

text \<open>A struct of an array of three 32-bit integers with its count at offset 0, and an optional one with its flag.\<close>

definition demo_struct :: "(placement \<times> member) list" where
  "demo_struct =
     [(FIRST, \<lparr> m_tag = 1, m_type = 0x21, m_offset = 4, m_size = 12, m_entry = 4, m_flag = Some 0, m_ptr = 0 \<rparr>),
      (OTHER, \<lparr> m_tag = 2, m_type = 0x11, m_offset = 20, m_size = 4, m_entry = 4, m_flag = Some 16, m_ptr = 0 \<rparr>)]"

theorem field_search_witness:
  "pb_field_iter_find (field_iter demo_struct 100 0) 2 = Some (True, field_iter demo_struct 100 1) \<and>
   pData (field_iter demo_struct 100 1) = 120 \<and> pSize (field_iter demo_struct 100 1) = 116"
proof -
  have t: "PB_ATYPE 0x21 = 0" "PB_HTYPE 0x21 = 0x20" "PB_ATYPE 0x11 = 0" "PB_HTYPE 0x11 = 0x10" "PB_LTYPE 0x11 = 1"
    by code_simp+
  have "struct_layout demo_struct"
    by (auto simp: struct_layout_def demo_struct_def member_ok_def follows_def static_array_def t less_Suc_eq)
  from field_search [OF this, of 0 100 2] show ?thesis
    by (simp add: demo_struct_def upt_conv_Cons t field_iter_def)
qed

text \<open>
  C25. A message without fields is different: the iterator stays on the terminator, and a search for
  tag zero succeeds there, so a decoder that meets a zero field number takes it for a field.
\<close>

theorem empty_message_matches_zero_tag:
  assumes "message_fields 0 fs" "PB_LTYPE (ftype (fs ! 0)) = PB_LTYPE_BOOL"
  shows "pb_field_iter_find (snd (pb_field_iter_begin fs dest)) 0 = Some (True, snd (pb_field_iter_begin fs dest)) \<and>
    fst (pb_field_iter_next (snd (pb_field_iter_begin fs dest))) = False \<and>
    (t \<noteq> 0 \<longrightarrow> pb_field_iter_find (snd (pb_field_iter_begin fs dest)) t = Some (False, snd (pb_field_iter_begin fs dest)))"
  using assms
  by (simp add: message_fields_def pb_field_iter_find_def field_matches_def cur_field_def pb_field_iter_next_def Let_def)

theorem empty_message_matches_zero_tag_witness:
  "pb_field_iter_find (snd (pb_field_iter_begin [demo_sint32\<lparr> tag := 0, ftype := 0 \<rparr>] 0)) 0 =
    Some (True, snd (pb_field_iter_begin [demo_sint32\<lparr> tag := 0, ftype := 0 \<rparr>] 0))"
  using empty_message_matches_zero_tag [of "[demo_sint32\<lparr> tag := 0, ftype := 0 \<rparr>]" 0 1]
  by (simp add: message_fields_def PB_LTYPE_def)

end
