(* ===== verification/PbHeap.thy ===== *)
theory PbHeap
  imports PbIter "HOL-Library.Monad_Syntax"
begin

text \<open>
  The memory that messages live in: a list of objects, each a block of bytes at an address. A
  pointer is an address, stored in eight little-endian bytes, with zero for \<open>NULL\<close>. \<open>region h p\<close> is
  what can be accessed from \<open>p\<close> on: the bytes up to the end of the object that contains \<open>p\<close>. An access
  outside every object is the result \<open>None\<close>.
\<close>

type_synonym heap = "(int \<times> u8 list) list"

definition inside :: "int \<Rightarrow> int \<times> u8 list \<Rightarrow> bool" where
  "inside p obj = (fst obj \<le> p \<and> p < fst obj + int (length (snd obj)))"

definition region :: "heap \<Rightarrow> int \<Rightarrow> u8 list option" where
  "region h p = map_option (\<lambda>(base, bs). drop (nat (p - base)) bs) (find (inside p) h)"

section \<open>Reading\<close>

definition load_bytes :: "heap \<Rightarrow> int \<Rightarrow> nat \<Rightarrow> u8 list option" where
  "load_bytes h p n =
     (let bs = take n (case region h p of None \<Rightarrow> [] | Some bs \<Rightarrow> bs) in if length bs = n then Some bs else None)"

definition load_mem :: "heap \<Rightarrow> int \<Rightarrow> nat \<Rightarrow> nat option" where
  "load_mem h p n =
     (case region h p of None \<Rightarrow> None | Some bs \<Rightarrow> if n \<le> length bs then Some (load n bs) else None)"

text \<open>A pointer, a \<open>pb_size_t\<close> and a \<open>bool\<close> in memory.\<close>

definition load_ptr :: "heap \<Rightarrow> int \<Rightarrow> int option" where
  "load_ptr h p = map_option int (load_mem h p 8)"

definition load_size :: "heap \<Rightarrow> int \<Rightarrow> nat option" where
  "load_size h p = load_mem h p 4"

definition load_bool :: "heap \<Rightarrow> int \<Rightarrow> bool option" where
  "load_bool h p = map_option safe_read_bool (region h p)"

text \<open>Bytes up to the first nonzero one are read; \<open>None\<close> if memory ends before.\<close>

definition all_zero :: "heap \<Rightarrow> int \<Rightarrow> nat \<Rightarrow> bool option" where
  "all_zero h p n =
     (let bs = take n (case region h p of None \<Rightarrow> [] | Some bs \<Rightarrow> bs)
      in if list_ex (\<lambda>b. b \<noteq> 0) bs then Some False else if length bs = n then Some True else None)"

section \<open>Writing\<close>

fun write_at :: "heap \<Rightarrow> int \<Rightarrow> u8 list \<Rightarrow> heap" where
  "write_at [] p bs = []"
| "write_at (obj # h) p bs =
     (if inside p obj
      then let k = nat (p - fst obj) in (fst obj, take k (snd obj) @ store (drop k (snd obj)) bs) # h
      else obj # write_at h p bs)"

definition store_mem :: "heap \<Rightarrow> int \<Rightarrow> u8 list \<Rightarrow> heap option" where
  "store_mem h p bs =
     (if length bs \<le> length (case region h p of None \<Rightarrow> [] | Some cs \<Rightarrow> cs) then Some (write_at h p bs) else None)"

definition store_ptr :: "heap \<Rightarrow> int \<Rightarrow> int \<Rightarrow> heap option" where
  "store_ptr h p q = store_mem h p (le_bytes 8 (nat q))"

definition store_size :: "heap \<Rightarrow> int \<Rightarrow> nat \<Rightarrow> heap option" where
  "store_size h p n = store_mem h p (le_bytes 4 n)"

definition store_bool :: "heap \<Rightarrow> int \<Rightarrow> bool \<Rightarrow> heap option" where
  "store_bool h p b = store_mem h p [if b then 1 else 0]"

text \<open>Objects by their address: what \<open>free\<close> and \<open>realloc\<close> are given.\<close>

definition block_at :: "heap \<Rightarrow> int \<Rightarrow> u8 list option" where
  "block_at h q = map_of h q"

fun remove_block :: "heap \<Rightarrow> int \<Rightarrow> heap" where
  "remove_block [] q = []"
| "remove_block (obj # h) q = (if fst obj = q then h else obj # remove_block h q)"

definition free_mem :: "heap \<Rightarrow> int \<Rightarrow> heap option" where
  "free_mem h q =
     (if q = 0 then Some h else if block_at h q = None then None else Some (remove_block h q))"

section \<open>Room and change\<close>

lemma region_simps [simp]:
  "region [] p = None"
  "region (obj # h) p = (if inside p obj then Some (drop (nat (p - fst obj)) (snd obj)) else region h p)"
  by (auto simp: region_def split: prod.split)

text \<open>\<open>n\<close> bytes can be accessed at \<open>p\<close>.\<close>

definition room :: "heap \<Rightarrow> int \<Rightarrow> nat \<Rightarrow> bool" where
  "room h p n \<longleftrightarrow> n = 0 \<or> (\<exists>bs. region h p = Some bs \<and> n \<le> length bs)"

lemma room_0 [simp]: "room h p 0"
  by (simp add: room_def)

lemma room_mono: "room h p n \<Longrightarrow> m \<le> n \<Longrightarrow> room h p m"
  by (auto simp: room_def)

definition apart :: "int \<times> u8 list \<Rightarrow> int \<times> u8 list \<Rightarrow> bool" where
  "apart x y \<longleftrightarrow> fst x + int (length (snd x)) \<le> fst y \<or> fst y + int (length (snd y)) \<le> fst x"

fun heap_ok :: "heap \<Rightarrow> bool" where
  "heap_ok [] \<longleftrightarrow> True"
| "heap_ok (x # h) \<longleftrightarrow> list_all (apart x) h \<and> heap_ok h"

lemma apart_not_inside: "apart x y \<Longrightarrow> inside p x \<Longrightarrow> \<not> inside p y"
  by (auto simp: apart_def inside_def)

lemma region_inside: "region h p = Some bs \<Longrightarrow> \<exists>y \<in> set h. inside p y \<and> bs = drop (nat (p - fst y)) (snd y)"
  by (induction h) (auto split: if_splits)

lemma region_apart: "list_all (apart x) h \<Longrightarrow> region h p = Some bs \<Longrightarrow> \<not> inside p x"
  by (drule region_inside) (auto simp: list_all_iff dest: apart_not_inside)

lemma region_shift:
  assumes "heap_ok h" "region h p = Some bs" "k < length bs"
  shows "region h (p + int k) = Some (drop k bs)"
  using assms
proof (induction h)
  case Nil
  then show ?case by simp
next
  case (Cons x h)
  show ?case
  proof (cases "inside p x")
    case True
    then have "bs = drop (nat (p - fst x)) (snd x)" using Cons.prems(2) by simp
    moreover from this have "inside (p + int k) x" using True Cons.prems(3) by (auto simp: inside_def)
    moreover have "nat (p + int k - fst x) = k + nat (p - fst x)" using True by (auto simp: inside_def nat_add_distrib)
    ultimately show ?thesis by simp
  next
    case False
    then have r: "region h p = Some bs" using Cons.prems(2) by simp
    then have IH: "region h (p + int k) = Some (drop k bs)" using Cons by simp
    then show ?thesis using Cons.prems(1) region_apart [of x h "p + int k"] by simp
  qed
qed

lemma room_shift:
  assumes "heap_ok h" "room h p n" "k + m \<le> n"
  shows "room h (p + int k) m"
proof (cases "m = 0")
  case False
  then obtain bs where "region h p = Some bs" "n \<le> length bs" using assms(2,3) by (auto simp: room_def)
  then show ?thesis using region_shift [OF assms(1), of p bs k] assms(3) False by (auto simp: room_def)
qed simp

text \<open>Only bytes at addresses in \<open>A\<close> differ.\<close>

definition same_but :: "int set \<Rightarrow> int \<times> u8 list \<Rightarrow> int \<times> u8 list \<Rightarrow> bool" where
  "same_but A x y \<longleftrightarrow> fst x = fst y \<and> length (snd x) = length (snd y) \<and>
     (\<forall>i < length (snd x). fst x + int i \<in> A \<or> snd x ! i = snd y ! i)"

definition alters :: "int set \<Rightarrow> heap \<Rightarrow> heap \<Rightarrow> bool" where
  "alters A = list_all2 (same_but A)"

lemma alters_refl [simp]: "alters A h h"
  by (simp add: alters_def list_all2_refl same_but_def)

lemma same_but_trans: "same_but A x y \<Longrightarrow> same_but A y z \<Longrightarrow> same_but A x z"
  unfolding same_but_def by metis

lemma alters_trans: "alters A h h' \<Longrightarrow> alters A h' h'' \<Longrightarrow> alters A h h''"
  unfolding alters_def by (rule list_all2_trans [OF same_but_trans])

lemma same_but_mono: "same_but A x y \<Longrightarrow> A \<subseteq> B \<Longrightarrow> same_but B x y"
  unfolding same_but_def by (metis subsetD)

lemma alters_mono: "alters A h h' \<Longrightarrow> A \<subseteq> B \<Longrightarrow> alters B h h'"
  unfolding alters_def by (erule list_all2_mono) (rule same_but_mono)

lemma alters_region:
  "alters A h h' \<Longrightarrow> map_option length (region h' p) = map_option length (region h p)"
  unfolding alters_def
  by (induction rule: list_all2_induct) (auto simp: same_but_def inside_def)

lemma alters_room: "alters A h h' \<Longrightarrow> room h' p n = room h p n"
  using alters_region [of A h h' p] unfolding room_def
  by (cases "region h' p"; cases "region h p") simp_all

lemma alters_heap_ok: "alters A h h' \<Longrightarrow> heap_ok h' = heap_ok h"
  unfolding alters_def
proof (induction rule: list_all2_induct)
  case (Cons x xs y ys)
  have "list_all (apart y) ys = list_all (apart x) xs"
    using Cons(2,1) by (induction rule: list_all2_induct) (auto simp: same_but_def apart_def)
  then show ?case using Cons.IH by simp
qed simp

text \<open>A new object that is apart from the others, and gone again.\<close>

lemma room_push: "list_all (apart x) h \<Longrightarrow> room h p n \<Longrightarrow> room (x # h) p n"
  by (auto simp: room_def dest: region_apart)

lemma alters_pop:
  assumes "alters (A \<union> {loc..<loc + int (length bs)}) ((loc, bs) # h) h'" "list_all (apart (loc, bs)) h"
  shows "alters A h (remove_block h' loc)"
proof -
  from assms(1) obtain bs' h1 where h': "h' = (loc, bs') # h1" "list_all2 (same_but (A \<union> {loc..<loc + int (length bs)})) h h1"
    by (auto simp: alters_def list_all2_Cons1 same_but_def)
  from h'(2) assms(2) have "list_all2 (same_but A) h h1"
  proof (induction rule: list_all2_induct)
    case (Cons x xs y ys)
    have "fst x + int i \<notin> {loc..<loc + int (length bs)}" if "i < length (snd x)" for i
      using Cons.prems that by (auto simp: apart_def)
    then show ?case using Cons by (auto simp: same_but_def)
  qed simp
  then show ?thesis by (simp add: h' alters_def)
qed

section \<open>Writing within the room\<close>

lemma write_at_alters:
  assumes "region h p = Some mem" "length mem' = length mem" "drop n mem' = drop n mem"
  shows "alters {p..<p + int n} h (write_at h p mem')"
  using assms(1)
proof (induction h)
  case (Cons x h)
  show ?case
  proof (cases "inside p x")
    case True
    define k where "k = nat (p - fst x)"
    have k: "mem = drop k (snd x)" "p = fst x + int k" "k < length (snd x)"
      using True Cons.prems by (auto simp: k_def inside_def)
    have s: "store (drop k (snd x)) mem' = mem'" using assms(2) k by (simp add: store_replaces)
    have "same_but {p..<p + int n} x (fst x, take k (snd x) @ mem')"
      unfolding same_but_def
    proof (intro conjI allI impI)
      show "length (snd x) = length (snd (fst x, take k (snd x) @ mem'))" using assms(2) k by simp
    next
      fix i assume i: "i < length (snd x)"
      show "fst x + int i \<in> {p..<p + int n} \<or> snd x ! i = snd (fst x, take k (snd x) @ mem') ! i"
      proof (cases "i < k \<or> k + n \<le> i")
        case True
        moreover have "mem' ! (i - k) = snd x ! i" if "k + n \<le> i"
        proof -
          have "mem' ! (i - k) = drop n mem' ! (i - k - n)" using that i k assms(2) by simp
          also have "\<dots> = snd x ! i" using that i k assms(3) by simp
          finally show ?thesis .
        qed
        ultimately show ?thesis using i k by (auto simp: nth_append)
      next
        case False
        then show ?thesis using k(2) by simp
      qed
    qed simp
    then show ?thesis using True s by (simp add: k_def alters_def Let_def list_all2_refl same_but_def)
  next
    case False
    then show ?thesis using Cons by (simp add: alters_def same_but_def)
  qed
qed simp

lemma store_mem_room:
  assumes "room h p (length bs)"
  obtains h' where "store_mem h p bs = Some h'" "alters {p..<p + int (length bs)} h h'"
proof (cases "region h p")
  case None
  then have "bs = []" using assms by (simp add: room_def)
  moreover have "write_at h p [] = h" using None by (induction h) (auto split: if_splits)
  ultimately show ?thesis using None that [of h] by (simp add: store_mem_def)
next
  case (Some mem)
  then have l: "length bs \<le> length mem" using assms by (auto simp: room_def)
  have w: "write_at h p bs = write_at h p (store mem bs)" using Some
    by (induction h) (auto simp: Let_def store_def split: if_splits)
  show ?thesis
  proof (rule that)
    show "store_mem h p bs = Some (write_at h p bs)" using Some l by (simp add: store_mem_def)
    show "alters {p..<p + int (length bs)} h (write_at h p bs)"
      unfolding w by (rule write_at_alters [OF Some]) (use l in \<open>simp_all add: store_def\<close>)
  qed
qed

lemma load_size_room: "room h p 4 \<Longrightarrow> \<exists>n. load_size h p = Some n"
  by (auto simp: room_def load_size_def load_mem_def)

lemma store_size_room:
  assumes "room h p 4"
  obtains h' where "store_size h p n = Some h'" "alters {p..<p + 4} h h'"
  using store_mem_room [of h p "le_bytes 4 n"] assms by (auto simp: store_size_def)

lemma store_bool_room:
  assumes "room h p 1"
  obtains h' where "store_bool h p b = Some h'" "alters {p..<p + 1} h h'"
  using store_mem_room [of h p "[if b then 1 else 0]"] assms by (auto simp: store_bool_def)

lemma load_bytes_room: "room h p n \<Longrightarrow> \<exists>bs. load_bytes h p n = Some bs \<and> length bs = n"
  by (auto simp: room_def load_bytes_def Let_def)

end
