(* ===== verification/PbDecode.thy ===== *)
theory PbDecode
  imports PbHeap
begin

text \<open>
  Decoding whole messages (\<open>pb_decode.c\<close>): the default values, static, pointer and callback fields,
  packed arrays, oneofs, extensions, required fields, and the release of what was allocated. Results are
  \<open>None\<close> when memory outside every object would be accessed, something freed that is no object, or the
  fuel, which bounds the nesting of messages and the iterations of loops, runs out.
\<close>

section \<open>The surroundings of a decoding\<close>

text \<open>
  The descriptor array at an address; the code behind function pointers, given the stream, the field and
  the address of its argument, or the stream, the extension, the tag and the wire type; where the
  allocator puts a block of a size, with its indeterminate contents; the address of a local variable.
\<close>

record 's dec_env =
  dec_fields :: "int \<Rightarrow> int pb_field list option"
  dec_call :: "int \<Rightarrow> 's pb_istream \<Rightarrow> int pb_field \<Rightarrow> int \<Rightarrow> heap \<Rightarrow> bool \<times> 's pb_istream \<times> heap"
  dec_ext_call :: "int \<Rightarrow> 's pb_istream \<Rightarrow> int \<Rightarrow> nat \<Rightarrow> nat \<Rightarrow> heap \<Rightarrow> bool \<times> 's pb_istream \<times> heap"
  dec_alloc :: "heap \<Rightarrow> nat \<Rightarrow> (int \<times> u8 list) option"
  dec_local :: "heap \<Rightarrow> int"

type_synonym 's dec_result = "(bool \<times> 's pb_istream \<times> heap) option"

type_synonym 's decoder = "'s pb_istream \<Rightarrow> heap \<Rightarrow> 's dec_result"

definition dec_fail :: "string \<Rightarrow> 's decoder" where
  "dec_fail msg s h = Some (False, snd (in_error msg s :: unit option \<times> 's pb_istream), h)"

text \<open>\<open>if (!r) return false; k\<close> for a result and for a read from the stream.\<close>

definition dec_then :: "'s dec_result \<Rightarrow> 's decoder \<Rightarrow> 's dec_result" where
  "dec_then r k = (case r of None \<Rightarrow> None | Some (ok, s, h) \<Rightarrow> if ok then k s h else Some (False, s, h))"

definition dec_get :: "'a option \<times> 's pb_istream \<Rightarrow> heap \<Rightarrow> ('a \<Rightarrow> 's decoder) \<Rightarrow> 's dec_result" where
  "dec_get r h k = (case r of (None, s) \<Rightarrow> Some (False, s, h) | (Some v, s) \<Rightarrow> k v s h)"

text \<open>A decoder of a value on the memory at \<open>p\<close>; one that writes past the object is undefined.\<close>

definition dec_at :: "('s pb_istream \<Rightarrow> u8 list \<Rightarrow> bool \<times> 's pb_istream \<times> u8 list) \<Rightarrow> int \<Rightarrow> 's decoder" where
  "dec_at f p s h =
     (let mem = (case region h p of None \<Rightarrow> [] | Some bs \<Rightarrow> bs)
      in case f s mem of (ok, s, mem') \<Rightarrow> if length mem' = length mem then Some (ok, s, write_at h p mem') else None)"

section \<open>Default values\<close>

text \<open>The \<open>do ... while (pb_field_iter_next(&iter))\<close> loop over a message.\<close>

fun iter_loop :: "(int pb_field_iter \<Rightarrow> heap \<Rightarrow> heap option) \<Rightarrow> nat \<Rightarrow> int pb_field_iter \<Rightarrow> heap \<Rightarrow> heap option" where
  "iter_loop f 0 iter h = None"
| "iter_loop f (Suc n) iter h =
     do { h \<leftarrow> f iter h;
          (case pb_field_iter_next iter of (True, iter) \<Rightarrow> iter_loop f n iter h | (False, _) \<Rightarrow> Some h) }"

definition message_loop ::
  "(int pb_field_iter \<Rightarrow> heap \<Rightarrow> heap option) \<Rightarrow> int pb_field list \<Rightarrow> int \<Rightarrow> heap \<Rightarrow> heap option" where
  "message_loop f fs dest h =
     (case pb_field_iter_begin fs dest of (False, _) \<Rightarrow> Some h | (True, iter) \<Rightarrow> iter_loop f (length fs) iter h)"

text \<open>\<open>found\<close> is at offset 24 of a \<open>pb_extension_t\<close>.\<close>

definition iter_from_extension :: "'s dec_env \<Rightarrow> int \<Rightarrow> heap \<Rightarrow> int pb_field_iter option" where
  "iter_from_extension env ext h =
     do { ty \<leftarrow> load_ptr h ext;
          arg \<leftarrow> load_ptr h (ty + 16);
          fs \<leftarrow> dec_fields env arg;
          dest \<leftarrow> load_ptr h (ext + 8);
          Some ((snd (pb_field_iter_begin fs dest))\<lparr> pData := if is_pointer (fs ! 0) then ext + 8 else dest, pSize := ext + 24 \<rparr>) }"

fun ext_list_loop :: "(int \<Rightarrow> heap \<Rightarrow> heap option) \<Rightarrow> nat \<Rightarrow> int \<Rightarrow> heap \<Rightarrow> heap option" where
  "ext_list_loop f 0 ext h = None"
| "ext_list_loop f (Suc n) ext h =
     (if ext = 0 then Some h
      else do { h \<leftarrow> f ext h; next_ext \<leftarrow> load_ptr h (ext + 16); ext_list_loop f n next_ext h })"

fun pb_field_set_to_default :: "'s dec_env \<Rightarrow> nat \<Rightarrow> int pb_field_iter \<Rightarrow> heap \<Rightarrow> heap option" where
  "pb_field_set_to_default env 0 iter h = None"
| "pb_field_set_to_default env (Suc fuel) iter h =
     (let field = cur_field iter; t = ftype field; htype = PB_HTYPE t;
          counted = (htype = PB_HTYPE_REPEATED \<or> htype = PB_HTYPE_ONEOF)
      in if PB_LTYPE t = PB_LTYPE_EXTENSION
         then do { ext \<leftarrow> load_ptr h (pData iter);
                   ext_list_loop (\<lambda>ext h. do { h \<leftarrow> store_bool h (ext + 24) False;
                                               ext_iter \<leftarrow> iter_from_extension env ext h;
                                               pb_field_set_to_default env fuel ext_iter h }) fuel ext h }
         else if PB_ATYPE t = PB_ATYPE_STATIC
         then do { h \<leftarrow> (if htype = PB_HTYPE_OPTIONAL \<and> pSize iter \<noteq> pData iter then store_bool h (pSize iter) False
                         else if counted then store_size h (pSize iter) 0
                         else Some h);
                   (if counted then Some h
                    else if PB_LTYPE t = PB_LTYPE_SUBMESSAGE
                    then do { fs \<leftarrow> dec_fields env (ptr field);
                              message_loop (pb_field_set_to_default env fuel) fs (pData iter) h }
                    else if ptr field \<noteq> 0
                    then do { bs \<leftarrow> load_bytes h (ptr field) (data_size field); store_mem h (pData iter) bs }
                    else store_mem h (pData iter) (replicate (data_size field) 0)) }
         else if PB_ATYPE t = PB_ATYPE_POINTER
         then do { h \<leftarrow> store_ptr h (pData iter) 0;
                   (if counted then store_size h (pSize iter) 0 else Some h) }
         else Some h)"

definition pb_message_set_to_defaults :: "'s dec_env \<Rightarrow> nat \<Rightarrow> int pb_field list \<Rightarrow> int \<Rightarrow> heap \<Rightarrow> heap option" where
  "pb_message_set_to_defaults env fuel fs dest h = message_loop (pb_field_set_to_default env fuel) fs dest h"

section \<open>Release\<close>

fun items_loop :: "(int \<Rightarrow> heap \<Rightarrow> heap option) \<Rightarrow> nat \<Rightarrow> nat \<Rightarrow> int \<Rightarrow> heap \<Rightarrow> heap option" where
  "items_loop f width 0 p h = Some h"
| "items_loop f width (Suc n) p h = do { h \<leftarrow> f p h; items_loop f width n (p + int width) h }"

fun pb_release_single_field :: "'s dec_env \<Rightarrow> nat \<Rightarrow> int pb_field_iter \<Rightarrow> heap \<Rightarrow> heap option" where
  "pb_release_single_field env 0 iter h = None"
| "pb_release_single_field env (Suc fuel) iter h =
     (let field = cur_field iter; t = ftype field; htype = PB_HTYPE t; ltype = PB_LTYPE t; atype = PB_ATYPE t
      in do { which \<leftarrow> (if htype = PB_HTYPE_ONEOF then load_size h (pSize iter) else Some (unat (tag field)));
         if which \<noteq> unat (tag field) then Some h
         else do {
           h \<leftarrow> (if ltype = PB_LTYPE_EXTENSION
                 then do { ext \<leftarrow> load_ptr h (pData iter);
                           ext_list_loop (\<lambda>ext h. do { ext_iter \<leftarrow> iter_from_extension env ext h;
                                                       pb_release_single_field env fuel ext_iter h }) fuel ext h }
                 else if ltype = PB_LTYPE_SUBMESSAGE \<and> atype \<noteq> PB_ATYPE_CALLBACK
                 then do { item \<leftarrow> (if atype = PB_ATYPE_POINTER then load_ptr h (pData iter) else Some (pData iter));
                           n \<leftarrow> (if htype = PB_HTYPE_REPEATED
                                 then do { n \<leftarrow> (if atype = PB_ATYPE_STATIC \<and> pSize iter = pData iter
                                                 then Some (array_size field) else load_size h (pSize iter));
                                           Some (if atype = PB_ATYPE_STATIC \<and> array_size field < n then array_size field else n) }
                                 else Some 1);
                           if item = 0 then Some h
                           else items_loop
                                  (\<lambda>p h. do { fs \<leftarrow> dec_fields env (ptr field);
                                              if p = 0 then Some h else message_loop (pb_release_single_field env fuel) fs p h })
                                  (data_size field) n item h }
                 else Some h);
           if atype = PB_ATYPE_POINTER
           then do { h \<leftarrow> (if htype = PB_HTYPE_REPEATED \<and> (ltype = PB_LTYPE_STRING \<or> ltype = PB_LTYPE_BYTES)
                           then do { arr \<leftarrow> load_ptr h (pData iter);
                                     n \<leftarrow> load_size h (pSize iter);
                                     items_loop (\<lambda>p h. do { q \<leftarrow> load_ptr h p; h \<leftarrow> free_mem h q; store_ptr h p 0 }) 8 n arr h }
                           else Some h);
                     h \<leftarrow> (if htype = PB_HTYPE_REPEATED then store_size h (pSize iter) 0 else Some h);
                     q \<leftarrow> load_ptr h (pData iter);
                     h \<leftarrow> free_mem h q;
                     store_ptr h (pData iter) 0 }
           else Some h } })"

definition pb_release :: "'s dec_env \<Rightarrow> nat \<Rightarrow> int pb_field list \<Rightarrow> int \<Rightarrow> heap \<Rightarrow> heap option" where
  "pb_release env fuel fs dest h =
     (if dest = 0 then Some h else message_loop (pb_release_single_field env fuel) fs dest h)"

section \<open>Allocation\<close>

text \<open>\<open>allocate_field\<close> with the pointer at address \<open>p\<close>: the block moves to where the allocator puts it.\<close>

definition allocate_field_at :: "'s dec_env \<Rightarrow> int \<Rightarrow> nat \<Rightarrow> nat \<Rightarrow> 's decoder" where
  "allocate_field_at env p dsize asize s h =
     do { q \<leftarrow> load_ptr h p;
          block \<leftarrow> (if q = 0 then Some None else map_option Some (block_at h q));
          (case allocate_field (\<lambda>n. map_option snd (dec_alloc env h n)) s block dsize asize of
             (True, s, Some b) \<Rightarrow>
               do { (base, _) \<leftarrow> dec_alloc env h (size_t (asize * dsize));
                    h \<leftarrow> store_ptr ((base, b) # (if q = 0 then h else remove_block h q)) p base;
                    Some (True, s, h) }
           | (_, s, _) \<Rightarrow> Some (False, s, h)) }"

definition initialize_pointer_field :: "'s dec_env \<Rightarrow> nat \<Rightarrow> int pb_field \<Rightarrow> int \<Rightarrow> heap \<Rightarrow> heap option" where
  "initialize_pointer_field env fuel field item h =
     (let ltype = PB_LTYPE (ftype field)
      in if ltype = PB_LTYPE_STRING \<or> ltype = PB_LTYPE_BYTES then store_ptr h item 0
         else if ltype = PB_LTYPE_SUBMESSAGE
         then do { h \<leftarrow> store_mem h item (replicate (data_size field) 0);
                   fs \<leftarrow> dec_fields env (ptr field);
                   pb_message_set_to_defaults env fuel fs item h }
         else Some h)"

section \<open>Values\<close>

definition pb_dec_bytes_at :: "'s dec_env \<Rightarrow> int pb_field \<Rightarrow> int \<Rightarrow> 's decoder" where
  "pb_dec_bytes_at env field p s h =
     dec_get (pb_decode_varint32 s) h (\<lambda>sz s h.
       let n = unat sz; alloc_size = PB_BYTES_ARRAY_T_ALLOCSIZE n;
           body = (\<lambda>q. dec_at (\<lambda>s mem. case dec_bytes_body s n mem of (ok, s, mem) \<Rightarrow> (ok, s, the mem)) q)
       in if PB_SIZE_MAX < n then dec_fail ''bytes overflow'' s h
          else if alloc_size < n then dec_fail ''size too large'' s h
          else if is_pointer field
          then if bytes_left s < n then dec_fail ''end-of-stream'' s h
               else dec_then (allocate_field_at env p alloc_size 1 s h) (\<lambda>s h. do { q \<leftarrow> load_ptr h p; body q s h })
          else if data_size field < alloc_size then dec_fail ''bytes overflow'' s h
          else body p s h)"

text \<open>The terminator is written whether or not the bytes could be read.\<close>

definition pb_dec_string_at :: "'s dec_env \<Rightarrow> int pb_field \<Rightarrow> int \<Rightarrow> 's decoder" where
  "pb_dec_string_at env field p s h =
     dec_get (pb_decode_varint32 s) h (\<lambda>sz s h.
       let n = unat sz; alloc_size = unat (sz + 1);
           body = (\<lambda>q. dec_at (\<lambda>s mem. if n < length mem
                                       then case dec_string_body s n mem of (ok, s, mem) \<Rightarrow> (ok, s, the mem)
                                       else (False, s, mem @ [0])) q)
       in if alloc_size < n then dec_fail ''size too large'' s h
          else if is_pointer field
          then if bytes_left s < n then dec_fail ''end-of-stream'' s h
               else dec_then (allocate_field_at env p alloc_size 1 s h) (\<lambda>s h. do { q \<leftarrow> load_ptr h p; body q s h })
          else if data_size field < alloc_size then dec_fail ''string overflow'' s h
          else body p s h)"

text \<open>\<open>sub True\<close> is \<open>pb_decode\<close>, \<open>sub False\<close> is \<open>pb_decode_noinit\<close>.\<close>

type_synonym 's sub_decoder = "bool \<Rightarrow> int pb_field list \<Rightarrow> int \<Rightarrow> 's decoder"

definition close_substream :: "'s pb_istream \<Rightarrow> bool \<Rightarrow> 's pb_istream \<Rightarrow> heap \<Rightarrow> 's dec_result" where
  "close_substream s status substream h =
     (case pb_close_string_substream s substream of (ok, s) \<Rightarrow> Some (ok \<and> status, s, h))"

definition pb_dec_submessage :: "'s dec_env \<Rightarrow> 's sub_decoder \<Rightarrow> int pb_field \<Rightarrow> int \<Rightarrow> 's decoder" where
  "pb_dec_submessage env sub field p s h =
     dec_get (pb_make_string_substream s) h (\<lambda>substream s h.
       if ptr field = 0 then dec_fail ''invalid field descriptor'' s h
       else do { fs \<leftarrow> dec_fields env (ptr field);
                 (status, substream, h) \<leftarrow> sub (PB_HTYPE (ftype field) = PB_HTYPE_REPEATED) fs p substream h;
                 close_substream s status substream h })"

text \<open>\<open>PB_DECODERS[PB_LTYPE(type)]\<close> with the destination \<open>p\<close>.\<close>

definition dec_value :: "'s dec_env \<Rightarrow> 's sub_decoder \<Rightarrow> int pb_field \<Rightarrow> int \<Rightarrow> 's decoder" where
  "dec_value env sub field p =
     (let t = PB_LTYPE (ftype field)
      in if t = PB_LTYPE_BOOL then dec_at pb_dec_bool p
         else if t = PB_LTYPE_VARINT then dec_at (\<lambda>s. pb_dec_varint s field) p
         else if t = PB_LTYPE_UVARINT then dec_at (\<lambda>s. pb_dec_uvarint s field) p
         else if t = PB_LTYPE_SVARINT then dec_at (\<lambda>s. pb_dec_svarint s field) p
         else if t = PB_LTYPE_FIXED32 then dec_at pb_dec_fixed32 p
         else if t = PB_LTYPE_FIXED64 then dec_at pb_dec_fixed64 p
         else if t = PB_LTYPE_BYTES then pb_dec_bytes_at env field p
         else if t = PB_LTYPE_STRING then pb_dec_string_at env field p
         else if t = PB_LTYPE_SUBMESSAGE then pb_dec_submessage env sub field p
         else if t = PB_LTYPE_FIXED_LENGTH_BYTES then dec_at (\<lambda>s. pb_dec_fixed_length_bytes s field) p
         else (\<lambda>s h. None))"

section \<open>Static fields\<close>

text \<open>The address of an array entry; the product has the type \<open>pb_size_t\<close>.\<close>

definition item_address :: "int pb_field \<Rightarrow> int \<Rightarrow> nat \<Rightarrow> int" where
  "item_address field base n = base + int (data_size field * n mod 2 ^ 32)"

fun static_packed_loop ::
  "(int \<Rightarrow> 's decoder) \<Rightarrow> int pb_field_iter \<Rightarrow> nat \<Rightarrow> 's decoder" where
  "static_packed_loop dec iter 0 substream h = None"
| "static_packed_loop dec iter (Suc fuel) substream h =
     (let field = cur_field iter
      in if bytes_left substream = 0 then Some (True, substream, h)
         else do { n \<leftarrow> load_size h (pSize iter);
                   (if array_size field \<le> n then Some (True, substream, h)
                    else dec_then (dec (item_address field (pData iter) n) substream h) (\<lambda>substream h.
                           do { n \<leftarrow> load_size h (pSize iter);
                                h \<leftarrow> store_size h (pSize iter) (n + 1);
                                static_packed_loop dec iter fuel substream h })) })"

definition decode_static_field ::
  "'s dec_env \<Rightarrow> 's sub_decoder \<Rightarrow> nat \<Rightarrow> nat \<Rightarrow> int pb_field_iter \<Rightarrow> 's decoder" where
  "decode_static_field env sub fuel wire_type iter s h =
     (let field = cur_field iter; t = ftype field; htype = PB_HTYPE t; dec = dec_value env sub field
      in if htype = PB_HTYPE_REQUIRED then dec (pData iter) s h
         else if htype = PB_HTYPE_OPTIONAL
         then do { h \<leftarrow> (if pSize iter \<noteq> pData iter then store_bool h (pSize iter) True else Some h);
                   dec (pData iter) s h }
         else if htype = PB_HTYPE_REPEATED
         then if wire_type = PB_WT_STRING \<and> PB_LTYPE t \<le> PB_LTYPE_LAST_PACKABLE
              then dec_get (pb_make_string_substream s) h (\<lambda>substream s h.
                     do { (status, substream, h) \<leftarrow> static_packed_loop dec iter fuel substream h;
                          (if bytes_left substream \<noteq> 0 then dec_fail ''array overflow'' s h
                           else close_substream s status substream h) })
              else do { n \<leftarrow> load_size h (pSize iter);
                        h \<leftarrow> store_size h (pSize iter) (n + 1);
                        (if array_size field \<le> n then dec_fail ''array overflow'' s h
                         else dec (item_address field (pData iter) n) s h) }
         else if htype = PB_HTYPE_ONEOF
         then do { h \<leftarrow> (if PB_LTYPE t = PB_LTYPE_SUBMESSAGE
                         then do { which \<leftarrow> load_size h (pSize iter);
                                   (if which \<noteq> unat (tag field)
                                    then do { h \<leftarrow> store_mem h (pData iter) (replicate (data_size field) 0);
                                              fs \<leftarrow> dec_fields env (ptr field);
                                              pb_message_set_to_defaults env fuel fs (pData iter) h }
                                    else Some h) }
                         else Some h);
                   h \<leftarrow> store_size h (pSize iter) (unat (tag field));
                   dec (pData iter) s h }
         else dec_fail ''invalid field type'' s h)"

section \<open>Pointer fields\<close>

text \<open>
  The packed loop keeps the number of allocated entries; the result holds the parent stream, whose
  error message it may set.
\<close>

fun pointer_packed_loop ::
  "'s dec_env \<Rightarrow> (int \<Rightarrow> 's decoder) \<Rightarrow> nat \<Rightarrow> int pb_field_iter \<Rightarrow> nat \<Rightarrow> 's pb_istream \<Rightarrow> nat \<Rightarrow>
    's pb_istream \<Rightarrow> heap \<Rightarrow> (bool \<times> 's pb_istream \<times> 's pb_istream \<times> heap) option" where
  "pointer_packed_loop env dec fuel iter 0 s allocated substream h = None"
| "pointer_packed_loop env dec fuel iter (Suc k) s allocated substream h =
     (let field = cur_field iter
      in if bytes_left substream = 0 then Some (True, s, substream, h)
         else do {
           n \<leftarrow> load_size h (pSize iter);
           (if n = PB_SIZE_MAX
            then Some (False, s\<lparr> in_errmsg := Some ''too many array entries'' \<rparr>, substream, h)
            else if data_size field = 0 then None
            else do {
              let remain = (bytes_left substream - 1) div data_size field + 1;
              let grown = (if n + 1 \<le> allocated then allocated
                           else if remain < size_t (PB_SIZE_MAX + (SIZE_MAX + 1 - allocated)) then allocated + remain
                           else allocated + 1);
              (ok, substream, h) \<leftarrow> (if n + 1 \<le> allocated then Some (True, substream, h)
                                    else allocate_field_at env (pData iter) (data_size field) grown substream h);
              (if \<not> ok then Some (False, s, substream, h)
               else do {
                 base \<leftarrow> load_ptr h (pData iter);
                 h \<leftarrow> initialize_pointer_field env fuel field (item_address field base n) h;
                 (ok, substream, h) \<leftarrow> dec (item_address field base n) substream h;
                 (if \<not> ok then Some (False, s, substream, h)
                  else do { n \<leftarrow> load_size h (pSize iter);
                            h \<leftarrow> store_size h (pSize iter) (n + 1);
                            pointer_packed_loop env dec fuel iter k s grown substream h }) }) }) })"

definition decode_pointer_field ::
  "'s dec_env \<Rightarrow> 's sub_decoder \<Rightarrow> nat \<Rightarrow> nat \<Rightarrow> int pb_field_iter \<Rightarrow> 's decoder" where
  "decode_pointer_field env sub fuel wire_type iter s h =
     (let field = cur_field iter; t = ftype field; htype = PB_HTYPE t; ltype = PB_LTYPE t; dec = dec_value env sub field
      in if htype = PB_HTYPE_REQUIRED \<or> htype = PB_HTYPE_OPTIONAL \<or> htype = PB_HTYPE_ONEOF
         then do {
           h \<leftarrow> (if ltype = PB_LTYPE_SUBMESSAGE
                 then do { q \<leftarrow> load_ptr h (pData iter);
                           (if q \<noteq> 0 then pb_release_single_field env fuel iter h else Some h) }
                 else Some h);
           h \<leftarrow> (if htype = PB_HTYPE_ONEOF then store_size h (pSize iter) (unat (tag field)) else Some h);
           (if ltype = PB_LTYPE_STRING \<or> ltype = PB_LTYPE_BYTES then dec (pData iter) s h
            else dec_then (allocate_field_at env (pData iter) (data_size field) 1 s h) (\<lambda>s h.
                   do { q \<leftarrow> load_ptr h (pData iter);
                        h \<leftarrow> initialize_pointer_field env fuel field q h;
                        dec q s h })) }
         else if htype = PB_HTYPE_REPEATED
         then if wire_type = PB_WT_STRING \<and> ltype \<le> PB_LTYPE_LAST_PACKABLE
              then do { n \<leftarrow> load_size h (pSize iter);
                        dec_get (pb_make_string_substream s) h (\<lambda>substream s h.
                          do { (status, s, substream, h) \<leftarrow> pointer_packed_loop env dec fuel iter fuel s n substream h;
                               close_substream s status substream h }) }
              else do {
                n \<leftarrow> load_size h (pSize iter);
                (if n = PB_SIZE_MAX then dec_fail ''too many array entries'' s h
                 else dec_then (allocate_field_at env (pData iter) (data_size field) (n + 1) s h) (\<lambda>s h.
                        do { base \<leftarrow> load_ptr h (pData iter);
                             n \<leftarrow> load_size h (pSize iter);
                             h \<leftarrow> store_size h (pSize iter) (n + 1);
                             h \<leftarrow> initialize_pointer_field env fuel field (item_address field base n) h;
                             dec (item_address field base n) s h })) }
         else dec_fail ''invalid field type'' s h)"

section \<open>Callback fields\<close>

text \<open>
  A \<open>pb_callback_t\<close>: the function pointer, then the argument. A callback for a string is called until
  the substream is empty.
\<close>

fun callback_loop ::
  "('s pb_istream \<Rightarrow> heap \<Rightarrow> bool \<times> 's pb_istream \<times> heap) \<Rightarrow> nat \<Rightarrow> 's decoder" where
  "callback_loop f 0 substream h = None"
| "callback_loop f (Suc n) substream h =
     (case f substream h of
        (False, substream, h) \<Rightarrow> Some (False, substream, h)
      | (True, substream, h) \<Rightarrow> if bytes_left substream \<noteq> 0 then callback_loop f n substream h else Some (True, substream, h))"

definition decode_callback_field :: "'s dec_env \<Rightarrow> nat \<Rightarrow> nat \<Rightarrow> int pb_field_iter \<Rightarrow> 's decoder" where
  "decode_callback_field env fuel wire_type iter s h =
     do { f \<leftarrow> (if pData iter = 0 then Some 0 else load_ptr h (pData iter));
          (let call = (\<lambda>s h. dec_call env f s (cur_field iter) (pData iter + 8) h)
           in if f = 0 then (case pb_skip_field s wire_type of (r, s) \<Rightarrow> Some (r \<noteq> None, s, h))
              else if wire_type = PB_WT_STRING
              then dec_get (pb_make_string_substream s) h (\<lambda>substream s h.
                     do { (ok, substream, h) \<leftarrow> callback_loop call fuel substream h;
                          (if \<not> ok then dec_fail ''callback failed'' s h else close_substream s True substream h) })
              else dec_get (read_raw_value s wire_type 10) h (\<lambda>buffer s h.
                     case call (pb_istream_from_buffer buffer (length buffer)) h of (ok, _, h) \<Rightarrow> Some (ok, s, h))) }"

section \<open>Oneof fields and the dispatch\<close>

text \<open>The iterator is moved to the old field and back.\<close>

definition pb_release_union_field ::
  "'s dec_env \<Rightarrow> nat \<Rightarrow> 's pb_istream \<Rightarrow> int pb_field_iter \<Rightarrow> heap \<Rightarrow>
    ((bool \<times> 's pb_istream \<times> heap) \<times> int pb_field_iter) option" where
  "pb_release_union_field env fuel s iter h =
     (let new_tag = tag (cur_field iter); fail = (\<lambda>msg iter h. map_option (\<lambda>r. (r, iter)) (dec_fail msg s h))
      in do { old_tag \<leftarrow> load_size h (pSize iter);
              (if old_tag = 0 \<or> old_tag = unat new_tag then Some ((True, s, h), iter)
               else do { (found, iter) \<leftarrow> pb_field_iter_find iter (of_nat old_tag);
                         (if \<not> found then fail ''invalid union tag'' iter h
                          else do { h \<leftarrow> pb_release_single_field env fuel iter h;
                                    (found, iter) \<leftarrow> pb_field_iter_find iter new_tag;
                                    (if \<not> found then fail ''iterator error'' iter h
                                     else do { h \<leftarrow> (if is_pointer (cur_field iter) then store_ptr h (pData iter) 0 else Some h);
                                               Some ((True, s, h), iter) }) }) }) })"

definition decode_field ::
  "'s dec_env \<Rightarrow> 's sub_decoder \<Rightarrow> nat \<Rightarrow> nat \<Rightarrow> 's pb_istream \<Rightarrow> int pb_field_iter \<Rightarrow> heap \<Rightarrow>
    ((bool \<times> 's pb_istream \<times> heap) \<times> int pb_field_iter) option" where
  "decode_field env sub fuel wire_type s iter h =
     do { ((ok, s, h), iter) \<leftarrow> (if PB_HTYPE (ftype (cur_field iter)) = PB_HTYPE_ONEOF
                                 then pb_release_union_field env fuel s iter h else Some ((True, s, h), iter));
          (let atype = PB_ATYPE (ftype (cur_field iter))
           in if \<not> ok then Some ((False, s, h), iter)
              else map_option (\<lambda>r. (r, iter))
                (if atype = PB_ATYPE_STATIC then decode_static_field env sub fuel wire_type iter s h
                 else if atype = PB_ATYPE_POINTER then decode_pointer_field env sub fuel wire_type iter s h
                 else if atype = PB_ATYPE_CALLBACK then decode_callback_field env fuel wire_type iter s h
                 else dec_fail ''invalid field type'' s h)) }"

section \<open>Extensions\<close>

definition default_extension_decoder ::
  "'s dec_env \<Rightarrow> 's sub_decoder \<Rightarrow> nat \<Rightarrow> int \<Rightarrow> nat \<Rightarrow> nat \<Rightarrow> 's decoder" where
  "default_extension_decoder env sub fuel ext num wire_type s h =
     do { ty \<leftarrow> load_ptr h ext;
          arg \<leftarrow> load_ptr h (ty + 16);
          fs \<leftarrow> dec_fields env arg;
          (if unat (tag (fs ! 0)) \<noteq> num then Some (True, s, h)
           else do { iter \<leftarrow> iter_from_extension env ext h;
                     h \<leftarrow> store_bool h (ext + 24) True;
                     map_option fst (decode_field env sub fuel wire_type s iter h) }) }"

fun decode_ext_loop ::
  "'s dec_env \<Rightarrow> 's sub_decoder \<Rightarrow> nat \<Rightarrow> nat \<Rightarrow> nat \<Rightarrow> nat \<Rightarrow> nat \<Rightarrow> int \<Rightarrow> 's decoder" where
  "decode_ext_loop env sub fuel num wire_type left 0 ext s h = None"
| "decode_ext_loop env sub fuel num wire_type left (Suc n) ext s h =
     (if ext = 0 \<or> bytes_left s \<noteq> left then Some (True, s, h)
      else do { ty \<leftarrow> load_ptr h ext;
                decode \<leftarrow> load_ptr h ty;
                dec_then (if decode \<noteq> 0 then Some (dec_ext_call env decode s ext num wire_type h)
                          else default_extension_decoder env sub fuel ext num wire_type s h) (\<lambda>s h.
                  do { next_ext \<leftarrow> load_ptr h (ext + 16);
                       decode_ext_loop env sub fuel num wire_type left n next_ext s h }) })"

definition decode_extension ::
  "'s dec_env \<Rightarrow> 's sub_decoder \<Rightarrow> nat \<Rightarrow> nat \<Rightarrow> nat \<Rightarrow> int pb_field_iter \<Rightarrow> 's decoder" where
  "decode_extension env sub fuel num wire_type iter s h =
     do { ext \<leftarrow> load_ptr h (pData iter);
          decode_ext_loop env sub fuel num wire_type (bytes_left s) fuel ext s h }"

text \<open>One round of the iterator from position \<open>first\<close>.\<close>

fun find_extension_loop :: "nat \<Rightarrow> nat \<Rightarrow> int pb_field_iter \<Rightarrow> (bool \<times> int pb_field_iter) option" where
  "find_extension_loop 0 first iter = None"
| "find_extension_loop (Suc n) first iter =
     (if PB_LTYPE (ftype (cur_field iter)) = PB_LTYPE_EXTENSION then Some (True, iter)
      else let iter = snd (pb_field_iter_next iter)
           in if pos iter \<noteq> first then find_extension_loop n first iter else Some (False, iter))"

definition find_extension_field :: "int pb_field_iter \<Rightarrow> (bool \<times> int pb_field_iter) option" where
  "find_extension_field iter = find_extension_loop (length (start iter)) (pos iter) iter"

section \<open>Messages\<close>

definition PB_MAX_REQUIRED_FIELDS :: nat where
  "PB_MAX_REQUIRED_FIELDS = 64"

text \<open>The local variables of \<open>pb_decode_noinit\<close>; \<open>fixed_count_field\<close> is a position in the array.\<close>

record noinit_locals =
  cursor :: "int pb_field_iter"
  fields_seen :: "u32 list"
  extension_range_start :: nat
  fixed_count_field :: "nat option"

text \<open>A tag without a field: extensions are tried, then the data is skipped.\<close>

definition decode_unknown ::
  "'s dec_env \<Rightarrow> 's sub_decoder \<Rightarrow> nat \<Rightarrow> nat \<Rightarrow> nat \<Rightarrow> noinit_locals \<Rightarrow> 's pb_istream \<Rightarrow> heap \<Rightarrow>
    ((bool \<times> 's pb_istream \<times> heap) \<times> noinit_locals) option" where
  "decode_unknown env sub fuel num wire_type l s h =
     (let skip = (\<lambda>l s h. case pb_skip_field s wire_type of (r, s) \<Rightarrow> Some ((r \<noteq> None, s, h), l))
      in if num < extension_range_start l then skip l s h
         else do { (found, iter) \<leftarrow> find_extension_field (cursor l);
                   (let l = l\<lparr> cursor := iter,
                               extension_range_start := if found then unat (tag (cur_field iter)) else 2 ^ 32 - 1 \<rparr>
                    in if num < extension_range_start l then skip l s h
                       else do { (ok, t, h) \<leftarrow> decode_extension env sub fuel num wire_type iter s h;
                                 (if \<not> ok then Some ((False, t, h), l)
                                  else if bytes_left t \<noteq> bytes_left s then Some ((True, t, h), l)
                                  else skip l t h) }) })"

text \<open>
  A tag with a field. \<open>loc\<close> is the address of \<open>fixed_count_size\<close>, which counts the entries of an array without
  a count of its own.
\<close>

definition enter_fixed_count ::
  "int \<Rightarrow> noinit_locals \<Rightarrow> 's pb_istream \<Rightarrow> heap \<Rightarrow> ((bool \<times> 's pb_istream \<times> heap) \<times> noinit_locals) option" where
  "enter_fixed_count loc l s h =
     (let iter = cursor l
      in if PB_HTYPE (ftype (cur_field iter)) = PB_HTYPE_REPEATED \<and> pSize iter = pData iter
         then do { wrong \<leftarrow> (case fixed_count_field l of
                               None \<Rightarrow> Some False
                             | Some i \<Rightarrow> if i = pos iter then Some False
                                         else do { n \<leftarrow> load_size h loc; Some (n \<noteq> array_size (start iter ! i)) });
                   (if wrong then map_option (\<lambda>r. (r, l)) (dec_fail ''wrong size for fixed count field'' s h)
                    else do { h \<leftarrow> (if fixed_count_field l \<noteq> Some (pos iter) then store_size h loc 0 else Some h);
                              Some ((True, s, h), l\<lparr> fixed_count_field := Some (pos iter), cursor := iter\<lparr> pSize := loc \<rparr> \<rparr>) }) }
         else Some ((True, s, h), l))"

definition mark_required :: "noinit_locals \<Rightarrow> noinit_locals" where
  "mark_required l =
     (let i = required_field_index (cursor l)
      in if PB_HTYPE (ftype (cur_field (cursor l))) = PB_HTYPE_REQUIRED \<and> i < PB_MAX_REQUIRED_FIELDS
         then l\<lparr> fields_seen := (fields_seen l)[i div 32 := fields_seen l ! (i div 32) OR push_bit (i mod 32) 1] \<rparr>
         else l)"

definition decode_known ::
  "'s dec_env \<Rightarrow> 's sub_decoder \<Rightarrow> nat \<Rightarrow> int \<Rightarrow> nat \<Rightarrow> noinit_locals \<Rightarrow> 's pb_istream \<Rightarrow> heap \<Rightarrow>
    ((bool \<times> 's pb_istream \<times> heap) \<times> noinit_locals) option" where
  "decode_known env sub fuel loc wire_type l s h =
     do { ((ok, s, h), l) \<leftarrow> enter_fixed_count loc l s h;
          (if \<not> ok then Some ((False, s, h), l)
           else do { let l = mark_required l;
                     (r, iter) \<leftarrow> decode_field env sub fuel wire_type s (cursor l) h;
                     Some (r, l\<lparr> cursor := iter \<rparr>) }) }"

text \<open>The loop over the stream; the result is the success of the loop.\<close>

fun noinit_loop ::
  "'s dec_env \<Rightarrow> 's sub_decoder \<Rightarrow> nat \<Rightarrow> int \<Rightarrow> nat \<Rightarrow> noinit_locals \<Rightarrow> 's pb_istream \<Rightarrow> heap \<Rightarrow>
    ((bool \<times> 's pb_istream \<times> heap) \<times> noinit_locals) option" where
  "noinit_loop env sub fuel loc 0 l s h = None"
| "noinit_loop env sub fuel loc (Suc n) l s h =
     (if bytes_left s = 0 then Some ((True, s, h), l)
      else case pb_decode_tag s of
             (None, s, eof) \<Rightarrow> Some ((eof, s, h), l)
           | (Some (wire_type, num), s, _) \<Rightarrow>
               do { (found, iter) \<leftarrow> pb_field_iter_find (cursor l) (of_nat num);
                    let l = l\<lparr> cursor := iter \<rparr>;
                    ((ok, s, h), l) \<leftarrow> (if found then decode_known env sub fuel loc wire_type l s h
                                       else decode_unknown env sub fuel num wire_type l s h);
                    (if ok then noinit_loop env sub fuel loc n l s h else Some ((False, s, h), l)) })"

text \<open>The number of required fields, from the walk to the end of the array, and the check of the bits.\<close>

fun required_loop :: "nat \<Rightarrow> int pb_field_iter \<Rightarrow> nat option" where
  "required_loop 0 iter = None"
| "required_loop (Suc n) iter =
     (case pb_field_iter_next iter of
        (True, iter') \<Rightarrow> required_loop n iter'
      | (False, iter') \<Rightarrow>
          Some (required_field_index iter +
                (if PB_HTYPE (ftype (cur_field iter)) = PB_HTYPE_REQUIRED \<and> tag (cur_field iter') \<noteq> 0 then 1 else 0)))"

definition all_seen :: "nat \<Rightarrow> u32 list \<Rightarrow> bool" where
  "all_seen n seen =
     (let n = min n PB_MAX_REQUIRED_FIELDS
      in (\<forall>i \<in> {0..<n div 32}. seen ! i = - 1) \<and>
         (n mod 32 \<noteq> 0 \<longrightarrow> seen ! (n div 32) = drop_bit (32 - n mod 32) (- 1)))"

definition final_checks :: "int \<Rightarrow> noinit_locals \<Rightarrow> 's decoder" where
  "final_checks loc l s h =
     do { wrong \<leftarrow> (case fixed_count_field l of
                      None \<Rightarrow> Some False
                    | Some i \<Rightarrow> do { n \<leftarrow> load_size h loc; Some (n \<noteq> array_size (start (cursor l) ! i)) });
          (if wrong then dec_fail ''wrong size for fixed count field'' s h
           else do { n \<leftarrow> required_loop (length (start (cursor l))) (cursor l);
                     (if all_seen n (fields_seen l) then Some (True, s, h)
                      else dec_fail ''missing required field'' s h) }) }"

text \<open>\<open>fixed_count_size\<close> is an object of memory for the time of the call.\<close>

definition noinit_body :: "'s dec_env \<Rightarrow> 's sub_decoder \<Rightarrow> nat \<Rightarrow> int pb_field list \<Rightarrow> int \<Rightarrow> 's decoder" where
  "noinit_body env sub fuel fs dest s h =
     (let loc = dec_local env h;
          l = \<lparr> cursor = snd (pb_field_iter_begin fs dest), fields_seen = [0, 0],
                extension_range_start = 0, fixed_count_field = None \<rparr>
      in do { ((ok, s, h), l) \<leftarrow> noinit_loop env sub fuel loc fuel l s ((loc, le_bytes 4 0) # h);
              (ok, s, h) \<leftarrow> (if ok then final_checks loc l s h else Some (False, s, h));
              Some (ok, s, remove_block h loc) })"

definition pb_decode_with ::
  "(int pb_field list \<Rightarrow> int \<Rightarrow> 's decoder) \<Rightarrow> 's dec_env \<Rightarrow> nat \<Rightarrow> int pb_field list \<Rightarrow> int \<Rightarrow> 's decoder" where
  "pb_decode_with noinit env fuel fs dest s h =
     do { h \<leftarrow> pb_message_set_to_defaults env fuel fs dest h;
          (status, s, h) \<leftarrow> noinit fs dest s h;
          h \<leftarrow> (if \<not> status then pb_release env fuel fs dest h else Some h);
          Some (status, s, h) }"

fun pb_decode_noinit :: "'s dec_env \<Rightarrow> nat \<Rightarrow> int pb_field list \<Rightarrow> int \<Rightarrow> 's decoder" where
  "pb_decode_noinit env 0 fs dest s h = None"
| "pb_decode_noinit env (Suc fuel) fs dest s h =
     noinit_body env (\<lambda>init. if init then pb_decode_with (pb_decode_noinit env fuel) env fuel else pb_decode_noinit env fuel)
       fuel fs dest s h"

definition pb_decode :: "'s dec_env \<Rightarrow> nat \<Rightarrow> int pb_field list \<Rightarrow> int \<Rightarrow> 's decoder" where
  "pb_decode env fuel fs dest = pb_decode_with (pb_decode_noinit env fuel) env fuel fs dest"

definition pb_decode_delimited_noinit :: "'s dec_env \<Rightarrow> nat \<Rightarrow> int pb_field list \<Rightarrow> int \<Rightarrow> 's decoder" where
  "pb_decode_delimited_noinit env fuel fs dest s h =
     dec_get (pb_make_string_substream s) h (\<lambda>substream s h.
       do { (status, substream, h) \<leftarrow> pb_decode_noinit env fuel fs dest substream h;
            close_substream s status substream h })"

definition pb_decode_delimited :: "'s dec_env \<Rightarrow> nat \<Rightarrow> int pb_field list \<Rightarrow> int \<Rightarrow> 's decoder" where
  "pb_decode_delimited env fuel fs dest s h =
     dec_get (pb_make_string_substream s) h (\<lambda>substream s h.
       do { (status, substream, h) \<leftarrow> pb_decode env fuel fs dest substream h;
            close_substream s status substream h })"

definition pb_decode_nullterminated :: "'s dec_env \<Rightarrow> nat \<Rightarrow> int pb_field list \<Rightarrow> int \<Rightarrow> 's decoder" where
  "pb_decode_nullterminated env fuel fs dest = pb_decode env fuel fs dest"

end
