(* ===== verification/PbSafe.thy ===== *)
theory PbSafe
  imports PbDecode
begin

text \<open>
  Memory safety of the message decoder on untrusted input, for messages whose fields are all
  statically allocated: whatever the bytes, decoding ends, it reads only bytes of its stream, and it
  writes only bytes of the message struct.
\<close>

section \<open>Streams over buffers\<close>

definition in_ok :: "'s pb_istream \<Rightarrow> bool" where
  "in_ok s \<longleftrightarrow> (\<exists>bs. in_state s = InBuffer bs \<and> bytes_left s \<le> length bs)"

lemma in_step_ok: "in_step s s' \<Longrightarrow> in_ok s \<Longrightarrow> in_ok s' \<and> bytes_left s' \<le> bytes_left s"
  by (fastforce simp: in_step_def in_ok_def)

section \<open>Decoders of values\<close>

text \<open>On memory of at least \<open>n\<close> bytes only the first \<open>n\<close> change.\<close>

definition confined :: "nat \<Rightarrow> 's pb_istream \<Rightarrow> (u8 list \<Rightarrow> bool \<times> 's pb_istream \<times> u8 list) \<Rightarrow> bool" where
  "confined n s g \<longleftrightarrow> in_ok s \<longrightarrow> (\<forall>mem. n \<le> length mem \<longrightarrow>
     (case g mem of (ok, s', mem') \<Rightarrow> length mem' = length mem \<and> drop n mem' = drop n mem \<and> in_step s s'))"

named_theorems confine

lemma confined_do [confine]:
  assumes "in_step s (snd r)" "\<And>v t. r = (Some v, t) \<Longrightarrow> confined n t (k v t)"
  shows "confined n s (\<lambda>mem. dec_do r mem (\<lambda>v t. k v t mem))"
proof (cases r)
  case (Pair x t)
  show ?thesis
  proof (cases x)
    case None
    then show ?thesis using assms(1) Pair by (simp add: confined_def)
  next
    case (Some v)
    then have c: "confined n t (k v t)" and st: "in_step s t" using assms Pair by simp_all
    show ?thesis unfolding Pair Some confined_def dec_do_simps
    proof (intro impI allI)
      fix mem :: "u8 list" assume s: "in_ok s" and l: "n \<le> length mem"
      then have "in_ok t" using in_step_ok [OF st] by simp
      then show "case k v t mem of (ok, s', mem') \<Rightarrow> length mem' = length mem \<and> drop n mem' = drop n mem \<and> in_step s s'"
        using c l in_step_trans [OF st] by (auto simp: confined_def split: prod.splits)
    qed
  qed
qed

lemma dec_error_step: "in_step s (snd (in_error msg s :: unit option \<times> 's pb_istream))"
  by simp

lemma dec_error_eq: "dec_error msg s mem = (False, snd (in_error msg s :: unit option \<times> 's pb_istream), mem)"
  by (simp add: dec_error_def split: prod.split)

lemma confined_error [confine]: "confined n s (dec_error msg s)"
  by (simp add: confined_def dec_error_eq)

lemma confined_store: "length bs \<le> n \<Longrightarrow> confined n s (\<lambda>mem. (ok, s, store mem bs))"
  by (simp add: confined_def store_def)

lemma confined_if [confine]:
  "(b \<Longrightarrow> confined n s f) \<Longrightarrow> (\<not> b \<Longrightarrow> confined n s g) \<Longrightarrow> confined n s (\<lambda>mem. if b then f mem else g mem)"
  by (cases b) simp_all

lemma confined_bool: "1 \<le> n \<Longrightarrow> confined n s (pb_dec_bool s)"
  unfolding pb_dec_bool_def [abs_def] by (intro confine confined_store) auto

lemma confined_store_signed: "k \<le> n \<Longrightarrow> confined n s (store_signed k v s)"
  by (simp add: store_signed_def [abs_def] Let_def confined_def store_def dec_error_eq)

lemma confined_store_unsigned: "k \<le> n \<Longrightarrow> confined n s (store_unsigned k v s)"
  by (simp add: store_unsigned_def [abs_def] Let_def confined_def store_def dec_error_eq)

lemmas read_steps = pb_decode_varint_step pb_decode_svarint_step pb_decode_varint32_step pb_read_step
  pb_decode_fixed_step

lemma confined_varint: "data_size field \<le> n \<Longrightarrow> confined n s (pb_dec_varint s field)"
  unfolding pb_dec_varint_def [abs_def] Let_def
  by (intro confine confined_store_signed read_steps) simp_all

lemma confined_uvarint: "data_size field \<le> n \<Longrightarrow> confined n s (pb_dec_uvarint s field)"
  unfolding pb_dec_uvarint_def [abs_def]
  by (intro confine confined_store_unsigned read_steps) simp_all

lemma confined_svarint: "data_size field \<le> n \<Longrightarrow> confined n s (pb_dec_svarint s field)"
  unfolding pb_dec_svarint_def [abs_def]
  by (intro confine confined_store_signed read_steps) simp_all

lemma confined_fixed32: "4 \<le> n \<Longrightarrow> confined n s (pb_dec_fixed32 s)"
  unfolding pb_dec_fixed32_def [abs_def] by (intro confine confined_store read_steps) simp_all

lemma confined_fixed64: "8 \<le> n \<Longrightarrow> confined n s (pb_dec_fixed64 s)"
  unfolding pb_dec_fixed64_def [abs_def] by (intro confine confined_store read_steps) simp_all

lemma pb_read_ok_length: "in_ok s \<Longrightarrow> pb_read s n = (Some bs, t) \<Longrightarrow> length bs = n"
  using pb_read_length by (fastforce simp: in_ok_def)

lemma confined_read:
  assumes "k \<le> n" "\<And>t bs mem. length bs = k \<Longrightarrow> n \<le> length mem \<Longrightarrow> length (g bs mem) = length mem \<and> drop n (g bs mem) = drop n mem"
    and "\<And>mem. n \<le> length mem \<Longrightarrow> length (f mem) = length mem \<and> drop n (f mem) = drop n mem"
  shows "confined n s (\<lambda>mem. case dec_do (pb_read s k) (Some (f mem)) (\<lambda>bs t. (True, t, Some (g bs mem))) of (ok, t, mem) \<Rightarrow> (ok, t, the mem))"
  unfolding confined_def
proof (intro impI allI)
  fix mem :: "u8 list" assume s: "in_ok s" and l: "n \<le> length mem"
  obtain r t where r: "pb_read s k = (r, t)" by fastforce
  have st: "in_step s t" using pb_read_step [of s k] by (simp add: r)
  show "case case dec_do (pb_read s k) (Some (f mem)) (\<lambda>bs t. (True, t, Some (g bs mem))) of (ok, t, mem) \<Rightarrow> (ok, t, the mem) of
     (ok, s', mem') \<Rightarrow> length mem' = length mem \<and> drop n mem' = drop n mem \<and> in_step s s'"
    using assms l st pb_read_ok_length [OF s, of k _ t] r by (cases r) simp_all
qed

lemma confined_bytes:
  assumes "k + 4 \<le> n"
  shows "confined n s (\<lambda>mem. case dec_bytes_body s k mem of (ok, t, mem) \<Rightarrow> (ok, t, the mem))"
  unfolding dec_bytes_body_def Let_def
  by (rule confined_read) (use assms in \<open>auto simp: store_def\<close>)

lemma confined_string:
  assumes "k + 1 \<le> n"
  shows "confined n s (\<lambda>mem. if k < length mem then case dec_string_body s k mem of (ok, t, mem) \<Rightarrow> (ok, t, the mem)
      else (False, s, mem @ [0]))"
proof -
  have "confined n s (\<lambda>mem. case dec_string_body s k mem of (ok, t, mem) \<Rightarrow> (ok, t, the mem))"
    unfolding dec_string_body_def by (rule confined_read) (use assms in \<open>auto simp: store_def\<close>)
  then show ?thesis using assms by (auto simp: confined_def)
qed

lemma confined_read_store: "confined k t (\<lambda>dest. dec_do (pb_read t k) dest (\<lambda>bs s. (True, s, store dest bs)))"
  unfolding confined_def
proof (intro impI allI)
  fix mem :: "u8 list" assume t: "in_ok t" and l: "k \<le> length mem"
  obtain r u where r: "pb_read t k = (r, u)" by fastforce
  have "in_step t u" using pb_read_step [of t k] by (simp add: r)
  then show "case dec_do (pb_read t k) mem (\<lambda>bs s. (True, s, store mem bs)) of
      (ok, s', mem') \<Rightarrow> length mem' = length mem \<and> drop k mem' = drop k mem \<and> in_step t s'"
    using l pb_read_ok_length [OF t, of k _ u] r by (cases r) (simp_all add: store_def)
qed

lemma confined_fixed_length_bytes: "confined (data_size field) s (pb_dec_fixed_length_bytes s field)"
  unfolding pb_dec_fixed_length_bytes_def [abs_def]
  by (rule confined_do, rule pb_decode_varint32_step)
    (intro confined_if confined_error confined_store confined_read_store; simp)

section \<open>Progress\<close>

text \<open>What can be in a packed array takes at least one byte.\<close>

definition eats :: "'s pb_istream \<Rightarrow> 'a option \<times> 's pb_istream \<Rightarrow> bool" where
  "eats s r \<longleftrightarrow> in_ok s \<longrightarrow> (case r of (Some _, s') \<Rightarrow> bytes_left s' < bytes_left s | (None, s') \<Rightarrow> True)"

lemma eats_then:
  assumes "in_ok s" "bytes_left t < bytes_left s" "in_step s t" "in_step t u"
  shows "bytes_left u < bytes_left s"
  using assms in_step_ok [OF assms(3)] in_step_ok [OF assms(4)] by fastforce

lemma eats_varint32: "eats s (pb_decode_varint32 s)"
proof -
  obtain r t where b: "pb_readbyte s = (r, t)" by fastforce
  have st: "in_step s t" using pb_readbyte_step [of s] by (simp add: b)
  show ?thesis
  proof (cases r)
    case None
    then show ?thesis by (simp add: eats_def pb_decode_varint32_def pb_decode_varint32_eof_def b)
  next
    case (Some byte)
    then have lt: "bytes_left t < bytes_left s" using pb_readbyte_left b by blast
    then show ?thesis
      using eats_then [OF _ lt st varint32_loop_step, of "ucast (byte AND 0x7f)" 7]
      by (auto simp: eats_def pb_decode_varint32_def pb_decode_varint32_eof_def b Some split: prod.splits option.splits)
  qed
qed

lemma eats_varint: "eats s (pb_decode_varint s)"
proof -
  obtain r t where b: "pb_readbyte s = (r, t)" by fastforce
  have st: "in_step s t" using pb_readbyte_step [of s] by (simp add: b)
  show ?thesis
  proof (cases r)
    case None
    then show ?thesis by (simp add: eats_def pb_decode_varint_def varint_loop.simps [of s] b)
  next
    case (Some byte)
    then have lt: "bytes_left t < bytes_left s" using pb_readbyte_left b by blast
    show ?thesis
      using eats_then [OF _ lt st varint_loop_step, of "0 OR push_bit 0 (ucast (byte AND 0x7f))" "0 + 7"] lt
      by (auto simp: eats_def pb_decode_varint_def varint_loop.simps [of s 0 0] b Some Let_def split: prod.splits option.splits)
  qed
qed

lemma eats_svarint: "eats s (pb_decode_svarint s)"
  using eats_varint [of s]
  by (cases "pb_decode_varint s"; cases "fst (pb_decode_varint s)") (auto simp: eats_def pb_decode_svarint_def)

lemma eats_read:
  assumes "0 < n"
  shows "eats s (pb_read s n)"
proof (cases "pb_read s n")
  case (Pair r t)
  show ?thesis
  proof (cases r)
    case None
    then show ?thesis by (simp add: eats_def Pair)
  next
    case (Some bs)
    then have "\<not> bytes_left s < n" using Pair assms by (auto simp: pb_read_def in_error_def)
    moreover have "bytes_left t = bytes_left s - n" using pb_read_left Pair Some by blast
    ultimately show ?thesis using assms by (simp add: eats_def Pair Some)
  qed
qed

lemma eats_fixed: "eats s (pb_decode_fixed32 s)" "eats s (pb_decode_fixed64 s)"
  using eats_read [of 4 s] eats_read [of 8 s]
  by (cases "pb_read s 4"; cases "pb_read s 8"; cases "fst (pb_read s 4)"; cases "fst (pb_read s 8)";
      simp add: eats_def pb_decode_fixed32_def pb_decode_fixed64_def)+

section \<open>Safe results\<close>

definition safe :: "int set \<Rightarrow> 's pb_istream \<Rightarrow> heap \<Rightarrow> 's dec_result \<Rightarrow> bool" where
  "safe A s h r \<longleftrightarrow> (\<exists>ok s' h'. r = Some (ok, s', h') \<and> in_step s s' \<and> alters A h h')"

definition hsafe :: "int set \<Rightarrow> heap \<Rightarrow> heap option \<Rightarrow> bool" where
  "hsafe A h r \<longleftrightarrow> (\<exists>h'. r = Some h' \<and> alters A h h')"

lemma safe_result [intro]: "in_step s s' \<Longrightarrow> alters A h h' \<Longrightarrow> safe A s h (Some (ok, s', h'))"
  by (auto simp: safe_def)

lemma safe_fail [intro]: "in_step s s' \<Longrightarrow> alters A h h' \<Longrightarrow> safe A s h (dec_fail msg s' h')"
  unfolding dec_fail_def using in_step_trans [OF _ in_step_error] by blast

lemma safe_mono: "safe A s h r \<Longrightarrow> A \<subseteq> B \<Longrightarrow> safe B s h r"
  unfolding safe_def using alters_mono by metis

lemma hsafe_mono: "hsafe A h r \<Longrightarrow> A \<subseteq> B \<Longrightarrow> hsafe B h r"
  unfolding hsafe_def using alters_mono by metis

lemma safe_after:
  assumes "in_step s t" "alters A h h1" "safe A t h1 r"
  shows "safe A s h r"
  using assms(3) in_step_trans [OF assms(1)] alters_trans [OF assms(2)] unfolding safe_def by blast

lemma safe_then:
  assumes "safe A s h r" "\<And>s' h'. in_step s s' \<Longrightarrow> alters A h h' \<Longrightarrow> safe A s' h' (k s' h')"
  shows "safe A s h (dec_then r k)"
proof -
  from assms(1) obtain ok t g where r: "r = Some (ok, t, g)" and st: "in_step s t" and al: "alters A h g"
    by (auto simp: safe_def)
  show ?thesis using safe_after [OF st al assms(2) [OF st al]] st al by (cases ok) (auto simp: r dec_then_def)
qed

lemma safe_get:
  assumes "in_step s (snd r)" "\<And>v t. r = (Some v, t) \<Longrightarrow> in_step s t \<Longrightarrow> safe A t h (k v t h)"
  shows "safe A s h (dec_get r h k)"
proof (cases r)
  case (Pair x t)
  then have st: "in_step s t" using assms(1) by simp
  show ?thesis
  proof (cases x)
    case (Some v)
    then show ?thesis using safe_after [OF st alters_refl assms(2)] Pair st by (simp add: dec_get_def)
  qed (use st Pair in \<open>auto simp: dec_get_def\<close>)
qed

lemma hsafe_bind:
  assumes "hsafe A h r" "\<And>h'. alters A h h' \<Longrightarrow> hsafe A h' (k h')"
  shows "hsafe A h (r \<bind> k)"
  using assms alters_trans unfolding hsafe_def by fastforce

lemma safe_bind:
  assumes "hsafe A h r" "\<And>h'. alters A h h' \<Longrightarrow> safe A s h' (k h')"
  shows "safe A s h (r \<bind> k)"
proof -
  from assms(1) obtain g where g: "r = Some g" "alters A h g" by (auto simp: hsafe_def)
  then show ?thesis using safe_after [OF in_step_refl g(2) assms(2) [OF g(2)]] by simp
qed

lemma hsafe_Some [simp, intro]: "hsafe A h (Some h)"
  by (auto simp: hsafe_def)

lemma hsafe_store: "room h p (length bs) \<Longrightarrow> {p..<p + int (length bs)} \<subseteq> A \<Longrightarrow> hsafe A h (store_mem h p bs)"
  using store_mem_room [of h p bs] alters_mono unfolding hsafe_def by metis

lemma hsafe_store_size: "room h p 4 \<Longrightarrow> {p..<p + 4} \<subseteq> A \<Longrightarrow> hsafe A h (store_size h p n)"
  using hsafe_store [of h p "le_bytes 4 n" A] by (simp add: store_size_def)

lemma hsafe_store_bool: "room h p 1 \<Longrightarrow> {p..<p + 1} \<subseteq> A \<Longrightarrow> hsafe A h (store_bool h p b)"
  using hsafe_store [of h p "[if b then 1 else 0]" A] by (simp add: store_bool_def)

lemma safe_dec_at:
  assumes "confined n s (f s)" "in_ok s" "room h p n" "{p..<p + int n} \<subseteq> A"
  shows "safe A s h (dec_at f p s h)"
proof -
  define mem where "mem = (case region h p of None \<Rightarrow> [] | Some bs \<Rightarrow> bs)"
  have n: "n \<le> length mem" using assms(3) by (auto simp: room_def mem_def)
  obtain ok s' mem' where f: "f s mem = (ok, s', mem')" by (metis prod_cases3)
  with assms(1,2) n have c: "length mem' = length mem" "drop n mem' = drop n mem" "in_step s s'"
    by (auto simp: confined_def)
  have "alters A h (write_at h p mem')"
  proof (cases "region h p")
    case None
    then have "write_at h p mem' = h" by (induction h) (auto split: if_splits)
    then show ?thesis by simp
  next
    case (Some bs)
    then show ?thesis using write_at_alters [OF Some _ , of mem' n] c assms(4) alters_mono by (simp add: mem_def)
  qed
  then show ?thesis using c f by (auto simp: dec_at_def mem_def [symmetric])
qed

section \<open>Substreams\<close>

lemma make_substream:
  assumes "in_ok s" "pb_make_string_substream s = (Some sub, t)"
  shows "in_ok sub" "in_step s t" "bytes_left sub < bytes_left s"
proof -
  obtain r u where v: "pb_decode_varint32 s = (r, u)" by fastforce
  have st: "in_step s u" using pb_decode_varint32_step [of s] by (simp add: v)
  from assms(2) obtain n where n: "r = Some n" "\<not> bytes_left u < unat n" "sub = u\<lparr> bytes_left := unat n \<rparr>"
    "t = u\<lparr> bytes_left := bytes_left u - unat n \<rparr>"
    by (cases r) (auto simp: pb_make_string_substream_def v in_error_def split: if_splits)
  have u: "in_ok u" using in_step_ok [OF st assms(1)] by simp
  then show "in_ok sub" using n by (auto simp: in_ok_def)
  show "in_step s t" unfolding n(4) by (rule in_step_trans [OF st in_step_left]) simp
  have "bytes_left u < bytes_left s" using eats_varint32 [of s] assms(1) v n(1) by (simp add: eats_def)
  then show "bytes_left sub < bytes_left s" using n by simp
qed

lemma make_substream_None: "in_step s (snd (pb_make_string_substream s))"
  unfolding pb_make_string_substream_def by (rule in_step_ok_then) (auto intro: in_step_left)

lemma safe_close:
  assumes "in_ok s" "pb_make_string_substream s = (Some sub, t)" "in_step sub sub'" "alters A h h'"
  shows "safe A s h (close_substream t status sub' h')"
proof -
  obtain ok u where c: "pb_close_string_substream t sub' = (ok, u)" by fastforce
  obtain bs where "in_state s = InBuffer bs" using assms(1) by (auto simp: in_ok_def)
  from substream_step(2) [OF assms(2,3) c this] show ?thesis using assms(4) by (auto simp: close_substream_def c)
qed

section \<open>Layouts\<close>

text \<open>The entries a field has room for, and its count or flag.\<close>

definition entries :: "int pb_field \<Rightarrow> nat" where
  "entries f = (if PB_HTYPE (ftype f) = PB_HTYPE_REPEATED then array_size f else 1)"

definition counted :: "int pb_field \<Rightarrow> bool" where
  "counted f \<longleftrightarrow> PB_HTYPE (ftype f) = PB_HTYPE_REPEATED \<or> PB_HTYPE (ftype f) = PB_HTYPE_ONEOF"

text \<open>A statically allocated field whose type has the storage it needs.\<close>

definition static_field :: "int pb_field \<Rightarrow> bool" where
  "static_field f \<longleftrightarrow>
     (let t = PB_LTYPE (ftype f); w = data_size f
      in PB_ATYPE (ftype f) = PB_ATYPE_STATIC \<and> t \<le> PB_LTYPE_FIXED_LENGTH_BYTES \<and> t \<noteq> PB_LTYPE_EXTENSION \<and>
         (t = PB_LTYPE_BOOL \<longrightarrow> 1 \<le> w) \<and> (t = PB_LTYPE_FIXED32 \<longrightarrow> 4 \<le> w) \<and> (t = PB_LTYPE_FIXED64 \<longrightarrow> 8 \<le> w) \<and>
         w * entries f < 2 ^ 32)"

text \<open>The bytes from \<open>p\<close> on, \<open>n\<close> of them, are memory, and among the addresses \<open>A\<close>.\<close>

definition owned :: "int set \<Rightarrow> heap \<Rightarrow> int \<Rightarrow> nat \<Rightarrow> bool" where
  "owned A h p n \<longleftrightarrow> room h p n \<and> {p..<p + int n} \<subseteq> A"

lemma owned_alters: "alters B h h' \<Longrightarrow> owned A h' p n = owned A h p n"
  by (simp add: owned_def alters_room)

lemma owned_part:
  assumes "heap_ok h" "owned A h p n" "k + m \<le> n"
  shows "owned A h (p + int k) m"
proof -
  have "{p + int k..<p + int k + int m} \<subseteq> {p..<p + int n}" using assms(3) by auto
  then show ?thesis using assms room_shift unfolding owned_def by blast
qed

definition field_owned :: "int set \<Rightarrow> heap \<Rightarrow> int pb_field_iter \<Rightarrow> bool" where
  "field_owned A h it \<longleftrightarrow>
     (let f = cur_field it
      in static_field f \<and> owned A h (pData it) (data_size f * entries f) \<and>
         (PB_HTYPE (ftype f) = PB_HTYPE_OPTIONAL \<and> pSize it \<noteq> pData it \<longrightarrow> owned A h (pSize it) 1) \<and>
         (counted f \<longrightarrow> owned A h (pSize it) 4))"

lemma field_owned_alters: "alters B h h' \<Longrightarrow> field_owned A h' it = field_owned A h it"
  by (simp add: field_owned_def owned_alters Let_def)

text \<open>What a descriptor promises in a struct of \<open>n\<close> bytes; the iterator is on a struct at address 0.\<close>

definition field_fits :: "nat \<Rightarrow> int pb_field_iter \<Rightarrow> bool" where
  "field_fits n it \<longleftrightarrow>
     (let f = cur_field it
      in static_field f \<and> 0 \<le> pData it \<and> pData it + int (data_size f * entries f) \<le> int n \<and>
         (PB_HTYPE (ftype f) = PB_HTYPE_OPTIONAL \<and> pSize it \<noteq> pData it \<longrightarrow> 0 \<le> pSize it \<and> pSize it + 1 \<le> int n) \<and>
         (counted f \<longrightarrow> 0 \<le> pSize it \<and> pSize it + 4 \<le> int n))"

text \<open>
  Descriptor tables of messages with static fields only: \<open>sz\<close> is the size of the struct of the table at an
  address, \<open>rk\<close> a rank that submessages decrease. A message without fields has a struct of at least
  one byte.
\<close>

definition submessage_ok :: "'s dec_env \<Rightarrow> (int \<Rightarrow> nat) \<Rightarrow> (int \<Rightarrow> nat) \<Rightarrow> int \<Rightarrow> int pb_field \<Rightarrow> bool" where
  "submessage_ok env rk sz a f \<longleftrightarrow>
     (PB_LTYPE (ftype f) = PB_LTYPE_SUBMESSAGE \<longrightarrow>
        (\<exists>gs. dec_fields env (ptr f) = Some gs) \<and> rk (ptr f) < rk a \<and> sz (ptr f) \<le> data_size f)"

definition no_fields :: "int pb_field list \<Rightarrow> bool" where
  "no_fields fs \<longleftrightarrow> fs = [\<lparr> tag = 0, ftype = 0, data_offset = 0, size_offset = 0, data_size = 0, array_size = 0, ptr = 0 \<rparr>]"

definition static_message :: "'s dec_env \<Rightarrow> (int \<Rightarrow> nat) \<Rightarrow> (int \<Rightarrow> nat) \<Rightarrow> int \<Rightarrow> int pb_field list \<Rightarrow> bool" where
  "static_message env rk sz a fs \<longleftrightarrow>
     no_fields fs \<and> 1 \<le> sz a \<or>
     (\<exists>n. 0 < n \<and> message_fields n fs \<and> (\<forall>i<n. field_fits (sz a) (iter_at fs 0 i) \<and> submessage_ok env rk sz a (fs ! i)))"

definition static_messages :: "'s dec_env \<Rightarrow> (int \<Rightarrow> nat) \<Rightarrow> (int \<Rightarrow> nat) \<Rightarrow> bool" where
  "static_messages env rk sz \<longleftrightarrow> (\<forall>a fs. dec_fields env a = Some fs \<longrightarrow> static_message env rk sz a fs)"

text \<open>The default values that descriptors point to are in memory.\<close>

definition defaults_present :: "'s dec_env \<Rightarrow> heap \<Rightarrow> bool" where
  "defaults_present env h \<longleftrightarrow>
     (\<forall>a fs. dec_fields env a = Some fs \<longrightarrow>
        (\<forall>f \<in> set fs. ptr f \<noteq> 0 \<longrightarrow> PB_LTYPE (ftype f) \<noteq> PB_LTYPE_SUBMESSAGE \<longrightarrow> room h (ptr f) (data_size f)))"

definition memory_ok :: "'s dec_env \<Rightarrow> heap \<Rightarrow> bool" where
  "memory_ok env h \<longleftrightarrow> heap_ok h \<and> defaults_present env h"

lemma memory_ok_alters: "alters A h h' \<Longrightarrow> memory_ok env h' = memory_ok env h"
  by (simp add: memory_ok_def alters_heap_ok defaults_present_def alters_room)

section \<open>Positions in a struct\<close>

text \<open>The addresses of the iterator move with the struct.\<close>

declare iter_at.simps [simp del]

lemma iter_next_shift:
  assumes "cur_field it' = cur_field it" "start it' = start it" "pos it' = pos it"
    "tag (cur_field it) \<noteq> 0" "tag (start it ! Suc (pos it)) \<noteq> 0"
    "pData it' = pData it + d" "pSize it' = pSize it + d"
  shows "pData (snd (pb_field_iter_next it')) = pData (snd (pb_field_iter_next it)) + d"
    "pSize (snd (pb_field_iter_next it')) = pSize (snd (pb_field_iter_next it)) + d"
  using assms by (auto simp: pb_field_iter_next_def cur_field_def Let_def)

lemma iter_at_shift:
  assumes "message_fields n fs"
  shows "i < n \<Longrightarrow> pData (iter_at fs dest i) = pData (iter_at fs 0 i) + dest \<and>
    pSize (iter_at fs dest i) = pSize (iter_at fs 0 i) + dest"
proof (induction i)
  case 0
  then show ?case by (simp add: iter_at.simps pb_field_iter_begin_def Let_def)
next
  case (Suc i)
  let ?a = "iter_at fs dest i" and ?b = "iter_at fs 0 i"
  note a = iter_at_inside [OF assms, of i dest] and b = iter_at_inside [OF assms, of i 0]
  have nz: "tag (fs ! i) \<noteq> 0" "tag (fs ! Suc i) \<noteq> 0" using assms Suc.prems by (simp_all add: message_fields_def)
  show ?case unfolding iter_at.simps
    using iter_next_shift [of ?a ?b dest] a b nz Suc by (simp add: cur_field_def)
qed

lemma field_fits_owned:
  assumes m: "message_fields n fs" and i: "i < n" and f: "field_fits k (iter_at fs 0 i)"
    and h: "heap_ok h" and o: "owned A h dest k"
  shows "field_owned A h (iter_at fs dest i)"
proof -
  let ?z = "iter_at fs 0 i" and ?it = "iter_at fs dest i"
  have c: "cur_field ?it = cur_field ?z" using iter_at_inside [OF m i] by (simp add: cur_field_def)
  note sh = iter_at_shift [OF m i, of dest]
  have part: "owned A h (q + dest) w" if "0 \<le> q" "q + int w \<le> int k" for q w
    using owned_part [OF h o, of "nat q" w] that by (simp add: add.commute)
  show ?thesis using f part sh unfolding field_owned_def field_fits_def c Let_def by force
qed

section \<open>Default values\<close>

lemma iter_loop_safe:
  assumes m: "message_fields n fs"
    and step: "\<And>i g. i < n \<Longrightarrow> alters A h g \<Longrightarrow> hsafe A g (f (iter_at fs dest i) g)"
  shows "i < n \<Longrightarrow> n - i \<le> k \<Longrightarrow> alters A h g \<Longrightarrow> hsafe A g (iter_loop f k (iter_at fs dest i) g)"
proof (induction k arbitrary: i g)
  case 0
  then show ?case by simp
next
  case (Suc k)
  obtain b it where it: "pb_field_iter_next (iter_at fs dest i) = (b, it)" by fastforce
  with iter_at_next [OF m Suc.prems(1), of dest] have b: "b \<longleftrightarrow> Suc i \<noteq> n" "Suc i \<noteq> n \<Longrightarrow> it = iter_at fs dest (Suc i)" by simp_all
  show ?case unfolding iter_loop.simps it
  proof (rule hsafe_bind)
    show "hsafe A g (f (iter_at fs dest i) g)" using step Suc.prems by simp
  next
    fix g' assume a: "alters A g g'"
    show "hsafe A g' (case (b, it) of (True, iter) \<Rightarrow> iter_loop f k iter g' | (False, _) \<Rightarrow> Some g')"
      using b Suc.IH [of "Suc i" g'] Suc.prems alters_trans [OF Suc.prems(3) a] by (cases b) auto
  qed
qed

lemma message_loop_safe:
  assumes "message_fields n fs"
    and "\<And>i g. i < n \<Longrightarrow> alters A h g \<Longrightarrow> hsafe A g (f (iter_at fs dest i) g)"
  shows "hsafe A h (message_loop f fs dest h)"
proof (cases "n = 0")
  case True
  then show ?thesis using assms(1) by (simp add: message_loop_def message_fields_def pb_field_iter_begin_def Let_def)
next
  case False
  then have "pb_field_iter_begin fs dest = (True, iter_at fs dest 0)"
    using assms(1) by (auto simp: message_fields_def pb_field_iter_begin_def iter_at.simps Let_def)
  moreover have "length fs = Suc n" using assms(1) by (simp add: message_fields_def)
  moreover have "hsafe A h (iter_loop f (Suc n) (iter_at fs dest 0) h)"
    by (rule iter_loop_safe [OF assms(1)]) (use assms(2) False in auto)
  ultimately show ?thesis by (simp add: message_loop_def)
qed

lemma static_messageE:
  assumes "static_messages env rk sz" "dec_fields env a = Some fs"
  obtains (none) "no_fields fs" "1 \<le> sz a" "message_fields 0 fs"
    | (some) n where "0 < n" "message_fields n fs"
        "\<And>i. i < n \<Longrightarrow> field_fits (sz a) (iter_at fs 0 i) \<and> submessage_ok env rk sz a (fs ! i) \<and> fs ! i \<in> set fs"
proof -
  have "static_message env rk sz a fs" using assms by (simp add: static_messages_def)
  then show ?thesis unfolding static_message_def
  proof (elim disjE exE conjE)
    assume "no_fields fs" "1 \<le> sz a"
    then show ?thesis by (intro none) (simp_all add: no_fields_def message_fields_def)
  next
    fix n assume "0 < n" "message_fields n fs" "\<forall>i<n. field_fits (sz a) (iter_at fs 0 i) \<and> submessage_ok env rk sz a (fs ! i)"
    then show ?thesis by (intro some [of n]) (simp_all add: message_fields_def)
  qed
qed

lemma set_to_default_safe:
  assumes st: "static_messages env rk sz"
  shows "dec_fields env a = Some fs \<Longrightarrow> rk a < fuel \<Longrightarrow> memory_ok env h \<Longrightarrow> owned A h dest (sz a) \<Longrightarrow>
    hsafe A h (message_loop (pb_field_set_to_default env fuel) fs dest h)"
proof (induction "rk a" arbitrary: a fs fuel h dest A rule: less_induct)
  case less
  obtain k where k: "fuel = Suc k" using less.prems(2) by (cases fuel) auto
  from st less.prems(1) show ?case
  proof (cases rule: static_messageE)
    case none
    then show ?thesis by (intro message_loop_safe [of 0]) simp_all
  next
    case (some n)
    show ?thesis
    proof (rule message_loop_safe [OF some(2)])
      fix i g assume i: "i < n" and g: "alters A h g"
      let ?it = "iter_at fs dest i" and ?f = "fs ! i"
      have mem: "memory_ok env g" using less.prems(3) by (simp add: memory_ok_alters [OF g])
      have own: "field_owned A g ?it"
        using field_fits_owned [OF some(2) i _ _ less.prems(4)[folded owned_alters [OF g]]] some(3) [OF i] mem by (simp add: memory_ok_def)
      have c: "cur_field ?it = ?f" using iter_at_inside [OF some(2) i] by (simp add: cur_field_def)
      have stat: "PB_ATYPE (ftype ?f) = PB_ATYPE_STATIC" "PB_LTYPE (ftype ?f) \<noteq> PB_LTYPE_EXTENSION"
        using own by (simp_all add: field_owned_def static_field_def c Let_def)
      show "hsafe A g (pb_field_set_to_default env fuel ?it g)"
        unfolding k pb_field_set_to_default.simps Let_def c counted_def [symmetric]
          if_not_P [OF stat(2)] if_P [OF stat(1)]
      proof (rule hsafe_bind)
        show "hsafe A g (if PB_HTYPE (ftype ?f) = PB_HTYPE_OPTIONAL \<and> pSize ?it \<noteq> pData ?it
           then store_bool g (pSize ?it) False else if counted ?f then store_size g (pSize ?it) 0 else Some g)"
          using own by (auto simp: field_owned_def owned_def c Let_def intro: hsafe_store_bool hsafe_store_size)
      next
        fix g' assume a: "alters A g g'"
        have own': "field_owned A g' ?it" and mem': "memory_ok env g'"
          using own mem by (simp_all add: field_owned_alters [OF a] memory_ok_alters [OF a])
        have o: "owned A g' (pData ?it) (data_size ?f)" if "\<not> counted ?f"
          using own' that by (simp add: field_owned_def c Let_def entries_def counted_def)
        have sub: "hsafe A g' (dec_fields env (ptr ?f) \<bind> (\<lambda>gs. message_loop (pb_field_set_to_default env k) gs (pData ?it) g'))"
          if "\<not> counted ?f" and t: "PB_LTYPE (ftype ?f) = PB_LTYPE_SUBMESSAGE"
        proof -
          obtain gs where gs: "dec_fields env (ptr ?f) = Some gs" "rk (ptr ?f) < rk a" "sz (ptr ?f) \<le> data_size ?f"
            using some(3) [OF i] t by (auto simp: submessage_ok_def)
          have "owned A g' (pData ?it) (sz (ptr ?f))"
            using owned_part [OF _ o [OF that(1)], of 0 "sz (ptr ?f)"] gs(3) mem' by (simp add: memory_ok_def)
          then show ?thesis using less.hyps [OF gs(2,1) _ mem'] gs k less.prems(2) by simp
        qed
        have copy: "hsafe A g' (load_bytes g' (ptr ?f) (data_size ?f) \<bind> (\<lambda>bs. store_mem g' (pData ?it) bs))"
          if "\<not> counted ?f" "PB_LTYPE (ftype ?f) \<noteq> PB_LTYPE_SUBMESSAGE" "ptr ?f \<noteq> 0"
        proof -
          have "room g' (ptr ?f) (data_size ?f)"
            using mem' some(3) [OF i] less.prems(1) that unfolding memory_ok_def defaults_present_def by blast
          then obtain bs where "load_bytes g' (ptr ?f) (data_size ?f) = Some bs" "length bs = data_size ?f"
            using load_bytes_room by blast
          then show ?thesis using o [OF that(1)] hsafe_store [of g' "pData ?it" bs A] by (simp add: owned_def)
        qed
        have zero: "hsafe A g' (store_mem g' (pData ?it) (replicate (data_size ?f) 0))" if "\<not> counted ?f"
          using o [OF that] hsafe_store [of g' "pData ?it" "replicate (data_size ?f) 0" A] by (simp add: owned_def)
        show "hsafe A g' (if counted ?f then Some g'
            else if PB_LTYPE (ftype ?f) = PB_LTYPE_SUBMESSAGE
            then dec_fields env (ptr ?f) \<bind> (\<lambda>gs. message_loop (pb_field_set_to_default env k) gs (pData ?it) g')
            else if ptr ?f \<noteq> 0
            then load_bytes g' (ptr ?f) (data_size ?f) \<bind> (\<lambda>bs. store_mem g' (pData ?it) bs)
            else store_mem g' (pData ?it) (replicate (data_size ?f) 0))"
          using sub copy zero by simp
      qed
    qed
  qed
qed

section \<open>Release\<close>

text \<open>With static fields only there is nothing to release, and releasing changes nothing.\<close>

lemma items_loop_safe:
  assumes "\<And>j g. j < m \<Longrightarrow> alters A h g \<Longrightarrow> hsafe A g (f (p + int (w * j)) g)"
  shows "n + i = m \<Longrightarrow> alters A h g \<Longrightarrow> hsafe A g (items_loop f w n (p + int (w * i)) g)"
proof (induction n arbitrary: i g)
  case 0
  then show ?case by simp
next
  case (Suc n)
  show ?case unfolding items_loop.simps
  proof (rule hsafe_bind)
    show "hsafe A g (f (p + int (w * i)) g)" using assms Suc.prems by simp
  next
    fix g' assume a: "alters A g g'"
    have "hsafe A g' (items_loop f w n (p + int (w * Suc i)) g')"
      using Suc.IH [of "Suc i" g'] Suc.prems alters_trans [OF Suc.prems(2) a] by simp
    then show "hsafe A g' (items_loop f w n (p + int (w * i) + int w) g')" by (simp add: add.assoc algebra_simps)
  qed
qed

lemma release_field_safe:
  assumes st: "static_messages env rk sz"
  shows "rk a < fuel \<Longrightarrow> memory_ok env h \<Longrightarrow> field_owned B h it \<Longrightarrow> submessage_ok env rk sz a (cur_field it) \<Longrightarrow>
    hsafe {} h (pb_release_single_field env fuel it h)"
proof (induction "rk a" arbitrary: a fuel h it B rule: less_induct)
  case less
  obtain k where k: "fuel = Suc k" using less.prems(1) by (cases fuel) auto
  let ?f = "cur_field it"
  have stat: "PB_ATYPE (ftype ?f) = PB_ATYPE_STATIC" "PB_LTYPE (ftype ?f) \<noteq> PB_LTYPE_EXTENSION"
    using less.prems(3) by (simp_all add: field_owned_def static_field_def Let_def)
  have nz: "PB_ATYPE_STATIC \<noteq> PB_ATYPE_POINTER" "PB_ATYPE_STATIC \<noteq> PB_ATYPE_CALLBACK" by simp_all
  have cnt: "room h (pSize it) 4" if "counted ?f" using less.prems(3) that by (simp add: field_owned_def owned_def Let_def)
  obtain which where which: "(if PB_HTYPE (ftype ?f) = PB_HTYPE_ONEOF then load_size h (pSize it) else Some (unat (tag ?f))) = Some which"
    using load_size_room [OF cnt] by (cases "PB_HTYPE (ftype ?f) = PB_HTYPE_ONEOF") (auto simp: counted_def)
  have sub: "hsafe {} h (do { n \<leftarrow> (if PB_HTYPE (ftype ?f) = PB_HTYPE_REPEATED
            then do { n \<leftarrow> (if pSize it = pData it then Some (array_size ?f) else load_size h (pSize it));
                      Some (if array_size ?f < n then array_size ?f else n) }
            else Some 1);
          if pData it = 0 then Some h
          else items_loop (\<lambda>p h. do { fs \<leftarrow> dec_fields env (ptr ?f);
                if p = 0 then Some h else message_loop (pb_release_single_field env k) fs p h })
              (data_size ?f) n (pData it) h })"
    if t: "PB_LTYPE (ftype ?f) = PB_LTYPE_SUBMESSAGE"
  proof -
    obtain gs where gs: "dec_fields env (ptr ?f) = Some gs" "rk (ptr ?f) < rk a" "sz (ptr ?f) \<le> data_size ?f"
      using less.prems(4) t by (auto simp: submessage_ok_def)
    obtain n where n: "(if PB_HTYPE (ftype ?f) = PB_HTYPE_REPEATED
            then do { n \<leftarrow> (if pSize it = pData it then Some (array_size ?f) else load_size h (pSize it));
                      Some (if array_size ?f < n then array_size ?f else n) }
            else Some 1) = Some n" "n \<le> entries ?f"
      using load_size_room [OF cnt]
      by (cases "PB_HTYPE (ftype ?f) = PB_HTYPE_REPEATED"; cases "pSize it = pData it") (auto simp: counted_def entries_def)
    have "hsafe {} g (do { fs \<leftarrow> dec_fields env (ptr ?f);
                if pData it + int (data_size ?f * j) = 0 then Some g
                else message_loop (pb_release_single_field env k) fs (pData it + int (data_size ?f * j)) g })"
      if j: "j < n" and g: "alters {} h g" for j g
    proof -
      have mem: "memory_ok env g" using less.prems(2) by (simp add: memory_ok_alters [OF g])
      have "data_size ?f * Suc j \<le> data_size ?f * entries ?f"
        using j n(2) by (intro mult_le_mono2) simp
      then have le: "data_size ?f * j + sz (ptr ?f) \<le> data_size ?f * entries ?f" using gs(3) by simp
      have "owned B g (pData it) (data_size ?f * entries ?f)"
        using less.prems(3) by (simp add: owned_alters [OF g] field_owned_def Let_def)
      from owned_part [OF _ this le] have own: "owned B g (pData it + int (data_size ?f * j)) (sz (ptr ?f))"
        using mem by (simp add: memory_ok_def)
      have "hsafe {} g (message_loop (pb_release_single_field env k) gs (pData it + int (data_size ?f * j)) g)"
        using st gs(1)
      proof (cases rule: static_messageE)
        case none
        then show ?thesis by (intro message_loop_safe [of 0]) simp_all
      next
        case (some m)
        show ?thesis
        proof (rule message_loop_safe [OF some(2)])
          fix i g' assume i: "i < m" and g': "alters {} g g'"
          let ?it = "iter_at gs (pData it + int (data_size ?f * j)) i"
          have mem': "memory_ok env g'" using mem by (simp add: memory_ok_alters [OF g'])
          have c: "cur_field ?it = gs ! i" using iter_at_inside [OF some(2) i] by (simp add: cur_field_def)
          have fo: "field_owned B g' ?it"
            using field_fits_owned [OF some(2) i _ _ own [folded owned_alters [OF g']]] some(3) [OF i] mem' by (simp add: memory_ok_def)
          show "hsafe {} g' (pb_release_single_field env k ?it g')"
            by (rule less.hyps [OF gs(2) _ mem' fo]) (use gs(2) k less.prems(1) some(3) [OF i] c in auto)
        qed
      qed
      then show ?thesis by (simp add: gs(1))
    qed
    from items_loop_safe [where f = "\<lambda>p h. do { fs \<leftarrow> dec_fields env (ptr ?f);
                if p = 0 then Some h else message_loop (pb_release_single_field env k) fs p h }"
        and A = "{}" and h = h and g = h and m = n and n = n and i = 0 and p = "pData it" and w = "data_size ?f", OF this]
    show ?thesis unfolding n(1) by simp
  qed
  show ?case
    unfolding k pb_release_single_field.simps Let_def which stat(1) if_not_P [OF stat(2)] Option.bind.bind_lunit
  proof (cases "which = unat (tag ?f)"; cases "PB_LTYPE (ftype ?f) = PB_LTYPE_SUBMESSAGE")
  qed (use sub in \<open>auto intro!: hsafe_bind\<close>)
qed

lemma release_safe:
  assumes st: "static_messages env rk sz" and fs: "dec_fields env a = Some fs" and f: "rk a < fuel"
    and mem: "memory_ok env h" and own: "owned A h dest (sz a)"
  shows "hsafe {} h (pb_release env fuel fs dest h)"
proof -
  have "hsafe {} h (message_loop (pb_release_single_field env fuel) fs dest h)"
    using st fs
  proof (cases rule: static_messageE)
    case none
    then show ?thesis by (intro message_loop_safe [of 0]) simp_all
  next
    case (some n)
    show ?thesis
    proof (rule message_loop_safe [OF some(2)])
      fix i g assume i: "i < n" and g: "alters {} h g"
      let ?it = "iter_at fs dest i"
      have mem': "memory_ok env g" using mem by (simp add: memory_ok_alters [OF g])
      have c: "cur_field ?it = fs ! i" using iter_at_inside [OF some(2) i] by (simp add: cur_field_def)
      have fo: "field_owned A g ?it"
        using field_fits_owned [OF some(2) i _ _ own [folded owned_alters [OF g]]] some(3) [OF i] mem' by (simp add: memory_ok_def)
      show "hsafe {} g (pb_release_single_field env fuel ?it g)"
        by (rule release_field_safe [OF st f mem' fo]) (use some(3) [OF i] c in auto)
    qed
  qed
  then show ?thesis by (simp add: pb_release_def)
qed

section \<open>Values\<close>

lemma safe_fail_here [simp]: "safe A s h (dec_fail msg s h)"
  by (rule safe_fail) simp_all

text \<open>What the recursion gives for submessages: tables of a lower rank, streams of fewer than \<open>m\<close> bytes.\<close>

definition sub_safe :: "'s dec_env \<Rightarrow> (int \<Rightarrow> nat) \<Rightarrow> (int \<Rightarrow> nat) \<Rightarrow> int \<Rightarrow> nat \<Rightarrow> 's sub_decoder \<Rightarrow> bool" where
  "sub_safe env rk sz a m sub \<longleftrightarrow>
     (\<forall>b gs init p s h A. dec_fields env b = Some gs \<longrightarrow> rk b < rk a \<longrightarrow> in_ok s \<longrightarrow> bytes_left s < m \<longrightarrow>
        memory_ok env h \<longrightarrow> owned A h p (sz b) \<longrightarrow> safe A s h (sub init gs p s h))"

lemma ltype_cases:
  "t \<le> PB_LTYPE_FIXED_LENGTH_BYTES \<Longrightarrow> t \<noteq> PB_LTYPE_EXTENSION \<Longrightarrow>
    t \<in> {PB_LTYPE_BOOL, PB_LTYPE_VARINT, PB_LTYPE_UVARINT, PB_LTYPE_SVARINT, PB_LTYPE_FIXED32, PB_LTYPE_FIXED64,
      PB_LTYPE_BYTES, PB_LTYPE_STRING, PB_LTYPE_SUBMESSAGE, PB_LTYPE_FIXED_LENGTH_BYTES}"
proof -
  assume t: "t \<le> PB_LTYPE_FIXED_LENGTH_BYTES" "t \<noteq> PB_LTYPE_EXTENSION"
  have "unat t \<le> 10" using t(1) by (simp add: word_le_nat_alt)
  then have "unat t \<in> {0, 1, 2, 3, 4, 5, 6, 7, 8, 9, 10}" by (simp add: le_Suc_eq numeral_eq_Suc)
  then show ?thesis using t(2) by (auto simp: word_unat_eq_iff)
qed

lemma static_not_pointer: "static_field f \<Longrightarrow> \<not> is_pointer f"
  by (simp add: static_field_def is_pointer_def Let_def)

lemma bytes_safe:
  assumes "static_field f" "in_ok s" "owned A h p (data_size f)"
  shows "safe A s h (pb_dec_bytes_at env f p s h)"
  unfolding pb_dec_bytes_at_def Let_def
proof (rule safe_get [OF pb_decode_varint32_step])
  fix v t assume r: "pb_decode_varint32 s = (Some v, t)" and st: "in_step s t"
  have ok: "in_ok t" using in_step_ok [OF st assms(2)] by simp
  have "safe A t h (dec_at (\<lambda>s mem. case dec_bytes_body s (unat v) mem of (ok, s, mem) \<Rightarrow> (ok, s, the mem)) p t h)"
    if "\<not> data_size f < PB_BYTES_ARRAY_T_ALLOCSIZE (unat v)"
  proof -
    have "unat v < 2 ^ 32" using unsigned_less [of v, where ?'a = nat] by simp
    then have "PB_BYTES_ARRAY_T_ALLOCSIZE (unat v) = unat v + 4"
      unfolding PB_BYTES_ARRAY_T_ALLOCSIZE_def by (intro size_t_id) (simp add: SIZE_MAX_def)
    then show ?thesis using that assms(3) 
      by (intro safe_dec_at [where f = "\<lambda>s mem. case dec_bytes_body s (unat v) mem of (ok, s, mem) \<Rightarrow> (ok, s, the mem)"
            and n = "data_size f", OF confined_bytes ok]) (auto simp: owned_def)
  qed
  then show "safe A t h
      (if PB_SIZE_MAX < unat v then dec_fail ''bytes overflow'' t h
       else if PB_BYTES_ARRAY_T_ALLOCSIZE (unat v) < unat v then dec_fail ''size too large'' t h
       else if is_pointer f
       then if bytes_left t < unat v then dec_fail ''end-of-stream'' t h
            else dec_then (allocate_field_at env p (PB_BYTES_ARRAY_T_ALLOCSIZE (unat v)) 1 t h)
              (\<lambda>s h. load_ptr h p \<bind> (\<lambda>q. dec_at (\<lambda>s mem. case dec_bytes_body s (unat v) mem of (ok, s, mem) \<Rightarrow> (ok, s, the mem)) q s h))
       else if data_size f < PB_BYTES_ARRAY_T_ALLOCSIZE (unat v) then dec_fail ''bytes overflow'' t h
       else dec_at (\<lambda>s mem. case dec_bytes_body s (unat v) mem of (ok, s, mem) \<Rightarrow> (ok, s, the mem)) p t h)"
    using static_not_pointer [OF assms(1)] by simp
qed

lemma string_safe:
  assumes "static_field f" "in_ok s" "owned A h p (data_size f)"
  shows "safe A s h (pb_dec_string_at env f p s h)"
  unfolding pb_dec_string_at_def Let_def
proof (rule safe_get [OF pb_decode_varint32_step])
  fix v t assume r: "pb_decode_varint32 s = (Some v, t)" and st: "in_step s t"
  have ok: "in_ok t" using in_step_ok [OF st assms(2)] by simp
  let ?body = "\<lambda>s mem. if unat v < length mem then case dec_string_body s (unat v) mem of (ok, s, mem) \<Rightarrow> (ok, s, the mem)
      else (False, s, mem @ [0])"
  have "safe A t h (dec_at ?body p t h)"
    if "\<not> data_size f < unat (v + 1)" "\<not> unat (v + 1) < unat v"
  proof -
    have "unat v + 1 \<le> data_size f" using that string_size_no_wrap [OF that(2)] by simp
    then show ?thesis using assms(3) by (intro safe_dec_at [where f = ?body, OF confined_string ok]) (auto simp: owned_def)
  qed
  then show "safe A t h
      (if unat (v + 1) < unat v then dec_fail ''size too large'' t h
       else if is_pointer f
       then if bytes_left t < unat v then dec_fail ''end-of-stream'' t h
            else dec_then (allocate_field_at env p (unat (v + 1)) 1 t h) (\<lambda>s h. load_ptr h p \<bind> (\<lambda>q. dec_at ?body q s h))
       else if data_size f < unat (v + 1) then dec_fail ''string overflow'' t h
       else dec_at ?body p t h)"
    using static_not_pointer [OF assms(1)] by simp
qed

lemma submessage_safe:
  assumes sub: "sub_safe env rk sz a (bytes_left s) sub" and f: "submessage_ok env rk sz a f"
    and t: "PB_LTYPE (ftype f) = PB_LTYPE_SUBMESSAGE" and s: "in_ok s" and mem: "memory_ok env h"
    and own: "owned A h p (data_size f)"
  shows "safe A s h (pb_dec_submessage env sub f p s h)"
proof (cases "pb_make_string_substream s")
  case (Pair r u)
  show ?thesis
  proof (cases r)
    case None
    then show ?thesis using make_substream_None [of s] Pair
      by (auto simp: pb_dec_submessage_def dec_get_def)
  next
    case (Some ss)
    note m = make_substream [OF s Pair [unfolded Some]]
    obtain gs where gs: "dec_fields env (ptr f) = Some gs" "rk (ptr f) < rk a" "sz (ptr f) \<le> data_size f"
      using f t by (auto simp: submessage_ok_def)
    have "owned A h p (sz (ptr f))" using owned_part [OF _ own, of 0 "sz (ptr f)"] gs(3) mem by (simp add: memory_ok_def)
    then have "safe A ss h (sub (PB_HTYPE (ftype f) = PB_HTYPE_REPEATED) gs p ss h)"
      using sub gs m mem unfolding sub_safe_def by blast
    then obtain ok s' h' where r: "sub (PB_HTYPE (ftype f) = PB_HTYPE_REPEATED) gs p ss h = Some (ok, s', h')"
      "in_step ss s'" "alters A h h'" by (auto simp: safe_def)
    have "safe A s h (close_substream u ok s' h')" by (rule safe_close [OF s Pair [unfolded Some] r(2,3)])
    then show ?thesis using gs(1) r(1) safe_fail [OF m(2) alters_refl]
      by (simp add: pb_dec_submessage_def dec_get_def Pair Some)
  qed
qed

lemma dec_value_safe:
  assumes f: "static_field f" "submessage_ok env rk sz a f" and sub: "sub_safe env rk sz a (bytes_left s) sub"
    and s: "in_ok s" and mem: "memory_ok env h" and own: "owned A h p (data_size f)"
  shows "safe A s h (dec_value env sub f p s h)"
proof -
  let ?t = "PB_LTYPE (ftype f)"
  have room: "room h p (data_size f)" and A: "{p..<p + int (data_size f)} \<subseteq> A" using own by (simp_all add: owned_def)
  note at = safe_dec_at [OF _ s room A]
  have t: "?t \<in> {PB_LTYPE_BOOL, PB_LTYPE_VARINT, PB_LTYPE_UVARINT, PB_LTYPE_SVARINT, PB_LTYPE_FIXED32, PB_LTYPE_FIXED64,
      PB_LTYPE_BYTES, PB_LTYPE_STRING, PB_LTYPE_SUBMESSAGE, PB_LTYPE_FIXED_LENGTH_BYTES}"
    using f(1) by (intro ltype_cases) (simp_all add: static_field_def Let_def)
  have w: "?t = PB_LTYPE_BOOL \<Longrightarrow> 1 \<le> data_size f" "?t = PB_LTYPE_FIXED32 \<Longrightarrow> 4 \<le> data_size f"
    "?t = PB_LTYPE_FIXED64 \<Longrightarrow> 8 \<le> data_size f"
    using f(1) by (simp_all add: static_field_def Let_def)
  from t consider "?t = PB_LTYPE_BOOL" | "?t = PB_LTYPE_VARINT" | "?t = PB_LTYPE_UVARINT" | "?t = PB_LTYPE_SVARINT"
    | "?t = PB_LTYPE_FIXED32" | "?t = PB_LTYPE_FIXED64" | "?t = PB_LTYPE_BYTES" | "?t = PB_LTYPE_STRING"
    | "?t = PB_LTYPE_SUBMESSAGE" | "?t = PB_LTYPE_FIXED_LENGTH_BYTES" by blast
  then show ?thesis
  proof cases
    case 1
    then show ?thesis using at [where f = "pb_dec_bool", OF confined_bool [OF w(1)]] by (simp add: dec_value_def)
  next
    case 2
    then show ?thesis using at [where f = "\<lambda>s. pb_dec_varint s f", OF confined_varint [OF order_refl]] by (simp add: dec_value_def)
  next
    case 3
    then show ?thesis using at [where f = "\<lambda>s. pb_dec_uvarint s f", OF confined_uvarint [OF order_refl]] by (simp add: dec_value_def)
  next
    case 4
    then show ?thesis using at [where f = "\<lambda>s. pb_dec_svarint s f", OF confined_svarint [OF order_refl]] by (simp add: dec_value_def)
  next
    case 5
    then show ?thesis using at [where f = "pb_dec_fixed32", OF confined_fixed32 [OF w(2)]] by (simp add: dec_value_def)
  next
    case 6
    then show ?thesis using at [where f = "pb_dec_fixed64", OF confined_fixed64 [OF w(3)]] by (simp add: dec_value_def)
  next
    case 7
    then show ?thesis using bytes_safe [OF f(1) s own] by (simp add: dec_value_def)
  next
    case 8
    then show ?thesis using string_safe [OF f(1) s own] by (simp add: dec_value_def)
  next
    case 9
    then show ?thesis using submessage_safe [OF sub f(2) _ s mem own] by (simp add: dec_value_def)
  next
    case 10
    then show ?thesis using at [where f = "\<lambda>s. pb_dec_fixed_length_bytes s f", OF confined_fixed_length_bytes] by (simp add: dec_value_def)
  qed
qed

end
