(* ===== verification/PbTotal.thy ===== *)
theory PbTotal
  imports PbSafe
begin

text \<open>
  The message decoder on static fields, continued: fields, the loop over the stream, and whole messages.
\<close>

section \<open>Static fields\<close>

text \<open>The entries of a packed array eat their bytes, so the loop ends.\<close>

definition dec_eats :: "'s decoder \<Rightarrow> bool" where
  "dec_eats dec \<longleftrightarrow> (\<forall>s h s' h'. in_ok s \<longrightarrow> dec s h = Some (True, s', h') \<longrightarrow> bytes_left s' < bytes_left s)"

lemma dec_eatsD: "dec_eats dec \<Longrightarrow> in_ok s \<Longrightarrow> dec s h = Some (True, s', h') \<Longrightarrow> bytes_left s' < bytes_left s"
  unfolding dec_eats_def by blast

lemma dec_at_eats:
  assumes "\<And>s mem s' mem'. in_ok s \<Longrightarrow> f s mem = (True, s', mem') \<Longrightarrow> bytes_left s' < bytes_left s"
  shows "dec_eats (dec_at f p)"
  using assms by (auto simp: dec_eats_def dec_at_def Let_def split: prod.splits if_splits)

lemma dec_do_eats:
  assumes "dec_do r mem k = (True, s', mem')" "eats s r" "in_ok s" "\<And>v t. k v t = (True, s', mem') \<Longrightarrow> s' = t"
  shows "bytes_left s' < bytes_left s"
  using assms by (cases r; cases "fst r") (auto simp: eats_def)

lemma store_True: "store_signed n v s mem = (True, s', mem') \<Longrightarrow> s' = s"
  "store_unsigned n u s mem = (True, s', mem') \<Longrightarrow> s' = s"
  by (auto simp: store_signed_def store_unsigned_def Let_def dec_error_eq split: if_splits)

lemma packable_eats:
  assumes "PB_LTYPE (ftype f) \<le> PB_LTYPE_LAST_PACKABLE"
  shows "dec_eats (dec_value env sub f p)"
proof -
  let ?t = "PB_LTYPE (ftype f)"
  have "unat ?t \<le> 5" using assms by (simp add: word_le_nat_alt PB_LTYPE_LAST_PACKABLE_def)
  then have "unat ?t \<in> {0, 1, 2, 3, 4, 5}" by (simp add: le_Suc_eq numeral_eq_Suc)
  then consider "?t = PB_LTYPE_BOOL" | "?t = PB_LTYPE_VARINT" | "?t = PB_LTYPE_UVARINT" | "?t = PB_LTYPE_SVARINT"
    | "?t = PB_LTYPE_FIXED32" | "?t = PB_LTYPE_FIXED64" by (auto simp: word_unat_eq_iff)
  then show ?thesis
  proof cases
    case 1
    have "dec_eats (dec_at pb_dec_bool p)"
      by (rule dec_at_eats, unfold pb_dec_bool_def, erule dec_do_eats [OF _ eats_varint32]) auto
    then show ?thesis using 1 by (simp add: dec_value_def)
  next
    case 2
    have "dec_eats (dec_at (\<lambda>s. pb_dec_varint s f) p)"
      by (rule dec_at_eats, unfold pb_dec_varint_def, erule dec_do_eats [OF _ eats_varint])
        (auto simp: Let_def dec_error_eq dest: store_True split: if_splits)
    then show ?thesis using 2 by (simp add: dec_value_def)
  next
    case 3
    have "dec_eats (dec_at (\<lambda>s. pb_dec_uvarint s f) p)"
      by (rule dec_at_eats, unfold pb_dec_uvarint_def, erule dec_do_eats [OF _ eats_varint])
        (auto simp: Let_def dec_error_eq dest: store_True split: if_splits)
    then show ?thesis using 3 by (simp add: dec_value_def)
  next
    case 4
    have "dec_eats (dec_at (\<lambda>s. pb_dec_svarint s f) p)"
      by (rule dec_at_eats, unfold pb_dec_svarint_def, erule dec_do_eats [OF _ eats_svarint])
        (auto simp: Let_def dec_error_eq dest: store_True split: if_splits)
    then show ?thesis using 4 by (simp add: dec_value_def)
  next
    case 5
    have "dec_eats (dec_at pb_dec_fixed32 p)"
      by (rule dec_at_eats, unfold pb_dec_fixed32_def, erule dec_do_eats [OF _ eats_fixed(1)]) auto
    then show ?thesis using 5 by (simp add: dec_value_def)
  next
    case 6
    have "dec_eats (dec_at pb_dec_fixed64 p)"
      by (rule dec_at_eats, unfold pb_dec_fixed64_def, erule dec_do_eats [OF _ eats_fixed(2)]) auto
    then show ?thesis using 6 by (simp add: dec_value_def)
  qed
qed

lemma item_owned:
  assumes f: "static_field f" "PB_HTYPE (ftype f) = PB_HTYPE_REPEATED" "n < array_size f" and h: "heap_ok h"
    and own: "owned A h p (data_size f * entries f)"
  shows "owned A h (item_address f p n) (data_size f)"
proof -
  have e: "entries f = array_size f" using f(2) by (simp add: entries_def)
  have "data_size f * n \<le> data_size f * array_size f" using f(3) by simp
  also have "\<dots> < 2 ^ 32" using f(1) by (simp add: static_field_def e Let_def)
  finally have a: "item_address f p n = p + int (data_size f * n)" by (simp add: item_address_def)
  have "data_size f * Suc n \<le> data_size f * array_size f" using f(3) by (intro mult_le_mono2) simp
  then have "data_size f * n + data_size f \<le> data_size f * entries f" by (simp add: e)
  from owned_part [OF h own this] show ?thesis by (simp add: a)
qed

lemma static_packed_safe:
  assumes f: "static_field (cur_field it)" "submessage_ok env rk sz a (cur_field it)"
    and p: "PB_HTYPE (ftype (cur_field it)) = PB_HTYPE_REPEATED" "PB_LTYPE (ftype (cur_field it)) \<le> PB_LTYPE_LAST_PACKABLE"
  shows "bytes_left s < fuel \<Longrightarrow> sub_safe env rk sz a (bytes_left s) sub \<Longrightarrow> in_ok s \<Longrightarrow> memory_ok env h \<Longrightarrow> field_owned A h it \<Longrightarrow>
    safe A s h (static_packed_loop (dec_value env sub (cur_field it)) it fuel s h)"
proof (induction fuel arbitrary: s h)
  case 0
  then show ?case by simp
next
  case (Suc fuel)
  let ?f = "cur_field it"
  have cnt: "owned A h (pSize it) 4" and data: "owned A h (pData it) (data_size ?f * entries ?f)"
    using Suc.prems(5) p(1) by (simp_all add: field_owned_def counted_def Let_def)
  obtain n where n: "load_size h (pSize it) = Some n" using load_size_room [of h "pSize it"] cnt by (auto simp: owned_def)
  show ?case
  proof (cases "bytes_left s = 0 \<or> array_size ?f \<le> n")
    case True
    then show ?thesis using n by (auto simp: Let_def)
  next
    case False
    let ?r = "dec_value env sub ?f (item_address ?f (pData it) n) s h"
    have "owned A h (item_address ?f (pData it) n) (data_size ?f)"
      using item_owned [OF f(1) p(1) _ _ data] False Suc.prems(4) by (simp add: memory_ok_def)
    then have "safe A s h ?r" using dec_value_safe [OF f Suc.prems(2,3,4)] by blast
    then obtain ok t g where r: "?r = Some (ok, t, g)" and st: "in_step s t" and al: "alters A h g"
      by (auto simp: safe_def)
    show ?thesis
    proof (cases ok)
      case False
      then show ?thesis using r st al n \<open>\<not> (bytes_left s = 0 \<or> _)\<close> by (auto simp: Let_def dec_then_def)
    next
      case True
      then have lt: "bytes_left t < bytes_left s" using dec_eatsD [OF packable_eats [OF p(2)] Suc.prems(3)] r by simp
      obtain n' where n': "load_size g (pSize it) = Some n'" using load_size_room [of g "pSize it"] cnt alters_room [OF al] by (auto simp: owned_def)
      have "hsafe A g (store_size g (pSize it) (n' + 1))"
        using cnt by (intro hsafe_store_size) (simp_all add: owned_def alters_room [OF al])
      then obtain g' where g': "store_size g (pSize it) (n' + 1) = Some g'" "alters A g g'" by (auto simp: hsafe_def)
      have al': "alters A h g'" using alters_trans [OF al g'(2)] .
      have sub: "sub_safe env rk sz a (bytes_left t) sub" using Suc.prems(2) lt by (simp add: sub_safe_def)
      have "safe A t g' (static_packed_loop (dec_value env sub ?f) it fuel t g')"
        by (rule Suc.IH [OF _ sub])
          (use Suc.prems lt in_step_ok [OF st] in \<open>simp_all add: memory_ok_alters [OF al'] field_owned_alters [OF al']\<close>)
      then have "safe A s h (static_packed_loop (dec_value env sub ?f) it fuel t g')" by (rule safe_after [OF st al'])
      then show ?thesis using r n n' g' True \<open>\<not> (bytes_left s = 0 \<or> _)\<close> by (simp add: Let_def dec_then_def)
    qed
  qed
qed

lemma substream_safe:
  assumes "in_ok s" "\<And>ss. in_ok ss \<Longrightarrow> bytes_left ss < bytes_left s \<Longrightarrow> safe A ss h (loop ss h)"
  shows "safe A s h (dec_get (pb_make_string_substream s) h (\<lambda>ss t h.
    do { (ok, ss, h) \<leftarrow> loop ss h; (if P ss then dec_fail msg t h else close_substream t ok ss h) }))"
proof (cases "pb_make_string_substream s")
  case (Pair r t)
  show ?thesis
  proof (cases r)
    case None
    then show ?thesis using make_substream_None [of s] Pair by (auto simp: dec_get_def)
  next
    case (Some ss)
    note m = make_substream [OF assms(1) Pair [unfolded Some]]
    obtain ok ss' h' where r: "loop ss h = Some (ok, ss', h')" "in_step ss ss'" "alters A h h'"
      using assms(2) [OF m(1,3)] by (auto simp: safe_def)
    show ?thesis using safe_close [OF assms(1) Pair [unfolded Some] r(2,3)] safe_fail [OF m(2) r(3)] r(1)
      by (simp add: dec_get_def Pair Some)
  qed
qed

lemma hsafe_set_to_defaults:
  assumes "static_messages env rk sz" "submessage_ok env rk sz a f" "PB_LTYPE (ftype f) = PB_LTYPE_SUBMESSAGE"
    "rk a < fuel" "memory_ok env h" "owned A h p (data_size f)"
  shows "hsafe A h (do { fs \<leftarrow> dec_fields env (ptr f); pb_message_set_to_defaults env fuel fs p h })"
proof -
  obtain gs where gs: "dec_fields env (ptr f) = Some gs" "rk (ptr f) < rk a" "sz (ptr f) \<le> data_size f"
    using assms(2,3) by (auto simp: submessage_ok_def)
  have "owned A h p (sz (ptr f))"
    using owned_part [OF _ assms(6), of 0 "sz (ptr f)"] gs(3) assms(5) by (simp add: memory_ok_def)
  then show ?thesis using set_to_default_safe [OF assms(1) gs(1) _ assms(5), of fuel A p] gs assms(4)
    by (simp add: pb_message_set_to_defaults_def)
qed

lemma sub_safe_less: "sub_safe env rk sz a m sub \<Longrightarrow> n \<le> m \<Longrightarrow> sub_safe env rk sz a n sub"
  unfolding sub_safe_def by (meson less_le_trans)

lemma decode_static_field_safe:
  assumes st: "static_messages env rk sz" and f: "submessage_ok env rk sz a (cur_field it)"
    and own: "field_owned A h it" and mem: "memory_ok env h" and s: "in_ok s"
    and sub: "sub_safe env rk sz a (bytes_left s) sub" and fuel: "rk a < fuel" "bytes_left s < fuel"
  shows "safe A s h (decode_static_field env sub fuel wire_type it s h)"
proof -
  let ?f = "cur_field it" and ?dec = "dec_value env sub (cur_field it)"
  have stat: "static_field ?f" using own by (simp add: field_owned_def Let_def)
  have dec: "safe A s g (?dec p s g)" if "alters A h g" "owned A h p (data_size ?f)" for p g
    using dec_value_safe [OF stat f sub s] mem that by (simp add: memory_ok_alters owned_alters)
  have data: "owned A h (pData it) (data_size ?f)" if "PB_HTYPE (ftype ?f) \<noteq> PB_HTYPE_REPEATED"
    using own that by (simp add: field_owned_def Let_def entries_def)
  have flag: "owned A h (pSize it) 1" if "PB_HTYPE (ftype ?f) = PB_HTYPE_OPTIONAL" "pSize it \<noteq> pData it"
    using own that by (simp add: field_owned_def Let_def)
  have cnt: "owned A h (pSize it) 4" if "counted ?f" using own that by (simp add: field_owned_def Let_def)
  have set_cnt: "hsafe A g (store_size g (pSize it) n)" if "counted ?f" "alters A h g" for g n
    using cnt [OF that(1)] by (intro hsafe_store_size) (simp_all add: owned_def alters_room [OF that(2)])
  have opt: "safe A s h (do { h \<leftarrow> (if pSize it \<noteq> pData it then store_bool h (pSize it) True else Some h); ?dec (pData it) s h })"
    if "PB_HTYPE (ftype ?f) = PB_HTYPE_OPTIONAL"
    by (rule safe_bind) (use flag that data dec in \<open>auto simp: owned_def intro!: hsafe_store_bool\<close>)
  have packed: "safe A s h (dec_get (pb_make_string_substream s) h (\<lambda>substream s h.
      do { (status, substream, h) \<leftarrow> static_packed_loop ?dec it fuel substream h;
           (if bytes_left substream \<noteq> 0 then dec_fail ''array overflow'' s h else close_substream s status substream h) }))"
    if "PB_HTYPE (ftype ?f) = PB_HTYPE_REPEATED" "PB_LTYPE (ftype ?f) \<le> PB_LTYPE_LAST_PACKABLE"
  proof (rule substream_safe [OF s])
    fix ss :: "'a pb_istream" assume ss: "in_ok ss" "bytes_left ss < bytes_left s"
    show "safe A ss h (static_packed_loop ?dec it fuel ss h)"
      by (rule static_packed_safe [OF stat f that _ sub_safe_less [OF sub] ss(1) mem own]) (use ss fuel in auto)
  qed
  have item: "safe A s h (do { n \<leftarrow> load_size h (pSize it); h \<leftarrow> store_size h (pSize it) (n + 1);
      (if array_size ?f \<le> n then dec_fail ''array overflow'' s h else ?dec (item_address ?f (pData it) n) s h) })"
    if r: "PB_HTYPE (ftype ?f) = PB_HTYPE_REPEATED"
  proof -
    have c: "counted ?f" using r by (simp add: counted_def)
    obtain n where n: "load_size h (pSize it) = Some n" using load_size_room [of h "pSize it"] cnt [OF c] by (auto simp: owned_def)
    have "owned A h (item_address ?f (pData it) n) (data_size ?f)" if "n < array_size ?f"
      using item_owned [OF stat r that, of h A "pData it"] own mem by (simp add: memory_ok_def field_owned_def Let_def)
    then show ?thesis unfolding n Option.bind.bind_lunit
      by (intro safe_bind set_cnt [OF c]) (auto intro: dec)
  qed
  have one: "safe A s h (do { h \<leftarrow> (if PB_LTYPE (ftype ?f) = PB_LTYPE_SUBMESSAGE
         then do { which \<leftarrow> load_size h (pSize it);
                   (if which \<noteq> unat (tag ?f)
                    then do { h \<leftarrow> store_mem h (pData it) (replicate (data_size ?f) 0);
                              fs \<leftarrow> dec_fields env (ptr ?f);
                              pb_message_set_to_defaults env fuel fs (pData it) h }
                    else Some h) }
         else Some h);
       h \<leftarrow> store_size h (pSize it) (unat (tag ?f));
       ?dec (pData it) s h })"
    if o: "PB_HTYPE (ftype ?f) = PB_HTYPE_ONEOF"
  proof -
    have c: "counted ?f" and d: "owned A h (pData it) (data_size ?f)" using o data by (simp_all add: counted_def)
    obtain n where n: "load_size h (pSize it) = Some n" using load_size_room [of h "pSize it"] cnt [OF c] by (auto simp: owned_def)
    have z: "hsafe A h (do { h \<leftarrow> store_mem h (pData it) (replicate (data_size ?f) 0);
        fs \<leftarrow> dec_fields env (ptr ?f); pb_message_set_to_defaults env fuel fs (pData it) h })"
      if "PB_LTYPE (ftype ?f) = PB_LTYPE_SUBMESSAGE"
    proof (rule hsafe_bind)
      show "hsafe A h (store_mem h (pData it) (replicate (data_size ?f) 0))"
        using d hsafe_store [of h "pData it" "replicate (data_size ?f) 0" A] by (simp add: owned_def)
    next
      fix g assume "alters A h g"
      then show "hsafe A g (do { fs \<leftarrow> dec_fields env (ptr ?f); pb_message_set_to_defaults env fuel fs (pData it) g })"
        using hsafe_set_to_defaults [OF st f that fuel(1), of g A "pData it"] mem d by (simp add: memory_ok_alters owned_alters)
    qed
    show ?thesis unfolding n Option.bind.bind_lunit
      by (intro safe_bind) (auto simp: z intro: dec [OF _ d] set_cnt [OF c] alters_trans)
  qed
  show ?thesis using opt packed item one data dec [OF alters_refl]
    by (simp add: decode_static_field_def Let_def)
qed

section \<open>The cursor\<close>

text \<open>Results with something more, here the cursor and the other local variables.\<close>

definition safe_with :: "('x \<Rightarrow> bool) \<Rightarrow> int set \<Rightarrow> 's pb_istream \<Rightarrow> heap \<Rightarrow> ((bool \<times> 's pb_istream \<times> heap) \<times> 'x) option \<Rightarrow> bool" where
  "safe_with C A s h r \<longleftrightarrow> (\<exists>ok s' h' x. r = Some ((ok, s', h'), x) \<and> in_step s s' \<and> alters A h h' \<and> C x)"

lemma safe_with_result [intro]: "in_step s s' \<Longrightarrow> alters A h h' \<Longrightarrow> C x \<Longrightarrow> safe_with C A s h (Some ((ok, s', h'), x))"
  by (auto simp: safe_with_def)

lemma safe_with_map: "safe A s h r \<Longrightarrow> C x \<Longrightarrow> safe_with C A s h (map_option (\<lambda>r. (r, x)) r)"
  unfolding safe_def safe_with_def by auto

lemma safe_with_mono: "safe_with C A s h r \<Longrightarrow> (\<And>x. C x \<Longrightarrow> D x) \<Longrightarrow> safe_with D A s h r"
  unfolding safe_with_def by blast

lemma safe_with_after:
  assumes "in_step s t" "alters A h g" "safe_with C A t g r"
  shows "safe_with C A s h r"
  using assms(3) in_step_trans [OF assms(1)] alters_trans [OF assms(2)] unfolding safe_with_def by blast

lemma safe_with_bind:
  assumes "safe_with C A s h r"
    and "\<And>s' h' x. in_step s s' \<Longrightarrow> alters A h h' \<Longrightarrow> C x \<Longrightarrow> safe_with D A s' h' (k True s' h' x)"
    and "\<And>s' h' x. in_step s s' \<Longrightarrow> alters A h h' \<Longrightarrow> C x \<Longrightarrow> safe_with D A s' h' (k False s' h' x)"
  shows "safe_with D A s h (r \<bind> (\<lambda>((ok, s, h), x). k ok s h x))"
proof -
  from assms(1) obtain ok t g x where r: "r = Some ((ok, t, g), x)" and st: "in_step s t" and al: "alters A h g" and x: "C x"
    by (auto simp: safe_with_def)
  show ?thesis
    using safe_with_after [OF st al assms(2) [OF st al x]] safe_with_after [OF st al assms(3) [OF st al x]]
    by (cases ok) (simp_all add: r)
qed

text \<open>
  The cursor is at a field of the message, reached from its beginning; for an array without a count of
  its own the address of the count may have been replaced by \<open>loc\<close>.
\<close>

definition on_field :: "int pb_field list \<Rightarrow> int \<Rightarrow> nat \<Rightarrow> int pb_field_iter \<Rightarrow> bool" where
  "on_field fs dest n it \<longleftrightarrow> (\<exists>i<n. it = iter_at fs dest i)"

definition cursor_ok :: "int pb_field list \<Rightarrow> int \<Rightarrow> nat \<Rightarrow> int \<Rightarrow> int pb_field_iter \<Rightarrow> bool" where
  "cursor_ok fs dest n loc it \<longleftrightarrow>
     (\<exists>i<n. it = iter_at fs dest i \<or> PB_HTYPE (ftype (fs ! i)) = PB_HTYPE_REPEATED \<and> it = (iter_at fs dest i)\<lparr> pSize := loc \<rparr>)"

lemma on_field_cursor: "on_field fs dest n it \<Longrightarrow> cursor_ok fs dest n loc it"
  by (auto simp: on_field_def cursor_ok_def)

lemma find_on_field:
  assumes "message_fields n fs" "i < n"
  shows "\<exists>b j. j < n \<and> pb_field_iter_find (iter_at fs dest i) t = Some (b, iter_at fs dest j) \<and> (b \<longrightarrow> field_matches t (fs ! j))"
proof -
  have j: "j < n \<and> field_matches t (fs ! j)" if "find (\<lambda>j. field_matches t (fs ! j)) (search_order n i) = Some j" for j
    using that assms(2) by (auto simp: find_Some_iff search_order_def)
  have "pb_field_iter_find (iter_at fs dest i) t =
      Some (case find (\<lambda>j. field_matches t (fs ! j)) (search_order n i) of
              Some j \<Rightarrow> (True, iter_at fs dest j) | None \<Rightarrow> (False, iter_at fs dest i))"
    using find_loop_order [OF assms, of 0 "length fs" t dest] assms iter_at_inside [OF assms, of dest]
    by (simp add: pb_field_iter_find_def message_fields_def)
  then show ?thesis using j assms(2) by (auto split: option.split)
qed

text \<open>The search from a cursor whose count address was replaced.\<close>

lemma next_pSize:
  "tag (cur_field it) \<noteq> 0 \<Longrightarrow> PB_HTYPE (ftype (cur_field it)) = PB_HTYPE_REPEATED \<Longrightarrow>
    snd (pb_field_iter_next (it\<lparr> pSize := q \<rparr>)) = snd (pb_field_iter_next it)"
  by (auto simp: pb_field_iter_next_def cur_field_def Let_def)

lemma find_pSize:
  assumes "tag (cur_field it) \<noteq> 0" "start it \<noteq> []" "PB_HTYPE (ftype (cur_field it)) = PB_HTYPE_REPEATED"
  shows "pb_field_iter_find (it\<lparr> pSize := q \<rparr>) t =
    (if field_matches t (cur_field it) then Some (True, it\<lparr> pSize := q \<rparr>) else pb_field_iter_find it t)"
proof -
  have c: "cur_field (it\<lparr> pSize := q \<rparr>) = cur_field it" by (simp add: cur_field_def)
  show ?thesis using assms by (cases "start it") (simp_all add: pb_field_iter_find_def c next_pSize Let_def)
qed

lemma find_cursor:
  assumes m: "message_fields n fs" and c: "cursor_ok fs dest n loc it"
  shows "\<exists>b it'. pb_field_iter_find it t = Some (b, it') \<and> cursor_ok fs dest n loc it' \<and> (\<not> b \<longrightarrow> on_field fs dest n it')"
proof -
  from c obtain i where i: "i < n"
    and it: "it = iter_at fs dest i \<or> PB_HTYPE (ftype (fs ! i)) = PB_HTYPE_REPEATED \<and> it = (iter_at fs dest i)\<lparr> pSize := loc \<rparr>"
    by (auto simp: cursor_ok_def)
  note at = iter_at_inside [OF m i, of dest]
  have cur: "cur_field (iter_at fs dest i) = fs ! i" using at by (simp add: cur_field_def)
  have nz: "tag (cur_field (iter_at fs dest i)) \<noteq> 0" "start (iter_at fs dest i) \<noteq> []"
    using m i at cur by (auto simp: message_fields_def)
  obtain b j where j: "j < n" "pb_field_iter_find (iter_at fs dest i) t = Some (b, iter_at fs dest j)"
    using find_on_field [OF m i] by blast
  then have on: "on_field fs dest n (iter_at fs dest j)" by (auto simp: on_field_def)
  show ?thesis
  proof (cases "it = iter_at fs dest i \<or> \<not> field_matches t (fs ! i)")
    case True
    then show ?thesis using j on on_field_cursor [OF on] it find_pSize [OF nz(1,2)] cur by auto
  next
    case False
    then have "pb_field_iter_find it t = Some (True, it)" using it find_pSize [OF nz(1,2)] cur by auto
    then show ?thesis using c by blast
  qed
qed

text \<open>Without extension fields the round of \<open>find_extension_field\<close> ends where it began.\<close>

lemma find_extension_round:
  assumes m: "message_fields n fs" and i: "i < n" and e: "\<And>j. j < n \<Longrightarrow> PB_LTYPE (ftype (fs ! j)) \<noteq> PB_LTYPE_EXTENSION"
  shows "k < n \<Longrightarrow> n - k \<le> fuel \<Longrightarrow>
    find_extension_loop fuel i (iter_at fs dest ((i + k) mod n)) = Some (False, iter_at fs dest i)"
proof (induction "n - k" arbitrary: k fuel)
  case 0
  then show ?case by simp
next
  case (Suc d)
  then obtain f where f: "fuel = Suc f" by (cases fuel) auto
  let ?j = "(i + k) mod n"
  have j: "?j < n" using i by simp
  have cur: "cur_field (iter_at fs dest ?j) = fs ! ?j" using iter_at_inside [OF m j, of dest] by (simp add: cur_field_def)
  have nx: "snd (pb_field_iter_next (iter_at fs dest ?j)) = iter_at fs dest ((i + Suc k) mod n)"
    using iter_at_next(1) [OF m j, of dest] mod_Suc [of "i + k" n] by simp
  have p: "pos (iter_at fs dest ((i + Suc k) mod n)) = (i + Suc k) mod n"
    using iter_at_inside [OF m, of "(i + Suc k) mod n" dest] i by simp
  show ?case
  proof (cases "Suc k = n")
    case True
    then show ?thesis using f cur nx p search_order_wrap [OF i Suc.prems(1)] e [OF j] by simp
  next
    case False
    then show ?thesis using Suc.hyps(1) [of "Suc k" f] Suc.hyps(2) Suc.prems f cur nx p search_order_wrap [OF i Suc.prems(1)] e [OF j]
      by simp
  qed
qed

lemma find_extension_on_field:
  assumes m: "message_fields n fs" and e: "\<And>j. j < n \<Longrightarrow> PB_LTYPE (ftype (fs ! j)) \<noteq> PB_LTYPE_EXTENSION"
    and it: "on_field fs dest n it"
  shows "find_extension_field it = Some (False, it)"
proof -
  obtain i where i: "i < n" "it = iter_at fs dest i" using it by (auto simp: on_field_def)
  show ?thesis
    using find_extension_round [OF m i(1) e, of 0 "length fs" dest] i m iter_at_inside [OF m i(1), of dest]
    by (simp add: find_extension_field_def message_fields_def)
qed

section \<open>Fields of a struct\<close>

text \<open>A message struct at \<open>dest\<close> and the local count at \<open>loc\<close>, both in the addresses \<open>A\<close>.\<close>

definition struct_ok :: "'s dec_env \<Rightarrow> (int \<Rightarrow> nat) \<Rightarrow> (int \<Rightarrow> nat) \<Rightarrow> int \<Rightarrow> int pb_field list \<Rightarrow> nat \<Rightarrow> int \<Rightarrow> int \<Rightarrow>
    int set \<Rightarrow> heap \<Rightarrow> bool" where
  "struct_ok env rk sz a fs n dest loc A h \<longleftrightarrow>
     static_messages env rk sz \<and> message_fields n fs \<and>
     (\<forall>i<n. field_fits (sz a) (iter_at fs 0 i) \<and> submessage_ok env rk sz a (fs ! i)) \<and>
     memory_ok env h \<and> owned A h dest (sz a) \<and> owned A h loc 4"

lemma struct_ok_alters: "alters B h g \<Longrightarrow> struct_ok env rk sz a fs n dest loc A g = struct_ok env rk sz a fs n dest loc A h"
  by (simp add: struct_ok_def memory_ok_alters owned_alters)

lemma struct_cursor:
  assumes "struct_ok env rk sz a fs n dest loc A h" "cursor_ok fs dest n loc it"
  shows "field_owned A h it" "submessage_ok env rk sz a (cur_field it)"
proof -
  from assms(2) obtain i where i: "i < n"
    and it: "it = iter_at fs dest i \<or> PB_HTYPE (ftype (fs ! i)) = PB_HTYPE_REPEATED \<and> it = (iter_at fs dest i)\<lparr> pSize := loc \<rparr>"
    by (auto simp: cursor_ok_def)
  from assms(1) have m: "message_fields n fs" and f: "field_fits (sz a) (iter_at fs 0 i)" "submessage_ok env rk sz a (fs ! i)"
    and h: "heap_ok h" and o: "owned A h dest (sz a)" "owned A h loc 4"
    using i by (simp_all add: struct_ok_def memory_ok_def)
  have own: "field_owned A h (iter_at fs dest i)" by (rule field_fits_owned [OF m i f(1) h o(1)])
  have cur: "cur_field (iter_at fs dest i) = fs ! i" using iter_at_inside [OF m i, of dest] by (simp add: cur_field_def)
  have c: "cur_field ((iter_at fs dest i)\<lparr> pSize := q \<rparr>) = fs ! i" for q using cur by (simp add: cur_field_def)
  show "submessage_ok env rk sz a (cur_field it)" using it f(2) c cur by auto
  show "field_owned A h it" using it own o(2) by (auto simp: field_owned_def c cur Let_def)
qed

lemma struct_on_field:
  assumes "struct_ok env rk sz a fs n dest loc A h" "on_field fs dest n it"
  shows "field_owned A h it" "submessage_ok env rk sz a (cur_field it)"
  using struct_cursor [OF assms(1) on_field_cursor [OF assms(2)]] .

lemma release_union_safe:
  assumes st: "struct_ok env rk sz a fs n dest loc A h" and it: "on_field fs dest n it"
    and o: "PB_HTYPE (ftype (cur_field it)) = PB_HTYPE_ONEOF" and fuel: "rk a < fuel"
  shows "safe_with (on_field fs dest n) A s h (pb_release_union_field env fuel s it h)"
proof -
  have m: "message_fields n fs" and sm: "static_messages env rk sz" using st by (simp_all add: struct_ok_def)
  have own: "field_owned A h it" by (rule struct_on_field(1) [OF st it])
  then have "owned A h (pSize it) 4" using o by (simp add: field_owned_def counted_def Let_def)
  then obtain old where old: "load_size h (pSize it) = Some old" using load_size_room [of h "pSize it"] by (auto simp: owned_def)
  have find: "\<exists>b it'. pb_field_iter_find jt t = Some (b, it') \<and> on_field fs dest n it'" if "on_field fs dest n jt" for jt t
    using that find_on_field [OF m] unfolding on_field_def by blast
  obtain b1 it1 where f1: "pb_field_iter_find it (of_nat old) = Some (b1, it1)" "on_field fs dest n it1"
    using find [OF it] by blast
  have own1: "field_owned A h it1" "submessage_ok env rk sz a (cur_field it1)" using struct_on_field [OF st f1(2)] .
  have "memory_ok env h" using st by (simp add: struct_ok_def)
  from release_field_safe [OF sm fuel this own1] obtain g where g: "pb_release_single_field env fuel it1 h = Some g" "alters {} h g"
    by (auto simp: hsafe_def)
  have al: "alters A h g" using alters_mono [OF g(2)] by blast
  obtain b2 it2 where f2: "pb_field_iter_find it1 (tag (cur_field it)) = Some (b2, it2)" "on_field fs dest n it2"
    using find [OF f1(2)] by blast
  have np: "\<not> is_pointer (cur_field it2)"
    using struct_on_field(1) [OF st f2(2)] by (intro static_not_pointer) (simp add: field_owned_def Let_def)
  have fail: "safe_with (on_field fs dest n) A s h (map_option (\<lambda>r. (r, jt)) (dec_fail msg s g'))"
    if "on_field fs dest n jt" "alters A h g'" for msg jt g'
    by (rule safe_with_map) (use that in auto)
  show ?thesis
    using fail [OF f1(2) alters_refl] fail [OF f2(2) al] f2(2) al it
    by (auto simp: pb_release_union_field_def Let_def old f1(1) g(1) f2(1) np)
qed

lemma decode_field_safe:
  assumes st: "struct_ok env rk sz a fs n dest loc A h" and it: "cursor_ok fs dest n loc it"
    and s: "in_ok s" and sub: "sub_safe env rk sz a (bytes_left s) sub" and fuel: "rk a < fuel" "bytes_left s < fuel"
  shows "safe_with (cursor_ok fs dest n loc) A s h (decode_field env sub fuel wt s it h)"
proof -
  have pre: "safe_with (cursor_ok fs dest n loc) A s h
      (if PB_HTYPE (ftype (cur_field it)) = PB_HTYPE_ONEOF then pb_release_union_field env fuel s it h else Some ((True, s, h), it))"
  proof (cases "PB_HTYPE (ftype (cur_field it)) = PB_HTYPE_ONEOF")
    case True
    obtain i where i: "i < n"
      "it = iter_at fs dest i \<or> PB_HTYPE (ftype (fs ! i)) = PB_HTYPE_REPEATED \<and> it = (iter_at fs dest i)\<lparr> pSize := loc \<rparr>"
      using it by (auto simp: cursor_ok_def)
    have m: "message_fields n fs" using st by (simp add: struct_ok_def)
    have "PB_HTYPE (ftype (fs ! i)) = PB_HTYPE_ONEOF"
      using True i iter_at_inside [OF m i(1), of dest] by (auto simp: cur_field_def)
    then have "on_field fs dest n it" using i by (auto simp: on_field_def)
    from safe_with_mono [OF release_union_safe [OF st this True fuel(1)] on_field_cursor] show ?thesis using True by simp
  next
    case False
    then show ?thesis using it by auto
  qed
  show ?thesis unfolding decode_field_def Let_def
  proof (rule safe_with_bind [OF pre])
    fix t g jt assume t: "in_step s t" and g: "alters A h g" and jt: "cursor_ok fs dest n loc jt"
    have st': "struct_ok env rk sz a fs n dest loc A g" using st by (simp add: struct_ok_alters [OF g])
    note c = struct_cursor [OF st' jt]
    have a: "PB_ATYPE (ftype (cur_field jt)) = PB_ATYPE_STATIC" using c(1) by (simp add: field_owned_def static_field_def Let_def)
    have t': "in_ok t" "bytes_left t \<le> bytes_left s" using in_step_ok [OF t s] by simp_all
    have "safe A t g (decode_static_field env sub fuel wt jt t g)"
      by (rule decode_static_field_safe [OF _ c(2,1) _ t'(1) sub_safe_less [OF sub t'(2)] fuel(1)])
        (use st' t'(2) fuel(2) in \<open>simp_all add: struct_ok_def\<close>)
    then show "safe_with (cursor_ok fs dest n loc) A t g
       (if \<not> True then Some ((False, t, g), jt)
        else map_option (\<lambda>r. (r, jt))
          (if PB_ATYPE (ftype (cur_field jt)) = PB_ATYPE_STATIC then decode_static_field env sub fuel wt jt t g
           else if PB_ATYPE (ftype (cur_field jt)) = PB_ATYPE_POINTER then decode_pointer_field env sub fuel wt jt t g
           else if PB_ATYPE (ftype (cur_field jt)) = PB_ATYPE_CALLBACK then decode_callback_field env fuel wt jt t g
           else dec_fail ''invalid field type'' t g))"
      unfolding if_P [OF a] using safe_with_map [where C = "cursor_ok fs dest n loc" and x = jt] jt by simp
  qed auto
qed

section \<open>The loop over the stream\<close>

definition locals_ok :: "int pb_field list \<Rightarrow> int \<Rightarrow> nat \<Rightarrow> int \<Rightarrow> noinit_locals \<Rightarrow> bool" where
  "locals_ok fs dest n loc l \<longleftrightarrow> cursor_ok fs dest n loc (cursor l)"

lemma safe_skip: "safe A s h (case pb_skip_field s wt of (r, t) \<Rightarrow> Some (r \<noteq> None, t, h))"
  using pb_skip_field_step [of s wt] by (cases "pb_skip_field s wt") auto

lemma eats_tag: "pb_decode_tag s = (Some (wt, num), t, eof) \<Longrightarrow> in_ok s \<Longrightarrow> bytes_left t < bytes_left s \<and> num < 2 ^ 29"
proof -
  assume r: "pb_decode_tag s = (Some (wt, num), t, eof)" and s: "in_ok s"
  then obtain v e where v: "pb_decode_varint32_eof s = (Some v, t, e)" "num = unat (drop_bit 3 v)"
    by (auto simp: pb_decode_tag_def split: prod.splits option.splits if_splits)
  have "unat v < 2 ^ 32" using unsigned_less [of v, where ?'a = nat] by simp
  then have "num < 2 ^ 29" using v(2) by (simp add: drop_bit_eq_div unat_div)
  moreover have "bytes_left t < bytes_left s" using eats_varint32 [of s] v(1) s by (simp add: eats_def pb_decode_varint32_def)
  ultimately show ?thesis by simp
qed

lemma enter_fixed_count_safe:
  assumes st: "struct_ok env rk sz a fs n dest loc A h" and l: "locals_ok fs dest n loc l"
  shows "safe_with (locals_ok fs dest n loc) A s h (enter_fixed_count loc l s h)"
proof -
  let ?C = "locals_ok fs dest n loc" and ?it = "cursor l"
  have own: "owned A h loc 4" using st by (simp add: struct_ok_def)
  then obtain k where k: "load_size h loc = Some k" using load_size_room [of h loc] by (auto simp: owned_def)
  obtain h0 where h0: "store_size h loc 0 = Some h0" "alters A h h0"
    using own hsafe_store_size [of h loc A 0] by (auto simp: owned_def hsafe_def)
  have fail: "safe_with ?C A s h (map_option (\<lambda>r. (r, l)) (dec_fail ''wrong size for fixed count field'' s h))"
    by (rule safe_with_map) (simp_all add: l)
  have enter: "?C (l\<lparr> fixed_count_field := x, cursor := ?it\<lparr> pSize := loc \<rparr> \<rparr>)"
    if "PB_HTYPE (ftype (cur_field ?it)) = PB_HTYPE_REPEATED" for x
  proof -
    have m: "message_fields n fs" using st by (simp add: struct_ok_def)
    from l obtain i where i: "i < n"
      "?it = iter_at fs dest i \<or> PB_HTYPE (ftype (fs ! i)) = PB_HTYPE_REPEATED \<and> ?it = (iter_at fs dest i)\<lparr> pSize := loc \<rparr>"
      by (auto simp: locals_ok_def cursor_ok_def)
    then have "?it\<lparr> pSize := loc \<rparr> = (iter_at fs dest i)\<lparr> pSize := loc \<rparr>" "PB_HTYPE (ftype (fs ! i)) = PB_HTYPE_REPEATED"
      using that iter_at_inside [OF m i(1), of dest] by (auto simp: cur_field_def)
    then show ?thesis using i(1) by (auto simp: locals_ok_def cursor_ok_def)
  qed
  show ?thesis
  proof (cases "PB_HTYPE (ftype (cur_field ?it)) = PB_HTYPE_REPEATED \<and> pSize ?it = pData ?it")
    case True
    then show ?thesis using fail enter h0
      by (auto simp: enter_fixed_count_def Let_def k split: option.split)
  next
    case False
    then show ?thesis using l by (auto simp: enter_fixed_count_def Let_def)
  qed
qed

lemma mark_required_cursor [simp]: "cursor (mark_required l) = cursor l"
  by (simp add: mark_required_def Let_def)

lemma decode_known_safe:
  assumes st: "struct_ok env rk sz a fs n dest loc A h" and l: "locals_ok fs dest n loc l"
    and s: "in_ok s" and sub: "sub_safe env rk sz a (bytes_left s) sub" and fuel: "rk a < fuel" "bytes_left s < fuel"
  shows "safe_with (locals_ok fs dest n loc) A s h (decode_known env sub fuel loc wt l s h)"
  unfolding decode_known_def Let_def
proof (rule safe_with_bind [OF enter_fixed_count_safe [OF st l]])
  fix t g l' assume t: "in_step s t" and g: "alters A h g" and l': "locals_ok fs dest n loc l'"
  have t': "in_ok t" "bytes_left t \<le> bytes_left s" using in_step_ok [OF t s] by simp_all
  have st': "struct_ok env rk sz a fs n dest loc A g" using st by (simp add: struct_ok_alters [OF g])
  have "safe_with (cursor_ok fs dest n loc) A t g (decode_field env sub fuel wt t (cursor (mark_required l')) g)"
    by (rule decode_field_safe [OF st' _ t'(1) sub_safe_less [OF sub t'(2)] fuel(1)])
      (use l' t'(2) fuel(2) in \<open>simp_all add: locals_ok_def\<close>)
  then show "safe_with (locals_ok fs dest n loc) A t g
      (if \<not> True then Some ((False, t, g), l')
       else do { (r, it) \<leftarrow> decode_field env sub fuel wt t (cursor (mark_required l')) g;
                 Some (r, mark_required l'\<lparr> cursor := it \<rparr>) })"
    by (auto simp: safe_with_def locals_ok_def)
qed (auto simp: locals_ok_def)

lemma decode_unknown_safe:
  assumes e: "find_extension_field (cursor l) = Some (False, cursor l)" and num: "num < 2 ^ 29"
    and C: "C l" "C (l\<lparr> extension_range_start := 2 ^ 32 - 1 \<rparr>)"
  shows "safe_with C A s h (decode_unknown env sub fuel num wt l s h)"
proof -
  obtain r t where r: "pb_skip_field s wt = (r, t)" by fastforce
  then have "in_step s t" using pb_skip_field_step [of s wt] by simp
  then show ?thesis using C num by (auto simp: decode_unknown_def Let_def e r)
qed

lemma noinit_loop_safe:
  assumes step: "\<And>l s h wt num. C l \<Longrightarrow> in_ok s \<Longrightarrow> bytes_left s \<le> m \<Longrightarrow> J h \<Longrightarrow> num < 2 ^ 29 \<Longrightarrow>
      \<exists>b it. pb_field_iter_find (cursor l) (of_nat num) = Some (b, it) \<and>
        safe_with C A s h (if b then decode_known env sub fuel loc wt (l\<lparr> cursor := it \<rparr>) s h
                           else decode_unknown env sub fuel num wt (l\<lparr> cursor := it \<rparr>) s h)"
    and J: "\<And>h g. alters A h g \<Longrightarrow> J h \<Longrightarrow> J g"
  shows "C l \<Longrightarrow> in_ok s \<Longrightarrow> bytes_left s \<le> m \<Longrightarrow> bytes_left s < k \<Longrightarrow> J h \<Longrightarrow>
    safe_with C A s h (noinit_loop env sub fuel loc k l s h)"
proof (induction k arbitrary: l s h)
  case 0
  then show ?case by simp
next
  case (Suc k)
  obtain r t eof where r: "pb_decode_tag s = (r, t, eof)" by (metis prod_cases3)
  then have st: "in_step s t" using pb_decode_tag_step [of s] by simp
  show ?case
  proof (cases "bytes_left s = 0 \<or> r = None")
    case True
    have "safe_with C A s h (Some ((eof, t, h), l))" "safe_with C A s h (Some ((True, s, h), l))"
      by (rule safe_with_result; use st Suc.prems(1) in simp)+
    then show ?thesis using r True by auto
  next
    case False
    then obtain wt num where r': "pb_decode_tag s = (Some (wt, num), t, eof)" using r by (cases r) auto
    note t = in_step_ok [OF st Suc.prems(2)] eats_tag [OF r' Suc.prems(2)]
    then obtain b it where f: "pb_field_iter_find (cursor l) (of_nat num) = Some (b, it)"
      and body: "safe_with C A t h (if b then decode_known env sub fuel loc wt (l\<lparr> cursor := it \<rparr>) t h
                           else decode_unknown env sub fuel num wt (l\<lparr> cursor := it \<rparr>) t h)"
      using step [of l t h num wt] Suc.prems by auto
    have "safe_with C A t h (do { ((ok, s, h), l) \<leftarrow>
        (if b then decode_known env sub fuel loc wt (l\<lparr> cursor := it \<rparr>) t h
         else decode_unknown env sub fuel num wt (l\<lparr> cursor := it \<rparr>) t h);
        (if ok then noinit_loop env sub fuel loc k l s h else Some ((False, s, h), l)) })"
    proof (rule safe_with_bind [OF body])
      fix u g l' assume u: "in_step t u" and g: "alters A h g" and l': "C l'"
      have "in_ok u" "bytes_left u \<le> bytes_left t" using in_step_ok [OF u] t by auto
      then have "safe_with C A u g (noinit_loop env sub fuel loc k l' u g)"
        using Suc.IH [OF l', of u g] Suc.prems(3,4,5) t J [OF g] by simp
      then show "safe_with C A u g (if True then noinit_loop env sub fuel loc k l' u g else Some ((False, u, g), l'))" by simp
    qed auto
    then have "safe_with C A s h (do { ((ok, s, h), l) \<leftarrow>
        (if b then decode_known env sub fuel loc wt (l\<lparr> cursor := it \<rparr>) t h
         else decode_unknown env sub fuel num wt (l\<lparr> cursor := it \<rparr>) t h);
        (if ok then noinit_loop env sub fuel loc k l s h else Some ((False, s, h), l)) })"
      by (rule safe_with_after [OF st alters_refl])
    then show ?thesis using False by (simp add: r' f Let_def)
  qed
qed

lemma required_loop_inside:
  assumes m: "message_fields n fs"
  shows "i < n \<Longrightarrow> n - i \<le> k \<Longrightarrow> \<exists>r. required_loop k (iter_at fs dest i) = Some r"
proof (induction k arbitrary: i)
  case 0
  then show ?case by simp
next
  case (Suc k)
  obtain b it where it: "pb_field_iter_next (iter_at fs dest i) = (b, it)" by fastforce
  with iter_at_next [OF m Suc.prems(1), of dest] have b: "b \<longleftrightarrow> Suc i \<noteq> n" "Suc i \<noteq> n \<Longrightarrow> it = iter_at fs dest (Suc i)" by simp_all
  show ?case using b Suc by (cases b) (auto simp: it)
qed

lemma required_loop_pSize:
  assumes "tag (cur_field it) \<noteq> 0" "PB_HTYPE (ftype (cur_field it)) = PB_HTYPE_REPEATED"
  shows "required_loop k (it\<lparr> pSize := q \<rparr>) = required_loop k it"
proof -
  have "pb_field_iter_next (it\<lparr> pSize := q \<rparr>) = pb_field_iter_next it"
    using assms by (auto simp: pb_field_iter_next_def cur_field_def Let_def)
  then show ?thesis by (cases k; cases "pb_field_iter_next it") (auto simp: cur_field_def split: bool.split)
qed

lemma final_checks_safe:
  assumes st: "struct_ok env rk sz a fs n dest loc A h" and l: "locals_ok fs dest n loc l"
  shows "safe A s h (final_checks loc l s h)"
proof -
  have m: "message_fields n fs" using st by (simp add: struct_ok_def)
  have own: "owned A h loc 4" using st by (simp add: struct_ok_def)
  then obtain k where k: "load_size h loc = Some k" using load_size_room [of h loc] by (auto simp: owned_def)
  from l obtain i where i: "i < n"
    "cursor l = iter_at fs dest i \<or> PB_HTYPE (ftype (fs ! i)) = PB_HTYPE_REPEATED \<and> cursor l = (iter_at fs dest i)\<lparr> pSize := loc \<rparr>"
    by (auto simp: locals_ok_def cursor_ok_def)
  note at = iter_at_inside [OF m i(1), of dest]
  have "start (cursor l) = fs" using i(2) at by auto
  moreover have "\<exists>r. required_loop (length fs) (cursor l) = Some r"
    using i required_loop_inside [OF m i(1), of "length fs" dest] m at
      required_loop_pSize [of "iter_at fs dest i" "length fs" loc]
    by (auto simp: message_fields_def cur_field_def simp del: required_loop.simps)
  ultimately obtain r where "required_loop (length (start (cursor l))) (cursor l) = Some r" by auto
  then show ?thesis by (auto simp: final_checks_def k split: option.split)
qed

section \<open>Messages\<close>

text \<open>The local variable lies apart from every object there is.\<close>

definition local_ok :: "'s dec_env \<Rightarrow> bool" where
  "local_ok env \<longleftrightarrow> (\<forall>h. list_all (apart (dec_local env h, le_bytes 4 0)) h)"

text \<open>A message without fields: the terminator is taken for a field when the field number is zero.\<close>

lemma empty_field:
  assumes "no_fields fs"
  shows "cur_field (snd (pb_field_iter_begin fs dest)) =
      \<lparr> tag = 0, ftype = 0, data_offset = 0, size_offset = 0, data_size = 0, array_size = 0, ptr = 0 \<rparr>"
    "pData (snd (pb_field_iter_begin fs dest)) = dest"
    "pb_field_iter_next (snd (pb_field_iter_begin fs dest)) = (False, snd (pb_field_iter_begin fs dest))"
  using assms by (simp_all add: no_fields_def cur_field_def pb_field_iter_begin_def pb_field_iter_next_def Let_def)

lemma empty_length: "no_fields fs \<Longrightarrow> length fs = 1"
  by (simp add: no_fields_def)

lemma decode_empty_known:
  assumes fs: "no_fields fs" and c: "cursor l = snd (pb_field_iter_begin fs dest)" "fixed_count_field l = None"
    and s: "in_ok s" and own: "owned A h dest 1"
  shows "safe_with (\<lambda>l. cursor l = snd (pb_field_iter_begin fs dest) \<and> fixed_count_field l = None) A s h
    (decode_known env sub fuel loc wt l s h)"
proof -
  let ?it = "snd (pb_field_iter_begin fs dest)"
  note f = empty_field [OF fs, of dest] empty_length [OF fs]
  have t0: "PB_HTYPE 0 = PB_HTYPE_REQUIRED" "PB_ATYPE 0 = PB_ATYPE_STATIC" "PB_LTYPE 0 = PB_LTYPE_BOOL"
    by (simp_all add: PB_HTYPE_def PB_ATYPE_def PB_LTYPE_def)
  have "safe A s h (dec_at pb_dec_bool dest s h)"
    by (rule safe_dec_at [where f = pb_dec_bool, OF confined_bool s]) (use own in \<open>auto simp: owned_def\<close>)
  then have "safe A s h (decode_static_field env sub fuel wt ?it s h)"
    by (simp add: decode_static_field_def f t0 dec_value_def Let_def)
  moreover have "decode_field env sub fuel wt s ?it h = map_option (\<lambda>r. (r, ?it)) (decode_static_field env sub fuel wt ?it s h)"
    by (simp add: decode_field_def f t0)
  moreover have "fixed_count_field (mark_required l) = None" using c by (simp add: mark_required_def Let_def)
  moreover have "enter_fixed_count loc l s h = Some ((True, s, h), l)"
    by (simp add: enter_fixed_count_def c f t0)
  ultimately show ?thesis using c by (auto simp: decode_known_def safe_def safe_with_def)
qed

lemma empty_loop_safe:
  assumes fs: "no_fields fs" and c: "cursor l = snd (pb_field_iter_begin fs dest)" "fixed_count_field l = None"
    and s: "in_ok s" "bytes_left s < k" and own: "owned A h dest 1"
  shows "safe_with (\<lambda>l. cursor l = snd (pb_field_iter_begin fs dest) \<and> fixed_count_field l = None) A s h
    (noinit_loop env sub fuel loc k l s h)"
proof (rule noinit_loop_safe [where m = "bytes_left s" and J = "\<lambda>h. owned A h dest 1"])
  let ?it = "snd (pb_field_iter_begin fs dest)" and ?C = "\<lambda>l :: noinit_locals. cursor l = snd (pb_field_iter_begin fs dest) \<and> fixed_count_field l = None"
  note f = empty_field [OF fs, of dest] empty_length [OF fs]
  fix l and s :: "'a pb_istream" and h wt num assume l: "?C l" and s: "in_ok s" "owned A h dest 1" and num: "num < (2 :: nat) ^ 29"
  have ext: "find_extension_field ?it = Some (False, ?it)" by (simp add: find_extension_field_def f PB_LTYPE_def)
  have same: "l\<lparr> cursor := ?it \<rparr> = l" using l by (metis noinit_locals.surjective noinit_locals.update_convs(1))
  obtain b where "pb_field_iter_find ?it (of_nat num) = Some (b, ?it)"
    by (cases "field_matches (of_nat num) (cur_field ?it)") (simp_all add: pb_field_iter_find_def f)
  moreover have "safe_with ?C A s h (decode_unknown env sub fuel num wt (l\<lparr> cursor := ?it \<rparr>) s h)"
    unfolding same by (rule decode_unknown_safe) (use l num ext in simp_all)
  moreover have "safe_with ?C A s h (decode_known env sub fuel loc wt (l\<lparr> cursor := ?it \<rparr>) s h)"
    unfolding same by (rule decode_empty_known [OF fs _ _ s]) (use l in simp_all)
  ultimately show "\<exists>b it. pb_field_iter_find (cursor l) (of_nat num) = Some (b, it) \<and>
      safe_with ?C A s h (if b then decode_known env sub fuel loc wt (l\<lparr> cursor := it \<rparr>) s h
                          else decode_unknown env sub fuel num wt (l\<lparr> cursor := it \<rparr>) s h)"
    unfolding l [THEN conjunct1] by (intro exI [of _ b] exI [of _ ?it]) simp
qed (use assms in \<open>auto simp: owned_alters\<close>)

lemma fields_loop_safe:
  assumes st: "struct_ok env rk sz a fs n dest loc A h" and l: "locals_ok fs dest n loc l"
    and s: "in_ok s" and sub: "sub_safe env rk sz a (bytes_left s) sub" and fuel: "rk a < fuel" "bytes_left s < fuel"
  shows "safe_with (locals_ok fs dest n loc) A s h (noinit_loop env sub fuel loc fuel l s h)"
proof (rule noinit_loop_safe [where m = "bytes_left s" and J = "struct_ok env rk sz a fs n dest loc A"])
  have m: "message_fields n fs" using st by (simp add: struct_ok_def)
  fix l and t :: "'a pb_istream" and h wt num assume l: "locals_ok fs dest n loc l" and t: "in_ok t" "bytes_left t \<le> bytes_left s"
    and st: "struct_ok env rk sz a fs n dest loc A h" and num: "num < (2 :: nat) ^ 29"
  have e: "PB_LTYPE (ftype (fs ! j)) \<noteq> PB_LTYPE_EXTENSION" if "j < n" for j
  proof -
    have "field_owned A h (iter_at fs dest j)" by (rule struct_on_field [OF st]) (use that in \<open>auto simp: on_field_def\<close>)
    then show ?thesis using iter_at_inside [OF m that, of dest] by (simp add: field_owned_def static_field_def cur_field_def Let_def)
  qed
  obtain b it where f: "pb_field_iter_find (cursor l) (of_nat num) = Some (b, it)" "cursor_ok fs dest n loc it"
    "\<not> b \<longrightarrow> on_field fs dest n it"
    using find_cursor [OF m l [unfolded locals_ok_def]] by blast
  have "safe_with (locals_ok fs dest n loc) A t h (decode_known env sub fuel loc wt (l\<lparr> cursor := it \<rparr>) t h)"
    by (rule decode_known_safe [OF st _ t(1) sub_safe_less [OF sub t(2)] fuel(1)]) (use t fuel f in \<open>simp_all add: locals_ok_def\<close>)
  moreover have "safe_with (locals_ok fs dest n loc) A t h (decode_unknown env sub fuel num wt (l\<lparr> cursor := it \<rparr>) t h)"
    if "\<not> b" by (rule decode_unknown_safe) (use find_extension_on_field [OF m e] that f num in \<open>simp_all add: locals_ok_def\<close>)
  ultimately show "\<exists>b it. pb_field_iter_find (cursor l) (of_nat num) = Some (b, it) \<and>
      safe_with (locals_ok fs dest n loc) A t h (if b then decode_known env sub fuel loc wt (l\<lparr> cursor := it \<rparr>) t h
                          else decode_unknown env sub fuel num wt (l\<lparr> cursor := it \<rparr>) t h)"
    using f(1) by auto
qed (use assms in \<open>auto simp: struct_ok_alters\<close>)

lemma noinit_body_safe:
  assumes sm: "static_messages env rk sz" and fs: "dec_fields env a = Some fs" and loc: "local_ok env"
    and mem: "memory_ok env h" and own: "owned A h dest (sz a)" and s: "in_ok s"
    and sub: "sub_safe env rk sz a (bytes_left s) sub" and fuel: "rk a < fuel" "bytes_left s < fuel"
  shows "safe A s h (noinit_body env sub fuel fs dest s h)"
proof -
  let ?loc = "dec_local env h"
  let ?x = "(?loc, le_bytes 4 0)"
  let ?B = "A \<union> {?loc..<?loc + int (length (le_bytes 4 0))}"
  let ?l = "\<lparr> cursor = snd (pb_field_iter_begin fs dest), fields_seen = [0, 0],
    extension_range_start = 0, fixed_count_field = None \<rparr>"
  have ap: "list_all (apart ?x) h" using loc by (simp add: local_ok_def)
  have mem': "memory_ok env (?x # h)" using mem ap room_push [OF ap]
    by (auto simp: memory_ok_def defaults_present_def)
  have own': "owned ?B (?x # h) dest (sz a)" using own room_push [OF ap] by (auto simp: owned_def)
  have l4: "owned ?B (?x # h) ?loc 4" by (auto simp: owned_def room_def inside_def)
  have "safe ?B s (?x # h) (do { ((ok, s, h), l) \<leftarrow> noinit_loop env sub fuel ?loc fuel ?l s (?x # h);
      (if ok then final_checks ?loc l s h else Some (False, s, h)) })"
    using sm fs
  proof (cases rule: static_messageE)
    case none
    have "owned ?B (?x # h) dest 1" using owned_part [OF _ own', of 0 1] none(2) mem' by (simp add: memory_ok_def)
    from empty_loop_safe [OF none(1) _ _ s fuel(2) this, of ?l env sub fuel ?loc] obtain ok t g l where
      r: "noinit_loop env sub fuel ?loc fuel ?l s (?x # h) = Some ((ok, t, g), l)" "in_step s t" "alters ?B (?x # h) g"
        "cursor l = snd (pb_field_iter_begin fs dest)" "fixed_count_field l = None"
      by (auto simp: safe_with_def)
    have "safe ?B t g (final_checks ?loc l t g)"
      using r(4,5) by (auto simp: final_checks_def empty_field [OF none(1)] empty_length [OF none(1)])
    then have "safe ?B s (?x # h) (final_checks ?loc l t g)" by (rule safe_after [OF r(2,3)])
    then show ?thesis using r(2,3) by (auto simp: r(1))
  next
    case (some n)
    have st: "struct_ok env rk sz a fs n dest ?loc ?B (?x # h)"
      using sm some mem' own' l4 by (simp add: struct_ok_def)
    have l: "locals_ok fs dest n ?loc ?l"
      unfolding locals_ok_def by (rule on_field_cursor) (use some(1) in \<open>auto simp: on_field_def iter_at.simps intro: exI [of _ 0]\<close>)
    from fields_loop_safe [OF st l s sub fuel] obtain ok t g l' where
      r: "noinit_loop env sub fuel ?loc fuel ?l s (?x # h) = Some ((ok, t, g), l')" "in_step s t" "alters ?B (?x # h) g"
        "locals_ok fs dest n ?loc l'"
      by (auto simp: safe_with_def)
    have "safe ?B t g (final_checks ?loc l' t g)"
      using final_checks_safe [OF _ r(4)] st struct_ok_alters [OF r(3)] by blast
    then have "safe ?B s (?x # h) (final_checks ?loc l' t g)" by (rule safe_after [OF r(2,3)])
    then show ?thesis using r(2,3) by (auto simp: r(1))
  qed
  then obtain ok t g where r: "do { ((ok, s, h), l) \<leftarrow> noinit_loop env sub fuel ?loc fuel ?l s (?x # h);
      (if ok then final_checks ?loc l s h else Some (False, s, h)) } = Some (ok, t, g)" "in_step s t" "alters ?B (?x # h) g"
    unfolding safe_def by blast
  have "alters A h (remove_block g ?loc)" by (rule alters_pop [OF r(3) ap])
  moreover have "noinit_body env sub fuel fs dest s h = Some (ok, t, remove_block g ?loc)"
    using r(1) by (auto simp: noinit_body_def Let_def split: Option.bind_splits prod.splits if_splits)
  ultimately show ?thesis using r(2) by auto
qed

lemma decode_with_safe:
  assumes sm: "static_messages env rk sz" and fs: "dec_fields env a = Some fs" and f: "rk a < fuel"
    and mem: "memory_ok env h" and own: "owned A h dest (sz a)" and s: "in_ok s"
    and noinit: "\<And>g. memory_ok env g \<Longrightarrow> owned A g dest (sz a) \<Longrightarrow> safe A s g (noinit fs dest s g)"
  shows "safe A s h (pb_decode_with noinit env fuel fs dest s h)"
  unfolding pb_decode_with_def
proof (rule safe_bind)
  show "hsafe A h (pb_message_set_to_defaults env fuel fs dest h)"
    unfolding pb_message_set_to_defaults_def by (rule set_to_default_safe [OF sm fs f mem own])
next
  fix g assume g: "alters A h g"
  have g': "memory_ok env g" "owned A g dest (sz a)" using mem own by (simp_all add: memory_ok_alters [OF g] owned_alters [OF g])
  from noinit [OF this] obtain ok t g2 where r: "noinit fs dest s g = Some (ok, t, g2)" "in_step s t" "alters A g g2"
    by (auto simp: safe_def)
  have "hsafe {} g2 (pb_release env fuel fs dest g2)"
    by (rule release_safe [OF sm fs f]) (use g' in \<open>simp_all add: memory_ok_alters [OF r(3)] owned_alters [OF r(3)]\<close>)
  then have "hsafe A g2 (if \<not> ok then pb_release env fuel fs dest g2 else Some g2)" using hsafe_mono by fastforce
  then have "safe A t g2 (do { h \<leftarrow> (if \<not> ok then pb_release env fuel fs dest g2 else Some g2); Some (ok, t, h) })"
    by (rule safe_bind) auto
  then show "safe A s g (do { (status, s, h) \<leftarrow> noinit fs dest s g;
      h \<leftarrow> (if \<not> status then pb_release env fuel fs dest h else Some h); Some (status, s, h) })"
    using safe_after [OF r(2,3)] by (simp add: r(1))
qed

lemma decode_noinit_safe:
  assumes sm: "static_messages env rk sz" and loc: "local_ok env"
  shows "dec_fields env a = Some fs \<Longrightarrow> memory_ok env h \<Longrightarrow> owned A h dest (sz a) \<Longrightarrow> in_ok s \<Longrightarrow>
    rk a + 1 < fuel \<Longrightarrow> bytes_left s + 1 < fuel \<Longrightarrow> safe A s h (pb_decode_noinit env fuel fs dest s h)"
proof (induction fuel arbitrary: a fs h A dest s)
  case 0
  then show ?case by simp
next
  case (Suc fuel)
  have "sub_safe env rk sz a (bytes_left s)
      (\<lambda>init. if init then pb_decode_with (pb_decode_noinit env fuel) env fuel else pb_decode_noinit env fuel)"
    unfolding sub_safe_def
  proof (intro allI impI)
    fix b gs init p and t :: "'a pb_istream" and g B
    assume b: "dec_fields env b = Some gs" "rk b < rk a" "in_ok t" "bytes_left t < bytes_left s" "memory_ok env g" "owned B g p (sz b)"
    have "safe B t h (pb_decode_noinit env fuel gs p t h)" if "memory_ok env h" "owned B h p (sz b)" for h
      by (rule Suc.IH [OF b(1) that b(3)]) (use b(2,4) Suc.prems in simp_all)
    then show "safe B t g ((if init then pb_decode_with (pb_decode_noinit env fuel) env fuel else pb_decode_noinit env fuel) gs p t g)"
      using decode_with_safe [OF sm b(1) _ b(5,6,3), of fuel "pb_decode_noinit env fuel"] b Suc.prems by simp
  qed
  then show ?case using noinit_body_safe [OF sm Suc.prems(1) loc Suc.prems(2,3,4), of _ fuel] Suc.prems by simp
qed

text \<open>
  C16. Decoding is memory safe on every input. If the descriptor tables describe messages whose fields are all
  statically allocated and lie inside their structs, then for all bytes in the stream, well-formed or
  not, \<open>pb_decode\<close> returns; it takes bytes only from its stream and leaves the rest; and the
  only bytes of memory that it changes are those of the struct.
\<close>

theorem decode_memory_safe:
  assumes "static_messages env rk sz" "dec_fields env a = Some fs" "local_ok env"
    and "memory_ok env h" "room h dest (sz a)" "in_state s = InBuffer bs" "bytes_left s \<le> length bs"
    and "rk a + bytes_left s + 1 < fuel"
  shows "\<exists>ok s' h'. pb_decode env fuel fs dest s h = Some (ok, s', h') \<and> in_step s s' \<and>
    alters {dest..<dest + int (sz a)} h h'"
proof -
  have own: "owned {dest..<dest + int (sz a)} h dest (sz a)" using assms(5) by (simp add: owned_def)
  have s: "in_ok s" using assms(6,7) by (auto simp: in_ok_def)
  have "safe {dest..<dest + int (sz a)} s h (pb_decode_with (pb_decode_noinit env fuel) env fuel fs dest s h)"
  proof (rule decode_with_safe [OF assms(1,2) _ assms(4) own s])
    fix g assume g: "memory_ok env g" "owned {dest..<dest + int (sz a)} g dest (sz a)"
    show "safe {dest..<dest + int (sz a)} s g (pb_decode_noinit env fuel fs dest s g)"
      by (rule decode_noinit_safe [OF assms(1,3,2) g s]) (use assms(8) in simp_all)
  qed (use assms(8) in simp)
  then show ?thesis by (simp add: safe_def pb_decode_def)
qed

text \<open>A message with a number, an array and a submessage that holds a string.\<close>

definition report_text :: "int pb_field list" where
  "report_text =
     [\<lparr> tag = 1, ftype = 0x17, data_offset = 1, size_offset = -1, data_size = 4, array_size = 0, ptr = 0 \<rparr>,
      \<lparr> tag = 0, ftype = 0, data_offset = 0, size_offset = 0, data_size = 0, array_size = 0, ptr = 0 \<rparr>]"

definition report :: "int pb_field list" where
  "report =
     [\<lparr> tag = 1, ftype = 0x02, data_offset = 0, size_offset = 0, data_size = 4, array_size = 0, ptr = 0 \<rparr>,
      \<lparr> tag = 2, ftype = 0x22, data_offset = 4, size_offset = -4, data_size = 4, array_size = 3, ptr = 0 \<rparr>,
      \<lparr> tag = 3, ftype = 0x18, data_offset = 4, size_offset = -4, data_size = 8, array_size = 0, ptr = 2000 \<rparr>,
      \<lparr> tag = 0, ftype = 0, data_offset = 0, size_offset = 0, data_size = 0, array_size = 0, ptr = 0 \<rparr>]"

text \<open>Local variables after everything else.\<close>

definition after_all :: "heap \<Rightarrow> int" where
  "after_all h = foldr (\<lambda>x m. max (fst x + int (length (snd x))) m) h 0"

definition report_env :: "unit dec_env" where
  "report_env =
     \<lparr> dec_fields = (\<lambda>a. if a = 1000 then Some report else if a = 2000 then Some report_text else None),
       dec_call = (\<lambda>_ s _ _ h. (True, s, h)), dec_ext_call = (\<lambda>_ s _ _ _ h. (True, s, h)),
       dec_alloc = (\<lambda>_ _. None), dec_local = after_all \<rparr>"

definition report_rank :: "int \<Rightarrow> nat" where
  "report_rank a = (if a = 1000 then 1 else 0)"

definition report_size :: "int \<Rightarrow> nat" where
  "report_size a = (if a = 1000 then 32 else 8)"

lemma after_all_apart: "list_all (apart (after_all h, bs)) h"
proof -
  have "fst x + int (length (snd x)) \<le> after_all h" if "x \<in> set h" for x
    using that by (induction h) (auto simp: after_all_def)
  then show ?thesis by (auto simp: list_all_iff apart_def)
qed

lemma report_types:
  "PB_LTYPE 0x17 = 7" "PB_HTYPE 0x17 = 0x10" "PB_ATYPE 0x17 = 0" "PB_LTYPE 0x02 = 2" "PB_HTYPE 0x02 = 0" "PB_ATYPE 0x02 = 0"
  "PB_LTYPE 0x22 = 2" "PB_HTYPE 0x22 = 0x20" "PB_ATYPE 0x22 = 0" "PB_LTYPE 0x18 = 8" "PB_HTYPE 0x18 = 0x10" "PB_ATYPE 0x18 = 0"
  by code_simp+

lemma report_static: "static_messages report_env report_rank report_size"
proof -
  have "static_message report_env report_rank report_size 2000 report_text"
    unfolding static_message_def
    by (intro disjI2 exI [of _ 1])
      (simp add: message_fields_def report_text_def field_fits_def cur_field_def iter_at.simps pb_field_iter_begin_def
        static_field_def entries_def counted_def report_types report_size_def submessage_ok_def Let_def)
  moreover have "static_message report_env report_rank report_size 1000 report"
    unfolding static_message_def
    by (intro disjI2 exI [of _ 3])
      (simp add: message_fields_def report_def field_fits_def cur_field_def iter_at.simps pb_field_iter_begin_def
        pb_field_iter_next_def static_field_def entries_def counted_def report_types report_size_def report_rank_def
        submessage_ok_def report_env_def less_Suc_eq numeral_3_eq_3 Let_def)
  ultimately show ?thesis by (auto simp: static_messages_def report_env_def split: if_splits)
qed

theorem decode_memory_safe_witness:
  "\<exists>ok s' h'. pb_decode report_env 16 report 100
      (pb_istream_from_buffer [0x08, 5, 0x12, 2, 9, 0x80, 0x1a, 0x09] 8 :: unit pb_istream) [(100, replicate 40 0)] = Some (ok, s', h') \<and>
    in_step (pb_istream_from_buffer [0x08, 5, 0x12, 2, 9, 0x80, 0x1a, 0x09] 8 :: unit pb_istream) s' \<and>
    alters {100..<132} [(100, replicate 40 0)] h'"
proof -
  have "dec_fields report_env 1000 = Some report" "local_ok report_env"
    using after_all_apart by (simp_all add: report_env_def local_ok_def)
  moreover have "memory_ok report_env [(100, replicate 40 0)]"
    by (auto simp: memory_ok_def defaults_present_def report_env_def report_def report_text_def report_types split: if_splits)
  moreover have "room [(100, replicate 40 0)] 100 (report_size 1000)"
    by (simp add: room_def inside_def report_size_def)
  ultimately show ?thesis
    using decode_memory_safe [OF report_static, of 1000 report "[(100, replicate 40 0)]" 100
        "pb_istream_from_buffer [0x08, 5, 0x12, 2, 9, 0x80, 0x1a, 0x09] 8" "[0x08, 5, 0x12, 2, 9, 0x80, 0x1a, 0x09]" 16]
    by (simp add: pb_istream_from_buffer_def report_size_def report_rank_def)
qed

end
