(* ===== verification/PbApply.thy ===== *)
theory PbApply
  imports PbTotal
begin

text \<open>
  What the message decoder does with well-formed input: for messages of singular fields, the fields of the
  stream are stored one after the other, in any order, the last one wins, fields that are not in the
  descriptor are skipped, and the result says whether all required fields were there.
\<close>

section \<open>The wire format of a field\<close>

text \<open>
  The storage bytes that a value takes and the bytes that stand for it on the wire. A string's storage ends with its
  terminator, a \<open>pb_bytes_array_t\<close> starts with its size.
\<close>

definition value_ok :: "int pb_field \<Rightarrow> u8 list \<Rightarrow> bool" where
  "value_ok f v \<longleftrightarrow>
     (let t = PB_LTYPE (ftype f)
      in if t = PB_LTYPE_STRING then v \<noteq> [] \<and> last v = 0 \<and> length v \<le> data_size f
         else if t = PB_LTYPE_BYTES then 4 \<le> length v \<and> take 4 v = le_bytes 4 (length v - 4) \<and> length v \<le> data_size f
         else if t = PB_LTYPE_FIXED_LENGTH_BYTES then v \<noteq> [] \<and> length v = data_size f
         else scalar_field f v)"

definition value_bytes :: "int pb_field \<Rightarrow> u8 list \<Rightarrow> u8 list" where
  "value_bytes f v =
     (let t = PB_LTYPE (ftype f)
      in if t = PB_LTYPE_STRING then string_bytes (butlast v)
         else if t = PB_LTYPE_BYTES then string_bytes (drop 4 v)
         else if t = PB_LTYPE_FIXED_LENGTH_BYTES then string_bytes v
         else scalar_bytes f v)"

lemma write_at_store: "region h p = Some mem \<Longrightarrow> write_at h p (store mem v) = write_at h p v"
  by (induction h) (auto simp: Let_def store_def split: if_splits)

lemma dec_at_value:
  assumes "f s mem = (ok, t, store mem v)" "region h p = Some mem" "length v \<le> length mem"
  shows "dec_at f p s h = Some (ok, t, write_at h p v)"
  using assms write_at_store [OF assms(2)] by (simp add: dec_at_def store_def)

lemma dec_string_body_bytes:
  assumes "length bs < length mem"
  shows "dec_string_body (ibuf (bs @ rest) (length bs + n) e) (length bs) mem = (True, ibuf rest n e, Some (store mem (bs @ [0])))"
proof -
  obtain c cs where d: "drop (length bs) mem = c # cs" using assms by (cases "drop (length bs) mem") auto
  have "drop (Suc (length bs)) mem = cs" using d by (metis list.sel(3) tl_drop drop_Suc)
  then show ?thesis using d by (simp add: dec_string_body_def store_def list_update_append pb_read_ibuf)
qed

lemma dec_bytes_body_bytes:
  assumes "length bs + 4 \<le> length mem"
  shows "dec_bytes_body (ibuf (bs @ rest) (length bs + n) e) (length bs) mem =
    (True, ibuf rest n e, Some (store mem (le_bytes 4 (length bs) @ bs)))"
  using assms by (simp add: dec_bytes_body_def store_def pb_read_ibuf add.commute [of 4])

text \<open>\<open>PB_DECODERS\<close> on what stands for a value stores the value.\<close>

lemma dec_value_bytes:
  fixes env :: "'s dec_env"
  assumes f: "static_field f" "PB_LTYPE (ftype f) \<noteq> PB_LTYPE_SUBMESSAGE" "PB_HTYPE (ftype f) \<noteq> PB_HTYPE_REPEATED" and v: "value_ok f v"
    and mem: "room h p (data_size f)"
  shows "dec_value env sub f p (ibuf (value_bytes f v @ rest) (length (value_bytes f v) + n) e) h =
    Some (True, ibuf rest n e, write_at h p v)"
proof -
  let ?t = "PB_LTYPE (ftype f)" and ?s = "ibuf (value_bytes f v @ rest) (length (value_bytes f v) + n) e :: 's pb_istream"
  have np: "\<not> is_pointer f" by (rule static_not_pointer [OF f(1)])
  have w: "data_size f < 2 ^ 32" using f(1,3) by (simp add: static_field_def entries_def Let_def)
  have l: "v \<noteq> []" "length v \<le> data_size f" using v
    by (auto simp: value_ok_def scalar_field_def Let_def split: if_splits)
  then have "0 < data_size f" by (cases v) auto
  with l obtain m where m: "region h p = Some m" "length v \<le> length m" "data_size f \<le> length m" using mem by (auto simp: room_def)
  have t: "?t \<in> {PB_LTYPE_BOOL, PB_LTYPE_VARINT, PB_LTYPE_UVARINT, PB_LTYPE_SVARINT, PB_LTYPE_FIXED32, PB_LTYPE_FIXED64,
      PB_LTYPE_BYTES, PB_LTYPE_STRING, PB_LTYPE_SUBMESSAGE, PB_LTYPE_FIXED_LENGTH_BYTES}"
    using f(1) by (intro ltype_cases) (simp_all add: static_field_def Let_def)
  then consider "?t = PB_LTYPE_STRING" | "?t = PB_LTYPE_BYTES" | "?t = PB_LTYPE_FIXED_LENGTH_BYTES"
    | "?t \<in> {PB_LTYPE_BOOL, PB_LTYPE_VARINT, PB_LTYPE_UVARINT, PB_LTYPE_SVARINT, PB_LTYPE_FIXED32, PB_LTYPE_FIXED64}"
    using f(2) by auto
  then show ?thesis
  proof cases
    case 1
    define bs where "bs = butlast v"
    have v': "v = bs @ [0]" "length bs + 1 \<le> data_size f" using v 1 append_butlast_last_id [of v]
      by (auto simp: value_ok_def bs_def)
    have n1: "(of_nat (length bs) + 1 :: u32) = of_nat (Suc (length bs))" by simp
    have n: "unat (of_nat (length bs) :: u32) = length bs" "unat (of_nat (length bs) + 1 :: u32) = length bs + 1"
      unfolding n1 unat_of_nat using v' w by simp_all
    have "dec_at (\<lambda>s mem. if length bs < length mem
           then case dec_string_body s (length bs) mem of (ok, s, mem) \<Rightarrow> (ok, s, the mem) else (False, s, mem @ [0]))
         p (ibuf (bs @ rest) (length bs + n) e :: 's pb_istream) h = Some (True, ibuf rest n e, write_at h p v)"
      by (rule dec_at_value [OF _ m(1,2)]) (use m v' in \<open>simp add: dec_string_body_bytes\<close>)
    moreover have "pb_decode_varint32 ?s = (Some (of_nat (length bs)), ibuf (bs @ rest) (length bs + n) e)"
      using 1 v' w
      by (simp add: pb_decode_varint32_length value_bytes_def string_bytes_def add.assoc)
    ultimately show ?thesis using 1 v' n np
      by (simp add: dec_value_def pb_dec_string_at_def dec_get_def Let_def cong: if_cong)
  next
    case 2
    define bs where "bs = drop 4 v"
    have v': "v = le_bytes 4 (length bs) @ bs" "length bs + 4 \<le> data_size f" using v 2 append_take_drop_id [of 4 v]
      by (auto simp: value_ok_def bs_def)
    have n: "unat (of_nat (length bs) :: u32) = length bs" "PB_BYTES_ARRAY_T_ALLOCSIZE (length bs) = length bs + 4"
      using v' w by (simp_all add: unat_of_nat PB_BYTES_ARRAY_T_ALLOCSIZE_def size_t_id SIZE_MAX_def)
    have "dec_at (\<lambda>s mem. case dec_bytes_body s (length bs) mem of (ok, s, mem) \<Rightarrow> (ok, s, the mem))
         p (ibuf (bs @ rest) (length bs + n) e :: 's pb_istream) h = Some (True, ibuf rest n e, write_at h p v)"
      by (rule dec_at_value [OF _ m(1,2)]) (use m v' in \<open>simp add: dec_bytes_body_bytes\<close>)
    moreover have "pb_decode_varint32 ?s = (Some (of_nat (length bs)), ibuf (bs @ rest) (length bs + n) e)"
      using 2 v' w
      by (simp add: pb_decode_varint32_length value_bytes_def string_bytes_def add.assoc bs_def)
    ultimately show ?thesis using 2 v' n np w
      by (simp add: dec_value_def pb_dec_bytes_at_def dec_get_def PB_SIZE_MAX_def Let_def)
  next
    case 3
    have v': "length v = data_size f" "v \<noteq> []" using v 3 by (auto simp: value_ok_def)
    have n: "unat (of_nat (length v) :: u32) = length v" using v' w by (simp add: unat_of_nat)
    have "(of_nat (length v) :: u32) \<noteq> 0" using n v' by auto
    then have "pb_dec_fixed_length_bytes ?s f m = (True, ibuf rest n e, store m v)"
      using 3 v' w n
      by (simp add: pb_decode_varint32_length pb_read_ibuf value_bytes_def string_bytes_def add.assoc pb_dec_fixed_length_bytes_def PB_SIZE_MAX_def)
    from dec_at_value [where f = "\<lambda>s. pb_dec_fixed_length_bytes s f", OF this m(1,2)] show ?thesis using 3 by (simp add: dec_value_def)
  next
    case 4
    then have s: "scalar_field f v" "value_bytes f v = scalar_bytes f v" using v by (auto simp: value_ok_def value_bytes_def)
    have "dec_at (\<lambda>s. dec_scalar s f) p ?s h = Some (True, ibuf rest n e, write_at h p v)"
      by (rule dec_at_value [OF _ m(1,2)]) (simp add: s dec_scalar_bytes)
    moreover have "dec_value env sub f p = dec_at (\<lambda>s. dec_scalar s f) p"
      using 4 by (auto simp: dec_value_def dec_scalar_def [abs_def])
    ultimately show ?thesis by simp
  qed
qed

section \<open>Messages as sequences of fields\<close>

text \<open>A value for the field at an index, or a field with a number that the message does not have.\<close>

datatype msg_item = Known nat "u8 list" | Unknown nat u32 wire_item

definition field_wire_type :: "int pb_field \<Rightarrow> nat" where
  "field_wire_type f =
     (let t = PB_LTYPE (ftype f)
      in if t \<in> {PB_LTYPE_BOOL, PB_LTYPE_VARINT, PB_LTYPE_UVARINT, PB_LTYPE_SVARINT} then PB_WT_VARINT
         else if t = PB_LTYPE_FIXED32 then PB_WT_32BIT
         else if t = PB_LTYPE_FIXED64 then PB_WT_64BIT
         else PB_WT_STRING)"

fun msg_item_bytes :: "int pb_field list \<Rightarrow> msg_item \<Rightarrow> u8 list" where
  "msg_item_bytes fs (Known i v) = item_bytes (WTag (field_wire_type (fs ! i)) (tag (fs ! i))) @ value_bytes (fs ! i) v"
| "msg_item_bytes fs (Unknown wt num x) = item_bytes (WTag wt num) @ item_bytes x"

fun msg_item_ok :: "nat \<Rightarrow> int pb_field list \<Rightarrow> msg_item \<Rightarrow> bool" where
  "msg_item_ok n fs (Known i v) \<longleftrightarrow> i < n \<and> value_ok (fs ! i) v"
| "msg_item_ok n fs (Unknown wt num x) \<longleftrightarrow> item_valid (WTag wt num) \<and> item_valid x \<and> payload_of wt x \<and> num \<notin> tag ` set (take n fs)"

text \<open>The effect on memory.\<close>

fun apply_item :: "int pb_field list \<Rightarrow> int \<Rightarrow> msg_item \<Rightarrow> heap \<Rightarrow> heap option" where
  "apply_item fs dest (Known i v) h =
     (let it = iter_at fs dest i
      in do { h \<leftarrow> (if PB_HTYPE (ftype (fs ! i)) = PB_HTYPE_OPTIONAL \<and> pSize it \<noteq> pData it
                    then store_bool h (pSize it) True else Some h);
              store_mem h (pData it) v })"
| "apply_item fs dest (Unknown wt num x) h = Some h"

fun apply_items :: "int pb_field list \<Rightarrow> int \<Rightarrow> msg_item list \<Rightarrow> heap \<Rightarrow> heap option" where
  "apply_items fs dest [] h = Some h"
| "apply_items fs dest (x # xs) h = do { h \<leftarrow> apply_item fs dest x h; apply_items fs dest xs h }"

text \<open>A message of singular static fields of other types than messages, with numbers of their own.\<close>

definition plain_message :: "nat \<Rightarrow> nat \<Rightarrow> int pb_field list \<Rightarrow> bool" where
  "plain_message sz n fs \<longleftrightarrow>
     0 < n \<and> message_fields n fs \<and> distinct (map tag (take n fs)) \<and>
     (\<forall>i<n. field_fits sz (iter_at fs 0 i) \<and> unat (tag (fs ! i)) < 2 ^ 29 \<and>
            PB_HTYPE (ftype (fs ! i)) \<in> {PB_HTYPE_REQUIRED, PB_HTYPE_OPTIONAL} \<and>
            PB_LTYPE (ftype (fs ! i)) \<noteq> PB_LTYPE_SUBMESSAGE)"

text \<open>A struct in memory, apart from the object \<open>x\<close>.\<close>

definition struct_at :: "nat \<Rightarrow> int \<Rightarrow> int \<times> u8 list \<Rightarrow> heap \<Rightarrow> bool" where
  "struct_at sz dest x h \<longleftrightarrow> heap_ok h \<and> room h dest sz \<and> list_all (apart x) h"

lemma alters_apart: "alters A h h' \<Longrightarrow> list_all (apart x) h' = list_all (apart x) h"
  unfolding alters_def by (induction rule: list_all2_induct) (auto simp: apart_def same_but_def)

lemma struct_at_alters: "alters A h h' \<Longrightarrow> struct_at sz dest x h' = struct_at sz dest x h"
  by (simp add: struct_at_def alters_apart alters_room alters_heap_ok)

lemma write_push:
  assumes "list_all (apart x) h" "room h p n" "0 < n"
  shows "write_at (x # h) p bs = x # write_at h p bs"
proof -
  obtain bs where "region h p = Some bs" using assms(2,3) by (auto simp: room_def)
  then have "\<not> inside p x" using region_apart [OF assms(1)] by simp
  then show ?thesis by simp
qed

lemma store_push:
  assumes "list_all (apart x) h" "room h p (length bs)" "bs \<noteq> []"
  shows "store_mem (x # h) p bs = map_option ((#) x) (store_mem h p bs)"
proof -
  obtain cs where r: "region h p = Some cs" "length bs \<le> length cs" using assms(2,3) by (auto simp: room_def)
  then have "\<not> inside p x" using region_apart [OF assms(1)] by simp
  then show ?thesis using r by (simp add: store_mem_def)
qed

lemma store_is_write: "room h p (length bs) \<Longrightarrow> bs \<noteq> [] \<Longrightarrow> store_mem h p bs = Some (write_at h p bs)"
  by (auto simp: room_def store_mem_def)

lemma value_nonempty: "static_field f \<Longrightarrow> value_ok f v \<Longrightarrow> v \<noteq> [] \<and> length v \<le> data_size f"
  by (auto simp: value_ok_def scalar_field_def Let_def split: if_splits)

lemma plain_field:
  assumes m: "plain_message sz n fs" and i: "i < n" and h: "struct_at sz dest x h"
  shows "static_field (fs ! i)" "cur_field (iter_at fs dest i) = fs ! i"
    "room h (pData (iter_at fs dest i)) (data_size (fs ! i))"
    "PB_HTYPE (ftype (fs ! i)) = PB_HTYPE_OPTIONAL \<Longrightarrow> pSize (iter_at fs dest i) \<noteq> pData (iter_at fs dest i) \<Longrightarrow>
       room h (pSize (iter_at fs dest i)) 1"
proof -
  have mf: "message_fields n fs" and f: "field_fits sz (iter_at fs 0 i)" "PB_HTYPE (ftype (fs ! i)) \<noteq> PB_HTYPE_REPEATED"
    using m i by (auto simp: plain_message_def)
  have o: "owned UNIV h dest sz" and hk: "heap_ok h" using h by (simp_all add: struct_at_def owned_def)
  show c: "cur_field (iter_at fs dest i) = fs ! i" using iter_at_inside [OF mf i, of dest] by (simp add: cur_field_def)
  have own: "field_owned UNIV h (iter_at fs dest i)" by (rule field_fits_owned [OF mf i f(1) hk o])
  then show "static_field (fs ! i)" "room h (pData (iter_at fs dest i)) (data_size (fs ! i))"
    "PB_HTYPE (ftype (fs ! i)) = PB_HTYPE_OPTIONAL \<Longrightarrow> pSize (iter_at fs dest i) \<noteq> pData (iter_at fs dest i) \<Longrightarrow>
       room h (pSize (iter_at fs dest i)) 1"
    using f(2) by (simp_all add: field_owned_def c owned_def entries_def Let_def)
qed

lemma apply_known:
  assumes m: "plain_message sz n fs" and i: "i < n" and h: "struct_at sz dest x h" and v: "value_ok (fs ! i) v"
  obtains h' where "apply_item fs dest (Known i v) h = Some h'" "alters UNIV h h'"
proof -
  let ?it = "iter_at fs dest i"
  note p = plain_field [OF m i h]
  note ne = value_nonempty [OF p(1) v]
  have "hsafe UNIV h (apply_item fs dest (Known i v) h)"
    unfolding apply_item.simps Let_def
  proof (rule hsafe_bind)
    show "hsafe UNIV h (if PB_HTYPE (ftype (fs ! i)) = PB_HTYPE_OPTIONAL \<and> pSize ?it \<noteq> pData ?it
        then store_bool h (pSize ?it) True else Some h)"
      using p(4) by (auto intro: hsafe_store_bool)
  next
    fix g assume g: "alters UNIV h g"
    have "room g (pData ?it) (length v)" using p(3) ne room_mono by (simp add: alters_room [OF g])
    then show "hsafe UNIV g (store_mem g (pData ?it) v)" by (rule hsafe_store) simp
  qed
  then show ?thesis using that by (auto simp: hsafe_def)
qed

text \<open>One known field: what \<open>decode_known\<close> does to memory is \<open>apply_item\<close>.\<close>

lemma decode_known_apply:
  fixes env :: "'s dec_env"
  assumes m: "plain_message sz n fs" and i: "i < n" and h: "struct_at sz dest x h" and v: "value_ok (fs ! i) v"
    and c: "cursor l = iter_at fs dest i" and a: "apply_item fs dest (Known i v) h = Some h'"
  shows "decode_known env sub fuel loc wt l (ibuf (value_bytes (fs ! i) v @ rest) (length (value_bytes (fs ! i) v) + k) e) (x # h) =
    Some ((True, ibuf rest k e :: 's pb_istream, x # h'), mark_required l)"
proof -
  let ?it = "iter_at fs dest i" and ?f = "fs ! i"
  let ?s = "ibuf (value_bytes ?f v @ rest) (length (value_bytes ?f v) + k) e :: 's pb_istream"
  note p = plain_field [OF m i h]
  note ne = value_nonempty [OF p(1) v]
  have ht: "PB_HTYPE (ftype ?f) = PB_HTYPE_REQUIRED \<or> PB_HTYPE (ftype ?f) = PB_HTYPE_OPTIONAL"
    and lt: "PB_LTYPE (ftype ?f) \<noteq> PB_LTYPE_SUBMESSAGE" using m i by (auto simp: plain_message_def)
  have at: "PB_ATYPE (ftype ?f) = PB_ATYPE_STATIC" using p(1) by (simp add: static_field_def Let_def)
  have dec: "dec_value env sub ?f (pData ?it) ?s (x # g) = Some (True, ibuf rest k e, x # write_at g (pData ?it) v)"
    if g: "alters UNIV h g" for g
  proof -
    have ap: "list_all (apart x) g" and r: "room g (pData ?it) (data_size ?f)"
      using h p(3) by (simp_all add: struct_at_def alters_apart [OF g] alters_room [OF g])
    have "0 < data_size ?f" using ne by (cases v) auto
    then show ?thesis
      using dec_value_bytes [OF p(1) lt _ v room_push [OF ap r], of env sub rest k e] ht write_push [OF ap r] by auto
  qed
  have st: "store_mem g (pData ?it) v = Some (write_at g (pData ?it) v)" if g: "alters UNIV h g" for g
    by (rule store_is_write) (use room_mono [OF p(3)] ne in \<open>simp_all add: alters_room [OF g]\<close>)
  have "decode_static_field env sub fuel wt ?it ?s (x # h) = Some (True, ibuf rest k e, x # h')"
  proof (cases "PB_HTYPE (ftype ?f) = PB_HTYPE_OPTIONAL \<and> pSize ?it \<noteq> pData ?it")
    case True
    then have r: "room h (pSize ?it) 1" using p(4) by simp
    obtain g where g: "store_bool h (pSize ?it) True = Some g" "alters UNIV h g"
      using hsafe_store_bool [OF r, of UNIV True] by (auto simp: hsafe_def)
    have "list_all (apart x) h" using h by (simp add: struct_at_def)
    then have "store_bool (x # h) (pSize ?it) True = Some (x # g)"
      using store_push [of x h "pSize ?it" "[1]"] r g(1) by (simp add: store_bool_def)
    then show ?thesis using True dec [OF g(2)] st [OF g(2)] a g(1)
      by (simp add: decode_static_field_def p(2) Let_def)
  next
    case False
    then show ?thesis using ht dec [OF alters_refl] st [OF alters_refl] a
      by (auto simp: decode_static_field_def p(2) Let_def)
  qed
  moreover have "enter_fixed_count loc l ?s (x # h) = Some ((True, ?s, x # h), l)"
    using ht by (auto simp: enter_fixed_count_def c p(2) Let_def)
  ultimately show ?thesis using ht at
    by (auto simp: decode_known_def decode_field_def c p(2) Let_def)
qed

section \<open>Required fields\<close>

definition is_required :: "int pb_field \<Rightarrow> bool" where
  "is_required f \<longleftrightarrow> PB_HTYPE (ftype f) = PB_HTYPE_REQUIRED"

definition required_before :: "int pb_field list \<Rightarrow> nat \<Rightarrow> nat" where
  "required_before fs i = length (filter is_required (take i fs))"

lemma required_index_at: "message_fields n fs \<Longrightarrow> i < n \<Longrightarrow> required_field_index (iter_at fs dest i) = required_before fs i"
  using iter_at_inside [of n fs i dest] by (simp add: required_before_def is_required_def [abs_def])

lemma required_before_Suc:
  "i < length fs \<Longrightarrow> required_before fs (Suc i) = required_before fs i + (if is_required (fs ! i) then 1 else 0)"
  by (simp add: required_before_def take_Suc_conv_app_nth)

lemma required_before_less: "n \<le> length fs \<Longrightarrow> i < n \<Longrightarrow> is_required (fs ! i) \<Longrightarrow> required_before fs i < required_before fs n"
proof (induction n)
  case (Suc n)
  then show ?case by (cases "i = n") (auto simp: required_before_Suc)
qed simp

lemma required_before_onto:
  "n \<le> length fs \<Longrightarrow> k < required_before fs n \<Longrightarrow> \<exists>i<n. is_required (fs ! i) \<and> required_before fs i = k"
proof (induction n)
  case 0
  then show ?case by (simp add: required_before_def)
next
  case (Suc n)
  show ?case
  proof (cases "k < required_before fs n")
    case True
    then show ?thesis using Suc by (meson less_SucI Suc_leD)
  next
    case False
    then have "is_required (fs ! n)" "k = required_before fs n" using Suc.prems by (auto simp: required_before_Suc split: if_splits)
    then show ?thesis by blast
  qed
qed

text \<open>The bitmap as a set.\<close>

definition seen_bits :: "u32 list \<Rightarrow> nat set" where
  "seen_bits seen = {k. k < 64 \<and> bit (seen ! (k div 32)) (k mod 32)}"

lemma seen_bits_mark:
  assumes "length seen = 2" "i < 64"
  shows "seen_bits (seen[i div 32 := seen ! (i div 32) OR push_bit (i mod 32) 1]) = insert i (seen_bits seen)"
proof -
  have "bit (seen[i div 32 := seen ! (i div 32) OR push_bit (i mod 32) 1] ! (k div 32)) (k mod 32) \<longleftrightarrow>
      k = i \<or> bit (seen ! (k div 32)) (k mod 32)" if "k < 64" for k
  proof (cases "k div 32 = i div 32")
    case True
    then have "i div 32 < length seen" using assms by auto
    moreover have "bit (push_bit (i mod 32) 1 :: u32) (k mod 32) \<longleftrightarrow> k mod 32 = i mod 32"
      by (auto simp: bit_exp_iff)
    moreover have "k mod 32 = i mod 32 \<longleftrightarrow> k = i" using True by (metis mod_div_mult_eq)
    ultimately show ?thesis using True by (auto simp: bit_or_iff)
  next
    case False
    then show ?thesis by auto
  qed
  then show ?thesis using assms(2) by (auto simp: seen_bits_def)
qed

lemma seen_bits_required:
  assumes "length (fields_seen l) = 2"
  shows "seen_bits (fields_seen (mark_required l)) = seen_bits (fields_seen l) \<union>
      (if is_required (cur_field (cursor l)) \<and> required_field_index (cursor l) < 64 then {required_field_index (cursor l)} else {})"
    "length (fields_seen (mark_required l)) = 2"
  using assms seen_bits_mark [OF assms] by (simp_all add: mark_required_def PB_MAX_REQUIRED_FIELDS_def is_required_def Let_def)

lemma word_all_bits: "w = (- 1 :: u32) \<longleftrightarrow> (\<forall>j<32. bit w j)"
  by (auto intro!: bit_word_eqI)

lemma word_low_bits:
  assumes "r \<le> 32" "\<And>j. j < 32 \<Longrightarrow> bit w j \<Longrightarrow> j < r"
  shows "w = drop_bit (32 - r) (- 1 :: u32) \<longleftrightarrow> (\<forall>j<r. bit w j)"
proof -
  have b: "bit (drop_bit (32 - r) (- 1 :: u32)) j \<longleftrightarrow> j < r" if "j < 32" for j
    using that assms(1) by (auto simp: bit_mask_iff)
  show ?thesis
  proof
    assume "w = drop_bit (32 - r) (- 1)"
    then show "\<forall>j<r. bit w j" using b assms(1) by auto
  next
    assume "\<forall>j<r. bit w j"
    then show "w = drop_bit (32 - r) (- 1)" using b assms by (intro bit_word_eqI) auto
  qed
qed

lemma all_seen_bits:
  assumes sub: "seen_bits seen \<subseteq> {..<n}"
  shows "all_seen n seen \<longleftrightarrow> (\<forall>k < min n 64. k \<in> seen_bits seen)"
proof -
  define m where "m = min n 64"
  have m: "m \<le> 64" by (simp add: m_def)
  have b: "bit (seen ! q) j \<longleftrightarrow> 32 * q + j \<in> seen_bits seen" if "q < 2" "j < 32" for q j
    using that by (auto simp: seen_bits_def)
  have whole: "seen ! q = - 1 \<longleftrightarrow> (\<forall>j<32. 32 * q + j \<in> seen_bits seen)" if "q < 2" for q
    using b that by (auto simp: word_all_bits)
  have part: "seen ! (m div 32) = drop_bit (32 - m mod 32) (- 1) \<longleftrightarrow> (\<forall>j < m mod 32. 32 * (m div 32) + j \<in> seen_bits seen)"
    if "m mod 32 \<noteq> 0"
  proof -
    have q: "m div 32 < 2" using that m by (cases "m = 64") auto
    have "j < m mod 32" if "j < 32" "bit (seen ! (m div 32)) j" for j
    proof -
      have "32 * (m div 32) + j \<in> seen_bits seen" using b [OF q] that by simp
      then have "32 * (m div 32) + j < m" using sub by (auto simp: m_def seen_bits_def)
      then show ?thesis by (metis add_less_cancel_left mult_div_mod_eq)
    qed
    then show ?thesis using word_low_bits [of "m mod 32" "seen ! (m div 32)"] b [OF q] by simp
  qed
  have "(\<forall>k<m. k \<in> seen_bits seen) \<longleftrightarrow>
      (\<forall>q < m div 32. \<forall>j<32. 32 * q + j \<in> seen_bits seen) \<and> (\<forall>j < m mod 32. 32 * (m div 32) + j \<in> seen_bits seen)"
  proof (intro iffI conjI allI impI; (elim conjE)?)
    fix q j :: nat assume a: "\<forall>k<m. k \<in> seen_bits seen" "q < m div 32" "j < 32"
    then have "32 * q + j < 32 * (m div 32)" by simp
    also have "\<dots> \<le> m" by simp
    finally show "32 * q + j \<in> seen_bits seen" using a(1) by blast
  next
    fix j :: nat assume a: "\<forall>k<m. k \<in> seen_bits seen" "j < m mod 32"
    then have "32 * (m div 32) + j < m" by (metis add_less_cancel_left mult_div_mod_eq)
    then show "32 * (m div 32) + j \<in> seen_bits seen" using a(1) by blast
  next
    fix k assume a: "\<forall>q < m div 32. \<forall>j<32. 32 * q + j \<in> seen_bits seen" "\<forall>j < m mod 32. 32 * (m div 32) + j \<in> seen_bits seen" "k < m"
    have k: "k = 32 * (k div 32) + k mod 32" by simp
    show "k \<in> seen_bits seen"
    proof (cases "k div 32 < m div 32")
      case True
      then show ?thesis using a(1) k by (metis mod_less_divisor zero_less_numeral)
    next
      case False
      then have "k div 32 = m div 32" using a(3) div_le_mono [of k m 32] by simp
      moreover from this have "k mod 32 < m mod 32" using a(3) by (metis add_less_cancel_left mult_div_mod_eq)
      ultimately show ?thesis using a(2) k by metis
    qed
  qed
  moreover have "(\<forall>i\<in>{0..<m div 32}. seen ! i = - 1) \<longleftrightarrow> (\<forall>q < m div 32. \<forall>j<32. 32 * q + j \<in> seen_bits seen)"
    using whole m by auto
  ultimately show ?thesis using part
    by (auto simp: all_seen_def PB_MAX_REQUIRED_FIELDS_def m_def [symmetric] Let_def)
qed

text \<open>The walk to the end counts the required fields.\<close>

lemma required_loop_count:
  assumes m: "message_fields n fs" and n: "0 < n"
  shows "i < n \<Longrightarrow> n - i \<le> k \<Longrightarrow> required_loop k (iter_at fs dest i) = Some (required_before fs n)"
proof (induction k arbitrary: i)
  case 0
  then show ?case by simp
next
  case (Suc k)
  obtain b it where it: "pb_field_iter_next (iter_at fs dest i) = (b, it)" by fastforce
  with iter_at_next [OF m Suc.prems(1), of dest]
  have b: "b \<longleftrightarrow> Suc i \<noteq> n" "it = iter_at fs dest (if Suc i = n then 0 else Suc i)" by simp_all
  show ?case
  proof (cases "Suc i = n")
    case False
    then show ?thesis using b Suc by (simp add: it)
  next
    case True
    have c: "cur_field (iter_at fs dest i) = fs ! i" "cur_field (iter_at fs dest 0) = fs ! 0"
      using iter_at_inside [OF m Suc.prems(1), of dest] iter_at_inside [OF m n, of dest] by (simp_all add: cur_field_def)
    have "tag (fs ! 0) \<noteq> 0" "i < length fs" using m n Suc.prems(1) by (simp_all add: message_fields_def)
    then show ?thesis using b True c required_before_Suc [of i fs] required_index_at [OF m Suc.prems(1), of dest]
      by (simp add: it is_required_def)
  qed
qed

section \<open>The loop on well-formed input\<close>

lemma find_member: "find P xs = Some k \<Longrightarrow> k \<in> set xs \<and> P k"
  by (auto simp: find_Some_iff)

lemma find_tag:
  assumes m: "plain_message sz n fs" and it: "on_field fs dest n it"
  shows "i < n \<Longrightarrow> pb_field_iter_find it (tag (fs ! i)) = Some (True, iter_at fs dest i)"
    "num \<notin> tag ` set (take n fs) \<Longrightarrow> pb_field_iter_find it num = Some (False, it)"
proof -
  have mf: "message_fields n fs" and d: "distinct (map tag (take n fs))" using m by (simp_all add: plain_message_def)
  have len: "length fs = Suc n" using mf by (simp add: message_fields_def)
  obtain j where j: "j < n" "it = iter_at fs dest j" using it by (auto simp: on_field_def)
  have find: "pb_field_iter_find it t = Some (case find (\<lambda>j. field_matches t (fs ! j)) (search_order n j) of
              Some j \<Rightarrow> (True, iter_at fs dest j) | None \<Rightarrow> (False, iter_at fs dest j))" for t
    using find_loop_order [OF mf j(1), of 0 "length fs" t dest] j iter_at_inside [OF mf j(1), of dest] len
    by (simp add: pb_field_iter_find_def)
  have in_order: "k \<in> set (search_order n j) \<longleftrightarrow> k < n" for k
  proof
    assume "k < n"
    then have "(j + (k + (n - j)) mod n) mod n = k" using j(1) by (simp add: mod_add_right_eq)
    moreover have "(k + (n - j)) mod n < n" using \<open>k < n\<close> by simp
    ultimately show "k \<in> set (search_order n j)" unfolding search_order_def by force
  qed (use j in \<open>auto simp: search_order_def\<close>)
  show "pb_field_iter_find it (tag (fs ! i)) = Some (True, iter_at fs dest i)" if i: "i < n"
  proof -
    have "PB_LTYPE (ftype (fs ! i)) \<noteq> PB_LTYPE_EXTENSION"
      using m i iter_at_inside [OF mf i, of 0] by (auto simp: plain_message_def field_fits_def static_field_def cur_field_def Let_def)
    then have "field_matches (tag (fs ! i)) (fs ! i)" by (simp add: field_matches_def)
    moreover have "k = i" if "k < n" "field_matches (tag (fs ! i)) (fs ! k)" for k
      using that i nth_eq_iff_index_eq [OF d, of k i] len by (simp add: field_matches_def)
    ultimately have "find (\<lambda>j. field_matches (tag (fs ! i)) (fs ! j)) (search_order n j) = Some i"
      using in_order i find_member [of "\<lambda>j. field_matches (tag (fs ! i)) (fs ! j)" "search_order n j"]
      by (cases "find (\<lambda>j. field_matches (tag (fs ! i)) (fs ! j)) (search_order n j)") (auto simp: find_None_iff)
    then show ?thesis by (simp add: find)
  qed
  show "pb_field_iter_find it num = Some (False, it)" if "num \<notin> tag ` set (take n fs)"
  proof -
    have "\<not> field_matches num (fs ! k)" if "k < n" for k
    proof -
      have "fs ! k \<in> set (take n fs)" using that len by (auto simp: in_set_conv_nth intro!: exI [of _ k])
      then show ?thesis using \<open>num \<notin> _\<close> by (auto simp: field_matches_def)
    qed
    then have "find (\<lambda>j. field_matches num (fs ! j)) (search_order n j) = None" using in_order by (auto simp: find_None_iff)
    then show ?thesis using find [of num] j(2) by simp
  qed
qed

lemma pb_decode_tag_item:
  assumes "item_valid (WTag wt num)"
  shows "pb_decode_tag (ibuf (item_bytes (WTag wt num) @ rest) (length (item_bytes (WTag wt num)) + k) e) =
    (Some (wt, unat num), ibuf rest k e, False)"
proof -
  define t :: u32 where "t = of_nat (unat num * 8 + wt)"
  have "unat num * 8 + wt < 2 ^ 32" using assms by simp
  then have t: "unat t = unat num * 8 + wt" unfolding t_def by (simp only: unat_of_nat) simp
  have "t \<noteq> 0" using t assms by (auto simp: unat_0_iff)
  moreover have "unat t mod 8 = wt" "unat t div 8 = unat num" using assms by (simp_all add: t)
  ultimately show ?thesis by (simp add: pb_decode_tag_bytes [of t] flip: t)
qed

definition locals_ready :: "int pb_field list \<Rightarrow> int \<Rightarrow> nat \<Rightarrow> noinit_locals \<Rightarrow> bool" where
  "locals_ready fs dest n l \<longleftrightarrow> on_field fs dest n (cursor l) \<and> fixed_count_field l = None \<and> length (fields_seen l) = 2"

text \<open>The required fields that items bring, by their index; the bitmap has room for 64.\<close>

definition item_marks :: "nat \<Rightarrow> int pb_field list \<Rightarrow> msg_item \<Rightarrow> nat set" where
  "item_marks n fs x = {required_before fs i | i v. x = Known i v \<and> is_required (fs ! i) \<and> required_before fs i < 64}"

lemma item_step:
  fixes env :: "'s dec_env"
  assumes m: "plain_message sz n fs" and h: "struct_at sz dest x h" and l: "locals_ready fs dest n l" and i: "msg_item_ok n fs i"
  shows "\<exists>l' h'. apply_item fs dest i h = Some h' \<and> struct_at sz dest x h' \<and> locals_ready fs dest n l' \<and>
    seen_bits (fields_seen l') = seen_bits (fields_seen l) \<union> item_marks n fs i \<and>
    noinit_loop env sub fuel loc (Suc k) l (ibuf (msg_item_bytes fs i @ rest) (length (msg_item_bytes fs i) + r) e :: 's pb_istream) (x # h) =
      noinit_loop env sub fuel loc k l' (ibuf rest r e) (x # h')"
proof (cases i)
  case (Known j v)
  then have j: "j < n" "value_ok (fs ! j) v" using i by simp_all
  have mf: "message_fields n fs" using m by (simp add: plain_message_def)
  obtain h' where h': "apply_item fs dest i h = Some h'" "alters UNIV h h'"
    using apply_known [OF m j(1) h j(2)] Known by blast
  let ?l = "l\<lparr> cursor := iter_at fs dest j \<rparr>" and ?w = "WTag (field_wire_type (fs ! j)) (tag (fs ! j))"
  have nz: "tag (fs ! j) \<noteq> 0" "unat (tag (fs ! j)) < 2 ^ 29" using m j mf by (auto simp: plain_message_def message_fields_def)
  then have w: "item_valid ?w" by (simp add: field_wire_type_def wire_types Let_def)
  have cur: "cur_field (iter_at fs dest j) = fs ! j" using iter_at_inside [OF mf j(1), of dest] by (simp add: cur_field_def)
  have "noinit_loop env sub fuel loc (Suc k) l (ibuf (msg_item_bytes fs i @ rest) (length (msg_item_bytes fs i) + r) e :: 's pb_istream) (x # h) =
      noinit_loop env sub fuel loc k (mark_required ?l) (ibuf rest r e) (x # h')"
    using find_tag(1) [OF m _ j(1), of dest "cursor l"] l h'(1)
      decode_known_apply [OF m j(1) h j(2), of ?l h' env sub fuel loc "field_wire_type (fs ! j)" rest r e]
    by (simp add: Known pb_decode_tag_item [OF w, simplified] locals_ready_def add.assoc)
  moreover have "seen_bits (fields_seen (mark_required ?l)) = seen_bits (fields_seen l) \<union> item_marks n fs i"
    "length (fields_seen (mark_required ?l)) = 2"
    using seen_bits_required [of ?l] l
    by (auto simp: locals_ready_def cur required_index_at [OF mf j(1)] item_marks_def Known)
  moreover have "locals_ready fs dest n (mark_required ?l)"
    using j(1) calculation(3) l by (auto simp: locals_ready_def on_field_def mark_required_def Let_def)
  ultimately show ?thesis using h' h by (auto simp: struct_at_alters [OF h'(2)])
next
  case (Unknown wt num y)
  have v: "item_valid (WTag wt num)" "item_valid y" "payload_of wt y" "num \<notin> tag ` set (take n fs)"
    using i Unknown by simp_all
  have mf: "message_fields n fs" using m by (simp add: plain_message_def)
  have e: "PB_LTYPE (ftype (fs ! j)) \<noteq> PB_LTYPE_EXTENSION" if "j < n" for j
    using m that iter_at_inside [OF mf that, of 0] by (auto simp: plain_message_def field_fits_def static_field_def cur_field_def Let_def)
  have on: "on_field fs dest n (cursor l)" using l by (simp add: locals_ready_def)
  let ?l = "l\<lparr> extension_range_start := if unat num < extension_range_start l then extension_range_start l else 2 ^ 32 - 1 \<rparr>"
  have same: "l\<lparr> cursor := cursor l \<rparr> = l" "l\<lparr> extension_range_start := extension_range_start l \<rparr> = l" by simp_all
  have "decode_unknown env sub fuel (unat num) wt l (ibuf (item_bytes y @ rest) (length (item_bytes y) + r) e :: 's pb_istream) (x # h) =
      Some ((True, ibuf rest r e, x # h), ?l)"
    using v(1) pb_skip_field_bytes [OF v(2,3), of rest r e, where ?'a = 's] find_extension_on_field [OF mf e on]
    by (simp add: decode_unknown_def same)
  moreover have "varint_bytes (unat num * 8 + wt) \<noteq> []" by simp
  ultimately have "noinit_loop env sub fuel loc (Suc k) l (ibuf (msg_item_bytes fs i @ rest) (length (msg_item_bytes fs i) + r) e :: 's pb_istream) (x # h) =
      noinit_loop env sub fuel loc k ?l (ibuf rest r e) (x # h)"
    using find_tag(2) [OF m on v(4)]
    by (simp add: Unknown pb_decode_tag_item [OF v(1), simplified] same add.assoc)
  moreover have "locals_ready fs dest n ?l" using l by (simp add: locals_ready_def)
  ultimately show ?thesis using h by (intro exI [of _ ?l] exI [of _ h]) (simp add: Unknown item_marks_def)
qed

definition msg_bytes :: "int pb_field list \<Rightarrow> msg_item list \<Rightarrow> u8 list" where
  "msg_bytes fs items = concat (map (msg_item_bytes fs) items)"

lemma apply_loop:
  fixes env :: "'s dec_env"
  assumes m: "plain_message sz n fs"
  shows "list_all (msg_item_ok n fs) items \<Longrightarrow> struct_at sz dest x h \<Longrightarrow> locals_ready fs dest n l \<Longrightarrow> length items < k \<Longrightarrow>
    \<exists>l' h'. apply_items fs dest items h = Some h' \<and> struct_at sz dest x h' \<and> locals_ready fs dest n l' \<and>
      seen_bits (fields_seen l') = seen_bits (fields_seen l) \<union> \<Union> (item_marks n fs ` set items) \<and>
      noinit_loop env sub fuel loc k l (ibuf (msg_bytes fs items) (length (msg_bytes fs items)) e :: 's pb_istream) (x # h) =
        Some ((True, ibuf [] 0 e, x # h'), l')"
proof (induction items arbitrary: h l k)
  case Nil
  then show ?case by (cases k) (auto simp: msg_bytes_def)
next
  case (Cons i items)
  then obtain k' where k: "k = Suc k'" by (cases k) auto
  obtain l1 h1 where s: "apply_item fs dest i h = Some h1" "struct_at sz dest x h1" "locals_ready fs dest n l1"
    "seen_bits (fields_seen l1) = seen_bits (fields_seen l) \<union> item_marks n fs i"
    "noinit_loop env sub fuel loc (Suc k') l (ibuf (msg_item_bytes fs i @ msg_bytes fs items)
         (length (msg_item_bytes fs i) + length (msg_bytes fs items)) e :: 's pb_istream) (x # h) =
      noinit_loop env sub fuel loc k' l1 (ibuf (msg_bytes fs items) (length (msg_bytes fs items)) e) (x # h1)"
    using item_step [OF m Cons.prems(2,3), of i env sub fuel loc k' "msg_bytes fs items" "length (msg_bytes fs items)" e] Cons.prems(1)
    by auto
  obtain l2 h2 where t: "apply_items fs dest items h1 = Some h2" "struct_at sz dest x h2" "locals_ready fs dest n l2"
    "seen_bits (fields_seen l2) = seen_bits (fields_seen l1) \<union> \<Union> (item_marks n fs ` set items)"
    "noinit_loop env sub fuel loc k' l1 (ibuf (msg_bytes fs items) (length (msg_bytes fs items)) e :: 's pb_istream) (x # h1) =
        Some ((True, ibuf [] 0 e, x # h2), l2)"
    using Cons.IH [OF _ s(2,3), of k'] Cons.prems(1,4) k by auto
  have "msg_bytes fs (i # items) = msg_item_bytes fs i @ msg_bytes fs items" by (simp add: msg_bytes_def)
  then show ?case using s t k by (intro exI [of _ l2] exI [of _ h2]) (simp add: Un_assoc)
qed

text \<open>All required fields, as far as the bitmap counts them, are among the items.\<close>

definition required_given :: "nat \<Rightarrow> int pb_field list \<Rightarrow> msg_item list \<Rightarrow> bool" where
  "required_given n fs items \<longleftrightarrow>
     (\<forall>i<n. is_required (fs ! i) \<longrightarrow> required_before fs i < 64 \<longrightarrow> (\<exists>v. Known i v \<in> set items))"

lemma final_checks_apply:
  assumes m: "plain_message sz n fs" and l: "locals_ready fs dest n l" and items: "list_all (msg_item_ok n fs) items"
    and s: "seen_bits (fields_seen l) = \<Union> (item_marks n fs ` set items)"
  shows "final_checks loc l s h =
    (if required_given n fs items then Some (True, s, h) else dec_fail ''missing required field'' s h)"
proof -
  have mf: "message_fields n fs" "0 < n" and len: "n \<le> length fs" using m by (simp_all add: plain_message_def message_fields_def)
  obtain i where i: "i < n" "cursor l = iter_at fs dest i" using l by (auto simp: locals_ready_def on_field_def)
  have st: "start (cursor l) = fs" using iter_at_inside [OF mf(1) i(1), of dest] i by simp
  have c: "required_loop (length (start (cursor l))) (cursor l) = Some (required_before fs n)"
    unfolding st unfolding i(2) by (rule required_loop_count [OF mf i(1)]) (use len in simp)
  have before: "required_before fs j < required_before fs n" if "Known j v \<in> set items" "is_required (fs ! j)" for j v
    using items that by (intro required_before_less [OF len]) (auto simp: list_all_iff)
  have inj: "j = j'" if "required_before fs j = required_before fs j'" "is_required (fs ! j)" "is_required (fs ! j')" "j < n" "j' < n" for j j'
    using that required_before_less [of j fs j'] required_before_less [of j' fs j] len
    by (metis less_le_trans less_not_refl nat_less_le not_less_iff_gr_or_eq)
  have mem: "k \<in> seen_bits (fields_seen l) \<longleftrightarrow>
      (\<exists>j v. k = required_before fs j \<and> Known j v \<in> set items \<and> is_required (fs ! j) \<and> required_before fs j < 64)" for k
    unfolding s item_marks_def by blast
  have "all_seen (required_before fs n) (fields_seen l) \<longleftrightarrow> (\<forall>k < min (required_before fs n) 64. k \<in> seen_bits (fields_seen l))"
    by (rule all_seen_bits) (use before mem in auto)
  also have "\<dots> \<longleftrightarrow> required_given n fs items"
  proof
    assume a: "\<forall>k < min (required_before fs n) 64. k \<in> seen_bits (fields_seen l)"
    show "required_given n fs items" unfolding required_given_def
    proof (intro allI impI)
      fix j assume j: "j < n" "is_required (fs ! j)" "required_before fs j < 64"
      then have "required_before fs j \<in> seen_bits (fields_seen l)" using a required_before_less [OF len] by auto
      then obtain j' v where j': "required_before fs j = required_before fs j'" "Known j' v \<in> set items" "is_required (fs ! j')"
        using mem by blast
      then have "j' < n" using items by (auto simp: list_all_iff)
      then have "j' = j" using inj [OF j'(1) j(2) j'(3) j(1)] by simp
      then show "\<exists>v. Known j v \<in> set items" using j'(2) by blast
    qed
  next
    assume a: "required_given n fs items"
    show "\<forall>k < min (required_before fs n) 64. k \<in> seen_bits (fields_seen l)"
    proof (intro allI impI)
      fix k assume k: "k < min (required_before fs n) 64"
      then obtain j where "j < n" "is_required (fs ! j)" "required_before fs j = k" using required_before_onto [OF len, of k] by auto
      then show "k \<in> seen_bits (fields_seen l)" using a k mem unfolding required_given_def by auto
    qed
  qed
  finally show ?thesis using l c by (auto simp: final_checks_def locals_ready_def)
qed

lemma apply_item_alters:
  assumes m: "plain_message sz n fs" and i: "msg_item_ok n fs i" and h: "struct_at sz dest x h" and a: "apply_item fs dest i h = Some g"
  shows "alters UNIV h g"
proof (cases i)
  case (Known j v)
  then have j: "j < n" "value_ok (fs ! j) v" using i by simp_all
  obtain h' where "apply_item fs dest i h = Some h'" "alters UNIV h h'" using apply_known [OF m j(1) h j(2)] Known by blast
  then show ?thesis using a by simp
qed (use a in simp)

lemma apply_items_alters:
  assumes m: "plain_message sz n fs"
  shows "list_all (msg_item_ok n fs) items \<Longrightarrow> struct_at sz dest x h \<Longrightarrow> apply_items fs dest items h = Some h' \<Longrightarrow> alters UNIV h h'"
proof (induction items arbitrary: h)
  case (Cons i items)
  then obtain g where g: "apply_item fs dest i h = Some g" "apply_items fs dest items g = Some h'"
    by (auto split: Option.bind_splits)
  have "alters UNIV h g" by (rule apply_item_alters [OF m _ Cons.prems(2) g(1)]) (use Cons.prems(1) in simp)
  moreover from this have "alters UNIV g h'" using Cons.IH [OF _ _ g(2)] Cons.prems(1,2) by (simp add: struct_at_alters)
  ultimately show ?case by (rule alters_trans)
qed simp

lemma decode_noinit_apply:
  fixes env :: "'s dec_env"
  assumes m: "plain_message sz n fs" and items: "list_all (msg_item_ok n fs) items" and loc: "local_ok env"
    and h: "heap_ok h" "room h dest sz" and fuel: "length items + 1 < fuel"
  shows "\<exists>h'. apply_items fs dest items h = Some h' \<and> alters UNIV h h' \<and>
    pb_decode_noinit env fuel fs dest (ibuf (msg_bytes fs items) (length (msg_bytes fs items)) None :: 's pb_istream) h =
      Some (required_given n fs items, ibuf [] 0 (if required_given n fs items then None else Some ''missing required field''), h')"
proof -
  obtain k where k: "fuel = Suc k" using fuel by (cases fuel) auto
  let ?loc = "dec_local env h"
  let ?x = "(?loc, le_bytes 4 0)"
  let ?l = "\<lparr> cursor = snd (pb_field_iter_begin fs dest), fields_seen = [0, 0],
    extension_range_start = 0, fixed_count_field = None \<rparr>"
  let ?sub = "\<lambda>init. if init then pb_decode_with (pb_decode_noinit env k) env k else pb_decode_noinit env k"
  have st: "struct_at sz dest ?x h" using loc h by (simp add: struct_at_def local_ok_def)
  have n: "0 < n" using m by (simp add: plain_message_def)
  have l: "locals_ready fs dest n ?l" using n by (auto simp: locals_ready_def on_field_def iter_at.simps intro!: exI [of _ 0])
  obtain l' h' where r: "apply_items fs dest items h = Some h'" "struct_at sz dest ?x h'" "locals_ready fs dest n l'"
    "seen_bits (fields_seen l') = seen_bits (fields_seen ?l) \<union> \<Union> (item_marks n fs ` set items)"
    "noinit_loop env ?sub k ?loc k ?l (ibuf (msg_bytes fs items) (length (msg_bytes fs items)) None :: 's pb_istream) (?x # h) =
        Some ((True, ibuf [] 0 None, ?x # h'), l')"
    using apply_loop [OF m items st l, of k env ?sub k ?loc None] fuel k by auto
  have "seen_bits [0, 0] = {}" by (auto simp: seen_bits_def less_Suc_eq_0_disj numeral_2_eq_2 nth_Cons')
  then have sb: "seen_bits (fields_seen l') = \<Union> (item_marks n fs ` set items)" using r(4) by simp
  have f: "final_checks ?loc l' (ibuf [] 0 None :: 's pb_istream) (?x # h') =
    (if required_given n fs items then Some (True, ibuf [] 0 None, ?x # h')
     else dec_fail ''missing required field'' (ibuf [] 0 None) (?x # h'))"
    by (simp add: final_checks_apply [OF m r(3) items sb])
  have al: "alters UNIV h h'" by (rule apply_items_alters [OF m items st r(1)])
  show ?thesis using r(1,5) f al
    by (intro exI [of _ h']) (auto simp: k noinit_body_def dec_fail_def in_error_ibuf Let_def)
qed

lemma alters_nothing: "alters {} h h' \<Longrightarrow> h' = h"
  unfolding alters_def
  by (induction rule: list_all2_induct) (auto simp: same_but_def prod_eq_iff intro: nth_equalityI)

lemma decode_applies:
  assumes "static_messages env rk sz" "dec_fields env a = Some fs" "local_ok env"
    and "memory_ok env h" "room h dest (sz a)"
    and "plain_message (sz a) n fs" "list_all (msg_item_ok n fs) items"
    and "rk a + length items + 1 < fuel"
  shows "\<exists>h0 h' s'. pb_message_set_to_defaults env fuel fs dest h = Some h0 \<and> alters UNIV h h0 \<and>
    apply_items fs dest items h0 = Some h' \<and>
    pb_decode env fuel fs dest (pb_istream_from_buffer (msg_bytes fs items) (length (msg_bytes fs items))) h =
      Some (required_given n fs items, s', h') \<and> bytes_left s' = 0"
proof -
  have own: "owned UNIV h dest (sz a)" using assms(5) by (simp add: owned_def)
  have fuel: "rk a < fuel" "length items + 1 < fuel" using assms(8) by simp_all
  obtain h0 where h0: "pb_message_set_to_defaults env fuel fs dest h = Some h0" "alters UNIV h h0"
    using set_to_default_safe [OF assms(1,2) fuel(1) assms(4) own] by (auto simp: hsafe_def pb_message_set_to_defaults_def)
  have "heap_ok h0" "room h0 dest (sz a)"
    using assms(4,5) by (simp_all add: memory_ok_def alters_heap_ok [OF h0(2)] alters_room [OF h0(2)])
  from decode_noinit_apply [OF assms(6,7,3) this fuel(2)]
  obtain h' where h': "apply_items fs dest items h0 = Some h'" "alters UNIV h0 h'"
    "pb_decode_noinit env fuel fs dest (ibuf (msg_bytes fs items) (length (msg_bytes fs items)) None) h0 =
      Some (required_given n fs items, ibuf [] 0 (if required_given n fs items then None else Some ''missing required field''), h')"
    by blast
  have al: "alters UNIV h h'" using alters_trans [OF h0(2) h'(2)] .
  have "hsafe {} h' (pb_release env fuel fs dest h')"
    by (rule release_safe [OF assms(1,2) fuel(1)])
      (use assms(4) own in \<open>simp_all add: memory_ok_alters [OF al] owned_alters [OF al]\<close>)
  then have rel: "pb_release env fuel fs dest h' = Some h'" using alters_nothing by (auto simp: hsafe_def)
  show ?thesis using h0 h'(1,3) rel
    by (auto simp: pb_decode_def pb_decode_with_def ibuf_from_buffer)
qed

section \<open>The meaning of decoding\<close>

text \<open>
  C17. Decoding well-formed input into a message of singular static fields does what the fields say. The struct is
  set to its default values, then each field of the stream is stored at its place and marked as present, in
  the order of the stream, so that the last one of a number wins; fields with numbers that the message does not have change
  nothing; the whole stream is read; and the result is success exactly if each required field, up to the 64
  that the bitmap can count, occurs.
\<close>

theorem decode_applies_fields:
  assumes "static_messages env rk sz" "dec_fields env a = Some fs" "local_ok env"
    and "memory_ok env h" "room h dest (sz a)"
    and "plain_message (sz a) n fs" "list_all (msg_item_ok n fs) items"
    and "rk a + length items + 1 < fuel"
  shows "\<exists>h0 h' s'. pb_message_set_to_defaults env fuel fs dest h = Some h0 \<and> apply_items fs dest items h0 = Some h' \<and>
    pb_decode env fuel fs dest (pb_istream_from_buffer (msg_bytes fs items) (length (msg_bytes fs items))) h =
      Some (\<forall>i<n. PB_HTYPE (ftype (fs ! i)) = PB_HTYPE_REQUIRED \<and> required_before fs i < 64 \<longrightarrow> (\<exists>v. Known i v \<in> set items), s', h') \<and>
    bytes_left s' = 0"
proof -
  have req: "(\<forall>i<n. PB_HTYPE (ftype (fs ! i)) = PB_HTYPE_REQUIRED \<and> required_before fs i < 64 \<longrightarrow> (\<exists>v. Known i v \<in> set items)) =
    required_given n fs items" by (auto simp: required_given_def is_required_def)
  show ?thesis unfolding req using decode_applies [OF assms] by blast
qed

theorem decode_applies_fields_witness:
  "\<exists>s'. pb_decode report_env 8 report_text 100
      (pb_istream_from_buffer [0x0a, 2, 0x61, 0x61, 0x28, 7, 0x0a, 1, 0x62] 9 :: unit pb_istream) [(100, [9, 9, 9, 9, 9, 9, 9, 9])] =
    Some (True, s', [(100, [1, 0x62, 0, 0, 0, 9, 9, 9])]) \<and> bytes_left s' = 0"
proof -
  let ?h = "[(100, [9, 9, 9, 9, 9, 9, 9, 9])] :: heap"
  let ?items = "[Known 0 [0x61, 0x61, 0], Unknown 0 5 (WVarint 7), Known 0 [0x62, 0]]"
  note eval = report_text_def iter_at.simps pb_field_iter_begin_def cur_field_def report_types Let_def
  have p: "plain_message (report_size 2000) 1 report_text"
    by (simp add: plain_message_def message_fields_def field_fits_def static_field_def entries_def counted_def report_size_def eval)
  have i: "list_all (msg_item_ok 1 report_text) ?items"
    by (simp add: value_ok_def wire_types eval)
  have b: "msg_bytes report_text ?items = [0x0a, 2, 0x61, 0x61, 0x28, 7, 0x0a, 1, 0x62]"
    by (simp add: msg_bytes_def value_bytes_def field_wire_type_def string_bytes_def varint_bytes_short wire_types eval)
  have l: "local_ok report_env" "dec_fields report_env 2000 = Some report_text"
    using after_all_apart by (simp_all add: report_env_def local_ok_def)
  have m: "memory_ok report_env ?h" "room ?h 100 (report_size 2000)"
    by (auto simp: memory_ok_def defaults_present_def report_env_def report_def room_def inside_def report_size_def eval split: if_splits)
  have r4: "replicate 4 x = [x, x, x, x]" for x :: u8 by (simp add: numeral_eq_Suc)
  note step = pb_field_set_to_default.simps(2) [of report_env 7, simplified]
  have d: "pb_message_set_to_defaults report_env 8 report_text 100 ?h = Some [(100, [0, 0, 0, 0, 0, 9, 9, 9])]"
    by (simp add: pb_message_set_to_defaults_def message_loop_def eval store_bool_def store_mem_def inside_def store_def
        pb_field_iter_next_def step r4)
  have "apply_items report_text 100 ?items [(100, [0, 0, 0, 0, 0, 9, 9, 9])] = Some [(100, [1, 0x62, 0, 0, 0, 9, 9, 9])]"
    by (simp add: eval store_bool_def store_mem_def inside_def store_def)
  moreover have len: "length (msg_bytes report_text ?items) = 9" by (simp add: b)
  moreover have "PB_HTYPE (ftype (report_text ! 0)) \<noteq> PB_HTYPE_REQUIRED" by (simp add: eval)
  ultimately show ?thesis
    using decode_applies_fields [OF report_static l(2,1) m p i, of 8, unfolded len, unfolded b] d
    by (auto simp: report_rank_def simp del: apply_items.simps)
qed

end
