(* ===== verification/PbEncode.thy ===== *)
theory PbEncode
  imports PbHeap
begin

text \<open>
  Encoding whole messages (\<open>pb_encode.c\<close>): the walk over a message's descriptor array, arrays and
  their packing, pointers, oneofs, the default values of proto3, submessages, callbacks and
  extensions. Results are \<open>None\<close> when memory outside every object would be read, a function pointer
  without code called, or the fuel, which bounds the nesting of messages and the length of extension
  lists, runs out.
\<close>

section \<open>The surroundings of an encoding\<close>

text \<open>
  The heap, the descriptor array that starts at an address, and the code behind function pointers: field
  callbacks get the stream, the field and the address of their argument, extension encoders the
  stream and the extension.
\<close>

record 'o enc_env =
  env_heap :: heap
  env_fields :: "int \<Rightarrow> int pb_field list option"
  env_call :: "int \<Rightarrow> 'o pb_ostream \<Rightarrow> int pb_field \<Rightarrow> int \<Rightarrow> bool \<times> 'o pb_ostream"
  env_ext_call :: "int \<Rightarrow> 'o pb_ostream \<Rightarrow> int \<Rightarrow> bool \<times> 'o pb_ostream"

type_synonym 'o encoder = "'o pb_ostream \<Rightarrow> (bool \<times> 'o pb_ostream) option"

text \<open>\<open>if (!e1(stream)) return false; e2\<close>.\<close>

definition enc_seq :: "'o encoder \<Rightarrow> 'o encoder \<Rightarrow> 'o encoder" where
  "enc_seq e1 e2 s = (case e1 s of None \<Rightarrow> None | Some (ok, s) \<Rightarrow> if ok then e2 s else Some (False, s))"

definition enc_ok :: "'o encoder" where
  "enc_ok s = Some (True, s)"

definition enc_fail :: "string \<Rightarrow> 'o encoder" where
  "enc_fail msg s = Some (out_error msg s)"

definition enc_call :: "('o pb_ostream \<Rightarrow> bool \<times> 'o pb_ostream) \<Rightarrow> 'o encoder" where
  "enc_call f s = Some (f s)"

text \<open>Reading memory before going on.\<close>

definition enc_read :: "'a option \<Rightarrow> ('a \<Rightarrow> 'o encoder) \<Rightarrow> 'o encoder" where
  "enc_read r k s = (case r of None \<Rightarrow> None | Some v \<Rightarrow> k v s)"

section \<open>Submessages\<close>

text \<open>The part after the length has been written.\<close>

definition submessage_body :: "'o encoder \<Rightarrow> nat \<Rightarrow> 'o encoder" where
  "submessage_body encode n s =
     (if is_sizing s then Some (True, s\<lparr> bytes_written := size_t (bytes_written s + n) \<rparr>)
      else if max_size s < size_t (bytes_written s + n) then enc_fail ''stream full'' s
      else case encode (s\<lparr> max_size := n, bytes_written := 0, out_errmsg := None \<rparr>) of
             None \<Rightarrow> None
           | Some (status, substream) \<Rightarrow>
               let s = s\<lparr> bytes_written := size_t (bytes_written s + bytes_written substream),
                         out_sink := out_sink substream, out_errmsg := out_errmsg substream \<rparr>
               in if bytes_written substream \<noteq> n then enc_fail ''submsg size changed'' s
                  else Some (status, s))"

definition pb_encode_submessage :: "'o encoder \<Rightarrow> 'o encoder" where
  "pb_encode_submessage encode s =
     (case encode PB_OSTREAM_SIZING of
        None \<Rightarrow> None
      | Some (False, substream) \<Rightarrow> Some (False, s\<lparr> out_errmsg := out_errmsg substream \<rparr>)
      | Some (True, substream) \<Rightarrow>
          let n = bytes_written substream
          in enc_seq (enc_call (\<lambda>s. pb_encode_varint s (of_nat n))) (submessage_body encode n) s)"

section \<open>Values\<close>

text \<open>
  \<open>PB_ENCODERS[PB_LTYPE(type)]\<close> applied at address \<open>p\<close>. \<open>src\<close> is the memory there, \<open>None\<close> for a null pointer,
  which only the bytes and string encoders accept. What they read has to be inside the object.
\<close>

definition bytes_readable :: "int pb_field \<Rightarrow> u8 list \<Rightarrow> bool" where
  "bytes_readable field src =
     (4 \<le> length src \<and>
      (PB_ATYPE (ftype field) = PB_ATYPE_STATIC \<and> data_size field < PB_BYTES_ARRAY_T_ALLOCSIZE (load 4 src) \<or>
       4 + load 4 src \<le> length src))"

definition string_readable :: "int pb_field \<Rightarrow> u8 list \<Rightarrow> bool" where
  "string_readable field src =
     (let limit = (if is_pointer field then SIZE_MAX else data_size field);
          n = bounded_strlen limit src
      in n < length src \<or> n = limit)"

definition pb_enc_submessage ::
  "'o enc_env \<Rightarrow> (int pb_field list \<Rightarrow> int \<Rightarrow> 'o encoder) \<Rightarrow> int pb_field \<Rightarrow> int \<Rightarrow> 'o encoder" where
  "pb_enc_submessage env sub field p =
     (if ptr field = 0 then enc_fail ''invalid field descriptor''
      else enc_read (env_fields env (ptr field)) (\<lambda>fs. pb_encode_submessage (sub fs p)))"

definition enc_value ::
  "'o enc_env \<Rightarrow> (int pb_field list \<Rightarrow> int \<Rightarrow> 'o encoder) \<Rightarrow>
    int pb_field \<Rightarrow> int \<Rightarrow> 'o encoder" where
  "enc_value env sub field p =
     (let t = PB_LTYPE (ftype field); mem = region (env_heap env) p;
          scalar = (\<lambda>n f. enc_read mem (\<lambda>src. if n \<le> length src then enc_call (\<lambda>s. f s src) else (\<lambda>_. None)))
      in if t = PB_LTYPE_BOOL then scalar 1 pb_enc_bool
         else if t = PB_LTYPE_VARINT then scalar (data_size field) (\<lambda>s. pb_enc_varint s field)
         else if t = PB_LTYPE_UVARINT then scalar (data_size field) (\<lambda>s. pb_enc_uvarint s field)
         else if t = PB_LTYPE_SVARINT then scalar (data_size field) (\<lambda>s. pb_enc_svarint s field)
         else if t = PB_LTYPE_FIXED32 then scalar 4 pb_enc_fixed32
         else if t = PB_LTYPE_FIXED64 then scalar 8 pb_enc_fixed64
         else if t = PB_LTYPE_BYTES
         then if p = 0 then enc_call (\<lambda>s. pb_enc_bytes s field None)
              else enc_read mem (\<lambda>src. if bytes_readable field src
                                       then enc_call (\<lambda>s. pb_enc_bytes s field (Some src)) else (\<lambda>_. None))
         else if t = PB_LTYPE_STRING
         then if p = 0 then enc_call (\<lambda>s. pb_enc_string s field None)
              else enc_read mem (\<lambda>src. if string_readable field src
                                       then enc_call (\<lambda>s. pb_enc_string s field (Some src)) else (\<lambda>_. None))
         else if t = PB_LTYPE_SUBMESSAGE
         then pb_enc_submessage env sub field p
         else if t = PB_LTYPE_FIXED_LENGTH_BYTES
         then scalar (data_size field) (\<lambda>s. pb_enc_fixed_length_bytes s field)
         else (\<lambda>_. None))"

section \<open>Arrays\<close>

text \<open>The entries from address \<open>p\<close> on, \<open>count\<close> of them, \<open>data_size\<close> bytes apart.\<close>

fun enc_entries :: "(int \<Rightarrow> 'o encoder) \<Rightarrow> nat \<Rightarrow> nat \<Rightarrow> int \<Rightarrow> 'o encoder" where
  "enc_entries f width 0 p = enc_ok"
| "enc_entries f width (Suc n) p = enc_seq (f p) (enc_entries f width n (p + int width))"

definition packed_size :: "int pb_field \<Rightarrow> nat \<Rightarrow> 'o encoder \<Rightarrow> (nat option) option" where
  "packed_size field n entries =
     (if PB_LTYPE (ftype field) = PB_LTYPE_FIXED32 then Some (Some (size_t (4 * n)))
      else if PB_LTYPE (ftype field) = PB_LTYPE_FIXED64 then Some (Some (size_t (8 * n)))
      else case entries PB_OSTREAM_SIZING of
          None \<Rightarrow> None
        | Some (ok, sizestream) \<Rightarrow> Some (if ok then Some (bytes_written sizestream) else None))"

definition encode_array ::
  "'o enc_env \<Rightarrow> (int pb_field list \<Rightarrow> int \<Rightarrow> 'o encoder) \<Rightarrow>
    int pb_field \<Rightarrow> int \<Rightarrow> nat \<Rightarrow> 'o encoder" where
  "encode_array env sub field p n =
     (if n = 0 then enc_ok
      else if PB_ATYPE (ftype field) \<noteq> PB_ATYPE_POINTER \<and> array_size field < n
      then enc_fail ''array max size exceeded''
      else if PB_LTYPE (ftype field) \<le> PB_LTYPE_LAST_PACKABLE
      then let entries = enc_entries (enc_value env sub field) (data_size field) n p
           in enc_seq (enc_call (\<lambda>s. pb_encode_tag s PB_WT_STRING (tag field)))
                (enc_read (packed_size field n entries)
                   (\<lambda>sz. case sz of
                      None \<Rightarrow> (\<lambda>s. Some (False, s))
                    | Some sz \<Rightarrow>
                        enc_seq (enc_call (\<lambda>s. pb_encode_varint s (of_nat sz)))
                          (\<lambda>s. if is_sizing s then Some (True, s\<lparr> bytes_written := size_t (bytes_written s + sz) \<rparr>)
                               else entries s)))
      else enc_entries
             (\<lambda>p. enc_seq (enc_call (\<lambda>s. pb_encode_tag_for_field s field))
                (if PB_ATYPE (ftype field) = PB_ATYPE_POINTER \<and>
                    (PB_LTYPE (ftype field) = PB_LTYPE_STRING \<or> PB_LTYPE (ftype field) = PB_LTYPE_BYTES)
                 then enc_read (load_ptr (env_heap env) p) (enc_value env sub field)
                 else enc_value env sub field p))
             (data_size field) n p)"

section \<open>Fields\<close>

text \<open>
  The \<open>do ... while (pb_field_iter_next(&iter))\<close> loops, over the fields of the descriptor array from
  the current one on, with as much fuel as the array has entries.
\<close>

fun default_loop :: "(int pb_field \<Rightarrow> int \<Rightarrow> bool option) \<Rightarrow> nat \<Rightarrow> int pb_field_iter \<Rightarrow> bool option" where
  "default_loop check 0 iter = None"
| "default_loop check (Suc fuel) iter =
     (case check (cur_field iter) (pData iter) of
        None \<Rightarrow> None
      | Some False \<Rightarrow> Some False
      | Some True \<Rightarrow> (case pb_field_iter_next iter of
                        (True, iter) \<Rightarrow> default_loop check fuel iter
                      | (False, _) \<Rightarrow> Some True))"

fun pb_check_proto3_default_value :: "'o enc_env \<Rightarrow> nat \<Rightarrow> int pb_field \<Rightarrow> int \<Rightarrow> bool option" where
  "pb_check_proto3_default_value env 0 field p = None"
| "pb_check_proto3_default_value env (Suc fuel) field p =
     (let h = env_heap env; size = p + size_offset field;
          htype = PB_HTYPE (ftype field); atype = PB_ATYPE (ftype field); ltype = PB_LTYPE (ftype field)
      in if htype = PB_HTYPE_REQUIRED then Some False
         else if htype = PB_HTYPE_REPEATED \<and> size_offset field \<noteq> 0 then map_option (\<lambda>n. n = 0) (load_size h size)
         else if htype = PB_HTYPE_REPEATED \<and> atype = PB_ATYPE_STATIC then Some False
         else if htype = PB_HTYPE_ONEOF then map_option (\<lambda>n. n = 0) (load_size h size)
         else if htype = PB_HTYPE_OPTIONAL \<and> size_offset field \<noteq> 0 then map_option Not (load_bool h size)
         else if atype = PB_ATYPE_STATIC \<and> ltype = PB_LTYPE_BYTES then map_option (\<lambda>n. n = 0) (load_size h p)
         else if atype = PB_ATYPE_STATIC \<and> ltype = PB_LTYPE_STRING then map_option (\<lambda>c. c = 0) (load_mem h p 1)
         else if atype = PB_ATYPE_STATIC \<and> ltype = PB_LTYPE_FIXED_LENGTH_BYTES then Some (data_size field = 0)
         else if atype = PB_ATYPE_STATIC \<and> ltype = PB_LTYPE_SUBMESSAGE
         then (case env_fields env (ptr field) of
                 None \<Rightarrow> None
               | Some fs \<Rightarrow>
                   (case pb_field_iter_begin fs p of
                      (False, _) \<Rightarrow> Some True
                    | (True, iter) \<Rightarrow> default_loop (pb_check_proto3_default_value env fuel) (length fs) iter))
         else if atype = PB_ATYPE_POINTER \<and> PB_LTYPE_LAST_PACKABLE < ltype then map_option (\<lambda>q. q = 0) (load_ptr h p)
         else all_zero h p (data_size field))"

text \<open>
  \<open>PB_ENCODERS\<close> has eleven entries. \<open>pSize\<close> points to the local \<open>implicit_has\<close> when the field has no
  \<open>size_offset\<close>.
\<close>

definition PB_LTYPES_COUNT :: u8 where
  "PB_LTYPES_COUNT = 0x0b"

definition encode_basic_field ::
  "'o enc_env \<Rightarrow> (int pb_field list \<Rightarrow> int \<Rightarrow> 'o encoder) \<Rightarrow> (int pb_field \<Rightarrow> int \<Rightarrow> bool option) \<Rightarrow>
    int pb_field \<Rightarrow> int \<Rightarrow> 'o encoder" where
  "encode_basic_field env sub check field pd =
     (let h = env_heap env; htype = PB_HTYPE (ftype field); size = pd + size_offset field;
          one = (\<lambda>p. enc_seq (enc_call (\<lambda>s. pb_encode_tag_for_field s field)) (enc_value env sub field p))
      in if PB_LTYPES_COUNT \<le> PB_LTYPE (ftype field) then (\<lambda>_. None)
         else enc_read (if size_offset field = 0 \<and> htype = PB_HTYPE_OPTIONAL
                        then map_option Not (check field pd) else Some True) (\<lambda>implicit_has.
           enc_read (if is_pointer field then map_option (\<lambda>q. (q, q \<noteq> 0)) (load_ptr h pd)
                     else Some (pd, implicit_has)) (\<lambda>(p, implicit_has).
             if htype = PB_HTYPE_REQUIRED
             then if p = 0 then enc_fail ''missing required field'' else one p
             else if htype = PB_HTYPE_OPTIONAL
             then enc_read (if size_offset field \<noteq> 0 then load_bool h size else Some implicit_has)
                    (\<lambda>has. if has then one p else enc_ok)
             else if htype = PB_HTYPE_REPEATED
             then enc_read (if size_offset field \<noteq> 0 then load_size h size else Some (array_size field))
                    (\<lambda>n. encode_array env sub field p n)
             else if htype = PB_HTYPE_ONEOF
             then enc_read (if size_offset field \<noteq> 0 then load_size h size else None)
                    (\<lambda>which. if which = unat (tag field) then one p else enc_ok)
             else enc_fail ''invalid field type'')))"

text \<open>A \<open>pb_callback_t\<close>: the function pointer, then the argument.\<close>

definition encode_callback_field :: "'o enc_env \<Rightarrow> int pb_field \<Rightarrow> int \<Rightarrow> 'o encoder" where
  "encode_callback_field env field p =
     enc_read (load_ptr (env_heap env) p) (\<lambda>f.
       if f = 0 then enc_ok
       else enc_call (\<lambda>s. case env_call env f s field (p + 8) of
                            (True, s) \<Rightarrow> (True, s)
                          | (False, s) \<Rightarrow> out_error ''callback error'' s))"

definition encode_field ::
  "'o enc_env \<Rightarrow> (int pb_field list \<Rightarrow> int \<Rightarrow> 'o encoder) \<Rightarrow> (int pb_field \<Rightarrow> int \<Rightarrow> bool option) \<Rightarrow>
    int pb_field \<Rightarrow> int \<Rightarrow> 'o encoder" where
  "encode_field env sub check field p =
     (let atype = PB_ATYPE (ftype field)
      in if atype = PB_ATYPE_STATIC \<or> atype = PB_ATYPE_POINTER then encode_basic_field env sub check field p
         else if atype = PB_ATYPE_CALLBACK then encode_callback_field env field p
         else enc_fail ''invalid field type'')"

text \<open>
  A \<open>pb_extension_t\<close> has its type, destination and successor at the offsets 0, 8 and 16, a
  \<open>pb_extension_type_t\<close> its decoder, encoder and argument.
\<close>

definition default_extension_encoder ::
  "'o enc_env \<Rightarrow> (int pb_field \<Rightarrow> int \<Rightarrow> 'o encoder) \<Rightarrow> int \<Rightarrow> 'o encoder" where
  "default_extension_encoder env enc ext =
     (let h = env_heap env
      in enc_read (load_ptr h ext) (\<lambda>ty. enc_read (load_ptr h (ty + 16)) (\<lambda>arg. enc_read (env_fields env arg) (\<lambda>fs.
           let field = fs ! 0
           in if is_pointer field then enc field (ext + 8)
              else enc_read (load_ptr h (ext + 8)) (\<lambda>dest. enc field dest)))))"

fun extension_loop ::
  "'o enc_env \<Rightarrow> (int pb_field \<Rightarrow> int \<Rightarrow> 'o encoder) \<Rightarrow> nat \<Rightarrow> int \<Rightarrow> 'o encoder" where
  "extension_loop env enc 0 ext = (\<lambda>_. None)"
| "extension_loop env enc (Suc fuel) ext =
     (if ext = 0 then enc_ok
      else let h = env_heap env
           in enc_read (load_ptr h ext) (\<lambda>ty. enc_read (load_ptr h (ty + 8)) (\<lambda>encode.
                enc_seq (if encode \<noteq> 0 then enc_call (\<lambda>s. env_ext_call env encode s ext)
                         else default_extension_encoder env enc ext)
                  (enc_read (load_ptr h (ext + 16)) (extension_loop env enc fuel)))))"

definition encode_extension_field ::
  "'o enc_env \<Rightarrow> (int pb_field \<Rightarrow> int \<Rightarrow> 'o encoder) \<Rightarrow> nat \<Rightarrow> int \<Rightarrow> 'o encoder" where
  "encode_extension_field env enc fuel p = enc_read (load_ptr (env_heap env) p) (extension_loop env enc fuel)"

section \<open>Messages\<close>

fun field_loop :: "(int pb_field \<Rightarrow> int \<Rightarrow> 'o encoder) \<Rightarrow> nat \<Rightarrow> int pb_field_iter \<Rightarrow> 'o encoder" where
  "field_loop enc 0 iter = (\<lambda>_. None)"
| "field_loop enc (Suc fuel) iter =
     enc_seq (enc (cur_field iter) (pData iter))
       (case pb_field_iter_next iter of (True, iter) \<Rightarrow> field_loop enc fuel iter | (False, _) \<Rightarrow> enc_ok)"

fun pb_encode :: "'o enc_env \<Rightarrow> nat \<Rightarrow> int pb_field list \<Rightarrow> int \<Rightarrow> 'o encoder" where
  "pb_encode env 0 fs p = (\<lambda>_. None)"
| "pb_encode env (Suc fuel) fs p =
     (case pb_field_iter_begin fs p of
        (False, _) \<Rightarrow> enc_ok
      | (True, iter) \<Rightarrow>
          let enc = encode_field env (pb_encode env fuel) (pb_check_proto3_default_value env fuel)
          in field_loop (\<lambda>field p. if PB_LTYPE (ftype field) = PB_LTYPE_EXTENSION
                                   then encode_extension_field env enc fuel p else enc field p)
               (length fs) iter)"

definition pb_encode_delimited :: "'o enc_env \<Rightarrow> nat \<Rightarrow> int pb_field list \<Rightarrow> int \<Rightarrow> 'o encoder" where
  "pb_encode_delimited env fuel fs p = pb_encode_submessage (pb_encode env fuel fs p)"

definition pb_encode_nullterminated :: "'o enc_env \<Rightarrow> nat \<Rightarrow> int pb_field list \<Rightarrow> int \<Rightarrow> 'o encoder" where
  "pb_encode_nullterminated env fuel fs p = enc_seq (pb_encode env fuel fs p) (enc_call (\<lambda>s. pb_write s [0]))"

definition pb_get_encoded_size :: "'o enc_env \<Rightarrow> nat \<Rightarrow> int pb_field list \<Rightarrow> int \<Rightarrow> nat option option" where
  "pb_get_encoded_size env fuel fs p =
     map_option (\<lambda>(ok, s). if ok then Some (bytes_written s) else None) (pb_encode env fuel fs p PB_OSTREAM_SIZING)"

end
