(* ===== verification/PbExact.thy ===== *)
theory PbExact
  imports PbEncode
begin

text \<open>
  The exactness of the encoder: what a sizing stream counts is what a buffer stream receives, for
  whole messages. An encoder \<open>emits\<close> a byte string if on a sizing stream it counts its length
  and on a buffer stream it writes it, or, where there is no room, a prefix of it, and fails. Lengths
  are below two to the 63.
\<close>

definition live :: "'o pb_ostream \<Rightarrow> bool" where
  "live s \<longleftrightarrow> (\<exists>d. out_sink s = OutBuffer d) \<and> bytes_written s \<le> max_size s \<and> max_size s < 2 ^ 63"

definition sizing :: "'o pb_ostream \<Rightarrow> bool" where
  "sizing s \<longleftrightarrow> out_sink s = Sizing \<and> bytes_written s \<le> SIZE_MAX"

definition writes :: "'o encoder \<Rightarrow> u8 list \<Rightarrow> 'o pb_ostream \<Rightarrow> bool" where
  "writes e bs s \<longleftrightarrow> (\<exists>s' c. e s = Some (length bs \<le> out_room s, s') \<and>
     c \<le> length bs \<and> c \<le> out_room s \<and> (length bs \<le> out_room s \<longrightarrow> c = length bs) \<and>
     out_sink s' = OutBuffer (out_bytes s @ take c bs) \<and> bytes_written s' = bytes_written s + c \<and>
     max_size s' = max_size s)"

definition sizes :: "'o encoder \<Rightarrow> nat \<Rightarrow> bool" where
  "sizes e n \<longleftrightarrow> (\<forall>s. sizing s \<longrightarrow> e s = Some (True, s\<lparr> bytes_written := size_t (bytes_written s + n) \<rparr>))"

text \<open>\<open>d\<close>: the memory that is read exists.\<close>

definition fills :: "'o encoder \<Rightarrow> u8 list \<Rightarrow> bool \<Rightarrow> bool" where
  "fills e bs d \<longleftrightarrow> (length bs < 2 ^ 63 \<longrightarrow>
     (\<forall>s. live s \<longrightarrow> (e s = None \<and> \<not> d) \<or> (writes e bs s \<and> (d \<or> out_room s < length bs))))"

definition emits :: "'o encoder \<Rightarrow> u8 list \<Rightarrow> bool \<Rightarrow> bool" where
  "emits e bs d \<longleftrightarrow> sizes e (length bs) \<and> fills e bs d"

definition predictable :: "'o encoder \<Rightarrow> bool" where
  "predictable e \<longleftrightarrow>
     (\<forall>s s'. sizing s \<longrightarrow> e s = Some (True, s') \<longrightarrow> (\<exists>bs d. emits e bs d))"

lemma size_t_below: "size_t n < 2 ^ 64" by (simp add: size_t_def)

lemma live_bytes: "live s \<Longrightarrow> out_sink s = OutBuffer (out_bytes s)"
  by (auto simp: live_def out_bytes_def)

lemma writesI:
  assumes "e s = Some (True, s')" "length bs \<le> out_room s" "out_sink s' = OutBuffer (out_bytes s @ bs)"
    and "bytes_written s' = bytes_written s + length bs" "max_size s' = max_size s"
  shows "writes e bs s"
  unfolding writes_def using assms by (intro exI [of _ s'] exI [of _ "length bs"]) simp

lemma writes_full:
  assumes "writes e bs s" "length bs \<le> out_room s" "live s"
  obtains s' where "e s = Some (True, s')" "live s'" "out_bytes s' = out_bytes s @ bs"
    "bytes_written s' = bytes_written s + length bs" "max_size s' = max_size s"
    "out_room s' = out_room s - length bs"
proof -
  from assms(1,2) obtain s' where s': "e s = Some (True, s')" "out_sink s' = OutBuffer (out_bytes s @ bs)"
    "bytes_written s' = bytes_written s + length bs" "max_size s' = max_size s"
    by (auto simp: writes_def)
  have "live s'" using s' assms(2,3) unfolding live_def out_room_def by auto
  then show ?thesis using s' by (intro that [of s']) (simp_all add: out_bytes_def out_room_def)
qed

lemma writes_short:
  assumes "writes e bs s" "out_room s < length bs"
  obtains s' c where "e s = Some (False, s')" "c \<le> out_room s"
    "out_sink s' = OutBuffer (out_bytes s @ take c bs)" "bytes_written s' = bytes_written s + c"
    "max_size s' = max_size s"
  using assms by (auto simp: writes_def)

lemma writes_shortI:
  assumes "e s = Some (False, s')" "out_room s < length bs" "c \<le> out_room s"
    "out_sink s' = OutBuffer (out_bytes s @ take c bs)" "bytes_written s' = bytes_written s + c"
    "max_size s' = max_size s"
  shows "writes e bs s"
  unfolding writes_def using assms by (intro exI [of _ s'] exI [of _ c]) simp

section \<open>Closure\<close>

lemma fills_cases:
  assumes "fills e bs d" "length bs < 2 ^ 63" "live s"
  obtains (none) "e s = None" "\<not> d" | (short) "writes e bs s" "out_room s < length bs"
    | (full) "writes e bs s" "length bs \<le> out_room s" d
  using assms unfolding fills_def by (meson not_le)

lemma emits_ok: "emits enc_ok [] True"
proof -
  have "writes enc_ok [] s" if "live s" for s :: "'a pb_ostream"
    using live_bytes [OF that] by (intro writesI [of _ s s]) (simp_all add: enc_ok_def)
  then show ?thesis
    by (simp add: emits_def sizes_def fills_def sizing_def enc_ok_def size_t_id)
qed

lemma pb_write_live:
  assumes "live s" "length bs < 2 ^ 63"
  shows "writes (enc_call (\<lambda>s. pb_write s bs)) bs s"
proof -
  from assms have s: "out_sink s = OutBuffer (out_bytes s)" "bytes_written s \<le> max_size s" "max_size s < 2 ^ 63"
    using live_bytes by (auto simp: live_def)
  have z: "size_t (bytes_written s + length bs) = bytes_written s + length bs"
    using s assms(2) by (intro size_t_id) (simp add: SIZE_MAX_def)
  show ?thesis
  proof (cases "length bs \<le> out_room s")
    case True
    then have "\<not> max_size s < bytes_written s + length bs" using s unfolding out_room_def by linarith
    then have "pb_write s bs = (True, s\<lparr> out_sink := OutBuffer (out_bytes s @ bs), bytes_written := bytes_written s + length bs \<rparr>)"
      using s z by (cases "bs = []") (simp_all add: pb_write_def is_sizing_def out_callback_def buf_write_def Let_def)
    then show ?thesis using True
      by (intro writesI [of _ s "s\<lparr> out_sink := OutBuffer (out_bytes s @ bs), bytes_written := bytes_written s + length bs \<rparr>"])
        (simp_all add: enc_call_def)
  next
    case False
    then have f: "max_size s < bytes_written s + length bs" "0 < length bs" using s unfolding out_room_def by auto
    then have "pb_write s bs = out_error ''stream full'' s"
      using s z by (simp add: pb_write_def is_sizing_def Let_def out_error_def)
    then show ?thesis using False s
      by (intro writes_shortI [of _ s "snd (out_error ''stream full'' s)" bs 0]) (simp_all add: enc_call_def out_error_def)
  qed
qed

lemma emits_write: "emits (enc_call (\<lambda>s. pb_write s bs)) bs True"
  by (simp add: emits_def sizes_def fills_def pb_write_live) (simp add: sizing_def enc_call_def pb_write_sizing)

lemma sizes_seq:
  assumes "sizes e1 m" "sizes e2 n"
  shows "sizes (enc_seq e1 e2) (m + n)"
proof -
  have "size_t (size_t (a + m) + n) = size_t (a + (m + n))" for a by (simp add: size_t_def mod_simps add.assoc)
  then show ?thesis using assms by (simp add: sizes_def sizing_def enc_seq_def size_t_le)
qed

lemma fills_seq:
  assumes 1: "fills e1 b1 d1" and 2: "fills e2 b2 d2"
  shows "fills (enc_seq e1 e2) (b1 @ b2) (d1 \<and> d2)"
  unfolding fills_def
proof (intro impI allI)
  fix s :: "'a pb_ostream" assume len: "length (b1 @ b2) < 2 ^ 63" and s: "live s"
  let ?e = "enc_seq e1 e2"
  from len have l: "length b1 < 2 ^ 63" "length b2 < 2 ^ 63" by simp_all
  show "?e s = None \<and> \<not> (d1 \<and> d2) \<or> writes ?e (b1 @ b2) s \<and> (d1 \<and> d2 \<or> out_room s < length (b1 @ b2))"
    using 1 l(1) s
  proof (cases rule: fills_cases)
    case none
    then show ?thesis by (simp add: enc_seq_def)
  next
    case short
    from writes_short [OF this] obtain s' c where s': "e1 s = Some (False, s')" "c \<le> out_room s"
      "out_sink s' = OutBuffer (out_bytes s @ take c b1)" "bytes_written s' = bytes_written s + c" "max_size s' = max_size s" .
    have "writes ?e (b1 @ b2) s"
      using s' short(2) by (intro writes_shortI [of _ s s' _ c]) (simp_all add: enc_seq_def)
    then show ?thesis using short(2) by simp
  next
    case full
    from writes_full [OF full(1,2) s] obtain t where t: "e1 s = Some (True, t)" "live t" "out_bytes t = out_bytes s @ b1"
      "bytes_written t = bytes_written s + length b1" "max_size t = max_size s" "out_room t = out_room s - length b1" .
    have e: "?e s = e2 t" using t(1) by (simp add: enc_seq_def)
    show ?thesis
      using 2 l(2) t(2)
    proof (cases rule: fills_cases)
      case none
      then show ?thesis by (simp add: e)
    next
      case short
      from writes_short [OF this] obtain u c where u: "e2 t = Some (False, u)" "c \<le> out_room t"
        "out_sink u = OutBuffer (out_bytes t @ take c b2)" "bytes_written u = bytes_written t + c" "max_size u = max_size t" .
      have "writes ?e (b1 @ b2) s" using u t short(2) full(2) e
        by (intro writes_shortI [of _ s u _ "length b1 + c"]) simp_all
      moreover have "out_room s < length (b1 @ b2)" using short(2) t(6) full(2) by simp
      ultimately show ?thesis by simp
    next
      case inner: full
      from writes_full [OF inner(1,2) t(2)] obtain u where "e2 t = Some (True, u)" "live u" "out_bytes u = out_bytes t @ b2"
        "bytes_written u = bytes_written t + length b2" "max_size u = max_size t" .
      then have "writes ?e (b1 @ b2) s" using t full(2) inner(2) e live_bytes [of u]
        by (intro writesI [of _ s u]) simp_all
      then show ?thesis using full(3) inner(3) by simp
    qed
  qed
qed

lemma emits_seq: "emits e1 b1 d1 \<Longrightarrow> emits e2 b2 d2 \<Longrightarrow> emits (enc_seq e1 e2) (b1 @ b2) (d1 \<and> d2)"
  using sizes_seq [of e1 "length b1" e2 "length b2"] fills_seq by (auto simp: emits_def)

named_theorems predict

lemma emits_predictable: "emits e bs d \<Longrightarrow> predictable e"
  by (auto simp: predictable_def)

lemma predictable_ok [predict]: "predictable enc_ok"
  using emits_ok by (rule emits_predictable)

lemma predictable_write [predict]: "predictable (enc_call (\<lambda>s. pb_write s bs))"
  using emits_write by (rule emits_predictable)

lemma predictable_fail [predict]: "predictable (enc_fail msg)" "predictable (enc_call (out_error msg))"
  by (simp_all add: predictable_def enc_fail_def enc_call_def out_error_def)

lemma predictable_undefined [predict]: "predictable (\<lambda>_. None)"
  by (simp add: predictable_def)

lemma predictable_read [predict]: "(\<And>v. r = Some v \<Longrightarrow> predictable (k v)) \<Longrightarrow> predictable (enc_read r k)"
  by (cases r) (auto simp: predictable_def enc_read_def [abs_def])

lemma predictable_seq [predict]:
  assumes "predictable e1" "predictable e2"
  shows "predictable (enc_seq e1 e2)"
  unfolding predictable_def
proof (intro allI impI)
  fix s s' :: "'a pb_ostream" assume s: "sizing s" and e: "enc_seq e1 e2 s = Some (True, s')"
  from e obtain t where t: "e1 s = Some (True, t)" "e2 t = Some (True, s')"
    by (auto simp: enc_seq_def split: option.splits prod.splits if_splits)
  from assms(1) s t(1) obtain b1 d1 where 1: "emits e1 b1 d1" by (auto simp: predictable_def)
  then have "sizing t" using s t(1) by (auto simp: emits_def sizes_def sizing_def size_t_le)
  with assms(2) t(2) obtain b2 d2 where "emits e2 b2 d2" by (auto simp: predictable_def)
  with 1 emits_seq show "\<exists>bs d. emits (enc_seq e1 e2) bs d" by blast
qed

lemma predictable_if [predict]:
  "(b \<Longrightarrow> predictable e1) \<Longrightarrow> (\<not> b \<Longrightarrow> predictable e2) \<Longrightarrow> predictable (if b then e1 else e2)"
  by simp

section \<open>Submessages\<close>

definition framed :: "u8 list \<Rightarrow> u8 list" where
  "framed bs = varint_bytes (size_t (length bs)) @ bs"

lemma varint_call: "n < 2 ^ 64 \<Longrightarrow> pb_encode_varint s (of_nat n) = pb_write s (varint_bytes n)"
  by (simp add: pb_encode_varint_bytes unat_of_nat)

lemma is_sizing_live: "live s \<Longrightarrow> \<not> is_sizing s"
  by (auto simp: live_def is_sizing_def)

lemma predictable_submessage [predict]:
  assumes "predictable e"
  shows "predictable (pb_encode_submessage e)"
  unfolding predictable_def
proof (intro allI impI)
  fix s s' :: "'a pb_ostream" assume "sizing s" and r: "pb_encode_submessage e s = Some (True, s')"
  let ?z = "PB_OSTREAM_SIZING :: 'a pb_ostream"
  have z: "sizing ?z" by (simp add: sizing_def PB_OSTREAM_SIZING_def)
  from r obtain sub where "e ?z = Some (True, sub)"
    by (auto simp: pb_encode_submessage_def split: option.splits prod.splits bool.splits)
  with assms z obtain bs d where em: "emits e bs d" by (auto simp: predictable_def)
  let ?n = "size_t (length bs)"
  have sub: "e ?z = Some (True, ?z\<lparr> bytes_written := ?n \<rparr>)"
    using em z by (simp add: emits_def sizes_def PB_OSTREAM_SIZING_def)
  let ?rest = "submessage_body e ?n"
  have split: "pb_encode_submessage e = enc_seq (enc_call (\<lambda>s. pb_write s (varint_bytes ?n))) ?rest"
    by (rule ext) (simp add: pb_encode_submessage_def sub varint_call [OF size_t_below] Let_def)
  have sz: "sizes ?rest (length bs)"
    by (auto simp: sizes_def sizing_def submessage_body_def is_sizing_def) (simp add: size_t_def mod_simps)
  have "fills ?rest bs d"
    unfolding fills_def
  proof (intro impI allI)
    fix s :: "'a pb_ostream" assume len: "length bs < 2 ^ 63" and s: "live s"
    have n: "?n = length bs" using len by (intro size_t_id) (simp add: SIZE_MAX_def)
    have s': "out_sink s = OutBuffer (out_bytes s)" "bytes_written s \<le> max_size s" "max_size s < 2 ^ 63"
      using s live_bytes by (auto simp: live_def)
    have w: "size_t (bytes_written s + length bs) = bytes_written s + length bs"
      using s' len by (intro size_t_id) (simp add: SIZE_MAX_def)
    have z: "is_sizing s = False" using is_sizing_live [OF s] by simp
    show "?rest s = None \<and> \<not> d \<or> writes ?rest bs s \<and> (d \<or> out_room s < length bs)"
    proof (cases "length bs \<le> out_room s")
      case False
      then have "?rest s = Some (False, snd (out_error ''stream full'' s))"
        using s' unfolding submessage_body_def n z w by (auto simp: out_room_def enc_fail_def out_error_def)
      then have "writes ?rest bs s" using False s'
        by (intro writes_shortI [of _ s "snd (out_error ''stream full'' s)" bs 0]) (auto simp: out_error_def)
      then show ?thesis using False by simp
    next
      case True
      let ?t = "s\<lparr> max_size := length bs, bytes_written := 0, out_errmsg := None \<rparr>"
      have t: "live ?t" "out_room ?t = length bs" "out_bytes ?t = out_bytes s"
        using s' len by (auto simp: live_def out_room_def out_bytes_def)
      have room: "\<not> max_size s < bytes_written s + length bs" using True s' by (auto simp: out_room_def)
      have f: "fills e bs d" using em by (simp add: emits_def)
      show ?thesis
        using f len t(1)
      proof (cases rule: fills_cases)
        case none
        then show ?thesis using room unfolding submessage_body_def n z w by simp
      next
        case short
        then show ?thesis by (simp add: t)
      next
        case full
        obtain u where u: "e ?t = Some (True, u)" "out_bytes u = out_bytes ?t @ bs" "live u"
          "bytes_written u = bytes_written ?t + length bs"
          by (rule writes_full [OF full(1) _ t(1)]) (simp_all add: t)
        have "?rest s = Some (True, s\<lparr> bytes_written := bytes_written s + length bs, out_sink := out_sink u, out_errmsg := out_errmsg u \<rparr>)"
          using room u unfolding submessage_body_def n z w by (simp add: Let_def w)
        then have "writes ?rest bs s" using True u(2) live_bytes [OF u(3)] t(3)
          by (intro writesI [of ?rest s "s\<lparr> bytes_written := bytes_written s + length bs, out_sink := out_sink u, out_errmsg := out_errmsg u \<rparr>"])
            simp_all
        then show ?thesis using full(3) by simp
      qed
    qed
  qed
  with sz have "emits ?rest bs d" by (simp add: emits_def)
  from emits_seq [OF emits_write this] show "\<exists>bs d. emits (pb_encode_submessage e) bs d" unfolding split by blast
qed

section \<open>Values\<close>

lemma predictable_call_if [predict]:
  "predictable (enc_call f) \<Longrightarrow> predictable (enc_call g) \<Longrightarrow> predictable (enc_call (\<lambda>s. if b then f s else g s))"
  by (cases b) simp_all

lemma predictable_varint [predict]: "predictable (enc_call (\<lambda>s. pb_encode_varint s v))"
  unfolding pb_encode_varint_bytes by (rule predictable_write)

lemma predictable_svarint [predict]: "predictable (enc_call (\<lambda>s. pb_encode_svarint s v))"
  unfolding pb_encode_svarint_bytes by (rule predictable_write)

lemma predictable_fixed [predict]:
  "predictable (enc_call (\<lambda>s. pb_encode_fixed32 s v))" "predictable (enc_call (\<lambda>s. pb_encode_fixed64 s w))"
  unfolding pb_encode_fixed_bytes by (rule predictable_write)+

lemma predictable_tag [predict]: "predictable (enc_call (\<lambda>s. pb_encode_tag s wt n))"
  unfolding pb_encode_tag_def by (rule predictable_varint)

lemma predictable_tag_for_field [predict]: "predictable (enc_call (\<lambda>s. pb_encode_tag_for_field s field))"
  unfolding pb_encode_tag_for_field_def Let_def by (intro predict)

lemma string_call:
  "enc_call (\<lambda>s. pb_encode_string s body n) =
    enc_seq (enc_call (\<lambda>s. pb_encode_varint s (of_nat n))) (enc_call (\<lambda>s. pb_write s (take n body)))"
  by (rule ext) (simp add: enc_call_def enc_seq_def pb_encode_string_def then_do_def split: prod.split)

lemma predictable_string [predict]: "predictable (enc_call (\<lambda>s. pb_encode_string s body n))"
  unfolding string_call by (intro predict)

lemma predictable_scalars [predict]:
  "predictable (enc_call (\<lambda>s. pb_enc_bool s src))"
  "predictable (enc_call (\<lambda>s. pb_enc_varint s field src))"
  "predictable (enc_call (\<lambda>s. pb_enc_uvarint s field src))"
  "predictable (enc_call (\<lambda>s. pb_enc_svarint s field src))"
  "predictable (enc_call (\<lambda>s. pb_enc_fixed32 s src))"
  "predictable (enc_call (\<lambda>s. pb_enc_fixed64 s src))"
  "predictable (enc_call (\<lambda>s. pb_enc_string s field r))"
  "predictable (enc_call (\<lambda>s. pb_enc_fixed_length_bytes s field src))"
  unfolding pb_enc_bool_def pb_enc_varint_def pb_enc_uvarint_def pb_enc_svarint_def pb_enc_fixed32_def pb_enc_fixed64_def
    pb_enc_string_def pb_enc_fixed_length_bytes_def Let_def
  by (intro predict)+

lemma predictable_bytes [predict]: "predictable (enc_call (\<lambda>s. pb_enc_bytes s field r))"
  by (cases r) (simp_all add: pb_enc_bytes_def Let_def predict del: if_split)

lemma predictable_enc_value [predict]:
  assumes "\<And>fs p. predictable (sub fs p)"
  shows "predictable (enc_value env sub field p)"
  unfolding enc_value_def pb_enc_submessage_def Let_def
  by (intro predict assms)

section \<open>Arrays\<close>

lemma predictable_entries [predict]:
  "(\<And>p. predictable (f p)) \<Longrightarrow> predictable (enc_entries f width n p)"
  by (induction n arbitrary: p) (simp_all add: predict)

text \<open>Entries of a fixed width are not visited for sizing.\<close>

lemma fills_undefined: "fills (\<lambda>_. None) bs False"
  by (simp add: fills_def)

lemma fixed_entry_fills:
  assumes "PB_LTYPE (ftype field) = PB_LTYPE_FIXED32 \<and> k = 4 \<or> PB_LTYPE (ftype field) = PB_LTYPE_FIXED64 \<and> k = 8"
  shows "\<exists>bs d. length bs = k \<and> fills (enc_value env sub field p) bs d"
proof (cases "\<exists>src. region (env_heap env) p = Some src \<and> k \<le> length src")
  case True
  then obtain src where r: "region (env_heap env) p = Some src" "k \<le> length src" by blast
  define bs where "bs = (if k = 4 then fixed32_bytes (of_nat (load 4 src)) else fixed64_bytes (of_nat (load 8 src)))"
  have "enc_value env sub field p = enc_call (\<lambda>s. pb_write s bs)"
    using assms r unfolding bs_def by (rule_tac ext)
      (auto simp: enc_value_def enc_read_def pb_enc_fixed32_def pb_enc_fixed64_def pb_encode_fixed_bytes enc_call_def)
  moreover have "length bs = k" using assms by (auto simp: bs_def)
  ultimately show ?thesis by (intro exI [of _ bs] exI [of _ True]) (simp add: emits_write [unfolded emits_def])
next
  case False
  then have "enc_value env sub field p = (\<lambda>_. None)"
    using assms by (rule_tac ext) (auto simp: enc_value_def enc_read_def split: option.split)
  then show ?thesis using fills_undefined [of "replicate k 0"] by (intro exI [of _ "replicate k 0"]) auto
qed

lemma entries_fill:
  assumes "\<And>p. \<exists>bs d. length bs = k \<and> fills (f p) bs d"
  shows "\<exists>bs d. length bs = k * n \<and> fills (enc_entries f width n p) bs d"
proof (induction n arbitrary: p)
  case 0
  show ?case using emits_ok by (intro exI [of _ "[]"]) (auto simp: emits_def)
next
  case (Suc n)
  obtain b d where b: "length b = k" "fills (f p) b d" using assms by blast
  obtain bs e where bs: "length bs = k * n" "fills (enc_entries f width n (p + int width)) bs e" using Suc by blast
  show ?case using fills_seq [OF b(2) bs(2)] b(1) bs(1)
    by (intro exI [of _ "b @ bs"] exI [of _ "d \<and> e"]) simp
qed

text \<open>What follows the tag of a packed array.\<close>

lemma emits_packed:
  assumes "fills entries bs d"
  shows "emits (enc_seq (enc_call (\<lambda>s. pb_encode_varint s (of_nat (size_t (length bs)))))
    (\<lambda>s. if is_sizing s then Some (True, s\<lparr> bytes_written := size_t (bytes_written s + size_t (length bs)) \<rparr>) else entries s))
    (framed bs) d"
proof -
  let ?rest = "\<lambda>s. if is_sizing s then Some (True, s\<lparr> bytes_written := size_t (bytes_written s + size_t (length bs)) \<rparr>) else entries s"
  have "size_t (a + size_t b) = size_t (a + b)" for a b by (simp add: size_t_def mod_simps)
  then have "sizes ?rest (length bs)" by (simp add: sizes_def sizing_def is_sizing_def)
  moreover have "fills ?rest bs d" using assms by (simp add: fills_def writes_def is_sizing_live)
  ultimately have "emits ?rest bs d" by (simp add: emits_def)
  from emits_seq [OF emits_write this] show ?thesis
    by (simp add: varint_call [OF size_t_below] framed_def)
qed


lemma packed_fills:
  assumes "PB_LTYPE (ftype field) \<le> PB_LTYPE_LAST_PACKABLE" "\<And>fs p. predictable (sub fs p)"
    and "entries = enc_entries (enc_value env sub field) width n p" "packed_size field n entries = Some (Some sz)"
  shows "\<exists>bs d. sz = size_t (length bs) \<and> fills entries bs d"
proof -
  let ?t = "PB_LTYPE (ftype field)"
  have wide: ?thesis if k: "?t = PB_LTYPE_FIXED32 \<and> k = 4 \<or> ?t = PB_LTYPE_FIXED64 \<and> k = 8" for k :: nat
  proof -
    obtain bs d where "length bs = k * n" "fills entries bs d"
      using entries_fill [of k "enc_value env sub field" n width p, OF fixed_entry_fills [OF k]] assms(3) by blast
    moreover have "sz = size_t (k * n)" using k assms(4) by (auto simp: packed_size_def)
    ultimately show ?thesis by metis
  qed
  show ?thesis
  proof (cases "?t = PB_LTYPE_FIXED32 \<or> ?t = PB_LTYPE_FIXED64")
    case True
    then show ?thesis using wide by blast
  next
    case False
    let ?z = "PB_OSTREAM_SIZING :: 'a pb_ostream"
    from False assms(4) obtain z where z: "entries ?z = Some (True, z)" "sz = bytes_written z"
      by (auto simp: packed_size_def split: option.splits prod.splits if_splits)
    have "predictable entries" unfolding assms(3) by (intro predict assms(2))
    moreover have s: "sizing ?z" by (simp add: sizing_def PB_OSTREAM_SIZING_def)
    ultimately obtain bs d where e: "emits entries bs d" using z(1) by (auto simp: predictable_def)
    then have "entries ?z = Some (True, ?z\<lparr> bytes_written := size_t (length bs) \<rparr>)"
      using s by (simp add: emits_def sizes_def PB_OSTREAM_SIZING_def)
    then show ?thesis using z e by (auto simp: emits_def)
  qed
qed

lemma predictable_array [predict]:
  assumes "\<And>fs p. predictable (sub fs p)"
  shows "predictable (encode_array env sub field p n)"
proof -
  let ?entries = "enc_entries (enc_value env sub field) (data_size field) n p"
  have "predictable (case r of None \<Rightarrow> (\<lambda>s. Some (False, s))
      | Some sz \<Rightarrow> enc_seq (enc_call (\<lambda>s. pb_encode_varint s (of_nat sz)))
          (\<lambda>s. if is_sizing s then Some (True, s\<lparr> bytes_written := size_t (bytes_written s + sz) \<rparr>) else ?entries s))"
    if t: "PB_LTYPE (ftype field) \<le> PB_LTYPE_LAST_PACKABLE" and r: "packed_size field n ?entries = Some r" for r
  proof (cases r)
    case None
    then show ?thesis by (simp add: predictable_def)
  next
    case (Some sz)
    from packed_fills [OF t assms refl r [unfolded Some]] obtain bs d where "sz = size_t (length bs)" "fills ?entries bs d"
      by blast
    then show ?thesis using emits_predictable [OF emits_packed] Some by simp
  qed
  then show ?thesis
    unfolding encode_array_def Let_def by (intro predict assms) auto
qed

section \<open>Fields and messages\<close>

text \<open>
  What is asked of user callbacks: if one succeeds on a sizing stream, it writes the same bytes to
  any stream.
\<close>

definition steady :: "('o pb_ostream \<Rightarrow> bool \<times> 'o pb_ostream) \<Rightarrow> bool" where
  "steady f \<longleftrightarrow> (\<forall>s s'. sizing s \<longrightarrow> f s = (True, s') \<longrightarrow> (\<exists>bs. emits (enc_call f) bs True))"

definition env_steady :: "'o enc_env \<Rightarrow> bool" where
  "env_steady env \<longleftrightarrow> (\<forall>f field arg. steady (\<lambda>s. env_call env f s field arg)) \<and>
     (\<forall>f ext. steady (\<lambda>s. env_ext_call env f s ext))"

lemma steady_predictable: "steady f \<Longrightarrow> predictable (enc_call f)"
  unfolding steady_def predictable_def by (metis enc_call_def option.inject)

lemma predictable_callback [predict]:
  assumes "env_steady env"
  shows "predictable (encode_callback_field env field p)"
proof -
  have "predictable (enc_call (\<lambda>s. case f s of (True, s) \<Rightarrow> (True, s) | (False, s) \<Rightarrow> out_error msg s))" (is "predictable (enc_call ?g)")
    if f: "steady f" for f :: "'a pb_ostream \<Rightarrow> bool \<times> 'a pb_ostream" and msg
    unfolding predictable_def
  proof (intro allI impI)
    fix s s' assume s: "sizing s" and "enc_call ?g s = Some (True, s')"
    then have "f s = (True, s')" by (auto simp: enc_call_def out_error_def split: prod.splits bool.splits)
    with f s obtain bs where "emits (enc_call f) bs True" by (auto simp: steady_def)
    have sz: "sizes (enc_call ?g) (length bs)"
      using \<open>emits (enc_call f) bs True\<close> by (auto simp: emits_def sizes_def enc_call_def)
    have "writes (enc_call ?g) bs t" if "writes (enc_call f) bs t" for t
      using that unfolding writes_def enc_call_def by (cases "f t") (fastforce simp: out_error_def split: bool.split)
    then have "fills (enc_call ?g) bs True"
      using \<open>emits (enc_call f) bs True\<close> by (auto simp: emits_def fills_def)
    with sz show "\<exists>bs d. emits (enc_call ?g) bs d" by (auto simp: emits_def)
  qed
  then show ?thesis using assms
    unfolding encode_callback_field_def env_steady_def by (intro predict) auto
qed

lemma predictable_basic_field [predict]:
  assumes "\<And>fs p. predictable (sub fs p)"
  shows "predictable (encode_basic_field env sub check field p)"
  unfolding encode_basic_field_def Let_def
  by (intro predict assms) (auto intro!: predict assms split: prod.split)

lemma predictable_field [predict]:
  assumes "\<And>fs p. predictable (sub fs p)" "env_steady env"
  shows "predictable (encode_field env sub check field p)"
  unfolding encode_field_def Let_def by (intro predict assms)

lemma predictable_extensions [predict]:
  assumes "\<And>field p. predictable (enc field p)" "env_steady env"
  shows "predictable (encode_extension_field env enc fuel p)"
proof -
  have d: "predictable (default_extension_encoder env enc ext)" for ext
    unfolding default_extension_encoder_def Let_def by (intro predict assms)
  have c: "predictable (enc_call (\<lambda>s. env_ext_call env f s ext))" for f ext
    using assms(2) unfolding env_steady_def by (intro steady_predictable) blast
  have "predictable (extension_loop env enc fuel ext)" for ext
  proof (induction fuel arbitrary: ext)
    case 0
    show ?case by (simp add: predict)
  next
    case (Suc fuel)
    show ?case unfolding extension_loop.simps Let_def by (intro predict c d Suc)
  qed
  then show ?thesis unfolding encode_extension_field_def by (intro predict)
qed

lemma predictable_loop [predict]:
  "(\<And>field p. predictable (enc field p)) \<Longrightarrow> predictable (field_loop enc fuel iter)"
proof (induction fuel arbitrary: iter)
  case 0
  show ?case by (simp add: predict)
next
  case (Suc fuel)
  show ?case unfolding field_loop.simps
    by (cases "pb_field_iter_next iter"; cases "fst (pb_field_iter_next iter)") (simp_all add: predict Suc)
qed

lemma predictable_encode:
  "env_steady env \<Longrightarrow> predictable (pb_encode env fuel fs p)"
proof (induction fuel arbitrary: fs p)
  case 0
  show ?case by (simp add: predict)
next
  case (Suc fuel)
  show ?case unfolding pb_encode.simps Let_def
    by (cases "pb_field_iter_begin fs p"; cases "fst (pb_field_iter_begin fs p)")
      (auto intro!: predict Suc)
qed

section \<open>Properties\<close>

lemma live_from_buffer: "m < 2 ^ 63 \<Longrightarrow> live (pb_ostream_from_buffer m)"
  by (simp add: live_def pb_ostream_from_buffer_def)

lemma from_buffer_sel [simp]:
  "out_room (pb_ostream_from_buffer m) = m" "out_bytes (pb_ostream_from_buffer m) = []"
  "bytes_written (pb_ostream_from_buffer m) = 0" "max_size (pb_ostream_from_buffer m) = m"
  by (simp_all add: pb_ostream_from_buffer_def out_room_def out_bytes_def)

text \<open>
  C18. The size that \<open>pb_get_encoded_size\<close> computes for a message is exactly what \<open>pb_encode\<close> writes:
  with user callbacks that write the same every time, and all the memory the message refers to,
  encoding into a buffer succeeds if and only if the buffer has that many bytes, the bytes do not
  depend on the buffer, and one that is too small gets a prefix and is never overrun.
\<close>

theorem message_size_exact:
  fixes env :: "'o enc_env"
  assumes "env_steady env" "pb_get_encoded_size env fuel fs p = Some (Some n)"
    and "pb_encode env fuel fs p (pb_ostream_from_buffer n) \<noteq> None"
  shows "\<exists>bs. n = size_t (length bs) \<and> (length bs < 2 ^ 63 \<longrightarrow>
    (\<forall>m < 2 ^ 63. \<exists>s c. pb_encode env fuel fs p (pb_ostream_from_buffer m) = Some (n \<le> m, s) \<and>
       out_sink s = OutBuffer (take c bs) \<and> bytes_written s = c \<and> c \<le> m \<and> (n \<le> m \<longrightarrow> c = n)))"
proof -
  let ?e = "pb_encode env fuel fs p" and ?z = "PB_OSTREAM_SIZING :: 'o pb_ostream"
  have z: "sizing ?z" by (simp add: sizing_def PB_OSTREAM_SIZING_def)
  from assms(2) obtain t where t: "?e ?z = Some (True, t)" "bytes_written t = n"
    by (auto simp: pb_get_encoded_size_def split: if_splits)
  with predictable_encode [OF assms(1), of fuel fs p] z obtain bs d where em: "emits ?e bs d"
    by (auto simp: predictable_def)
  then have n: "n = size_t (length bs)" using t z by (auto simp: emits_def sizes_def PB_OSTREAM_SIZING_def)
  moreover have "\<exists>s c. ?e (pb_ostream_from_buffer m) = Some (n \<le> m, s) \<and>
       out_sink s = OutBuffer (take c bs) \<and> bytes_written s = c \<and> c \<le> m \<and> (n \<le> m \<longrightarrow> c = n)"
    if len: "length bs < 2 ^ 63" and m: "m < 2 ^ 63" for m
  proof -
    have nl: "n = length bs" unfolding n using len by (intro size_t_id) (simp add: SIZE_MAX_def)
    have f: "fills ?e bs d" using em by (simp add: emits_def)
    have d: "d" using fills_cases [OF f len live_from_buffer, of n] assms(3) len nl by fastforce
    have "writes ?e bs (pb_ostream_from_buffer m)"
      using fills_cases [OF f len live_from_buffer [OF m]] d by blast
    then show ?thesis using nl by (auto simp: writes_def)
  qed
  ultimately show ?thesis by blast
qed

text \<open>A message of one \<open>bool\<close>.\<close>

definition demo_message :: "int pb_field list" where
  "demo_message =
     [\<lparr> tag = 1, ftype = 0x00, data_offset = 0, size_offset = 0, data_size = 1, array_size = 0, ptr = 0 \<rparr>,
      \<lparr> tag = 0, ftype = 0x00, data_offset = 0, size_offset = 0, data_size = 0, array_size = 0, ptr = 0 \<rparr>]"

definition demo_env :: "unit enc_env" where
  "demo_env = \<lparr> env_heap = [(100, [1])], env_fields = (\<lambda>a. if a = 8 then Some demo_message else None),
                env_call = (\<lambda>_ s _ _. (True, s)), env_ext_call = (\<lambda>_ s _. (True, s)) \<rparr>"

lemma demo_encode: "pb_encode demo_env 1 demo_message 100 s =
    enc_seq (enc_call (\<lambda>s. pb_write s [8])) (enc_call (\<lambda>s. pb_write s [1])) s"
proof -
  have "PB_LTYPE 0 = 0" "PB_HTYPE 0 = 0" "PB_ATYPE 0 = 0" by (simp_all add: PB_LTYPE_def PB_HTYPE_def PB_ATYPE_def)
  moreover have "pb_encode_tag s PB_WT_VARINT 1 = pb_write s [8]" for s :: "unit pb_ostream"
    by (simp add: pb_encode_tag_bytes PB_WT_VARINT_def varint_bytes_short)
  moreover have "pb_encode_varint s 1 = pb_write s [1]" for s :: "unit pb_ostream"
    by (simp add: pb_encode_varint_def)
  ultimately show ?thesis
    by (simp add: demo_message_def demo_env_def pb_field_iter_begin_def pb_field_iter_next_def cur_field_def encode_field_def
        encode_basic_field_def PB_LTYPES_COUNT_def is_pointer_def enc_value_def region_def inside_def enc_read_def
        pb_encode_tag_for_field_def pb_enc_bool_def safe_read_bool_def enc_seq_def enc_call_def enc_ok_def Let_def
        split: option.split prod.split)
qed

lemma demo_steady: "env_steady demo_env"
proof -
  have "emits (enc_call (Pair True)) [] True" using emits_ok unfolding enc_ok_def [abs_def] enc_call_def [abs_def] .
  then show ?thesis by (auto simp: env_steady_def steady_def demo_env_def)
qed

theorem message_size_exact_witness:
  "\<exists>bs :: u8 list. 2 = size_t (length bs) \<and> (2 ^ 63 \<le> length bs \<or>
    ((\<exists>s. pb_encode demo_env 1 demo_message 100 (pb_ostream_from_buffer 1) = Some (False, s) \<and> bytes_written s \<le> 1) \<and>
     (\<exists>s. pb_encode demo_env 1 demo_message 100 (pb_ostream_from_buffer 5) = Some (True, s) \<and> bytes_written s = 2)))"
proof -
  have n: "pb_get_encoded_size demo_env 1 demo_message 100 = Some (Some 2)"
    by (simp add: pb_get_encoded_size_def demo_encode [simplified] enc_seq_def enc_call_def pb_write_sizing
        PB_OSTREAM_SIZING_def size_t_def)
  have d: "pb_encode demo_env 1 demo_message 100 (pb_ostream_from_buffer 2) \<noteq> None"
    by (simp add: demo_encode [simplified] enc_seq_def enc_call_def split: prod.split)
  from message_size_exact [OF demo_steady n d] obtain bs where bs: "2 = size_t (length bs)"
    "length bs < 2 ^ 63 \<Longrightarrow> \<forall>m < 2 ^ 63. \<exists>s c. pb_encode demo_env 1 demo_message 100 (pb_ostream_from_buffer m) = Some (2 \<le> m, s) \<and>
       out_sink s = OutBuffer (take c bs) \<and> bytes_written s = c \<and> c \<le> m \<and> (2 \<le> m \<longrightarrow> c = 2)" by blast
  show ?thesis
  proof (cases "length bs < 2 ^ 63")
    case True
    have "\<exists>s. pb_encode demo_env 1 demo_message 100 (pb_ostream_from_buffer 1) = Some (False, s) \<and> bytes_written s \<le> 1"
      using spec [OF bs(2) [OF True], of 1] by auto
    moreover have "\<exists>s. pb_encode demo_env 1 demo_message 100 (pb_ostream_from_buffer 5) = Some (True, s) \<and> bytes_written s = 2"
      using spec [OF bs(2) [OF True], of 5] by auto
    ultimately show ?thesis using bs(1) by blast
  next
    case False
    then show ?thesis using bs(1) by (intro exI [of _ bs]) simp
  qed
qed

section \<open>Termination\<close>

text \<open>
  Descriptor tables whose submessages have a lower rank than the message they are in, and no
  extension fields: what a generator makes of message types that do not contain themselves.
\<close>

definition ranked :: "'o enc_env \<Rightarrow> (int \<Rightarrow> nat) \<Rightarrow> bool" where
  "ranked env rk \<longleftrightarrow> (\<forall>a fs. env_fields env a = Some fs \<longrightarrow>
     (\<exists>n. message_fields n fs) \<and>
     (\<forall>f \<in> set fs. PB_LTYPE (ftype f) \<noteq> PB_LTYPE_EXTENSION \<and>
        (PB_LTYPE (ftype f) = PB_LTYPE_SUBMESSAGE \<longrightarrow> rk (ptr f) < rk a)))"

text \<open>The loops visit fields of the array only.\<close>

declare iter_at.simps [simp del]

lemma iter_in_array:
  assumes "message_fields n fs" "i < n"
  shows "cur_field (iter_at fs dest i) \<in> set fs"
  using iter_at_inside [OF assms, of dest] assms by (simp add: cur_field_def message_fields_def)

lemma field_loop_cong:
  assumes m: "message_fields n fs" and eq: "\<And>f q. f \<in> set fs \<Longrightarrow> enc f q = enc' f q"
  shows "i < n \<Longrightarrow> field_loop enc k (iter_at fs dest i) = field_loop enc' k (iter_at fs dest i)"
proof (induction k arbitrary: i)
  case 0
  then show ?case by simp
next
  case (Suc k)
  have c: "cur_field (iter_at fs dest i) \<in> set fs" by (rule iter_in_array [OF m Suc.prems])
  obtain b it where it: "pb_field_iter_next (iter_at fs dest i) = (b, it)" by fastforce
  with iter_at_next [OF m Suc.prems, of dest] have b: "b \<longleftrightarrow> Suc i \<noteq> n" "Suc i \<noteq> n \<Longrightarrow> it = iter_at fs dest (Suc i)" by simp_all
  show ?case
  proof (cases "Suc i = n")
    case True
    then show ?thesis using eq [OF c] it b by simp
  next
    case False
    then have "field_loop enc k it = field_loop enc' k it" using Suc.IH [of "Suc i"] Suc.prems b by simp
    then show ?thesis using eq [OF c] it b False by simp
  qed
qed

lemma default_loop_cong:
  assumes m: "message_fields n fs" and eq: "\<And>f q. f \<in> set fs \<Longrightarrow> check f q = check' f q"
  shows "i < n \<Longrightarrow> default_loop check k (iter_at fs dest i) = default_loop check' k (iter_at fs dest i)"
proof (induction k arbitrary: i)
  case 0
  then show ?case by simp
next
  case (Suc k)
  have c: "cur_field (iter_at fs dest i) \<in> set fs" by (rule iter_in_array [OF m Suc.prems])
  obtain b it where it: "pb_field_iter_next (iter_at fs dest i) = (b, it)" by fastforce
  with iter_at_next [OF m Suc.prems, of dest] have b: "b \<longleftrightarrow> Suc i \<noteq> n" "Suc i \<noteq> n \<Longrightarrow> it = iter_at fs dest (Suc i)" by simp_all
  show ?case
  proof (cases "Suc i = n")
    case True
    then show ?thesis using eq [OF c] it b by (simp split: option.split bool.split)
  next
    case False
    then have "default_loop check k it = default_loop check' k it" using Suc.IH [of "Suc i"] Suc.prems b by simp
    then show ?thesis using eq [OF c] it b False by (simp split: option.split bool.split)
  qed
qed

lemma begin_cases:
  assumes "message_fields n fs"
  obtains "pb_field_iter_begin fs p = (False, iter_at fs p 0)" "n = 0"
    | "pb_field_iter_begin fs p = (True, iter_at fs p 0)" "0 < n"
  using assms by (cases "n = 0") (auto simp: message_fields_def pb_field_iter_begin_def iter_at.simps Let_def)

lemma check_fuel:
  assumes r: "ranked env rk"
  shows "env_fields env a = Some fs \<Longrightarrow> f \<in> set fs \<Longrightarrow> rk a < k \<Longrightarrow> rk a < l \<Longrightarrow>
    pb_check_proto3_default_value env k f p = pb_check_proto3_default_value env l f p"
proof (induction "rk a" arbitrary: a fs f p k l rule: less_induct)
  case less
  obtain k' l' where k: "k = Suc k'" "l = Suc l'" using less.prems(3,4) by (cases k; cases l) auto
  have sub: "(case env_fields env (ptr f) of None \<Rightarrow> None
      | Some gs \<Rightarrow> (case pb_field_iter_begin gs p of (False, _) \<Rightarrow> Some True
          | (True, iter) \<Rightarrow> default_loop (pb_check_proto3_default_value env k') (length gs) iter)) =
    (case env_fields env (ptr f) of None \<Rightarrow> None
      | Some gs \<Rightarrow> (case pb_field_iter_begin gs p of (False, _) \<Rightarrow> Some True
          | (True, iter) \<Rightarrow> default_loop (pb_check_proto3_default_value env l') (length gs) iter))"
    if t: "PB_LTYPE (ftype f) = PB_LTYPE_SUBMESSAGE"
  proof (cases "env_fields env (ptr f)")
    case None
    then show ?thesis by simp
  next
    case (Some gs)
    have lt: "rk (ptr f) < rk a" using r less.prems t unfolding ranked_def by blast
    from r Some obtain n where n: "message_fields n gs" unfolding ranked_def by blast
    have eq: "pb_check_proto3_default_value env k' g q = pb_check_proto3_default_value env l' g q" if "g \<in> set gs" for g q
      using less.hyps [OF lt Some that, of k' l'] less.prems lt k by simp
    show ?thesis
    proof (cases rule: begin_cases [OF n, where p = p])
      case 2
      then show ?thesis using Some default_loop_cong [OF n eq 2(2), where k = "length gs" and dest = p] by simp
    qed (simp add: Some)
  qed
  show ?case
  proof (cases "PB_LTYPE (ftype f) = PB_LTYPE_SUBMESSAGE")
    case True
    show ?thesis unfolding k pb_check_proto3_default_value.simps Let_def sub [OF True] by (rule refl)
  next
    case False
    then show ?thesis unfolding k pb_check_proto3_default_value.simps Let_def by (simp only: False simp_thms if_False)
  qed
qed

lemma encode_field_cong:
  assumes "\<And>gs q. PB_LTYPE (ftype f) = PB_LTYPE_SUBMESSAGE \<Longrightarrow> env_fields env (ptr f) = Some gs \<Longrightarrow> sub gs q = sub' gs q"
    and "\<And>q. check f q = check' f q"
  shows "encode_field env sub check f p = encode_field env sub' check' f p"
proof -
  have "pb_enc_submessage env sub f q = pb_enc_submessage env sub' f q" if "PB_LTYPE (ftype f) = PB_LTYPE_SUBMESSAGE" for q
    using assms(1) that by (rule_tac ext) (cases "env_fields env (ptr f)", simp_all add: pb_enc_submessage_def enc_read_def)
  then have v: "enc_value env sub f q = enc_value env sub' f q" for q
    unfolding enc_value_def Let_def by (simp cong: if_cong)
  then have "enc_value env sub f = enc_value env sub' f" by blast
  then show ?thesis
    unfolding encode_field_def encode_basic_field_def encode_array_def Let_def assms(2) by (simp only:)
qed

text \<open>For descriptor tables with ranked submessages, more fuel than the rank of the message changes nothing.\<close>

lemma encode_fuel_enough:
  assumes "ranked env rk" "env_fields env a = Some fs" "rk a + 1 < fuel" "fuel \<le> fuel'"
  shows "pb_encode env fuel fs p = pb_encode env fuel' fs p \<and>
    pb_get_encoded_size env fuel fs p = pb_get_encoded_size env fuel' fs p \<and>
    (\<forall>f \<in> set fs. pb_check_proto3_default_value env fuel f q = pb_check_proto3_default_value env fuel' f q)"
proof -
  note r = assms(1)
  have e: "env_fields env a = Some fs \<Longrightarrow> rk a + 1 < k \<Longrightarrow> rk a + 1 < l \<Longrightarrow> pb_encode env k fs p = pb_encode env l fs p" for a fs p k l
  proof (induction "rk a" arbitrary: a fs p k l rule: less_induct)
    case less
    obtain k' l' where k: "k = Suc k'" "l = Suc l'" using less.prems(2,3) by (cases k; cases l) auto
    have k': "rk a < k'" "rk a < l'" using less.prems k by simp_all
    from r less.prems(1) obtain n where n: "message_fields n fs" unfolding ranked_def by blast
    have eq: "encode_field env (pb_encode env k') (pb_check_proto3_default_value env k') f q =
        encode_field env (pb_encode env l') (pb_check_proto3_default_value env l') f q" if f: "f \<in> set fs" for f q
    proof (rule encode_field_cong)
      fix gs q assume t: "PB_LTYPE (ftype f) = PB_LTYPE_SUBMESSAGE" and gs: "env_fields env (ptr f) = Some gs"
      have lt: "rk (ptr f) < rk a" using r less.prems f t unfolding ranked_def by blast
      show "pb_encode env k' gs q = pb_encode env l' gs q"
        using less.hyps [OF lt gs, of k' l'] lt k' by simp
    next
      fix q
      show "pb_check_proto3_default_value env k' f q = pb_check_proto3_default_value env l' f q"
        by (rule check_fuel [OF r less.prems(1) f k'])
    qed
    have ne: "PB_LTYPE (ftype f) \<noteq> PB_LTYPE_EXTENSION" if "f \<in> set fs" for f
      using r less.prems(1) that unfolding ranked_def by blast
    show ?case unfolding k
    proof (cases rule: begin_cases [OF n, where p = p])
      case 1
      then show "pb_encode env (Suc k') fs p = pb_encode env (Suc l') fs p" by simp
    next
      case 2
      have "field_loop (\<lambda>f p. if PB_LTYPE (ftype f) = PB_LTYPE_EXTENSION
              then encode_extension_field env (encode_field env (pb_encode env k') (pb_check_proto3_default_value env k')) k' p
              else encode_field env (pb_encode env k') (pb_check_proto3_default_value env k') f p) (length fs) (iter_at fs p 0) =
            field_loop (\<lambda>f p. if PB_LTYPE (ftype f) = PB_LTYPE_EXTENSION
              then encode_extension_field env (encode_field env (pb_encode env l') (pb_check_proto3_default_value env l')) l' p
              else encode_field env (pb_encode env l') (pb_check_proto3_default_value env l') f p) (length fs) (iter_at fs p 0)"
        by (rule field_loop_cong [OF n _ 2(2)]) (simp only: ne eq if_False)
      then show "pb_encode env (Suc k') fs p = pb_encode env (Suc l') fs p"
        unfolding pb_encode.simps 2(1) Let_def prod.case bool.case .
    qed
  qed
  have "pb_encode env fuel fs p = pb_encode env fuel' fs p" using e [OF assms(2), of fuel fuel' p] assms(3,4) by simp
  then show ?thesis
    using check_fuel [OF r assms(2), of _ fuel fuel' q] assms(3,4) by (simp add: pb_get_encoded_size_def)
qed

end
