(* ===== verification/PbRoundtrip.thy ===== *)
theory PbRoundtrip
  imports PbApply PbExact
begin

text \<open>
  Whole messages of singular static fields, through the encoder and the decoder and back: the struct that is decoded
  represents the same values as the struct that was encoded.
\<close>

section \<open>Reading after writing\<close>

lemma alters_take:
  assumes "alters A h h'" "region h p = Some m" "n \<le> length m" "{p..<p + int n} \<inter> A = {}"
  obtains m' where "region h' p = Some m'" "length m' = length m" "take n m' = take n m"
proof -
  have "\<exists>m'. region h' p = Some m' \<and> length m' = length m \<and> take n m' = take n m"
    using assms(1,2) unfolding alters_def
  proof (induction rule: list_all2_induct)
    case (Cons x xs y ys)
    then have b: "fst x = fst y" "length (snd x) = length (snd y)"
      "\<And>i. i < length (snd x) \<Longrightarrow> fst x + int i \<in> A \<or> snd x ! i = snd y ! i" by (auto simp: same_but_def)
    show ?case
    proof (cases "inside p x")
      case False
      moreover from this have "\<not> inside p y" using b by (simp add: inside_def)
      ultimately show ?thesis using Cons.IH Cons.prems by simp
    next
      case True
      define k where "k = nat (p - fst x)"
      have k: "m = drop k (snd x)" "p = fst x + int k" "k < length (snd x)"
        using True Cons.prems by (auto simp: k_def inside_def)
      have "take n (drop k (snd y)) = take n m"
      proof (rule nth_equalityI)
        fix i assume i: "i < length (take n (drop k (snd y)))"
        then have "fst x + int (k + i) \<in> {p..<p + int n}" using k by auto
        then have "fst x + int (k + i) \<notin> A" using assms(4) by blast
        moreover have "k + i < length (snd x)" using i b(2) by (simp add: less_diff_conv add.commute)
        ultimately show "take n (drop k (snd y)) ! i = take n m ! i" using b(3) [of "k + i"] i k b(2) by simp
      qed (simp add: k b(2))
      moreover have "inside p y" using True b by (simp add: inside_def)
      then have "region (y # ys) p = Some (drop k (snd y))" by (simp add: k_def b(1))
      moreover have "length (drop k (snd y)) = length m" by (simp add: k(1) b(2))
      ultimately show ?thesis by blast
    qed
  qed simp
  then show ?thesis using that by blast
qed

lemma write_region:
  "region h p = Some m \<Longrightarrow> length v \<le> length m \<Longrightarrow> region (write_at h p v) p = Some (store m v)"
proof (induction h)
  case (Cons x h)
  show ?case
  proof (cases "inside p x")
    case True
    define k where "k = nat (p - fst x)"
    have k: "m = drop k (snd x)" "k < length (snd x)" using True Cons.prems by (auto simp: k_def inside_def)
    then have "length (store m v) = length m" using Cons.prems(2) by (simp add: store_def)
    then have "inside p (fst x, take k (snd x) @ store m v)" using True k by (simp add: inside_def)
    then show ?thesis using True k by (simp add: k_def [symmetric] Let_def)
  qed (use Cons in simp)
qed simp

section \<open>Values in memory\<close>

text \<open>A string in memory ends at its first zero byte.\<close>

definition holds :: "heap \<Rightarrow> int \<Rightarrow> int pb_field \<Rightarrow> u8 list \<Rightarrow> bool" where
  "holds h p f v \<longleftrightarrow>
     value_ok f v \<and> (PB_LTYPE (ftype f) = PB_LTYPE_STRING \<longrightarrow> 0 \<notin> set (butlast v)) \<and>
     (\<exists>m. region h p = Some m \<and> data_size f \<le> length m \<and> take (length v) m = v)"

lemma bounded_strlen_string: "0 \<notin> set bs \<Longrightarrow> length bs < limit \<Longrightarrow> bounded_strlen limit (bs @ 0 # r) = length bs"
  by (induction bs arbitrary: limit) auto

lemma enc_scalar_take:
  assumes "scalar_field f v" "take (data_size f) m = v"
  shows "enc_scalar s f m = enc_scalar s f v"
proof -
  have t: "load n m = load n v" "load_signed n m = load_signed n v" if "n \<le> data_size f" for n
  proof -
    have "take n m = take n v" using assms(2) that by (simp add: min_def flip: assms(2))
    then show "load n m = load n v" by (simp add: load_def)
    then show "load_signed n m = load_signed n v" by (simp add: load_signed_def)
  qed
  have b: "safe_read_bool m = safe_read_bool v" if "1 \<le> data_size f"
    using that by (simp add: safe_read_bool_def min_def flip: assms(2))
  show ?thesis using assms(1) t b
    by (auto simp: enc_scalar_def scalar_field_def pb_enc_bool_def pb_enc_varint_def pb_enc_uvarint_def pb_enc_svarint_def
        pb_enc_fixed32_def pb_enc_fixed64_def Let_def)
qed

lemma emits_string:
  assumes "length bs < 2 ^ 64" "take n m = bs" "n = length bs"
  shows "emits (enc_call (\<lambda>s. pb_encode_string s m n)) (string_bytes bs) True"
proof -
  have "emits (enc_seq (enc_call (\<lambda>s. pb_write s (varint_bytes (length bs)))) (enc_call (\<lambda>s. pb_write s bs)))
      (varint_bytes (length bs) @ bs) (True \<and> True)"
    by (intro emits_seq emits_write)
  then show ?thesis using assms by (simp add: string_call varint_call string_bytes_def)
qed

lemma plain_ltype:
  assumes "static_field f" "PB_LTYPE (ftype f) \<noteq> PB_LTYPE_SUBMESSAGE"
  obtains "PB_LTYPE (ftype f) = PB_LTYPE_STRING" | "PB_LTYPE (ftype f) = PB_LTYPE_BYTES"
    | "PB_LTYPE (ftype f) = PB_LTYPE_FIXED_LENGTH_BYTES"
    | "PB_LTYPE (ftype f) \<in> {PB_LTYPE_BOOL, PB_LTYPE_VARINT, PB_LTYPE_UVARINT, PB_LTYPE_SVARINT, PB_LTYPE_FIXED32, PB_LTYPE_FIXED64}"
proof -
  have "PB_LTYPE (ftype f) \<in> {PB_LTYPE_BOOL, PB_LTYPE_VARINT, PB_LTYPE_UVARINT, PB_LTYPE_SVARINT, PB_LTYPE_FIXED32, PB_LTYPE_FIXED64,
      PB_LTYPE_BYTES, PB_LTYPE_STRING, PB_LTYPE_SUBMESSAGE, PB_LTYPE_FIXED_LENGTH_BYTES}"
    using assms(1) by (intro ltype_cases) (simp_all add: static_field_def Let_def)
  then show ?thesis using that assms(2) by auto
qed

text \<open>\<open>PB_ENCODERS\<close> on memory that holds a value writes what stands for the value.\<close>

lemma enc_value_emits:
  fixes env :: "'a enc_env"
  assumes f: "static_field f" "PB_LTYPE (ftype f) \<noteq> PB_LTYPE_SUBMESSAGE" "PB_HTYPE (ftype f) \<noteq> PB_HTYPE_REPEATED"
    and h: "holds (env_heap env) p f v" and p: "p \<noteq> 0"
  shows "emits (enc_value env sub f p) (value_bytes f v) True"
proof -
  have np: "\<not> is_pointer f" by (rule static_not_pointer [OF f(1)])
  have w: "data_size f < 2 ^ 32" using f(1,3) by (simp add: static_field_def entries_def Let_def)
  have v: "value_ok f v" "PB_LTYPE (ftype f) = PB_LTYPE_STRING \<Longrightarrow> 0 \<notin> set (butlast v)" using h by (simp_all add: holds_def)
  obtain m where m: "region (env_heap env) p = Some m" "data_size f \<le> length m" "take (length v) m = v"
    using h by (auto simp: holds_def)
  note ne = value_nonempty [OF f(1) v(1)]
  from f(1,2) show ?thesis
  proof (cases rule: plain_ltype)
    case 1
    define bs where "bs = butlast v"
    have v': "v = bs @ [0]" "length bs + 1 \<le> data_size f" "0 \<notin> set bs" using v 1 append_butlast_last_id [of v]
      by (auto simp: value_ok_def bs_def)
    have m': "m = bs @ 0 # drop (length v) m" using m(3) v'(1) append_take_drop_id [of "length v" m] by (metis append.assoc append_Cons append_Nil)
    have n: "bounded_strlen (data_size f) m = length bs"
      by (subst m') (use v' in \<open>simp add: bounded_strlen_string\<close>)
    have t: "take (length bs) m = bs" by (subst m') simp
    have "enc_value env sub f p = enc_call (\<lambda>s. pb_encode_string s m (length bs))"
      using 1 p m(1,2) v' np n
      by (auto simp: enc_value_def enc_read_def string_readable_def pb_enc_string_def fun_eq_iff Let_def)
    then show ?thesis using emits_string [OF _ t refl] v' w 1 by (simp add: value_bytes_def)
  next
    case 2
    define bs where "bs = drop 4 v"
    have v': "v = le_bytes 4 (length bs) @ bs" "length bs + 4 \<le> data_size f" using v 2 append_take_drop_id [of 4 v]
      by (auto simp: value_ok_def bs_def)
    have m': "m = le_bytes 4 (length bs) @ bs @ drop (length v) m" using m(3) v'(1) append_take_drop_id [of "length v" m]
      by (metis append.assoc)
    have "load 4 m = load 4 (le_bytes 4 (length bs))" by (subst m') (simp add: load_append)
    then have l: "load 4 m = length bs" using v' w by (simp add: load_le_bytes)
    have z: "PB_BYTES_ARRAY_T_ALLOCSIZE (length bs) = length bs + 4"
      using v' w by (simp add: PB_BYTES_ARRAY_T_ALLOCSIZE_def size_t_id SIZE_MAX_def)
    have t: "take (length bs) (drop 4 m) = bs" by (subst m') simp
    have "enc_value env sub f p = enc_call (\<lambda>s. pb_encode_string s (drop 4 m) (length bs))"
      using 2 p m(1,2) v' np l z
      by (auto simp: enc_value_def enc_read_def bytes_readable_def pb_enc_bytes_def fun_eq_iff Let_def)
    moreover have "value_bytes f v = string_bytes bs" using 2 by (simp add: value_bytes_def bs_def)
    ultimately show ?thesis using emits_string [OF _ t refl] v'(2) w by simp
  next
    case 3
    then have l: "length v = data_size f" using v by (simp add: value_ok_def)
    then have "enc_value env sub f p = enc_call (\<lambda>s. pb_encode_string s m (length v))"
      using 3 m by (simp add: enc_value_def enc_read_def pb_enc_fixed_length_bytes_def fun_eq_iff)
    then show ?thesis using emits_string [OF _ m(3) refl] l w 3 by (simp add: value_bytes_def)
  next
    case 4
    then have s: "scalar_field f v" "value_bytes f v = scalar_bytes f v" using v by (auto simp: value_ok_def value_bytes_def)
    then have l: "length v = data_size f" by (simp add: scalar_field_def Let_def)
    then have t: "take (data_size f) m = v" using m(3) by simp
    have e: "enc_scalar s f m = pb_write s (scalar_bytes f v)" for s :: "'a pb_ostream"
      by (simp add: enc_scalar_take [OF s(1) t] enc_scalar_bytes [OF s(1)])
    have n: "PB_LTYPE (ftype f) = PB_LTYPE_BOOL \<Longrightarrow> 1 \<le> length m" "PB_LTYPE (ftype f) = PB_LTYPE_FIXED32 \<Longrightarrow> 4 \<le> length m"
      "PB_LTYPE (ftype f) = PB_LTYPE_FIXED64 \<Longrightarrow> 8 \<le> length m"
      using s(1) m(2) by (auto simp: scalar_field_def Let_def)
    have "enc_value env sub f p = enc_call (\<lambda>s. enc_scalar s f m)"
      using 4 m(1,2) n by (auto simp: enc_value_def enc_scalar_def enc_read_def fun_eq_iff Let_def)
    then show ?thesis using emits_write [of "scalar_bytes f v"] by (simp add: e s(2))
  qed
qed

section \<open>What a struct represents\<close>

text \<open>
  Whether storage holds the default value of proto3, for fields without a \<open>has_\<close> flag.
\<close>

definition zero_check :: "heap \<Rightarrow> int \<Rightarrow> int pb_field \<Rightarrow> bool option" where
  "zero_check h p f =
     (let t = PB_LTYPE (ftype f)
      in if t = PB_LTYPE_BYTES then map_option (\<lambda>n. n = 0) (load_size h p)
         else if t = PB_LTYPE_STRING then map_option (\<lambda>c. c = 0) (load_mem h p 1)
         else if t = PB_LTYPE_FIXED_LENGTH_BYTES then Some (data_size f = 0)
         else all_zero h p (data_size f))"

text \<open>
  The field of an iterator holds the value \<open>x\<close>, or none: then it is optional, and its flag is clear or, without a flag,
  the storage has the default value.
\<close>

definition field_represents :: "heap \<Rightarrow> int pb_field_iter \<Rightarrow> u8 list option \<Rightarrow> bool" where
  "field_represents h it x \<longleftrightarrow>
     (let f = cur_field it
      in (case x of Some v \<Rightarrow> holds h (pData it) f v | None \<Rightarrow> PB_HTYPE (ftype f) = PB_HTYPE_OPTIONAL) \<and>
         (PB_HTYPE (ftype f) = PB_HTYPE_OPTIONAL \<longrightarrow>
            (if size_offset f = 0 then zero_check h (pData it) f = Some (x = None)
             else load_bool h (pData it + size_offset f) = Some (x \<noteq> None))))"

definition represents :: "heap \<Rightarrow> int pb_field list \<Rightarrow> nat \<Rightarrow> int \<Rightarrow> (nat \<Rightarrow> u8 list option) \<Rightarrow> bool" where
  "represents h fs n p vals \<longleftrightarrow> (\<forall>i<n. field_represents h (iter_at fs p i) (vals i))"

text \<open>The fields that are present, from index \<open>i\<close> up to \<open>k\<close>.\<close>

definition present :: "(nat \<Rightarrow> u8 list option) \<Rightarrow> nat \<Rightarrow> nat \<Rightarrow> msg_item list" where
  "present vals i k = concat (map (\<lambda>j. case vals j of None \<Rightarrow> [] | Some v \<Rightarrow> [Known j v]) [i..<k])"

lemma present_Cons: "i < k \<Longrightarrow> present vals i k = (case vals i of None \<Rightarrow> [] | Some v \<Rightarrow> [Known i v]) @ present vals (Suc i) k"
  by (simp add: present_def upt_conv_Cons)

lemma present_snoc: "i \<le> k \<Longrightarrow> present vals i (Suc k) = present vals i k @ (case vals k of None \<Rightarrow> [] | Some v \<Rightarrow> [Known k v])"
  by (simp add: present_def)

lemma present_end [simp]: "present vals k k = []"
  by (simp add: present_def)

lemma msg_bytes_append: "msg_bytes fs (xs @ ys) = msg_bytes fs xs @ msg_bytes fs ys"
  by (simp add: msg_bytes_def)

section \<open>Encoding a struct\<close>

lemma tag_for_field:
  assumes "static_field f" "PB_LTYPE (ftype f) \<noteq> PB_LTYPE_SUBMESSAGE"
  shows "pb_encode_tag_for_field s f = pb_write s (item_bytes (WTag (field_wire_type f) (tag f)))"
  using assms
  by (cases rule: plain_ltype)
    (auto simp: pb_encode_tag_for_field_def field_wire_type_def wire_types pb_encode_tag_bytes Let_def)

lemma zero_check_is_check:
  assumes "static_field f" "PB_LTYPE (ftype f) \<noteq> PB_LTYPE_SUBMESSAGE" "PB_HTYPE (ftype f) = PB_HTYPE_OPTIONAL" "size_offset f = 0"
  shows "pb_check_proto3_default_value env (Suc k) f p = zero_check (env_heap env) p f"
proof -
  have "PB_ATYPE (ftype f) = PB_ATYPE_STATIC" using assms(1) by (simp add: static_field_def Let_def)
  then show ?thesis using assms(3,4) by (simp add: zero_check_def Let_def assms(2))
qed

lemma encode_field_emits:
  fixes env :: "'o enc_env"
  assumes f: "static_field (cur_field it)" "PB_LTYPE (ftype (cur_field it)) \<noteq> PB_LTYPE_SUBMESSAGE"
    "PB_HTYPE (ftype (cur_field it)) \<in> {PB_HTYPE_REQUIRED, PB_HTYPE_OPTIONAL}"
    and r: "field_represents (env_heap env) it x" and p: "pData it \<noteq> 0"
  shows "emits (encode_field env sub (pb_check_proto3_default_value env (Suc k)) (cur_field it) (pData it))
    (case x of None \<Rightarrow> [] | Some v \<Rightarrow> item_bytes (WTag (field_wire_type (cur_field it)) (tag (cur_field it))) @ value_bytes (cur_field it) v) True"
proof -
  let ?f = "cur_field it" and ?check = "pb_check_proto3_default_value env (Suc k)"
  let ?one = "enc_seq (enc_call (\<lambda>s. pb_encode_tag_for_field s ?f)) (enc_value env sub ?f (pData it)) :: 'o encoder"
  have np: "\<not> is_pointer ?f" by (rule static_not_pointer [OF f(1)])
  have at: "PB_ATYPE (ftype ?f) = PB_ATYPE_STATIC" and lt: "\<not> PB_LTYPES_COUNT \<le> PB_LTYPE (ftype ?f)"
    using f(1) by (auto simp: static_field_def PB_LTYPES_COUNT_def word_le_nat_alt Let_def)
  have nr: "PB_HTYPE (ftype ?f) \<noteq> PB_HTYPE_REPEATED" using f(3) by auto
  have one: "emits ?one (item_bytes (WTag (field_wire_type ?f) (tag ?f)) @ value_bytes ?f v) True" if "x = Some v" for v
  proof -
    have h: "holds (env_heap env) (pData it) ?f v" using r that by (simp add: field_represents_def Let_def)
    have "emits ?one (item_bytes (WTag (field_wire_type ?f) (tag ?f)) @ value_bytes ?f v) (True \<and> True)"
      unfolding tag_for_field [OF f(1,2)] by (intro emits_seq emits_write enc_value_emits [OF f(1,2) nr h p])
    then show ?thesis by simp
  qed
  have "encode_field env sub ?check ?f (pData it) = (case x of None \<Rightarrow> enc_ok | Some v \<Rightarrow> ?one)"
  proof (cases "PB_HTYPE (ftype ?f) = PB_HTYPE_REQUIRED")
    case True
    then have "x \<noteq> None" using r by (auto simp: field_represents_def Let_def split: option.splits)
    then show ?thesis using True at lt np p by (auto simp: encode_field_def encode_basic_field_def enc_read_def fun_eq_iff Let_def)
  next
    case False
    then have o: "PB_HTYPE (ftype ?f) = PB_HTYPE_OPTIONAL" using f(3) by simp
    show ?thesis
    proof (cases "size_offset ?f = 0")
      case True
      then have "?check ?f (pData it) = Some (x = None)"
        using r zero_check_is_check [OF f(1,2) o, of env k "pData it"] o by (simp add: field_represents_def Let_def del: pb_check_proto3_default_value.simps)
      then show ?thesis using True o at lt np
        by (cases x) (simp_all add: encode_field_def encode_basic_field_def enc_read_def fun_eq_iff Let_def del: pb_check_proto3_default_value.simps)
    next
      case False
      then have "load_bool (env_heap env) (pData it + size_offset ?f) = Some (x \<noteq> None)"
        using r o by (simp add: field_represents_def Let_def)
      then show ?thesis using False o at lt np
        by (cases x) (simp_all add: encode_field_def encode_basic_field_def enc_read_def fun_eq_iff Let_def del: pb_check_proto3_default_value.simps)
    qed
  qed
  then show ?thesis using one emits_ok by (cases x) simp_all
qed

lemma field_loop_emits:
  assumes m: "message_fields n fs"
    and e: "\<And>i. i < n \<Longrightarrow> emits (enc (fs ! i) (pData (iter_at fs p i))) (msg_bytes fs (present vals i (Suc i))) True"
  shows "i < n \<Longrightarrow> n - i \<le> k \<Longrightarrow> emits (field_loop enc k (iter_at fs p i)) (msg_bytes fs (present vals i n)) True"
proof (induction k arbitrary: i)
  case 0
  then show ?case by simp
next
  case (Suc k)
  have cur: "cur_field (iter_at fs p i) = fs ! i" using iter_at_inside [OF m Suc.prems(1), of p] by (simp add: cur_field_def)
  obtain b it where it: "pb_field_iter_next (iter_at fs p i) = (b, it)" by fastforce
  with iter_at_next [OF m Suc.prems(1), of p] have b: "b \<longleftrightarrow> Suc i \<noteq> n" "Suc i \<noteq> n \<Longrightarrow> it = iter_at fs p (Suc i)" by simp_all
  have rest: "emits (case (b, it) of (True, iter) \<Rightarrow> field_loop enc k iter | (False, _) \<Rightarrow> enc_ok) (msg_bytes fs (present vals (Suc i) n)) True"
    using b Suc.IH [of "Suc i"] Suc.prems emits_ok by (cases b) (auto simp: msg_bytes_def)
  have split: "msg_bytes fs (present vals i n) = msg_bytes fs (present vals i (Suc i)) @ msg_bytes fs (present vals (Suc i) n)"
    using Suc.prems(1) by (simp add: present_Cons [of i n] present_Cons [of i "Suc i"] msg_bytes_append)
  show ?case using emits_seq [OF e [OF Suc.prems(1)] rest] by (simp add: cur it split)
qed

text \<open>Encoding a struct emits the fields it represents, in the order of the descriptor.\<close>

lemma encode_emits:
  fixes env :: "'o enc_env"
  assumes m: "plain_message sz n fs" and p: "0 < p"
    and r: "represents (env_heap env) fs n p vals"
  shows "emits (pb_encode env (Suc (Suc k)) fs p) (msg_bytes fs (present vals 0 n)) True"
proof -
  have mf: "message_fields n fs" and n: "0 < n" using m by (simp_all add: plain_message_def)
  let ?sub = "pb_encode env (Suc k)" and ?check = "pb_check_proto3_default_value env (Suc k)"
  let ?enc = "\<lambda>field p. if PB_LTYPE (ftype field) = PB_LTYPE_EXTENSION
      then encode_extension_field env (encode_field env ?sub ?check) (Suc k) p else encode_field env ?sub ?check field p"
  have e: "emits (?enc (fs ! i) (pData (iter_at fs p i))) (msg_bytes fs (present vals i (Suc i))) True" if i: "i < n" for i
  proof -
    have fit: "field_fits sz (iter_at fs 0 i)" "PB_HTYPE (ftype (fs ! i)) \<in> {PB_HTYPE_REQUIRED, PB_HTYPE_OPTIONAL}"
      "PB_LTYPE (ftype (fs ! i)) \<noteq> PB_LTYPE_SUBMESSAGE" using m i by (auto simp: plain_message_def)
    have cur: "cur_field (iter_at fs q i) = fs ! i" for q using iter_at_inside [OF mf i, of q] by (simp add: cur_field_def)
    have f: "static_field (fs ! i)" "0 \<le> pData (iter_at fs 0 i)" using fit(1) by (simp_all add: field_fits_def cur Let_def)
    then have nz: "pData (iter_at fs p i) \<noteq> 0" using iter_at_shift [OF mf i, of p] p by simp
    have "field_represents (env_heap env) (iter_at fs p i) (vals i)" using r i by (simp add: represents_def)
    then have "emits (encode_field env ?sub ?check (fs ! i) (pData (iter_at fs p i)))
      (case vals i of None \<Rightarrow> [] | Some v \<Rightarrow> item_bytes (WTag (field_wire_type (fs ! i)) (tag (fs ! i))) @ value_bytes (fs ! i) v) True"
      using encode_field_emits [of "iter_at fs p i" env "vals i" ?sub k, unfolded cur] f(1) fit(2,3) nz by simp
    moreover have "PB_LTYPE (ftype (fs ! i)) \<noteq> PB_LTYPE_EXTENSION" using f(1) by (simp add: static_field_def Let_def)
    ultimately show ?thesis by (cases "vals i") (simp_all add: present_Cons [of i "Suc i"] msg_bytes_def del: pb_check_proto3_default_value.simps pb_encode.simps)
  qed
  have "pb_field_iter_begin fs p = (True, iter_at fs p 0)"
    using mf n by (auto simp: message_fields_def pb_field_iter_begin_def iter_at.simps Let_def)
  then have "pb_encode env (Suc (Suc k)) fs p = field_loop ?enc (length fs) (iter_at fs p 0)"
    by (simp only: pb_encode.simps(2) [of env "Suc k"] Let_def prod.case bool.case)
  moreover have "emits (field_loop ?enc (length fs) (iter_at fs p 0)) (msg_bytes fs (present vals 0 n)) True"
    by (rule field_loop_emits [OF mf e n]) (use mf in \<open>simp_all add: message_fields_def\<close>)
  ultimately show ?thesis by simp
qed

section \<open>Fields do not overlap\<close>

text \<open>
  Every field has storage, enough for the count of a \<open>bytes\<close> field; a \<open>has_\<close> flag lies in front of its field, after the
  field before; a field without a flag has the default value zero.
\<close>

definition well_laid :: "nat \<Rightarrow> int pb_field list \<Rightarrow> bool" where
  "well_laid n fs \<longleftrightarrow>
     (\<forall>i<n. let f = fs ! i in
        0 < data_size f \<and> (PB_LTYPE (ftype f) = PB_LTYPE_BYTES \<longrightarrow> 4 \<le> data_size f) \<and>
        (PB_HTYPE (ftype f) = PB_HTYPE_OPTIONAL \<longrightarrow>
           (if size_offset f = 0 then ptr f = 0 else - int (data_offset f) \<le> size_offset f \<and> size_offset f < 0)))"

text \<open>From the end of the field before to the end of the field.\<close>

definition area :: "int pb_field list \<Rightarrow> int \<Rightarrow> nat \<Rightarrow> int set" where
  "area fs p i = {pData (iter_at fs p i) - int (data_offset (fs ! i))..<pData (iter_at fs p i) + int (data_size (fs ! i))}"

lemma plain_positions:
  assumes m: "plain_message sz n fs"
  shows "i < n \<Longrightarrow> pSize (iter_at fs p i) = pData (iter_at fs p i) + size_offset (fs ! i)"
    "Suc i < n \<Longrightarrow> pData (iter_at fs p (Suc i)) = pData (iter_at fs p i) + int (data_size (fs ! i)) + int (data_offset (fs ! Suc i))"
proof -
  have mf: "message_fields n fs" using m by (simp add: plain_message_def)
  have next_at: "pData (iter_at fs p (Suc i)) = pData (iter_at fs p i) + int (data_size (fs ! i)) + int (data_offset (fs ! Suc i)) \<and>
      pSize (iter_at fs p (Suc i)) = pData (iter_at fs p (Suc i)) + size_offset (fs ! Suc i)" if i: "Suc i < n" for i
  proof -
    have at: "start (iter_at fs p i) = fs" "pos (iter_at fs p i) = i" using iter_at_inside [OF mf, of i p] i by simp_all
    have "i < n" using i by simp
    then have z: "cur_field (iter_at fs 0 i) = fs ! i" "field_fits sz (iter_at fs 0 i)"
      "PB_HTYPE (ftype (fs ! i)) \<in> {PB_HTYPE_REQUIRED, PB_HTYPE_OPTIONAL}"
      using m iter_at_inside [OF mf, of i 0] by (auto simp: plain_message_def cur_field_def)
    then have t: "PB_HTYPE (ftype (fs ! i)) \<noteq> PB_HTYPE_ONEOF" "PB_HTYPE (ftype (fs ! i)) \<noteq> PB_HTYPE_REPEATED"
      "PB_ATYPE (ftype (fs ! i)) = PB_ATYPE_STATIC" by (auto simp: field_fits_def static_field_def Let_def)
    have "tag (fs ! i) \<noteq> 0" "tag (fs ! Suc i) \<noteq> 0" using mf i by (simp_all add: message_fields_def)
    then show ?thesis unfolding iter_at.simps using at t by (auto simp: pb_field_iter_next_def cur_field_def Let_def)
  qed
  show "Suc i < n \<Longrightarrow> pData (iter_at fs p (Suc i)) = pData (iter_at fs p i) + int (data_size (fs ! i)) + int (data_offset (fs ! Suc i))"
    using next_at by blast
  show "i < n \<Longrightarrow> pSize (iter_at fs p i) = pData (iter_at fs p i) + size_offset (fs ! i)"
    using next_at by (cases i) (auto simp: iter_at.simps pb_field_iter_begin_def Let_def)
qed

lemma area_order:
  assumes m: "plain_message sz n fs"
  shows "i < j \<Longrightarrow> j < n \<Longrightarrow> pData (iter_at fs p i) + int (data_size (fs ! i)) \<le> pData (iter_at fs p j) - int (data_offset (fs ! j))"
proof (induction j)
  case (Suc j)
  note s = plain_positions(2) [OF m, of j p]
  show ?case
  proof (cases "i = j")
    case True
    then show ?thesis using s Suc.prems by simp
  next
    case False
    then have "pData (iter_at fs p i) + int (data_size (fs ! i)) \<le> pData (iter_at fs p j) - int (data_offset (fs ! j))" using Suc by simp
    then show ?thesis using s Suc.prems by simp
  qed
qed simp

lemma area_disjoint:
  assumes "plain_message sz n fs" "i < n" "j < n" "i \<noteq> j"
  shows "area fs p i \<inter> area fs p j = {}"
  using area_order [OF assms(1), of i j p] area_order [OF assms(1), of j i p] assms(2-4)
  by (cases "i < j") (auto simp: area_def)

lemma zero_check_eq:
  assumes "region h p = Some m" "region g q = Some m'" "data_size f \<le> length m" "data_size f \<le> length m'"
    and "take (data_size f) m = take (data_size f) m'" "0 < data_size f" "PB_LTYPE (ftype f) = PB_LTYPE_BYTES \<Longrightarrow> 4 \<le> data_size f"
  shows "zero_check h p f = zero_check g q f"
proof -
  have t: "take k m = take k m'" if "k \<le> data_size f" for k
    using arg_cong [OF assms(5), of "take k"] that by (simp add: min_def)
  have l: "load k m = load k m'" if "k \<le> data_size f" for k using t [OF that] by (simp add: load_def)
  have "Suc 0 \<le> data_size f" using assms(6) by simp
  then show ?thesis using assms(1-4,6,7) l [of 4] l [of "Suc 0"] assms(5)
    by (auto simp: zero_check_def load_size_def load_mem_def all_zero_def Let_def)
qed

text \<open>What a field represents depends on its area only.\<close>

lemma field_represents_alters:
  assumes m: "plain_message sz n fs" and w: "well_laid n fs" and i: "i < n"
    and h: "heap_ok h" "room h p sz" and r: "field_represents h (iter_at fs p i) x"
    and g: "alters A h g" "A \<inter> area fs p i = {}"
  shows "field_represents g (iter_at fs p i) x"
proof -
  let ?it = "iter_at fs p i" and ?f = "fs ! i"
  have mf: "message_fields n fs" and fit: "field_fits sz (iter_at fs 0 i)" and ht: "PB_HTYPE (ftype ?f) \<noteq> PB_HTYPE_REPEATED"
    using m i by (auto simp: plain_message_def)
  have cur: "cur_field ?it = ?f" using iter_at_inside [OF mf i, of p] by (simp add: cur_field_def)
  have own: "field_owned UNIV h ?it" by (rule field_fits_owned [OF mf i fit h(1)]) (use h(2) in \<open>simp add: owned_def\<close>)
  have d: "0 < data_size ?f" "PB_LTYPE (ftype ?f) = PB_LTYPE_BYTES \<Longrightarrow> 4 \<le> data_size ?f"
    and fl: "PB_HTYPE (ftype ?f) = PB_HTYPE_OPTIONAL \<Longrightarrow> size_offset ?f \<noteq> 0 \<Longrightarrow> - int (data_offset ?f) \<le> size_offset ?f \<and> size_offset ?f < 0"
    using w i by (auto simp: well_laid_def Let_def split: if_splits)
  obtain mem where mem: "region h (pData ?it) = Some mem" "data_size ?f \<le> length mem"
    using own d(1) ht by (auto simp: field_owned_def cur owned_def entries_def room_def Let_def)
  have "{pData ?it..<pData ?it + int (data_size ?f)} \<inter> A = {}" using g(2) by (auto simp: area_def)
  then obtain mem' where mem': "region g (pData ?it) = Some mem'" "length mem' = length mem" "take (data_size ?f) mem' = take (data_size ?f) mem"
    using alters_take [OF g(1) mem] by metis
  have holds: "holds g (pData ?it) ?f v" if hv: "holds h (pData ?it) ?f v" for v
  proof -
    have "static_field ?f" using own by (simp add: field_owned_def cur Let_def)
    then have l: "length v \<le> data_size ?f" using value_nonempty hv by (auto simp: holds_def)
    have "take (length v) mem' = take (length v) mem" using arg_cong [OF mem'(3), of "take (length v)"] l by (simp add: min_def)
    then show ?thesis using hv mem mem' by (auto simp: holds_def)
  qed
  have zero: "zero_check g (pData ?it) ?f = zero_check h (pData ?it) ?f"
    by (rule zero_check_eq [OF mem'(1) mem(1)]) (use mem mem' d in auto)
  have flag: "load_bool g (pData ?it + size_offset ?f) = Some b"
    if o: "PB_HTYPE (ftype ?f) = PB_HTYPE_OPTIONAL" "size_offset ?f \<noteq> 0" and b: "load_bool h (pData ?it + size_offset ?f) = Some b" for b
  proof -
    let ?q = "pData ?it + size_offset ?f"
    obtain fm where fm: "region h ?q = Some fm" "1 \<le> length fm" "b = safe_read_bool fm"
      using b own o plain_positions(1) [OF m i, of p]
      by (auto simp: load_bool_def field_owned_def cur owned_def room_def Let_def)
    have "{?q..<?q + int 1} \<inter> A = {}" using g(2) fl [OF o] by (auto simp: area_def)
    then obtain fm' where "region g ?q = Some fm'" "take 1 fm' = take 1 fm" using alters_take [OF g(1) fm(1,2)] by metis
    then show ?thesis using fm(3) by (simp add: load_bool_def safe_read_bool_def)
  qed
  show ?thesis using r holds zero flag by (auto simp: field_represents_def cur Let_def split: option.splits if_splits)
qed

section \<open>Storing a field\<close>

lemma plain_storage:
  assumes m: "plain_message sz n fs" and i: "i < n" and h: "heap_ok h" "room h p sz"
  shows "cur_field (iter_at fs p i) = fs ! i" "static_field (fs ! i)" "room h (pData (iter_at fs p i)) (data_size (fs ! i))"
    "PB_HTYPE (ftype (fs ! i)) = PB_HTYPE_OPTIONAL \<Longrightarrow> size_offset (fs ! i) \<noteq> 0 \<Longrightarrow> room h (pSize (iter_at fs p i)) 1"
proof -
  have mf: "message_fields n fs" and fit: "field_fits sz (iter_at fs 0 i)" and ht: "PB_HTYPE (ftype (fs ! i)) \<noteq> PB_HTYPE_REPEATED"
    using m i by (auto simp: plain_message_def)
  show cur: "cur_field (iter_at fs p i) = fs ! i" using iter_at_inside [OF mf i, of p] by (simp add: cur_field_def)
  have own: "field_owned UNIV h (iter_at fs p i)" by (rule field_fits_owned [OF mf i fit h(1)]) (use h(2) in \<open>simp add: owned_def\<close>)
  show "static_field (fs ! i)" "room h (pData (iter_at fs p i)) (data_size (fs ! i))"
    "PB_HTYPE (ftype (fs ! i)) = PB_HTYPE_OPTIONAL \<Longrightarrow> size_offset (fs ! i) \<noteq> 0 \<Longrightarrow> room h (pSize (iter_at fs p i)) 1"
    using own ht plain_positions(1) [OF m i, of p] by (simp_all add: field_owned_def cur owned_def entries_def Let_def)
qed

text \<open>A flag and then bytes, for \<open>apply_item\<close> and for the default values.\<close>

definition set_flag :: "int pb_field_iter \<Rightarrow> bool \<Rightarrow> heap \<Rightarrow> heap option" where
  "set_flag it b h =
     (if PB_HTYPE (ftype (cur_field it)) = PB_HTYPE_OPTIONAL \<and> size_offset (cur_field it) \<noteq> 0 then store_bool h (pSize it) b else Some h)"

lemma store_field:
  assumes m: "plain_message sz n fs" and w: "well_laid n fs" and i: "i < n" and h: "heap_ok h" "room h p sz"
    and v: "length v \<le> data_size (fs ! i)" "v \<noteq> []"
  shows "\<exists>g mem. do { g \<leftarrow> set_flag (iter_at fs p i) b h; store_mem g (pData (iter_at fs p i)) v } = Some g \<and> alters (area fs p i) h g \<and>
    region g (pData (iter_at fs p i)) = Some mem \<and> data_size (fs ! i) \<le> length mem \<and> take (length v) mem = v \<and>
    (PB_HTYPE (ftype (fs ! i)) = PB_HTYPE_OPTIONAL \<longrightarrow> size_offset (fs ! i) \<noteq> 0 \<longrightarrow>
       load_bool g (pData (iter_at fs p i) + size_offset (fs ! i)) = Some b)"
proof -
  let ?it = "iter_at fs p i" and ?f = "fs ! i"
  note s = plain_storage [OF m i h]
  note ps = plain_positions(1) [OF m i, of p]
  have d: "0 < data_size ?f" using v by (cases v) auto
  have fl: "PB_HTYPE (ftype ?f) = PB_HTYPE_OPTIONAL \<Longrightarrow> size_offset ?f \<noteq> 0 \<Longrightarrow> - int (data_offset ?f) \<le> size_offset ?f \<and> size_offset ?f < 0"
    using w i by (auto simp: well_laid_def Let_def split: if_splits)
  obtain g where g: "set_flag ?it b h = Some g" "alters (area fs p i) h g"
    "PB_HTYPE (ftype ?f) = PB_HTYPE_OPTIONAL \<Longrightarrow> size_offset ?f \<noteq> 0 \<Longrightarrow>
       \<exists>fm. region g (pSize ?it) = Some fm \<and> 1 \<le> length fm \<and> safe_read_bool fm = b"
  proof (cases "PB_HTYPE (ftype ?f) = PB_HTYPE_OPTIONAL \<and> size_offset ?f \<noteq> 0")
    case False
    then show ?thesis using that [of h] by (auto simp: set_flag_def s(1))
  next
    case True
    then have r: "room h (pSize ?it) 1" using s(4) by simp
    obtain g where g: "store_bool h (pSize ?it) b = Some g" "alters {pSize ?it..<pSize ?it + 1} h g" using store_bool_room [OF r] .
    have "{pSize ?it..<pSize ?it + 1} \<subseteq> area fs p i" using fl True ps d by (auto simp: area_def)
    then have al: "alters (area fs p i) h g" using alters_mono [OF g(2)] by blast
    obtain fm where fm: "region h (pSize ?it) = Some fm" "1 \<le> length fm" using r by (auto simp: room_def)
    have "g = write_at h (pSize ?it) [if b then 1 else 0]" using g(1) by (simp add: store_bool_def store_mem_def split: if_splits)
    then have "region g (pSize ?it) = Some (store fm [if b then 1 else 0])"
      using write_region [OF fm(1), of "[if b then 1 else 0]"] fm(2) by simp
    moreover have "1 \<le> length (store fm [if b then 1 else 0])" "safe_read_bool (store fm [if b then 1 else 0]) = b"
      by (simp_all add: store_def safe_read_bool_def)
    ultimately show ?thesis using that [of g] g(1) al True by (simp add: set_flag_def s(1))
  qed
  have r: "room g (pData ?it) (data_size ?f)" using s(3) by (simp add: alters_room [OF g(2)])
  then obtain mem where mem: "region g (pData ?it) = Some mem" "data_size ?f \<le> length mem" using d by (auto simp: room_def)
  have "room g (pData ?it) (length v)" using room_mono [OF r v(1)] .
  then obtain g' where g': "store_mem g (pData ?it) v = Some g'" "alters {pData ?it..<pData ?it + int (length v)} g g'"
    using store_mem_room by blast
  have "{pData ?it..<pData ?it + int (length v)} \<subseteq> area fs p i" using v(1) by (auto simp: area_def)
  then have al: "alters (area fs p i) h g'" using alters_trans [OF g(2)] alters_mono [OF g'(2)] by blast
  have "g' = write_at g (pData ?it) v" using g'(1) by (simp add: store_mem_def split: if_splits)
  then have reg: "region g' (pData ?it) = Some (store mem v)" using write_region [OF mem(1), of v] v(1) mem(2) by simp
  have flag: "load_bool g' (pData ?it + size_offset ?f) = Some b"
    if o: "PB_HTYPE (ftype ?f) = PB_HTYPE_OPTIONAL" "size_offset ?f \<noteq> 0"
  proof -
    obtain fm where fm: "region g (pSize ?it) = Some fm" "1 \<le> length fm" "safe_read_bool fm = b" using g(3) [OF o] by blast
    have "{pSize ?it..<pSize ?it + int 1} \<inter> {pData ?it..<pData ?it + int (length v)} = {}" using fl [OF o] ps by auto
    then obtain fm' where "region g' (pSize ?it) = Some fm'" "take 1 fm' = take 1 fm" using alters_take [OF g'(2) fm(1,2)] by metis
    then show ?thesis using fm(3) ps by (simp add: load_bool_def safe_read_bool_def)
  qed
  show ?thesis using g(1) g'(1) al reg mem v flag
    by (intro exI [of _ g'] exI [of _ "store mem v"]) (simp add: store_def)
qed

lemma apply_item_flag:
  assumes "plain_message sz n fs" "i < n"
  shows "apply_item fs dest (Known i v) h =
    do { g \<leftarrow> set_flag (iter_at fs dest i) True h; store_mem g (pData (iter_at fs dest i)) v }"
proof -
  have "message_fields n fs" using assms by (simp add: plain_message_def)
  then have "cur_field (iter_at fs dest i) = fs ! i" using iter_at_inside [of n fs i dest] assms(2) by (simp add: cur_field_def)
  then show ?thesis using plain_positions(1) [OF assms, of dest] by (simp add: set_flag_def Let_def)
qed

text \<open>A value that a struct holds, stored in another one.\<close>

lemma apply_represents:
  assumes m: "plain_message sz n fs" and w: "well_laid n fs" and i: "i < n" and h: "heap_ok h" "room h dest sz"
    and r: "field_represents src (iter_at fs p i) (Some v)"
  shows "\<exists>g. apply_item fs dest (Known i v) h = Some g \<and> alters (area fs dest i) h g \<and> field_represents g (iter_at fs dest i) (Some v)"
proof -
  let ?f = "fs ! i"
  have mf: "message_fields n fs" using m by (simp add: plain_message_def)
  have cur: "cur_field (iter_at fs q i) = ?f" for q using iter_at_inside [OF mf i, of q] by (simp add: cur_field_def)
  note s = plain_storage [OF m i h]
  have d: "0 < data_size ?f" "PB_LTYPE (ftype ?f) = PB_LTYPE_BYTES \<Longrightarrow> 4 \<le> data_size ?f" using w i by (auto simp: well_laid_def Let_def)
  have hv: "holds src (pData (iter_at fs p i)) ?f v" using r by (simp add: field_represents_def cur Let_def)
  then have v: "v \<noteq> []" "length v \<le> data_size ?f" using value_nonempty [OF s(2)] by (auto simp: holds_def)
  obtain g mem where g: "apply_item fs dest (Known i v) h = Some g" "alters (area fs dest i) h g"
    "region g (pData (iter_at fs dest i)) = Some mem" "data_size ?f \<le> length mem" "take (length v) mem = v"
    "PB_HTYPE (ftype ?f) = PB_HTYPE_OPTIONAL \<longrightarrow> size_offset ?f \<noteq> 0 \<longrightarrow> load_bool g (pData (iter_at fs dest i) + size_offset ?f) = Some True"
    using store_field [OF m w i h v(2,1), of True] unfolding apply_item_flag [OF m i] by blast
  have hg: "holds g (pData (iter_at fs dest i)) ?f v" using hv g(3-5) by (auto simp: holds_def)
  have "zero_check g (pData (iter_at fs dest i)) ?f = zero_check src (pData (iter_at fs p i)) ?f"
  proof -
    obtain ms where ms: "region src (pData (iter_at fs p i)) = Some ms" "data_size ?f \<le> length ms" "take (length v) ms = v"
      using hv by (auto simp: holds_def)
    have t: "load k ms = load k mem" if "k \<le> length v" for k
    proof -
      have "take k ms = take k (take (length v) ms)" "take k mem = take k (take (length v) mem)" using that by (simp_all add: min_def)
      then show ?thesis by (simp only: load_def ms(3) g(5))
    qed
    have k: "PB_LTYPE (ftype ?f) = PB_LTYPE_BYTES \<Longrightarrow> 4 \<le> length v" "1 \<le> length v" using hv v(1) by (auto simp: holds_def value_ok_def Suc_le_eq)
    have full: "length v = data_size ?f" if "PB_LTYPE (ftype ?f) \<noteq> PB_LTYPE_BYTES" "PB_LTYPE (ftype ?f) \<noteq> PB_LTYPE_STRING"
      using hv that by (auto simp: holds_def value_ok_def scalar_field_def Let_def split: if_splits)
    show ?thesis
    proof (cases "PB_LTYPE (ftype ?f) = PB_LTYPE_BYTES \<or> PB_LTYPE (ftype ?f) = PB_LTYPE_STRING")
      case True
      then show ?thesis using ms g(3,4) d k t [of 4] t [of 1]
        by (auto simp: zero_check_def load_size_def load_mem_def Let_def)
    next
      case False
      then show ?thesis using ms g(3-5) full by (auto simp: zero_check_def all_zero_def Let_def)
    qed
  qed
  then have "field_represents g (iter_at fs dest i) (Some v)"
    using r hg g(6) by (auto simp: field_represents_def cur Let_def)
  then show ?thesis using g(1,2) by blast
qed

lemma load_zeros: "take k mem = replicate k 0 \<Longrightarrow> load k mem = 0"
proof -
  assume t: "take k mem = replicate k 0"
  have "be_value (replicate k 0) = 0" by (induction k) (simp_all add: be_value_Cons)
  then show ?thesis by (simp add: load_def t)
qed

lemma zeros_are_default:
  assumes "region g p = Some mem" "data_size f \<le> length mem" "take (data_size f) mem = replicate (data_size f) 0"
    and "0 < data_size f" "PB_LTYPE (ftype f) = PB_LTYPE_BYTES \<Longrightarrow> 4 \<le> data_size f" "PB_LTYPE (ftype f) \<noteq> PB_LTYPE_FIXED_LENGTH_BYTES"
  shows "zero_check g p f = Some True"
proof -
  have t: "take k mem = replicate k 0" if "k \<le> data_size f" for k
  proof -
    have "take k mem = take k (take (data_size f) mem)" using that by (simp add: min_def)
    then show ?thesis using that by (simp add: assms(3) min_def)
  qed
  have "1 \<le> data_size f" using assms(4) by simp
  then show ?thesis using assms(1-6) load_zeros [OF t, of 4] load_zeros [OF t, of 1]
    by (auto simp: zero_check_def load_size_def load_mem_def all_zero_def list_ex_iff Let_def)
qed

lemma default_represents:
  assumes m: "plain_message sz n fs" and w: "well_laid n fs" and i: "i < n" and h: "memory_ok env h" "room h dest sz"
    and fs: "dec_fields env a = Some fs"
  shows "\<exists>g. pb_field_set_to_default env (Suc k) (iter_at fs dest i) h = Some g \<and> alters (area fs dest i) h g \<and>
    (PB_HTYPE (ftype (fs ! i)) = PB_HTYPE_OPTIONAL \<longrightarrow> (size_offset (fs ! i) = 0 \<longrightarrow> PB_LTYPE (ftype (fs ! i)) \<noteq> PB_LTYPE_FIXED_LENGTH_BYTES) \<longrightarrow>
       field_represents g (iter_at fs dest i) None)"
proof -
  let ?f = "fs ! i" and ?it = "iter_at fs dest i"
  have hk: "heap_ok h" using h(1) by (simp add: memory_ok_def)
  note s = plain_storage [OF m i hk h(2)]
  have ht: "PB_HTYPE (ftype ?f) \<in> {PB_HTYPE_REQUIRED, PB_HTYPE_OPTIONAL}" "PB_LTYPE (ftype ?f) \<noteq> PB_LTYPE_SUBMESSAGE"
    using m i by (auto simp: plain_message_def)
  have st: "PB_ATYPE (ftype ?f) = PB_ATYPE_STATIC" "PB_LTYPE (ftype ?f) \<noteq> PB_LTYPE_EXTENSION"
    using s(2) by (simp_all add: static_field_def Let_def)
  have d: "0 < data_size ?f" "PB_LTYPE (ftype ?f) = PB_LTYPE_BYTES \<Longrightarrow> 4 \<le> data_size ?f"
    "PB_HTYPE (ftype ?f) = PB_HTYPE_OPTIONAL \<Longrightarrow> size_offset ?f = 0 \<Longrightarrow> ptr ?f = 0"
    using w i by (auto simp: well_laid_def Let_def split: if_splits)
  have unf: "pb_field_set_to_default env (Suc k) ?it h =
      do { g \<leftarrow> set_flag ?it False h;
           (if ptr ?f \<noteq> 0 then do { bs \<leftarrow> load_bytes g (ptr ?f) (data_size ?f); store_mem g (pData ?it) bs }
            else store_mem g (pData ?it) (replicate (data_size ?f) 0)) }"
    using ht st plain_positions(1) [OF m i, of dest] by (auto simp: set_flag_def s(1) Let_def)
  show ?thesis
  proof (cases "ptr ?f = 0")
    case True
    obtain g mem where g: "pb_field_set_to_default env (Suc k) ?it h = Some g" "alters (area fs dest i) h g"
      "region g (pData ?it) = Some mem" "data_size ?f \<le> length mem" "take (data_size ?f) mem = replicate (data_size ?f) 0"
      "PB_HTYPE (ftype ?f) = PB_HTYPE_OPTIONAL \<longrightarrow> size_offset ?f \<noteq> 0 \<longrightarrow> load_bool g (pData ?it + size_offset ?f) = Some False"
      using store_field [OF m w i hk h(2), of "replicate (data_size ?f) 0" False] True d(1) unfolding unf by auto
    then show ?thesis using zeros_are_default [OF g(3,4,5) d(1,2)]
      by (intro exI [of _ g]) (auto simp: field_represents_def s(1) Let_def)
  next
    case False
    have so: "size_offset ?f \<noteq> 0" if "PB_HTYPE (ftype ?f) = PB_HTYPE_OPTIONAL" using that d(3) False by auto
    obtain g0 where g0: "set_flag ?it False h = Some g0" "alters UNIV h g0"
      using s(4) hsafe_store_bool [of h "pSize ?it" UNIV False]
      by (cases "PB_HTYPE (ftype ?f) = PB_HTYPE_OPTIONAL \<and> size_offset ?f \<noteq> 0") (auto simp: set_flag_def s(1) hsafe_def)
    have "?f \<in> set fs" using m i by (auto simp: plain_message_def message_fields_def)
    then have "room g0 (ptr ?f) (data_size ?f)"
      using h(1) fs False ht(2) unfolding memory_ok_def defaults_present_def alters_room [OF g0(2)] by blast
    then obtain bs where bs: "load_bytes g0 (ptr ?f) (data_size ?f) = Some bs" "length bs = data_size ?f" using load_bytes_room by blast
    then have ne: "bs \<noteq> []" using d(1) by auto
    obtain g where g: "do { g \<leftarrow> set_flag ?it False h; store_mem g (pData ?it) bs } = Some g" "alters (area fs dest i) h g"
      "PB_HTYPE (ftype ?f) = PB_HTYPE_OPTIONAL \<longrightarrow> size_offset ?f \<noteq> 0 \<longrightarrow> load_bool g (pData ?it + size_offset ?f) = Some False"
      using store_field [OF m w i hk h(2), of bs False] bs(2) ne by auto
    have "pb_field_set_to_default env (Suc k) ?it h = Some g" using g(1) g0(1) bs(1) False unfolding unf by simp
    then show ?thesis using g(2,3) so by (auto simp: field_represents_def s(1) Let_def)
  qed
qed

text \<open>A loop that establishes something of each field in its area.\<close>

lemma iter_loop_each:
  assumes m: "message_fields n fs"
    and step: "\<And>i g. i < n \<Longrightarrow> alters UNIV h g \<Longrightarrow> \<exists>g'. f (iter_at fs dest i) g = Some g' \<and> alters (B i) g g' \<and> Q i g'"
    and stable: "\<And>i j g g'. i < n \<Longrightarrow> j < n \<Longrightarrow> i \<noteq> j \<Longrightarrow> alters UNIV h g \<Longrightarrow> Q i g \<Longrightarrow> alters (B j) g g' \<Longrightarrow> Q i g'"
  shows "i < n \<Longrightarrow> n - i \<le> k \<Longrightarrow> alters UNIV h g \<Longrightarrow> (\<forall>j<i. Q j g) \<Longrightarrow> \<exists>g'. iter_loop f k (iter_at fs dest i) g = Some g' \<and> (\<forall>j<n. Q j g')"
proof (induction k arbitrary: i g)
  case 0
  then show ?case by simp
next
  case (Suc k)
  obtain b it where it: "pb_field_iter_next (iter_at fs dest i) = (b, it)" by fastforce
  with iter_at_next [OF m Suc.prems(1), of dest] have b: "b \<longleftrightarrow> Suc i \<noteq> n" "Suc i \<noteq> n \<Longrightarrow> it = iter_at fs dest (Suc i)" by simp_all
  obtain g' where g': "f (iter_at fs dest i) g = Some g'" "alters (B i) g g'" "Q i g'" using step [OF Suc.prems(1,3)] by blast
  have al: "alters UNIV h g'" using alters_trans [OF Suc.prems(3)] alters_mono [OF g'(2)] by blast
  have Q: "\<forall>j < Suc i. Q j g'"
  proof (intro allI impI)
    fix j assume "j < Suc i"
    then show "Q j g'" using g' stable [OF _ Suc.prems(1) _ Suc.prems(3), of j g'] Suc.prems(1,4) by (cases "j = i") auto
  qed
  show ?case
  proof (cases "Suc i = n")
    case True
    then show ?thesis using g'(1) b Q by (simp add: it)
  next
    case False
    then show ?thesis using g'(1) b Suc.IH [of "Suc i" g'] Suc.prems(1,2) al Q by (simp add: it)
  qed
qed

section \<open>Decoding what was encoded\<close>

lemma defaults_represent:
  assumes m: "plain_message sz n fs" and w: "well_laid n fs" and h: "memory_ok env h" "room h dest sz"
    and fs: "dec_fields env a = Some fs" and d: "pb_message_set_to_defaults env (Suc k) fs dest h = Some g"
    and i: "i < n" "PB_HTYPE (ftype (fs ! i)) = PB_HTYPE_OPTIONAL" "size_offset (fs ! i) = 0 \<Longrightarrow> PB_LTYPE (ftype (fs ! i)) \<noteq> PB_LTYPE_FIXED_LENGTH_BYTES"
  shows "field_represents g (iter_at fs dest i) None"
proof -
  let ?c = "\<lambda>i. PB_HTYPE (ftype (fs ! i)) = PB_HTYPE_OPTIONAL \<and> (size_offset (fs ! i) = 0 \<longrightarrow> PB_LTYPE (ftype (fs ! i)) \<noteq> PB_LTYPE_FIXED_LENGTH_BYTES)"
  let ?Q = "\<lambda>i g. ?c i \<longrightarrow> field_represents g (iter_at fs dest i) None"
  have mf: "message_fields n fs" and n: "0 < n" using m by (simp_all add: plain_message_def)
  have kept: "memory_ok env g" "heap_ok g" "room g dest sz" if "alters UNIV h g" for g
    using h memory_ok_alters [OF that, of env] by (simp_all add: alters_room [OF that] memory_ok_def)
  have "\<exists>g'. iter_loop (pb_field_set_to_default env (Suc k)) (Suc n) (iter_at fs dest 0) h = Some g' \<and> (\<forall>j<n. ?Q j g')"
  proof (rule iter_loop_each [OF mf, where B = "area fs dest" and h = h])
    fix i g assume i: "i < n" and g: "alters UNIV h g"
    show "\<exists>g'. pb_field_set_to_default env (Suc k) (iter_at fs dest i) g = Some g' \<and> alters (area fs dest i) g g' \<and> ?Q i g'"
      using default_represents [OF m w i kept(1,3) [OF g] fs, of k] by auto
  next
    fix i j g g' assume ij: "i < n" "j < n" "i \<noteq> j" and g: "alters UNIV h g" "?Q i g" "alters (area fs dest j) g g'"
    show "?Q i g'"
      using field_represents_alters [OF m w ij(1) kept(2,3) [OF g(1)] _ g(3)] g(2) area_disjoint [OF m ij(2,1)] ij(3) by auto
  qed (use n in auto)
  moreover have "pb_field_iter_begin fs dest = (True, iter_at fs dest 0)"
    using mf n by (auto simp: message_fields_def pb_field_iter_begin_def iter_at.simps Let_def)
  moreover have "length fs = Suc n" using mf by (simp add: message_fields_def)
  ultimately have "\<forall>j<n. ?Q j g" using d by (auto simp: pb_message_set_to_defaults_def message_loop_def simp del: iter_loop.simps)
  then show ?thesis using i by blast
qed

lemma apply_items_append: "apply_items fs dest (xs @ ys) h = do { h \<leftarrow> apply_items fs dest xs h; apply_items fs dest ys h }"
  by (induction xs arbitrary: h) (auto split: Option.bind_splits)

lemma present_represents:
  assumes m: "plain_message sz n fs" and w: "well_laid n fs" and h: "heap_ok h" "room h dest sz"
    and r: "represents src fs n p vals" and none: "\<And>i. i < n \<Longrightarrow> vals i = None \<Longrightarrow> field_represents h (iter_at fs dest i) None"
  shows "k \<le> n \<Longrightarrow> \<exists>g. apply_items fs dest (present vals 0 k) h = Some g \<and> alters UNIV h g \<and>
    (\<forall>i<n. i < k \<or> vals i = None \<longrightarrow> field_represents g (iter_at fs dest i) (vals i))"
proof (induction k)
  case 0
  then show ?case using none by auto
next
  case (Suc k)
  then obtain g where g: "apply_items fs dest (present vals 0 k) h = Some g" "alters UNIV h g"
    "\<forall>i<n. i < k \<or> vals i = None \<longrightarrow> field_represents g (iter_at fs dest i) (vals i)" by auto
  show ?case
  proof (cases "vals k")
    case None
    then show ?thesis using g by (auto simp: present_snoc less_Suc_eq)
  next
    case (Some v)
    have k: "k < n" using Suc.prems by simp
    have g': "heap_ok g" "room g dest sz" using h by (simp_all add: alters_room [OF g(2)] alters_heap_ok [OF g(2)])
    have "field_represents src (iter_at fs p k) (Some v)" using r k Some by (auto simp: represents_def)
    from apply_represents [OF m w k g' this] obtain g2 where
      g2: "apply_item fs dest (Known k v) g = Some g2" "alters (area fs dest k) g g2" "field_represents g2 (iter_at fs dest k) (Some v)" by blast
    have "alters UNIV h g2" using alters_trans [OF g(2)] alters_mono [OF g2(2)] by blast
    moreover have "field_represents g2 (iter_at fs dest i) (vals i)" if i: "i < n" "i < Suc k \<or> vals i = None" for i
    proof (cases "i = k")
      case True
      then show ?thesis using g2(3) Some by simp
    next
      case False
      then show ?thesis using field_represents_alters [OF m w i(1) g' _ g2(2)] g(3) i area_disjoint [OF m k i(1)] by auto
    qed
    ultimately show ?thesis using g(1) g2(1) Some
      by (intro exI [of _ g2]) (simp add: present_snoc apply_items_append del: apply_item.simps)
  qed
qed

lemma length_present: "length (present vals i k) \<le> k - i"
proof -
  have "length (concat (map (\<lambda>j. case vals j of None \<Rightarrow> [] | Some v \<Rightarrow> [Known j v]) xs)) \<le> length xs" for xs
    by (induction xs) (auto split: option.split)
  from this [of "[i..<k]"] show ?thesis by (simp add: present_def)
qed

lemma in_present: "x \<in> set (present vals 0 n) \<longleftrightarrow> (\<exists>i v. i < n \<and> vals i = Some v \<and> x = Known i v)"
  by (force simp: present_def split: option.splits)

text \<open>
  C15. A message survives the trip. If the struct at one address represents some values, encoding it into
  a buffer with room for them succeeds, and decoding the bytes into another struct, wherever it is and whatever
  was in it, succeeds and leaves a struct that represents the same values: integers, booleans, fixed-width
  numbers, strings and byte arrays, required or optional, with or without a flag.
\<close>

theorem message_roundtrip:
  fixes eenv :: "'o enc_env" and env :: "'s dec_env"
  assumes "static_messages env rk sz" "dec_fields env a = Some fs" "local_ok env"
    and "plain_message (sz a) n fs" "well_laid n fs"
    and "represents (env_heap eenv) fs n p vals" "0 < p"
    and "memory_ok env h" "room h dest (sz a)"
    and "length (msg_bytes fs (present vals 0 n)) \<le> cap" "cap < 2 ^ 63"
    and "1 < efuel" "rk a + n + 1 < fuel"
  shows "\<exists>s bs s' h'. pb_encode eenv efuel fs p (pb_ostream_from_buffer cap) = Some (True, s) \<and> out_sink s = OutBuffer bs \<and>
    pb_decode env fuel fs dest (pb_istream_from_buffer bs (length bs)) h = Some (True, s', h') \<and> represents h' fs n dest vals"
proof -
  let ?items = "present vals 0 n" and ?s = "pb_ostream_from_buffer cap :: 'o pb_ostream"
  note m = assms(4) and w = assms(5)
  have hk: "heap_ok h" using assms(8) by (simp add: memory_ok_def)
  have mf: "message_fields n fs" using m by (simp add: plain_message_def)
  have cur: "cur_field (iter_at fs q i) = fs ! i" if "i < n" for q i using iter_at_inside [OF mf that, of q] by (simp add: cur_field_def)
  have rep: "field_represents (env_heap eenv) (iter_at fs p i) (vals i)" if "i < n" for i
    using assms(6) that by (simp add: represents_def)
  obtain e k where e: "efuel = Suc (Suc e)" "fuel = Suc k"
    by (rule that [of "efuel - 2" "fuel - 1"]) (use assms(12,13) in arith)+
  have em: "emits (pb_encode eenv efuel fs p) (msg_bytes fs ?items) True" unfolding e by (rule encode_emits [OF m assms(7,6)])
  have len: "length (msg_bytes fs ?items) < 2 ^ 63" "live ?s" using assms(10,11) live_from_buffer by auto
  have "writes (pb_encode eenv efuel fs p) (msg_bytes fs ?items) ?s"
    using em len by (simp add: emits_def fills_def)
  then obtain s where s: "pb_encode eenv efuel fs p ?s = Some (True, s)" "out_sink s = OutBuffer (msg_bytes fs ?items)"
    using assms(10) by (auto simp: writes_def)
  have "value_ok (fs ! i) v" if "i < n" "vals i = Some v" for i v
    using rep [OF that(1)] that by (simp add: field_represents_def cur holds_def Let_def)
  then have ok: "list_all (msg_item_ok n fs) ?items" by (auto simp: list_all_iff in_present)
  obtain h0 h' s' where d: "pb_message_set_to_defaults env fuel fs dest h = Some h0" "alters UNIV h h0" "apply_items fs dest ?items h0 = Some h'"
    "pb_decode env fuel fs dest (pb_istream_from_buffer (msg_bytes fs ?items) (length (msg_bytes fs ?items))) h =
      Some (required_given n fs ?items, s', h')"
    using decode_applies [OF assms(1,2,3,8,9) m ok, of fuel] assms(13) length_present [of vals 0 n] by auto
  have h0: "heap_ok h0" "room h0 dest (sz a)" using hk assms(9) by (simp_all add: alters_room [OF d(2)] alters_heap_ok [OF d(2)])
  have none: "field_represents h0 (iter_at fs dest i) None" if i: "i < n" "vals i = None" for i
  proof (rule defaults_represent [OF m w assms(8,9,2) d(1) [unfolded e(2)] i(1)])
    show "PB_HTYPE (ftype (fs ! i)) = PB_HTYPE_OPTIONAL"
      using rep [OF i(1)] i by (simp add: field_represents_def cur Let_def)
    then show "PB_LTYPE (ftype (fs ! i)) \<noteq> PB_LTYPE_FIXED_LENGTH_BYTES" if "size_offset (fs ! i) = 0"
      using rep [OF i(1)] i that w by (auto simp: field_represents_def cur zero_check_def well_laid_def Let_def)
  qed
  obtain g where "apply_items fs dest ?items h0 = Some g" "\<forall>i<n. field_represents g (iter_at fs dest i) (vals i)"
    using present_represents [OF m w h0 assms(6) none, of n] by auto
  then have "represents h' fs n dest vals" using d(3) by (simp add: represents_def)
  moreover have "required_given n fs ?items"
  proof -
    have "vals i \<noteq> None" if "i < n" "is_required (fs ! i)" for i
      using rep [OF that(1)] that by (auto simp: field_represents_def cur is_required_def Let_def split: option.splits)
    then show ?thesis by (fastforce simp: required_given_def in_present)
  qed
  ultimately show ?thesis using s d(4) by auto
qed

text \<open>A struct with the string \<open>b\<close>, encoded and decoded into a struct full of other bytes.\<close>

definition text_env :: "unit enc_env" where
  "text_env = \<lparr> env_heap = [(100, [1, 0x62, 0, 5, 5, 5, 5, 5])], env_fields = (\<lambda>_. None),
     env_call = (\<lambda>_ s _ _. (True, s)), env_ext_call = (\<lambda>_ s _. (True, s)) \<rparr>"

theorem message_roundtrip_witness:
  "\<exists>s bs s' h'. pb_encode text_env 2 report_text 100 (pb_ostream_from_buffer 20) = Some (True, s) \<and> out_sink s = OutBuffer bs \<and>
    pb_decode report_env 9 report_text 300 (pb_istream_from_buffer bs (length bs) :: unit pb_istream) [(300, [9, 9, 9, 9, 9, 9, 9, 9])] =
      Some (True, s', h') \<and> represents h' report_text 1 300 [0 \<mapsto> [0x62, 0]]"
proof -
  let ?h = "[(300, [9, 9, 9, 9, 9, 9, 9, 9])] :: heap" and ?vals = "[0 \<mapsto> [0x62, 0]] :: nat \<Rightarrow> u8 list option"
  note eval = report_text_def iter_at.simps pb_field_iter_begin_def cur_field_def report_types Let_def
  have p: "plain_message (report_size 2000) 1 report_text"
    by (simp add: plain_message_def message_fields_def field_fits_def static_field_def entries_def counted_def report_size_def eval)
  have w: "well_laid 1 report_text" by (simp add: well_laid_def eval)
  have r: "represents (env_heap text_env) report_text 1 100 ?vals"
    by (simp add: represents_def field_represents_def holds_def value_ok_def inside_def text_env_def load_bool_def safe_read_bool_def eval)
  have l: "local_ok report_env" "dec_fields report_env 2000 = Some report_text"
    using after_all_apart by (simp_all add: report_env_def local_ok_def)
  have m: "memory_ok report_env ?h" "room ?h 300 (report_size 2000)"
    by (auto simp: memory_ok_def defaults_present_def report_env_def report_def room_def inside_def report_size_def eval split: if_splits)
  have b: "length (msg_bytes report_text (present ?vals 0 1)) \<le> 20"
    by (simp add: msg_bytes_def present_def value_bytes_def string_bytes_def field_wire_type_def varint_bytes_short wire_types eval)
  have "report_rank 2000 + 1 + 1 < (9 :: nat)" by (simp add: report_rank_def)
  from message_roundtrip [OF report_static l(2,1) p w r _ m b _ _ this, of 2] show ?thesis by simp
qed

end
