(* ===== verification/PbEncTotal.thy ===== *)
theory PbEncTotal
  imports PbExact PbSafe
begin

text \<open>
  The encoder returns. For message tables with static fields whose structs are in memory, whatever the structs hold, no
  read of the encoder is outside them and its recursion ends within fuel of the rank of the message, so the result, which
  is \<open>None\<close> for an invalid access and for want of fuel, is never \<open>None\<close>.
\<close>

section \<open>Encoders that return\<close>

definition returns :: "'o encoder \<Rightarrow> bool" where
  "returns e \<longleftrightarrow> (\<forall>s. e s \<noteq> None)"

lemma returns_seq: "returns e1 \<Longrightarrow> returns e2 \<Longrightarrow> returns (enc_seq e1 e2)"
  by (auto simp: returns_def enc_seq_def split: option.split)

lemma returns_basic [simp]: "returns enc_ok" "returns (enc_fail msg)" "returns (enc_call f)"
  by (simp_all add: returns_def enc_ok_def enc_fail_def enc_call_def)

lemma returns_read: "r \<noteq> None \<Longrightarrow> (\<And>v. r = Some v \<Longrightarrow> returns (k v)) \<Longrightarrow> returns (enc_read r k)"
  by (cases r) (auto simp: returns_def enc_read_def)

lemma returns_if: "(c \<Longrightarrow> returns e) \<Longrightarrow> (\<not> c \<Longrightarrow> returns e') \<Longrightarrow> returns (if c then e else e')"
  by simp

lemma returns_submessage:
  assumes "returns e"
  shows "returns (pb_encode_submessage e)"
proof -
  have ne: "e s \<noteq> None" for s using assms by (simp add: returns_def)
  have "returns (submessage_body e n)" for n
    unfolding returns_def submessage_body_def enc_fail_def Let_def
    by (auto simp only: ne split: option.split prod.split if_split)
  then have "returns (enc_seq (enc_call g) (submessage_body e n))" for g n by (simp add: returns_seq)
  then show ?thesis
    unfolding returns_def pb_encode_submessage_def Let_def
    by (auto simp only: ne split: option.split prod.split bool.split)
qed

lemma returns_entries: "(\<And>k. k < n \<Longrightarrow> returns (f (p + int (k * w)))) \<Longrightarrow> returns (enc_entries f w n p)"
proof (induction n arbitrary: p)
  case 0
  then show ?case by simp
next
  case (Suc n)
  have "returns (f ((p + int w) + int (k * w)))" if "k < n" for k
    using Suc.prems [of "Suc k"] that by (simp add: algebra_simps)
  then show ?case using Suc.IH Suc.prems [of 0] by (simp add: returns_seq)
qed

section \<open>Tables whose structs can be read\<close>

text \<open>
  A field at \<open>pData\<close> in a struct of \<open>n\<close> bytes: it has the storage its type needs, and its \<open>has_\<close>, \<open>_count\<close> or \<open>which_\<close>
  member, where the encoder looks for it, is in the struct.
\<close>

definition field_readable :: "nat \<Rightarrow> int pb_field_iter \<Rightarrow> bool" where
  "field_readable n it \<longleftrightarrow>
     (let f = cur_field it; p = pData it; flag = p + size_offset f; t = PB_LTYPE (ftype f)
      in static_field f \<and> 1 \<le> data_size f \<and> (t = PB_LTYPE_BYTES \<longrightarrow> 4 \<le> data_size f) \<and>
         0 \<le> p \<and> p + int (data_size f * entries f) \<le> int n \<and>
         (PB_HTYPE (ftype f) = PB_HTYPE_OPTIONAL \<and> size_offset f \<noteq> 0 \<longrightarrow> 0 \<le> flag \<and> flag + 1 \<le> int n) \<and>
         (counted f \<and> size_offset f \<noteq> 0 \<longrightarrow> 0 \<le> flag \<and> flag + 4 \<le> int n) \<and>
         (PB_HTYPE (ftype f) = PB_HTYPE_ONEOF \<longrightarrow> size_offset f \<noteq> 0))"

text \<open>\<open>sz\<close> is the size of the struct of the table at an address, \<open>rk\<close> a rank that submessages decrease.\<close>

definition readable_message :: "'o enc_env \<Rightarrow> (int \<Rightarrow> nat) \<Rightarrow> (int \<Rightarrow> nat) \<Rightarrow> int \<Rightarrow> int pb_field list \<Rightarrow> bool" where
  "readable_message env rk sz a fs \<longleftrightarrow>
     (\<exists>n. message_fields n fs \<and> PB_LTYPE (ftype (fs ! n)) \<notin> {PB_LTYPE_SUBMESSAGE, PB_LTYPE_EXTENSION} \<and>
        (\<forall>i<n. field_readable (sz a) (iter_at fs 0 i) \<and>
           (PB_LTYPE (ftype (fs ! i)) = PB_LTYPE_SUBMESSAGE \<longrightarrow>
              (\<exists>gs. env_fields env (ptr (fs ! i)) = Some gs) \<and> rk (ptr (fs ! i)) < rk a \<and>
              sz (ptr (fs ! i)) \<le> data_size (fs ! i))))"

definition readable_messages :: "'o enc_env \<Rightarrow> (int \<Rightarrow> nat) \<Rightarrow> (int \<Rightarrow> nat) \<Rightarrow> bool" where
  "readable_messages env rk sz \<longleftrightarrow> (\<forall>a fs. env_fields env a = Some fs \<longrightarrow> readable_message env rk sz a fs)"

text \<open>The same for a struct at an address of the heap.\<close>

definition field_there :: "heap \<Rightarrow> int pb_field \<Rightarrow> int \<Rightarrow> bool" where
  "field_there h f p \<longleftrightarrow>
     static_field f \<and> 1 \<le> data_size f \<and> (PB_LTYPE (ftype f) = PB_LTYPE_BYTES \<longrightarrow> 4 \<le> data_size f) \<and>
     room h p (data_size f * entries f) \<and>
     (PB_HTYPE (ftype f) = PB_HTYPE_OPTIONAL \<and> size_offset f \<noteq> 0 \<longrightarrow> room h (p + size_offset f) 1) \<and>
     (counted f \<and> size_offset f \<noteq> 0 \<longrightarrow> room h (p + size_offset f) 4) \<and>
     (PB_HTYPE (ftype f) = PB_HTYPE_ONEOF \<longrightarrow> size_offset f \<noteq> 0)"

lemma field_readable_there:
  assumes "message_fields n fs" "i < n" "field_readable k (iter_at fs 0 i)" "heap_ok h" "room h dest k"
  shows "field_there h (fs ! i) (pData (iter_at fs dest i))"
proof -
  let ?z = "iter_at fs 0 i"
  have c: "cur_field ?z = fs ! i" using iter_at_inside [OF assms(1,2), of 0] by (simp add: cur_field_def)
  have p: "pData (iter_at fs dest i) = pData ?z + dest" using iter_at_shift [OF assms(1,2), of dest] by simp
  have part: "room h (q + dest) w" if "0 \<le> q" "q + int w \<le> int k" for q w
    using room_shift [OF assms(4,5), of "nat q" w] that by (simp add: add.commute)
  show ?thesis
    using assms(3) part [of "pData ?z"] part [of "pData ?z + size_offset (fs ! i)"]
    by (simp add: field_readable_def field_there_def c p Let_def algebra_simps)
qed

lemma readable_messageE:
  assumes "readable_messages env rk sz" "env_fields env a = Some fs"
  obtains n where "message_fields n fs" "PB_LTYPE (ftype (fs ! n)) \<notin> {PB_LTYPE_SUBMESSAGE, PB_LTYPE_EXTENSION}"
    "\<And>i. i < n \<Longrightarrow> field_readable (sz a) (iter_at fs 0 i)"
    "\<And>i. i < n \<Longrightarrow> PB_LTYPE (ftype (fs ! i)) = PB_LTYPE_SUBMESSAGE \<Longrightarrow>
       (\<exists>gs. env_fields env (ptr (fs ! i)) = Some gs) \<and> rk (ptr (fs ! i)) < rk a \<and> sz (ptr (fs ! i)) \<le> data_size (fs ! i)"
proof -
  have "readable_message env rk sz a fs" using assms by (simp add: readable_messages_def)
  then show ?thesis unfolding readable_message_def by (elim exE conjE) (rule that, blast+)
qed

lemma readable_ranked:
  assumes "readable_messages env rk sz"
  shows "ranked env rk"
  unfolding ranked_def
proof (intro allI impI)
  fix a fs assume e: "env_fields env a = Some fs"
  obtain n where n: "message_fields n fs" "PB_LTYPE (ftype (fs ! n)) \<notin> {PB_LTYPE_SUBMESSAGE, PB_LTYPE_EXTENSION}"
    "\<And>i. i < n \<Longrightarrow> field_readable (sz a) (iter_at fs 0 i)"
    "\<And>i. i < n \<Longrightarrow> PB_LTYPE (ftype (fs ! i)) = PB_LTYPE_SUBMESSAGE \<Longrightarrow>
       (\<exists>gs. env_fields env (ptr (fs ! i)) = Some gs) \<and> rk (ptr (fs ! i)) < rk a \<and> sz (ptr (fs ! i)) \<le> data_size (fs ! i)"
    by (rule readable_messageE [OF assms e]) blast
  have inside: "PB_LTYPE (ftype (fs ! i)) \<noteq> PB_LTYPE_EXTENSION" if "i < n" for i
    using n(3) [OF that] iter_at_inside [OF n(1) that, of 0]
    by (simp add: field_readable_def static_field_def cur_field_def Let_def)
  have "PB_LTYPE (ftype f) \<noteq> PB_LTYPE_EXTENSION \<and> (PB_LTYPE (ftype f) = PB_LTYPE_SUBMESSAGE \<longrightarrow> rk (ptr f) < rk a)"
    if f: "f \<in> set fs" for f
  proof -
    obtain i where i: "i < Suc n" "f = fs ! i" using f n(1) by (auto simp: in_set_conv_nth message_fields_def)
    show ?thesis using n(2) inside [of i] n(4) [of i] i by (cases "i = n") auto
  qed
  with n(1) show "(\<exists>n. message_fields n fs) \<and>
      (\<forall>f\<in>set fs. PB_LTYPE (ftype f) \<noteq> PB_LTYPE_EXTENSION \<and>
        (PB_LTYPE (ftype f) = PB_LTYPE_SUBMESSAGE \<longrightarrow> rk (ptr f) < rk a))" by blast
qed

section \<open>Reads inside the struct\<close>

lemma bounded_strlen_le: "bounded_strlen limit p \<le> limit \<and> bounded_strlen limit p \<le> length p"
  by (induction limit p rule: bounded_strlen.induct) auto

lemma room_region:
  assumes "room h p n" "1 \<le> n"
  obtains src where "region h p = Some src" "n \<le> length src"
  using assms by (auto simp: room_def)

lemma load_some:
  "room h p 4 \<Longrightarrow> load_size h p \<noteq> None"
  "room h p n \<Longrightarrow> 1 \<le> n \<Longrightarrow> load_bool h p \<noteq> None"
  "room h p n \<Longrightarrow> 1 \<le> n \<Longrightarrow> load_mem h p 1 \<noteq> None"
  "room h p n \<Longrightarrow> all_zero h p n \<noteq> None"
  by (auto simp: room_def load_size_def load_mem_def load_bool_def all_zero_def Let_def)

lemma static_or_pointer: "static_field f \<Longrightarrow> \<not> is_pointer f"
  by (simp add: static_field_def is_pointer_def Let_def)

text \<open>An element of the field, at an address with room for it.\<close>

lemma returns_value:
  assumes f: "static_field f" "1 \<le> data_size f" "PB_LTYPE (ftype f) = PB_LTYPE_BYTES \<longrightarrow> 4 \<le> data_size f"
    and r: "room (env_heap env) p (data_size f)"
    and sub: "PB_LTYPE (ftype f) = PB_LTYPE_SUBMESSAGE \<Longrightarrow> \<exists>gs. env_fields env (ptr f) = Some gs \<and> returns (sub gs p)"
  shows "returns (enc_value env sub f p)"
proof -
  obtain src where src: "region (env_heap env) p = Some src" "data_size f \<le> length src"
    by (rule room_region [OF r f(2)])
  have t: "PB_LTYPE (ftype f) \<le> PB_LTYPE_FIXED_LENGTH_BYTES" "PB_LTYPE (ftype f) \<noteq> PB_LTYPE_EXTENSION"
    "PB_LTYPE (ftype f) = PB_LTYPE_BOOL \<longrightarrow> 1 \<le> data_size f" "PB_LTYPE (ftype f) = PB_LTYPE_FIXED32 \<longrightarrow> 4 \<le> data_size f"
    "PB_LTYPE (ftype f) = PB_LTYPE_FIXED64 \<longrightarrow> 8 \<le> data_size f" "PB_ATYPE (ftype f) = PB_ATYPE_STATIC"
    using f(1) by (simp_all add: static_field_def Let_def)
  have scalar: "returns (enc_read (region (env_heap env) p) (\<lambda>src. if n \<le> length src then enc_call (g src) else (\<lambda>_. None)))"
    if "n \<le> data_size f" for n g
    using src that by (simp add: enc_read_def returns_def enc_call_def)
  have bytes: "bytes_readable f src" if "4 \<le> data_size f"
  proof (cases "data_size f < PB_BYTES_ARRAY_T_ALLOCSIZE (load 4 src)")
    case False
    have "load 4 src < 256 ^ 4" using src that by (intro load_less) simp
    then have "PB_BYTES_ARRAY_T_ALLOCSIZE (load 4 src) = load 4 src + 4"
      unfolding PB_BYTES_ARRAY_T_ALLOCSIZE_def by (intro size_t_id) (simp add: SIZE_MAX_def)
    then show ?thesis using False src that t by (simp add: bytes_readable_def)
  qed (use src that t in \<open>simp add: bytes_readable_def\<close>)
  have string: "string_readable f src"
    using bounded_strlen_le [of "data_size f" src] src static_or_pointer [OF f(1)]
    by (auto simp: string_readable_def Let_def)
  have sub': "returns (pb_enc_submessage env sub f p)" if "PB_LTYPE (ftype f) = PB_LTYPE_SUBMESSAGE"
    using sub [OF that] by (auto simp: pb_enc_submessage_def enc_read_def [abs_def] returns_submessage)
  have small: "k = 0 \<or> k = 1 \<or> k = 2 \<or> k = 3 \<or> k = 4 \<or> k = 5 \<or> k = 6 \<or> k = 7 \<or> k = 8 \<or> k = 9 \<or> k = 10"
    if "k \<le> 10" for k :: nat using that by presburger
  have "unat (PB_LTYPE (ftype f)) \<le> 10" using t(1) by (simp add: word_le_nat_alt)
  from small [OF this] have ty: "PB_LTYPE (ftype f) \<in> {0, 1, 2, 3, 4, 5, 6, 7, 8, 9, 10}" by (auto simp: word_unat_eq_iff)
  have b: "returns (enc_read (region (env_heap env) p) (\<lambda>src. if bytes_readable f src then enc_call (g src) else (\<lambda>_. None)))"
    if "4 \<le> data_size f" for g using src bytes [OF that] by (simp add: enc_read_def returns_def enc_call_def)
  have st: "returns (enc_read (region (env_heap env) p) (\<lambda>src. if string_readable f src then enc_call (g src) else (\<lambda>_. None)))"
    for g using src string by (simp add: enc_read_def returns_def enc_call_def)
  show ?thesis
    unfolding enc_value_def Let_def
    by (intro returns_if scalar b st sub' returns_basic) (use t(2-5) f(2,3) ty in auto)
qed

text \<open>The entries of an array, up to the number the struct has room for.\<close>

lemma returns_array:
  assumes f: "static_field f" "1 \<le> data_size f" "PB_LTYPE (ftype f) = PB_LTYPE_BYTES \<longrightarrow> 4 \<le> data_size f"
    and h: "heap_ok (env_heap env)" "room (env_heap env) p (data_size f * array_size f)"
    and sub: "\<And>q. PB_LTYPE (ftype f) = PB_LTYPE_SUBMESSAGE \<Longrightarrow> room (env_heap env) q (data_size f) \<Longrightarrow>
      \<exists>gs. env_fields env (ptr f) = Some gs \<and> returns (sub gs q)"
  shows "returns (encode_array env sub f p n)"
proof -
  have at: "PB_ATYPE (ftype f) = PB_ATYPE_STATIC" using f(1) by (simp add: static_field_def Let_def)
  have elem: "returns (enc_value env sub f (p + int (k * data_size f)))" if "k < n" "n \<le> array_size f" for k
  proof -
    have "Suc k * data_size f \<le> array_size f * data_size f" using that by (intro mult_le_mono1) simp
    then have "room (env_heap env) (p + int (k * data_size f)) (data_size f)"
      by (intro room_shift [OF h]) (simp add: mult.commute)
    then show ?thesis using returns_value [OF f] sub by blast
  qed
  have entries: "returns (enc_entries (enc_value env sub f) (data_size f) n p)" if "n \<le> array_size f"
    using elem that by (intro returns_entries) simp
  then have ps: "packed_size f n (enc_entries (enc_value env sub f) (data_size f) n p) \<noteq> None" if fits: "n \<le> array_size f"
  proof -
    obtain ok z where "enc_entries (enc_value env sub f) (data_size f) n p PB_OSTREAM_SIZING = Some (ok, z)"
      using entries [OF fits] by (force simp: returns_def)
    then show ?thesis by (simp add: packed_size_def)
  qed
  have packed: "returns (\<lambda>s. if is_sizing s then Some (True, s\<lparr> bytes_written := size_t (bytes_written s + z) \<rparr>)
      else enc_entries (enc_value env sub f) (data_size f) n p s)" if "n \<le> array_size f" for z
    using entries [OF that] by (auto simp: returns_def)
  have each: "returns (enc_entries (\<lambda>p. enc_seq (enc_call (\<lambda>s. pb_encode_tag_for_field s f)) (enc_value env sub f p)) (data_size f) n p)"
    if "n \<le> array_size f" using elem that by (intro returns_entries returns_seq returns_basic) simp
  have np: "\<not> (PB_ATYPE (ftype f) = PB_ATYPE_POINTER \<and> (PB_LTYPE (ftype f) = PB_LTYPE_STRING \<or> PB_LTYPE (ftype f) = PB_LTYPE_BYTES))"
    using at by simp
  have no: "returns (\<lambda>s. Some (False, s))" by (simp add: returns_def)
  show ?thesis
    unfolding encode_array_def Let_def if_not_P [OF np]
    by (intro returns_if returns_seq returns_read returns_basic)
      (use at ps packed each no in \<open>auto split: option.split intro!: returns_seq\<close>)
qed

text \<open>A field at its place in the struct.\<close>

lemma returns_field:
  assumes f: "field_there (env_heap env) f p" and h: "heap_ok (env_heap env)"
    and sub: "\<And>q. PB_LTYPE (ftype f) = PB_LTYPE_SUBMESSAGE \<Longrightarrow> room (env_heap env) q (data_size f) \<Longrightarrow>
      \<exists>gs. env_fields env (ptr f) = Some gs \<and> returns (sub gs q)"
    and check: "check f p \<noteq> None"
  shows "returns (encode_field env sub check f p)"
proof -
  have s: "static_field f" "1 \<le> data_size f" "PB_LTYPE (ftype f) = PB_LTYPE_BYTES \<longrightarrow> 4 \<le> data_size f"
    "room (env_heap env) p (data_size f * entries f)"
    and flag: "PB_HTYPE (ftype f) = PB_HTYPE_OPTIONAL \<Longrightarrow> size_offset f \<noteq> 0 \<Longrightarrow> room (env_heap env) (p + size_offset f) 1"
      "PB_HTYPE (ftype f) = PB_HTYPE_REPEATED \<Longrightarrow> size_offset f \<noteq> 0 \<Longrightarrow> room (env_heap env) (p + size_offset f) 4"
      "PB_HTYPE (ftype f) = PB_HTYPE_ONEOF \<Longrightarrow> size_offset f \<noteq> 0 \<and> room (env_heap env) (p + size_offset f) 4"
    using f by (simp_all add: field_there_def counted_def)
  have t: "PB_ATYPE (ftype f) = PB_ATYPE_STATIC" "PB_LTYPE (ftype f) \<le> PB_LTYPE_FIXED_LENGTH_BYTES"
    using s(1) by (simp_all add: static_field_def Let_def)
  then have lt: "\<not> PB_LTYPES_COUNT \<le> PB_LTYPE (ftype f)" by (simp add: PB_LTYPES_COUNT_def word_le_nat_alt)
  have one: "returns (enc_seq (enc_call (\<lambda>s. pb_encode_tag_for_field s f)) (enc_value env sub f p))"
    if "PB_HTYPE (ftype f) \<noteq> PB_HTYPE_REPEATED"
  proof -
    have r: "room (env_heap env) p (data_size f)" using s(4) that by (simp add: entries_def)
    show ?thesis using returns_value [OF s(1-3) r] sub [OF _ r] by (intro returns_seq returns_basic) blast
  qed
  have array: "returns (encode_array env sub f p n)" if "PB_HTYPE (ftype f) = PB_HTYPE_REPEATED" for n
    using s(4) that by (intro returns_array [OF s(1-3) h] sub) (simp_all add: entries_def)
  show ?thesis
    unfolding encode_field_def encode_basic_field_def Let_def if_not_P [OF lt] if_not_P [OF static_or_pointer [OF s(1)]]
    by (intro returns_if returns_read) (use t one array flag check load_some in \<open>auto split: prod.split intro!: returns_if returns_read\<close>)
qed

section \<open>The loops over the fields\<close>

lemma returns_field_loop:
  assumes m: "message_fields n fs" and enc: "\<And>i. i < n \<Longrightarrow> returns (enc (fs ! i) (pData (iter_at fs p i)))"
  shows "i < n \<Longrightarrow> n - i \<le> k \<Longrightarrow> returns (field_loop enc k (iter_at fs p i))"
proof (induction k arbitrary: i)
  case 0
  then show ?case by simp
next
  case (Suc k)
  have c: "cur_field (iter_at fs p i) = fs ! i" using iter_at_inside [OF m Suc.prems(1), of p] by (simp add: cur_field_def)
  obtain b it where it: "pb_field_iter_next (iter_at fs p i) = (b, it)" by fastforce
  with iter_at_next [OF m Suc.prems(1), of p] have b: "b \<longleftrightarrow> Suc i \<noteq> n" "it = iter_at fs p (if Suc i = n then 0 else Suc i)" by simp_all
  show ?case using enc [OF Suc.prems(1)] Suc.IH [of "Suc i"] Suc.prems b
    by (auto simp: c it intro!: returns_seq split: bool.split)
qed

lemma default_loop_returns:
  assumes m: "message_fields n fs" and check: "\<And>i. i < n \<Longrightarrow> check (fs ! i) (pData (iter_at fs p i)) \<noteq> None"
  shows "i < n \<Longrightarrow> n - i \<le> k \<Longrightarrow> default_loop check k (iter_at fs p i) \<noteq> None"
proof (induction k arbitrary: i)
  case 0
  then show ?case by simp
next
  case (Suc k)
  have c: "cur_field (iter_at fs p i) = fs ! i" using iter_at_inside [OF m Suc.prems(1), of p] by (simp add: cur_field_def)
  obtain b it where it: "pb_field_iter_next (iter_at fs p i) = (b, it)" by fastforce
  with iter_at_next [OF m Suc.prems(1), of p] have b: "b \<longleftrightarrow> Suc i \<noteq> n" "it = iter_at fs p (if Suc i = n then 0 else Suc i)" by simp_all
  show ?case using check [OF Suc.prems(1)] Suc.IH [of "Suc i"] Suc.prems b
    by (auto simp: c it split: bool.split)
qed

lemma some_if: "(c \<Longrightarrow> r \<noteq> None) \<Longrightarrow> (\<not> c \<Longrightarrow> r' \<noteq> None) \<Longrightarrow> (if c then r else r') \<noteq> None"
  by simp

lemma some_map: "r \<noteq> None \<Longrightarrow> map_option g r \<noteq> None"
  by simp

text \<open>Whether a field, and recursively each field of a submessage, has its default value.\<close>

lemma check_returns:
  assumes r: "readable_messages env rk sz" and h: "heap_ok (env_heap env)"
  shows "field_there (env_heap env) f p \<Longrightarrow> rk a < fuel \<Longrightarrow>
    (PB_LTYPE (ftype f) = PB_LTYPE_SUBMESSAGE \<longrightarrow>
       (\<exists>gs. env_fields env (ptr f) = Some gs) \<and> rk (ptr f) < rk a \<and> sz (ptr f) \<le> data_size f) \<Longrightarrow>
    pb_check_proto3_default_value env fuel f p \<noteq> None"
proof (induction "rk a" arbitrary: a f p fuel rule: less_induct)
  case less
  obtain k where k: "fuel = Suc k" using less.prems(2) by (cases fuel) auto
  let ?h = "env_heap env"
  have s: "static_field f" "1 \<le> data_size f" "PB_LTYPE (ftype f) = PB_LTYPE_BYTES \<Longrightarrow> 4 \<le> data_size f"
    "room ?h p (data_size f * entries f)"
    and flag: "PB_HTYPE (ftype f) = PB_HTYPE_OPTIONAL \<Longrightarrow> size_offset f \<noteq> 0 \<Longrightarrow> room ?h (p + size_offset f) 1"
      "PB_HTYPE (ftype f) = PB_HTYPE_REPEATED \<Longrightarrow> size_offset f \<noteq> 0 \<Longrightarrow> room ?h (p + size_offset f) 4"
      "PB_HTYPE (ftype f) = PB_HTYPE_ONEOF \<Longrightarrow> room ?h (p + size_offset f) 4"
    using less.prems(1) by (simp_all add: field_there_def counted_def)
  have st: "PB_ATYPE (ftype f) = PB_ATYPE_STATIC" using s(1) by (simp add: static_field_def Let_def)
  show ?case
  proof (cases "PB_HTYPE (ftype f) = PB_HTYPE_REPEATED")
    case True
    then show ?thesis using k st load_some(1) [OF flag(2)] by (auto simp: Let_def)
  next
    case False
    then have room: "room ?h p (data_size f)" using s(4) by (simp add: entries_def)
    have sub: "(case env_fields env (ptr f) of None \<Rightarrow> None
        | Some fs \<Rightarrow> (case pb_field_iter_begin fs p of (False, _) \<Rightarrow> Some True
            | (True, iter) \<Rightarrow> default_loop (pb_check_proto3_default_value env k) (length fs) iter)) \<noteq> None"
      if t: "PB_LTYPE (ftype f) = PB_LTYPE_SUBMESSAGE"
    proof -
      obtain gs where gs: "env_fields env (ptr f) = Some gs" "rk (ptr f) < rk a" "sz (ptr f) \<le> data_size f"
        using less.prems(3) t by blast
      obtain n where n: "message_fields n gs" 
        "\<And>i. i < n \<Longrightarrow> field_readable (sz (ptr f)) (iter_at gs 0 i)"
        "\<And>i. i < n \<Longrightarrow> PB_LTYPE (ftype (gs ! i)) = PB_LTYPE_SUBMESSAGE \<Longrightarrow>
           (\<exists>hs. env_fields env (ptr (gs ! i)) = Some hs) \<and> rk (ptr (gs ! i)) < rk (ptr f) \<and> sz (ptr (gs ! i)) \<le> data_size (gs ! i)"
        by (rule readable_messageE [OF r gs(1)]) blast
      have ok: "pb_check_proto3_default_value env k (gs ! i) (pData (iter_at gs p i)) \<noteq> None" if i: "i < n" for i
        using less.hyps [OF gs(2) field_readable_there [OF n(1) i n(2) [OF i] h room_mono [OF room gs(3)]]]
          gs(2) less.prems(2) k n(3) [OF i] by auto
      have len: "n \<le> length gs" using n(1) by (simp add: message_fields_def)
      show ?thesis
      proof (cases rule: begin_cases [OF n(1), where p = p])
        case 2
        then show ?thesis using default_loop_returns [where check = "pb_check_proto3_default_value env k", OF n(1) ok 2(2)] len by (simp add: gs(1))
      qed (simp add: gs(1))
    qed
    have m: "room ?h p 4" if "PB_LTYPE (ftype f) = PB_LTYPE_BYTES" using room_mono [OF room s(3) [OF that]] .
    note ne = load_some(1) [OF m] load_some(1) [OF flag(3)] load_some(2) [OF flag(1)] load_some(3) [OF room s(2)]
      load_some(4) [OF room]
    show ?thesis unfolding k pb_check_proto3_default_value.simps Let_def
      by (intro some_if some_map sub ne) (use False st in \<open>simp_all\<close>)
  qed
qed

section \<open>Termination\<close>

lemma encode_returns:
  assumes r: "readable_messages env rk sz" and h: "heap_ok (env_heap env)"
  shows "env_fields env a = Some fs \<Longrightarrow> room (env_heap env) p (sz a) \<Longrightarrow> rk a + 1 < fuel \<Longrightarrow>
    returns (pb_encode env fuel fs p)"
proof (induction "rk a" arbitrary: a fs p fuel rule: less_induct)
  case less
  obtain k where k: "fuel = Suc k" "rk a < k" using less.prems(3) by (cases fuel) auto
  obtain n where n: "message_fields n fs"
    "\<And>i. i < n \<Longrightarrow> field_readable (sz a) (iter_at fs 0 i)"
    "\<And>i. i < n \<Longrightarrow> PB_LTYPE (ftype (fs ! i)) = PB_LTYPE_SUBMESSAGE \<Longrightarrow>
       (\<exists>gs. env_fields env (ptr (fs ! i)) = Some gs) \<and> rk (ptr (fs ! i)) < rk a \<and> sz (ptr (fs ! i)) \<le> data_size (fs ! i)"
    by (rule readable_messageE [OF r less.prems(1)]) blast
  let ?enc = "encode_field env (pb_encode env k) (pb_check_proto3_default_value env k)"
  have field: "returns (if PB_LTYPE (ftype (fs ! i)) = PB_LTYPE_EXTENSION then encode_extension_field env ?enc k (pData (iter_at fs p i))
      else ?enc (fs ! i) (pData (iter_at fs p i)))" if i: "i < n" for i
  proof -
    note there = field_readable_there [OF n(1) i n(2) [OF i] h less.prems(2)]
    have "PB_LTYPE (ftype (fs ! i)) \<noteq> PB_LTYPE_EXTENSION" using there by (simp add: field_there_def static_field_def Let_def)
    moreover have "returns (?enc (fs ! i) (pData (iter_at fs p i)))"
    proof (rule returns_field [OF there h])
      fix q assume t: "PB_LTYPE (ftype (fs ! i)) = PB_LTYPE_SUBMESSAGE" and q: "room (env_heap env) q (data_size (fs ! i))"
      obtain gs where gs: "env_fields env (ptr (fs ! i)) = Some gs" "rk (ptr (fs ! i)) < rk a" "sz (ptr (fs ! i)) \<le> data_size (fs ! i)"
        using n(3) [OF i t] by blast
      have "returns (pb_encode env k gs q)"
        using less.hyps [OF gs(2,1) room_mono [OF q gs(3)]] gs(2) k(2) by simp
      then show "\<exists>gs. env_fields env (ptr (fs ! i)) = Some gs \<and> returns (pb_encode env k gs q)" using gs(1) by blast
    next
      show "pb_check_proto3_default_value env k (fs ! i) (pData (iter_at fs p i)) \<noteq> None"
        using check_returns [OF r h there k(2)] n(3) [OF i] by blast
    qed
    ultimately show ?thesis by simp
  qed
  have len: "n \<le> length fs" using n(1) by (simp add: message_fields_def)
  show ?case
  proof (cases rule: begin_cases [OF n(1), where p = p])
    case 1
    then show ?thesis by (simp add: k)
  next
    case 2
    let ?enc' = "\<lambda>f p. if PB_LTYPE (ftype f) = PB_LTYPE_EXTENSION then encode_extension_field env ?enc k p else ?enc f p"
    have "returns (field_loop ?enc' (length fs) (iter_at fs p 0))"
      by (rule returns_field_loop [where enc = ?enc', OF n(1) field 2(2)]) (use len in simp_all)
    then show ?thesis unfolding k(1) pb_encode.simps 2(1) Let_def prod.case bool.case .
  qed
qed

text \<open>
  C32. The encoder ends and returns a result: for tables of static fields with ranked submessages and a message in
  memory, with fuel above its rank, no call is out of fuel and none reads outside the struct, whatever the struct holds and
  whatever the stream; and more fuel changes nothing. The same holds for sizing.
\<close>

theorem encode_terminates:
  assumes "readable_messages env rk sz" "env_fields env a = Some fs" "heap_ok (env_heap env)"
    and "room (env_heap env) p (sz a)" "rk a + 1 < fuel" "fuel \<le> fuel'"
  shows "(\<exists>ok s'. pb_encode env fuel fs p s = Some (ok, s')) \<and> (\<exists>r. pb_get_encoded_size env fuel fs p = Some r) \<and>
    pb_encode env fuel' fs p s = pb_encode env fuel fs p s \<and>
    pb_get_encoded_size env fuel' fs p = pb_get_encoded_size env fuel fs p"
proof -
  have "returns (pb_encode env fuel fs p)" by (rule encode_returns [OF assms(1,3,2,4,5)])
  then have "\<exists>ok s'. pb_encode env fuel fs p s = Some (ok, s')" "\<exists>ok s'. pb_encode env fuel fs p PB_OSTREAM_SIZING = Some (ok, s')"
    by (force simp: returns_def)+
  moreover have "pb_encode env fuel fs p = pb_encode env fuel' fs p \<and> pb_get_encoded_size env fuel fs p = pb_get_encoded_size env fuel' fs p"
    using encode_fuel_enough [OF readable_ranked [OF assms(1)] assms(2,5,6)] by blast
  ultimately show ?thesis by (auto simp: pb_get_encoded_size_def)
qed

theorem encode_terminates_witness:
  "(\<exists>ok s'. pb_encode demo_env 2 demo_message 100 (pb_ostream_from_buffer 1) = Some (ok, s')) \<and>
    (\<exists>r. pb_get_encoded_size demo_env 2 demo_message 100 = Some r)"
proof -
  have t: "PB_LTYPE 0 = 0" "PB_HTYPE 0 = 0" "PB_ATYPE 0 = 0" by (simp_all add: PB_LTYPE_def PB_HTYPE_def PB_ATYPE_def)
  have r: "readable_messages demo_env (\<lambda>_. 0) (\<lambda>_. 1)"
    by (auto simp: readable_messages_def readable_message_def demo_env_def demo_message_def message_fields_def field_readable_def
        static_field_def entries_def counted_def cur_field_def iter_at.simps pb_field_iter_begin_def t Let_def intro!: exI [of _ 1])
  have "env_fields demo_env 8 = Some demo_message" "heap_ok (env_heap demo_env)" "room (env_heap demo_env) 100 1"
    by (simp_all add: demo_env_def room_def inside_def)
  from encode_terminates [OF r this, of 2 2] show ?thesis by simp
qed

end
