(* ===== verification/Stack.thy ===== *)
theory Stack
  imports Mem Sort
begin

text \<open>
  The pointer stack of \<open>src/crypto/stack/stack.c\<close>: a growing array of pointers with an optional
  comparison function and a flag that says whether it is known to be sorted. A pointer is
  \<open>'p option\<close> with \<open>None\<close> for \<open>NULL\<close>, a stack argument likewise. A comparison function is an abstract
  name \<open>'c\<close>, because \<open>sk_set_cmp_func\<close> compares function pointers; \<open>call\<close> says what calling it
  returns. \<open>junk i\<close> is what freshly allocated memory happens to hold at slot \<open>i\<close>. Callbacks that free or
  copy an element act on a world \<open>'w\<close>.
\<close>

section \<open>State\<close>

record ('p, 'c) stack =
  sk_count :: nat
  sk_data :: "'p option list"
  sk_sorted :: bool
  sk_num_alloc :: nat
  sk_comp :: "'c option"

definition kMinSize :: nat where
  "kMinSize = 4"

definition PTR_SIZE :: nat where
  "PTR_SIZE = 8"

definition STACK_SIZE :: nat where
  "STACK_SIZE = 40"

section \<open>Operations\<close>

definition sk_new :: "(nat \<Rightarrow> bool) \<Rightarrow> 'c option \<Rightarrow> ('p, 'c) stack option" where
  "sk_new sys cmp_func =
     (if \<not> OPENSSL_malloc sys STACK_SIZE then None
      else if \<not> OPENSSL_malloc sys (PTR_SIZE * kMinSize) then None
      else Some \<lparr> sk_count = 0, sk_data = replicate kMinSize None, sk_sorted = False,
                  sk_num_alloc = kMinSize, sk_comp = cmp_func \<rparr>)"

definition sk_new_null :: "(nat \<Rightarrow> bool) \<Rightarrow> ('p, 'c) stack option" where
  "sk_new_null sys = sk_new sys None"

definition sk_num :: "('p, 'c) stack option \<Rightarrow> nat" where
  "sk_num sk = (case sk of None \<Rightarrow> 0 | Some s \<Rightarrow> sk_count s)"

definition sk_zero :: "('p, 'c) stack option \<Rightarrow> ('p, 'c) stack option" where
  "sk_zero sk =
     (case sk of None \<Rightarrow> None
      | Some s \<Rightarrow>
          if sk_count s = 0 then sk
          else Some (s\<lparr> sk_data := replicate (sk_count s) None @ drop (sk_count s) (sk_data s),
                        sk_count := 0, sk_sorted := False \<rparr>))"

definition sk_value :: "('p, 'c) stack option \<Rightarrow> nat \<Rightarrow> 'p option" where
  "sk_value sk i =
     (case sk of None \<Rightarrow> None
      | Some s \<Rightarrow> if sk_count s \<le> i then None else sk_data s ! i)"

definition sk_set ::
  "('p, 'c) stack option \<Rightarrow> nat \<Rightarrow> 'p option \<Rightarrow> 'p option \<times> ('p, 'c) stack option" where
  "sk_set sk i p =
     (case sk of None \<Rightarrow> (None, sk)
      | Some s \<Rightarrow>
          if sk_count s \<le> i then (None, sk)
          else (p, Some (s\<lparr> sk_data := (sk_data s)[i := p] \<rparr>)))"

text \<open>The elements are freed from the bottom up; then the array and the stack itself go away.\<close>

fun free_elements :: "('p \<Rightarrow> 'w \<Rightarrow> 'w) \<Rightarrow> 'p option list \<Rightarrow> 'w \<Rightarrow> 'w" where
  "free_elements free [] w = w"
| "free_elements free (None # ps) w = free_elements free ps w"
| "free_elements free (Some p # ps) w = free_elements free ps (free p w)"

definition sk_pop_free_ex :: "('p, 'c) stack option \<Rightarrow> ('p \<Rightarrow> 'w \<Rightarrow> 'w) \<Rightarrow> 'w \<Rightarrow> 'w" where
  "sk_pop_free_ex sk free w =
     (case sk of None \<Rightarrow> w | Some s \<Rightarrow> free_elements free (take (sk_count s) (sk_data s)) w)"

text \<open>
  \<open>grown_alloc a\<close> is the new capacity when an array of \<open>a\<close> slots is full: twice as many, one more if
  the doubled size overflows, \<open>None\<close> if even that does.
\<close>

definition alloc_overflows :: "nat \<Rightarrow> nat \<Rightarrow> bool" where
  "alloc_overflows new_alloc old \<longleftrightarrow>
     new_alloc < old \<or> size_t (new_alloc * PTR_SIZE) div PTR_SIZE \<noteq> new_alloc"

definition grown_alloc :: "nat \<Rightarrow> nat option" where
  "grown_alloc a =
     (let new_alloc = size_t (2 * a);
          new_alloc = (if alloc_overflows new_alloc a then size_t (a + 1) else new_alloc)
      in if alloc_overflows new_alloc a then None else Some new_alloc)"

definition sk_reserve ::
  "(nat \<Rightarrow> bool) \<Rightarrow> (nat \<Rightarrow> 'p option) \<Rightarrow> ('p, 'c) stack \<Rightarrow> ('p, 'c) stack option" where
  "sk_reserve sys junk s =
     (if size_t (sk_count s + 1) < sk_num_alloc s then Some s
      else case grown_alloc (sk_num_alloc s) of
          None \<Rightarrow> None
        | Some new_alloc \<Rightarrow>
            if OPENSSL_malloc sys (size_t (new_alloc * PTR_SIZE))
            then Some (s\<lparr> sk_data := take new_alloc (sk_data s) @ map junk [length (sk_data s)..<new_alloc],
                          sk_num_alloc := new_alloc \<rparr>)
            else None)"

definition sk_insert ::
  "(nat \<Rightarrow> bool) \<Rightarrow> (nat \<Rightarrow> 'p option) \<Rightarrow> ('p, 'c) stack option \<Rightarrow> 'p option \<Rightarrow> nat \<Rightarrow>
    nat \<times> ('p, 'c) stack option" where
  "sk_insert sys junk sk p loc =
     (case sk of None \<Rightarrow> (0, sk)
      | Some s0 \<Rightarrow>
          (case sk_reserve sys junk s0 of
             None \<Rightarrow> (0, sk)
           | Some s \<Rightarrow>
               let num = sk_count s; old = sk_data s;
                   new = (if num \<le> loc then old[num := p]
                          else (take (loc + 1) old @ take (num - loc) (drop loc old)
                                  @ drop (num + 1) old)[loc := p])
               in (size_t (num + 1),
                   Some (s\<lparr> sk_data := new, sk_count := size_t (num + 1), sk_sorted := False \<rparr>))))"

definition sk_delete ::
  "('p, 'c) stack option \<Rightarrow> nat \<Rightarrow> 'p option \<times> ('p, 'c) stack option" where
  "sk_delete sk loc =
     (case sk of None \<Rightarrow> (None, sk)
      | Some s \<Rightarrow>
          if sk_count s \<le> loc then (None, sk)
          else
            let num = sk_count s; old = sk_data s;
                new = (if loc \<noteq> num - 1
                       then take loc old @ take (num - loc - 1) (drop (loc + 1) old)
                              @ drop (num - 1) old
                       else old)
            in (old ! loc, Some (s\<lparr> sk_data := new, sk_count := num - 1 \<rparr>)))"

text \<open>\<open>scan P xs i\<close>: the first index at which a loop upwards from \<open>i\<close> finds an element with \<open>P\<close>.\<close>

fun scan :: "('a \<Rightarrow> bool) \<Rightarrow> 'a list \<Rightarrow> nat \<Rightarrow> nat option" where
  "scan P [] i = None"
| "scan P (x # xs) i = (if P x then Some i else scan P xs (Suc i))"

definition sk_delete_ptr ::
  "('p, 'c) stack option \<Rightarrow> 'p option \<Rightarrow> 'p option \<times> ('p, 'c) stack option" where
  "sk_delete_ptr sk p =
     (case sk of None \<Rightarrow> (None, sk)
      | Some s \<Rightarrow>
          (case scan (\<lambda>x. x = p) (take (sk_count s) (sk_data s)) 0 of
             None \<Rightarrow> (None, sk)
           | Some i \<Rightarrow> sk_delete sk i))"

definition sk_is_sorted :: "('p, 'c) stack option \<Rightarrow> bool" where
  "sk_is_sorted sk = (case sk of None \<Rightarrow> True | Some s \<Rightarrow> sk_sorted s)"

text \<open>The binary search; \<open>cmp\<close> compares the sought pointer with an element.\<close>

function sk_bsearch :: "('a \<Rightarrow> int) \<Rightarrow> 'a list \<Rightarrow> nat \<Rightarrow> nat \<Rightarrow> nat option" where
  "sk_bsearch cmp xs lo hi =
     (if lo < hi then
        let mid = lo + (hi - lo - 1) div 2; r = cmp (xs ! mid)
        in if 0 < r then sk_bsearch cmp xs (mid + 1) hi
           else if r < 0 then sk_bsearch cmp xs lo mid
           else if hi - lo = 1 then Some mid
           else sk_bsearch cmp xs lo (mid + 1)
      else None)"
  by pat_completeness auto
termination
proof (relation "measure (\<lambda>(cmp, xs, lo, hi). hi - lo)", goal_cases)
  case (4 cmp xs lo hi mid r)
  have "(hi - lo - 1) div 2 * 2 \<le> hi - lo - 1" by simp
  then show ?case using 4 by auto
qed auto

declare sk_bsearch.simps [simp del]

definition sk_find ::
  "('c \<Rightarrow> 'p option \<Rightarrow> 'p option \<Rightarrow> int) \<Rightarrow> ('p, 'c) stack option \<Rightarrow> 'p option \<Rightarrow> nat option" where
  "sk_find call sk p =
     (case sk of None \<Rightarrow> None
      | Some s \<Rightarrow>
          (case sk_comp s of
             None \<Rightarrow> scan (\<lambda>x. x = p) (take (sk_count s) (sk_data s)) 0
           | Some c \<Rightarrow>
               if p = None then None
               else if \<not> sk_is_sorted sk
               then scan (\<lambda>x. call c p x = 0) (take (sk_count s) (sk_data s)) 0
               else sk_bsearch (call c p) (sk_data s) 0 (sk_count s)))"

definition sk_shift :: "('p, 'c) stack option \<Rightarrow> 'p option \<times> ('p, 'c) stack option" where
  "sk_shift sk =
     (case sk of None \<Rightarrow> (None, sk)
      | Some s \<Rightarrow> if sk_count s = 0 then (None, sk) else sk_delete sk 0)"

definition sk_push ::
  "(nat \<Rightarrow> bool) \<Rightarrow> (nat \<Rightarrow> 'p option) \<Rightarrow> ('p, 'c) stack \<Rightarrow> 'p option \<Rightarrow>
    nat \<times> ('p, 'c) stack option" where
  "sk_push sys junk s p = sk_insert sys junk (Some s) p (sk_count s)"

definition sk_pop :: "('p, 'c) stack option \<Rightarrow> 'p option \<times> ('p, 'c) stack option" where
  "sk_pop sk =
     (case sk of None \<Rightarrow> (None, sk)
      | Some s \<Rightarrow> if sk_count s = 0 then (None, sk) else sk_delete sk (sk_count s - 1))"

definition sk_dup ::
  "(nat \<Rightarrow> bool) \<Rightarrow> (nat \<Rightarrow> 'p option) \<Rightarrow> ('p, 'c) stack option \<Rightarrow> ('p, 'c) stack option" where
  "sk_dup sys junk sk =
     (case sk of None \<Rightarrow> None
      | Some s \<Rightarrow>
          if \<not> OPENSSL_malloc sys STACK_SIZE then None
          else if \<not> OPENSSL_malloc sys (size_t (PTR_SIZE * sk_num_alloc s)) then None
          else Some \<lparr> sk_count = sk_count s,
                      sk_data = take (sk_count s) (sk_data s)
                                  @ map junk [sk_count s..<sk_num_alloc s],
                      sk_sorted = sk_sorted s, sk_num_alloc = sk_num_alloc s, sk_comp = sk_comp s \<rparr>)"

definition sk_sort ::
  "('c \<Rightarrow> 'p option \<Rightarrow> 'p option \<Rightarrow> int) \<Rightarrow> ('p, 'c) stack option \<Rightarrow> ('p, 'c) stack option" where
  "sk_sort call sk =
     (case sk of None \<Rightarrow> None
      | Some s \<Rightarrow>
          (case sk_comp s of
             None \<Rightarrow> sk
           | Some c \<Rightarrow>
               if sk_sorted s then sk
               else
                 let data = (if 2 \<le> sk_count s
                             then qsort (call c) (take (sk_count s) (sk_data s))
                                    @ drop (sk_count s) (sk_data s)
                             else sk_data s)
                 in Some (s\<lparr> sk_data := data, sk_sorted := True \<rparr>)))"

definition sk_set_cmp_func ::
  "('p, 'c) stack \<Rightarrow> 'c option \<Rightarrow> 'c option \<times> ('p, 'c) stack" where
  "sk_set_cmp_func s cmp_func =
     (sk_comp s,
      (if sk_comp s \<noteq> cmp_func then s\<lparr> sk_sorted := False \<rparr> else s)\<lparr> sk_comp := cmp_func \<rparr>)"

text \<open>
  \<open>copy_loop copy free done todo w\<close>: the copies made so far and the elements still to copy. When a
  copy fails, those made so far are freed.
\<close>

fun copy_loop ::
  "('p \<Rightarrow> 'w \<Rightarrow> 'p option \<times> 'w) \<Rightarrow> ('p \<Rightarrow> 'w \<Rightarrow> 'w) \<Rightarrow> 'p option list \<Rightarrow> 'p option list \<Rightarrow> 'w \<Rightarrow>
    'p option list option \<times> 'w" where
  "copy_loop copy free copied [] w = (Some copied, w)"
| "copy_loop copy free copied (None # ps) w = copy_loop copy free (copied @ [None]) ps w"
| "copy_loop copy free copied (Some p # ps) w =
     (case copy p w of
        (None, w') \<Rightarrow> (None, free_elements free copied w')
      | (Some q, w') \<Rightarrow> copy_loop copy free (copied @ [Some q]) ps w')"

definition sk_deep_copy ::
  "(nat \<Rightarrow> bool) \<Rightarrow> (nat \<Rightarrow> 'p option) \<Rightarrow> ('p, 'c) stack option \<Rightarrow>
    ('p \<Rightarrow> 'w \<Rightarrow> 'p option \<times> 'w) \<Rightarrow> ('p \<Rightarrow> 'w \<Rightarrow> 'w) \<Rightarrow> 'w \<Rightarrow> ('p, 'c) stack option \<times> 'w" where
  "sk_deep_copy sys junk sk copy free w =
     (case sk_dup sys junk sk of
        None \<Rightarrow> (None, w)
      | Some r \<Rightarrow>
          (case copy_loop copy free [] (take (sk_count r) (sk_data r)) w of
             (None, w') \<Rightarrow> (None, w')
           | (Some copies, w') \<Rightarrow>
               (Some (r\<lparr> sk_data := copies @ drop (sk_count r) (sk_data r) \<rparr>), w')))"

section \<open>Well-formed stacks\<close>

text \<open>
  The array has \<open>num_alloc\<close> slots, its size in bytes is a \<open>size_t\<close>, and one slot is always spare.
  The contents are the slots below \<open>num\<close>.
\<close>

definition stack_ok :: "('p, 'c) stack \<Rightarrow> bool" where
  "stack_ok s \<longleftrightarrow> length (sk_data s) = sk_num_alloc s \<and> sk_count s < sk_num_alloc s \<and>
     sk_num_alloc s * PTR_SIZE \<le> SIZE_MAX"

definition sk_elems :: "('p, 'c) stack \<Rightarrow> 'p option list" where
  "sk_elems s = take (sk_count s) (sk_data s)"

text \<open>What the field \<open>sorted\<close> is documented to mean.\<close>

definition flag_ok :: "('c \<Rightarrow> 'p option \<Rightarrow> 'p option \<Rightarrow> int) \<Rightarrow> ('p, 'c) stack \<Rightarrow> bool" where
  "flag_ok call s \<longleftrightarrow>
     (\<forall>c. sk_comp s = Some c \<longrightarrow> sk_sorted s \<longrightarrow> sorted_wrt (\<lambda>x y. call c x y \<le> 0) (sk_elems s))"

lemma length_sk_elems [simp]: "stack_ok s \<Longrightarrow> length (sk_elems s) = sk_count s"
  by (simp add: stack_ok_def sk_elems_def)

lemma stack_ok_bounds:
  "stack_ok s \<Longrightarrow> sk_count s < length (sk_data s) \<and> sk_count s + 1 \<le> SIZE_MAX"
  by (simp add: stack_ok_def PTR_SIZE_def)

lemma sk_new_ok: "sk_new sys c = Some s \<Longrightarrow> stack_ok s \<and> sk_elems s = [] \<and> flag_ok call s \<and> sk_comp s = c"
  by (auto simp: sk_new_def stack_ok_def sk_elems_def flag_ok_def kMinSize_def PTR_SIZE_def SIZE_MAX_def
      split: if_splits)

lemma grown_alloc_grows:
  assumes "grown_alloc a = Some n" "0 < a" "a * PTR_SIZE \<le> SIZE_MAX"
  shows "a < n \<and> n * PTR_SIZE \<le> SIZE_MAX"
proof -
  have small: "size_t (2 * a) = 2 * a" "size_t (a + 1) = a + 1"
    using assms(3) by (auto intro!: size_t_id simp: PTR_SIZE_def SIZE_MAX_def)
  have fits: "m * PTR_SIZE \<le> SIZE_MAX" if "\<not> alloc_overflows m a" for m
    using that size_t_le [of "m * PTR_SIZE"] unfolding alloc_overflows_def PTR_SIZE_def
    by (metis div_times_less_eq_dividend le_trans mult.commute)
  show ?thesis
    using assms small fits unfolding grown_alloc_def Let_def by (auto split: if_splits)
qed

lemma sk_reserve_room:
  assumes "sk_reserve sys junk s = Some t" "stack_ok s"
  shows "stack_ok t \<and> sk_count t + 1 < sk_num_alloc t \<and> sk_elems t = sk_elems s \<and>
    sk_count t = sk_count s \<and> sk_comp t = sk_comp s \<and> sk_sorted t = sk_sorted s"
proof (cases "size_t (sk_count s + 1) < sk_num_alloc s")
  case True
  then show ?thesis using assms stack_ok_bounds [of s] by (simp add: sk_reserve_def)
next
  case False
  then obtain n where n: "grown_alloc (sk_num_alloc s) = Some n"
    "t = s\<lparr> sk_data := take n (sk_data s) @ map junk [length (sk_data s)..<n], sk_num_alloc := n \<rparr>"
    using assms(1) by (auto simp: sk_reserve_def split: option.splits if_splits)
  then have "sk_num_alloc s < n \<and> n * PTR_SIZE \<le> SIZE_MAX"
    using grown_alloc_grows [OF n(1)] assms(2) by (auto simp: stack_ok_def)
  then show ?thesis using n(2) assms(2) by (auto simp: stack_ok_def sk_elems_def)
qed

text \<open>
  When an insertion is refused, in terms of sizes: there is no spare slot, and neither twice the slots nor, if those do
  not fit a \<open>size_t\<close>, one more can be had.
\<close>

definition out_of_memory :: "(nat \<Rightarrow> bool) \<Rightarrow> ('p, 'c) stack \<Rightarrow> bool" where
  "out_of_memory sys s \<longleftrightarrow>
     (let a = sk_num_alloc s; wanted = (if 2 * a * PTR_SIZE \<le> SIZE_MAX then 2 * a else a + 1)
      in a \<le> sk_count s + 1 \<and> (SIZE_MAX < wanted * PTR_SIZE \<or> \<not> OPENSSL_malloc sys (wanted * PTR_SIZE)))"

lemma alloc_overflows_iff:
  assumes "a \<le> m" "m * 4 \<le> SIZE_MAX"
  shows "alloc_overflows m a \<longleftrightarrow> SIZE_MAX < m * PTR_SIZE"
proof (cases "m * PTR_SIZE \<le> SIZE_MAX")
  case True
  then show ?thesis using assms(1) by (simp add: alloc_overflows_def PTR_SIZE_def)
next
  case False
  have "size_t (m * PTR_SIZE) < m * PTR_SIZE" using False size_t_le [of "m * PTR_SIZE"] by linarith
  then have "size_t (m * PTR_SIZE) div PTR_SIZE < m" by (simp add: PTR_SIZE_def less_mult_imp_div_less)
  then show ?thesis using False by (simp add: alloc_overflows_def)
qed

lemma grown_alloc_sizes:
  assumes "0 < a" "a * PTR_SIZE \<le> SIZE_MAX"
  shows "grown_alloc a =
    (let wanted = (if 2 * a * PTR_SIZE \<le> SIZE_MAX then 2 * a else a + 1)
     in if SIZE_MAX < wanted * PTR_SIZE then None else Some wanted)"
proof -
  have small: "size_t (2 * a) = 2 * a" "size_t (a + 1) = a + 1"
    using assms(2) by (auto intro!: size_t_id simp: PTR_SIZE_def SIZE_MAX_def)
  have "alloc_overflows (2 * a) a \<longleftrightarrow> SIZE_MAX < 2 * a * PTR_SIZE"
    using assms(2) by (intro alloc_overflows_iff) (simp_all add: PTR_SIZE_def)
  moreover have "alloc_overflows (a + 1) a \<longleftrightarrow> SIZE_MAX < (a + 1) * PTR_SIZE"
    using assms by (intro alloc_overflows_iff) (simp_all add: PTR_SIZE_def SIZE_MAX_def)
  ultimately show ?thesis unfolding grown_alloc_def Let_def small by auto
qed

lemma sk_reserve_None:
  assumes "stack_ok s"
  shows "sk_reserve sys junk s = None \<longleftrightarrow> out_of_memory sys s"
proof -
  have a: "0 < sk_num_alloc s" "sk_num_alloc s * PTR_SIZE \<le> SIZE_MAX" "size_t (sk_count s + 1) = sk_count s + 1"
    using assms stack_ok_bounds [OF assms] by (auto simp: stack_ok_def)
  show ?thesis
    unfolding sk_reserve_def grown_alloc_sizes [OF a(1,2)] a(3) out_of_memory_def
    by (auto simp: Let_def not_less)
qed

lemma sk_insert_ok:
  assumes "sk_insert sys junk (Some s) p i = (r, s')" "stack_ok s"
  obtains (full) "out_of_memory sys s" "r = 0" "s' = Some s"
    | (room) t where "\<not> out_of_memory sys s" "s' = Some t" "stack_ok t" "r = sk_count s + 1" "\<not> sk_sorted t" "sk_comp t = sk_comp s"
      "sk_elems t = take i (sk_elems s) @ p # drop i (sk_elems s)"
proof (cases "sk_reserve sys junk s")
  case None
  then show thesis using assms full sk_reserve_None [of s sys junk] by (simp add: sk_insert_def)
next
  case (Some u)
  have mem: "\<not> out_of_memory sys s" using Some sk_reserve_None [OF assms(2), of sys junk] by simp
  note u = sk_reserve_room [OF Some assms(2)]
  then have len: "sk_count u + 1 < length (sk_data u)" "length (sk_data u) = sk_num_alloc u"
    "size_t (sk_count u + 1) = sk_count u + 1"
    using stack_ok_bounds [of u] by (auto simp: stack_ok_def)
  have el: "sk_elems s = take (sk_count u) (sk_data u)" using u by (metis sk_elems_def)
  have finish: thesis
    if "take (sk_count u + 1) d = take i (sk_elems s) @ p # drop i (sk_elems s)" "length d = length (sk_data u)"
      "(r, s') = (sk_count u + 1, Some (u\<lparr> sk_data := d, sk_count := sk_count u + 1, sk_sorted := False \<rparr>))" for d
    using that u len mem stack_ok_bounds [of u]
    by (intro room [of "u\<lparr> sk_data := d, sk_count := sk_count u + 1, sk_sorted := False \<rparr>"])
      (simp_all add: stack_ok_def sk_elems_def)
  show thesis
  proof (cases "sk_count u \<le> i")
    case True
    show thesis
    proof (rule finish)
      show "take (sk_count u + 1) ((sk_data u)[sk_count u := p]) = take i (sk_elems s) @ p # drop i (sk_elems s)"
        using len True by (simp add: el take_Suc_conv_app_nth)
    qed (use True assms(1) Some len in \<open>auto simp: sk_insert_def Let_def\<close>)
  next
    case False
    define d where "d = (take (i + 1) (sk_data u) @ take (sk_count u - i) (drop i (sk_data u))
       @ drop (sk_count u + 1) (sk_data u))[i := p]"
    have d: "d = take i (sk_data u) @ p # take (sk_count u - i) (drop i (sk_data u)) @ drop (sk_count u + 1) (sk_data u)"
      using len False by (simp add: d_def list_update_append take_Suc_conv_app_nth min_def)
    show thesis
    proof (rule finish)
      show "take (sk_count u + 1) d = take i (sk_elems s) @ p # drop i (sk_elems s)"
        using len False by (simp add: d el min_def drop_take Suc_diff_le)
      show "length d = length (sk_data u)" using len False by (simp add: d)
      show "(r, s') = (sk_count u + 1, Some (u\<lparr> sk_data := d, sk_count := sk_count u + 1, sk_sorted := False \<rparr>))"
        using False assms(1) Some len by (auto simp: sk_insert_def Let_def d_def)
    qed
  qed
qed

lemma sk_delete_ok:
  assumes "stack_ok s" "i < sk_count s"
  obtains t where "sk_delete (Some s) i = (sk_elems s ! i, Some t)" "stack_ok t" "sk_sorted t = sk_sorted s"
    "sk_comp t = sk_comp s" "sk_elems t = take i (sk_elems s) @ drop (Suc i) (sk_elems s)"
proof -
  define n where "n = sk_count s - 1"
  define d where "d = (if i \<noteq> n then take i (sk_data s) @ take (n - i) (drop (i + 1) (sk_data s)) @ drop n (sk_data s)
     else sk_data s)"
  have len: "sk_count s = Suc n" "i \<le> n" "Suc n < length (sk_data s)" "length (sk_data s) = sk_num_alloc s"
    using assms by (auto simp: stack_ok_def n_def)
  have d: "length d = length (sk_data s)" "take n d = take i (sk_elems s) @ drop (Suc i) (sk_elems s)"
    using len by (auto simp: d_def sk_elems_def drop_take min_def)
  show thesis
  proof (rule that [of "s\<lparr> sk_data := d, sk_count := n \<rparr>"])
    show "sk_delete (Some s) i = (sk_elems s ! i, Some (s\<lparr> sk_data := d, sk_count := n \<rparr>))"
      using assms by (auto simp: sk_delete_def Let_def d_def n_def sk_elems_def)
  qed (use d len assms in \<open>auto simp: stack_ok_def sk_elems_def\<close>)
qed

lemma scan_Some_iff:
  "scan P xs k = Some i \<longleftrightarrow> k \<le> i \<and> i - k < length xs \<and> P (xs ! (i - k)) \<and> (\<forall>j < i - k. \<not> P (xs ! j))"
proof (induction xs arbitrary: k)
  case Nil
  then show ?case by simp
next
  case (Cons x xs)
  show ?case
  proof (cases "P x \<or> i \<le> k")
    case True
    then show ?thesis using Cons by (auto simp: nth_Cons')
  next
    case False
    then obtain d where d: "i = Suc (k + d)" by (metis less_imp_Suc_add not_le)
    have "(\<forall>j < Suc d. \<not> P ((x # xs) ! j)) \<longleftrightarrow> (\<forall>j < d. \<not> P (xs ! j))"
      using False by (auto simp: less_Suc_eq_0_disj)
    then show ?thesis using False Cons [of "Suc k"] by (simp add: d)
  qed
qed

lemma scan_None_iff: "scan P xs k = None \<longleftrightarrow> (\<forall>x \<in> set xs. \<not> P x)"
  by (induction xs arbitrary: k) auto

section \<open>Binary search\<close>

context search_cmp
begin

text \<open>
  The loop's invariant: everything below \<open>lo\<close> comes before the sought element, and either everything
  from \<open>hi\<close> on comes after it or the last candidate is a match.
\<close>

definition candidates :: "'a \<Rightarrow> 'a list \<Rightarrow> nat \<Rightarrow> nat \<Rightarrow> nat \<Rightarrow> bool" where
  "candidates p xs n lo hi \<longleftrightarrow> lo \<le> hi \<and> hi \<le> n \<and> (\<forall>i < lo. 0 < cmp p (xs ! i)) \<and>
     ((\<forall>j. hi \<le> j \<longrightarrow> j < n \<longrightarrow> cmp p (xs ! j) < 0) \<or> lo < hi \<and> cmp p (xs ! (hi - 1)) = 0)"

definition ordered :: "'a list \<Rightarrow> nat \<Rightarrow> bool" where
  "ordered xs n \<longleftrightarrow> (\<forall>i j. i \<le> j \<longrightarrow> j < n \<longrightarrow> cmp (xs ! i) (xs ! j) \<le> 0)"

lemma candidates_up:
  assumes "candidates p xs n lo hi" "ordered xs n" "lo \<le> mid" "mid < hi" "0 < cmp p (xs ! mid)"
  shows "candidates p xs n (mid + 1) hi"
proof -
  have "0 < cmp p (xs ! i)" if "i < mid + 1" for i
    using above [OF assms(5), of "xs ! i"] assms that by (auto simp: ordered_def candidates_def)
  moreover have "mid \<noteq> hi - 1" if "cmp p (xs ! (hi - 1)) = 0" using that assms(5) by auto
  ultimately show ?thesis using assms(1,4) by (auto simp: candidates_def)
qed

lemma candidates_down:
  assumes "candidates p xs n lo hi" "ordered xs n" "lo \<le> mid" "mid < hi" "cmp p (xs ! mid) < 0"
  shows "candidates p xs n lo mid"
proof -
  have "cmp p (xs ! j) < 0" if "mid \<le> j" "j < n" for j
    using below [OF assms(5), of "xs ! j"] assms(2) that by (auto simp: ordered_def)
  then show ?thesis using assms(1,3,4) by (auto simp: candidates_def)
qed

lemma candidates_match:
  assumes "candidates p xs n lo hi" "lo \<le> mid" "mid < hi" "cmp p (xs ! mid) = 0"
  shows "candidates p xs n lo (mid + 1)"
  using assms by (auto simp: candidates_def)

definition earliest :: "'a \<Rightarrow> 'a list \<Rightarrow> nat \<Rightarrow> nat option \<Rightarrow> bool" where
  "earliest p xs n r \<longleftrightarrow>
     (case r of
        Some i \<Rightarrow> i < n \<and> cmp p (xs ! i) = 0 \<and> (\<forall>j < i. cmp p (xs ! j) \<noteq> 0)
      | None \<Rightarrow> \<forall>j < n. cmp p (xs ! j) \<noteq> 0)"

lemma bsearch_earliest:
  assumes "ordered xs n"
  shows "candidates p xs n lo hi \<Longrightarrow> earliest p xs n (sk_bsearch (cmp p) xs lo hi)"
proof (induction "hi - lo" arbitrary: lo hi rule: less_induct)
  case less
  note unfold = sk_bsearch.simps [of "cmp p" xs lo hi]
  show ?case
  proof (cases "lo < hi")
    case False
    then have "sk_bsearch (cmp p) xs lo hi = None" by (simp add: unfold)
    moreover have "cmp p (xs ! j) \<noteq> 0" if "j < n" for j
      using False less.prems that unfolding candidates_def
      by (metis less_irrefl order_le_less not_le)
    ultimately show ?thesis by (simp add: earliest_def)
  next
    case True
    define mid where "mid = lo + (hi - lo - 1) div 2"
    have mid: "lo \<le> mid" "mid < hi" using True by (auto simp: mid_def)
    have half: "mid + 1 < hi" if "hi - lo \<noteq> 1" using that True by (auto simp: mid_def)
    note loop = unfold [folded mid_def, unfolded Let_def]
    consider "0 < cmp p (xs ! mid)" | "cmp p (xs ! mid) < 0" | "cmp p (xs ! mid) = 0" "hi - lo = 1"
      | "cmp p (xs ! mid) = 0" "hi - lo \<noteq> 1" by linarith
    then show ?thesis
    proof cases
      case 1
      then show ?thesis
        using less.hyps [OF _ candidates_up [OF less.prems assms mid 1]] True mid by (simp add: loop)
    next
      case 2
      then show ?thesis
        using less.hyps [OF _ candidates_down [OF less.prems assms mid 2]] True mid by (simp add: loop)
    next
      case 3
      then have "mid = lo" by (simp add: mid_def)
      then show ?thesis
        using 3 True less.prems by (force simp: loop earliest_def candidates_def)
    next
      case 4
      then show ?thesis
        using less.hyps [OF _ candidates_match [OF less.prems mid 4(1)]] True mid half by (simp add: loop)
    qed
  qed
qed

lemma sorted_ordered:
  assumes "sorted_wrt (\<lambda>x y. cmp x y \<le> 0) (take n xs)" "n \<le> length xs"
  shows "ordered xs n"
  unfolding ordered_def
proof (intro allI impI)
  fix i j assume ij: "i \<le> j" "j < n"
  show "cmp (xs ! i) (xs ! j) \<le> 0"
  proof (cases "i = j")
    case True
    then show ?thesis using total [of "xs ! j" "xs ! j"] by simp
  next
    case False
    then show ?thesis using sorted_wrt_nth_less [OF assms(1), of i j] assms(2) ij by simp
  qed
qed

lemma bsearch_sorted:
  assumes "sorted_wrt (\<lambda>x y. cmp x y \<le> 0) (take n xs)" "n \<le> length xs"
  shows "sk_bsearch (cmp p) xs 0 n = scan (\<lambda>x. cmp p x = 0) (take n xs) 0"
proof -
  have "candidates p xs n 0 n" by (simp add: candidates_def)
  from bsearch_earliest [OF sorted_ordered [OF assms] this]
  have *: "earliest p xs n (sk_bsearch (cmp p) xs 0 n)" .
  show ?thesis
  proof (cases "sk_bsearch (cmp p) xs 0 n")
    case None
    then have "scan (\<lambda>x. cmp p x = 0) (take n xs) 0 = None"
      using * assms(2) by (auto simp: earliest_def scan_None_iff in_set_conv_nth)
    then show ?thesis using None by simp
  next
    case (Some i)
    then have "scan (\<lambda>x. cmp p x = 0) (take n xs) 0 = Some i"
      using * assms(2) by (auto simp: earliest_def scan_Some_iff)
    then show ?thesis using Some by simp
  qed
qed

end

section \<open>Every operation acts on the list of elements\<close>

datatype 'p stack_op =
  Insert "'p option" nat | Push "'p option" | Delete nat | Delete_ptr "'p option" | Pop | Shift
  | Set_at nat "'p option" | Zero | Sort

datatype 'p stack_result = Count nat | Ptr "'p option" | Unit

fun stack_step ::
  "(nat \<Rightarrow> bool) \<Rightarrow> (nat \<Rightarrow> 'p option) \<Rightarrow> ('c \<Rightarrow> 'p option \<Rightarrow> 'p option \<Rightarrow> int) \<Rightarrow> 'p stack_op \<Rightarrow>
    ('p, 'c) stack \<Rightarrow> 'p stack_result \<times> ('p, 'c) stack option" where
  "stack_step sys junk call (Insert p i) s = map_prod Count id (sk_insert sys junk (Some s) p i)"
| "stack_step sys junk call (Push p) s = map_prod Count id (sk_push sys junk s p)"
| "stack_step sys junk call (Delete i) s = map_prod Ptr id (sk_delete (Some s) i)"
| "stack_step sys junk call (Delete_ptr p) s = map_prod Ptr id (sk_delete_ptr (Some s) p)"
| "stack_step sys junk call Pop s = map_prod Ptr id (sk_pop (Some s))"
| "stack_step sys junk call Shift s = map_prod Ptr id (sk_shift (Some s))"
| "stack_step sys junk call (Set_at i p) s = map_prod Ptr id (sk_set (Some s) i p)"
| "stack_step sys junk call Zero s = (Unit, sk_zero (Some s))"
| "stack_step sys junk call Sort s = (Unit, sk_sort call (Some s))"

text \<open>
  What each operation means on a list: whether the result and the new list are what the operation promises. Sorting
  gives the same elements in some order that the comparison \<open>cmp\<close> allows, or leaves them if there is none.
\<close>

definition list_insert :: "'p option \<Rightarrow> nat \<Rightarrow> 'p option list \<Rightarrow> 'p stack_result \<times> 'p option list" where
  "list_insert p i xs = (Count (length xs + 1), take i xs @ p # drop i xs)"

definition list_delete :: "nat \<Rightarrow> 'p option list \<Rightarrow> 'p stack_result \<times> 'p option list" where
  "list_delete i xs = (if i < length xs then (Ptr (xs ! i), take i xs @ drop (i + 1) xs) else (Ptr None, xs))"

fun list_step ::
  "('p option \<Rightarrow> 'p option \<Rightarrow> int) option \<Rightarrow> 'p stack_op \<Rightarrow> 'p option list \<Rightarrow>
    'p stack_result \<times> 'p option list \<Rightarrow> bool" where
  "list_step cmp (Insert p i) xs res = (res = list_insert p i xs)"
| "list_step cmp (Push p) xs res = (res = list_insert p (length xs) xs)"
| "list_step cmp (Delete i) xs res = (res = list_delete i xs)"
| "list_step cmp (Delete_ptr p) xs res = (res = (if p \<in> set xs then (Ptr p, remove1 p xs) else (Ptr None, xs)))"
| "list_step cmp Pop xs res = (res = (if xs = [] then (Ptr None, []) else (Ptr (last xs), butlast xs)))"
| "list_step cmp Shift xs res = (res = (if xs = [] then (Ptr None, []) else (Ptr (hd xs), tl xs)))"
| "list_step cmp (Set_at i p) xs res = (res = (if i < length xs then (Ptr p, xs[i := p]) else (Ptr None, xs)))"
| "list_step cmp Zero xs res = (res = (Unit, []))"
| "list_step cmp Sort xs res =
     (fst res = Unit \<and> (case cmp of None \<Rightarrow> snd res = xs
        | Some c \<Rightarrow> mset (snd res) = mset xs \<and> sorted_wrt (\<lambda>x y. c x y \<le> 0) (snd res)))"

fun inserts :: "'p stack_op \<Rightarrow> bool" where
  "inserts (Insert p i) = True"
| "inserts (Push p) = True"
| "inserts _ = False"

fun replaces :: "'p stack_op \<Rightarrow> bool" where
  "replaces (Set_at i p) = True"
| "replaces _ = False"

lemma scan_remove1:
  "scan (\<lambda>x. x = p) xs k = Some i \<Longrightarrow>
    k \<le> i \<and> i - k < length xs \<and> xs ! (i - k) = p \<and> remove1 p xs = take (i - k) xs @ drop (Suc (i - k)) xs"
proof (induction xs arbitrary: k)
  case Nil
  then show ?case by simp
next
  case (Cons x xs)
  show ?case
  proof (cases "x = p")
    case True
    then show ?thesis using Cons by auto
  next
    case False
    then have "Suc k \<le> i \<and> i - Suc k < length xs \<and> xs ! (i - Suc k) = p \<and>
        remove1 p xs = take (i - Suc k) xs @ drop (Suc (i - Suc k)) xs"
      using Cons by simp
    moreover from this have "i - k = Suc (i - Suc k)" by (metis Suc_diff_Suc less_eq_Suc_le)
    ultimately show ?thesis using False by simp
  qed
qed

text \<open>What a step must establish.\<close>

definition step_refines ::
  "(nat \<Rightarrow> bool) \<Rightarrow> ('c \<Rightarrow> 'p option \<Rightarrow> 'p option \<Rightarrow> int) \<Rightarrow> 'p stack_op \<Rightarrow> ('p, 'c) stack \<Rightarrow>
    'p stack_result \<Rightarrow> ('p, 'c) stack option \<Rightarrow> bool" where
  "step_refines sys call op s r s' \<longleftrightarrow>
     (\<exists>t. s' = Some t \<and> stack_ok t \<and> sk_comp t = sk_comp s \<and> (replaces op \<and> sk_sorted s \<or> flag_ok call t) \<and>
       (if inserts op \<and> out_of_memory sys s then r = Count 0 \<and> t = s
        else list_step (map_option call (sk_comp s)) op (sk_elems s) (r, sk_elems t)))"

lemma insert_refines:
  assumes "sk_insert sys junk (Some s) p i = (n, s')" "stack_ok s" "flag_ok call s"
    and "list_step (map_option call (sk_comp s)) op (sk_elems s) (list_insert p i (sk_elems s))" "inserts op"
  shows "step_refines sys call op s (Count n) s'"
  using assms(1,2)
proof (cases rule: sk_insert_ok)
  case full
  then show ?thesis using assms by (auto simp: step_refines_def)
next
  case (room t)
  then show ?thesis using assms by (auto simp: step_refines_def list_insert_def flag_ok_def)
qed

lemma delete_refines:
  assumes "stack_ok s" "flag_ok call s" "i < sk_count s"
    and "list_step (map_option call (sk_comp s)) op (sk_elems s) (list_delete i (sk_elems s))" "\<not> inserts op"
  shows "case sk_delete (Some s) i of (q, s') \<Rightarrow> step_refines sys call op s (Ptr q) s'"
proof -
  obtain t where t: "sk_delete (Some s) i = (sk_elems s ! i, Some t)" "stack_ok t" "sk_sorted t = sk_sorted s"
    "sk_comp t = sk_comp s" "sk_elems t = take i (sk_elems s) @ drop (Suc i) (sk_elems s)"
    using sk_delete_ok [OF assms(1,3)] .
  have "sorted_wrt R (take i xs @ drop (Suc i) xs)" if "sorted_wrt R xs" for R and xs :: "'a option list"
  proof -
    have "sorted_wrt R (take i xs @ drop i xs)" using that by simp
    then show ?thesis
      unfolding sorted_wrt_append
      by (metis Cons_nth_drop_Suc drop_eq_Nil list.set_intros(2) not_le sorted_wrt.simps(2) le_Suc_eq)
  qed
  then show ?thesis using t assms by (auto simp: step_refines_def list_delete_def flag_ok_def)
qed

lemma idle_refines:
  assumes "stack_ok s" "flag_ok call s"
    and "list_step (map_option call (sk_comp s)) op (sk_elems s) (r, sk_elems s)" "\<not> inserts op"
  shows "step_refines sys call op s r (Some s)"
  using assms by (auto simp: step_refines_def)

lemma sort_refines:
  assumes "\<And>c. preorder_cmp (call c)" "stack_ok s" "flag_ok call s"
  shows "step_refines sys call Sort s Unit (sk_sort call (Some s))"
proof (cases "sk_comp s")
  case None
  then show ?thesis using assms by (simp add: sk_sort_def idle_refines)
next
  case (Some c)
  note sorts = preorder_cmp.sorted_qsort [OF assms(1)]
  show ?thesis
  proof (cases "sk_sorted s")
    case True
    then show ?thesis using Some assms by (simp add: sk_sort_def idle_refines flag_ok_def)
  next
    case False
    define d where "d = (if 2 \<le> sk_count s then qsort (call c) (sk_elems s) @ drop (sk_count s) (sk_data s)
      else sk_data s)"
    have "qsort (call c) (sk_elems s) = sk_elems s" if "\<not> 2 \<le> sk_count s"
    proof -
      have "length (sk_elems s) \<le> 1" using that assms(2) by simp
      then show ?thesis by (cases "sk_elems s") auto
    qed
    then have d: "take (sk_count s) d = qsort (call c) (sk_elems s)" "length d = length (sk_data s)"
      using assms(2) stack_ok_bounds [of s] by (auto simp: d_def sk_elems_def)
    have t: "sk_sort call (Some s) = Some (s\<lparr> sk_data := d, sk_sorted := True \<rparr>)"
      using Some False by (simp add: sk_sort_def d_def sk_elems_def)
    have e: "sk_elems (s\<lparr> sk_data := d, sk_sorted := True \<rparr>) = qsort (call c) (sk_elems s)"
      using d(1) by (simp add: sk_elems_def)
    show ?thesis
      unfolding step_refines_def t
      using Some assms(2) sorts [of c "sk_elems s"] d(2) e by (simp add: stack_ok_def flag_ok_def)
  qed
qed

lemma zero_refines:
  assumes "stack_ok s" "flag_ok call s"
  shows "step_refines sys call Zero s Unit (sk_zero (Some s))"
  using assms
  by (auto simp: step_refines_def sk_zero_def stack_ok_def flag_ok_def sk_elems_def)

lemma set_refines:
  assumes "stack_ok s" "flag_ok call s"
  shows "case sk_set (Some s) i p of (q, s') \<Rightarrow> step_refines sys call (Set_at i p) s (Ptr q) s'"
  using assms by (auto simp: step_refines_def sk_set_def stack_ok_def flag_ok_def sk_elems_def take_update_swap)

lemma delete_ptr_refines:
  assumes "stack_ok s" "flag_ok call s"
  shows "case sk_delete_ptr (Some s) p of (q, s') \<Rightarrow> step_refines sys call (Delete_ptr p) s (Ptr q) s'"
proof (cases "scan (\<lambda>x. x = p) (sk_elems s) 0")
  case None
  then have "p \<notin> set (sk_elems s)" by (auto simp: scan_None_iff)
  then show ?thesis using None assms by (simp add: sk_delete_ptr_def sk_elems_def [symmetric] idle_refines)
next
  case (Some i)
  note i = scan_remove1 [OF Some]
  then have "p \<in> set (sk_elems s)" "i < sk_count s" using assms by (auto simp: in_set_conv_nth)
  then show ?thesis
    using Some i assms delete_refines [OF assms, of i "Delete_ptr p"]
    by (simp add: sk_delete_ptr_def sk_elems_def [symmetric] list_delete_def)
qed

lemma ends_refine:
  assumes "stack_ok s" "flag_ok call s"
  shows "case sk_pop (Some s) of (q, s') \<Rightarrow> step_refines sys call Pop s (Ptr q) s'"
    and "case sk_shift (Some s) of (q, s') \<Rightarrow> step_refines sys call Shift s (Ptr q) s'"
proof -
  show "case sk_pop (Some s) of (q, s') \<Rightarrow> step_refines sys call Pop s (Ptr q) s'"
  proof (cases "sk_elems s" rule: rev_cases)
    case Nil
    then show ?thesis using assms length_sk_elems [OF assms(1)] by (simp add: sk_pop_def idle_refines)
  next
    case (snoc xs x)
    then have "sk_count s = Suc (length xs)" using length_sk_elems [OF assms(1)] by simp
    then show ?thesis
      using snoc assms delete_refines [OF assms, of "length xs" Pop] by (simp add: sk_pop_def list_delete_def)
  qed
  show "case sk_shift (Some s) of (q, s') \<Rightarrow> step_refines sys call Shift s (Ptr q) s'"
  proof (cases "sk_elems s")
    case Nil
    then show ?thesis using assms length_sk_elems [OF assms(1)] by (simp add: sk_shift_def idle_refines)
  next
    case (Cons x xs)
    then have "sk_count s = Suc (length xs)" using length_sk_elems [OF assms(1)] by simp
    then show ?thesis
      using Cons assms delete_refines [OF assms, of 0 Shift] by (simp add: sk_shift_def list_delete_def)
  qed
qed

text \<open>
  C26. Every operation that changes a stack acts on the list of its elements: the result and the new elements are what the
  list operation promises, and the stack stays well formed. An insertion is refused exactly when the array is full
  and the memory for a larger one cannot be had, and then nothing changes. A stack that claims to be sorted is, after
  every operation but one: replacing an element of a stack marked as sorted keeps the mark.
\<close>

theorem stack_refines_list:
  assumes "\<And>c. preorder_cmp (call c)" "stack_ok s" "flag_ok call s"
    and "stack_step sys junk call op s = (r, s')"
  shows "\<exists>t. s' = Some t \<and> stack_ok t \<and> sk_comp t = sk_comp s \<and> (replaces op \<and> sk_sorted s \<or> flag_ok call t) \<and>
    (if inserts op \<and> out_of_memory sys s then r = Count 0 \<and> t = s
     else list_step (map_option call (sk_comp s)) op (sk_elems s) (r, sk_elems t))"
proof -
  note known = assms(2,3)
  have "step_refines sys call op s r s'"
  proof (cases op)
    case (Insert p i)
    then obtain n where "sk_insert sys junk (Some s) p i = (n, s')" "r = Count n"
      using assms(4) by (cases "sk_insert sys junk (Some s) p i") auto
    then show ?thesis using Insert insert_refines known by fastforce
  next
    case (Push p)
    then obtain n where "sk_insert sys junk (Some s) p (sk_count s) = (n, s')" "r = Count n"
      using assms(4) by (cases "sk_insert sys junk (Some s) p (sk_count s)") (auto simp: sk_push_def)
    then show ?thesis using Push insert_refines [of sys junk s p "sk_count s"] known by fastforce
  next
    case (Delete i)
    show ?thesis
    proof (cases "i < sk_count s")
      case True
      then show ?thesis using delete_refines [OF known True, where op = op and sys = sys] Delete assms(4) by (auto split: prod.splits)
    next
      case False
      then show ?thesis using Delete assms(4) known
        by (auto simp: sk_delete_def list_delete_def intro!: idle_refines)
    qed
  next
    case (Delete_ptr p)
    then show ?thesis using delete_ptr_refines [OF known, where p = p and sys = sys] assms(4) by (auto split: prod.splits)
  next
    case Pop
    then show ?thesis using ends_refine(1) [OF known, where sys = sys] assms(4) by (auto split: prod.splits)
  next
    case Shift
    then show ?thesis using ends_refine(2) [OF known, where sys = sys] assms(4) by (auto split: prod.splits)
  next
    case (Set_at i p)
    then show ?thesis using set_refines [OF known, where i = i and p = p and sys = sys] Set_at assms(4) by (auto split: prod.splits)
  next
    case Zero
    then show ?thesis using zero_refines [OF known, where sys = sys] assms(4) by auto
  next
    case Sort
    then show ?thesis using sort_refines [OF assms(1) known, where sys = sys] assms(4) by auto
  qed
  then show ?thesis unfolding step_refines_def .
qed

definition by_number :: "unit \<Rightarrow> nat option \<Rightarrow> nat option \<Rightarrow> int" where
  "by_number c p q = int (the p) - int (the q)"

interpretation by_number: search_cmp "by_number c"
  by unfold_locales (auto simp: by_number_def)

definition demo_stack :: "bool \<Rightarrow> nat list \<Rightarrow> (nat, unit) stack" where
  "demo_stack flag xs = \<lparr> sk_count = length xs, sk_data = map Some xs @ [None], sk_sorted = flag,
     sk_num_alloc = length xs + 1, sk_comp = Some () \<rparr>"

lemma demo_stack_ok: "length xs < 4 \<Longrightarrow> stack_ok (demo_stack flag xs)"
  by (simp add: demo_stack_def stack_ok_def PTR_SIZE_def SIZE_MAX_def)

lemma stack_refines_list_witness:
  "(\<exists>t. stack_step (\<lambda>_. True) (\<lambda>_. None) by_number Sort (demo_stack False [5, 2, 7]) = (Unit, Some t) \<and>
     mset (sk_elems t) = {#Some 5, Some 2, Some 7#} \<and> sorted_wrt (\<lambda>p q. the p \<le> the q) (sk_elems t)) \<and>
   (\<exists>t. stack_step (\<lambda>_. True) (\<lambda>_. None) by_number (Push (Some 1)) (demo_stack True [5]) = (Count 2, Some t) \<and>
     sk_elems t = [Some 5, Some 1])"
proof -
  have f: "flag_ok by_number (demo_stack False [5, 2, 7])" "flag_ok by_number (demo_stack True [5])"
    by (simp_all add: flag_ok_def demo_stack_def sk_elems_def)
  have m: "\<not> out_of_memory (\<lambda>_. True) (demo_stack True [5])"
    by (simp add: out_of_memory_def demo_stack_def PTR_SIZE_def SIZE_MAX_def OPENSSL_malloc_def OPENSSL_MALLOC_PREFIX_def size_t_def)
  note step = stack_refines_list [of by_number, OF by_number.preorder_cmp_axioms demo_stack_ok]
  from step [OF _ f(1) surjective_pairing, where op = Sort and sys = "\<lambda>_. True" and junk = "\<lambda>_. None"]
    step [OF _ f(2) surjective_pairing, where op = "Push (Some 1)" and sys = "\<lambda>_. True" and junk = "\<lambda>_. None"] m
  show ?thesis
    by (auto simp: demo_stack_def sk_elems_def by_number_def list_insert_def prod_eq_iff)
qed

text \<open>What it means for an element to be the one that is sought.\<close>

definition sk_matches ::
  "('c \<Rightarrow> 'p option \<Rightarrow> 'p option \<Rightarrow> int) \<Rightarrow> ('p, 'c) stack \<Rightarrow> 'p option \<Rightarrow> 'p option \<Rightarrow> bool" where
  "sk_matches call s p x \<longleftrightarrow>
     (case sk_comp s of None \<Rightarrow> x = p | Some c \<Rightarrow> p \<noteq> None \<and> call c p x = 0)"

text \<open>
  C27. \<open>sk_find\<close> returns the earliest matching element, or reports that there is none, whether it
  compares pointers, scans an unsorted stack or runs the binary search on a sorted one.
\<close>

theorem find_returns_earliest:
  assumes "\<And>c. search_cmp (call c)" "stack_ok s" "flag_ok call s"
  shows "case sk_find call (Some s) p of
      Some i \<Rightarrow> i < length (sk_elems s) \<and> sk_matches call s p (sk_elems s ! i) \<and>
        (\<forall>j < i. \<not> sk_matches call s p (sk_elems s ! j))
    | None \<Rightarrow> \<forall>x \<in> set (sk_elems s). \<not> sk_matches call s p x"
proof (cases "sk_comp s")
  case None
  then have "sk_find call (Some s) p = scan (\<lambda>x. x = p) (sk_elems s) 0"
    by (simp add: sk_find_def sk_elems_def)
  then show ?thesis using None by (auto simp: sk_matches_def scan_Some_iff scan_None_iff split: option.split)
next
  case (Some c)
  then have "sk_find call (Some s) p = (if p = None then None else scan (\<lambda>x. call c p x = 0) (sk_elems s) 0)"
    using search_cmp.bsearch_sorted [OF assms(1), of c "sk_count s" "sk_data s" p] assms(3) stack_ok_bounds [OF assms(2)]
    by (auto simp: sk_find_def sk_elems_def sk_is_sorted_def flag_ok_def)
  then show ?thesis using Some by (auto simp: sk_matches_def scan_Some_iff scan_None_iff split: option.split)
qed

lemma find_returns_earliest_witness:
  "sk_find by_number (Some (demo_stack True [1, 4, 4, 6])) (Some 4) = Some 1 \<and>
   sk_matches by_number (demo_stack True [1, 4, 4, 6]) (Some 4) (Some 4)"
proof -
  let ?s = "demo_stack True [1, 4, 4, 6]"
  have "flag_ok by_number ?s" "stack_ok ?s"
    by (simp_all add: flag_ok_def demo_stack_def by_number_def sk_elems_def stack_ok_def PTR_SIZE_def SIZE_MAX_def)
  from find_returns_earliest [of by_number, OF by_number.search_cmp_axioms this(2,1), of "Some 4"]
  show ?thesis
    by (auto simp: demo_stack_def sk_elems_def sk_matches_def by_number_def nth_Cons' numeral_2_eq_2 less_Suc_eq_0_disj
        split: option.splits if_splits)
qed

text \<open>
  \<open>sk_set\<close> keeps the flag \<open>sorted\<close>, so a replacement can leave the elements out of order and the
  search no longer finds what is there.
\<close>

lemma set_hides_element:
  "case sk_set (Some (demo_stack True [1, 2, 3])) 0 (Some 9) of (q, Some s) \<Rightarrow>
     Some 9 \<in> set (sk_elems s) \<and> sk_find by_number (Some s) (Some 9) = None"
  by (simp add: sk_set_def demo_stack_def sk_elems_def sk_find_def sk_is_sorted_def by_number_def sk_bsearch.simps)

section \<open>Deep copies\<close>

text \<open>
  A ledger of the live copies: copying an element either fails or adds a copy, freeing removes one.
\<close>

fun live_ptrs :: "'p option list \<Rightarrow> 'p multiset" where
  "live_ptrs [] = {#}"
| "live_ptrs (None # ps) = live_ptrs ps"
| "live_ptrs (Some p # ps) = add_mset p (live_ptrs ps)"

definition ledger_copy :: "('p \<Rightarrow> 'p multiset \<Rightarrow> 'p option) \<Rightarrow> 'p \<Rightarrow> 'p multiset \<Rightarrow> 'p option \<times> 'p multiset" where
  "ledger_copy f p w = (case f p w of None \<Rightarrow> (None, w) | Some q \<Rightarrow> (Some q, add_mset q w))"

definition ledger_free :: "'p \<Rightarrow> 'p multiset \<Rightarrow> 'p multiset" where
  "ledger_free p w = w - {#p#}"

lemma live_ptrs_append [simp]: "live_ptrs (xs @ ys) = live_ptrs xs + live_ptrs ys"
  by (induction xs rule: live_ptrs.induct) auto

lemma free_elements_ledger: "free_elements ledger_free ps (w + live_ptrs ps) = w"
  by (induction ps rule: live_ptrs.induct) (auto simp: ledger_free_def)

text \<open>The copies \<open>qs\<close> of the elements \<open>ps\<close>: \<open>NULL\<close> stays \<open>NULL\<close>, everything else is a new pointer.\<close>

definition same_shape :: "'p option list \<Rightarrow> 'p option list \<Rightarrow> bool" where
  "same_shape ps qs \<longleftrightarrow> list_all2 (\<lambda>p q. p = None \<longleftrightarrow> q = None) ps qs"

lemma copy_loop_ledger:
  "copy_loop (ledger_copy f) ledger_free qs ps (w + live_ptrs qs) = (r, w') \<Longrightarrow>
    (case r of None \<Rightarrow> w' = w
     | Some rs \<Rightarrow> w' = w + live_ptrs rs \<and> (\<exists>ts. rs = qs @ ts \<and> same_shape ps ts))"
proof (induction ps arbitrary: qs)
  case Nil
  then show ?case by (auto simp: same_shape_def)
next
  case (Cons p ps)
  show ?case
  proof (cases p)
    case None
    then have "copy_loop (ledger_copy f) ledger_free (qs @ [None]) ps (w + live_ptrs (qs @ [None])) = (r, w')"
      using Cons.prems by simp
    from Cons.IH [OF this] show ?thesis using None by (auto simp: same_shape_def split: option.splits)
  next
    case (Some a)
    show ?thesis
    proof (cases "f a (w + live_ptrs qs)")
      case None
      then show ?thesis using Some Cons.prems free_elements_ledger [of qs w]
        by (auto simp: ledger_copy_def)
    next
      case (Some b)
      then have "copy_loop (ledger_copy f) ledger_free (qs @ [Some b]) ps (w + live_ptrs (qs @ [Some b])) = (r, w')"
        using \<open>p = Some a\<close> Cons.prems by (simp add: ledger_copy_def [of f a])
      from Cons.IH [OF this] show ?thesis using \<open>p = Some a\<close>
        by (auto simp: same_shape_def split: option.splits)
    qed
  qed
qed

lemma sk_dup_ok:
  assumes "sk_dup sys junk (Some s) = Some t" "stack_ok s"
  shows "stack_ok t \<and> sk_elems t = sk_elems s \<and> sk_sorted t = sk_sorted s \<and> sk_comp t = sk_comp s \<and>
    sk_count t = sk_count s"
  using assms by (auto simp: sk_dup_def stack_ok_def sk_elems_def split: if_splits)

text \<open>
  C28. A deep copy either succeeds, with one live copy for every element that is not \<open>NULL\<close> and
  \<open>NULL\<close> where the original has it, or fails and has freed every copy it had made, exactly once.
\<close>

theorem deep_copy_frees_on_failure:
  assumes "stack_ok s" "sk_deep_copy sys junk (Some s) (ledger_copy f) ledger_free w = (r, w')"
  shows "case r of
      None \<Rightarrow> w' = w
    | Some t \<Rightarrow> stack_ok t \<and> same_shape (sk_elems s) (sk_elems t) \<and> w' = w + live_ptrs (sk_elems t)"
proof (cases "sk_dup sys junk (Some s)")
  case None
  then show ?thesis using assms(2) by (auto simp: sk_deep_copy_def)
next
  case (Some d)
  note d = sk_dup_ok [OF Some assms(1)]
  obtain q u where loop: "copy_loop (ledger_copy f) ledger_free [] (sk_elems s) w = (q, u)"
    by (cases "copy_loop (ledger_copy f) ledger_free [] (sk_elems s) w")
  then have post: "case q of None \<Rightarrow> u = w | Some rs \<Rightarrow> u = w + live_ptrs rs \<and> same_shape (sk_elems s) rs"
    using copy_loop_ledger [of f "[]" "sk_elems s" w q u] by (auto split: option.splits)
  have body: "(r, w') = (case q of None \<Rightarrow> (None, u)
      | Some rs \<Rightarrow> (Some (d\<lparr> sk_data := rs @ drop (sk_count d) (sk_data d) \<rparr>), u))"
  proof -
    have "take (sk_count d) (sk_data d) = sk_elems s" using d by (metis sk_elems_def)
    then show ?thesis using assms(2) Some loop by (auto simp: sk_deep_copy_def split: option.splits)
  qed
  show ?thesis
  proof (cases q)
    case None
    then show ?thesis using post body by simp
  next
    case (Some rs)
    then have "length rs = sk_count d" using post d assms(1)
      by (auto simp: same_shape_def dest!: list_all2_lengthD)
    then show ?thesis using Some post body d stack_ok_bounds [of d]
      by (auto simp: stack_ok_def sk_elems_def)
  qed
qed

lemma deep_copy_frees_on_failure_witness:
  "sk_deep_copy (\<lambda>_. True) (\<lambda>_. None) (Some (demo_stack False [1, 2, 3]))
     (ledger_copy (\<lambda>p w. if p = 3 then None else Some (p + 10))) ledger_free {#7#} = (None, {#7#})"
proof -
  let ?r = "sk_deep_copy (\<lambda>_. True) (\<lambda>_. None) (Some (demo_stack False [1, 2, 3]))
     (ledger_copy (\<lambda>p w. if p = 3 then None else Some (p + 10))) ledger_free {#7#}"
  have "fst ?r = None"
    by (simp add: sk_deep_copy_def sk_dup_def demo_stack_def ledger_copy_def OPENSSL_malloc_def)
  then show ?thesis
    using deep_copy_frees_on_failure [OF demo_stack_ok [of "[1, 2, 3]" False] prod.collapse [symmetric],
        of "\<lambda>_. True" "\<lambda>_. None" "\<lambda>p w. if p = 3 then None else Some (p + 10)" "{#7#}"]
    by (simp add: prod_eq_iff)
qed

end
