(* ===== verification/Buf.thy ===== *)
theory Buf
  imports Mem Codec
begin

text \<open>
  The growing memory buffer of \<open>src/crypto/buf/buf.c\<close>. \<open>buf_data\<close> is the whole allocated block of \<open>buf_max\<close>
  bytes, of which the first \<open>buf_length\<close> are in use; \<open>junk i\<close> is what a freshly allocated byte holds.
\<close>

section \<open>State and operations\<close>

record buf_mem =
  buf_length :: nat
  buf_data :: "u8 list"
  buf_max :: nat

definition BUF_MEM_SIZE :: nat where
  "BUF_MEM_SIZE = 24"

definition BUF_MEM_new :: "(nat \<Rightarrow> bool) \<Rightarrow> buf_mem option" where
  "BUF_MEM_new sys =
     (if OPENSSL_malloc sys BUF_MEM_SIZE
      then Some \<lparr> buf_length = 0, buf_data = [], buf_max = 0 \<rparr> else None)"

definition BUF_MEM_reserve ::
  "(nat \<Rightarrow> bool) \<Rightarrow> (nat \<Rightarrow> u8) \<Rightarrow> buf_mem \<Rightarrow> nat \<Rightarrow> bool \<times> buf_mem" where
  "BUF_MEM_reserve sys junk buf cap =
     (if cap \<le> buf_max buf then (True, buf)
      else
        let n = size_t (cap + 3)
        in if n < cap then (False, buf)
           else
             let n = n div 3; alloc_size = size_t (n * 4)
             in if alloc_size div 4 \<noteq> n then (False, buf)
                else case OPENSSL_realloc sys (buf_data buf) alloc_size of
                    None \<Rightarrow> (False, buf)
                  | Some kept \<Rightarrow>
                      (True, buf\<lparr> buf_data := kept @ map junk [length kept..<alloc_size],
                                  buf_max := alloc_size \<rparr>))"

definition BUF_MEM_grow ::
  "(nat \<Rightarrow> bool) \<Rightarrow> (nat \<Rightarrow> u8) \<Rightarrow> buf_mem \<Rightarrow> nat \<Rightarrow> nat \<times> buf_mem" where
  "BUF_MEM_grow sys junk buf len =
     (case BUF_MEM_reserve sys junk buf len of
        (False, buf') \<Rightarrow> (0, buf')
      | (True, buf') \<Rightarrow>
          (len,
           (if buf_length buf' < len
            then buf'\<lparr> buf_data := take (buf_length buf') (buf_data buf')
                         @ replicate (len - buf_length buf') 0 @ drop len (buf_data buf') \<rparr>
            else buf')\<lparr> buf_length := len \<rparr>))"

definition BUF_MEM_grow_clean ::
  "(nat \<Rightarrow> bool) \<Rightarrow> (nat \<Rightarrow> u8) \<Rightarrow> buf_mem \<Rightarrow> nat \<Rightarrow> nat \<times> buf_mem" where
  "BUF_MEM_grow_clean sys junk buf len = BUF_MEM_grow sys junk buf len"

definition BUF_MEM_append ::
  "(nat \<Rightarrow> bool) \<Rightarrow> (nat \<Rightarrow> u8) \<Rightarrow> buf_mem \<Rightarrow> u8 list \<Rightarrow> bool \<times> buf_mem" where
  "BUF_MEM_append sys junk buf bs =
     (if length bs = 0 then (True, buf)
      else
        let new_len = size_t (buf_length buf + length bs)
        in if new_len < length bs then (False, buf)
           else case BUF_MEM_reserve sys junk buf new_len of
               (False, buf') \<Rightarrow> (False, buf')
             | (True, buf') \<Rightarrow>
                 (True, buf'\<lparr> buf_data := take (buf_length buf') (buf_data buf') @ bs
                                @ drop (buf_length buf' + length bs) (buf_data buf'),
                              buf_length := new_len \<rparr>))"

text \<open>The older names of the string helpers.\<close>

definition BUF_strdup :: "(nat \<Rightarrow> bool) \<Rightarrow> u8 list \<Rightarrow> u8 list option option" where
  "BUF_strdup sys s = OPENSSL_strdup sys s"

definition BUF_strnlen :: "u8 list \<Rightarrow> nat \<Rightarrow> nat option" where
  "BUF_strnlen s n = OPENSSL_strnlen s n"

definition BUF_strndup :: "(nat \<Rightarrow> bool) \<Rightarrow> u8 list \<Rightarrow> nat \<Rightarrow> u8 list option option" where
  "BUF_strndup sys s n = OPENSSL_strndup sys s n"

definition BUF_strlcpy :: "u8 list \<Rightarrow> u8 list \<Rightarrow> nat \<Rightarrow> (u8 list \<times> nat) option" where
  "BUF_strlcpy dst src dst_size = OPENSSL_strlcpy dst src dst_size"

definition BUF_strlcat :: "u8 list \<Rightarrow> u8 list \<Rightarrow> nat \<Rightarrow> (u8 list \<times> nat) option" where
  "BUF_strlcat dst src dst_size = OPENSSL_strlcat dst src dst_size"

definition BUF_memdup :: "(nat \<Rightarrow> bool) \<Rightarrow> u8 list \<Rightarrow> u8 list option" where
  "BUF_memdup sys data = OPENSSL_memdup sys data"

section \<open>Well-formed buffers and what they hold\<close>

definition buf_ok :: "buf_mem \<Rightarrow> bool" where
  "buf_ok b \<longleftrightarrow> length (buf_data b) = buf_max b \<and> buf_length b \<le> buf_max b \<and> buf_max b \<le> SIZE_MAX"

definition buf_bytes :: "buf_mem \<Rightarrow> u8 list" where
  "buf_bytes b = take (buf_length b) (buf_data b)"

lemma length_buf_bytes [simp]: "buf_ok b \<Longrightarrow> length (buf_bytes b) = buf_length b"
  by (simp add: buf_ok_def buf_bytes_def)

lemma BUF_MEM_new_ok: "BUF_MEM_new sys = Some b \<Longrightarrow> buf_ok b \<and> buf_bytes b = []"
  by (auto simp: BUF_MEM_new_def buf_ok_def buf_bytes_def split: if_splits)

lemma reserve_size:
  assumes "\<not> size_t (cap + 3) < cap" "size_t (size_t (cap + 3) div 3 * 4) div 4 = size_t (cap + 3) div 3"
  shows "cap \<le> size_t (size_t (cap + 3) div 3 * 4)"
proof (cases "cap + 3 \<le> SIZE_MAX")
  case True
  then show ?thesis using assms(2) by simp
next
  case False
  have "size_t (cap + 3) \<le> cap + 3 - 18446744073709551616"
    using False by (simp add: size_t_def SIZE_MAX_def le_mod_geq)
  then show ?thesis using assms(1) False unfolding SIZE_MAX_def by linarith
qed

text \<open>Reserving keeps the contents, and on success there is room for \<open>cap\<close> bytes.\<close>

lemma BUF_MEM_reserve_ok:
  assumes "BUF_MEM_reserve sys junk b cap = (ok, b')" "buf_ok b"
  shows "buf_ok b' \<and> buf_bytes b' = buf_bytes b \<and> buf_length b' = buf_length b \<and>
    (ok \<longrightarrow> cap \<le> buf_max b') \<and> (\<not> ok \<longrightarrow> b' = b)"
proof (cases "cap \<le> buf_max b \<or> \<not> ok")
  case True
  then show ?thesis using assms by (auto simp: BUF_MEM_reserve_def Let_def split: if_splits option.splits)
next
  case False
  define alloc where "alloc = size_t (size_t (cap + 3) div 3 * 4)"
  obtain kept where k: "OPENSSL_realloc sys (buf_data b) alloc = Some kept"
    "b' = b\<lparr> buf_data := kept @ map junk [length kept..<alloc], buf_max := alloc \<rparr>"
    "\<not> size_t (cap + 3) < cap" "alloc div 4 = size_t (cap + 3) div 3"
    using assms(1) False by (auto simp: BUF_MEM_reserve_def Let_def alloc_def split: if_splits option.splits)
  have "cap \<le> alloc" using reserve_size k(3,4) unfolding alloc_def by blast
  moreover have "alloc \<le> SIZE_MAX" unfolding alloc_def by (rule size_t_le)
  moreover have "kept = buf_data b"
    using OPENSSL_realloc_keeps [OF k(1)] False \<open>cap \<le> alloc\<close> assms(2) by (simp add: buf_ok_def)
  ultimately show ?thesis using k(2) False assms(2) by (auto simp: buf_ok_def buf_bytes_def)
qed

lemma BUF_MEM_reserve_succeeds:
  assumes "sys = (\<lambda>_. True)" "cap \<le> SIZE_MAX div 2"
  shows "fst (BUF_MEM_reserve sys junk b cap)"
proof -
  have n: "size_t (cap + 3) = cap + 3" using assms(2) by (simp add: SIZE_MAX_def)
  then have a: "size_t ((cap + 3) div 3 * 4) = (cap + 3) div 3 * 4"
    using assms(2) by (intro size_t_id) (simp add: SIZE_MAX_def)
  have "(cap + 3) div 3 * 4 + OPENSSL_MALLOC_PREFIX \<le> SIZE_MAX"
    using assms(2) by (simp add: SIZE_MAX_def OPENSSL_MALLOC_PREFIX_def)
  then show ?thesis
    using assms(1) n a by (auto simp: BUF_MEM_reserve_def Let_def OPENSSL_realloc_def OPENSSL_malloc_def
      simp del: add_mult_distrib add_mult_distrib2 mult.commute)
qed

lemma BUF_MEM_append_ok:
  assumes "BUF_MEM_append sys junk b bs = (ok, b')" "buf_ok b" "length bs \<le> SIZE_MAX"
  shows "buf_ok b' \<and> (if ok then buf_bytes b' = buf_bytes b @ bs else b' = b)"
proof (cases "bs = []")
  case True
  then show ?thesis using assms by (simp add: BUF_MEM_append_def)
next
  case False
  define n where "n = size_t (buf_length b + length bs)"
  show ?thesis
  proof (cases "n < length bs")
    case True
    then show ?thesis using False assms by (simp add: BUF_MEM_append_def n_def Let_def)
  next
    case fits: False
    then have n: "n = buf_length b + length bs"
      using size_t_add_overflow [of "length bs" "buf_length b"] assms(2,3)
      by (auto simp: n_def buf_ok_def add.commute)
    obtain r t where r: "BUF_MEM_reserve sys junk b n = (r, t)" by (cases "BUF_MEM_reserve sys junk b n")
    note t = BUF_MEM_reserve_ok [OF r assms(2)]
    show ?thesis
    proof (cases r)
      case True
      then have "ok \<and> b' = t\<lparr> buf_data := take (buf_length t) (buf_data t) @ bs
          @ drop (buf_length t + length bs) (buf_data t), buf_length := n \<rparr>"
        using assms(1) False fits r by (simp add: BUF_MEM_append_def n_def [symmetric] Let_def)
      then show ?thesis using t True n by (auto simp: buf_ok_def buf_bytes_def)
    next
      case refused: False
      then show ?thesis using assms(1,2) False fits r t
        by (simp add: BUF_MEM_append_def n_def [symmetric] Let_def)
    qed
  qed
qed

lemma BUF_MEM_grow_ok:
  assumes "BUF_MEM_grow sys junk b len = (r, b')" "buf_ok b"
  shows "buf_ok b' \<and>
    (if r = len then buf_bytes b' = take len (buf_bytes b) @ replicate (len - buf_length b) 0
     else r = 0 \<and> b' = b)"
proof -
  obtain ok t where res: "BUF_MEM_reserve sys junk b len = (ok, t)" by (cases "BUF_MEM_reserve sys junk b len")
  note t = BUF_MEM_reserve_ok [OF res assms(2)]
  show ?thesis
  proof (cases ok)
    case False
    then have "0 < len" using res by (auto simp: BUF_MEM_reserve_def split: if_splits)
    then show ?thesis using False assms res t by (simp add: BUF_MEM_grow_def)
  next
    case True
    have "buf_bytes b = take (buf_length b) (buf_data t)" using t by (metis buf_bytes_def)
    then show ?thesis using True assms(1) res t
      by (auto simp: BUF_MEM_grow_def buf_ok_def buf_bytes_def min_def)
  qed
qed

interpretation buf_sink: byte_sink "\<lambda>b x. BUF_MEM_append sys junk b [x]" buf_bytes buf_ok
  for sys junk
proof
  fix b b' :: buf_mem and x :: u8
  assume "buf_ok b" "BUF_MEM_append sys junk b [x] = (True, b')"
  from BUF_MEM_append_ok [OF this(2,1)] show "buf_bytes b' = buf_bytes b @ [x]" "buf_ok b'"
    by (auto simp: SIZE_MAX_def)
qed

text \<open>
  The buffer holds what was put into it. An append adds exactly the given bytes or leaves the
  buffer as it was, growing cuts the contents or extends them with zeros or leaves them, and a request
  below half the address space is only refused when memory is.
\<close>

lemma buffer_holds_bytes:
  assumes "buf_ok b" "length bs \<le> SIZE_MAX"
  shows "(case BUF_MEM_append sys junk b bs of (ok, b') \<Rightarrow>
      buf_ok b' \<and> (if ok then buf_bytes b' = buf_bytes b @ bs else b' = b)) \<and>
    (case BUF_MEM_grow sys junk b len of (r, b') \<Rightarrow>
      buf_ok b' \<and> (if r = len then buf_bytes b' = take len (buf_bytes b) @ replicate (len - length (buf_bytes b)) 0
                   else r = 0 \<and> b' = b)) \<and>
    (buf_length b + length bs \<le> SIZE_MAX div 2 \<longrightarrow> sys = (\<lambda>_. True) \<longrightarrow> fst (BUF_MEM_append sys junk b bs))"
proof (intro conjI impI)
  show "case BUF_MEM_append sys junk b bs of (ok, b') \<Rightarrow>
      buf_ok b' \<and> (if ok then buf_bytes b' = buf_bytes b @ bs else b' = b)"
    using BUF_MEM_append_ok assms by (auto split: prod.split)
  show "case BUF_MEM_grow sys junk b len of (r, b') \<Rightarrow>
      buf_ok b' \<and> (if r = len then buf_bytes b' = take len (buf_bytes b) @ replicate (len - length (buf_bytes b)) 0
                   else r = 0 \<and> b' = b)"
    using BUF_MEM_grow_ok assms by (auto split: prod.split)
  assume small: "buf_length b + length bs \<le> SIZE_MAX div 2" and sys: "sys = (\<lambda>_. True)"
  then have "size_t (buf_length b + length bs) = buf_length b + length bs" by (simp add: SIZE_MAX_def)
  then show "fst (BUF_MEM_append sys junk b bs)"
    using BUF_MEM_reserve_succeeds [OF sys small, of junk b]
    by (auto simp: BUF_MEM_append_def Let_def split: prod.splits bool.splits)
qed

lemma buffer_holds_bytes_witness:
  "\<exists>b b'. BUF_MEM_new (\<lambda>_. True) = Some b \<and> BUF_MEM_append (\<lambda>_. True) (\<lambda>_. 7) b [1, 2, 3] = (True, b') \<and>
    buf_bytes b' = [1, 2, 3]"
proof -
  define b where "b = \<lparr> buf_length = 0, buf_data = [], buf_max = 0 \<rparr>"
  have b: "BUF_MEM_new (\<lambda>_. True) = Some b" "buf_ok b" "buf_bytes b = []"
    by (simp_all add: BUF_MEM_new_def OPENSSL_malloc_def b_def buf_ok_def buf_bytes_def
        BUF_MEM_SIZE_def OPENSSL_MALLOC_PREFIX_def size_t_def)
  have len: "length [1, 2, 3 :: u8] \<le> SIZE_MAX" "buf_length b + length [1, 2, 3 :: u8] \<le> SIZE_MAX div 2"
    by (simp_all add: SIZE_MAX_def b_def)
  show ?thesis
    using b(1,3) len(2) buffer_holds_bytes [OF b(2) len(1), of "\<lambda>_. True" "\<lambda>_. 7" 0]
    by (intro exI [of _ b] exI [of _ "snd (BUF_MEM_append (\<lambda>_. True) (\<lambda>_. 7) b [1, 2, 3])"])
      (auto simp: prod_eq_iff split: prod.splits)
qed

end
