(* ===== verification/Lhash.thy ===== *)
theory Lhash
  imports Mem "HOL-Library.Multiset"
begin

text \<open>
  The hash table of \<open>src/crypto/lhash/lhash.c\<close>: an array of chains of items that carry their cached hash,
  resized as it fills and empties. A chain is the list of its items. A pointer to the \<open>next\<close> field of an
  item, or to the head of a chain, is the pair of the bucket's index and the position in its
  chain. The table's two function pointers are set once, when it is made, and only ever called:
  \<open>hash\<close> and \<open>cmp\<close> are what the calls return. Data pointers are not \<open>NULL\<close>.
\<close>

section \<open>State\<close>

record 'd lhash_item =
  item_data :: 'd
  item_hash :: u32

record 'd lhash =
  lh_num_items :: nat
  lh_buckets :: "'d lhash_item list list"
  lh_num_buckets :: nat
  lh_callback_depth :: nat

definition kMinNumBuckets :: nat where
  "kMinNumBuckets = 16"

definition kMaxAverageChainLength :: nat where
  "kMaxAverageChainLength = 2"

definition kMinAverageChainLength :: nat where
  "kMinAverageChainLength = 1"

definition LHASH_SIZE :: nat where
  "LHASH_SIZE = 48"

definition LHASH_ITEM_SIZE :: nat where
  "LHASH_ITEM_SIZE = 24"

definition ITEM_PTR_SIZE :: nat where
  "ITEM_PTR_SIZE = 8"

definition UINT_MAX :: nat where
  "UINT_MAX = 4294967295"

section \<open>Operations\<close>

definition OPENSSL_lh_new :: "(nat \<Rightarrow> bool) \<Rightarrow> 'd lhash option" where
  "OPENSSL_lh_new sys =
     (if \<not> OPENSSL_malloc sys LHASH_SIZE then None
      else if \<not> OPENSSL_malloc sys (ITEM_PTR_SIZE * kMinNumBuckets) then None
      else Some \<lparr> lh_num_items = 0, lh_buckets = replicate kMinNumBuckets [],
                  lh_num_buckets = kMinNumBuckets, lh_callback_depth = 0 \<rparr>)"

definition OPENSSL_lh_num_items :: "'d lhash \<Rightarrow> nat" where
  "OPENSSL_lh_num_items lh = lh_num_items lh"

text \<open>\<open>find_pos P chain\<close>: how far the walk along a chain gets before it meets an item with \<open>P\<close>.\<close>

fun find_pos :: "('a \<Rightarrow> bool) \<Rightarrow> 'a list \<Rightarrow> nat" where
  "find_pos P [] = 0"
| "find_pos P (x # xs) = (if P x then 0 else Suc (find_pos P xs))"

definition get_next_ptr_and_hash ::
  "('d \<Rightarrow> u32) \<Rightarrow> ('d \<Rightarrow> 'd \<Rightarrow> int) \<Rightarrow> 'd lhash \<Rightarrow> 'd \<Rightarrow> u32 \<times> nat \<times> nat" where
  "get_next_ptr_and_hash hash cmp lh d =
     (let h = hash d; b = unat h mod lh_num_buckets lh
      in (h, b, find_pos (\<lambda>it. cmp (item_data it) d = 0) (lh_buckets lh ! b)))"

definition get_next_ptr_by_key :: "'d lhash \<Rightarrow> 'k \<Rightarrow> u32 \<Rightarrow> ('k \<Rightarrow> 'd \<Rightarrow> int) \<Rightarrow> nat \<times> nat" where
  "get_next_ptr_by_key lh key key_hash cmp_key =
     (let b = unat key_hash mod lh_num_buckets lh
      in (b, find_pos (\<lambda>it. cmp_key key (item_data it) = 0) (lh_buckets lh ! b)))"

text \<open>\<open>*next_ptr\<close>: the item pointed to, \<open>None\<close> at the end of a chain.\<close>

definition deref :: "'d lhash \<Rightarrow> nat \<times> nat \<Rightarrow> 'd lhash_item option" where
  "deref lh next_ptr =
     (case next_ptr of (b, p) \<Rightarrow>
        if p < length (lh_buckets lh ! b) then Some (lh_buckets lh ! b ! p) else None)"

definition OPENSSL_lh_retrieve :: "('d \<Rightarrow> u32) \<Rightarrow> ('d \<Rightarrow> 'd \<Rightarrow> int) \<Rightarrow> 'd lhash \<Rightarrow> 'd \<Rightarrow> 'd option" where
  "OPENSSL_lh_retrieve hash cmp lh d =
     (case get_next_ptr_and_hash hash cmp lh d of (_, next_ptr) \<Rightarrow> map_option item_data (deref lh next_ptr))"

definition OPENSSL_lh_retrieve_key ::
  "'d lhash \<Rightarrow> 'k \<Rightarrow> u32 \<Rightarrow> ('k \<Rightarrow> 'd \<Rightarrow> int) \<Rightarrow> 'd option" where
  "OPENSSL_lh_retrieve_key lh key key_hash cmp_key =
     map_option item_data (deref lh (get_next_ptr_by_key lh key key_hash cmp_key))"

text \<open>The items are taken chain by chain and pushed onto the front of their new chains.\<close>

definition push_item :: "nat \<Rightarrow> 'd lhash_item list list \<Rightarrow> 'd lhash_item \<Rightarrow> 'd lhash_item list list" where
  "push_item n buckets cur =
     (let new_bucket = unat (item_hash cur) mod n
      in buckets[new_bucket := cur # buckets ! new_bucket])"

definition lh_rebucket :: "(nat \<Rightarrow> bool) \<Rightarrow> 'd lhash \<Rightarrow> nat \<Rightarrow> 'd lhash" where
  "lh_rebucket sys lh new_num_buckets =
     (let alloc_size = size_t (ITEM_PTR_SIZE * new_num_buckets)
      in if alloc_size div ITEM_PTR_SIZE \<noteq> new_num_buckets then lh
         else if \<not> OPENSSL_malloc sys alloc_size then lh
         else lh\<lparr> lh_num_buckets := new_num_buckets,
                  lh_buckets := foldl (foldl (push_item new_num_buckets))
                                  (replicate new_num_buckets []) (lh_buckets lh) \<rparr>)"

definition lh_maybe_resize :: "(nat \<Rightarrow> bool) \<Rightarrow> 'd lhash \<Rightarrow> 'd lhash" where
  "lh_maybe_resize sys lh =
     (if 0 < lh_callback_depth lh then lh
      else
        let avg_chain_length = lh_num_items lh div lh_num_buckets lh
        in if kMaxAverageChainLength < avg_chain_length then
             let new_num_buckets = size_t (lh_num_buckets lh * 2)
             in if lh_num_buckets lh < new_num_buckets then lh_rebucket sys lh new_num_buckets else lh
           else if avg_chain_length < kMinAverageChainLength \<and> kMinNumBuckets < lh_num_buckets lh then
             let new_num_buckets = lh_num_buckets lh div 2;
                 new_num_buckets = (if new_num_buckets < kMinNumBuckets then kMinNumBuckets else new_num_buckets)
             in lh_rebucket sys lh new_num_buckets
           else lh)"

text \<open>\<open>OPENSSL_lh_insert\<close> returns success, the data it replaced and the table.\<close>

definition OPENSSL_lh_insert ::
  "(nat \<Rightarrow> bool) \<Rightarrow> ('d \<Rightarrow> u32) \<Rightarrow> ('d \<Rightarrow> 'd \<Rightarrow> int) \<Rightarrow> 'd lhash \<Rightarrow> 'd \<Rightarrow> bool \<times> 'd option \<times> 'd lhash" where
  "OPENSSL_lh_insert sys hash cmp lh d =
     (case get_next_ptr_and_hash hash cmp lh d of (h, b, p) \<Rightarrow>
        let chain = lh_buckets lh ! b
        in case deref lh (b, p) of
             Some old \<Rightarrow>
               (True, Some (item_data old),
                lh\<lparr> lh_buckets := (lh_buckets lh)[b := chain[p := old\<lparr> item_data := d \<rparr>]] \<rparr>)
           | None \<Rightarrow>
               if \<not> OPENSSL_malloc sys LHASH_ITEM_SIZE then (False, None, lh)
               else
                 (True, None,
                  lh_maybe_resize sys
                    (lh\<lparr> lh_buckets := (lh_buckets lh)[b := chain @ [\<lparr> item_data = d, item_hash = h \<rparr>]],
                         lh_num_items := size_t (lh_num_items lh + 1) \<rparr>)))"

definition OPENSSL_lh_delete ::
  "(nat \<Rightarrow> bool) \<Rightarrow> ('d \<Rightarrow> u32) \<Rightarrow> ('d \<Rightarrow> 'd \<Rightarrow> int) \<Rightarrow> 'd lhash \<Rightarrow> 'd \<Rightarrow> 'd option \<times> 'd lhash" where
  "OPENSSL_lh_delete sys hash cmp lh d =
     (case get_next_ptr_and_hash hash cmp lh d of (_, b, p) \<Rightarrow>
        let chain = lh_buckets lh ! b
        in case deref lh (b, p) of
             None \<Rightarrow> (None, lh)
           | Some item \<Rightarrow>
               (Some (item_data item),
                lh_maybe_resize sys
                  (lh\<lparr> lh_buckets := (lh_buckets lh)[b := take p chain @ drop (Suc p) chain],
                       lh_num_items := lh_num_items lh - 1 \<rparr>)))"

text \<open>
  The callback acts on a world of its own. One that changes the table it is called from is outside the
  model.
\<close>

definition OPENSSL_lh_doall_arg ::
  "(nat \<Rightarrow> bool) \<Rightarrow> 'd lhash option \<Rightarrow> ('d \<Rightarrow> 'w \<Rightarrow> 'w) \<Rightarrow> 'w \<Rightarrow> 'd lhash option \<times> 'w" where
  "OPENSSL_lh_doall_arg sys lh_ptr func w =
     (case lh_ptr of None \<Rightarrow> (None, w)
      | Some lh \<Rightarrow>
          let lh = (if lh_callback_depth lh < UINT_MAX
                    then lh\<lparr> lh_callback_depth := lh_callback_depth lh + 1 \<rparr> else lh);
              w = foldl (foldl (\<lambda>w cur. func (item_data cur) w)) w (lh_buckets lh);
              lh = (if lh_callback_depth lh < UINT_MAX
                    then lh\<lparr> lh_callback_depth := lh_callback_depth lh - 1 \<rparr> else lh)
          in (Some (lh_maybe_resize sys lh), w))"

section \<open>Well-formed tables\<close>

text \<open>
  Every item is in the bucket its hash selects and caches the hash of its data. No two items are
  equal. The number of items is counted.
\<close>

definition belongs :: "('d \<Rightarrow> u32) \<Rightarrow> nat \<Rightarrow> nat \<Rightarrow> 'd lhash_item \<Rightarrow> bool" where
  "belongs hash n b it \<longleftrightarrow> item_hash it = hash (item_data it) \<and> unat (item_hash it) mod n = b"

definition placed :: "('d \<Rightarrow> u32) \<Rightarrow> nat \<Rightarrow> 'd lhash_item list list \<Rightarrow> bool" where
  "placed hash n buckets \<longleftrightarrow> length buckets = n \<and>
     (\<forall>b < n. \<forall>it \<in> set (buckets ! b). belongs hash n b it)"

definition all_diff :: "('d \<Rightarrow> 'd \<Rightarrow> int) \<Rightarrow> 'd multiset \<Rightarrow> bool" where
  "all_diff cmp M \<longleftrightarrow> (\<forall>x \<in># M. \<forall>y \<in># M - {#x#}. cmp x y \<noteq> 0)"

definition lh_contents :: "'d lhash \<Rightarrow> 'd multiset" where
  "lh_contents lh = mset (map item_data (concat (lh_buckets lh)))"

definition lh_ok :: "('d \<Rightarrow> u32) \<Rightarrow> ('d \<Rightarrow> 'd \<Rightarrow> int) \<Rightarrow> 'd lhash \<Rightarrow> bool" where
  "lh_ok hash cmp lh \<longleftrightarrow> placed hash (lh_num_buckets lh) (lh_buckets lh) \<and>
     kMinNumBuckets \<le> lh_num_buckets lh \<and> ITEM_PTR_SIZE * lh_num_buckets lh \<le> SIZE_MAX \<and>
     lh_num_items lh = size (lh_contents lh) \<and> all_diff cmp (lh_contents lh)"

text \<open>What a caller's hash and comparison functions have to satisfy.\<close>

locale hash_cmp =
  fixes hash :: "'d \<Rightarrow> u32"
    and cmp :: "'d \<Rightarrow> 'd \<Rightarrow> int"
  assumes cmp_refl: "cmp x x = 0"
    and cmp_sym: "cmp x y = 0 \<Longrightarrow> cmp y x = 0"
    and cmp_trans: "cmp x y = 0 \<Longrightarrow> cmp y z = 0 \<Longrightarrow> cmp x z = 0"
    and cmp_hash: "cmp x y = 0 \<Longrightarrow> hash x = hash y"

section \<open>Walking and changing a chain\<close>

lemma find_pos_le: "find_pos P xs \<le> length xs"
  by (induction xs) auto

lemma find_pos_hit: "find_pos P xs < length xs \<Longrightarrow> P (xs ! find_pos P xs)"
  by (induction xs) auto

lemma find_pos_miss: "\<not> find_pos P xs < length xs \<longleftrightarrow> (\<forall>x \<in> set xs. \<not> P x)"
  by (induction xs) auto

lemma mset_concat_update:
  "b < length bs \<Longrightarrow> mset (concat (bs[b := c])) + mset (bs ! b) = mset (concat bs) + mset c"
proof (induction bs arbitrary: b)
  case (Cons a bs)
  then show ?case
  proof (cases b)
    case (Suc k)
    then have "mset (concat (bs[k := c])) + mset (bs ! k) = mset (concat bs) + mset c" using Cons by simp
    then show ?thesis using Suc by (simp add: ac_simps)
  qed (simp add: ac_simps)
qed simp

lemma placed_update:
  assumes "placed hash n bs" "b < n"
    and "\<And>it. it \<in> set c \<Longrightarrow> belongs hash n b it"
  shows "placed hash n (bs[b := c])"
  using assms by (auto simp: placed_def nth_list_update split: if_splits)

text \<open>Redistributing the items keeps them all.\<close>

lemma push_item_placed:
  assumes "placed hash n bs" "0 < n" "item_hash it = hash (item_data it)"
  shows "placed hash n (push_item n bs it) \<and> mset (concat (push_item n bs it)) = add_mset it (mset (concat bs))"
proof -
  define b where "b = unat (item_hash it) mod n"
  have b: "b < n" "b < length bs" using assms by (simp_all add: b_def placed_def)
  have "mset (concat (bs[b := it # bs ! b])) + mset (bs ! b) = add_mset it (mset (concat bs)) + mset (bs ! b)"
    using mset_concat_update [OF b(2), of "it # bs ! b"] by simp
  moreover have "placed hash n (bs[b := it # bs ! b])"
  proof (rule placed_update [OF assms(1) b(1)])
    fix x assume "x \<in> set (it # bs ! b)"
    then consider "x = it" | "x \<in> set (bs ! b)" by auto
    then show "belongs hash n b x"
    proof cases
      case 1
      then show ?thesis using assms(3) by (simp add: belongs_def b_def)
    next
      case 2
      then show ?thesis using assms(1) b(1) unfolding placed_def by blast
    qed
  qed
  ultimately show ?thesis unfolding push_item_def Let_def b_def [symmetric] by simp
qed

lemma push_items_placed:
  assumes "placed hash n bs" "0 < n" "\<forall>it \<in> set its. item_hash it = hash (item_data it)"
  shows "placed hash n (foldl (push_item n) bs its) \<and>
    mset (concat (foldl (push_item n) bs its)) = mset its + mset (concat bs)"
  using assms(1,3)
proof (induction its arbitrary: bs)
  case (Cons it its)
  then show ?case using push_item_placed [of hash n bs it] assms(2) by simp
qed simp

lemma rebucket_placed:
  assumes "placed hash n bs" "0 < n" "\<forall>it \<in> set (concat old). item_hash it = hash (item_data it)"
  shows "placed hash n (foldl (foldl (push_item n)) bs old) \<and>
    mset (concat (foldl (foldl (push_item n)) bs old)) = mset (concat old) + mset (concat bs)"
  using assms(1,3)
proof (induction old arbitrary: bs)
  case (Cons its old)
  then show ?case using push_items_placed [of hash n bs its] assms(2) by (simp add: ac_simps)
qed simp

section \<open>Resizing changes no contents\<close>

lemma lh_contents_eq: "lh_contents lh = image_mset item_data (mset (concat (lh_buckets lh)))"
  by (simp add: lh_contents_def)

lemma lh_ok_pos: "lh_ok hash cmp lh \<Longrightarrow> 0 < lh_num_buckets lh"
  by (simp add: lh_ok_def kMinNumBuckets_def)

lemma placed_mem:
  assumes "placed hash n bs"
  shows "it \<in> set (concat bs) \<longleftrightarrow> (\<exists>b < n. it \<in> set (bs ! b))"
proof -
  have "it \<in> set (concat bs) \<longleftrightarrow> (\<exists>c \<in> set bs. it \<in> set c)" by simp
  also have "\<dots> \<longleftrightarrow> (\<exists>b < length bs. it \<in> set (bs ! b))" by (metis in_set_conv_nth)
  finally show ?thesis using assms by (simp add: placed_def)
qed

lemma lh_contents_mem:
  assumes "lh_ok hash cmp lh"
  shows "x \<in># lh_contents lh \<longleftrightarrow> (\<exists>b < lh_num_buckets lh. \<exists>it \<in> set (lh_buckets lh ! b). item_data it = x)"
  using placed_mem [of hash "lh_num_buckets lh" "lh_buckets lh"] assms
  unfolding lh_contents_eq lh_ok_def by (simp del: set_concat add: image_iff) blast

lemma placed_hashes:
  "placed hash n bs \<Longrightarrow> it \<in> set (concat bs) \<Longrightarrow> item_hash it = hash (item_data it)"
proof -
  assume "placed hash n bs" "it \<in> set (concat bs)"
  then obtain b where "b < n" "it \<in> set (bs ! b)" using placed_mem by blast
  then have "belongs hash n b it" using \<open>placed hash n bs\<close> by (simp add: placed_def)
  then show ?thesis by (simp add: belongs_def)
qed

lemma placed_empty: "placed hash n (replicate n [])"
  by (simp add: placed_def)

lemma lh_rebucket_ok:
  assumes "lh_ok hash cmp lh" "kMinNumBuckets \<le> n" "n \<le> SIZE_MAX"
  shows "lh_ok hash cmp (lh_rebucket sys lh n) \<and> lh_contents (lh_rebucket sys lh n) = lh_contents lh \<and>
    lh_callback_depth (lh_rebucket sys lh n) = lh_callback_depth lh"
proof (cases "size_t (ITEM_PTR_SIZE * n) div ITEM_PTR_SIZE \<noteq> n \<or> \<not> OPENSSL_malloc sys (size_t (ITEM_PTR_SIZE * n))")
  case True
  then show ?thesis using assms(1) by (auto simp: lh_rebucket_def Let_def)
next
  case False
  define bs where "bs = foldl (foldl (push_item n)) (replicate n []) (lh_buckets lh)"
  have eq: "lh_rebucket sys lh n = lh\<lparr> lh_num_buckets := n, lh_buckets := bs \<rparr>"
    using False by (simp add: lh_rebucket_def Let_def bs_def)
  have "ITEM_PTR_SIZE * n \<le> SIZE_MAX"
    using False size_t_le [of "ITEM_PTR_SIZE * n"] by (metis le_trans mult.commute div_times_less_eq_dividend)
  moreover have "placed hash n bs \<and> mset (concat bs) = mset (concat (lh_buckets lh))"
  proof -
    have "0 < n" using assms(2) by (simp add: kMinNumBuckets_def)
    moreover have "\<forall>it \<in> set (concat (lh_buckets lh)). item_hash it = hash (item_data it)"
      using assms(1) placed_hashes unfolding lh_ok_def by blast
    ultimately show ?thesis
      using rebucket_placed [OF placed_empty, of n "lh_buckets lh" hash] by (simp add: bs_def)
  qed
  ultimately show ?thesis
    using assms(1,2) unfolding eq lh_ok_def lh_contents_eq by simp
qed

lemma lh_maybe_resize_ok:
  assumes "lh_ok hash cmp lh"
  shows "lh_ok hash cmp (lh_maybe_resize sys lh) \<and> lh_contents (lh_maybe_resize sys lh) = lh_contents lh \<and>
    lh_callback_depth (lh_maybe_resize sys lh) = lh_callback_depth lh"
proof -
  have up: "kMinNumBuckets \<le> size_t (lh_num_buckets lh * 2) \<and> size_t (lh_num_buckets lh * 2) \<le> SIZE_MAX"
    if "lh_num_buckets lh < size_t (lh_num_buckets lh * 2)"
    using that assms size_t_le by (simp add: lh_ok_def)
  have down: "kMinNumBuckets \<le> m \<and> m \<le> SIZE_MAX"
    if "m = (if lh_num_buckets lh div 2 < kMinNumBuckets then kMinNumBuckets else lh_num_buckets lh div 2)" for m
    using that assms by (auto simp: lh_ok_def kMinNumBuckets_def SIZE_MAX_def ITEM_PTR_SIZE_def)
  show ?thesis
    using assms up lh_rebucket_ok [OF assms, of "size_t (lh_num_buckets lh * 2)" sys]
      lh_rebucket_ok [OF assms, of _ sys] down [OF refl]
    unfolding lh_maybe_resize_def Let_def by (simp split del: if_split split: if_split)
qed

section \<open>What lookup, insertion and deletion do\<close>

lemma all_diff_unique:
  assumes "all_diff cmp M" "x \<in># M" "y \<in># M" "cmp x y = 0"
  shows "x = y"
proof (rule ccontr)
  assume "x \<noteq> y"
  then have "y \<in># M - {#x#}" using assms(3) by (simp add: in_diff_count)
  then show False using assms unfolding all_diff_def by blast
qed

lemma all_diff_remove: "all_diff cmp M \<Longrightarrow> all_diff cmp (M - {#x#})"
  unfolding all_diff_def by (metis diff_right_commute in_diffD)

text \<open>Exchanging one chain.\<close>

definition set_chain :: "'d lhash \<Rightarrow> nat \<Rightarrow> 'd lhash_item list \<Rightarrow> 'd lhash" where
  "set_chain lh b c = lh\<lparr> lh_buckets := (lh_buckets lh)[b := c] \<rparr>"

lemma set_chain_contents:
  assumes "b < length (lh_buckets lh)"
  shows "lh_contents (set_chain lh b c) + image_mset item_data (mset (lh_buckets lh ! b)) =
    lh_contents lh + image_mset item_data (mset c)"
  unfolding lh_contents_eq set_chain_def using mset_concat_update [OF assms, of c]
  by (simp flip: image_mset_union)

lemma set_chain_placed:
  assumes "lh_ok hash cmp lh" "b < lh_num_buckets lh" "\<forall>it \<in> set c. belongs hash (lh_num_buckets lh) b it"
  shows "placed hash (lh_num_buckets lh) (lh_buckets (set_chain lh b c))"
  using assms unfolding set_chain_def lh_ok_def by (auto intro: placed_update)

lemma chain_belongs:
  "lh_ok hash cmp lh \<Longrightarrow> b < lh_num_buckets lh \<Longrightarrow> \<forall>it \<in> set (lh_buckets lh ! b). belongs hash (lh_num_buckets lh) b it"
  by (simp add: lh_ok_def placed_def)

context hash_cmp
begin

lemma all_diff_add:
  assumes "all_diff cmp M" "\<forall>x \<in># M. cmp x d \<noteq> 0"
  shows "all_diff cmp (add_mset d M)"
  unfolding all_diff_def
proof (intro ballI)
  fix x y assume x: "x \<in># add_mset d M" and y: "y \<in># add_mset d M - {#x#}"
  show "cmp x y \<noteq> 0"
  proof (cases "x = d")
    case True
    then show ?thesis using y assms(2) cmp_sym by auto
  next
    case False
    then have "x \<in># M" using x by simp
    moreover have "y = d \<or> y \<in># M - {#x#}" using y False \<open>x \<in># M\<close>
      by (simp add: diff_add_mset_swap split: if_splits)
    ultimately show ?thesis using assms unfolding all_diff_def by blast
  qed
qed

text \<open>The walk along the chain of \<open>d\<close> decides whether the table holds an element equal to \<open>d\<close>.\<close>

lemma chain_bucket:
  assumes "lh_ok hash cmp lh" "get_next_ptr_and_hash hash cmp lh d = (h, b, p)"
  shows "h = hash d" "b < lh_num_buckets lh" "b = unat (hash d) mod lh_num_buckets lh"
    "p = find_pos (\<lambda>it. cmp (item_data it) d = 0) (lh_buckets lh ! b)" "b < length (lh_buckets lh)"
  using assms lh_ok_pos [OF assms(1)] by (auto simp: get_next_ptr_and_hash_def Let_def lh_ok_def placed_def)

lemma chain_search:
  assumes "lh_ok hash cmp lh" "get_next_ptr_and_hash hash cmp lh d = (h, b, p)"
  obtains (miss) "deref lh (b, p) = None" "\<forall>x \<in># lh_contents lh. cmp x d \<noteq> 0"
  | (hit) it where "deref lh (b, p) = Some it" "p < length (lh_buckets lh ! b)" "lh_buckets lh ! b ! p = it"
      "item_data it \<in># lh_contents lh" "cmp (item_data it) d = 0" "belongs hash (lh_num_buckets lh) b it"
proof -
  define P where "P = (\<lambda>it :: 'd lhash_item. cmp (item_data it) d = 0)"
  have pl: "placed hash (lh_num_buckets lh) (lh_buckets lh)" using assms(1) by (simp add: lh_ok_def)
  note b = chain_bucket [OF assms]
  have p: "p = find_pos P (lh_buckets lh ! b)" unfolding P_def by (rule b(4))
  show thesis
  proof (cases "p < length (lh_buckets lh ! b)")
    case True
    then have mem: "lh_buckets lh ! b ! p \<in> set (lh_buckets lh ! b)" by simp
    show thesis
    proof (rule hit [OF _ True refl])
      show "item_data (lh_buckets lh ! b ! p) \<in># lh_contents lh"
        using lh_contents_mem [OF assms(1)] b(2) mem by blast
      show "belongs hash (lh_num_buckets lh) b (lh_buckets lh ! b ! p)"
        using pl b(2) mem by (simp add: placed_def)
      show "cmp (item_data (lh_buckets lh ! b ! p)) d = 0"
        using find_pos_hit [of P "lh_buckets lh ! b"] True p by (simp add: P_def)
    qed (simp add: deref_def True)
  next
    case False
    have "cmp x d \<noteq> 0" if x: "x \<in># lh_contents lh" for x
    proof
      assume eq: "cmp x d = 0"
      obtain b' it where it: "b' < lh_num_buckets lh" "it \<in> set (lh_buckets lh ! b')" "item_data it = x"
        using x lh_contents_mem [OF assms(1)] by auto
      then have "belongs hash (lh_num_buckets lh) b' it" using pl by (simp add: placed_def)
      then have "b' = unat (hash x) mod lh_num_buckets lh" using it(3) by (auto simp: belongs_def)
      then have "b' = b" using cmp_hash [OF eq] b(3) by simp
      moreover have "\<not> P it" if "it \<in> set (lh_buckets lh ! b)"
        using False find_pos_miss [of P "lh_buckets lh ! b"] p that by blast
      ultimately show False using it(2,3) eq by (simp add: P_def)
    qed
    then show thesis using False by (intro miss) (auto simp: deref_def)
  qed
qed

lemma retrieve_iff:
  assumes "lh_ok hash cmp lh"
  shows "OPENSSL_lh_retrieve hash cmp lh d = Some x \<longleftrightarrow> x \<in># lh_contents lh \<and> cmp x d = 0"
proof -
  obtain h b p where g: "get_next_ptr_and_hash hash cmp lh d = (h, b, p)"
    by (cases "get_next_ptr_and_hash hash cmp lh d")
  from assms g show ?thesis
  proof (cases rule: chain_search)
    case miss
    then show ?thesis by (auto simp: OPENSSL_lh_retrieve_def g)
  next
    case (hit it)
    have "all_diff cmp (lh_contents lh)" using assms by (simp add: lh_ok_def)
    then have "x = item_data it" if "x \<in># lh_contents lh" "cmp x d = 0"
      using all_diff_unique [of cmp, OF _ that(1) hit(4) cmp_trans [OF that(2) cmp_sym [OF hit(5)]]] by simp
    then show ?thesis using hit by (auto simp: OPENSSL_lh_retrieve_def g)
  qed
qed

lemma insert_effect:
  assumes "lh_ok hash cmp lh" "lh_num_items lh < SIZE_MAX"
    and "OPENSSL_lh_insert sys hash cmp lh d = (ok, old, lh')"
  shows "lh_ok hash cmp lh' \<and> lh_callback_depth lh' = lh_callback_depth lh \<and>
    old = OPENSSL_lh_retrieve hash cmp lh d \<and>
    (if ok then lh_contents lh' = add_mset d (case old of None \<Rightarrow> lh_contents lh | Some x \<Rightarrow> lh_contents lh - {#x#})
     else lh' = lh \<and> old = None \<and> \<not> OPENSSL_malloc sys LHASH_ITEM_SIZE)"
proof -
  obtain h b p where g: "get_next_ptr_and_hash hash cmp lh d = (h, b, p)"
    by (cases "get_next_ptr_and_hash hash cmp lh d")
  note b = chain_bucket [OF assms(1) g]
  have pl: "placed hash (lh_num_buckets lh) (lh_buckets lh)" using assms(1) by (simp add: lh_ok_def)
  from assms(1) g show ?thesis
  proof (cases rule: chain_search)
    case miss
    then have ret: "OPENSSL_lh_retrieve hash cmp lh d = None" by (simp add: OPENSSL_lh_retrieve_def g)
    show ?thesis
    proof (cases "OPENSSL_malloc sys LHASH_ITEM_SIZE")
      case False
      then show ?thesis using assms miss ret by (auto simp: OPENSSL_lh_insert_def g)
    next
      case True
      define it where "it = \<lparr> item_data = d, item_hash = h \<rparr>"
      define lh1 where "lh1 = set_chain lh b (lh_buckets lh ! b @ [it])"
      have "belongs hash (lh_num_buckets lh) b it" using b by (simp add: belongs_def it_def)
      then have "placed hash (lh_num_buckets lh) (lh_buckets lh1)"
        unfolding lh1_def using chain_belongs [OF assms(1) b(2)] by (intro set_chain_placed [OF assms(1) b(2)]) auto
      moreover have c: "lh_contents lh1 = add_mset d (lh_contents lh)"
        using set_chain_contents [OF b(5), of "lh_buckets lh ! b @ [it]"] by (simp add: it_def lh1_def)
      ultimately have ok1: "lh_ok hash cmp (lh1\<lparr> lh_num_items := size_t (lh_num_items lh + 1) \<rparr>)"
        using assms(1,2) all_diff_add miss(2) by (simp add: lh_ok_def lh1_def lh_contents_def set_chain_def)
      have "(ok, old, lh') = (True, None, lh_maybe_resize sys (lh1\<lparr> lh_num_items := size_t (lh_num_items lh + 1) \<rparr>))"
        using assms(3) miss(1) True by (simp add: OPENSSL_lh_insert_def g Let_def lh1_def it_def set_chain_def)
      then show ?thesis using lh_maybe_resize_ok [OF ok1, of sys] c ret
        by (simp add: lh1_def set_chain_def lh_contents_def)
    qed
  next
    case (hit it)
    define c' where "c' = (lh_buckets lh ! b)[p := it\<lparr> item_data := d \<rparr>]"
    define lh1 where "lh1 = set_chain lh b c'"
    have ret: "OPENSSL_lh_retrieve hash cmp lh d = Some (item_data it)"
      using hit by (simp add: OPENSSL_lh_retrieve_def g)
    have "belongs hash (lh_num_buckets lh) b (it\<lparr> item_data := d \<rparr>)"
      using hit(6) cmp_hash [OF hit(5)] by (auto simp: belongs_def)
    then have "placed hash (lh_num_buckets lh) (lh_buckets lh1)"
      unfolding lh1_def c'_def using chain_belongs [OF assms(1) b(2)] set_update_subset_insert
      by (intro set_chain_placed [OF assms(1) b(2)]) fast
    moreover have c: "lh_contents lh1 = add_mset d (lh_contents lh - {#item_data it#})"
    proof -
      define K K' where "K = image_mset item_data (mset (lh_buckets lh ! b))" and "K' = image_mset item_data (mset c')"
      have "item_data it \<in># K" using hit(2,3) by (auto simp: K_def)
      moreover have "K' = add_mset d (K - {#item_data it#})"
        using hit(2,3) nth_mem [OF hit(2)] unfolding c'_def K_def K'_def by (simp add: mset_update image_mset_Diff)
      ultimately have swap: "add_mset (item_data it) K' = add_mset d K" by simp
      have "lh_contents lh1 + K = lh_contents lh + K'"
        using set_chain_contents [OF b(5), of c'] unfolding lh1_def K_def K'_def .
      then have "add_mset (item_data it) (lh_contents lh1) + K = lh_contents lh + add_mset (item_data it) K'" by simp
      also have "\<dots> = add_mset d (lh_contents lh) + K" unfolding swap by simp
      finally have "add_mset (item_data it) (lh_contents lh1) = add_mset d (lh_contents lh)" by simp
      then have "lh_contents lh1 = add_mset d (lh_contents lh) - {#item_data it#}" by (metis add_mset_remove_trivial)
      then show ?thesis using hit(4) by (metis add_mset_remove_trivial add_mset_commute insert_DiffM)
    qed
    moreover have "size (lh_contents lh1) = lh_num_items lh"
      using c size_Suc_Diff1 [OF hit(4)] assms(1) by (simp add: lh_ok_def)
    moreover have "all_diff cmp (lh_contents lh1)"
      unfolding c
    proof (rule all_diff_add)
      show "all_diff cmp (lh_contents lh - {#item_data it#})"
        using assms(1) by (simp add: lh_ok_def all_diff_remove)
      show "\<forall>x \<in># lh_contents lh - {#item_data it#}. cmp x d \<noteq> 0"
        using assms(1) hit(4,5) cmp_sym cmp_trans unfolding lh_ok_def all_diff_def by blast
    qed
    ultimately have "lh_ok hash cmp lh1" using assms(1) by (simp add: lh_ok_def lh1_def set_chain_def)
    moreover have "(ok, old, lh') = (True, Some (item_data it), lh1)"
      using assms(3) hit(1) by (simp add: OPENSSL_lh_insert_def g Let_def lh1_def c'_def set_chain_def)
    ultimately show ?thesis using c ret by (simp add: lh1_def set_chain_def)
  qed
qed

lemma delete_effect:
  assumes "lh_ok hash cmp lh" "OPENSSL_lh_delete sys hash cmp lh d = (r, lh')"
  shows "lh_ok hash cmp lh' \<and> lh_callback_depth lh' = lh_callback_depth lh \<and>
    r = OPENSSL_lh_retrieve hash cmp lh d \<and>
    lh_contents lh' = (case r of None \<Rightarrow> lh_contents lh | Some x \<Rightarrow> lh_contents lh - {#x#}) \<and>
    (r = None \<longrightarrow> lh' = lh)"
proof -
  obtain h b p where g: "get_next_ptr_and_hash hash cmp lh d = (h, b, p)"
    by (cases "get_next_ptr_and_hash hash cmp lh d")
  note b = chain_bucket [OF assms(1) g]
  from assms(1) g show ?thesis
  proof (cases rule: chain_search)
    case miss
    then have "OPENSSL_lh_delete sys hash cmp lh d = (None, lh)" "OPENSSL_lh_retrieve hash cmp lh d = None"
      by (simp_all add: OPENSSL_lh_delete_def OPENSSL_lh_retrieve_def g)
    then show ?thesis using assms by simp
  next
    case (hit it)
    define c' where "c' = take p (lh_buckets lh ! b) @ drop (Suc p) (lh_buckets lh ! b)"
    define lh1 where "lh1 = set_chain lh b c'"
    have ret: "OPENSSL_lh_retrieve hash cmp lh d = Some (item_data it)"
      using hit by (simp add: OPENSSL_lh_retrieve_def g)
    have "placed hash (lh_num_buckets lh) (lh_buckets lh1)"
      unfolding lh1_def c'_def using chain_belongs [OF assms(1) b(2)]
      by (intro set_chain_placed [OF assms(1) b(2)]) (auto dest: in_set_takeD in_set_dropD)
    moreover have c: "lh_contents lh1 = lh_contents lh - {#item_data it#}"
    proof -
      have "mset (lh_buckets lh ! b) = add_mset it (mset c')"
        using hit(2,3) id_take_nth_drop [OF hit(2)] unfolding c'_def
        by (metis mset.simps(2) mset_append union_mset_add_mset_right)
      then have "add_mset (item_data it) (lh_contents lh1) = lh_contents lh"
        using set_chain_contents [OF b(5), of c'] unfolding lh1_def by simp
      then show ?thesis by (metis add_mset_remove_trivial)
    qed
    moreover have "lh_num_items lh - 1 = size (lh_contents lh1)"
      using c hit(4) assms(1) by (simp add: lh_ok_def size_Diff_singleton)
    moreover have "all_diff cmp (lh_contents lh1)"
      unfolding c using assms(1) by (simp add: lh_ok_def all_diff_remove)
    ultimately have ok1: "lh_ok hash cmp (lh1\<lparr> lh_num_items := lh_num_items lh - 1 \<rparr>)"
      using assms(1) by (simp add: lh_ok_def lh1_def set_chain_def lh_contents_def)
    have "(r, lh') = (Some (item_data it), lh_maybe_resize sys (lh1\<lparr> lh_num_items := lh_num_items lh - 1 \<rparr>))"
      using assms(2) hit(1) by (simp add: OPENSSL_lh_delete_def g Let_def lh1_def c'_def set_chain_def)
    then show ?thesis using lh_maybe_resize_ok [OF ok1, of sys] c ret
      by (simp add: lh1_def set_chain_def lh_contents_def)
  qed
qed

lemma retrieve_None:
  "lh_ok hash cmp lh \<Longrightarrow> OPENSSL_lh_retrieve hash cmp lh d = None \<longleftrightarrow> (\<forall>x \<in># lh_contents lh. cmp x d \<noteq> 0)"
  using retrieve_iff [of lh d] by (cases "OPENSSL_lh_retrieve hash cmp lh d") auto

end

section \<open>The table as a map\<close>

text \<open>
  A run of insertions and deletions, each with the memory it finds. Its log keeps what took effect;
  \<open>bindings\<close> is the map a log describes.
\<close>

datatype 'd lh_op = Lh_insert "nat \<Rightarrow> bool" 'd | Lh_delete "nat \<Rightarrow> bool" 'd

fun bindings :: "('d \<Rightarrow> 'd \<Rightarrow> bool) \<Rightarrow> 'd lh_op list \<Rightarrow> ('d \<Rightarrow> 'd option) \<Rightarrow> 'd \<Rightarrow> 'd option" where
  "bindings same [] m = m"
| "bindings same (Lh_insert sys d # log) m = bindings same log (\<lambda>x. if same d x then Some d else m x)"
| "bindings same (Lh_delete sys d # log) m = bindings same log (\<lambda>x. if same d x then None else m x)"

fun table_run ::
  "((nat \<Rightarrow> bool) \<Rightarrow> 'd \<Rightarrow> 't \<Rightarrow> bool \<times> 't) \<Rightarrow> ((nat \<Rightarrow> bool) \<Rightarrow> 'd \<Rightarrow> 't \<Rightarrow> 't) \<Rightarrow> 'd lh_op list \<Rightarrow> 't \<Rightarrow>
    'd lh_op list \<times> 't" where
  "table_run ins del [] t = ([], t)"
| "table_run ins del (Lh_insert sys d # ops) t =
     (case ins sys d t of (ok, t') \<Rightarrow>
        case table_run ins del ops t' of (log, t'') \<Rightarrow> ((if ok then Lh_insert sys d # log else log), t''))"
| "table_run ins del (Lh_delete sys d # ops) t =
     (case table_run ins del ops (del sys d t) of (log, t'') \<Rightarrow> (Lh_delete sys d # log, t''))"

text \<open>
  The interface its callers rely on. \<open>invar n t\<close> holds of a table that can take \<open>n\<close> more elements before
  its count could wrap around.
\<close>

locale lookup_table =
  fixes lookup :: "'t \<Rightarrow> 'd \<Rightarrow> 'd option"
    and ins :: "(nat \<Rightarrow> bool) \<Rightarrow> 'd \<Rightarrow> 't \<Rightarrow> bool \<times> 't"
    and del :: "(nat \<Rightarrow> bool) \<Rightarrow> 'd \<Rightarrow> 't \<Rightarrow> 't"
    and same :: "'d \<Rightarrow> 'd \<Rightarrow> bool"
    and invar :: "nat \<Rightarrow> 't \<Rightarrow> bool"
  assumes lookup_ins: "invar (Suc n) t \<Longrightarrow> ins sys d t = (True, t') \<Longrightarrow>
      lookup t' x = (if same d x then Some d else lookup t x)"
    and ins_refused: "invar (Suc n) t \<Longrightarrow> ins sys d t = (False, t') \<Longrightarrow> t' = t"
    and lookup_del: "invar n t \<Longrightarrow> lookup (del sys d t) x = (if same d x then None else lookup t x)"
    and invar_ins: "invar (Suc n) t \<Longrightarrow> invar n (snd (ins sys d t))"
    and invar_del: "invar (Suc n) t \<Longrightarrow> invar n (del sys d t)"
begin

lemma run_lookup:
  "invar (length ops) t \<Longrightarrow> table_run ins del ops t = (log, t') \<Longrightarrow>
    lookup t' = bindings same log (lookup t) \<and> invar 0 t'"
proof (induction ops arbitrary: t log)
  case Nil
  then show ?case by simp
next
  case (Cons op ops)
  have inv: "invar (Suc (length ops)) t" using Cons.prems(1) by simp
  show ?case
  proof (cases op)
    case (Lh_insert sys d)
    obtain ok u where u: "ins sys d t = (ok, u)" by (cases "ins sys d t")
    obtain l where l: "table_run ins del ops u = (l, t')" "log = (if ok then Lh_insert sys d # l else l)"
      using Cons.prems(2) by (auto simp: Lh_insert u split: prod.splits)
    have "invar (length ops) u" using invar_ins [OF inv, of sys d] u by simp
    from Cons.IH [OF this l(1)] show ?thesis
      using lookup_ins [OF inv, of sys d u] ins_refused [OF inv, of sys d u] u l(2) by (cases ok) (auto cong: if_cong)
  next
    case (Lh_delete sys d)
    obtain l where l: "table_run ins del ops (del sys d t) = (l, t')" "log = Lh_delete sys d # l"
      using Cons.prems(2) by (auto simp: Lh_delete split: prod.splits)
    have "lookup (del sys d t) = (\<lambda>x. if same d x then None else lookup t x)" using lookup_del [OF inv] by blast
    then show ?thesis using Cons.IH [OF invar_del [OF inv] l(1)] l(2) by simp
  qed
qed

end

definition lh_ins ::
  "('d \<Rightarrow> u32) \<Rightarrow> ('d \<Rightarrow> 'd \<Rightarrow> int) \<Rightarrow> (nat \<Rightarrow> bool) \<Rightarrow> 'd \<Rightarrow> 'd lhash \<Rightarrow> bool \<times> 'd lhash" where
  "lh_ins hash cmp sys d lh = (case OPENSSL_lh_insert sys hash cmp lh d of (ok, _, lh') \<Rightarrow> (ok, lh'))"

definition lh_del ::
  "('d \<Rightarrow> u32) \<Rightarrow> ('d \<Rightarrow> 'd \<Rightarrow> int) \<Rightarrow> (nat \<Rightarrow> bool) \<Rightarrow> 'd \<Rightarrow> 'd lhash \<Rightarrow> 'd lhash" where
  "lh_del hash cmp sys d lh = snd (OPENSSL_lh_delete sys hash cmp lh d)"

definition lh_invar :: "('d \<Rightarrow> u32) \<Rightarrow> ('d \<Rightarrow> 'd \<Rightarrow> int) \<Rightarrow> nat \<Rightarrow> 'd lhash \<Rightarrow> bool" where
  "lh_invar hash cmp n lh \<longleftrightarrow> lh_ok hash cmp lh \<and> lh_num_items lh + n \<le> SIZE_MAX"

context hash_cmp
begin

lemma mem_replaced:
  assumes "all_diff cmp M" "x \<in># M" "cmp x d = 0" "cmp y d \<noteq> 0"
  shows "y \<in># M - {#x#} \<longleftrightarrow> y \<in># M"
  using assms by (metis in_diffD insert_DiffM insert_iff set_mset_add_mset_insert)

lemma mem_removed:
  assumes "all_diff cmp M" "x \<in># M" "cmp x d = 0" "cmp y d = 0"
  shows "y \<notin># M - {#x#}"
  using assms cmp_sym cmp_trans unfolding all_diff_def by blast

lemma eq_class: "cmp d x = 0 \<Longrightarrow> cmp y x = 0 \<longleftrightarrow> cmp y d = 0"
  using cmp_sym cmp_trans by blast

lemma contents_lookup:
  assumes "lh_ok hash cmp lh" "lh_ok hash cmp lh'"
    and "\<And>y. y \<in># lh_contents lh' \<and> cmp y x = 0 \<longleftrightarrow> y \<in># lh_contents lh \<and> cmp y x = 0"
  shows "OPENSSL_lh_retrieve hash cmp lh' x = OPENSSL_lh_retrieve hash cmp lh x"
  using retrieve_iff [OF assms(1), of x] retrieve_iff [OF assms(2), of x] assms(3)
  by (metis not_None_eq)

lemma retrieved_diff:
  assumes "lh_ok hash cmp lh" "OPENSSL_lh_retrieve hash cmp lh d = r"
  shows "y \<in># (case r of None \<Rightarrow> lh_contents lh | Some x \<Rightarrow> lh_contents lh - {#x#}) \<longleftrightarrow>
    y \<in># lh_contents lh \<and> cmp y d \<noteq> 0"
proof (cases r)
  case None
  then show ?thesis using retrieve_None assms by auto
next
  case (Some x)
  then have x: "x \<in># lh_contents lh" "cmp x d = 0" using retrieve_iff assms by auto
  have "all_diff cmp (lh_contents lh)" using assms(1) by (simp add: lh_ok_def)
  then show ?thesis using mem_replaced [OF _ x] mem_removed [OF _ x] Some by (auto dest: in_diffD)
qed

sublocale table: lookup_table "OPENSSL_lh_retrieve hash cmp" "lh_ins hash cmp" "lh_del hash cmp"
  "\<lambda>d x. cmp d x = 0" "lh_invar hash cmp"
proof
  fix n t sys d t' x
  assume inv: "lh_invar hash cmp (Suc n) t" and run: "lh_ins hash cmp sys d t = (True, t')"
  obtain old where ins: "OPENSSL_lh_insert sys hash cmp t d = (True, old, t')"
    using run by (auto simp: lh_ins_def split: prod.splits)
  note eff = insert_effect [OF _ _ ins] 
  have ok: "lh_ok hash cmp t" "lh_ok hash cmp t'" and old: "OPENSSL_lh_retrieve hash cmp t d = old"
    and c: "lh_contents t' = add_mset d (case old of None \<Rightarrow> lh_contents t | Some x \<Rightarrow> lh_contents t - {#x#})"
    using inv eff by (simp_all add: lh_invar_def)
  have mem: "y \<in># lh_contents t' \<longleftrightarrow> y = d \<or> y \<in># lh_contents t \<and> cmp y d \<noteq> 0" for y
    unfolding c using retrieved_diff [OF ok(1) old, of y] by simp
  show "OPENSSL_lh_retrieve hash cmp t' x = (if cmp d x = 0 then Some d else OPENSSL_lh_retrieve hash cmp t x)"
  proof (cases "cmp d x = 0")
    case True
    then show ?thesis using retrieve_iff [OF ok(2), of x d] mem by simp
  next
    case False
    then show ?thesis using contents_lookup [OF ok, of x] mem cmp_sym cmp_trans by (metis (full_types))
  qed
next
  fix n t sys d t'
  assume "lh_invar hash cmp (Suc n) t" "lh_ins hash cmp sys d t = (False, t')"
  then show "t' = t"
    using insert_effect [of t sys d False _ t'] by (auto simp: lh_ins_def lh_invar_def split: prod.splits)
next
  fix n t sys d x
  assume inv: "lh_invar hash cmp n t"
  obtain r t' where del: "OPENSSL_lh_delete sys hash cmp t d = (r, t')"
    by (cases "OPENSSL_lh_delete sys hash cmp t d")
  have ok: "lh_ok hash cmp t" "lh_ok hash cmp t'" and r: "OPENSSL_lh_retrieve hash cmp t d = r"
    and c: "lh_contents t' = (case r of None \<Rightarrow> lh_contents t | Some x \<Rightarrow> lh_contents t - {#x#})"
    using inv delete_effect [OF _ del] by (simp_all add: lh_invar_def)
  have mem: "y \<in># lh_contents t' \<longleftrightarrow> y \<in># lh_contents t \<and> cmp y d \<noteq> 0" for y
    unfolding c using retrieved_diff [OF ok(1) r, of y] by simp
  have "OPENSSL_lh_retrieve hash cmp t' x = (if cmp d x = 0 then None else OPENSSL_lh_retrieve hash cmp t x)"
  proof (cases "cmp d x = 0")
    case True
    then have "\<forall>y \<in># lh_contents t'. cmp y x \<noteq> 0" using mem eq_class by blast
    then show ?thesis using retrieve_None [OF ok(2)] True by simp
  next
    case False
    then show ?thesis using contents_lookup [OF ok, of x] mem cmp_sym cmp_trans by (metis (full_types))
  qed
  then show "OPENSSL_lh_retrieve hash cmp (lh_del hash cmp sys d t) x =
      (if cmp d x = 0 then None else OPENSSL_lh_retrieve hash cmp t x)" by (simp add: lh_del_def del)
next
  fix n t sys d
  assume inv: "lh_invar hash cmp (Suc n) t"
  obtain ok old t' where ins: "OPENSSL_lh_insert sys hash cmp t d = (ok, old, t')"
    by (cases "OPENSSL_lh_insert sys hash cmp t d")
  have "lh_ok hash cmp t'" "lh_ok hash cmp t" "size (lh_contents t') \<le> Suc (size (lh_contents t))"
    using insert_effect [OF _ _ ins] inv size_Diff_submset
    by (auto simp: lh_invar_def size_Diff1_le split: if_splits option.splits)
  then show "lh_invar hash cmp n (snd (lh_ins hash cmp sys d t))"
    using inv by (simp add: lh_invar_def lh_ins_def ins lh_ok_def)
next
  fix n t sys d
  assume inv: "lh_invar hash cmp (Suc n) t"
  obtain r t' where del: "OPENSSL_lh_delete sys hash cmp t d = (r, t')"
    by (cases "OPENSSL_lh_delete sys hash cmp t d")
  have "lh_ok hash cmp t'" "lh_ok hash cmp t" "size (lh_contents t') \<le> size (lh_contents t)"
    using delete_effect [OF _ del] inv by (auto simp: lh_invar_def size_Diff1_le split: option.splits)
  then show "lh_invar hash cmp n (lh_del hash cmp sys d t)"
    using inv by (simp add: lh_invar_def lh_del_def del lh_ok_def)
qed

end

context hash_cmp
begin

lemmas run_lookup = table.run_lookup
lemmas run_invar = table.invar_ins table.invar_del

end

lemma lh_new_ok:
  assumes "OPENSSL_lh_new sys = Some t"
  shows "lh_ok hash cmp t \<and> lh_contents t = {#} \<and> lh_num_items t = 0 \<and> lh_callback_depth t = 0 \<and>
    lh_num_buckets t = kMinNumBuckets"
proof -
  have "t = \<lparr> lh_num_items = 0, lh_buckets = replicate kMinNumBuckets [],
      lh_num_buckets = kMinNumBuckets, lh_callback_depth = 0 \<rparr>"
    using assms by (simp add: OPENSSL_lh_new_def split: if_splits)
  moreover have "concat (replicate n []) = ([] :: 'a lhash_item list)" for n by (induction n) auto
  ultimately show ?thesis
    using placed_empty [of hash kMinNumBuckets]
    by (simp add: lh_ok_def lh_contents_def all_diff_def kMinNumBuckets_def SIZE_MAX_def ITEM_PTR_SIZE_def del: concat_replicate_trivial)
qed

definition number_hash :: "nat \<Rightarrow> u32" where
  "number_hash n = of_nat n"

definition number_cmp :: "nat \<Rightarrow> nat \<Rightarrow> int" where
  "number_cmp m n = int m - int n"

interpretation numbers: hash_cmp number_hash number_cmp
  by unfold_locales (auto simp: number_cmp_def)

lemma lh_new_exists: "\<exists>t. OPENSSL_lh_new (\<lambda>_. True) = Some t"
  by (simp add: OPENSSL_lh_new_def OPENSSL_malloc_def LHASH_SIZE_def ITEM_PTR_SIZE_def kMinNumBuckets_def
      OPENSSL_MALLOC_PREFIX_def size_t_def)

text \<open>
  C29. A table is a map. After any run of insertions and deletions on a new table, with memory
  running out at any of them and the table resized any number of times, a lookup finds what the
  operations that took effect bound last, and the count is the number of elements held.
\<close>

theorem lhash_is_map:
  assumes "hash_cmp hash cmp" "OPENSSL_lh_new sys = Some t0" "length ops \<le> SIZE_MAX"
    and "table_run (lh_ins hash cmp) (lh_del hash cmp) ops t0 = (log, t)"
  shows "OPENSSL_lh_retrieve hash cmp t d = bindings (\<lambda>x y. cmp x y = 0) log (\<lambda>_. None) d \<and>
    OPENSSL_lh_num_items t = size (lh_contents t) \<and>
    (\<forall>x. x \<in># lh_contents t \<longleftrightarrow> OPENSSL_lh_retrieve hash cmp t x = Some x)"
proof -
  note t0 = lh_new_ok [OF assms(2), of hash cmp]
  have empty: "OPENSSL_lh_retrieve hash cmp t0 = (\<lambda>_. None)"
    using t0 hash_cmp.retrieve_None [OF assms(1), of t0] by auto
  have inv: "lh_invar hash cmp (length ops) t0" using t0 assms(3) by (simp add: lh_invar_def)
  note run = hash_cmp.run_lookup [OF assms(1) inv assms(4), unfolded empty]
  then have ok: "lh_ok hash cmp t" by (simp add: lh_invar_def)
  have "x \<in># lh_contents t \<longleftrightarrow> OPENSSL_lh_retrieve hash cmp t x = Some x" for x
    using hash_cmp.retrieve_iff [OF assms(1) ok, of x x] hash_cmp.cmp_refl [OF assms(1)] by simp
  moreover have "OPENSSL_lh_num_items t = size (lh_contents t)"
    using ok by (simp add: OPENSSL_lh_num_items_def lh_ok_def)
  ultimately show ?thesis using run by simp
qed

lemma lhash_is_map_witness:
  "\<exists>t0 log t. OPENSSL_lh_new (\<lambda>_. True) = Some t0 \<and>
    table_run (lh_ins number_hash number_cmp) (lh_del number_hash number_cmp)
      [Lh_insert (\<lambda>_. False) 5, Lh_delete (\<lambda>_. True) 6] t0 = (log, t) \<and>
    OPENSSL_lh_retrieve number_hash number_cmp t 5 = bindings (\<lambda>x y. number_cmp x y = 0) log (\<lambda>_. None) 5"
proof -
  obtain t0 :: "nat lhash" where t0: "OPENSSL_lh_new (\<lambda>_. True) = Some t0" using lh_new_exists by blast
  obtain log t where run: "table_run (lh_ins number_hash number_cmp) (lh_del number_hash number_cmp)
      [Lh_insert (\<lambda>_. False) 5, Lh_delete (\<lambda>_. True) 6] t0 = (log, t)" by fastforce
  show ?thesis
    using lhash_is_map [OF numbers.hash_cmp_axioms t0 _ run, of 5] t0 run
    by (intro exI [of _ t0] exI [of _ log] exI [of _ t]) (simp add: SIZE_MAX_def)
qed

section \<open>The load of the table\<close>

text \<open>
  With memory available the average chain never reaches three items, and the array is never more than
  as long as there are items, or as short as it gets.
\<close>

definition load_ok :: "'d lhash \<Rightarrow> bool" where
  "load_ok lh \<longleftrightarrow> lh_num_items lh < 3 * lh_num_buckets lh \<and>
     (lh_num_buckets lh = kMinNumBuckets \<or> lh_num_buckets lh \<le> lh_num_items lh) \<and>
     (\<exists>k. lh_num_buckets lh = kMinNumBuckets * 2 ^ k) \<and> lh_callback_depth lh = 0"

lemma rebucket_with_memory:
  assumes "ITEM_PTR_SIZE * n \<le> SIZE_MAX div 2"
  shows "lh_num_buckets (lh_rebucket (\<lambda>_. True) lh n) = n \<and> lh_num_items (lh_rebucket (\<lambda>_. True) lh n) = lh_num_items lh \<and>
    lh_callback_depth (lh_rebucket (\<lambda>_. True) lh n) = lh_callback_depth lh"
proof -
  have "size_t (ITEM_PTR_SIZE * n) = ITEM_PTR_SIZE * n"
    "size_t (ITEM_PTR_SIZE * n + OPENSSL_MALLOC_PREFIX) = ITEM_PTR_SIZE * n + OPENSSL_MALLOC_PREFIX"
    using assms by (auto intro!: size_t_id simp: SIZE_MAX_def OPENSSL_MALLOC_PREFIX_def)
  then show ?thesis by (simp add: lh_rebucket_def OPENSSL_malloc_def ITEM_PTR_SIZE_def)
qed

lemma resize_restores_load:
  assumes "lh_num_items lh \<le> 3 * lh_num_buckets lh" "lh_callback_depth lh = 0"
    and "lh_num_buckets lh = kMinNumBuckets \<or> lh_num_buckets lh \<le> lh_num_items lh + 1"
    and "lh_num_buckets lh = kMinNumBuckets * 2 ^ k" "lh_num_items lh \<le> 2 ^ 50"
  shows "load_ok (lh_maybe_resize (\<lambda>_. True) lh)"
proof -
  define n where "n = lh_num_buckets lh"
  define items where "items = lh_num_items lh"
  have n: "16 \<le> n" "n = 16 * 2 ^ k" "items \<le> 3 * n" "n = 16 \<or> n \<le> items + 1" "items \<le> 2 ^ 50"
    using assms by (simp_all add: n_def items_def kMinNumBuckets_def)
  then have small: "n \<le> 2 ^ 50 + 1" by auto
  then have sz: "size_t (n * 2) = n * 2" by (intro size_t_id) (simp add: SIZE_MAX_def)
  have up: "ITEM_PTR_SIZE * (n * 2) \<le> SIZE_MAX div 2" and down: "ITEM_PTR_SIZE * (n div 2) \<le> SIZE_MAX div 2"
    using small by (simp_all add: ITEM_PTR_SIZE_def SIZE_MAX_def)
  consider (double) "items = 3 * n" | (halve) "items < n" "16 < n" | (stay) "items < 3 * n" "n \<le> items \<or> n = 16"
    using n by linarith
  then show ?thesis
  proof cases
    case double
    then have "items div n = 3" using n by simp
    then have "lh_maybe_resize (\<lambda>_. True) lh = lh_rebucket (\<lambda>_. True) lh (n * 2)"
      using assms(2) sz n(1) unfolding lh_maybe_resize_def n_def [symmetric] items_def [symmetric]
      by (simp add: kMaxAverageChainLength_def)
    moreover have "n * 2 = 16 * 2 ^ Suc k" using n(2) by simp
    ultimately show ?thesis
      using rebucket_with_memory [OF up, of lh] double n assms(2)
      unfolding load_ok_def items_def [symmetric] kMinNumBuckets_def by (auto intro: exI [of _ "Suc k"])
  next
    case halve
    then obtain j where j: "k = Suc j" using n(2) by (cases k) auto
    then have h: "n div 2 = 16 * 2 ^ j" "n = 2 * (n div 2)" using n(2) by simp_all
    have "16 \<le> n div 2" using h(1) by simp
    then have "lh_maybe_resize (\<lambda>_. True) lh = lh_rebucket (\<lambda>_. True) lh (n div 2)"
      using assms(2) halve unfolding lh_maybe_resize_def n_def [symmetric] items_def [symmetric]
      by (simp add: kMaxAverageChainLength_def kMinAverageChainLength_def kMinNumBuckets_def)
    then show ?thesis
      using rebucket_with_memory [OF down, of lh] halve n h assms(2)
      unfolding load_ok_def items_def [symmetric] kMinNumBuckets_def by (auto intro: exI [of _ j])
  next
    case stay
    have "items div n \<le> 2" using stay(1) n(1) by (simp add: less_mult_imp_div_less div_less_iff_less_mult flip: less_Suc_eq_le)
    moreover have "items div n \<noteq> 0 \<or> n = 16" using stay(2) n(1) by (auto simp: div_eq_0_iff)
    ultimately have "lh_maybe_resize (\<lambda>_. True) lh = lh"
      unfolding lh_maybe_resize_def n_def [symmetric] items_def [symmetric]
      by (auto simp: kMaxAverageChainLength_def kMinAverageChainLength_def kMinNumBuckets_def)
    moreover have "load_ok lh"
      using stay n assms(2) unfolding load_ok_def n_def [symmetric] items_def [symmetric] kMinNumBuckets_def by auto
    ultimately show ?thesis by simp
  qed
qed

text \<open>Insertion and deletion under a load that is in order.\<close>

lemma lh_ins_load:
  assumes "hash_cmp hash cmp" "lh_ok hash cmp lh" "load_ok lh" "lh_num_items lh < 2 ^ 50"
  shows "load_ok (snd (lh_ins hash cmp (\<lambda>_. True) d lh)) \<and> fst (lh_ins hash cmp (\<lambda>_. True) d lh) \<and>
    lh_num_items (snd (lh_ins hash cmp (\<lambda>_. True) d lh)) \<le> lh_num_items lh + 1"
proof -
  obtain h b p where g: "get_next_ptr_and_hash hash cmp lh d = (h, b, p)"
    by (cases "get_next_ptr_and_hash hash cmp lh d")
  have grow: "load_ok (lh_maybe_resize (\<lambda>_. True) (lh\<lparr> lh_buckets := bs, lh_num_items := size_t (lh_num_items lh + 1) \<rparr>)) \<and>
      lh_num_items (lh_maybe_resize (\<lambda>_. True) (lh\<lparr> lh_buckets := bs, lh_num_items := size_t (lh_num_items lh + 1) \<rparr>))
        = lh_num_items lh + 1" for bs
  proof -
    obtain k where k: "lh_num_buckets lh = kMinNumBuckets * 2 ^ k" using assms(3) by (auto simp: load_ok_def)
    have sz: "size_t (lh_num_items lh + 1) = lh_num_items lh + 1"
      using assms(4) by (intro size_t_id) (simp add: SIZE_MAX_def)
    show ?thesis unfolding sz
    proof
      show "load_ok (lh_maybe_resize (\<lambda>_. True) (lh\<lparr> lh_buckets := bs, lh_num_items := lh_num_items lh + 1 \<rparr>))"
        by (rule resize_restores_load [where k = k]) (use assms(3,4) k in \<open>auto simp: load_ok_def\<close>)
    qed (simp add: lh_maybe_resize_def lh_rebucket_def Let_def)
  qed
  have mem: "OPENSSL_malloc (\<lambda>_. True) LHASH_ITEM_SIZE"
    by (simp add: OPENSSL_malloc_def LHASH_ITEM_SIZE_def OPENSSL_MALLOC_PREFIX_def size_t_def)
  show ?thesis
  proof (cases "deref lh (b, p)")
    case None
    then show ?thesis using grow mem by (simp add: lh_ins_def OPENSSL_lh_insert_def g Let_def)
  next
    case (Some it)
    then show ?thesis using assms(3) by (simp add: lh_ins_def OPENSSL_lh_insert_def g Let_def load_ok_def)
  qed
qed

lemma lh_del_load:
  assumes "load_ok lh" "lh_num_items lh \<le> 2 ^ 50"
  shows "load_ok (lh_del hash cmp (\<lambda>_. True) d lh) \<and>
    lh_num_items (lh_del hash cmp (\<lambda>_. True) d lh) \<le> lh_num_items lh"
proof -
  obtain h b p where g: "get_next_ptr_and_hash hash cmp lh d = (h, b, p)"
    by (cases "get_next_ptr_and_hash hash cmp lh d")
  obtain k where k: "lh_num_buckets lh = kMinNumBuckets * 2 ^ k" using assms(1) by (auto simp: load_ok_def)
  have "load_ok (lh_maybe_resize (\<lambda>_. True) (lh\<lparr> lh_buckets := bs, lh_num_items := lh_num_items lh - 1 \<rparr>))" for bs
    by (rule resize_restores_load [where k = k]) (use assms k in \<open>auto simp: load_ok_def\<close>)
  moreover have "lh_num_items (lh_maybe_resize (\<lambda>_. True) (lh\<lparr> lh_buckets := bs, lh_num_items := lh_num_items lh - 1 \<rparr>))
      = lh_num_items lh - 1" for bs
    by (simp add: lh_maybe_resize_def lh_rebucket_def Let_def)
  ultimately show ?thesis
    using assms(1) by (auto simp: lh_del_def OPENSSL_lh_delete_def g Let_def split: option.splits)
qed

fun has_memory :: "'d lh_op \<Rightarrow> bool" where
  "has_memory (Lh_insert sys d) \<longleftrightarrow> sys = (\<lambda>_. True)"
| "has_memory (Lh_delete sys d) \<longleftrightarrow> sys = (\<lambda>_. True)"

lemma run_load:
  assumes "hash_cmp hash cmp" "lh_invar hash cmp (length ops) lh" "load_ok lh" "lh_num_items lh + length ops \<le> 2 ^ 50"
    "\<forall>op \<in> set ops. has_memory op" "table_run (lh_ins hash cmp) (lh_del hash cmp) ops lh = (log, lh')"
  shows "load_ok lh' \<and> log = ops"
  using assms(2-)
proof (induction ops arbitrary: lh log)
  case Nil
  then show ?case by simp
next
  case (Cons op ops)
  have inv: "lh_invar hash cmp (Suc (length ops)) lh" using Cons.prems(1) by simp
  then have ok: "lh_ok hash cmp lh" by (simp add: lh_invar_def)
  show ?case
  proof (cases op)
    case (Lh_insert sys d)
    then have sys: "sys = (\<lambda>_. True)" using Cons.prems(4) by simp
    obtain r u where u: "lh_ins hash cmp sys d lh = (r, u)" by (cases "lh_ins hash cmp sys d lh")
    have "r \<and> load_ok u \<and> lh_num_items u \<le> lh_num_items lh + 1"
      using lh_ins_load [OF assms(1) ok Cons.prems(2), of d] Cons.prems(3) u sys by simp
    moreover have "lh_invar hash cmp (length ops) u"
      using hash_cmp.run_invar(1) [OF assms(1) inv, of sys d] u by simp
    moreover obtain l where "table_run (lh_ins hash cmp) (lh_del hash cmp) ops u = (l, lh')"
      "log = (if r then op # l else l)"
      using Cons.prems(5) u by (auto simp: Lh_insert split: prod.splits)
    ultimately show ?thesis using Cons.IH [of u l] Cons.prems(3,4) by simp
  next
    case (Lh_delete sys d)
    then have sys: "sys = (\<lambda>_. True)" using Cons.prems(4) by simp
    define u where "u = lh_del hash cmp sys d lh"
    have "load_ok u \<and> lh_num_items u \<le> lh_num_items lh"
      using lh_del_load [OF Cons.prems(2), of hash cmp d] Cons.prems(3) sys by (simp add: u_def)
    moreover have "lh_invar hash cmp (length ops) u"
      using hash_cmp.run_invar(2) [OF assms(1) inv, of sys d] by (simp add: u_def)
    moreover obtain l where "table_run (lh_ins hash cmp) (lh_del hash cmp) ops u = (l, lh')" "log = op # l"
      using Cons.prems(5) by (auto simp: Lh_delete u_def split: prod.splits)
    ultimately show ?thesis using Cons.IH [of u l] Cons.prems(3,4) by simp
  qed
qed

text \<open>
  While memory lasts every operation takes effect and chains stay short: after any run of
  insertions and deletions there are fewer than three items per bucket on average, and beyond the
  minimum of sixteen there are never more buckets than items.
\<close>

lemma lhash_load_bounded:
  assumes "hash_cmp hash cmp" "OPENSSL_lh_new sys = Some t0" "length ops \<le> 2 ^ 50" "\<forall>op \<in> set ops. has_memory op"
    and "table_run (lh_ins hash cmp) (lh_del hash cmp) ops t0 = (log, t)"
  shows "log = ops \<and> OPENSSL_lh_num_items t < 3 * length (lh_buckets t) \<and>
    length (lh_buckets t) \<le> max 16 (OPENSSL_lh_num_items t)"
proof -
  note t0 = lh_new_ok [OF assms(2), of hash cmp]
  then have load: "load_ok t0" by (auto simp: load_ok_def kMinNumBuckets_def intro: exI [of _ 0])
  have inv: "lh_invar hash cmp (length ops) t0" using t0 assms(3) by (simp add: lh_invar_def SIZE_MAX_def)
  have "lh_num_items t0 + length ops \<le> 2 ^ 50" using t0 assms(3) by simp
  note run = run_load [OF assms(1) inv load this assms(4,5)]
  have "lh_ok hash cmp t"
    using hash_cmp.run_lookup [OF assms(1) inv assms(5)] by (simp add: lh_invar_def)
  then have "length (lh_buckets t) = lh_num_buckets t" by (simp add: lh_ok_def placed_def)
  then show ?thesis using run by (auto simp: load_ok_def OPENSSL_lh_num_items_def kMinNumBuckets_def)
qed

lemma lhash_load_bounded_witness:
  "\<exists>t0 t. OPENSSL_lh_new (\<lambda>_. True) = Some t0 \<and>
    table_run (lh_ins number_hash number_cmp) (lh_del number_hash number_cmp)
      [Lh_insert (\<lambda>_. True) 5, Lh_delete (\<lambda>_. True) 6] t0 = ([Lh_insert (\<lambda>_. True) 5, Lh_delete (\<lambda>_. True) 6], t) \<and>
    OPENSSL_lh_num_items t < 3 * length (lh_buckets t)"
proof -
  obtain t0 :: "nat lhash" where t0: "OPENSSL_lh_new (\<lambda>_. True) = Some t0" using lh_new_exists by blast
  obtain log t where run: "table_run (lh_ins number_hash number_cmp) (lh_del number_hash number_cmp)
      [Lh_insert (\<lambda>_. True) 5, Lh_delete (\<lambda>_. True) 6] t0 = (log, t)" by fastforce
  show ?thesis
    using lhash_load_bounded [OF numbers.hash_cmp_axioms t0 _ _ run] t0 run
    by (intro exI [of _ t0] exI [of _ t]) simp
qed

section \<open>Iteration\<close>

text \<open>The callback sees every element once, and iterating neither loses elements nor leaves resizing off.\<close>

lemma doall_contents:
  assumes "lh_ok hash cmp lh" "lh_callback_depth lh < UINT_MAX - 1"
    and "OPENSSL_lh_doall_arg sys (Some lh) (\<lambda>d seen. add_mset d seen) {#} = (r, seen)"
  shows "seen = lh_contents lh \<and> (\<exists>lh'. r = Some lh' \<and> lh_ok hash cmp lh' \<and> lh_contents lh' = lh_contents lh \<and>
    lh_callback_depth lh' = lh_callback_depth lh)"
proof -
  have chain: "foldl (\<lambda>w cur. add_mset (item_data cur) w) w its = w + image_mset item_data (mset its)"
    for w and its :: "'a lhash_item list"
    by (induction its arbitrary: w) auto
  have "foldl (foldl (\<lambda>w cur. add_mset (item_data cur) w)) w bs = w + image_mset item_data (mset (concat bs))"
    for w and bs :: "'a lhash_item list list"
    by (induction bs arbitrary: w) (auto simp: chain)
  then show ?thesis
    using assms lh_maybe_resize_ok [OF assms(1), of sys]
    by (auto simp: OPENSSL_lh_doall_arg_def Let_def lh_contents_eq)
qed

end
