(* ===== verification/Pool.thy ===== *)
theory Pool
  imports Lhash Cbs
begin

text \<open>
  The buffer pool of \<open>src/crypto/pool/pool.c\<close>: reference-counted blobs, interned in a hash table of
  pointers, with the reference counts of \<open>src/crypto/refcount_c11.c\<close>. Buffers live in a heap, a map from
  pointers to objects; a freed pointer maps to \<open>None\<close>. There is one pool, and \<open>crb_pool\<close> says whether a
  buffer was made for it. What runs under the pool's lock is one atomic step, as is an operation on a
  reference count, so the interleavings of several threads are the sequences of steps of \<open>pool_step\<close>.
\<close>

section \<open>Reference counts\<close>

definition CRYPTO_REFCOUNT_MAX :: u32 where
  "CRYPTO_REFCOUNT_MAX = 0xffffffff"

definition CRYPTO_refcount_inc :: "u32 \<Rightarrow> u32" where
  "CRYPTO_refcount_inc c = (if c \<noteq> CRYPTO_REFCOUNT_MAX then c + 1 else c)"

text \<open>\<open>None\<close> is \<open>abort()\<close>.\<close>

definition CRYPTO_refcount_dec_and_test_zero :: "u32 \<Rightarrow> (bool \<times> u32) option" where
  "CRYPTO_refcount_dec_and_test_zero c =
     (if c = 0 then None
      else if c = CRYPTO_REFCOUNT_MAX then Some (False, c)
      else Some (c - 1 = 0, c - 1))"

section \<open>State\<close>

text \<open>\<open>Tmp\<close> is the address of the key that a lookup builds on its own stack.\<close>

datatype buffer_ptr = Tmp | Buf nat

record crypto_buffer =
  crb_pool :: bool
  crb_data :: "u8 list"
  crb_references :: u32
  crb_data_is_static :: bool

type_synonym buffer_heap = "buffer_ptr \<Rightarrow> crypto_buffer option"

record crypto_pool =
  pool_heap :: buffer_heap
  pool_bufs :: "buffer_ptr lhash"

definition CRYPTO_BUFFER_SIZE :: nat where
  "CRYPTO_BUFFER_SIZE = 32"

section \<open>Operations\<close>

definition CRYPTO_BUFFER_hash :: "buffer_heap \<Rightarrow> buffer_ptr \<Rightarrow> u32" where
  "CRYPTO_BUFFER_hash h p = OPENSSL_hash32 (crb_data (the (h p)))"

definition CRYPTO_BUFFER_cmp :: "buffer_heap \<Rightarrow> buffer_ptr \<Rightarrow> buffer_ptr \<Rightarrow> int" where
  "CRYPTO_BUFFER_cmp h p q =
     (let a = crb_data (the (h p)); b = crb_data (the (h q))
      in if length a \<noteq> length b then 1 else OPENSSL_memcmp a b (length a))"

definition lh_CRYPTO_BUFFER_retrieve :: "buffer_heap \<Rightarrow> buffer_ptr lhash \<Rightarrow> buffer_ptr \<Rightarrow> buffer_ptr option" where
  "lh_CRYPTO_BUFFER_retrieve h bufs p = OPENSSL_lh_retrieve (CRYPTO_BUFFER_hash h) (CRYPTO_BUFFER_cmp h) bufs p"

definition lh_CRYPTO_BUFFER_insert ::
  "(nat \<Rightarrow> bool) \<Rightarrow> buffer_heap \<Rightarrow> buffer_ptr lhash \<Rightarrow> buffer_ptr \<Rightarrow> bool \<times> buffer_ptr option \<times> buffer_ptr lhash" where
  "lh_CRYPTO_BUFFER_insert sys h bufs p =
     OPENSSL_lh_insert sys (CRYPTO_BUFFER_hash h) (CRYPTO_BUFFER_cmp h) bufs p"

definition lh_CRYPTO_BUFFER_delete ::
  "(nat \<Rightarrow> bool) \<Rightarrow> buffer_heap \<Rightarrow> buffer_ptr lhash \<Rightarrow> buffer_ptr \<Rightarrow> buffer_ptr option \<times> buffer_ptr lhash" where
  "lh_CRYPTO_BUFFER_delete sys h bufs p =
     OPENSSL_lh_delete sys (CRYPTO_BUFFER_hash h) (CRYPTO_BUFFER_cmp h) bufs p"

text \<open>The size of \<open>CRYPTO_BUFFER_POOL\<close> on iOS: a pointer and a \<open>pthread_rwlock_t\<close>.\<close>

definition CRYPTO_BUFFER_POOL_SIZE :: nat where
  "CRYPTO_BUFFER_POOL_SIZE = 8 + 200"

definition CRYPTO_BUFFER_POOL_new :: "(nat \<Rightarrow> bool) \<Rightarrow> buffer_heap \<Rightarrow> crypto_pool option" where
  "CRYPTO_BUFFER_POOL_new sys h =
     (if \<not> OPENSSL_malloc sys CRYPTO_BUFFER_POOL_SIZE then None
      else case OPENSSL_lh_new sys of None \<Rightarrow> None
      | Some bufs \<Rightarrow> Some \<lparr> pool_heap = h, pool_bufs = bufs \<rparr>)"

definition crypto_buffer_free_object :: "crypto_pool \<Rightarrow> buffer_ptr \<Rightarrow> crypto_pool" where
  "crypto_buffer_free_object w p = w\<lparr> pool_heap := (pool_heap w)(p := None) \<rparr>"

text \<open>Changing the reference count of a live buffer; a freed one is an error of the caller.\<close>

definition with_references :: "crypto_pool \<Rightarrow> buffer_ptr \<Rightarrow> (u32 \<Rightarrow> u32) \<Rightarrow> crypto_pool" where
  "with_references w p f =
     (case pool_heap w p of None \<Rightarrow> w
      | Some b \<Rightarrow> w\<lparr> pool_heap := (pool_heap w)(p \<mapsto> b\<lparr> crb_references := f (crb_references b) \<rparr>) \<rparr>)"

text \<open>
  The duplicate of the buffer at \<open>key\<close>, unless the new data is static and the duplicate's is not.
\<close>

definition find_duplicate :: "buffer_heap \<Rightarrow> buffer_ptr lhash \<Rightarrow> buffer_ptr \<Rightarrow> bool \<Rightarrow> buffer_ptr option" where
  "find_duplicate h bufs key data_is_static =
     (case lh_CRYPTO_BUFFER_retrieve h bufs key of None \<Rightarrow> None
      | Some dup \<Rightarrow> if data_is_static \<and> \<not> crb_data_is_static (the (h dup)) then None else Some dup)"

text \<open>The first critical section of \<open>crypto_buffer_new\<close>, under the read lock.\<close>

definition new_lookup :: "crypto_pool \<Rightarrow> u8 list \<Rightarrow> bool \<Rightarrow> buffer_ptr option \<times> crypto_pool" where
  "new_lookup w data data_is_static =
     (let tmp = \<lparr> crb_pool = False, crb_data = data, crb_references = 0, crb_data_is_static = False \<rparr>
      in case find_duplicate ((pool_heap w)(Tmp \<mapsto> tmp)) (pool_bufs w) Tmp data_is_static of
           None \<Rightarrow> (None, w)
         | Some dup \<Rightarrow> (Some dup, with_references w dup CRYPTO_refcount_inc))"

text \<open>Making the new buffer at \<open>addr\<close>, before it is shared.\<close>

definition new_object ::
  "(nat \<Rightarrow> bool) \<Rightarrow> crypto_pool \<Rightarrow> nat \<Rightarrow> u8 list \<Rightarrow> bool \<Rightarrow> bool \<Rightarrow> crypto_pool option" where
  "new_object sys w addr data data_is_static in_pool =
     (if \<not> OPENSSL_malloc sys CRYPTO_BUFFER_SIZE then None
      else
        let buf = \<lparr> crb_pool = in_pool, crb_data = data, crb_references = 1, crb_data_is_static = data_is_static \<rparr>;
            w' = w\<lparr> pool_heap := (pool_heap w)(Buf addr \<mapsto> buf) \<rparr>
        in if data_is_static then Some w'
           else case OPENSSL_memdup sys data of
               None \<Rightarrow> if length data \<noteq> 0 then None else Some w'
             | Some _ \<Rightarrow> Some w')"

text \<open>The second critical section, under the write lock, and what follows it.\<close>

definition new_publish ::
  "(nat \<Rightarrow> bool) \<Rightarrow> crypto_pool \<Rightarrow> buffer_ptr \<Rightarrow> buffer_ptr option \<times> crypto_pool" where
  "new_publish sys w buf =
     (case find_duplicate (pool_heap w) (pool_bufs w) buf (crb_data_is_static (the (pool_heap w buf))) of
        None \<Rightarrow>
          (case lh_CRYPTO_BUFFER_insert sys (pool_heap w) (pool_bufs w) buf of
             (inserted, old, bufs') \<Rightarrow>
               let w' = w\<lparr> pool_bufs := bufs' \<rparr>
               in if inserted then (Some buf, w') else (None, crypto_buffer_free_object w' buf))
      | Some dup \<Rightarrow>
          (Some dup, crypto_buffer_free_object (with_references w dup CRYPTO_refcount_inc) buf))"

definition crypto_buffer_new ::
  "(nat \<Rightarrow> bool) \<Rightarrow> crypto_pool \<Rightarrow> nat \<Rightarrow> u8 list \<Rightarrow> bool \<Rightarrow> bool \<Rightarrow> buffer_ptr option \<times> crypto_pool" where
  "crypto_buffer_new sys w addr data data_is_static in_pool =
     (case if in_pool then new_lookup w data data_is_static else (None, w) of
        (Some dup, w') \<Rightarrow> (Some dup, w')
      | (None, w') \<Rightarrow>
          (case new_object sys w' addr data data_is_static in_pool of
             None \<Rightarrow> (None, w')
           | Some w'' \<Rightarrow> if \<not> in_pool then (Some (Buf addr), w'') else new_publish sys w'' (Buf addr)))"

definition CRYPTO_BUFFER_new ::
  "(nat \<Rightarrow> bool) \<Rightarrow> crypto_pool \<Rightarrow> nat \<Rightarrow> u8 list \<Rightarrow> bool \<Rightarrow> buffer_ptr option \<times> crypto_pool" where
  "CRYPTO_BUFFER_new sys w addr data in_pool = crypto_buffer_new sys w addr data False in_pool"

text \<open>The contents of the new block are whatever was there; the caller is to fill them in.\<close>

definition CRYPTO_BUFFER_alloc ::
  "(nat \<Rightarrow> bool) \<Rightarrow> crypto_pool \<Rightarrow> nat \<Rightarrow> u8 list \<Rightarrow> buffer_ptr option \<times> crypto_pool" where
  "CRYPTO_BUFFER_alloc sys w addr contents =
     (if \<not> OPENSSL_malloc sys CRYPTO_BUFFER_SIZE then (None, w)
      else if length contents \<noteq> 0 \<and> \<not> OPENSSL_malloc sys (length contents) then (None, w)
      else
        (Some (Buf addr),
         w\<lparr> pool_heap := (pool_heap w)(Buf addr \<mapsto>
              \<lparr> crb_pool = False, crb_data = contents, crb_references = 1, crb_data_is_static = False \<rparr>) \<rparr>))"

definition CRYPTO_BUFFER_new_from_CBS ::
  "(nat \<Rightarrow> bool) \<Rightarrow> crypto_pool \<Rightarrow> nat \<Rightarrow> cbs \<Rightarrow> bool \<Rightarrow> buffer_ptr option \<times> crypto_pool" where
  "CRYPTO_BUFFER_new_from_CBS sys w addr cbs in_pool = CRYPTO_BUFFER_new sys w addr (CBS_data cbs) in_pool"

definition CRYPTO_BUFFER_new_from_static_data_unsafe ::
  "(nat \<Rightarrow> bool) \<Rightarrow> crypto_pool \<Rightarrow> nat \<Rightarrow> u8 list \<Rightarrow> bool \<Rightarrow> buffer_ptr option \<times> crypto_pool" where
  "CRYPTO_BUFFER_new_from_static_data_unsafe sys w addr data in_pool = crypto_buffer_new sys w addr data True in_pool"

text \<open>\<open>None\<close> when the reference count is zero already and the code aborts, or \<open>buf\<close> is not live.\<close>

definition CRYPTO_BUFFER_free :: "(nat \<Rightarrow> bool) \<Rightarrow> crypto_pool \<Rightarrow> buffer_ptr option \<Rightarrow> crypto_pool option" where
  "CRYPTO_BUFFER_free sys w buf_ptr =
     (case buf_ptr of None \<Rightarrow> Some w
      | Some buf \<Rightarrow>
     (case pool_heap w buf of None \<Rightarrow> None
      | Some b \<Rightarrow>
          (case CRYPTO_refcount_dec_and_test_zero (crb_references b) of
             None \<Rightarrow> None
           | Some (zero, refs) \<Rightarrow>
               let w = with_references w buf (\<lambda>_. refs)
               in if \<not> zero then Some w
                  else if \<not> crb_pool b then Some (crypto_buffer_free_object w buf)
                  else
                    let w = (if lh_CRYPTO_BUFFER_retrieve (pool_heap w) (pool_bufs w) buf = Some buf
                             then w\<lparr> pool_bufs := snd (lh_CRYPTO_BUFFER_delete sys (pool_heap w) (pool_bufs w) buf) \<rparr>
                             else w)
                    in Some (crypto_buffer_free_object w buf))))"

definition CRYPTO_BUFFER_up_ref :: "crypto_pool \<Rightarrow> buffer_ptr \<Rightarrow> crypto_pool" where
  "CRYPTO_BUFFER_up_ref w buf = with_references w buf CRYPTO_refcount_inc"

definition CRYPTO_BUFFER_data :: "crypto_pool \<Rightarrow> buffer_ptr \<Rightarrow> u8 list" where
  "CRYPTO_BUFFER_data w buf = crb_data (the (pool_heap w buf))"

definition CRYPTO_BUFFER_len :: "crypto_pool \<Rightarrow> buffer_ptr \<Rightarrow> nat" where
  "CRYPTO_BUFFER_len w buf = length (crb_data (the (pool_heap w buf)))"

definition CRYPTO_BUFFER_init_CBS :: "crypto_pool \<Rightarrow> buffer_ptr \<Rightarrow> cbs" where
  "CRYPTO_BUFFER_init_CBS w buf = CBS_init (crb_data (the (pool_heap w buf))) (CRYPTO_BUFFER_len w buf)"

section \<open>Hashing and comparing through pointers\<close>

definition data_at :: "buffer_heap \<Rightarrow> buffer_ptr \<Rightarrow> u8 list" where
  "data_at h p = crb_data (the (h p))"

lemma CRYPTO_BUFFER_cmp_zero: "CRYPTO_BUFFER_cmp h p q = 0 \<longleftrightarrow> data_at h p = data_at h q"
  using OPENSSL_memcmp_zero by (auto simp: CRYPTO_BUFFER_cmp_def Let_def data_at_def)

interpretation buffer_keys: hash_cmp "CRYPTO_BUFFER_hash h" "CRYPTO_BUFFER_cmp h" for h
  by unfold_locales (auto simp: CRYPTO_BUFFER_cmp_zero CRYPTO_BUFFER_hash_def data_at_def)

abbreviation pool_contents :: "crypto_pool \<Rightarrow> buffer_ptr multiset" where
  "pool_contents w \<equiv> lh_contents (pool_bufs w)"

definition table_ok :: "buffer_heap \<Rightarrow> buffer_ptr lhash \<Rightarrow> bool" where
  "table_ok h bufs \<longleftrightarrow> lh_ok (CRYPTO_BUFFER_hash h) (CRYPTO_BUFFER_cmp h) bufs"

text \<open>The table only depends on the bytes of the buffers it holds.\<close>

lemma table_ok_heap:
  assumes "table_ok h bufs" "\<And>p. p \<in># lh_contents bufs \<Longrightarrow> data_at h' p = data_at h p"
  shows "table_ok h' bufs"
proof -
  have ok: "lh_ok (CRYPTO_BUFFER_hash h) (CRYPTO_BUFFER_cmp h) bufs" using assms(1) by (simp add: table_ok_def)
  have "belongs (CRYPTO_BUFFER_hash h') (lh_num_buckets bufs) b it"
    if "b < lh_num_buckets bufs" "it \<in> set (lh_buckets bufs ! b)" for b it
  proof -
    have "item_data it \<in># lh_contents bufs" using lh_contents_mem [OF ok] that by blast
    from assms(2) [OF this] show ?thesis
      using chain_belongs [OF ok that(1)] that(2) by (auto simp: belongs_def CRYPTO_BUFFER_hash_def data_at_def)
  qed
  moreover have "all_diff (CRYPTO_BUFFER_cmp h') (lh_contents bufs)"
    using ok assms(2) in_diffD unfolding lh_ok_def all_diff_def CRYPTO_BUFFER_cmp_zero by metis
  ultimately show ?thesis using ok by (simp add: table_ok_def lh_ok_def placed_def)
qed

lemma table_retrieve:
  "table_ok h bufs \<Longrightarrow>
    lh_CRYPTO_BUFFER_retrieve h bufs p = Some q \<longleftrightarrow> q \<in># lh_contents bufs \<and> data_at h q = data_at h p"
  using buffer_keys.retrieve_iff by (simp add: table_ok_def lh_CRYPTO_BUFFER_retrieve_def CRYPTO_BUFFER_cmp_zero)

lemma table_insert:
  assumes "table_ok h bufs" "lh_num_items bufs < SIZE_MAX" "lh_CRYPTO_BUFFER_insert sys h bufs p = (ok, old, bufs')"
  shows "table_ok h bufs' \<and> old = lh_CRYPTO_BUFFER_retrieve h bufs p \<and>
    (if ok then lh_contents bufs' = add_mset p (case old of None \<Rightarrow> lh_contents bufs | Some x \<Rightarrow> lh_contents bufs - {#x#})
     else bufs' = bufs)"
  using buffer_keys.insert_effect [of h bufs sys p ok old bufs'] assms
  by (auto simp: table_ok_def lh_CRYPTO_BUFFER_retrieve_def lh_CRYPTO_BUFFER_insert_def)

lemma table_delete:
  assumes "table_ok h bufs" "lh_CRYPTO_BUFFER_delete sys h bufs p = (r, bufs')"
  shows "table_ok h bufs' \<and> r = lh_CRYPTO_BUFFER_retrieve h bufs p \<and>
    lh_contents bufs' = (case r of None \<Rightarrow> lh_contents bufs | Some x \<Rightarrow> lh_contents bufs - {#x#})"
  using buffer_keys.delete_effect [of h bufs sys p r bufs'] assms
  by (auto simp: table_ok_def lh_CRYPTO_BUFFER_retrieve_def lh_CRYPTO_BUFFER_delete_def)

lemma table_distinct:
  "table_ok h bufs \<Longrightarrow> p \<in># lh_contents bufs \<Longrightarrow> q \<in># lh_contents bufs \<Longrightarrow> data_at h p = data_at h q \<Longrightarrow> p = q"
  using all_diff_unique [of "CRYPTO_BUFFER_cmp h"] by (auto simp: table_ok_def lh_ok_def CRYPTO_BUFFER_cmp_zero)

lemma table_once: "table_ok h bufs \<Longrightarrow> p \<notin># lh_contents bufs - {#p#}"
  by (auto simp: table_ok_def lh_ok_def all_diff_def CRYPTO_BUFFER_cmp_zero dest: in_diffD)

lemma find_duplicate_Some:
  assumes "find_duplicate h bufs key st = Some q" "table_ok h bufs"
  shows "q \<in># lh_contents bufs \<and> data_at h q = data_at h key \<and> (st \<longrightarrow> crb_data_is_static (the (h q)))"
  using assms table_retrieve [OF assms(2)] by (auto simp: find_duplicate_def split: option.splits if_splits)

section \<open>Threads sharing a pool\<close>

text \<open>
  Besides the pool the state says which references the threads hold and which new buffers are still
  private to the call of \<open>crypto_buffer_new\<close> that made them. A step is one critical section, or an
  allocation, of some thread; \<open>new_hit\<close>, \<open>new_object\<close> and \<open>new_publish\<close> are the parts of
  \<open>crypto_buffer_new\<close>.
\<close>

record pool_threads =
  pt_pool :: crypto_pool
  pt_held :: "buffer_ptr multiset"
  pt_private :: "buffer_ptr multiset"

definition fresh :: "crypto_pool \<Rightarrow> nat \<Rightarrow> bool" where
  "fresh w addr \<longleftrightarrow> pool_heap w (Buf addr) = None"

definition gain :: "buffer_ptr option \<Rightarrow> buffer_ptr multiset" where
  "gain r = (case r of None \<Rightarrow> {#} | Some p \<Rightarrow> {#p#})"

inductive pool_step :: "pool_threads \<Rightarrow> pool_threads \<Rightarrow> bool" where
  new_hit: "new_lookup w data st = (Some p, w') \<Longrightarrow>
    pool_step \<lparr> pt_pool = w, pt_held = H, pt_private = P \<rparr>
      \<lparr> pt_pool = w', pt_held = add_mset p H, pt_private = P \<rparr>"
| new_private: "fresh w addr \<Longrightarrow> new_object sys w addr data st True = Some w' \<Longrightarrow>
    pool_step \<lparr> pt_pool = w, pt_held = H, pt_private = P \<rparr>
      \<lparr> pt_pool = w', pt_held = H, pt_private = add_mset (Buf addr) P \<rparr>"
| publish: "p \<in># P \<Longrightarrow> lh_num_items (pool_bufs w) < SIZE_MAX \<Longrightarrow> new_publish sys w p = (r, w') \<Longrightarrow>
    pool_step \<lparr> pt_pool = w, pt_held = H, pt_private = P \<rparr>
      \<lparr> pt_pool = w', pt_held = H + gain r, pt_private = P - {#p#} \<rparr>"
| new_unpooled: "fresh w addr \<Longrightarrow> new_object sys w addr data st False = Some w' \<Longrightarrow>
    pool_step \<lparr> pt_pool = w, pt_held = H, pt_private = P \<rparr>
      \<lparr> pt_pool = w', pt_held = add_mset (Buf addr) H, pt_private = P \<rparr>"
| allocate: "fresh w addr \<Longrightarrow> CRYPTO_BUFFER_alloc sys w addr bytes = (Some p, w') \<Longrightarrow>
    pool_step \<lparr> pt_pool = w, pt_held = H, pt_private = P \<rparr>
      \<lparr> pt_pool = w', pt_held = add_mset p H, pt_private = P \<rparr>"
| up_ref: "p \<in># H \<Longrightarrow>
    pool_step \<lparr> pt_pool = w, pt_held = H, pt_private = P \<rparr>
      \<lparr> pt_pool = CRYPTO_BUFFER_up_ref w p, pt_held = add_mset p H, pt_private = P \<rparr>"
| release: "p \<in># H \<Longrightarrow> CRYPTO_BUFFER_free sys w (Some p) = Some w' \<Longrightarrow>
    pool_step \<lparr> pt_pool = w, pt_held = H, pt_private = P \<rparr>
      \<lparr> pt_pool = w', pt_held = H - {#p#}, pt_private = P \<rparr>"

definition pool_start :: "(nat \<Rightarrow> bool) \<Rightarrow> pool_threads \<Rightarrow> bool" where
  "pool_start sys s \<longleftrightarrow> (\<exists>w. CRYPTO_BUFFER_POOL_new sys (\<lambda>_. None) = Some w \<and>
     s = \<lparr> pt_pool = w, pt_held = {#}, pt_private = {#} \<rparr>)"

section \<open>The invariant\<close>

text \<open>A count that has not saturated is the number of references there are.\<close>

definition refs_ok :: "u32 \<Rightarrow> nat \<Rightarrow> bool" where
  "refs_ok r n \<longleftrightarrow> r = CRYPTO_REFCOUNT_MAX \<or> 0 < n \<and> unat r = n"

definition obj_ok :: "crypto_buffer option \<Rightarrow> nat \<Rightarrow> nat \<Rightarrow> bool \<Rightarrow> bool" where
  "obj_ok b held priv interned \<longleftrightarrow>
     (case b of
        None \<Rightarrow> held = 0 \<and> priv = 0 \<and> \<not> interned
      | Some b \<Rightarrow> refs_ok (crb_references b) (held + priv) \<and> (interned \<longrightarrow> crb_pool b) \<and>
          (0 < priv \<longrightarrow> crb_references b = 1 \<and> crb_pool b \<and> \<not> interned))"

definition pool_inv :: "crypto_pool \<Rightarrow> buffer_ptr multiset \<Rightarrow> buffer_ptr multiset \<Rightarrow> bool" where
  "pool_inv w H P \<longleftrightarrow> table_ok (pool_heap w) (pool_bufs w) \<and> pool_heap w Tmp = None \<and>
     (\<forall>p. obj_ok (pool_heap w p) (count H p) (count P p) (p \<in># pool_contents w))"

lemma refs_inc: "refs_ok r n \<Longrightarrow> refs_ok (CRYPTO_refcount_inc r) (Suc n)"
proof -
  have "unat (r + 1) = Suc (unat r)" if "r \<noteq> CRYPTO_REFCOUNT_MAX"
  proof -
    have "1 + r \<noteq> 0" using that by (auto simp: CRYPTO_REFCOUNT_MAX_def add_eq_0_iff)
    then show ?thesis using unatSuc [of r] by (simp add: add.commute)
  qed
  then show "refs_ok r n \<Longrightarrow> ?thesis" by (auto simp: refs_ok_def CRYPTO_refcount_inc_def)
qed

lemma refs_dec:
  assumes "refs_ok r n"
  obtains (last) "CRYPTO_refcount_dec_and_test_zero r = Some (True, 0)" "n = 1"
  | (more) r' where "CRYPTO_refcount_dec_and_test_zero r = Some (False, r')" "n = 0 \<or> refs_ok r' (n - 1)"
proof -
  have "r \<noteq> 0" using assms by (auto simp: refs_ok_def CRYPTO_REFCOUNT_MAX_def)
  consider "r = CRYPTO_REFCOUNT_MAX" | "r = 1" | "r \<noteq> CRYPTO_REFCOUNT_MAX" "r \<noteq> 1" by blast
  then show thesis
  proof cases
    case 1
    then show thesis using more [of r] \<open>r \<noteq> 0\<close> by (simp add: CRYPTO_refcount_dec_and_test_zero_def refs_ok_def)
  next
    case 2
    then show thesis using last assms
      by (simp add: CRYPTO_refcount_dec_and_test_zero_def CRYPTO_REFCOUNT_MAX_def refs_ok_def)
  next
    case 3
    have "unat (r - 1) = unat r - 1" using \<open>r \<noteq> 0\<close> by (simp add: unat_minus_one)
    moreover have "unat r \<noteq> 1" using 3(2) by (metis unat_1 unsigned_word_eqI)
    moreover have "unat r = n" "0 < n" using assms 3(1) by (auto simp: refs_ok_def)
    ultimately have "refs_ok (r - 1) (n - 1)" by (simp add: refs_ok_def)
    then show thesis using 3 \<open>r \<noteq> 0\<close> more [of "r - 1"]
      by (simp add: CRYPTO_refcount_dec_and_test_zero_def)
  qed
qed

text \<open>Changes that leave the table and the bytes alone.\<close>

lemma with_references_heap:
  "pool_heap w p = Some b \<Longrightarrow> with_references w p f = w\<lparr> pool_heap := (pool_heap w)(p \<mapsto> b\<lparr> crb_references := f (crb_references b) \<rparr>) \<rparr>"
  by (simp add: with_references_def)

lemma pool_invD:
  assumes "pool_inv w H P"
  shows "table_ok (pool_heap w) (pool_bufs w)" "pool_heap w Tmp = None"
    "obj_ok (pool_heap w p) (count H p) (count P p) (p \<in># pool_contents w)"
  using assms by (auto simp: pool_inv_def)

lemma live:
  assumes "pool_inv w H P" "p \<in># H \<or> p \<in># P \<or> p \<in># pool_contents w"
  obtains b where "pool_heap w p = Some b" "refs_ok (crb_references b) (count H p + count P p)" "p \<noteq> Tmp"
    "p \<in># pool_contents w \<Longrightarrow> crb_pool b"
    "p \<in># P \<Longrightarrow> crb_references b = 1 \<and> crb_pool b \<and> p \<notin># pool_contents w"
proof (cases "pool_heap w p")
  case None
  then show thesis using pool_invD(3) [OF assms(1), of p] assms(2) by (auto simp: obj_ok_def count_eq_zero_iff)
next
  case (Some b)
  then have "p \<noteq> Tmp" using pool_invD(2) [OF assms(1)] by auto
  then show thesis using that [OF Some] pool_invD(3) [OF assms(1), of p] Some by (simp add: obj_ok_def)
qed

lemma not_live: "pool_inv w H P \<Longrightarrow> pool_heap w p = None \<Longrightarrow> p \<notin># H \<and> p \<notin># P \<and> p \<notin># pool_contents w"
  by (metis live option.distinct(1))

lemma inv_acquire:
  assumes "pool_inv w H P" "pool_heap w p = Some b" "p \<notin># P"
  shows "pool_inv (with_references w p CRYPTO_refcount_inc) (add_mset p H) P"
proof -
  define w' where "w' = with_references w p CRYPTO_refcount_inc"
  have w': "pool_bufs w' = pool_bufs w" "pool_heap w' = (pool_heap w)(p \<mapsto> b\<lparr> crb_references := CRYPTO_refcount_inc (crb_references b) \<rparr>)"
    using with_references_heap [OF assms(2)] by (simp_all add: w'_def)
  have "table_ok (pool_heap w') (pool_bufs w')"
    using pool_invD(1) [OF assms(1)] assms(2) w' by (auto intro!: table_ok_heap [of "pool_heap w"] simp: data_at_def)
  moreover have "pool_heap w' Tmp = None" using pool_invD(2) [OF assms(1)] assms(2) w' by auto
  moreover have "obj_ok (pool_heap w' q) (count (add_mset p H) q) (count P q) (q \<in># pool_contents w')" for q
  proof (cases "q = p")
    case True
    then show ?thesis
      using pool_invD(3) [OF assms(1), of p] assms(2,3) w' refs_inc by (simp add: obj_ok_def not_in_iff)
  next
    case False
    then show ?thesis using pool_invD(3) [OF assms(1), of q] w' by simp
  qed
  ultimately show ?thesis unfolding w'_def [symmetric] by (simp add: pool_inv_def)
qed

lemma inv_drop_object:
  assumes "pool_inv w H P" "p \<notin># pool_contents w" "count H p + count P p = 1"
  shows "pool_inv (crypto_buffer_free_object w p) (H - {#p#}) (P - {#p#})"
proof -
  define w' where "w' = crypto_buffer_free_object w p"
  have w': "pool_bufs w' = pool_bufs w" "pool_heap w' = (pool_heap w)(p := None)"
    by (simp_all add: w'_def crypto_buffer_free_object_def)
  have "table_ok (pool_heap w') (pool_bufs w')"
    using pool_invD(1) [OF assms(1)] assms(2) w' by (auto intro!: table_ok_heap [of "pool_heap w"] simp: data_at_def)
  moreover have "pool_heap w' Tmp = None" using pool_invD(2) [OF assms(1)] w' by auto
  moreover have "obj_ok (pool_heap w' q) (count (H - {#p#}) q) (count (P - {#p#}) q) (q \<in># pool_contents w')" for q
  proof (cases "q = p")
    case True
    then show ?thesis using assms(2,3) w' by (auto simp: obj_ok_def)
  next
    case False
    then have "count (H - {#p#}) q = count H q" "count (P - {#p#}) q = count P q" by simp_all
    then show ?thesis using False pool_invD(3) [OF assms(1), of q] w' by simp
  qed
  ultimately show ?thesis unfolding w'_def [symmetric] by (simp add: pool_inv_def)
qed

lemma inv_new_object:
  assumes "pool_inv w H P" "fresh w addr" "crb_references b = 1" "pool_heap w' = (pool_heap w)(Buf addr \<mapsto> b)"
    "pool_bufs w' = pool_bufs w"
  shows "pool_inv w' (add_mset (Buf addr) H) P"
    and "crb_pool b \<Longrightarrow> pool_inv w' H (add_mset (Buf addr) P)"
proof -
  have none: "pool_heap w (Buf addr) = None" using assms(2) by (simp add: fresh_def)
  note new = not_live [OF assms(1) none]
  have table: "table_ok (pool_heap w') (pool_bufs w')"
    using pool_invD(1) [OF assms(1)] new assms(4,5) by (auto intro!: table_ok_heap [of "pool_heap w"] simp: data_at_def)
  have tmp: "pool_heap w' Tmp = None" using pool_invD(2) [OF assms(1)] assms(4) by simp
  have other: "obj_ok (pool_heap w' q) (count H q) (count P q) (q \<in># pool_contents w')" if "q \<noteq> Buf addr" for q
    using pool_invD(3) [OF assms(1), of q] that assms(4,5) by simp
  have self: "count H (Buf addr) = 0" "count P (Buf addr) = 0" "Buf addr \<notin># pool_contents w'" "refs_ok 1 1"
    using new assms(5) by (simp_all add: not_in_iff refs_ok_def)
  have "obj_ok (pool_heap w' q) (count (add_mset (Buf addr) H) q) (count P q) (q \<in># pool_contents w')" for q
    using other [of q] self assms(3,4) by (cases "q = Buf addr") (simp_all add: obj_ok_def)
  then show "pool_inv w' (add_mset (Buf addr) H) P" using table tmp by (simp add: pool_inv_def)
  assume "crb_pool b"
  then have "obj_ok (pool_heap w' q) (count H q) (count (add_mset (Buf addr) P) q) (q \<in># pool_contents w')" for q
    using other [of q] self assms(3,4) by (cases "q = Buf addr") (simp_all add: obj_ok_def)
  then show "pool_inv w' H (add_mset (Buf addr) P)" using table tmp by (simp add: pool_inv_def)
qed

section \<open>Every step keeps the invariant\<close>

lemma data_with_references [simp]: "data_at (pool_heap (with_references w p f)) q = data_at (pool_heap w) q"
  by (auto simp: with_references_def data_at_def split: option.splits)

lemma pool_bufs_with_references [simp]: "pool_bufs (with_references w p f) = pool_bufs w"
  by (auto simp: with_references_def split: option.splits)

lemma new_lookup_hit:
  assumes "new_lookup w data st = (Some p, w')" "pool_inv w H P"
  shows "w' = with_references w p CRYPTO_refcount_inc \<and> p \<in># pool_contents w \<and> data_at (pool_heap w) p = data \<and>
    (st \<longrightarrow> crb_data_is_static (the (pool_heap w p)))"
proof -
  define tmp where "tmp = \<lparr> crb_pool = False, crb_data = data, crb_references = 0, crb_data_is_static = False \<rparr>"
  define h where "h = (pool_heap w)(Tmp \<mapsto> tmp)"
  have dup: "find_duplicate h (pool_bufs w) Tmp st = Some p" "w' = with_references w p CRYPTO_refcount_inc"
    using assms(1) by (auto simp: new_lookup_def Let_def h_def tmp_def split: option.splits)
  have notmp: "q \<noteq> Tmp" if "q \<in># pool_contents w" for q using live [OF assms(2)] that by blast
  then have "table_ok h (pool_bufs w)"
    using pool_invD(1) [OF assms(2)] by (auto intro!: table_ok_heap [of "pool_heap w"] simp: data_at_def h_def)
  from find_duplicate_Some [OF dup(1) this] notmp [of p] dup(2) show ?thesis
    by (auto simp: h_def data_at_def tmp_def)
qed

lemma inv_hit: "new_lookup w data st = (Some p, w') \<Longrightarrow> pool_inv w H P \<Longrightarrow> pool_inv w' (add_mset p H) P"
  using new_lookup_hit live inv_acquire by metis

lemma new_object_made:
  assumes "new_object sys w addr data st in_pool = Some w'"
  obtains b where "pool_heap w' = (pool_heap w)(Buf addr \<mapsto> b)" "pool_bufs w' = pool_bufs w" "crb_references b = 1"
    "crb_pool b = in_pool" "crb_data b = data" "crb_data_is_static b = st"
proof -
  define b where "b = \<lparr> crb_pool = in_pool, crb_data = data, crb_references = 1, crb_data_is_static = st \<rparr>"
  have "w' = w\<lparr> pool_heap := (pool_heap w)(Buf addr \<mapsto> b) \<rparr>"
    using assms by (auto simp: new_object_def Let_def b_def split: if_splits option.splits)
  then show thesis by (intro that [of b]) (simp_all add: b_def)
qed

text \<open>Publishing hands the caller an interned buffer with the bytes of the private one, or nothing.\<close>

lemma inv_publish:
  assumes "pool_inv w H P" "p \<in># P" "lh_num_items (pool_bufs w) < SIZE_MAX" "new_publish sys w p = (r, w')"
  shows "pool_inv w' (H + gain r) (P - {#p#}) \<and>
    (case r of None \<Rightarrow> True
     | Some q \<Rightarrow> q \<in># pool_contents w' \<and> data_at (pool_heap w') q = data_at (pool_heap w) p \<and>
         (crb_data_is_static (the (pool_heap w p)) \<longrightarrow> crb_data_is_static (the (pool_heap w' q))))"
proof -
  obtain b where b: "pool_heap w p = Some b" "refs_ok (crb_references b) (count H p + count P p)"
    "crb_references b = 1" "crb_pool b" "p \<notin># pool_contents w" using live [OF assms(1)] assms(2) by metis
  then have one: "count H p + count P p = 1" by (auto simp: refs_ok_def CRYPTO_REFCOUNT_MAX_def)
  then have H0: "p \<notin># H" "count P p = 1" using assms(2) by (auto simp: not_in_iff simp flip: count_greater_zero_iff)
  note table = pool_invD(1) [OF assms(1)]
  show ?thesis
  proof (cases "find_duplicate (pool_heap w) (pool_bufs w) p (crb_data_is_static b)")
    case (Some dup)
    note d = find_duplicate_Some [OF Some table]
    obtain bd where bd: "pool_heap w dup = Some bd" "dup \<notin># P" using live [OF assms(1), of dup] d by metis
    have ne: "dup \<noteq> p" using d b(5) by auto
    define w1 where "w1 = with_references w dup CRYPTO_refcount_inc"
    have inv1: "pool_inv w1 (add_mset dup H) P" unfolding w1_def using inv_acquire [OF assms(1) bd] .
    have res: "r = Some dup" "w' = crypto_buffer_free_object w1 p"
      using assms(4) Some b(1) by (auto simp: new_publish_def w1_def)
    have "pool_inv w' (add_mset dup H - {#p#}) (P - {#p#})"
      unfolding res by (rule inv_drop_object [OF inv1]) (use b(5) ne one in \<open>simp_all add: w1_def\<close>)
    moreover have "add_mset dup H - {#p#} = H + gain r" using ne H0(1) res by (simp add: gain_def diff_single_trivial)
    ultimately show ?thesis using res d ne bd b(1)
      by (auto simp: crypto_buffer_free_object_def data_at_def w1_def with_references_def)
  next
    case None
    obtain ok old bufs' where ins: "lh_CRYPTO_BUFFER_insert sys (pool_heap w) (pool_bufs w) p = (ok, old, bufs')"
      by (cases "lh_CRYPTO_BUFFER_insert sys (pool_heap w) (pool_bufs w) p")
    note i = table_insert [OF table assms(3) ins]
    show ?thesis
    proof (cases ok)
      case False
      then have "r = None" "w' = crypto_buffer_free_object w p"
        using assms(4) None ins i b(1) by (auto simp: new_publish_def)
      then show ?thesis using inv_drop_object [OF assms(1) b(5) one] H0(1)
        by (simp add: gain_def diff_single_trivial)
    next
      case True
      then have res: "r = Some p" "w' = w\<lparr> pool_bufs := bufs' \<rparr>"
        using assms(4) None ins b(1) by (auto simp: new_publish_def)
      have mem: "q \<in># lh_contents bufs' \<Longrightarrow> q = p \<or> q \<in># pool_contents w" for q
        using i True by (auto split: option.splits dest: in_diffD)
      have "obj_ok (pool_heap w' q) (count (add_mset p H) q) (count (P - {#p#}) q) (q \<in># pool_contents w')" for q
      proof (cases "q = p")
        case True
        then show ?thesis using b H0 res by (simp add: obj_ok_def not_in_iff refs_ok_def)
      next
        case False
        then have "count (P - {#p#}) q = count P q" by simp
        then show ?thesis using False mem [of q] pool_invD(3) [OF assms(1), of q] res
          by (auto simp: obj_ok_def split: option.splits)
      qed
      then have "pool_inv w' (add_mset p H) (P - {#p#})"
        using i res pool_invD(2) [OF assms(1)] by (simp add: pool_inv_def)
      then show ?thesis using i True res b(1) by (simp add: gain_def)
    qed
  qed
qed

text \<open>Releasing a reference that is held never aborts.\<close>

lemma inv_release:
  assumes "pool_inv w H P" "p \<in># H"
  obtains w' where "CRYPTO_BUFFER_free sys w (Some p) = Some w'" "pool_inv w' (H - {#p#}) P"
    "\<And>q. q \<in># H - {#p#} \<Longrightarrow> data_at (pool_heap w') q = data_at (pool_heap w) q"
proof -
  obtain b where b: "pool_heap w p = Some b" "refs_ok (crb_references b) (count H p + count P p)"
    "p \<in># pool_contents w \<Longrightarrow> crb_pool b"
    "p \<in># P \<Longrightarrow> crb_references b = 1 \<and> crb_pool b \<and> p \<notin># pool_contents w" using live [OF assms(1)] assms(2) by metis
  have pos: "0 < count H p" using assms(2) by simp
  note table = pool_invD(1) [OF assms(1)]
  from b(2) show thesis
  proof (cases rule: refs_dec)
    case (more r')
    define w1 where "w1 = with_references w p (\<lambda>_. r')"
    have w1: "pool_heap w1 = (pool_heap w)(p \<mapsto> b\<lparr> crb_references := r' \<rparr>)" "pool_bufs w1 = pool_bufs w"
      using with_references_heap [OF b(1)] by (simp_all add: w1_def)
    have free: "CRYPTO_BUFFER_free sys w (Some p) = Some w1"
      using b(1) more(1) by (simp add: CRYPTO_BUFFER_free_def w1_def Let_def)
    have notP: "p \<notin># P"
    proof
      assume "p \<in># P"
      then have "CRYPTO_refcount_dec_and_test_zero (crb_references b) = Some (True, 0)"
        using b(4) by (simp add: CRYPTO_refcount_dec_and_test_zero_def CRYPTO_REFCOUNT_MAX_def)
      then show False using more(1) by simp
    qed
    have "obj_ok (pool_heap w1 q) (count (H - {#p#}) q) (count P q) (q \<in># pool_contents w1)" for q
    proof (cases "q = p")
      case True
      then show ?thesis using w1 more(2) pos b(3) notP by (simp add: obj_ok_def not_in_iff)
    next
      case False
      then have "count (H - {#p#}) q = count H q" by simp
      then show ?thesis using False pool_invD(3) [OF assms(1), of q] w1 by simp
    qed
    moreover have "table_ok (pool_heap w1) (pool_bufs w1)"
      using table w1 b(1) by (auto intro!: table_ok_heap [of "pool_heap w"] simp: data_at_def)
    moreover have "pool_heap w1 Tmp = None" using pool_invD(2) [OF assms(1)] w1 b(1) by auto
    ultimately have "pool_inv w1 (H - {#p#}) P" by (simp add: pool_inv_def)
    then show thesis using that [OF free] by (simp add: w1_def)
  next
    case last
    have one: "count H p + count P p = 1" "p \<notin># P" "count H p = 1"
      unfolding not_in_iff using pos last(2) by linarith+
    define w1 where "w1 = with_references w p (\<lambda>_. 0)"
    have w1: "pool_heap w1 = (pool_heap w)(p \<mapsto> b\<lparr> crb_references := 0 \<rparr>)" "pool_bufs w1 = pool_bufs w"
      using with_references_heap [OF b(1)] by (simp_all add: w1_def)
    define bufs2 where "bufs2 = (if crb_pool b \<and> lh_CRYPTO_BUFFER_retrieve (pool_heap w1) (pool_bufs w1) p = Some p
      then snd (lh_CRYPTO_BUFFER_delete sys (pool_heap w1) (pool_bufs w1) p) else pool_bufs w1)"
    define w2 where "w2 = w1\<lparr> pool_bufs := bufs2 \<rparr>"
    have free: "CRYPTO_BUFFER_free sys w (Some p) = Some (crypto_buffer_free_object w2 p)"
      using b(1) last(1) by (auto simp: CRYPTO_BUFFER_free_def w1_def [symmetric] Let_def w2_def bufs2_def
          crypto_buffer_free_object_def w1)
    have t1: "table_ok (pool_heap w1) (pool_bufs w1)"
      using table w1 b(1) by (auto intro!: table_ok_heap [of "pool_heap w"] simp: data_at_def)
    have t2: "table_ok (pool_heap w1) bufs2 \<and> lh_contents bufs2 = pool_contents w - {#p#}"
    proof (cases "p \<in># pool_contents w")
      case True
      then have "lh_CRYPTO_BUFFER_retrieve (pool_heap w1) (pool_bufs w1) p = Some p" "crb_pool b"
        using table_retrieve [OF t1] b(3) w1 by auto
      then show ?thesis
        using table_delete [OF t1, of sys p] w1 by (cases "lh_CRYPTO_BUFFER_delete sys (pool_heap w1) (pool_bufs w1) p")
          (auto simp: bufs2_def)
    next
      case False
      then have "lh_CRYPTO_BUFFER_retrieve (pool_heap w1) (pool_bufs w1) p \<noteq> Some p"
        using table_retrieve [OF t1] w1 by auto
      then show ?thesis using t1 False w1 by (simp add: bufs2_def diff_single_trivial)
    qed
    define w3 where "w3 = crypto_buffer_free_object w2 p"
    have w3: "pool_heap w3 = (pool_heap w)(p := None)" "pool_contents w3 = pool_contents w - {#p#}" "pool_bufs w3 = bufs2"
      using t2 by (simp_all add: w3_def w2_def crypto_buffer_free_object_def w1)
    have gone: "p \<notin># pool_contents w - {#p#}" using table_once [OF table] .
    have "obj_ok (pool_heap w3 q) (count (H - {#p#}) q) (count P q) (q \<in># pool_contents w3)" for q
    proof (cases "q = p")
      case True
      then show ?thesis using w3 one gone by (simp add: obj_ok_def not_in_iff)
    next
      case False
      then have "count (H - {#p#}) q = count H q" "q \<in># pool_contents w - {#p#} \<longleftrightarrow> q \<in># pool_contents w"
        by (auto simp flip: count_greater_zero_iff)
      then show ?thesis using False pool_invD(3) [OF assms(1), of q] w3 by simp
    qed
    moreover have "table_ok (pool_heap w3) (pool_bufs w3)"
    proof (rule table_ok_heap)
      show "table_ok (pool_heap w1) (pool_bufs w3)" using t2 w3(3) by simp
      show "data_at (pool_heap w3) q = data_at (pool_heap w1) q" if "q \<in># pool_contents w3" for q
        using that gone w3 w1 by (cases "q = p") (auto simp: data_at_def)
    qed
    moreover have "pool_heap w3 Tmp = None" using pool_invD(2) [OF assms(1)] w3 by simp
    ultimately have "pool_inv w3 (H - {#p#}) P" by (simp add: pool_inv_def)
    moreover have "data_at (pool_heap w3) q = data_at (pool_heap w) q" if "q \<in># H - {#p#}" for q
    proof -
      have "q \<noteq> p" using that one(3) by (auto simp flip: count_greater_zero_iff)
      then show ?thesis by (simp add: w3 data_at_def)
    qed
    ultimately show thesis using that free w3_def by metis
  qed
qed

section \<open>What holds of every reachable state\<close>

definition threads_inv :: "pool_threads \<Rightarrow> bool" where
  "threads_inv s \<longleftrightarrow> pool_inv (pt_pool s) (pt_held s) (pt_private s)"

lemma threads_start: "pool_start sys s \<Longrightarrow> threads_inv s"
  using lh_new_ok
  by (fastforce simp: pool_start_def CRYPTO_BUFFER_POOL_new_def threads_inv_def pool_inv_def table_ok_def obj_ok_def
      split: option.splits if_splits)

lemma alloc_made:
  assumes "CRYPTO_BUFFER_alloc sys w addr bytes = (Some p, w')"
  obtains b where "p = Buf addr" "pool_heap w' = (pool_heap w)(Buf addr \<mapsto> b)" "pool_bufs w' = pool_bufs w"
    "crb_references b = 1"
  using assms that by (auto simp: CRYPTO_BUFFER_alloc_def split: if_splits)

lemma threads_step: "pool_step s s' \<Longrightarrow> threads_inv s \<Longrightarrow> threads_inv s'"
proof (induction rule: pool_step.induct)
  case (new_hit w data st p w' H P)
  then show ?case using inv_hit by (simp add: threads_inv_def)
next
  case (new_private w addr sys data st w' H P)
  then show ?case using inv_new_object(2) by (auto simp: threads_inv_def elim!: new_object_made)
next
  case (publish p P w sys r w' H)
  then show ?case using inv_publish by (auto simp: threads_inv_def)
next
  case (new_unpooled w addr sys data st w' H P)
  then show ?case using inv_new_object(1) by (auto simp: threads_inv_def elim!: new_object_made)
next
  case (allocate w addr sys bytes p w' H P)
  then show ?case using inv_new_object(1) by (auto simp: threads_inv_def elim!: alloc_made)
next
  case (up_ref p H w P)
  show ?case
  proof (cases "p \<in># P")
    case True
    then show ?thesis using up_ref live [of w H P p] pool_invD(3) [of w H P p]
      by (auto simp: threads_inv_def obj_ok_def refs_ok_def CRYPTO_REFCOUNT_MAX_def simp flip: count_greater_zero_iff split: option.splits)
  next
    case False
    have inv: "pool_inv w H P" using up_ref by (simp add: threads_inv_def)
    then obtain b where "pool_heap w p = Some b" using live up_ref.hyps by metis
    then show ?thesis using inv_acquire [OF inv _ False] by (simp add: threads_inv_def CRYPTO_BUFFER_up_ref_def)
  qed
next
  case (release p H sys w w' P)
  then show ?case using inv_release [of w H P p sys] by (auto simp: threads_inv_def)
qed

lemma threads_reachable: "pool_start sys s \<Longrightarrow> pool_step\<^sup>*\<^sup>* s s' \<Longrightarrow> threads_inv s'"
  by (rotate_tac 1, induction rule: rtranclp_induct) (auto intro: threads_start threads_step)

text \<open>
  C30. Whatever the threads do, in whatever order their critical sections run, every reference a thread
  holds is to a live buffer, which it can release without an abort. The table only points to live
  buffers and no two of them have the same bytes. A count that has not saturated is exactly the
  number of references, so a buffer is freed with its last reference, neither earlier nor later.
\<close>

theorem pool_never_dangles:
  assumes "pool_start sys0 s0" "pool_step\<^sup>*\<^sup>* s0 s"
  shows "(\<forall>p \<in># pt_held s. pool_heap (pt_pool s) p \<noteq> None \<and> CRYPTO_BUFFER_free sys (pt_pool s) (Some p) \<noteq> None) \<and>
    (\<forall>p \<in># pool_contents (pt_pool s). pool_heap (pt_pool s) p \<noteq> None \<and>
      (\<forall>q \<in># pool_contents (pt_pool s).
        CRYPTO_BUFFER_data (pt_pool s) p = CRYPTO_BUFFER_data (pt_pool s) q \<longrightarrow> p = q)) \<and>
    (\<forall>p b. pool_heap (pt_pool s) p = Some b \<longrightarrow> crb_references b \<noteq> CRYPTO_REFCOUNT_MAX \<longrightarrow>
      0 < crb_references b \<and> unat (crb_references b) = count (pt_held s) p + count (pt_private s) p)"
proof -
  have inv: "pool_inv (pt_pool s) (pt_held s) (pt_private s)"
    using threads_reachable [OF assms] by (simp add: threads_inv_def)
  have "pool_heap (pt_pool s) p \<noteq> None \<and> CRYPTO_BUFFER_free sys (pt_pool s) (Some p) \<noteq> None"
    if "p \<in># pt_held s" for p
    using inv_release [OF inv that, of sys] live [OF inv, of p] that by (metis option.distinct(1))
  moreover have "pool_heap (pt_pool s) p \<noteq> None" if "p \<in># pool_contents (pt_pool s)" for p
    using live [OF inv, of p] that by (metis option.distinct(1))
  moreover have "p = q" if "p \<in># pool_contents (pt_pool s)" "q \<in># pool_contents (pt_pool s)"
    "CRYPTO_BUFFER_data (pt_pool s) p = CRYPTO_BUFFER_data (pt_pool s) q" for p q
    using table_distinct [OF pool_invD(1) [OF inv] that(1,2)] that(3) by (simp add: CRYPTO_BUFFER_data_def data_at_def)
  moreover have "0 < crb_references b \<and> unat (crb_references b) = count (pt_held s) p + count (pt_private s) p"
    if "pool_heap (pt_pool s) p = Some b" "crb_references b \<noteq> CRYPTO_REFCOUNT_MAX" for p b
  proof -
    define n where "n = count (pt_held s) p + count (pt_private s) p"
    have "refs_ok (crb_references b) n" using pool_invD(3) [OF inv, of p] that(1) by (simp add: obj_ok_def n_def)
    then have "0 < n" "unat (crb_references b) = n" using that(2) by (auto simp: refs_ok_def)
    moreover from this have "0 < crb_references b" by (metis gr_zeroI unat_0 word_gt_0 less_irrefl)
    ultimately show ?thesis unfolding n_def by blast
  qed
  ultimately show ?thesis by blast
qed

lemma pool_start_exists: "\<exists>s. pool_start (\<lambda>_. True) s"
proof -
  obtain bufs :: "buffer_ptr lhash" where "OPENSSL_lh_new (\<lambda>_. True) = Some bufs"
    by (auto simp: OPENSSL_lh_new_def OPENSSL_malloc_def LHASH_SIZE_def ITEM_PTR_SIZE_def kMinNumBuckets_def
        OPENSSL_MALLOC_PREFIX_def size_t_def)
  then show ?thesis
    by (auto simp: pool_start_def CRYPTO_BUFFER_POOL_new_def CRYPTO_BUFFER_POOL_SIZE_def OPENSSL_malloc_def
        OPENSSL_MALLOC_PREFIX_def size_t_def)
qed

text \<open>An unpooled buffer made, shared once and released once is still there.\<close>

lemma pool_never_dangles_witness:
  "\<exists>s0 s. pool_start (\<lambda>_. True) s0 \<and> pool_step\<^sup>*\<^sup>* s0 s \<and> pt_held s = {#Buf 1#} \<and>
    CRYPTO_BUFFER_free (\<lambda>_. True) (pt_pool s) (Some (Buf 1)) \<noteq> None"
proof -
  obtain s0 where s0: "pool_start (\<lambda>_. True) s0" using pool_start_exists by blast
  then obtain w where w: "s0 = \<lparr> pt_pool = w, pt_held = {#}, pt_private = {#} \<rparr>" "pool_heap w = (\<lambda>_. None)"
    by (auto simp: pool_start_def CRYPTO_BUFFER_POOL_new_def split: option.splits if_splits)
  define w' where "w' = snd (CRYPTO_BUFFER_alloc (\<lambda>_. True) w 1 [7])"
  have "CRYPTO_BUFFER_alloc (\<lambda>_. True) w 1 [7] = (Some (Buf 1), w')"
    by (simp add: w'_def CRYPTO_BUFFER_alloc_def OPENSSL_malloc_def CRYPTO_BUFFER_SIZE_def OPENSSL_MALLOC_PREFIX_def size_t_def)
  then have "pool_step s0 \<lparr> pt_pool = w', pt_held = {#Buf 1#}, pt_private = {#} \<rparr>"
    using pool_step.allocate [of w 1 "\<lambda>_. True" "[7]" "Buf 1" w' "{#}" "{#}"] w by (simp add: fresh_def)
  then have reach: "pool_step\<^sup>*\<^sup>* s0 \<lparr> pt_pool = w', pt_held = {#Buf 1#}, pt_private = {#} \<rparr>" by blast
  show ?thesis using pool_never_dangles [OF s0 reach, of "\<lambda>_. True"] s0 reach
    by (intro exI [of _ s0] exI [of _ "\<lparr> pt_pool = w', pt_held = {#Buf 1#}, pt_private = {#} \<rparr>"]) simp
qed

section \<open>Interning\<close>

definition static_at :: "buffer_heap \<Rightarrow> buffer_ptr \<Rightarrow> bool" where
  "static_at h p = crb_data_is_static (the (h p))"

lemma static_with_references [simp]: "static_at (pool_heap (with_references w p f)) q = static_at (pool_heap w) q"
  by (auto simp: with_references_def static_at_def split: option.splits)

lemma data_static_other:
  "q \<noteq> p \<Longrightarrow> data_at (h(q := x)) p = data_at h p \<and> static_at (h(q := x)) p = static_at h p"
  by (simp add: data_at_def static_at_def)

lemma free_object_other:
  "q \<noteq> p \<Longrightarrow> data_at (pool_heap (crypto_buffer_free_object w q)) p = data_at (pool_heap w) p \<and>
    static_at (pool_heap (crypto_buffer_free_object w q)) p = static_at (pool_heap w) p"
  by (simp add: crypto_buffer_free_object_def data_static_other)

lemma free_object_bufs [simp]: "pool_bufs (crypto_buffer_free_object w q) = pool_bufs w"
  by (simp add: crypto_buffer_free_object_def)

lemma in_diff_other: "q \<noteq> p \<Longrightarrow> p \<in># M - {#q#} \<longleftrightarrow> p \<in># M"
  by (simp add: in_diff_count flip: count_greater_zero_iff)

lemma new_lookup_found:
  assumes "pool_inv w H P" "p \<in># pool_contents w" "data_at (pool_heap w) p = data" "st \<Longrightarrow> static_at (pool_heap w) p"
  shows "new_lookup w data st = (Some p, CRYPTO_BUFFER_up_ref w p)"
proof -
  define tmp where "tmp = \<lparr> crb_pool = False, crb_data = data, crb_references = 0, crb_data_is_static = False \<rparr>"
  define h where "h = (pool_heap w)(Tmp \<mapsto> tmp)"
  have notmp: "q \<noteq> Tmp" if "q \<in># pool_contents w" for q using live [OF assms(1)] that by blast
  then have "table_ok h (pool_bufs w)"
    using pool_invD(1) [OF assms(1)] by (auto intro!: table_ok_heap [of "pool_heap w"] simp: data_at_def h_def)
  then have "lh_CRYPTO_BUFFER_retrieve h (pool_bufs w) Tmp = Some p"
    using table_retrieve assms(2,3) notmp [OF assms(2)] by (auto simp: h_def data_at_def tmp_def)
  moreover have "st \<Longrightarrow> crb_data_is_static (the (h p))"
    using assms(4) notmp [OF assms(2)] by (simp add: h_def static_at_def)
  ultimately show ?thesis
    by (auto simp: new_lookup_def Let_def h_def [symmetric] tmp_def [symmetric] find_duplicate_def CRYPTO_BUFFER_up_ref_def)
qed

text \<open>
  A step that keeps the entry \<open>p\<close>: some thread still holds a reference to \<open>p\<close> afterwards, and unless the
  bytes of \<open>p\<close> are static no thread is about to publish a buffer with the same bytes as static data.
\<close>

definition keeps_entry :: "buffer_ptr \<Rightarrow> pool_threads \<Rightarrow> pool_threads \<Rightarrow> bool" where
  "keeps_entry p s t \<longleftrightarrow> pool_step s t \<and> p \<in># pt_held t \<and>
     (static_at (pool_heap (pt_pool s)) p \<or>
      (\<forall>q \<in># pt_private s. data_at (pool_heap (pt_pool s)) q = data_at (pool_heap (pt_pool s)) p \<longrightarrow>
         \<not> static_at (pool_heap (pt_pool s)) q))"

definition entry :: "crypto_pool \<Rightarrow> buffer_ptr \<Rightarrow> u8 list \<Rightarrow> bool \<Rightarrow> bool" where
  "entry w p data st \<longleftrightarrow> p \<in># pool_contents w \<and> data_at (pool_heap w) p = data \<and> static_at (pool_heap w) p = st"

lemma entry_with_references [simp]: "entry (with_references w q f) p data st = entry w p data st"
  by (simp add: entry_def)

lemma entry_new_object:
  assumes "pool_inv w H P" "entry w p data st" "fresh w addr" "pool_heap w' = (pool_heap w)(Buf addr \<mapsto> b)"
    "pool_bufs w' = pool_bufs w"
  shows "entry w' p data st"
proof -
  have "Buf addr \<noteq> p" using not_live [OF assms(1)] assms(2,3) by (auto simp: entry_def fresh_def)
  then show ?thesis using assms(2,4,5) by (simp add: entry_def data_static_other)
qed

lemma entry_publish:
  assumes "pool_inv w H P" "entry w p data st" "q \<in># P" "lh_num_items (pool_bufs w) < SIZE_MAX"
    "new_publish sys w q = (r, w')" "st \<or> (data_at (pool_heap w) q = data \<longrightarrow> \<not> static_at (pool_heap w) q)"
  shows "entry w' p data st"
proof -
  obtain b where b: "pool_heap w q = Some b" "q \<notin># pool_contents w" using live [OF assms(1)] assms(3) by metis
  then have ne: "q \<noteq> p" using assms(2) by (auto simp: entry_def)
  show ?thesis
  proof (cases "find_duplicate (pool_heap w) (pool_bufs w) q (crb_data_is_static b)")
    case (Some dup)
    then have "w' = crypto_buffer_free_object (with_references w dup CRYPTO_refcount_inc) q"
      using assms(5) b(1) by (auto simp: new_publish_def)
    then show ?thesis using assms(2) ne by (simp add: entry_def free_object_other)
  next
    case None
    obtain ok old bufs' where ins: "lh_CRYPTO_BUFFER_insert sys (pool_heap w) (pool_bufs w) q = (ok, old, bufs')"
      by (cases "lh_CRYPTO_BUFFER_insert sys (pool_heap w) (pool_bufs w) q")
    note table = pool_invD(1) [OF assms(1)]
    note i = table_insert [OF table assms(4) ins]
    have w': "w' = (if ok then w\<lparr> pool_bufs := bufs' \<rparr> else crypto_buffer_free_object w q)"
      using assms(5) None ins i b(1) by (auto simp: new_publish_def)
    have "old \<noteq> Some p"
    proof
      assume "old = Some p"
      then have "lh_CRYPTO_BUFFER_retrieve (pool_heap w) (pool_bufs w) q = Some p" using i by simp
      moreover from this have "data_at (pool_heap w) q = data" using table_retrieve [OF table] assms(2) by (simp add: entry_def)
      ultimately show False using None assms(2,6) b(1)
        by (auto simp: find_duplicate_def entry_def static_at_def split: if_splits)
    qed
    then have "p \<in># lh_contents bufs'" if ok using i that assms(2) by (auto simp: entry_def in_diff_other split: option.splits)
    then show ?thesis using w' assms(2) ne by (auto simp: entry_def free_object_other)
  qed
qed

lemma entry_release:
  assumes "pool_inv w H P" "entry w p data st" "CRYPTO_BUFFER_free sys w (Some q) = Some w'" "pool_heap w' p \<noteq> None"
  shows "entry w' p data st"
proof -
  obtain b zero refs where b: "pool_heap w q = Some b" "CRYPTO_refcount_dec_and_test_zero (crb_references b) = Some (zero, refs)"
    using assms(3) by (auto simp: CRYPTO_BUFFER_free_def split: option.splits)
  define v where "v = with_references w q (\<lambda>_. refs)"
  have v: "entry v p data st" "table_ok (pool_heap v) (pool_bufs v)"
    using assms(2) pool_invD(1) [OF assms(1)] by (auto simp: v_def intro!: table_ok_heap [of "pool_heap w"])
  define u where "u = (if lh_CRYPTO_BUFFER_retrieve (pool_heap v) (pool_bufs v) q = Some q
    then v\<lparr> pool_bufs := snd (lh_CRYPTO_BUFFER_delete sys (pool_heap v) (pool_bufs v) q) \<rparr> else v)"
  have w': "w' = (if \<not> zero then v else crypto_buffer_free_object (if crb_pool b then u else v) q)"
    using assms(3) b by (simp add: CRYPTO_BUFFER_free_def v_def [symmetric] u_def Let_def split: if_splits)
  show ?thesis
  proof (cases zero)
    case True
    then have ne: "q \<noteq> p" using w' assms(4) by (auto simp: crypto_buffer_free_object_def split: if_splits)
    have "entry u p data st"
      using table_delete [OF v(2) surjective_pairing, of sys q] v(1) ne
      by (auto simp: u_def entry_def in_diff_other)
    then show ?thesis using w' v(1) ne True by (simp add: entry_def free_object_other)
  qed (use w' v in simp)
qed

lemma entry_step:
  assumes "keeps_entry p s t" "threads_inv s" "entry (pt_pool s) p data st"
  shows "entry (pt_pool t) p data st"
proof -
  have k: "pool_step s t" "p \<in># pt_held t" "st \<or> (\<forall>q \<in># pt_private s. data_at (pool_heap (pt_pool s)) q = data \<longrightarrow>
      \<not> static_at (pool_heap (pt_pool s)) q)"
    using assms by (auto simp: keeps_entry_def entry_def)
  have inv: "threads_inv t" using threads_step k(1) assms(2) by blast
  show ?thesis using k(1)
  proof cases
    case (new_hit w bytes b x w' H P)
    then have "w' = with_references w x CRYPTO_refcount_inc"
      using new_lookup_hit assms(2) by (auto simp: threads_inv_def)
    then show ?thesis using new_hit assms(3) by simp
  next
    case (new_private w addr sys bytes b w' H P)
    then show ?thesis using entry_new_object assms(2,3) by (auto simp: threads_inv_def elim!: new_object_made)
  next
    case (publish q P w sys r w' H)
    then show ?thesis using entry_publish [of w H P p data st q sys r w'] assms(2,3) k(3) by (auto simp: threads_inv_def)
  next
    case (new_unpooled w addr sys bytes b w' H P)
    then show ?thesis using entry_new_object assms(2,3) by (auto simp: threads_inv_def elim!: new_object_made)
  next
    case (allocate w addr sys bytes q w' H P)
    then show ?thesis using entry_new_object assms(2,3) by (auto simp: threads_inv_def elim!: alloc_made)
  next
    case (up_ref q H w P)
    then show ?thesis using assms(3) by (simp add: CRYPTO_BUFFER_up_ref_def)
  next
    case (release q H sys w w' P)
    then have "pool_heap w' p \<noteq> None" using live [of w' "H - {#q#}" P p] inv k(2) by (auto simp: threads_inv_def)
    then show ?thesis using release entry_release assms(2,3) by (auto simp: threads_inv_def)
  qed
qed

lemma entry_steps:
  "(keeps_entry p)\<^sup>*\<^sup>* s t \<Longrightarrow> threads_inv s \<Longrightarrow> entry (pt_pool s) p data st \<Longrightarrow>
    threads_inv t \<and> entry (pt_pool t) p data st"
proof (induction rule: rtranclp_induct)
  case (step t u)
  then have "pool_step t u" by (simp add: keeps_entry_def)
  then show ?case using step entry_step threads_step by blast
qed simp

text \<open>\<open>crypto_buffer_new\<close> on a pool is a run of steps, after which the caller holds an entry of the table.\<close>

lemma new_pooled:
  assumes "pool_inv w H P" "fresh w addr" "lh_num_items (pool_bufs w) < SIZE_MAX"
    "crypto_buffer_new sys w addr data st True = (Some p, w')"
  shows "pool_step\<^sup>*\<^sup>* \<lparr> pt_pool = w, pt_held = H, pt_private = P \<rparr> \<lparr> pt_pool = w', pt_held = add_mset p H, pt_private = P \<rparr> \<and>
    p \<in># pool_contents w' \<and> data_at (pool_heap w') p = data \<and> (st \<longrightarrow> static_at (pool_heap w') p)"
proof (cases "new_lookup w data st")
  case (Pair dup w1)
  show ?thesis
  proof (cases dup)
    case (Some q)
    then have hit: "new_lookup w data st = (Some p, w')" using assms(4) Pair by (simp add: crypto_buffer_new_def)
    then show ?thesis using new_lookup_hit [OF hit assms(1)] pool_step.new_hit [OF hit]
      by (auto simp flip: static_at_def)
  next
    case None
    then have "w1 = w" using Pair by (auto simp: new_lookup_def Let_def split: option.splits)
    then obtain w2 where w2: "new_object sys w addr data st True = Some w2" "new_publish sys w2 (Buf addr) = (Some p, w')"
      using assms(4) Pair None by (auto simp: crypto_buffer_new_def split: option.splits)
    from w2(1) obtain b where b: "pool_heap w2 = (pool_heap w)(Buf addr \<mapsto> b)" "pool_bufs w2 = pool_bufs w" "crb_references b = 1"
      "crb_pool b = True" "crb_data b = data" "crb_data_is_static b = st" by (rule new_object_made)
    have inv2: "pool_inv w2 H (add_mset (Buf addr) P)" using inv_new_object(2) [OF assms(1,2) b(3,1,2)] b(4) by simp
    have n: "lh_num_items (pool_bufs w2) < SIZE_MAX" using assms(3) b(2) by simp
    note steps = pool_step.new_private [OF assms(2) w2(1), of H P]
      pool_step.publish [OF _ n w2(2), of "add_mset (Buf addr) P" H]
    have "pool_step\<^sup>*\<^sup>* \<lparr> pt_pool = w, pt_held = H, pt_private = P \<rparr> \<lparr> pt_pool = w', pt_held = add_mset p H, pt_private = P \<rparr>"
      by (rule rtranclp.rtrancl_into_rtrancl [OF r_into_rtranclp]) (use steps in \<open>simp_all add: gain_def\<close>)
    then show ?thesis using inv_publish [OF inv2 _ n w2(2)] b by (auto simp: data_at_def static_at_def)
  qed
qed

text \<open>
  C31. \<open>crypto_buffer_new\<close> on a pool returns a buffer with the given bytes, with static data if
  that was asked for, and interns it: whatever the threads do then, as long as one of them holds a reference to the
  buffer and it is not replaced (which only happens when its data is not static and the same bytes are
  published as static data), it keeps its bytes and every later request for them returns this very
  buffer with one more reference. A later request for static data gets it if its data is static.
\<close>

theorem new_buffer_interned:
  assumes "pool_start sys0 s0" "pool_step\<^sup>*\<^sup>* s0 s" "fresh (pt_pool s) addr"
    and "lh_num_items (pool_bufs (pt_pool s)) < SIZE_MAX"
    and "crypto_buffer_new sys (pt_pool s) addr data st True = (Some p, w)"
    and "(keeps_entry p)\<^sup>*\<^sup>* (s\<lparr> pt_pool := w, pt_held := add_mset p (pt_held s) \<rparr>) t"
  shows "CRYPTO_BUFFER_data (pt_pool t) p = data \<and> (st \<longrightarrow> crb_data_is_static (the (pool_heap (pt_pool t) p))) \<and>
    ((later_st \<longrightarrow> crb_data_is_static (the (pool_heap (pt_pool t) p))) \<longrightarrow>
      crypto_buffer_new later_sys (pt_pool t) later_addr data later_st True = (Some p, CRYPTO_BUFFER_up_ref (pt_pool t) p))"
proof -
  define s' where "s' = s\<lparr> pt_pool := w, pt_held := add_mset p (pt_held s) \<rparr>"
  have inv: "pool_inv (pt_pool s) (pt_held s) (pt_private s)"
    using threads_reachable [OF assms(1,2)] by (simp add: threads_inv_def)
  note new = new_pooled [OF inv assms(3-5)]
  have "pool_step\<^sup>*\<^sup>* s s'" using new by (cases s) (simp add: s'_def)
  with assms(2) have "pool_step\<^sup>*\<^sup>* s0 s'" by (rule rtranclp_trans)
  then have "threads_inv s'" using threads_reachable [OF assms(1)] by blast
  moreover have "entry (pt_pool s') p data (static_at (pool_heap w) p)" using new by (simp add: entry_def s'_def)
  ultimately have t: "threads_inv t" "entry (pt_pool t) p data (static_at (pool_heap w) p)"
    using entry_steps assms(6) by (simp_all add: s'_def)
  then have "later_st \<longrightarrow> static_at (pool_heap (pt_pool t)) p \<Longrightarrow>
      new_lookup (pt_pool t) data later_st = (Some p, CRYPTO_BUFFER_up_ref (pt_pool t) p)"
    using new_lookup_found by (simp add: threads_inv_def entry_def)
  then show ?thesis using t(2) new
    by (auto simp: entry_def static_at_def data_at_def CRYPTO_BUFFER_data_def crypto_buffer_new_def)
qed

text \<open>Another thread takes a reference in between.\<close>

theorem new_buffer_interned_witness:
  "\<exists>s0 p w t. pool_start (\<lambda>_. True) s0 \<and>
    crypto_buffer_new (\<lambda>_. True) (pt_pool s0) 1 [1, 2] False True = (Some p, w) \<and>
    keeps_entry p (s0\<lparr> pt_pool := w, pt_held := {#p#} \<rparr>) t \<and> pt_held t = {#p, p#} \<and>
    CRYPTO_BUFFER_new (\<lambda>_. True) (pt_pool t) 2 [1, 2] True = (Some p, CRYPTO_BUFFER_up_ref (pt_pool t) p)"
proof -
  obtain s0 where s0: "pool_start (\<lambda>_. True) s0" using pool_start_exists by blast
  then obtain w bufs where bufs: "OPENSSL_lh_new (\<lambda>_. True) = Some bufs" "w = \<lparr> pool_heap = \<lambda>_. None, pool_bufs = bufs \<rparr>"
    and empty: "s0 = \<lparr> pt_pool = w, pt_held = {#}, pt_private = {#} \<rparr>"
    by (auto simp: pool_start_def CRYPTO_BUFFER_POOL_new_def split: option.splits if_splits)
  then have w: "pool_heap w = (\<lambda>_. None)" "lh_num_items (pool_bufs w) < SIZE_MAX"
    using lh_new_ok [OF bufs(1), of "\<lambda>_. 0" "\<lambda>_ _. 0"] by (simp_all add: SIZE_MAX_def)
  define r where "r = crypto_buffer_new (\<lambda>_. True) w 1 [1, 2] False True"
  have "fst r \<noteq> None"
  proof -
    have mem: "OPENSSL_malloc (\<lambda>_. True) CRYPTO_BUFFER_SIZE" "OPENSSL_memdup (\<lambda>_. True) [1, 2 :: u8] = Some [1, 2]"
      "OPENSSL_malloc (\<lambda>_. True) LHASH_ITEM_SIZE"
      by (simp_all add: OPENSSL_malloc_def OPENSSL_memdup_def CRYPTO_BUFFER_SIZE_def OPENSSL_MALLOC_PREFIX_def
          LHASH_ITEM_SIZE_def size_t_def)
    have "fst (lh_CRYPTO_BUFFER_insert (\<lambda>_. True) h bufs q)" for h bufs q
      using mem(3) by (auto simp: lh_CRYPTO_BUFFER_insert_def OPENSSL_lh_insert_def Let_def split: prod.splits option.splits)
    then have "fst (new_publish (\<lambda>_. True) u q) \<noteq> None" for u q
      by (auto simp: new_publish_def Let_def split: prod.splits option.splits)
        (metis fst_conv)
    moreover have "\<exists>u. new_object (\<lambda>_. True) v 1 [1, 2] False True = Some u" for v
      using mem by (simp add: new_object_def Let_def)
    moreover obtain dup v where "new_lookup w [1, 2] False = (dup, v)" by (cases "new_lookup w [1, 2] False")
    ultimately show ?thesis unfolding r_def crypto_buffer_new_def
      by (metis (mono_tags, lifting) case_prod_conv fst_conv option.case_eq_if option.distinct(1) option.sel)
  qed
  then obtain p w' where r: "crypto_buffer_new (\<lambda>_. True) w 1 [1, 2] False True = (Some p, w')"
    unfolding r_def by (cases "crypto_buffer_new (\<lambda>_. True) w 1 [1, 2] False True") auto
  define s1 where "s1 = s0\<lparr> pt_pool := w', pt_held := {#p#} \<rparr>"
  define t where "t = \<lparr> pt_pool = CRYPTO_BUFFER_up_ref w' p, pt_held = {#p, p#}, pt_private = {#} \<rparr>"
  have "pool_step s1 t" using pool_step.up_ref [of p "{#p#}" w' "{#}"] by (simp add: s1_def t_def empty)
  then have k: "keeps_entry p s1 t" by (simp add: keeps_entry_def s1_def t_def empty)
  then have "(keeps_entry p)\<^sup>*\<^sup>* s1 t" by (rule r_into_rtranclp)
  then have run: "(keeps_entry p)\<^sup>*\<^sup>* (s0\<lparr> pt_pool := w', pt_held := add_mset p (pt_held s0) \<rparr>) t"
    by (simp add: s1_def empty)
  have "fresh (pt_pool s0) 1" using w by (simp add: fresh_def empty)
  have n: "lh_num_items (pool_bufs (pt_pool s0)) < SIZE_MAX" using w(2) by (simp add: empty)
  have r0: "crypto_buffer_new (\<lambda>_. True) (pt_pool s0) 1 [1, 2] False True = (Some p, w')" using r by (simp add: empty)
  from new_buffer_interned [OF s0 rtranclp.rtrancl_refl \<open>fresh (pt_pool s0) 1\<close> n r0 run, of False "\<lambda>_. True" 2]
  have "CRYPTO_BUFFER_new (\<lambda>_. True) (pt_pool t) 2 [1, 2] True = (Some p, CRYPTO_BUFFER_up_ref (pt_pool t) p)"
    by (simp add: CRYPTO_BUFFER_new_def)
  moreover have "pt_held t = {#p, p#}" by (simp add: t_def)
  ultimately show ?thesis using s0 r0 k unfolding s1_def by blast
qed

end
